(* ===== verification/Prelude.thy ===== *)
theory Prelude
  imports Main "HOL-Library.Word"
begin

text \<open>
  Shared vocabulary of the development: the machine integer types, the byte layouts that
  \<open>be32toh\<close>, \<open>htobe32\<close>, \<open>htobe64\<close> and \<open>le32toh\<close> denote, the
  effect of \<open>memcpy\<close> on a byte array, and the list lemmas the components share.
  The collection \<open>layout\<close> holds the facts that compute array lengths and
  contents, \<open>bytes\<close> the facts about byte orders.
\<close>

unbundle bit_operations_syntax

named_theorems layout
named_theorems bytes

type_synonym u8 = "8 word"
type_synonym u16 = "16 word"
type_synonym u32 = "32 word"
type_synonym u64 = "64 word"

section \<open>Writing a run of elements into an array\<close>

definition memcpy_at :: "'a list \<Rightarrow> nat \<Rightarrow> 'a list \<Rightarrow> 'a list" where
  "memcpy_at dst off src = take off dst @ src @ drop (off + length src) dst"

lemma length_memcpy_at [layout]:
  "off + length src \<le> length dst \<Longrightarrow> length (memcpy_at dst off src) = length dst"
  by (simp add: memcpy_at_def)

lemma take_memcpy_at [layout]:
  "off \<le> length dst \<Longrightarrow> take off (memcpy_at dst off src) = take off dst"
  by (simp add: memcpy_at_def)

lemma take_memcpy_at_end [layout]:
  "off \<le> length dst \<Longrightarrow> take (off + length src) (memcpy_at dst off src) = take off dst @ src"
  by (simp add: memcpy_at_def)

lemma memcpy_at_0_full [layout]: "length src = length dst \<Longrightarrow> memcpy_at dst 0 src = src"
  by (simp add: memcpy_at_def)

lemma memcpy_at_nil [layout]: "memcpy_at dst off [] = dst"
  by (simp add: memcpy_at_def)

lemma nth_memcpy_at:
  assumes "off + length src \<le> length dst" and "i < length dst"
  shows "memcpy_at dst off src ! i =
    (if i < off then dst ! i else if i < off + length src then src ! (i - off) else dst ! i)"
  using assms by (auto simp: memcpy_at_def nth_append min_def)

definition sub_list :: "'a list \<Rightarrow> nat \<Rightarrow> nat \<Rightarrow> 'a list" where
  "sub_list xs off n = take n (drop off xs)"

lemma length_sub_list [layout]:
  "off + n \<le> length xs \<Longrightarrow> length (sub_list xs off n) = n"
  by (simp add: sub_list_def)

section \<open>Byte orders\<close>

definition be32_bytes :: "u32 \<Rightarrow> u8 list" where
  "be32_bytes w = [ucast (drop_bit 24 w), ucast (drop_bit 16 w), ucast (drop_bit 8 w), ucast w]"

definition be32_word :: "u8 list \<Rightarrow> u32" where
  "be32_word bs = push_bit 24 (ucast (bs ! 0)) OR push_bit 16 (ucast (bs ! 1))
     OR push_bit 8 (ucast (bs ! 2)) OR ucast (bs ! 3)"

definition le32_bytes :: "u32 \<Rightarrow> u8 list" where
  "le32_bytes w = [ucast w, ucast (drop_bit 8 w), ucast (drop_bit 16 w), ucast (drop_bit 24 w)]"

definition le32_word :: "u8 list \<Rightarrow> u32" where
  "le32_word bs = ucast (bs ! 0) OR push_bit 8 (ucast (bs ! 1))
     OR push_bit 16 (ucast (bs ! 2)) OR push_bit 24 (ucast (bs ! 3))"

definition be64_bytes :: "u64 \<Rightarrow> u8 list" where
  "be64_bytes w = map (\<lambda>i. ucast (drop_bit (8 * i) w)) [7, 6, 5, 4, 3, 2, 1, 0]"

definition le64_bytes :: "u64 \<Rightarrow> u8 list" where
  "le64_bytes w = map (\<lambda>i. ucast (drop_bit (8 * i) w)) [0, 1, 2, 3, 4, 5, 6, 7]"

lemma length_be32_bytes [layout]: "length (be32_bytes w) = 4"
  by (simp add: be32_bytes_def)

lemma length_le32_bytes [layout]: "length (le32_bytes w) = 4"
  by (simp add: le32_bytes_def)

lemma length_be64_bytes [layout]: "length (be64_bytes w) = 8"
  by (simp add: be64_bytes_def)

lemma length_le64_bytes [layout]: "length (le64_bytes w) = 8"
  by (simp add: le64_bytes_def)

lemma byte_range_cases:
  assumes "(n::nat) < 32"
  obtains "n < 8" | "8 \<le> n" "n < 16" | "16 \<le> n" "n < 24" | "24 \<le> n" "n < 32"
  using assms by linarith

lemma be32_word_bytes [bytes]: "be32_word (be32_bytes w) = w"
proof (rule bit_word_eqI)
  fix n assume "n < LENGTH(32)"
  then have "n < 32" by simp
  then show "bit (be32_word (be32_bytes w)) n = bit w n"
    by (cases rule: byte_range_cases) (auto simp: be32_word_def be32_bytes_def bit_simps)
qed

lemma le32_word_bytes [bytes]: "le32_word (le32_bytes w) = w"
proof (rule bit_word_eqI)
  fix n assume "n < LENGTH(32)"
  then have "n < 32" by simp
  then show "bit (le32_word (le32_bytes w)) n = bit w n"
    by (cases rule: byte_range_cases) (auto simp: le32_word_def le32_bytes_def bit_simps)
qed

lemma list4_cases: "length bs = 4 \<Longrightarrow> \<exists>a b c d. bs = [a, b, c, d]"
  by (auto simp: numeral_eq_Suc length_Suc_conv)

lemma be32_bytes_word [bytes]:
  assumes "length bs = 4" shows "be32_bytes (be32_word bs) = bs"
proof -
  obtain a b c d where "bs = [a, b, c, d]" using list4_cases [OF assms] by blast
  then show ?thesis
    by (auto simp: be32_word_def be32_bytes_def bit_simps impossible_bit intro!: bit_word_eqI)
qed

lemma le32_bytes_word [bytes]:
  assumes "length bs = 4" shows "le32_bytes (le32_word bs) = bs"
proof -
  obtain a b c d where "bs = [a, b, c, d]" using list4_cases [OF assms] by blast
  then show ?thesis
    by (auto simp: le32_word_def le32_bytes_def bit_simps impossible_bit intro!: bit_word_eqI)
qed

lemma rev_be32_bytes [bytes]: "rev (be32_bytes w) = le32_bytes w"
  by (simp add: be32_bytes_def le32_bytes_def)

section \<open>Lists\<close>

lemma map2_nth [layout]:
  "i < length xs \<Longrightarrow> i < length ys \<Longrightarrow> map2 f xs ys ! i = f (xs ! i) (ys ! i)"
  by simp

lemma list8_eq:
  assumes "length xs = 8"
  shows "xs = [xs ! 0, xs ! 1, xs ! 2, xs ! 3, xs ! 4, xs ! 5, xs ! 6, xs ! 7]"
  by (rule nth_equalityI) (auto simp: assms less_Suc_eq numeral_eq_Suc)

lemma unat_mask6: "unat (w AND 0x3F :: 64 word) = unat w mod 64"
proof -
  have "w AND 0x3F = take_bit 6 w" by (simp add: take_bit_eq_mask mask_eq_exp_minus_1)
  then have "unat (w AND 0x3F) = take_bit 6 (unat w)" by (simp only: unsigned_take_bit_eq)
  then show ?thesis by (simp add: take_bit_eq_mod)
qed

section \<open>Numbers in byte order\<close>

text \<open>The number a byte string denotes when its first byte is the least significant.\<close>

fun le_number :: "u8 list \<Rightarrow> nat" where
  "le_number [] = 0"
| "le_number (b # bs) = unat b + 256 * le_number bs"

lemma le_number_append: "le_number (xs @ ys) = le_number xs + 256 ^ length xs * le_number ys"
  by (induction xs) (simp_all add: algebra_simps)

lemma le_number_bound: "le_number bs < 256 ^ length bs"
proof (induction bs)
  case (Cons b bs)
  have "unat b < 256" using unsigned_less [of b, where ?'a = nat] by simp
  with Cons show ?case by simp
qed simp

lemma le_number_eq_0: "le_number bs = 0 \<longleftrightarrow> (\<forall>b\<in>set bs. b = 0)"
  by (induction bs) (auto simp: unat_eq_0)


end
