(* ===== verification/Fips.thy ===== *)
theory Fips
  imports Prelude
begin

text \<open>
  The abstract specification both hash implementations refine: SHA-256 as FIPS 180-4
  states it, written independently of either C file. A block is compressed by expanding
  its sixteen words to sixty-four and running sixty-four steps over eight working
  variables that shift by one place in each step; a message is padded with a one bit,
  zeros and its 64 bit length in bits, and its blocks are folded from the initial value.
\<close>

type_synonym block = "u32 list"
type_synonym hstate = "u32 list"

definition rotr32 :: "nat \<Rightarrow> u32 \<Rightarrow> u32" where
  "rotr32 n x = drop_bit n x OR push_bit (32 - n) x"

definition Ch :: "u32 \<Rightarrow> u32 \<Rightarrow> u32 \<Rightarrow> u32" where
  "Ch x y z = (x AND y) XOR (NOT x AND z)"

definition Maj :: "u32 \<Rightarrow> u32 \<Rightarrow> u32 \<Rightarrow> u32" where
  "Maj x y z = (x AND y) XOR (x AND z) XOR (y AND z)"

definition big_sigma0 :: "u32 \<Rightarrow> u32" where
  "big_sigma0 x = rotr32 2 x XOR rotr32 13 x XOR rotr32 22 x"

definition big_sigma1 :: "u32 \<Rightarrow> u32" where
  "big_sigma1 x = rotr32 6 x XOR rotr32 11 x XOR rotr32 25 x"

definition small_sigma0 :: "u32 \<Rightarrow> u32" where
  "small_sigma0 x = rotr32 7 x XOR rotr32 18 x XOR drop_bit 3 x"

definition small_sigma1 :: "u32 \<Rightarrow> u32" where
  "small_sigma1 x = rotr32 17 x XOR rotr32 19 x XOR drop_bit 10 x"

definition fips_K :: "u32 list" where
  "fips_K =
    [0x428a2f98, 0x71374491, 0xb5c0fbcf, 0xe9b5dba5] @ [0x3956c25b, 0x59f111f1, 0x923f82a4, 0xab1c5ed5] @
     [0xd807aa98, 0x12835b01, 0x243185be, 0x550c7dc3] @ [0x72be5d74, 0x80deb1fe, 0x9bdc06a7, 0xc19bf174] @
     [0xe49b69c1, 0xefbe4786, 0x0fc19dc6, 0x240ca1cc] @ [0x2de92c6f, 0x4a7484aa, 0x5cb0a9dc, 0x76f988da] @
     [0x983e5152, 0xa831c66d, 0xb00327c8, 0xbf597fc7] @ [0xc6e00bf3, 0xd5a79147, 0x06ca6351, 0x14292967] @
     [0x27b70a85, 0x2e1b2138, 0x4d2c6dfc, 0x53380d13] @ [0x650a7354, 0x766a0abb, 0x81c2c92e, 0x92722c85] @
     [0xa2bfe8a1, 0xa81a664b, 0xc24b8b70, 0xc76c51a3] @ [0xd192e819, 0xd6990624, 0xf40e3585, 0x106aa070] @
     [0x19a4c116, 0x1e376c08, 0x2748774c, 0x34b0bcb5] @ [0x391c0cb3, 0x4ed8aa4a, 0x5b9cca4f, 0x682e6ff3] @
     [0x748f82ee, 0x78a5636f, 0x84c87814, 0x8cc70208] @ [0x90befffa, 0xa4506ceb, 0xbef9a3f7, 0xc67178f2]"

definition fips_H0 :: hstate where
  "fips_H0 = [0x6a09e667, 0xbb67ae85, 0x3c6ef372, 0xa54ff53a,
     0x510e527f, 0x9b05688c, 0x1f83d9ab, 0x5be0cd19]"

section \<open>The message schedule and the compression function\<close>

definition sched_step :: "u32 list \<Rightarrow> u32 list" where
  "sched_step W = (let t = length W in
     W @ [small_sigma1 (W ! (t - 2)) + W ! (t - 7) + small_sigma0 (W ! (t - 15)) + W ! (t - 16)])"

definition schedule :: "block \<Rightarrow> u32 list" where
  "schedule M = (sched_step ^^ 48) M"

definition comp_step :: "u32 list \<Rightarrow> hstate \<Rightarrow> nat \<Rightarrow> hstate" where
  "comp_step W v t =
     (let T1 = v ! 7 + big_sigma1 (v ! 4) + Ch (v ! 4) (v ! 5) (v ! 6) + fips_K ! t + W ! t;
          T2 = big_sigma0 (v ! 0) + Maj (v ! 0) (v ! 1) (v ! 2)
      in [T1 + T2, v ! 0, v ! 1, v ! 2, v ! 3 + T1, v ! 4, v ! 5, v ! 6])"

definition compress :: "hstate \<Rightarrow> block \<Rightarrow> hstate" where
  "compress H M = map2 (+) H (foldl (comp_step (schedule M)) H [0..<64])"

section \<open>Messages\<close>

definition block_words :: "u8 list \<Rightarrow> block" where
  "block_words bs = map (\<lambda>i. be32_word (sub_list bs (4 * i) 4)) [0..<16]"

function hash_blocks :: "hstate \<Rightarrow> u8 list \<Rightarrow> hstate" where
  "hash_blocks H bs =
     (if 64 \<le> length bs then hash_blocks (compress H (block_words (take 64 bs))) (drop 64 bs)
      else H)"
  by pat_completeness auto
termination
  by (relation "measure (\<lambda>(H, bs). length bs)") auto

declare hash_blocks.simps [simp del]

definition pad_zeros :: "nat \<Rightarrow> nat" where
  "pad_zeros n = (if n mod 64 < 56 then 55 - n mod 64 else 119 - n mod 64)"

definition pad_msg :: "u8 list \<Rightarrow> u8 list" where
  "pad_msg m = m @ [0x80] @ replicate (pad_zeros (length m)) 0
     @ be64_bytes (of_nat (8 * length m))"

definition sha256_spec :: "u8 list \<Rightarrow> u8 list" where
  "sha256_spec m = concat (map be32_bytes (hash_blocks fips_H0 (pad_msg m)))"

section \<open>Lengths and splitting\<close>

lemma hash_blocks_short [layout]: "length bs < 64 \<Longrightarrow> hash_blocks H bs = H"
  by (simp add: hash_blocks.simps [of H bs])

lemma hash_blocks_step:
  "64 \<le> length bs \<Longrightarrow>
   hash_blocks H bs = hash_blocks (compress H (block_words (take 64 bs))) (drop 64 bs)"
  by (subst hash_blocks.simps) simp

lemma hash_blocks_append:
  "length xs mod 64 = 0 \<Longrightarrow> hash_blocks H (xs @ ys) = hash_blocks (hash_blocks H xs) ys"
proof (induction H xs rule: hash_blocks.induct)
  case (1 H xs)
  show ?case
  proof (cases "64 \<le> length xs")
    case True
    then have "length (drop 64 xs) mod 64 = 0" using "1.prems" by (simp add: le_mod_geq [symmetric])
    with True "1.IH" show ?thesis by (simp add: hash_blocks_step)
  next
    case False
    with "1.prems" have "xs = []" by (metis length_0_conv mod_less not_le)
    then show ?thesis by (simp add: hash_blocks_short)
  qed
qed

lemma length_compress [layout]: "length H = 8 \<Longrightarrow> length (compress H M) = 8"
proof -
  assume H: "length H = 8"
  have "length (foldl (comp_step W) v ts) = 8" if "length v = 8" for W v ts
    using that by (induction ts arbitrary: v) (simp_all add: comp_step_def Let_def)
  with H show ?thesis by (simp add: compress_def)
qed

lemma length_hash_blocks [layout]: "length H = 8 \<Longrightarrow> length (hash_blocks H bs) = 8"
proof (induction H bs rule: hash_blocks.induct)
  case (1 H bs)
  then show ?case by (subst hash_blocks.simps) (simp add: length_compress)
qed

lemma length_fips_H0 [layout]: "length fips_H0 = 8"
  by (simp add: fips_H0_def)

lemma length_state [layout]: "length (hash_blocks fips_H0 m) = 8"
  by (simp add: layout)

lemma length_fips_K [layout]: "length fips_K = 64"
  by (simp add: fips_K_def)

lemma length_pad_msg: "length (pad_msg m) mod 64 = 0"
proof -
  have "length (pad_msg m) = length m + (pad_zeros (length m) + 9)"
    by (simp add: pad_msg_def layout)
  also have "\<dots> mod 64 = (length m mod 64 + (pad_zeros (length m) + 9)) mod 64"
    by (simp add: mod_add_left_eq)
  also have "\<dots> = 0"
  proof -
    have "length m mod 64 < 64" by simp
    then show ?thesis by (auto simp: pad_zeros_def)
  qed
  finally show ?thesis .
qed

lemma block_words_take: "64 \<le> length bs \<Longrightarrow> block_words (take 64 bs) = block_words bs"
  by (auto simp: block_words_def sub_list_def drop_take)

lemma length_concat_be32 [layout]: "length (concat (map be32_bytes ws)) = 4 * length ws"
  by (induction ws) (simp_all add: layout)

lemma length_sha256_spec [layout]: "length (sha256_spec m) = 32"
  by (simp add: sha256_spec_def layout)

section \<open>What a stream holds back\<close>

text \<open>
  \<open>absorbed m\<close> is the tail of \<open>m\<close> that does not fill a block: what a streaming
  implementation keeps in its buffer after consuming \<open>m\<close>.
\<close>

definition absorbed :: "u8 list \<Rightarrow> u8 list" where
  "absorbed m = drop (length m - length m mod 64) m"

lemma length_absorbed [layout]: "length (absorbed m) = length m mod 64"
  by (simp add: absorbed_def)

lemma length_absorbed_less: "length (absorbed m) < 64"
  by (simp add: length_absorbed)

lemma absorbed_short: "length x < 64 \<Longrightarrow> absorbed x = x"
  by (simp add: absorbed_def)

lemma absorbed_full: "length x mod 64 = 0 \<Longrightarrow> absorbed x = []"
  by (simp add: absorbed_def)

lemma absorbed_prefix:
  assumes "length f mod 64 = 0"
  shows "absorbed (f @ x) = absorbed x"
proof -
  have "(length f + length x) mod 64 = length x mod 64" using assms
    by (metis add_0 mod_add_left_eq)
  moreover have "length x mod 64 \<le> length x" by simp
  ultimately show ?thesis by (simp add: absorbed_def)
qed

lemma absorbed_split: obtains f where "m = f @ absorbed m" and "length f mod 64 = 0"
proof
  show "m = take (length m - length m mod 64) m @ absorbed m" by (simp add: absorbed_def)
  show "length (take (length m - length m mod 64) m) mod 64 = 0"
    by (simp add: minus_mod_eq_mult_div)
qed

lemma absorbed_append: "absorbed (m @ x) = absorbed (absorbed m @ x)"
proof -
  obtain f where "m = f @ absorbed m" and f: "length f mod 64 = 0" by (rule absorbed_split)
  then have "m @ x = f @ (absorbed m @ x)" by (metis append_assoc)
  then show ?thesis by (simp only: absorbed_prefix [OF f])
qed

lemma hash_absorbed: "hash_blocks H (m @ x) = hash_blocks (hash_blocks H m) (absorbed m @ x)"
proof -
  obtain f where m: "m = f @ absorbed m" and f: "length f mod 64 = 0" by (rule absorbed_split)
  have "hash_blocks H m = hash_blocks H (f @ absorbed m)" using m by simp
  also have "\<dots> = hash_blocks H f"
    by (simp add: hash_blocks_append [OF f] hash_blocks_short length_absorbed_less)
  finally have "hash_blocks H m = hash_blocks H f" .
  moreover have "m @ x = f @ (absorbed m @ x)" using m by (metis append_assoc)
  ultimately show ?thesis by (simp only: hash_blocks_append [OF f])
qed

text \<open>
  One step of a stream: a buffer filled up to a block is compressed before the rest.
\<close>

lemma hash_fill:
  assumes "length (absorbed m) + k = 64" and "k \<le> length x"
  shows "hash_blocks H (m @ x) =
      hash_blocks (compress (hash_blocks H m) (block_words (absorbed m @ take k x))) (drop k x)"
    and "absorbed (m @ x) = absorbed (drop k x)"
proof -
  let ?b = "absorbed m @ take k x"
  have b: "length ?b = 64" using assms by simp
  have s: "absorbed m @ x = ?b @ drop k x" by simp
  have "hash_blocks H' (c @ y) = hash_blocks (compress H' (block_words c)) y"
    if "length c = 64" for H' c y
    using that by (subst hash_blocks_step) simp_all
  note this [OF b]
  then show "hash_blocks H (m @ x) =
      hash_blocks (compress (hash_blocks H m) (block_words ?b)) (drop k x)"
    unfolding hash_absorbed [of H m] s .
  show "absorbed (m @ x) = absorbed (drop k x)"
    unfolding absorbed_append [of m] s using b by (subst absorbed_prefix) simp_all
qed

lemma hash_keep:
  "length (absorbed m) + length x < 64 \<Longrightarrow> hash_blocks H (m @ x) = hash_blocks H m"
  "length (absorbed m) + length x < 64 \<Longrightarrow> absorbed (m @ x) = absorbed m @ x"
  by (simp_all only: hash_absorbed [of H m] absorbed_append [of m])
    (simp_all add: hash_blocks_short absorbed_short)

lemma pad_msg_absorbed: "absorbed (pad_msg m) = []"
  by (simp add: absorbed_full length_pad_msg)

end
