(* ===== verification/Hash_Stream.thy ===== *)
theory Hash_Stream
  imports Fips
begin

text \<open>
  The interface both hash implementations offer and every client of theirs calls: start a
  context, feed it bytes, read the digest. The laws say what a context holds after the
  message so far; the lemmas say what a client gets that feeds a message in any pieces.
  Theories \<open>Sha256\<close> and \<open>Sha2\<close> interpret the locale on their definitions.
\<close>

locale hash_stream =
  fixes start :: "'c \<Rightarrow> 'c"
    and feed :: "'c \<Rightarrow> u8 list \<Rightarrow> 'c"
    and finish :: "'c \<Rightarrow> u8 list \<Rightarrow> 'c \<times> u8 list"
    and holds :: "'c \<Rightarrow> u8 list \<Rightarrow> bool"
    and fresh :: "'c \<Rightarrow> bool"
    and piece_ok :: "nat \<Rightarrow> bool"
    and total_ok :: "nat \<Rightarrow> bool"
  assumes holds_start: "fresh c \<Longrightarrow> holds (start c) []"
    and holds_feed: "holds c m \<Longrightarrow> piece_ok (length x) \<Longrightarrow> holds (feed c x) (m @ x)"
    and finish_spec: "holds c m \<Longrightarrow> total_ok (length m) \<Longrightarrow> length d = 32 \<Longrightarrow>
      snd (finish c d) = sha256_spec m"
begin

lemma holds_feeds:
  "holds c m \<Longrightarrow> \<forall>x\<in>set xs. piece_ok (length x) \<Longrightarrow> holds (foldl feed c xs) (m @ concat xs)"
proof (induction xs arbitrary: c m)
  case (Cons x xs)
  from Cons.prems have "holds (feed c x) (m @ x)" by (simp add: holds_feed)
  from Cons.IH [OF this] Cons.prems(2) show ?case by simp
qed simp

lemma digest_pieces:
  assumes "fresh c" and "\<forall>x\<in>set xs. piece_ok (length x)" and "total_ok (length (concat xs))"
    and "length d = 32"
  shows "snd (finish (foldl feed (start c) xs) d) = sha256_spec (concat xs)"
  using holds_feeds [OF holds_start [OF assms(1)] assms(2)] assms(3,4)
  by (simp add: finish_spec)

lemma digest_one:
  assumes "fresh c" and "piece_ok (length m)" and "total_ok (length m)" and "length d = 32"
  shows "snd (finish (feed (start c) m) d) = sha256_spec m"
  using digest_pieces [of c "[m]" d] assms by simp

lemma pieces_agree:
  assumes "fresh c" and "\<forall>x\<in>set xs \<union> set ys. piece_ok (length x)"
    and "total_ok (length (concat xs))" and "concat xs = concat ys" and "length d = 32"
  shows "snd (finish (foldl feed (start c) xs) d) = snd (finish (foldl feed (start c) ys) d)"
  using digest_pieces [of c xs d] digest_pieces [of c ys d] assms by simp

lemma digest_length:
  assumes "holds c m" and "total_ok (length m)" and "length d = 32"
  shows "length (snd (finish c d)) = 32"
  using finish_spec [OF assms] by (simp add: length_sha256_spec)

end

end
