(* ===== verification/Sha256.thy ===== *)
theory Sha256
  imports Hash_Stream
begin

text \<open>
  The accelerator project's own hash, \<open>src/sha256/sha256.c\<close> with its header: the
  context, the word functions, one block (\<open>sha256_process\<close>, sixty-four lines of the
  macro \<open>P\<close> over eight rotating registers), and the streaming interface
  (\<open>sha256_init\<close>, \<open>sha256_update\<close>, \<open>sha256_nofinish\<close>,
  \<open>sha256_finish\<close>). The lemmas refine each level to the specification of
  theory \<open>Fips\<close>: the block function to \<open>compress\<close>, the stream to the
  message consumed so far.
\<close>

section \<open>Word functions\<close>

definition shr :: "u32 \<Rightarrow> nat \<Rightarrow> u32" where
  "shr x n = drop_bit n x"

definition rotr :: "u32 \<Rightarrow> nat \<Rightarrow> u32" where
  "rotr x n = shr x n OR push_bit (32 - n) x"

definition S0 :: "u32 \<Rightarrow> u32" where
  "S0 x = rotr x 7 XOR rotr x 18 XOR shr x 3"

definition S1 :: "u32 \<Rightarrow> u32" where
  "S1 x = rotr x 17 XOR rotr x 19 XOR shr x 10"

definition S2 :: "u32 \<Rightarrow> u32" where
  "S2 x = rotr x 2 XOR rotr x 13 XOR rotr x 22"

definition S3 :: "u32 \<Rightarrow> u32" where
  "S3 x = rotr x 6 XOR rotr x 11 XOR rotr x 25"

definition F0 :: "u32 \<Rightarrow> u32 \<Rightarrow> u32 \<Rightarrow> u32" where
  "F0 x y z = (x AND y) OR (z AND (x OR y))"

definition F1 :: "u32 \<Rightarrow> u32 \<Rightarrow> u32 \<Rightarrow> u32" where
  "F1 x y z = z XOR (x AND (y XOR z))"

section \<open>Context, big-endian access\<close>

record sha256_context =
  ctx_total :: u64
  ctx_state :: "u32 list"
  ctx_buffer :: "u8 list"

definition extract_uint32_t :: "u8 list \<Rightarrow> nat \<Rightarrow> u32" where
  "extract_uint32_t buffer position = be32_word (sub_list buffer position 4)"

definition insert_uint32_t :: "u8 list \<Rightarrow> nat \<Rightarrow> u32 \<Rightarrow> u8 list" where
  "insert_uint32_t buffer position value = memcpy_at buffer position (be32_bytes value)"

definition insert_uint64_t :: "u8 list \<Rightarrow> nat \<Rightarrow> u64 \<Rightarrow> u8 list" where
  "insert_uint64_t buffer position value = memcpy_at buffer position (be64_bytes value)"

definition sha256_init :: "sha256_context \<Rightarrow> sha256_context" where
  "sha256_init ctx = ctx\<lparr>ctx_total := 0,
     ctx_state := [0x6a09e667, 0xbb67ae85, 0x3c6ef372, 0xa54ff53a,
                   0x510e527f, 0x9b05688c, 0x1f83d9ab, 0x5be0cd19]\<rparr>"

section \<open>One block\<close>

text \<open>
  The macro \<open>R(t)\<close> computes and stores \<open>W[t]\<close>: the model's \<open>W\<close> holds the
  entries written so far, so storing the next one appends it. The macro
  \<open>P(a, ..., h, x, K)\<close> changes its arguments \<open>d\<close> and \<open>h\<close>. Line \<open>t\<close> of the sixty-four
  names the registers \<open>A\<close> to \<open>H\<close> rotated \<open>t\<close> places to the right, so its
  \<open>k\<close>-th argument is register \<open>(k + 7 t) mod 8\<close>.
\<close>

definition R_macro :: "u32 list \<Rightarrow> u32 list" where
  "R_macro W = (let t = length W in
     W @ [S1 (W ! (t - 2)) + W ! (t - 7) + S0 (W ! (t - 15)) + W ! (t - 16)])"

definition P_macro :: "u32 \<Rightarrow> u32 \<Rightarrow> u32 \<Rightarrow> u32 \<Rightarrow> u32 \<Rightarrow> u32 \<Rightarrow> u32 \<Rightarrow> u32 \<Rightarrow> u32 \<Rightarrow> u32
    \<Rightarrow> u32 \<times> u32" where
  "P_macro a b c d e f g h x K =
     (let temp1 = h + S3 e + F1 e f g + K + x;
          temp2 = S2 a + F0 a b c
      in (d + temp1, temp1 + temp2))"

definition P_consts :: "u32 list" where
  "P_consts =
    [0x428a2f98, 0x71374491, 0xb5c0fbcf, 0xe9b5dba5] @ [0x3956c25b, 0x59f111f1, 0x923f82a4, 0xab1c5ed5] @
     [0xd807aa98, 0x12835b01, 0x243185be, 0x550c7dc3] @ [0x72be5d74, 0x80deb1fe, 0x9bdc06a7, 0xc19bf174] @
     [0xe49b69c1, 0xefbe4786, 0x0fc19dc6, 0x240ca1cc] @ [0x2de92c6f, 0x4a7484aa, 0x5cb0a9dc, 0x76f988da] @
     [0x983e5152, 0xa831c66d, 0xb00327c8, 0xbf597fc7] @ [0xc6e00bf3, 0xd5a79147, 0x06ca6351, 0x14292967] @
     [0x27b70a85, 0x2e1b2138, 0x4d2c6dfc, 0x53380d13] @ [0x650a7354, 0x766a0abb, 0x81c2c92e, 0x92722c85] @
     [0xa2bfe8a1, 0xa81a664b, 0xc24b8b70, 0xc76c51a3] @ [0xd192e819, 0xd6990624, 0xf40e3585, 0x106aa070] @
     [0x19a4c116, 0x1e376c08, 0x2748774c, 0x34b0bcb5] @ [0x391c0cb3, 0x4ed8aa4a, 0x5b9cca4f, 0x682e6ff3] @
     [0x748f82ee, 0x78a5636f, 0x84c87814, 0x8cc70208] @ [0x90befffa, 0xa4506ceb, 0xbef9a3f7, 0xc67178f2]"

definition P_arg :: "nat \<Rightarrow> nat \<Rightarrow> nat" where
  "P_arg t k = (k + 7 * t) mod 8"

fun P_line :: "u32 list \<times> u32 list \<Rightarrow> nat \<Rightarrow> u32 list \<times> u32 list" where
  "P_line (W, r) t =
     (let W = (if t < 16 then W else R_macro W);
          (d, h) = P_macro (r ! P_arg t 0) (r ! P_arg t 1) (r ! P_arg t 2) (r ! P_arg t 3)
                     (r ! P_arg t 4) (r ! P_arg t 5) (r ! P_arg t 6) (r ! P_arg t 7)
                     (W ! t) (P_consts ! t)
      in (W, r[P_arg t 3 := d, P_arg t 7 := h]))"

definition sha256_process :: "sha256_context \<Rightarrow> u8 list \<Rightarrow> sha256_context" where
  "sha256_process ctx data =
     (let W = map (\<lambda>i. extract_uint32_t data (4 * i)) [0..<16];
          (W, r) = foldl P_line (W, ctx_state ctx) [0..<64]
      in ctx\<lparr>ctx_state := map2 (+) (ctx_state ctx) r\<rparr>)"

section \<open>The stream\<close>

function update_blocks :: "sha256_context \<Rightarrow> u8 list \<Rightarrow> sha256_context \<times> u8 list" where
  "update_blocks ctx input =
     (if 64 \<le> length input then update_blocks (sha256_process ctx input) (drop 64 input)
      else (ctx, input))"
  by pat_completeness auto
termination
  by (relation "measure (\<lambda>(ctx, input). length input)") auto

declare update_blocks.simps [simp del]

definition sha256_update :: "sha256_context \<Rightarrow> u8 list \<Rightarrow> sha256_context" where
  "sha256_update ctx input =
     (if length input = 0 then ctx
      else
        let left = unat (ctx_total ctx AND 0x3F);
            fill = 64 - left;
            ctx = ctx\<lparr>ctx_total := ctx_total ctx + of_nat (length input)\<rparr>;
            (ctx, input, left) =
              (if left \<noteq> 0 \<and> fill \<le> length input then
                 let ctx = ctx\<lparr>ctx_buffer := memcpy_at (ctx_buffer ctx) left (take fill input)\<rparr>;
                     ctx = sha256_process ctx (ctx_buffer ctx)
                 in (ctx, drop fill input, 0)
               else (ctx, input, left));
            (ctx, input) = update_blocks ctx input
        in if length input \<noteq> 0
           then ctx\<lparr>ctx_buffer := memcpy_at (ctx_buffer ctx) left input\<rparr>
           else ctx)"

definition sha256_nofinish :: "sha256_context \<Rightarrow> u8 list \<Rightarrow> u8 list" where
  "sha256_nofinish ctx digest =
     foldl (\<lambda>digest i. insert_uint32_t digest (i * 4) (ctx_state ctx ! i)) digest [0..<8]"

text \<open>
  \<open>padding\<close> is a variable length array; its last eight bytes are unwritten until
  \<open>insert_uint64_t\<close> fills them.
\<close>

definition sha256_finish :: "sha256_context \<Rightarrow> u8 list \<Rightarrow> sha256_context \<times> u8 list" where
  "sha256_finish ctx digest =
     (let last = unat (ctx_total ctx AND 0x3F);
          padn = (if last < 56 then 56 - last else 120 - last);
          padding = [0x80] @ replicate (padn - 1) 0 @ replicate 8 0;
          padding = insert_uint64_t padding padn (ctx_total ctx * 8);
          ctx = sha256_update ctx padding
      in (ctx, sha256_nofinish ctx digest))"

section \<open>The word functions are those of the standard\<close>

lemma rotr_rotr32 [simp]: "rotr x n = rotr32 n x"
  by (simp add: rotr_def rotr32_def shr_def)

lemma F0_Maj: "F0 x y z = Maj x y z"
  by (rule bit_word_eqI) (auto simp: F0_def Maj_def bit_simps)

lemma F1_Ch: "F1 x y z = Ch x y z"
  by (rule bit_word_eqI) (auto simp: F1_def Ch_def bit_simps)

lemmas fips_words = S0_def S1_def S2_def S3_def F0_Maj F1_Ch shr_def
  big_sigma0_def [symmetric] big_sigma1_def [symmetric]
  small_sigma0_def [symmetric] small_sigma1_def [symmetric]

lemma R_macro_sched_step: "R_macro = sched_step"
  by (rule ext) (simp add: R_macro_def sched_step_def fips_words)

lemma P_consts_fips: "P_consts = fips_K"
  by (simp add: P_consts_def fips_K_def)

section \<open>Sixty-four lines are the sixty-four steps of the standard\<close>

lemma length_sched_pow [simp]: "length ((sched_step ^^ m) W) = length W + m"
  by (induction m) (simp_all add: sched_step_def Let_def)

lemma sched_pow_take: "m \<le> n \<Longrightarrow> take (length W + m) ((sched_step ^^ n) W) = (sched_step ^^ m) W"
proof (induction n)
  case (Suc n)
  obtain x where x: "(sched_step ^^ Suc n) W = (sched_step ^^ n) W @ [x]"
    by (simp add: sched_step_def Let_def)
  show ?case
  proof (cases "m = Suc n")
    case True
    then show ?thesis by (metis length_sched_pow order_refl take_all)
  next
    case False
    with Suc show ?thesis unfolding x by simp
  qed
qed simp

lemma sched_pow_nth:
  assumes "m \<le> n" and "i < length W + m"
  shows "(sched_step ^^ m) W ! i = (sched_step ^^ n) W ! i"
  using nth_take [OF assms(2), of "(sched_step ^^ n) W"] by (simp add: sched_pow_take [OF assms(1)])

definition reg_view :: "nat \<Rightarrow> u32 list \<Rightarrow> u32 list" where
  "reg_view t r = map (\<lambda>k. r ! P_arg t k) [0..<8]"

lemma upt8: "[0..<8] = [0, 1, 2, 3, 4, 5, 6, 7]"
  by (simp add: upt_rec)

lemma P_arg_mod: "P_arg t k = (k + 7 * (t mod 8)) mod 8"
  unfolding P_arg_def by (metis mod_add_right_eq mod_mult_right_eq)

lemma reg_view_step:
  assumes "length r = 8"
  shows "reg_view (Suc t) (r[P_arg t 3 := d, P_arg t 7 := h]) =
    [h, reg_view t r ! 0, reg_view t r ! 1, reg_view t r ! 2, d,
     reg_view t r ! 4, reg_view t r ! 5, reg_view t r ! 6]"
proof -
  obtain a b c d' e f g h' where r: "r = [a, b, c, d', e, f, g, h']"
    using list8_eq [OF assms] by blast
  have "t mod 8 < 8" by simp
  then consider "t mod 8 = 0" | "t mod 8 = 1" | "t mod 8 = 2" | "t mod 8 = 3"
    | "t mod 8 = 4" | "t mod 8 = 5" | "t mod 8 = 6" | "t mod 8 = 7" by linarith
  then show ?thesis
    by cases (simp_all add: r reg_view_def upt8 P_arg_mod mod_Suc)
qed

lemma reg_view_id: "length r = 8 \<Longrightarrow> t mod 8 = 0 \<Longrightarrow> reg_view t r = r"
  by (rule nth_equalityI) (simp_all add: reg_view_def P_arg_mod)

lemma reg_view_nth: "k < 8 \<Longrightarrow> reg_view t r ! k = r ! P_arg t k"
  by (simp add: reg_view_def)

lemma P_line_step:
  assumes "length r = 8" and "t < 64" and "length W0 = 16"
    and W: "W = (sched_step ^^ (t - 16)) W0"
  shows "fst (P_line (W, r) t) = (sched_step ^^ (Suc t - 16)) W0"
    and "length (snd (P_line (W, r) t)) = 8"
    and "reg_view (Suc t) (snd (P_line (W, r) t)) = comp_step (schedule W0) (reg_view t r) t"
proof -
  let ?W = "if t < 16 then W else R_macro W"
  have eq: "?W = (sched_step ^^ (Suc t - 16)) W0"
  proof (cases "t < 16")
    case True
    then show ?thesis using W by (cases "t = 15") simp_all
  next
    case False
    then have "Suc t - 16 = Suc (t - 16)" by simp
    with False W show ?thesis by (simp add: R_macro_sched_step)
  qed
  have "Suc t - 16 \<le> 48" and "t < length W0 + (Suc t - 16)" using assms by auto
  then have x: "?W ! t = schedule W0 ! t"
    unfolding eq schedule_def by (rule sched_pow_nth)
  show "fst (P_line (W, r) t) = (sched_step ^^ (Suc t - 16)) W0"
    using eq by (simp add: Let_def split: prod.splits)
  show "length (snd (P_line (W, r) t)) = 8"
    using assms(1) by (simp add: Let_def split: prod.splits)
  show "reg_view (Suc t) (snd (P_line (W, r) t)) = comp_step (schedule W0) (reg_view t r) t"
    unfolding P_line.simps Let_def P_macro_def prod.case snd_conv x P_consts_fips
      reg_view_step [OF assms(1)] comp_step_def
    by (simp add: reg_view_nth fips_words ac_simps)
qed

lemma P_lines:
  assumes "length W0 = 16" and "length r = 8" and "n \<le> 64"
  shows "fst (foldl P_line (W0, r) [0..<n]) = (sched_step ^^ (n - 16)) W0
    \<and> length (snd (foldl P_line (W0, r) [0..<n])) = 8
    \<and> reg_view n (snd (foldl P_line (W0, r) [0..<n])) = foldl (comp_step (schedule W0)) r [0..<n]"
  using assms(3)
proof (induction n)
  case 0
  with assms show ?case by (simp add: reg_view_id)
next
  case (Suc n)
  let ?s = "foldl P_line (W0, r) [0..<n]"
  from Suc have IH: "fst ?s = (sched_step ^^ (n - 16)) W0" "length (snd ?s) = 8"
     "reg_view n (snd ?s) = foldl (comp_step (schedule W0)) r [0..<n]" and n: "n < 64" by auto
  have s: "?s = (fst ?s, snd ?s)" by simp
  show ?case
    using P_line_step [OF IH(2) n assms(1) IH(1)] IH(3)
    by (simp del: P_line.simps)
qed

lemma length_block_words [layout]: "length (block_words bs) = 16"
  by (simp add: block_words_def)

lemma block_words_extract: "map (\<lambda>i. extract_uint32_t data (4 * i)) [0..<16] = block_words data"
  by (simp add: block_words_def extract_uint32_t_def)

lemma sha256_process_compress:
  assumes "length (ctx_state ctx) = 8"
  shows "sha256_process ctx data =
    ctx\<lparr>ctx_state := compress (ctx_state ctx) (block_words data)\<rparr>"
proof -
  let ?s = "foldl P_line (block_words data, ctx_state ctx) [0..<64]"
  from P_lines [of "block_words data" "ctx_state ctx" 64] assms
  have "length (snd ?s) = 8" and
    v: "reg_view 64 (snd ?s) = foldl (comp_step (schedule (block_words data))) (ctx_state ctx) [0..<64]"
    by (simp_all add: layout)
  then have "reg_view 64 (snd ?s) = snd ?s" by (simp add: reg_view_id)
  with v show ?thesis
    by (simp add: sha256_process_def block_words_extract compress_def Let_def case_prod_beta)
qed

section \<open>The stream\<close>

lemma update_blocks_hash:
  "length (ctx_state ctx) = 8 \<Longrightarrow> update_blocks ctx input =
    (ctx\<lparr>ctx_state := hash_blocks (ctx_state ctx) input\<rparr>, absorbed input)"
proof (induction ctx input rule: update_blocks.induct)
  case (1 ctx input)
  show ?case
  proof (cases "64 \<le> length input")
    case True
    then have "absorbed (drop 64 input) = absorbed input"
      using absorbed_prefix [of "take 64 input" "drop 64 input"] by simp
    with True "1.IH" "1.prems" show ?thesis
      by (subst update_blocks.simps, subst hash_blocks.simps)
        (simp add: sha256_process_compress block_words_take layout)
  next
    case False
    then show ?thesis by (subst update_blocks.simps) (simp add: hash_blocks_short absorbed_short)
  qed
qed

text \<open>What the context holds once the message \<open>m\<close> has gone through it.\<close>

definition sha256_holds :: "sha256_context \<Rightarrow> u8 list \<Rightarrow> bool" where
  "sha256_holds ctx m \<longleftrightarrow> ctx_total ctx = of_nat (length m) \<and> length (ctx_buffer ctx) = 64
     \<and> ctx_state ctx = hash_blocks fips_H0 m
     \<and> take (length m mod 64) (ctx_buffer ctx) = absorbed m"

lemma total_mask: "unat (of_nat n AND 0x3F :: u64) = n mod 64"
  by (simp only: unat_mask6 unat_of_nat) (simp add: mod_mod_cancel)

lemma sha256_holds_init: "length (ctx_buffer ctx) = 64 \<Longrightarrow> sha256_holds (sha256_init ctx) []"
  by (simp add: sha256_holds_def sha256_init_def hash_blocks_short fips_H0_def absorbed_def)

lemma sha256_holds_update:
  assumes "sha256_holds ctx m"
  shows "sha256_holds (sha256_update ctx input) (m @ input)"
proof (cases "input = []")
  case True
  with assms show ?thesis by (simp add: sha256_update_def)
next
  case False
  let ?l = "length m mod 64" and ?b = "ctx_buffer ctx"
  note h = assms [unfolded sha256_holds_def]
  have l: "?l < 64" "length (absorbed m) = ?l" by (simp_all add: layout)
  show ?thesis
  proof (cases "?l \<noteq> 0 \<and> 64 - ?l \<le> length input")
    case True
    let ?k = "64 - ?l"
    let ?x = "drop ?k input" and ?blk = "absorbed m @ take ?k input"
    have blk: "memcpy_at ?b ?l (take ?k input) = ?blk" "length ?blk = 64"
      using True h l by (simp_all add: memcpy_at_def)
    have "length (absorbed m) + ?k = 64" using l by simp
    note fill = hash_fill [OF this conjunct2 [OF True]]
    have b0: "memcpy_at ?blk 0 (absorbed ?x) = (if absorbed ?x = [] then ?blk else
        absorbed ?x @ drop (length (absorbed ?x)) ?blk)" by (simp add: memcpy_at_def)
    have upd: "ctx_total (sha256_update ctx input) = of_nat (length (m @ input))"
        "ctx_state (sha256_update ctx input) = hash_blocks fips_H0 (m @ input)"
        "ctx_buffer (sha256_update ctx input) = memcpy_at ?blk 0 (absorbed ?x)"
      using True False h unfolding b0 by (simp_all add: sha256_update_def total_mask Let_def blk
          sha256_process_compress update_blocks_hash length_state length_compress fill memcpy_at_def)
    have "length (m @ input) mod 64 = length (absorbed ?x)"
      by (metis fill(2) length_absorbed)
    moreover have "length (memcpy_at ?blk 0 (absorbed ?x)) = 64"
      using blk(2) length_absorbed_less [of ?x]
      by (metis add_0 length_memcpy_at less_imp_le_nat)
    moreover have "take (length (absorbed ?x)) (memcpy_at ?blk 0 (absorbed ?x)) = absorbed ?x"
      by (simp add: memcpy_at_def)
    ultimately show ?thesis
      by (simp only: sha256_holds_def upd fill(2))
  next
    case F: False
    have upd: "ctx_total (sha256_update ctx input) = of_nat (length (m @ input))"
        "ctx_state (sha256_update ctx input) = hash_blocks (hash_blocks fips_H0 m) input"
        "ctx_buffer (sha256_update ctx input) = memcpy_at ?b ?l (absorbed input)"
      using F False h by (auto simp: sha256_update_def total_mask Let_def
          update_blocks_hash layout)
    show ?thesis
    proof (cases "?l = 0")
      case True
      then have a0: "absorbed m = []" by (simp add: absorbed_full)
      then have "hash_blocks fips_H0 (m @ input) = hash_blocks (hash_blocks fips_H0 m) input"
        and ab: "absorbed (m @ input) = absorbed input"
        by (simp_all only: hash_absorbed [of _ m] absorbed_append [of m] append_Nil)
      moreover have "length (m @ input) mod 64 = length (absorbed input)"
        by (metis ab length_absorbed)
      moreover have "length (absorbed input) < 64" by (rule length_absorbed_less)
      ultimately show ?thesis using h True
        by (simp add: sha256_holds_def upd memcpy_at_def)
    next
      case N: False
      with F have n: "length (absorbed m) + length input < 64" using l by simp
      note keep = hash_keep [OF n]
      have "length (m @ input) mod 64 = ?l + length input"
        by (metis keep(2) l(2) length_absorbed length_append)
      moreover have "absorbed input = input" "hash_blocks (hash_blocks fips_H0 m) input =
          hash_blocks fips_H0 m" using n by (simp_all add: absorbed_short hash_blocks_short)
      ultimately show ?thesis using h n l
        by (simp add: sha256_holds_def upd keep memcpy_at_def)
    qed
  qed
qed

lemma nofinish_bytes:
  assumes "length (ctx_state ctx) = 8" and "length digest = 32"
  shows "sha256_nofinish ctx digest = concat (map be32_bytes (ctx_state ctx))"
proof -
  have "foldl (\<lambda>d i. insert_uint32_t d (i * 4) (ws ! i)) d [0..<n] =
      concat (map be32_bytes (take n ws)) @ drop (4 * n) d"
    if "n \<le> length ws" "4 * n \<le> length d" for n ws and d :: "u8 list"
    using that
    by (induction n) (simp_all add: insert_uint32_t_def memcpy_at_def layout take_Suc_conv_app_nth)
  from this [of 8 "ctx_state ctx" digest] assms show ?thesis
    by (simp add: sha256_nofinish_def)
qed

lemma sha256_finish_spec:
  assumes "sha256_holds ctx m" and "length digest = 32"
  shows "snd (sha256_finish ctx digest) = sha256_spec m"
proof -
  note h = assms(1) [unfolded sha256_holds_def]
  let ?last = "length m mod 64"
  let ?padn = "if ?last < 56 then 56 - ?last else 120 - ?last"
  let ?pad = "[0x80] @ replicate (pad_zeros (length m)) 0 @ be64_bytes (of_nat (8 * length m))"
  have "?padn - 1 = pad_zeros (length m)" "?padn = Suc (pad_zeros (length m))"
    by (auto simp: pad_zeros_def)
  moreover have "(of_nat (length m) * 8 :: u64) = of_nat (8 * length m)" by simp
  ultimately have fin: "sha256_finish ctx digest =
      (sha256_update ctx ?pad, sha256_nofinish (sha256_update ctx ?pad) digest)"
    using h by (simp add: sha256_finish_def total_mask Let_def insert_uint64_t_def memcpy_at_def
        layout ac_simps)
  have "sha256_holds (sha256_update ctx ?pad) (m @ ?pad)"
    using assms(1) by (rule sha256_holds_update)
  then have "ctx_state (sha256_update ctx ?pad) = hash_blocks fips_H0 (pad_msg m)"
    by (simp add: sha256_holds_def pad_msg_def)
  then show ?thesis using assms(2)
    by (simp add: fin nofinish_bytes layout sha256_spec_def)
qed

interpretation accel: hash_stream sha256_init sha256_update sha256_finish sha256_holds
  "\<lambda>ctx. length (ctx_buffer ctx) = 64" "\<lambda>n. True" "\<lambda>n. True"
  by unfold_locales (simp_all only: sha256_holds_init sha256_holds_update sha256_finish_spec)

text \<open>C1: the digest of a message is its SHA-256 as the standard defines it, however the message
is cut into pieces for \<open>sha256_update\<close> and whatever the context held before.\<close>

theorem sha256_digest_of_pieces:
  assumes "length (ctx_buffer ctx) = 64" and "length digest = 32"
  shows "snd (sha256_finish (foldl sha256_update (sha256_init ctx) xs) digest) = sha256_spec (concat xs)"
  using assms by (intro accel.digest_pieces) simp_all

definition stale_context :: sha256_context where
  "stale_context = \<lparr>ctx_total = 7, ctx_state = replicate 8 1, ctx_buffer = replicate 64 9\<rparr>"

theorem sha256_digest_of_pieces_witness:
  "snd (sha256_finish (foldl sha256_update (sha256_init stale_context) [[1, 2], [], replicate 70 3]) (replicate 32 0)) =
   sha256_spec ([1, 2] @ replicate 70 3)"
  using sha256_digest_of_pieces [of stale_context "replicate 32 0" "[[1, 2], [], replicate 70 3]"]
  by (simp add: stale_context_def)

end
