(* ===== verification/Sha2.thy ===== *)
theory Sha2
  imports Hash_Stream
begin

text \<open>
  The hash the miner itself uses, \<open>src/cgminer/sha2.c\<close> with the macros of
  \<open>src/cgminer/sha2.h\<close>: a second implementation of SHA-256 with its own context
  (32 bit lengths, a two-block buffer), a loop over whole blocks and a padding step that
  writes only the low 32 bits of the length. Names that \<open>src/sha256/sha256.c\<close> also
  uses carry the prefix \<open>cg_\<close>.
\<close>

section \<open>Macros\<close>

definition SHFR :: "u32 \<Rightarrow> nat \<Rightarrow> u32" where
  "SHFR x n = drop_bit n x"

definition ROTR :: "u32 \<Rightarrow> nat \<Rightarrow> u32" where
  "ROTR x n = drop_bit n x OR push_bit ((4 * 8) - n) x"

definition CH :: "u32 \<Rightarrow> u32 \<Rightarrow> u32 \<Rightarrow> u32" where
  "CH x y z = (x AND y) XOR (NOT x AND z)"

definition MAJ :: "u32 \<Rightarrow> u32 \<Rightarrow> u32 \<Rightarrow> u32" where
  "MAJ x y z = (x AND y) XOR (x AND z) XOR (y AND z)"

definition SHA256_F1 :: "u32 \<Rightarrow> u32" where
  "SHA256_F1 x = ROTR x 2 XOR ROTR x 13 XOR ROTR x 22"

definition SHA256_F2 :: "u32 \<Rightarrow> u32" where
  "SHA256_F2 x = ROTR x 6 XOR ROTR x 11 XOR ROTR x 25"

definition SHA256_F3 :: "u32 \<Rightarrow> u32" where
  "SHA256_F3 x = ROTR x 7 XOR ROTR x 18 XOR SHFR x 3"

definition SHA256_F4 :: "u32 \<Rightarrow> u32" where
  "SHA256_F4 x = ROTR x 17 XOR ROTR x 19 XOR SHFR x 10"

definition UNPACK32 :: "u32 \<Rightarrow> u8 list" where
  "UNPACK32 x = [ucast (drop_bit 24 x), ucast (drop_bit 16 x), ucast (drop_bit 8 x), ucast x]"

definition PACK32 :: "u8 list \<Rightarrow> u32" where
  "PACK32 str = ucast (str ! 3) OR push_bit 8 (ucast (str ! 2))
     OR push_bit 16 (ucast (str ! 1)) OR push_bit 24 (ucast (str ! 0))"

definition SHA256_SCR :: "u32 list \<Rightarrow> u32 list" where
  "SHA256_SCR w = (let i = length w in
     w @ [SHA256_F4 (w ! (i - 2)) + w ! (i - 7) + SHA256_F3 (w ! (i - 15)) + w ! (i - 16)])"

definition sha256_h0 :: "u32 list" where
  "sha256_h0 = [0x6a09e667, 0xbb67ae85, 0x3c6ef372, 0xa54ff53a,
     0x510e527f, 0x9b05688c, 0x1f83d9ab, 0x5be0cd19]"

definition sha256_k :: "u32 list" where
  "sha256_k =
    [0x428a2f98, 0x71374491, 0xb5c0fbcf, 0xe9b5dba5] @ [0x3956c25b, 0x59f111f1, 0x923f82a4, 0xab1c5ed5] @
     [0xd807aa98, 0x12835b01, 0x243185be, 0x550c7dc3] @ [0x72be5d74, 0x80deb1fe, 0x9bdc06a7, 0xc19bf174] @
     [0xe49b69c1, 0xefbe4786, 0x0fc19dc6, 0x240ca1cc] @ [0x2de92c6f, 0x4a7484aa, 0x5cb0a9dc, 0x76f988da] @
     [0x983e5152, 0xa831c66d, 0xb00327c8, 0xbf597fc7] @ [0xc6e00bf3, 0xd5a79147, 0x06ca6351, 0x14292967] @
     [0x27b70a85, 0x2e1b2138, 0x4d2c6dfc, 0x53380d13] @ [0x650a7354, 0x766a0abb, 0x81c2c92e, 0x92722c85] @
     [0xa2bfe8a1, 0xa81a664b, 0xc24b8b70, 0xc76c51a3] @ [0xd192e819, 0xd6990624, 0xf40e3585, 0x106aa070] @
     [0x19a4c116, 0x1e376c08, 0x2748774c, 0x34b0bcb5] @ [0x391c0cb3, 0x4ed8aa4a, 0x5b9cca4f, 0x682e6ff3] @
     [0x748f82ee, 0x78a5636f, 0x84c87814, 0x8cc70208] @ [0x90befffa, 0xa4506ceb, 0xbef9a3f7, 0xc67178f2]"

section \<open>Context and block function\<close>

record sha256_ctx =
  cg_tot_len :: u32
  cg_len :: u32
  cg_block :: "u8 list"
  cg_h :: "u32 list"

text \<open>
  One turn of the loop over \<open>j\<close> from 0 to 63, its ten assignments in order.
\<close>

definition transf_round :: "u32 list \<Rightarrow> u32 list \<Rightarrow> nat \<Rightarrow> u32 list" where
  "transf_round w wv j =
     (let t1 = wv ! 7 + SHA256_F2 (wv ! 4) + CH (wv ! 4) (wv ! 5) (wv ! 6) + sha256_k ! j + w ! j;
          t2 = SHA256_F1 (wv ! 0) + MAJ (wv ! 0) (wv ! 1) (wv ! 2);
          wv = wv[7 := wv ! 6];
          wv = wv[6 := wv ! 5];
          wv = wv[5 := wv ! 4];
          wv = wv[4 := wv ! 3 + t1];
          wv = wv[3 := wv ! 2];
          wv = wv[2 := wv ! 1];
          wv = wv[1 := wv ! 0];
          wv = wv[0 := t1 + t2]
      in wv)"

definition transf_block :: "sha256_ctx \<Rightarrow> u8 list \<Rightarrow> sha256_ctx" where
  "transf_block ctx sub_block =
     (let w = map (\<lambda>j. PACK32 (drop (4 * j) sub_block)) [0..<16];
          w = (SHA256_SCR ^^ 48) w;
          wv = foldl (transf_round w) (cg_h ctx) [0..<64]
      in ctx\<lparr>cg_h := map2 (+) (cg_h ctx) wv\<rparr>)"

definition sha256_transf :: "sha256_ctx \<Rightarrow> u8 list \<Rightarrow> u32 \<Rightarrow> sha256_ctx" where
  "sha256_transf ctx message block_nb =
     foldl (\<lambda>ctx i. transf_block ctx (drop (64 * i) message)) ctx [0..<nat (sint block_nb)]"

section \<open>The stream\<close>

definition cg_sha256_init :: "sha256_ctx \<Rightarrow> sha256_ctx" where
  "cg_sha256_init ctx = ctx\<lparr>cg_h := sha256_h0, cg_len := 0, cg_tot_len := 0\<rparr>"

definition cg_sha256_update :: "sha256_ctx \<Rightarrow> u8 list \<Rightarrow> sha256_ctx" where
  "cg_sha256_update ctx message =
     (let len = of_nat (length message);
          tmp_len = 64 - cg_len ctx;
          rem_len = (if len < tmp_len then len else tmp_len);
          ctx = ctx\<lparr>cg_block := memcpy_at (cg_block ctx) (unat (cg_len ctx))
                                  (take (unat rem_len) message)\<rparr>
      in if cg_len ctx + len < 64 then ctx\<lparr>cg_len := cg_len ctx + len\<rparr>
         else
           let new_len = len - rem_len;
               block_nb = new_len div 64;
               shifted_message = drop (unat rem_len) message;
               ctx = sha256_transf ctx (cg_block ctx) 1;
               ctx = sha256_transf ctx shifted_message block_nb;
               rem_len = new_len mod 64
           in ctx\<lparr>cg_block := memcpy_at (cg_block ctx) 0
                    (take (unat rem_len) (drop (unat (push_bit 6 block_nb)) shifted_message)),
                  cg_len := rem_len,
                  cg_tot_len := cg_tot_len ctx + push_bit 6 (block_nb + 1)\<rparr>)"

definition cg_sha256_final :: "sha256_ctx \<Rightarrow> u8 list \<Rightarrow> sha256_ctx \<times> u8 list" where
  "cg_sha256_final ctx digest =
     (let block_nb = 1 + (if 64 - 9 < cg_len ctx mod 64 then 1 else 0);
          len_b = push_bit 3 (cg_tot_len ctx + cg_len ctx);
          pm_len = push_bit 6 block_nb;
          block = memcpy_at (cg_block ctx) (unat (cg_len ctx))
                    (replicate (unat (pm_len - cg_len ctx)) 0);
          block = block[unat (cg_len ctx) := 0x80];
          block = memcpy_at block (unat pm_len - 4) (UNPACK32 len_b);
          ctx = sha256_transf (ctx\<lparr>cg_block := block\<rparr>) block block_nb
      in (ctx, foldl (\<lambda>digest i. memcpy_at digest (4 * i) (UNPACK32 (cg_h ctx ! i)))
                 digest [0..<8]))"

text \<open>
  \<open>sha256\<close>: the context is a local variable, so its contents before \<open>sha256_init\<close>
  are arbitrary; the model takes them as an argument.
\<close>

definition cg_sha256 :: "sha256_ctx \<Rightarrow> u8 list \<Rightarrow> u8 list \<Rightarrow> u8 list" where
  "cg_sha256 ctx message digest =
     snd (cg_sha256_final (cg_sha256_update (cg_sha256_init ctx) message) digest)"

section \<open>Refinement of the standard\<close>

lemma ROTR_rotr32 [simp]: "ROTR x n = rotr32 n x"
  by (simp add: ROTR_def rotr32_def)

lemmas sha2_words = CH_def MAJ_def Ch_def Maj_def SHFR_def
  SHA256_F1_def SHA256_F2_def SHA256_F3_def SHA256_F4_def
  big_sigma0_def big_sigma1_def small_sigma0_def small_sigma1_def

lemma SHA256_SCR_sched_step: "SHA256_SCR = sched_step"
  by (rule ext) (simp add: SHA256_SCR_def sched_step_def sha2_words)

lemma sha256_k_fips: "sha256_k = fips_K"
  by (simp add: sha256_k_def fips_K_def)

lemma UNPACK32_be32: "UNPACK32 = be32_bytes"
  by (rule ext) (simp add: UNPACK32_def be32_bytes_def)

lemma PACK32_be32: "PACK32 (drop i bs) = be32_word (sub_list bs i 4)"
  by (simp add: PACK32_def be32_word_def sub_list_def or.commute or.left_commute)

lemma transf_round_comp_step:
  assumes "length wv = 8" shows "transf_round w wv j = comp_step w wv j"
proof -
  obtain a b c d e f g h where wv: "wv = [a, b, c, d, e, f, g, h]"
    using list8_eq [OF assms] by blast
  show ?thesis
    by (simp add: wv transf_round_def comp_step_def sha2_words sha256_k_fips Let_def)
qed

lemma length_comp_step [layout]: "length (comp_step w v t) = 8"
  by (simp add: comp_step_def Let_def)

lemma transf_rounds:
  "length wv = 8 \<Longrightarrow> foldl (transf_round w) wv js = foldl (comp_step w) wv js"
  by (induction js arbitrary: wv) (simp_all add: transf_round_comp_step layout)

lemma transf_block_compress:
  "length (cg_h ctx) = 8 \<Longrightarrow>
   transf_block ctx bs = ctx\<lparr>cg_h := compress (cg_h ctx) (block_words bs)\<rparr>"
  by (simp add: transf_block_def compress_def transf_rounds SHA256_SCR_sched_step schedule_def
      block_words_def PACK32_be32)

lemma transf_fold:
  "length (cg_h ctx) = 8 \<Longrightarrow> 64 * n \<le> length m \<Longrightarrow>
   foldl (\<lambda>ctx i. transf_block ctx (drop (64 * i) m)) ctx [0..<n] =
     ctx\<lparr>cg_h := hash_blocks (cg_h ctx) (take (64 * n) m)\<rparr>"
proof (induction n)
  case 0
  then show ?case by (simp add: hash_blocks_short)
next
  case (Suc n)
  have t: "take (64 * Suc n) m = take (64 * n) m @ take 64 (drop (64 * n) m)"
    by (metis mult_Suc_right add.commute take_add)
  have "hash_blocks (cg_h ctx) (take (64 * Suc n) m) =
    compress (hash_blocks (cg_h ctx) (take (64 * n) m)) (block_words (drop (64 * n) m))"
    unfolding t using Suc.prems
    by (subst hash_blocks_append) (simp_all add: hash_blocks_step hash_blocks_short block_words_take)
  with Suc show ?case by (simp add: transf_block_compress layout)
qed


lemma nat_sint_small:
  assumes "n < (0x80000000 :: u32)" shows "nat (sint n) = unat n"
proof -
  have "uint n < 2 ^ 31" using assms by (simp add: word_less_def)
  moreover have "0 \<le> uint n" by simp
  ultimately have "sint n = uint n"
    by (simp only: sint_uint) (simp add: signed_take_bit_int_eq_self_iff order_trans [of _ 0])
  then show ?thesis by simp
qed

lemma sha256_transf_hash:
  assumes "length (cg_h ctx) = 8" and "64 * unat n \<le> length m" and "n < 0x80000000"
  shows "sha256_transf ctx m n = ctx\<lparr>cg_h := hash_blocks (cg_h ctx) (take (64 * unat n) m)\<rparr>"
  using transf_fold [OF assms(1,2)] by (simp add: sha256_transf_def nat_sint_small [OF assms(3)])

lemma transf_full_blocks:
  assumes "length (cg_h ctx) = 8" and "length m < 2 ^ 32"
  shows "sha256_transf ctx m (of_nat (length m) div 64) =
    ctx\<lparr>cg_h := hash_blocks (cg_h ctx) m\<rparr>"
proof -
  let ?n = "of_nat (length m) div 64 :: u32"
  have n: "unat ?n = length m div 64" using assms(2) by (simp add: unat_div unat_of_nat)
  then have "?n < 0x80000000" using assms(2) by (simp add: word_less_nat_alt)
  moreover have "64 * unat ?n \<le> length m" using n by simp
  moreover have "hash_blocks H (take (64 * (length m div 64)) m) = hash_blocks H m" for H
  proof -
    have "m = take (64 * (length m div 64)) m @ drop (64 * (length m div 64)) m" by simp
    moreover have "length (take (64 * (length m div 64)) m) mod 64 = 0" by simp
    moreover have "length (drop (64 * (length m div 64)) m) < 64"
      by (simp add: minus_mult_div_eq_mod)
    ultimately show ?thesis by (metis hash_blocks_append hash_blocks_short)
  qed
  ultimately show ?thesis using n by (simp add: sha256_transf_hash [OF assms(1)])
qed

section \<open>The stream refines the message consumed so far\<close>

definition cg_holds :: "sha256_ctx \<Rightarrow> u8 list \<Rightarrow> bool" where
  "cg_holds ctx m \<longleftrightarrow> cg_tot_len ctx = of_nat (length m - length m mod 64)
     \<and> cg_len ctx = of_nat (length m mod 64) \<and> length (cg_block ctx) = 128
     \<and> cg_h ctx = hash_blocks fips_H0 m
     \<and> take (length m mod 64) (cg_block ctx) = absorbed m"

lemma cg_holds_init: "length (cg_block ctx) = 128 \<Longrightarrow> cg_holds (cg_sha256_init ctx) []"
  by (simp add: cg_holds_def cg_sha256_init_def hash_blocks_short sha256_h0_def fips_H0_def
      absorbed_def)

lemma unat_small_len [simp]: "unat (of_nat (l mod 64) :: u32) = l mod 64"
proof -
  have "l mod 64 < 64" by simp
  then have "l mod 64 < 2 ^ 32" by (rule less_trans) simp
  then show ?thesis by (simp add: unat_of_nat)
qed

lemma cg_update_keep:
  assumes "cg_len ctx = of_nat l" and "l + length x < 64"
  shows "cg_sha256_update ctx x =
    ctx\<lparr>cg_block := memcpy_at (cg_block ctx) l x, cg_len := of_nat (l + length x)\<rparr>"
proof -
  have "unat (of_nat l :: u32) = l" "unat (of_nat (length x) :: u32) = length x"
    using assms(2) by (simp_all add: unat_of_nat)
  moreover have "(of_nat (length x) :: u32) < 64 - of_nat l" "(of_nat l :: u32) + of_nat (length x) < 64"
    using assms(2) by (simp_all add: word_less_nat_alt unat_of_nat unat_sub_if_size word_size flip: of_nat_add)
  ultimately show ?thesis using assms(1) by (simp add: cg_sha256_update_def Let_def)
qed


lemma cg_update_full:
  assumes "cg_len ctx = of_nat l" and "l < 64" and "64 \<le> l + length x"
    and "length x < 2 ^ 32 - 64" and "length (cg_h ctx) = 8" and "length (cg_block ctx) = 128"
    and y: "y = drop (64 - l) x"
  shows "cg_h (cg_sha256_update ctx x) =
      hash_blocks (compress (cg_h ctx) (block_words (take l (cg_block ctx) @ take (64 - l) x))) y"
    and "cg_len (cg_sha256_update ctx x) = of_nat (length (absorbed y))"
    and "cg_tot_len (cg_sha256_update ctx x) =
      cg_tot_len ctx + of_nat (64 + (length x - (64 - l)) - length (absorbed y))"
    and "length (cg_block (cg_sha256_update ctx x)) = 128"
    and "take (length (absorbed y)) (cg_block (cg_sha256_update ctx x)) =
      absorbed y"
proof -
  let ?n = "length x"
  note y_def = y
  note fold = y_def [symmetric]
  let ?b = "memcpy_at (cg_block ctx) l (take (64 - l) x)"
  have ul: "unat (of_nat l :: u32) = l" and un: "unat (of_nat ?n :: u32) = ?n"
    using assms by (simp_all add: unat_of_nat)
  have tmp: "unat (64 - of_nat l :: u32) = 64 - l"
    using assms(2) ul by (simp add: unat_sub word_le_nat_alt)
  have rem: "(if (of_nat ?n :: u32) < 64 - of_nat l then of_nat ?n else 64 - of_nat l :: u32)
      = 64 - of_nat l"
    using assms(2,3) by (auto simp: word_less_nat_alt tmp un)
  have sum: "\<not> (of_nat l :: u32) + of_nat ?n < 64"
    using assms by (simp add: word_less_nat_alt unat_of_nat flip: of_nat_add)
  have new: "(of_nat ?n :: u32) - (64 - of_nat l) = of_nat (length y)"
    using assms(2,3) by (simp add: of_nat_diff y_def)
  have yl: "length y < 2 ^ 32" using assms(4) by (simp add: y_def)
  then have uy: "unat (of_nat (length y) :: u32) = length y" by (simp add: unat_of_nat)
  have nb: "unat (of_nat (length y) div 64 :: u32) = length y div 64"
    and rm: "unat (of_nat (length y) mod 64 :: u32) = length y mod 64"
    using uy by (simp_all add: unat_div unat_mod)
  have mul: "push_bit 6 v = 64 * v" for v :: u32
    by (simp add: push_bit_eq_mult mult.commute)
  have sh: "unat (push_bit 6 (of_nat (length y) div 64 :: u32)) = length y - length y mod 64"
  proof -
    have eq: "64 * (length y div 64) + length y mod 64 = length y" by (rule mult_div_mod_eq)
    then have lt: "64 * (length y div 64) < 2 ^ 32" using yl by linarith
    have "unat (64 * v) = 64 * unat v" if "64 * unat v < 2 ^ 32" for v :: u32
      using that by (simp add: unat_word_ariths)
    from this [of "of_nat (length y) div 64", unfolded nb, OF lt] eq show ?thesis
      unfolding mul by linarith
  qed
  have blk: "length ?b = 128" "block_words ?b = block_words (take l (cg_block ctx) @ take (64 - l) x)"
  proof -
    show b: "length ?b = 128" using assms(2,3,6) by (simp add: memcpy_at_def)
    have "take 64 ?b = take l (cg_block ctx) @ take (64 - l) x"
      using assms(2,3,6) by (simp add: memcpy_at_def)
    then show "block_words ?b = block_words (take l (cg_block ctx) @ take (64 - l) x)"
      using block_words_take [of ?b] b by simp
  qed
  have one: "sha256_transf c m 1 = c\<lparr>cg_h := compress (cg_h c) (block_words m)\<rparr>"
    if "length (cg_h c) = 8" for c m
    using that by (simp add: sha256_transf_def transf_block_compress)
  have upd: "cg_sha256_update ctx x =
    ctx\<lparr>cg_h := hash_blocks (compress (cg_h ctx) (block_words ?b)) y,
        cg_block := memcpy_at ?b 0 (absorbed y),
        cg_len := of_nat (length y) mod 64,
        cg_tot_len := cg_tot_len ctx + 64 * (of_nat (length y) div 64 + 1)\<rparr>"
    using sum assms(1,5)
    by (simp add: cg_sha256_update_def Let_def rem tmp ul new fold one layout
        transf_full_blocks [OF _ yl] sh rm absorbed_def) (simp add: mul)
  have "length x - (64 - l) = length y" by (simp add: y_def)
  note lx = this
  show "cg_h (cg_sha256_update ctx x) =
      hash_blocks (compress (cg_h ctx) (block_words (take l (cg_block ctx) @ take (64 - l) x))) y"
    by (simp add: upd blk)
  show "cg_len (cg_sha256_update ctx x) = of_nat (length (absorbed y))"
    by (rule word_unat_eq_iff [THEN iffD2]) (simp add: upd layout rm)
  have "of_nat (length y) div 64 = (of_nat (length y div 64) :: u32)"
    by (simp only: word_unat_eq_iff nb) (use yl in \<open>simp add: unat_of_nat\<close>)
  then have "64 * (of_nat (length y) div 64 + 1) =
      (of_nat (64 * (length y div 64) + 64) :: u32)"
    by (simp add: distrib_left)
  also have "64 * (length y div 64) + 64 = 64 + (length x - (64 - l)) - length (absorbed y)"
    using mult_div_mod_eq [of 64 "length y"] unfolding lx length_absorbed by linarith
  finally show "cg_tot_len (cg_sha256_update ctx x) =
      cg_tot_len ctx + of_nat (64 + (length x - (64 - l)) - length (absorbed y))"
    by (simp add: upd)
  show "length (cg_block (cg_sha256_update ctx x)) = 128"
    using blk(1) length_absorbed_less [of y]
    by (simp add: upd length_memcpy_at del: length_append)
  show "take (length (absorbed y)) (cg_block (cg_sha256_update ctx x)) = absorbed y"
    by (simp add: upd memcpy_at_def)
qed


lemma cg_holds_update:
  assumes "cg_holds ctx m" and "length x < 2 ^ 32 - 64"
  shows "cg_holds (cg_sha256_update ctx x) (m @ x)"
proof -
  let ?l = "length m mod 64"
  note h = assms(1) [unfolded cg_holds_def]
  have l: "?l < 64" "length (absorbed m) = ?l" "?l \<le> length m" by (simp_all add: layout)
  have len: "cg_len ctx = of_nat ?l" and h8: "length (cg_h ctx) = 8"
    and b: "length (cg_block ctx) = 128" and t: "take ?l (cg_block ctx) = absorbed m"
    using h by (simp_all add: layout)
  show ?thesis
  proof (cases "?l + length x < 64")
    case True
    note upd = cg_update_keep [OF len True]
    note keep = hash_keep [of m x, unfolded l(2), OF True]
    have mod: "(length m + length x) mod 64 = ?l + length x"
      using True by (metis mod_add_left_eq mod_less)
    have "length m + length x - (?l + length x) = length m - ?l" by simp
    with h True show ?thesis
      by (simp add: cg_holds_def upd keep mod memcpy_at_def b t l(2))
  next
    case False
    let ?k = "64 - ?l"
    let ?y = "drop ?k x"
    from False have ge: "64 \<le> ?l + length x" by simp
    note upd = cg_update_full [OF len l(1) ge assms(2) h8 b refl]
    have "length (absorbed m) + ?k = 64" "?k \<le> length x" using l ge by simp_all
    note fill = hash_fill [OF this]
    have mod: "(length m + length x) mod 64 = length (absorbed ?y)"
      using fill(2) by (metis length_absorbed length_append)
    have le: "length (absorbed ?y) \<le> length x - ?k"
      by (simp add: layout)
    have "(length m - ?l) + (64 + (length x - ?k) - length (absorbed ?y)) =
      length m + length x - length (absorbed ?y)"
      using l(1,3) ge le by linarith
    then have "of_nat (length m - ?l) + of_nat (64 + (length x - ?k) - length (absorbed ?y)) =
      (of_nat (length m + length x - length (absorbed ?y)) :: u32)"
      by (simp only: of_nat_add [symmetric])
    with h show ?thesis
      by (simp add: cg_holds_def upd fill mod t)
  qed
qed


section \<open>The digest\<close>

lemma cg_digest_bytes:
  assumes "length ws = 8" and "length digest = 32"
  shows "foldl (\<lambda>digest i. memcpy_at digest (4 * i) (UNPACK32 (ws ! i))) digest [0..<8] =
    concat (map be32_bytes ws)"
proof -
  have "foldl (\<lambda>d i. memcpy_at d (4 * i) (UNPACK32 (ws ! i))) d [0..<n] =
      concat (map be32_bytes (take n ws)) @ drop (4 * n) d"
    if "n \<le> length ws" "4 * n \<le> length d" for n and d :: "u8 list"
    using that
    by (induction n) (simp_all add: UNPACK32_be32 memcpy_at_def layout take_Suc_conv_app_nth)
  from this [of 8 digest] assms show ?thesis by simp
qed


lemma be64_small:
  assumes "n < 2 ^ 32"
  shows "be64_bytes (of_nat n) = replicate 4 0 @ be32_bytes (of_nat n)"
proof -
  have n: "take_bit 32 n = n" using assms by (simp add: take_bit_nat_eq_self)
  then have hi: "\<not> bit n i" if "32 \<le> i" for i
    using that by (metis bit_take_bit_iff not_le)
  have "ucast (drop_bit k (of_nat n :: u64)) = (0 :: u8)" if "32 \<le> k" for k
    by (rule bit_word_eqI) (use that in \<open>simp add: bit_simps hi\<close>)
  moreover have "ucast (drop_bit k (of_nat n :: u64)) = (ucast (drop_bit k (of_nat n :: u32)) :: u8)"
    if "k \<le> 24" for k
    by (rule bit_word_eqI) (use that in \<open>auto simp: bit_simps\<close>)
  moreover have "ucast (of_nat n :: u64) = (ucast (of_nat n :: u32) :: u8)"
    by (rule bit_word_eqI) (auto simp: bit_simps)
  ultimately show ?thesis
    by (simp add: be64_bytes_def be32_bytes_def numeral_eq_Suc)
qed

text \<open>
  The buffer as the final call leaves it: one or two blocks that end the padded message.
\<close>

lemma final_block:
  assumes "length b = 128" and "l < 64" and "take l b = a" and "length a = l"
    and nb: "nb = (if 55 < l then 2 else 1)" and "length (t :: u8 list) = 4"
  shows "memcpy_at ((memcpy_at b l (replicate (64 * nb - l) 0))[l := 0x80]) (64 * nb - 4) t =
    (a @ [0x80] @ replicate (64 * nb - l - 5) 0 @ t) @ drop (64 * nb) b"
proof -
  define z where "z = 64 * nb - l - 5"
  have z: "64 * nb - l = Suc (z + 4)" "64 * nb - 4 = l + Suc z" "64 * nb \<le> 128"
    "l + (z + 5) = 64 * nb"
    using assms(2) by (auto simp: z_def nb)
  have fill: "memcpy_at b l (replicate (64 * nb - l) 0) =
      a @ replicate (Suc (z + 4)) 0 @ drop (64 * nb) b"
    using assms(2,3) z by (simp add: memcpy_at_def add.commute)
  have 1: "(memcpy_at b l (replicate (64 * nb - l) 0))[l := 0x80] =
      (a @ 0x80 # replicate z 0) @ replicate 4 0 @ drop (64 * nb) b"
  proof -
    have r: "replicate (Suc (z + 4)) (0 :: u8) = 0 # replicate z 0 @ replicate 4 0"
      by (simp only: replicate_Suc replicate_add)
    have "(a @ (0 # y) @ d)[l := x] = a @ x # y @ d" for x :: u8 and y d
      using assms(4) by (simp add: list_update_append)
    then show ?thesis using fill unfolding r by simp
  qed
  have "length (a @ 0x80 # replicate z (0 :: u8)) = 64 * nb - 4" using z(2) assms(4) by simp
  moreover have "memcpy_at (y @ replicate 4 0 @ d) (length y) t = y @ t @ d" for y d :: "u8 list"
    using assms(6) by (simp add: memcpy_at_def)
  ultimately show ?thesis unfolding 1 z_def [symmetric] by (metis append.assoc append_Cons append_Nil)
qed

lemma cg_final_spec:
  assumes "cg_holds ctx m" and "length m < 2 ^ 29" and "length digest = 32"
  shows "snd (cg_sha256_final ctx digest) = sha256_spec m"
proof -
  let ?l = "length m mod 64"
  note h = assms(1) [unfolded cg_holds_def]
  have l: "?l < 64" "length (absorbed m) = ?l" "?l \<le> length m" by (simp_all add: layout)
  define nb where "nb = (if 55 < ?l then 2 else 1 :: nat)"
  let ?t = "UNPACK32 (8 * of_nat (length m))"
  let ?p = "absorbed m @ [0x80] @ replicate (64 * nb - ?l - 5) 0 @ ?t"
  have len: "cg_tot_len ctx + cg_len ctx = of_nat (length m)"
    using h l(3) by (simp flip: of_nat_add)
  have clen: "cg_len ctx = of_nat ?l" and hh: "cg_h ctx = hash_blocks fips_H0 m"
    using h by simp_all
  then have h8b: "length (cg_h (ctx\<lparr>cg_block := bl\<rparr>)) = 8" for bl by (simp add: layout)
  have tlen: "cg_tot_len ctx + of_nat ?l = of_nat (length m)" using len clen by simp
  have lenp: "length ?p = 64 * nb" using l by (auto simp: nb_def UNPACK32_be32 layout)
  have pad: "?p = absorbed m @ [0x80] @ replicate (pad_zeros (length m)) 0
      @ be64_bytes (of_nat (8 * length m))"
  proof -
    have "be64_bytes (of_nat (8 * length m)) = replicate 4 0 @ ?t"
      using be64_small [of "8 * length m"] assms(2) by (simp add: UNPACK32_be32)
    moreover have "64 * nb - ?l - 5 = pad_zeros (length m) + 4"
      using l(1) by (auto simp: nb_def pad_zeros_def)
    ultimately show ?thesis by (simp add: replicate_add)
  qed
  have unb: "(1 + (if (64 - 9 :: u32) < of_nat ?l mod 64 then 1 else 0)) = (of_nat nb :: u32)"
  proof -
    have "unat (of_nat ?l mod 64 :: u32) = ?l" by (simp add: unat_mod)
    then have "(55 :: u32) < of_nat ?l mod 64 \<longleftrightarrow> 55 < ?l" by (simp add: word_less_nat_alt)
    then show ?thesis by (simp add: nb_def)
  qed
  have ul: "unat (of_nat ?l :: u32) = ?l" and unb64: "unat (push_bit 6 (of_nat nb :: u32)) = 64 * nb"
    and dif: "unat (push_bit 6 (of_nat nb) - of_nat ?l :: u32) = 64 * nb - ?l"
    and unn: "unat (of_nat nb :: u32) = nb"
  proof -
    show ul: "unat (of_nat ?l :: u32) = ?l" by simp
    show unn: "unat (of_nat nb :: u32) = nb" by (simp add: nb_def)
    show sh: "unat (push_bit 6 (of_nat nb :: u32)) = 64 * nb" by (simp add: nb_def)
    have "?l \<le> 64 * nb" using l(1) by (auto simp: nb_def)
    then have "(of_nat ?l :: u32) \<le> push_bit 6 (of_nat nb)"
      by (simp only: word_le_nat_alt ul sh)
    then show "unat (push_bit 6 (of_nat nb) - of_nat ?l :: u32) = 64 * nb - ?l"
      by (simp only: unat_sub ul sh)
  qed
  have t: "push_bit 3 (of_nat (length m)) = (8 * of_nat (length m) :: u32)"
    by (simp add: push_bit_eq_mult mult.commute)
  have tl: "length ?t = 4" by (simp add: UNPACK32_be32 layout)
  have blk: "memcpy_at ((memcpy_at (cg_block ctx) ?l (replicate (64 * nb - ?l) 0))[?l := 0x80])
      (64 * nb - 4) ?t = ?p @ drop (64 * nb) (cg_block ctx)" (is "?lhs = ?rhs")
    using final_block [OF _ l(1) _ l(2) nb_def tl] h by simp
  have "(of_nat nb :: u32) < 0x80000000" by (simp add: nb_def)
  then have "sha256_transf c (p @ d) (of_nat nb) = c\<lparr>cg_h := hash_blocks (cg_h c) p\<rparr>"
    if "length (cg_h c) = 8" "length p = 64 * nb" for c p d
    using that by (simp add: sha256_transf_hash unn)
  from this [OF _ lenp] have tr: "sha256_transf c ?rhs (of_nat nb) =
      c\<lparr>cg_h := hash_blocks (cg_h c) ?p\<rparr>" if "length (cg_h c) = 8" for c
    using that .
  then have fin: "snd (cg_sha256_final ctx digest) =
     concat (map be32_bytes (hash_blocks (hash_blocks fips_H0 m) ?p))"
    using cg_digest_bytes [OF length_hash_blocks [OF length_state] assms(3)]
    by (simp only: cg_sha256_final_def Let_def clen unb ul unb64 dif tlen t blk tr [OF h8b]
        snd_conv) (simp add: hh)
  also have "hash_blocks (hash_blocks fips_H0 m) ?p = hash_blocks fips_H0 (pad_msg m)"
    unfolding pad pad_msg_def by (rule hash_absorbed [symmetric])
  finally show ?thesis by (simp add: sha256_spec_def)
qed

interpretation miner: hash_stream cg_sha256_init cg_sha256_update cg_sha256_final cg_holds
  "\<lambda>ctx. length (cg_block ctx) = 128" "\<lambda>n. n < 2 ^ 32 - 64" "\<lambda>n. n < 2 ^ 29"
  by unfold_locales (simp_all only: cg_holds_init cg_holds_update cg_final_spec)

lemma cg_sha256_is_spec:
  assumes "length (cg_block ctx) = 128" and "length digest = 32" and "length m < 2 ^ 29"
  shows "cg_sha256 ctx m digest = sha256_spec m"
  unfolding cg_sha256_def using assms by (intro miner.digest_one) simp_all

lemma cg_midstate:
  assumes "length (cg_block ctx) = 128" and "length data = 64"
  shows "cg_h (cg_sha256_update (cg_sha256_init ctx) data) = compress fips_H0 (block_words data)"
proof -
  have "cg_holds (cg_sha256_update (cg_sha256_init ctx) data) ([] @ data)"
    using assms by (intro miner.holds_feed miner.holds_start) simp_all
  then have "cg_h (cg_sha256_update (cg_sha256_init ctx) data) = hash_blocks fips_H0 data"
    by (simp add: cg_holds_def)
  with assms(2) show ?thesis by (simp add: hash_blocks_step hash_blocks_short)
qed

text \<open>C2: the miner's one-call hash computes the SHA-256 of every message shorter than
\<open>2 ^ 29\<close> bytes; from there on its 32-bit count of bits overflows. Feeding the message in
pieces gives the same.\<close>

theorem miner_sha256_digest:
  assumes "length (cg_block ctx) = 128" and "length digest = 32" and "length (concat xs) < 2 ^ 29"
  shows "cg_sha256 ctx (concat xs) digest = sha256_spec (concat xs) \<and>
    snd (cg_sha256_final (foldl cg_sha256_update (cg_sha256_init ctx) xs) digest) = sha256_spec (concat xs)"
proof -
  have "length x \<le> length (concat xs)" if "x \<in> set xs" for x
    using that by (induction xs) auto
  then have "\<forall>x\<in>set xs. length x < 2 ^ 32 - 64" using assms(3) by fastforce
  with miner.digest_pieces [of ctx xs digest] cg_sha256_is_spec assms show ?thesis by blast
qed

definition stale_ctx :: sha256_ctx where
  "stale_ctx = \<lparr>cg_tot_len = 1, cg_len = 2, cg_block = replicate 128 3, cg_h = []\<rparr>"

theorem miner_sha256_digest_witness:
  "cg_sha256 stale_ctx [1, 2, 3] (replicate 32 0) = sha256_spec [1, 2, 3]"
  using miner_sha256_digest [of stale_ctx "replicate 32 0" "[[1], [2, 3]]"] by (simp add: stale_ctx_def)

end
