(* ===== verification/Fifo.thy ===== *)
theory Fifo
  imports Main
begin

text \<open>
  The contract every message queue of the program keeps: an event may hand elements to
  the queue and take elements out of it, and what is taken out followed by what stays is
  what was there followed by what was added. Nothing is lost, duplicated or reordered. The
  components with a queue interpret the locale on their own steps.
\<close>

fun run_events :: "('e \<Rightarrow> 's \<Rightarrow> ('a list \<times> 's) option) \<Rightarrow> 'e list \<Rightarrow> 's \<Rightarrow> ('a list \<times> 's) option" where
  "run_events step [] s = Some ([], s)"
| "run_events step (e # es) s = (case step e s of None \<Rightarrow> None
     | Some (out, s) \<Rightarrow> (case run_events step es s of None \<Rightarrow> None
       | Some (outs, s) \<Rightarrow> Some (out @ outs, s)))"

fun all_added :: "('e \<Rightarrow> 's \<Rightarrow> ('a list \<times> 's) option) \<Rightarrow> ('e \<Rightarrow> 's \<Rightarrow> 'a list) \<Rightarrow> 'e list \<Rightarrow> 's
    \<Rightarrow> 'a list" where
  "all_added step added [] s = []"
| "all_added step added (e # es) s = added e s @
     (case step e s of None \<Rightarrow> [] | Some (out, s) \<Rightarrow> all_added step added es s)"

fun all_ok :: "('e \<Rightarrow> 's \<Rightarrow> ('a list \<times> 's) option) \<Rightarrow> ('e \<Rightarrow> 's \<Rightarrow> bool) \<Rightarrow> 'e list \<Rightarrow> 's \<Rightarrow> bool" where
  "all_ok step ok [] s \<longleftrightarrow> True"
| "all_ok step ok (e # es) s \<longleftrightarrow> ok e s \<and>
     (case step e s of None \<Rightarrow> True | Some (out, s) \<Rightarrow> all_ok step ok es s)"

locale fifo =
  fixes inv :: "'s \<Rightarrow> bool"
    and elems :: "'s \<Rightarrow> 'a list"
    and ok :: "'e \<Rightarrow> 's \<Rightarrow> bool"
    and step :: "'e \<Rightarrow> 's \<Rightarrow> ('a list \<times> 's) option"
    and added :: "'e \<Rightarrow> 's \<Rightarrow> 'a list"
  assumes conserve: "inv s \<Longrightarrow> ok e s \<Longrightarrow>
    \<exists>out s'. step e s = Some (out, s') \<and> inv s' \<and> out @ elems s' = elems s @ added e s"
begin

lemma run_conserve:
  "inv s \<Longrightarrow> all_ok step ok es s \<Longrightarrow>
   \<exists>outs s'. run_events step es s = Some (outs, s') \<and> inv s' \<and>
     outs @ elems s' = elems s @ all_added step added es s"
proof (induction es arbitrary: s)
  case (Cons e es)
  from Cons.prems conserve [of s e] obtain out s1 where
    1: "step e s = Some (out, s1)" "inv s1" "out @ elems s1 = elems s @ added e s" by auto
  with Cons.prems have "all_ok step ok es s1" by simp
  from Cons.IH [OF 1(2) this] obtain outs s2 where
    2: "run_events step es s1 = Some (outs, s2)" "inv s2"
      "outs @ elems s2 = elems s1 @ all_added step added es s1"
    by blast
  from 2(3) have "(out @ outs) @ elems s2 = (out @ elems s1) @ all_added step added es s1"
    by simp
  with 1 2 show ?case by simp
qed simp

lemma run_prefix:
  "inv s \<Longrightarrow> all_ok step ok es s \<Longrightarrow> elems s = [] \<Longrightarrow>
   \<exists>outs s'. run_events step es s = Some (outs, s') \<and>
     outs = take (length outs) (all_added step added es s)"
  using run_conserve [of s es] by (metis append_Nil append_eq_conv_conj)

end

end
