(* ===== verification/KernelModule.thy ===== *)
theory KernelModule
  imports Prelude Fifo "HOL-Library.Monad_Syntax"
begin

text \<open>
  The Linux driver of the accelerator, \<open>src/kernel_module/sha256_accel.c\<close> with its
  header: a queue of result messages filled by the interrupt handler and drained by
  \<open>read\<close> and \<open>poll\<close>, register access by \<open>ioctl\<close>, one opener at a time, and the
  acquisition and release of kernel resources at load and unload.

  The device behind the registers, the kernel's allocator and the user's memory are not in
  the repository: the device is a parameter \<open>hw\<close> (what a register write does and what a
  read yields), an allocation outcome is an argument of the interrupt handler, and user
  memory is a state of its own. \<open>None\<close> stands for a kernel fault: a NULL or freed pointer
  used, or a division by zero.
\<close>

section \<open>Environment\<close>

record 'h hw_ops =
  hw_write :: "u32 \<Rightarrow> u8 list \<Rightarrow> 'h \<Rightarrow> 'h"
  hw_read :: "u32 \<Rightarrow> nat \<Rightarrow> 'h \<Rightarrow> u8 list \<times> 'h"

record user_mem =
  um_ok :: "nat \<Rightarrow> nat \<Rightarrow> bool"
  um_bytes :: "nat \<Rightarrow> u8 option"

definition mapped_prefix :: "user_mem \<Rightarrow> nat \<Rightarrow> nat \<Rightarrow> nat" where
  "mapped_prefix um addr n = length (takeWhile (\<lambda>a. um_bytes um a \<noteq> None) [addr..<addr + n])"

text \<open>
  \<open>copy_from_user\<close> fills what it could not read with zeros; \<open>copy_to_user\<close> returns the
  number of bytes it could not write.
\<close>

definition copy_from_user :: "user_mem \<Rightarrow> nat \<Rightarrow> nat \<Rightarrow> u8 list" where
  "copy_from_user um addr n =
     (let k = (if um_ok um addr n then mapped_prefix um addr n else 0)
      in map (\<lambda>a. the (um_bytes um a)) [addr..<addr + k] @ replicate (n - k) 0)"

definition copy_to_user :: "user_mem \<Rightarrow> nat \<Rightarrow> u8 list \<Rightarrow> nat \<times> user_mem" where
  "copy_to_user um addr bs =
     (let n = length bs;
          k = (if um_ok um addr n then mapped_prefix um addr n else 0)
      in (n - k, um\<lparr>um_bytes := fold (\<lambda>i m. m(addr + i \<mapsto> bs ! i)) [0..<k] (um_bytes um)\<rparr>))"

definition put_user32 :: "user_mem \<Rightarrow> nat \<Rightarrow> u32 \<Rightarrow> bool \<times> user_mem" where
  "put_user32 um addr v =
     (if um_ok um addr 4 \<and> mapped_prefix um addr 4 = 4
      then (True, snd (copy_to_user um addr (le32_bytes v))) else (False, um))"

section \<open>State\<close>

record sha256_accel_msg_s =
  msg_status :: u32
  msg_nonce_candidate :: u32

text \<open>
  \<open>k_heap\<close> holds the messages allocated and not yet freed, \<open>k_msg_list\<close> the addresses on
  \<open>sha256_accel_msg_list\<close>, \<open>k_msg\<close> the pointer \<open>sha256_accel_msg\<close> (NULL is None).
  \<open>k_locks\<close> are the outcomes of the coming calls of \<open>mutex_lock_interruptible\<close>, True for
  a lock acquired; an exhausted list means acquired.
\<close>

record 'h kernel =
  k_device_mutex :: bool
  k_heap :: "nat \<Rightarrow> sha256_accel_msg_s option"
  k_msg_list :: "nat list"
  k_msg :: "nat option"
  k_hw :: 'h
  k_locks :: "bool list"

definition kfree :: "nat \<Rightarrow> 'h kernel \<Rightarrow> 'h kernel option" where
  "kfree a st = (if k_heap st a = None then None
     else Some (st\<lparr>k_heap := (k_heap st)(a := None)\<rparr>))"

definition mutex_lock_interruptible :: "'h kernel \<Rightarrow> bool \<times> 'h kernel" where
  "mutex_lock_interruptible st = (case k_locks st of [] \<Rightarrow> (True, st)
     | b # bs \<Rightarrow> (b, st\<lparr>k_locks := bs\<rparr>))"

section \<open>The message queue\<close>

definition sha256_accel_msg_dequeue :: "'h kernel \<Rightarrow> (bool \<times> 'h kernel) option" where
  "sha256_accel_msg_dequeue st = do {
     st \<leftarrow> (case k_msg st of None \<Rightarrow> Some st | Some a \<Rightarrow> kfree a st);
     let (locked, st) = mutex_lock_interruptible st;
     if \<not> locked then Some (False, st\<lparr>k_msg := None\<rparr>)
     else (case k_msg_list st of
       [] \<Rightarrow> Some (False, st\<lparr>k_msg := None\<rparr>)
     | ptr # rest \<Rightarrow> Some (True, st\<lparr>k_msg_list := rest, k_msg := Some ptr\<rparr>))
   }"

text \<open>The tail-recursive call finds \<open>sha256_accel_msg\<close> set and returns at once.\<close>

definition msg_size :: nat where
  "msg_size = 8"

definition sha256_accel_msg_avail :: "'h kernel \<Rightarrow> (nat \<times> 'h kernel) option" where
  "sha256_accel_msg_avail st =
     (if k_msg st \<noteq> None then Some (msg_size, st)
      else do {
        (got, st) \<leftarrow> sha256_accel_msg_dequeue st;
        Some (if got then (msg_size, st) else (0, st))
      })"

definition msg_bytes :: "sha256_accel_msg_s \<Rightarrow> u8 list" where
  "msg_bytes m = le32_bytes (msg_status m) @ le32_bytes (msg_nonce_candidate m)"

definition accel_addr :: "u32 \<Rightarrow> u32" where
  "accel_addr r = 0x43c00000 + 4 * r"

definition slcr_addr :: "u32 \<Rightarrow> u32" where
  "slcr_addr r = 0xf8000000 + 4 * r"

definition ioread32 :: "'h hw_ops \<Rightarrow> u32 \<Rightarrow> 'h kernel \<Rightarrow> u32 \<times> 'h kernel" where
  "ioread32 hw a st = (let (bs, h) = hw_read hw a 4 (k_hw st) in (le32_word bs, st\<lparr>k_hw := h\<rparr>))"

definition iowrite :: "'h hw_ops \<Rightarrow> u8 list \<Rightarrow> u32 \<Rightarrow> 'h kernel \<Rightarrow> 'h kernel" where
  "iowrite hw bs a st = st\<lparr>k_hw := hw_write hw a bs (k_hw st)\<rparr>"

definition iowrite8 :: "'h hw_ops \<Rightarrow> u8 \<Rightarrow> u32 \<Rightarrow> 'h kernel \<Rightarrow> 'h kernel" where
  "iowrite8 hw v = iowrite hw [v]"

definition iowrite32 :: "'h hw_ops \<Rightarrow> u32 \<Rightarrow> u32 \<Rightarrow> 'h kernel \<Rightarrow> 'h kernel" where
  "iowrite32 hw v = iowrite hw (le32_bytes v)"

text \<open>
  The interrupt handler; \<open>alloc\<close> is what \<open>kmalloc\<close> returns, and the handler writes
  through it without a check.
\<close>

definition sha256_accel_irq ::
    "'h hw_ops \<Rightarrow> nat option \<Rightarrow> 'h kernel \<Rightarrow> 'h kernel option" where
  "sha256_accel_irq hw alloc st =
     (case alloc of None \<Rightarrow> None
      | Some msg \<Rightarrow>
        let (status, st) = ioread32 hw (accel_addr 23) st;
            (nonce, st) = ioread32 hw (accel_addr 19) st;
            st = st\<lparr>k_heap := (k_heap st)(msg \<mapsto>
                   \<lparr>msg_status = status, msg_nonce_candidate = nonce\<rparr>)\<rparr>;
            st = iowrite32 hw 1 (accel_addr 25) st
        in Some (st\<lparr>k_msg_list := k_msg_list st @ [msg]\<rparr>))"

section \<open>Read and poll\<close>

text \<open>
  What happens while a reader sleeps in \<open>wait_event_interruptible\<close>: interrupts, or a
  signal. A wait that has used up the given events is still asleep.
\<close>

datatype wake = Irq "nat option" | Signal

datatype 'h waited = Woken "'h kernel" "wake list" | Interrupted "'h kernel" | Asleep "'h kernel"

fun wait_msg_avail :: "'h hw_ops \<Rightarrow> 'h kernel \<Rightarrow> wake list \<Rightarrow> 'h waited option" where
  "wait_msg_avail hw st [] = do {
     (n, st) \<leftarrow> sha256_accel_msg_avail st;
     Some (if n > 0 then Woken st [] else Asleep st) }"
| "wait_msg_avail hw st (Signal # ws) = do {
     (n, st) \<leftarrow> sha256_accel_msg_avail st;
     Some (if n > 0 then Woken st (Signal # ws) else Interrupted st) }"
| "wait_msg_avail hw st (Irq alloc # ws) = do {
     (n, st) \<leftarrow> sha256_accel_msg_avail st;
     if n > 0 then Some (Woken st (Irq alloc # ws))
     else do { st \<leftarrow> sha256_accel_irq hw alloc st; wait_msg_avail hw st ws } }"

lemma avail_current:
  assumes "sha256_accel_msg_avail st = Some (n, st')" and "0 < n"
  shows "k_msg st' \<noteq> None"
  using assms
  by (auto simp: sha256_accel_msg_avail_def sha256_accel_msg_dequeue_def Let_def
      split: if_splits option.splits prod.splits list.splits bind_splits)

lemma wait_woken_current:
  "wait_msg_avail hw st ws = Some (Woken st' ws') \<Longrightarrow> k_msg st' \<noteq> None"
proof (induction ws arbitrary: st)
  case (Cons w ws)
  then show ?case by (cases w) (auto split: if_splits bind_splits dest!: avail_current)
qed (auto split: if_splits bind_splits dest!: avail_current)

text \<open>
  \<open>len\<close> is the size of the user's buffer. The result is \<open>Done\<close> with the return
  value, or \<open>Sleeping\<close> when the events given do not end the wait. A second round of the
  loop finds a current message, which bounds it.
\<close>

datatype 'h read_result = Done int "'h kernel" user_mem | Sleeping "'h kernel"

definition EPERM :: int where "EPERM = 1"
definition EIO :: int where "EIO = 5"
definition EAGAIN :: int where "EAGAIN = 11"
definition EFAULT :: int where "EFAULT = 14"
definition EBUSY :: int where "EBUSY = 16"
definition EINVAL :: int where "EINVAL = 22"
definition ENOTTY :: int where "ENOTTY = 25"
definition ERESTARTSYS :: int where "ERESTARTSYS = 512"

lemmas errno = EPERM_def EIO_def EAGAIN_def EFAULT_def EBUSY_def EINVAL_def ENOTTY_def
  ERESTARTSYS_def

datatype 'h avail_result = Available nat "'h kernel" | Gave_up int "'h kernel" | Still "'h kernel"

function read_loop ::
    "'h hw_ops \<Rightarrow> bool \<Rightarrow> 'h kernel \<Rightarrow> wake list \<Rightarrow> 'h avail_result option" where
  "read_loop hw nonblock st ws =
     (case sha256_accel_msg_avail st of None \<Rightarrow> None
      | Some (avail, st1) \<Rightarrow>
        if avail > 0 then Some (Available avail st1)
        else if nonblock then Some (Gave_up (- EAGAIN) st1)
        else (case wait_msg_avail hw st1 ws of None \<Rightarrow> None
          | Some (Interrupted st2) \<Rightarrow> Some (Gave_up (- ERESTARTSYS) st2)
          | Some (Asleep st2) \<Rightarrow> Some (Still st2)
          | Some (Woken st2 ws2) \<Rightarrow> read_loop hw nonblock st2 ws2))"
  by pat_completeness auto
termination
proof (relation "measure (\<lambda>(hw, nb, st, ws). if k_msg st = None then 1 else 0)", goal_cases)
  case (2 hw nonblock st ws a avail st1 w st2 ws2)
  then have "k_msg st2 \<noteq> None" using wait_woken_current by blast
  moreover have "k_msg st = None"
    using 2 by (auto simp: sha256_accel_msg_avail_def msg_size_def split: if_splits)
  ultimately show ?case by simp
qed simp

declare read_loop.simps [simp del]

definition sha256_accel_read ::
    "'h hw_ops \<Rightarrow> bool \<Rightarrow> 'h kernel \<Rightarrow> user_mem \<Rightarrow> nat \<Rightarrow> nat \<Rightarrow> wake list
     \<Rightarrow> 'h read_result option" where
  "sha256_accel_read hw nonblock st um buffer len ws =
     (if len = 0 then Some (Done 0 st um)
      else case read_loop hw nonblock st ws of
        None \<Rightarrow> None
      | Some (Gave_up e st) \<Rightarrow> Some (Done e st um)
      | Some (Still st) \<Rightarrow> Some (Sleeping st)
      | Some (Available avail st) \<Rightarrow> do {
          let copy = (if avail \<ge> len then len else avail);
          cur \<leftarrow> k_msg st;
          payload \<leftarrow> k_heap st cur;
          let (copied, um) = copy_to_user um buffer (take copy (msg_bytes payload));
          let ret = (if copied = 0 then copy else copied);
          (_, st) \<leftarrow> sha256_accel_msg_dequeue st;
          Some (Done (int ret) st um) })"

definition sha256_accel_write :: int where
  "sha256_accel_write = - EINVAL"

definition sha256_accel_poll :: "'h kernel \<Rightarrow> (nat \<times> 'h kernel) option" where
  "sha256_accel_poll st = do {
     (n, st) \<leftarrow> sha256_accel_msg_avail st;
     Some (if n > 0 then 0x0001 + 0x0040 else 0, st) }"

section \<open>Open and release\<close>

definition sha256_accel_open :: "'h kernel \<Rightarrow> int \<times> 'h kernel" where
  "sha256_accel_open st =
     (if k_device_mutex st then (- EBUSY, st) else (0, st\<lparr>k_device_mutex := True\<rparr>))"

definition sha256_accel_release :: "'h hw_ops \<Rightarrow> 'h kernel \<Rightarrow> int \<times> 'h kernel" where
  "sha256_accel_release hw st =
     (let st = iowrite8 hw 1 (accel_addr 24) st
      in (0, st\<lparr>k_device_mutex := False\<rparr>))"

section \<open>Ioctl\<close>

definition IOC :: "u32 \<Rightarrow> u32 \<Rightarrow> u32 \<Rightarrow> u32" where
  "IOC dir nr sz = push_bit 30 dir OR push_bit 16 sz OR push_bit 8 0x53 OR nr"

definition IOC_TYPE :: "u32 \<Rightarrow> u32" where
  "IOC_TYPE cmd = drop_bit 8 cmd AND 0xff"

text \<open>
  The clock command after its param check; \<open>None\<close> is the division by zero. A constant of
  the enclosing \<open>switch\<close> of its own because it has five exits.
\<close>

definition set_clock_speed :: "'h hw_ops \<Rightarrow> u32 \<Rightarrow> 'h kernel \<Rightarrow> (int \<times> 'h kernel) option" where
  "set_clock_speed hw param st =
     (let (lock, st) = ioread32 hw (slcr_addr 0) st
      in if lock \<noteq> 0 then Some (- EPERM, st)
      else
        let (lock, st) = ioread32 hw (slcr_addr 3) st;
            (failed, st) =
              (if lock \<noteq> 0 then
                 let st = iowrite32 hw 0xdf0d (slcr_addr 2) st;
                     (sta, st) = ioread32 hw (slcr_addr 3) st
                 in (sta \<noteq> 0, st)
               else (False, st))
        in if failed then Some (- EIO, st)
        else if param = 0 then None
        else
          let val = 1000 div param
          in if val = 0 \<or> val > 0x3f then Some (- EINVAL, st)
          else
            let val = push_bit 4 0 OR push_bit 8 val OR push_bit 20 1;
                st = iowrite32 hw val (slcr_addr 0x5c) st;
                st = (if lock \<noteq> 0 then iowrite32 hw 0x767b (slcr_addr 1) st else st)
            in Some (0, st))"

definition write_regs ::
    "'h hw_ops \<Rightarrow> 'h kernel \<Rightarrow> user_mem \<Rightarrow> u32 \<Rightarrow> nat \<Rightarrow> nat \<Rightarrow> int \<times> 'h kernel" where
  "write_regs hw st um reg caddr n =
     (if \<not> um_ok um caddr n then (- EFAULT, st)
      else (0, iowrite hw (copy_from_user um caddr n) (accel_addr reg) st))"

definition read_reg ::
    "'h hw_ops \<Rightarrow> 'h kernel \<Rightarrow> user_mem \<Rightarrow> u32 \<Rightarrow> nat \<Rightarrow> int \<times> 'h kernel \<times> user_mem" where
  "read_reg hw st um reg addr =
     (let (v, st) = ioread32 hw (accel_addr reg) st;
          (ok, um) = put_user32 um addr v
      in (if ok then 0 else - EFAULT, st, um))"

definition get_debug ::
    "'h hw_ops \<Rightarrow> 'h kernel \<Rightarrow> user_mem \<Rightarrow> nat \<Rightarrow> int \<times> 'h kernel \<times> user_mem" where
  "get_debug hw st um addr =
     (if \<not> um_ok um addr 200 then (- EFAULT, st, um)
      else let (bs, h) = hw_read hw (accel_addr 0) 200 (k_hw st)
           in (0, st\<lparr>k_hw := h\<rparr>, snd (copy_to_user um addr bs)))"

definition SHA256_ACCEL_RESET :: u32 where "SHA256_ACCEL_RESET = IOC 0 0 0"
definition SHA256_ACCEL_START :: u32 where "SHA256_ACCEL_START = IOC 0 1 0"
definition SHA256_ACCEL_SET_STATE_IN :: u32 where "SHA256_ACCEL_SET_STATE_IN = IOC 1 2 4"
definition SHA256_ACCEL_SET_PREFIX :: u32 where "SHA256_ACCEL_SET_PREFIX = IOC 1 3 4"
definition SHA256_ACCEL_SET_DIFFICULTY_MASK :: u32 where
  "SHA256_ACCEL_SET_DIFFICULTY_MASK = IOC 1 4 4"
definition SHA256_ACCEL_SET_CONTROL :: u32 where "SHA256_ACCEL_SET_CONTROL = IOC 1 5 4"
definition SHA256_ACCEL_SET_NONCE_FIRST :: u32 where "SHA256_ACCEL_SET_NONCE_FIRST = IOC 1 6 4"
definition SHA256_ACCEL_SET_NONCE_LAST :: u32 where "SHA256_ACCEL_SET_NONCE_LAST = IOC 1 7 4"
definition SHA256_ACCEL_SET_CLOCK_SPEED :: u32 where "SHA256_ACCEL_SET_CLOCK_SPEED = IOC 1 8 4"
definition SHA256_ACCEL_GET_NONCE_CURRENT :: u32 where
  "SHA256_ACCEL_GET_NONCE_CURRENT = IOC 2 9 4"
definition SHA256_ACCEL_GET_NONCE_CANDIDATE :: u32 where
  "SHA256_ACCEL_GET_NONCE_CANDIDATE = IOC 2 10 4"
definition SHA256_ACCEL_GET_STATUS :: u32 where "SHA256_ACCEL_GET_STATUS = IOC 2 11 4"
definition SHA256_ACCEL_GET_DEBUG :: u32 where "SHA256_ACCEL_GET_DEBUG = IOC 2 12 4"
definition SHA256_ACCEL_STEP :: u32 where "SHA256_ACCEL_STEP = IOC 0 13 0"

lemmas commands = SHA256_ACCEL_RESET_def SHA256_ACCEL_START_def SHA256_ACCEL_SET_STATE_IN_def
  SHA256_ACCEL_SET_PREFIX_def SHA256_ACCEL_SET_DIFFICULTY_MASK_def SHA256_ACCEL_SET_CONTROL_def
  SHA256_ACCEL_SET_NONCE_FIRST_def SHA256_ACCEL_SET_NONCE_LAST_def
  SHA256_ACCEL_SET_CLOCK_SPEED_def SHA256_ACCEL_GET_NONCE_CURRENT_def
  SHA256_ACCEL_GET_NONCE_CANDIDATE_def SHA256_ACCEL_GET_STATUS_def SHA256_ACCEL_GET_DEBUG_def
  SHA256_ACCEL_STEP_def IOC_def

definition sha256_accel_ioctl ::
    "'h hw_ops \<Rightarrow> 'h kernel \<Rightarrow> user_mem \<Rightarrow> u32 \<Rightarrow> u32
     \<Rightarrow> (int \<times> 'h kernel \<times> user_mem) option" where
  "sha256_accel_ioctl hw st um command param =
     (let p = unat param; ret = (\<lambda>(r, st). Some (r, st, um))
      in if IOC_TYPE command \<noteq> 0x53 then ret (- ENOTTY, st)
      else if command = SHA256_ACCEL_RESET then ret (0, iowrite8 hw 1 (accel_addr 24) st)
      else if command = SHA256_ACCEL_START then ret (0, iowrite8 hw 2 (accel_addr 24) st)
      else if command = SHA256_ACCEL_SET_STATE_IN then ret (write_regs hw st um 0 p 32)
      else if command = SHA256_ACCEL_SET_PREFIX then ret (write_regs hw st um 8 p 12)
      else if command = SHA256_ACCEL_SET_DIFFICULTY_MASK then ret (write_regs hw st um 11 p 32)
      else if command = SHA256_ACCEL_SET_CONTROL then ret (0, iowrite32 hw param (accel_addr 24) st)
      else if command = SHA256_ACCEL_SET_NONCE_FIRST then
        ret (0, iowrite32 hw param (accel_addr 21) st)
      else if command = SHA256_ACCEL_SET_NONCE_LAST then
        ret (0, iowrite32 hw param (accel_addr 22) st)
      else if command = SHA256_ACCEL_SET_CLOCK_SPEED then
        Option.bind (set_clock_speed hw param st) ret
      else if command = SHA256_ACCEL_GET_NONCE_CURRENT then Some (read_reg hw st um 20 p)
      else if command = SHA256_ACCEL_GET_NONCE_CANDIDATE then Some (read_reg hw st um 19 p)
      else if command = SHA256_ACCEL_GET_STATUS then Some (read_reg hw st um 23 p)
      else if command = SHA256_ACCEL_GET_DEBUG then Some (get_debug hw st um p)
      else if command = SHA256_ACCEL_STEP then ret (0, iowrite32 hw 1 (accel_addr 26) st)
      else ret (- ENOTTY, st))"

section \<open>Loading and unloading\<close>

text \<open>
  The kernel resources the module holds, and releases of what was no longer held.
  \<open>class_destroy\<close> of the kernel unregisters the class itself, so calling it after
  \<open>class_unregister\<close> releases the class twice.
\<close>

datatype resource = Chrdev | Class | Device | Slcr_region | Slcr_map | Accel_region | Accel_map
  | Irq_line

record resources =
  r_held :: "resource list"
  r_bad :: "resource list"

definition acquire :: "resource \<Rightarrow> resources \<Rightarrow> resources" where
  "acquire r rs = rs\<lparr>r_held := r # r_held rs\<rparr>"

definition release :: "resource \<Rightarrow> resources \<Rightarrow> resources" where
  "release r rs = (if r \<in> set (r_held rs) then rs\<lparr>r_held := remove1 r (r_held rs)\<rparr>
     else rs\<lparr>r_bad := r # r_bad rs\<rparr>)"

text \<open>The labels at the end of \<open>sha256_accel_init\<close>, each falling through to the next.\<close>

definition error_register :: "resources \<Rightarrow> resources" where
  "error_register rs = rs"

definition error_class :: "resources \<Rightarrow> resources" where
  "error_class rs = error_register (release Chrdev rs)"

definition error_device :: "resources \<Rightarrow> resources" where
  "error_device rs = error_class (release Class (release Class rs))"

definition error_mem_region_slcr :: "resources \<Rightarrow> resources" where
  "error_mem_region_slcr rs = error_device rs"

definition error_mem_region_sha256 :: "resources \<Rightarrow> resources" where
  "error_mem_region_sha256 rs = error_mem_region_slcr (release Slcr_region (release Slcr_map rs))"

definition error_irq :: "resources \<Rightarrow> resources" where
  "error_irq rs = error_mem_region_sha256 rs"

text \<open>
  \<open>fails r\<close> is the error the kernel returns for resource \<open>r\<close>, if it does. The result is
  the return value of the init function and the resources held after it.
\<close>

definition sha256_accel_init :: "(resource \<Rightarrow> int option) \<Rightarrow> resources \<Rightarrow> int \<times> resources" where
  "sha256_accel_init fails rs =
     (case fails Chrdev of Some e \<Rightarrow> (e, error_register rs) | None \<Rightarrow>
      let rs = acquire Chrdev rs in
      case fails Class of Some e \<Rightarrow> (e, error_class rs) | None \<Rightarrow>
      let rs = acquire Class rs in
      case fails Device of Some e \<Rightarrow> (e, error_device rs) | None \<Rightarrow>
      let rs = acquire Device rs in
      case fails Slcr_region of Some e \<Rightarrow> (- 1, error_mem_region_slcr rs) | None \<Rightarrow>
      let rs = acquire Slcr_map (acquire Slcr_region rs) in
      case fails Accel_region of Some e \<Rightarrow> (- 1, error_mem_region_sha256 rs) | None \<Rightarrow>
      let rs = acquire Accel_map (acquire Accel_region rs) in
      case fails Irq_line of Some e \<Rightarrow> (e, error_irq rs) | None \<Rightarrow>
      (0, acquire Irq_line rs))"

fun free_all :: "nat list \<Rightarrow> 'h kernel \<Rightarrow> 'h kernel option" where
  "free_all [] st = Some st"
| "free_all (ptr # rest) st = Option.bind (kfree ptr (st\<lparr>k_msg_list := rest\<rparr>)) (free_all rest)"

definition sha256_accel_exit ::
    "'h hw_ops \<Rightarrow> 'h kernel \<Rightarrow> resources \<Rightarrow> ('h kernel \<times> resources) option" where
  "sha256_accel_exit hw st rs = do {
     st \<leftarrow> (case k_msg st of None \<Rightarrow> Some st | Some a \<Rightarrow> kfree a st);
     let st = iowrite32 hw 1 (accel_addr 24) st;
     st \<leftarrow> free_all (k_msg_list st) st;
     let rs = release Slcr_region (release Slcr_map (release Accel_region (release Accel_map rs)));
     let rs = release Irq_line rs;
     let rs = release Chrdev (release Class (release Class (release Device rs)));
     Some (st, rs) }"

section \<open>The queue of results\<close>

definition msg_addrs :: "'h kernel \<Rightarrow> nat list" where
  "msg_addrs st = (case k_msg st of None \<Rightarrow> [] | Some a \<Rightarrow> [a]) @ k_msg_list st"

text \<open>Every message is owned once: no freed message is reachable and none is leaked.\<close>

definition kernel_inv :: "'h kernel \<Rightarrow> bool" where
  "kernel_inv st \<longleftrightarrow> distinct (msg_addrs st) \<and> dom (k_heap st) = set (msg_addrs st)"

definition queue_of :: "'h kernel \<Rightarrow> sha256_accel_msg_s list" where
  "queue_of st = map (\<lambda>a. the (k_heap st a)) (msg_addrs st)"

lemma heap_other: "a \<notin> set as \<Longrightarrow> map (\<lambda>x. the ((h(a := v)) x)) as = map (\<lambda>x. the (h x)) as"
  by (induction as) auto

lemma lock_same [simp]:
  "k_heap (snd (mutex_lock_interruptible st)) = k_heap st"
  "k_msg_list (snd (mutex_lock_interruptible st)) = k_msg_list st"
  "k_msg (snd (mutex_lock_interruptible st)) = k_msg st"
  "k_hw (snd (mutex_lock_interruptible st)) = k_hw st"
  "k_device_mutex (snd (mutex_lock_interruptible st)) = k_device_mutex st"
  by (simp_all add: mutex_lock_interruptible_def split: list.split)

lemma dequeue_ok:
  assumes "kernel_inv st"
  shows "\<exists>got st'. sha256_accel_msg_dequeue st = Some (got, st') \<and> kernel_inv st' \<and>
    queue_of st' = drop (if k_msg st = None then 0 else 1) (queue_of st) \<and>
    (got \<longleftrightarrow> k_msg st' \<noteq> None) \<and> k_hw st' = k_hw st \<and>
    k_device_mutex st' = k_device_mutex st"
proof -
  note inv = assms [unfolded kernel_inv_def msg_addrs_def]
  define st1 where "st1 = (case k_msg st of None \<Rightarrow> st | Some a \<Rightarrow> st\<lparr>k_heap := (k_heap st)(a := None)\<rparr>)"
  have free: "(case k_msg st of None \<Rightarrow> Some st | Some a \<Rightarrow> kfree a st) = Some st1"
    using inv by (auto simp: st1_def kfree_def split: option.splits)
  obtain l st2 where lock: "mutex_lock_interruptible st1 = (l, st2)" by fastforce
  note st2 = lock_same [of st1, unfolded lock snd_conv]
  have dom: "distinct (k_msg_list st)" "dom (k_heap st1) = set (k_msg_list st)"
      "map (\<lambda>a. the (k_heap st1 a)) (k_msg_list st) =
         drop (if k_msg st = None then 0 else 1) (queue_of st)"
    using inv by (auto simp: st1_def queue_of_def msg_addrs_def heap_other split: option.splits)
  have same: "k_msg_list st1 = k_msg_list st" "k_hw st1 = k_hw st"
      "k_device_mutex st1 = k_device_mutex st"
    by (auto simp: st1_def split: option.split)
  show ?thesis
    using dom same
    by (auto simp: sha256_accel_msg_dequeue_def free lock kernel_inv_def queue_of_def
        msg_addrs_def st2 split: list.splits)
qed

lemma avail_ok:
  assumes "kernel_inv st"
  shows "\<exists>n st'. sha256_accel_msg_avail st = Some (n, st') \<and> kernel_inv st' \<and>
    queue_of st' = queue_of st \<and> (n = 0 \<or> n = 8) \<and> (n = 8 \<longleftrightarrow> k_msg st' \<noteq> None) \<and>
    k_hw st' = k_hw st \<and> k_device_mutex st' = k_device_mutex st"
  using dequeue_ok [OF assms] assms
  by (auto simp: sha256_accel_msg_avail_def msg_size_def)

definition irq_msg :: "'h hw_ops \<Rightarrow> 'h kernel \<Rightarrow> sha256_accel_msg_s" where
  "irq_msg hw st = (let (status, st) = ioread32 hw (accel_addr 23) st;
     (nonce, st) = ioread32 hw (accel_addr 19) st
     in \<lparr>msg_status = status, msg_nonce_candidate = nonce\<rparr>)"

lemma irq_ok:
  assumes "kernel_inv st" and "k_heap st a = None"
  shows "\<exists>st'. sha256_accel_irq hw (Some a) st = Some st' \<and> kernel_inv st' \<and>
    queue_of st' = queue_of st @ [irq_msg hw st] \<and>
    k_device_mutex st' = k_device_mutex st"
proof -
  have a: "a \<notin> set (msg_addrs st)" using assms by (auto simp: kernel_inv_def)
  obtain st1 s where 1: "ioread32 hw (accel_addr 23) st = (s, st1)" by fastforce
  obtain st2 n where 2: "ioread32 hw (accel_addr 19) st1 = (n, st2)" by fastforce
  have same: "k_heap st2 = k_heap st" "k_msg_list st2 = k_msg_list st" "k_msg st2 = k_msg st"
    "k_device_mutex st2 = k_device_mutex st"
    using 1 2 by (auto simp: ioread32_def Let_def split: prod.splits)
  show ?thesis
    using assms(1) a
    by (auto simp: sha256_accel_irq_def irq_msg_def 1 2 same kernel_inv_def queue_of_def
        msg_addrs_def iowrite32_def iowrite_def heap_other split: option.splits)
qed

lemma read_nonblock:
  assumes "kernel_inv st" and "0 < len"
  shows "\<exists>r st' um'. sha256_accel_read hw True st um buffer len [] = Some (Done r st' um') \<and>
    kernel_inv st' \<and>
    (r = - EAGAIN \<and> um' = um \<and> queue_of st' = queue_of st \<or>
     (\<exists>m left. queue_of st = m # queue_of st' \<and>
        copy_to_user um buffer (take (min 8 len) (msg_bytes m)) = (left, um') \<and>
        r = int (if left = 0 then min 8 len else left)))"
proof -
  from avail_ok [OF assms(1)] obtain n st1 where
    1: "sha256_accel_msg_avail st = Some (n, st1)" "kernel_inv st1" "queue_of st1 = queue_of st"
      "n = 0 \<or> n = 8" "n = 8 \<longleftrightarrow> k_msg st1 \<noteq> None" by blast
  show ?thesis
  proof (cases "n = 0")
    case True
    with 1 assms(2) show ?thesis
      by (auto simp: sha256_accel_read_def read_loop.simps [of hw True st])
  next
    case False
    with 1 obtain a where n: "n = 8" and a: "k_msg st1 = Some a" by auto
    from 1(2) a obtain m where m: "k_heap st1 a = Some m" by (auto simp: kernel_inv_def msg_addrs_def)
    from a m have q: "queue_of st = m # drop 1 (queue_of st)"
      unfolding 1(3) [symmetric] by (simp add: queue_of_def msg_addrs_def)
    from dequeue_ok [OF 1(2)] a obtain got st2 where
      2: "sha256_accel_msg_dequeue st1 = Some (got, st2)" "kernel_inv st2"
        "queue_of st2 = drop 1 (queue_of st)" by (auto simp: 1(3))
    obtain left um1 where c: "copy_to_user um buffer (take (min 8 len) (msg_bytes m)) = (left, um1)"
      by fastforce
    with 1(1) a m 2 c n assms(2) have "sha256_accel_read hw True st um buffer len [] =
      Some (Done (int (if left = 0 then min 8 len else left)) st2 um1)"
      by (cases "len \<le> 8") (simp_all add: sha256_accel_read_def read_loop.simps [of hw True st])
    moreover have "queue_of st = m # queue_of st2" using q 2(3) by simp
    ultimately show ?thesis using 2(2) c by blast
  qed
qed


section \<open>Sleeping readers\<close>

lemma avail_heap: "sha256_accel_msg_avail st = Some (n, st') \<Longrightarrow> k_heap st' = k_heap st"
  by (auto simp: sha256_accel_msg_avail_def sha256_accel_msg_dequeue_def Let_def
      mutex_lock_interruptible_def split: if_splits option.splits prod.splits list.splits bind_splits)

fun wake_allocs :: "wake list \<Rightarrow> nat list" where
  "wake_allocs [] = []"
| "wake_allocs (Irq (Some a) # ws) = a # wake_allocs ws"
| "wake_allocs (_ # ws) = wake_allocs ws"

text \<open>
  What \<open>kmalloc\<close> documents: an allocation that succeeds returns memory nobody holds.
\<close>

definition fresh_wakes :: "'h kernel \<Rightarrow> wake list \<Rightarrow> bool" where
  "fresh_wakes st ws \<longleftrightarrow> Irq None \<notin> set ws \<and> distinct (wake_allocs ws)
     \<and> set (wake_allocs ws) \<inter> dom (k_heap st) = {}"

lemma fresh_wakes_Irq:
  assumes "fresh_wakes st (Irq alloc # ws)" and "k_heap st' = (k_heap st)(a \<mapsto> v)" and "alloc = Some a"
  shows "fresh_wakes st' ws" "k_heap st a = None"
  using assms by (auto simp: fresh_wakes_def)

lemma irq_heap:
  "sha256_accel_irq hw (Some a) st = Some st' \<Longrightarrow> k_heap st' = (k_heap st)(a \<mapsto> irq_msg hw st)"
  by (auto simp: sha256_accel_irq_def irq_msg_def ioread32_def iowrite32_def iowrite_def Let_def
      split: prod.splits)

fun waited_ok :: "bool \<Rightarrow> 'h waited \<Rightarrow> bool" where
  "waited_ok held (Woken st ws) \<longleftrightarrow> kernel_inv st \<and> k_device_mutex st = held
     \<and> k_msg st \<noteq> None \<and> fresh_wakes st ws"
| "waited_ok held (Interrupted st) \<longleftrightarrow> kernel_inv st \<and> k_device_mutex st = held"
| "waited_ok held (Asleep st) \<longleftrightarrow> kernel_inv st \<and> k_device_mutex st = held"

lemma wait_ok:
  "kernel_inv st \<Longrightarrow> fresh_wakes st ws \<Longrightarrow>
   \<exists>r. wait_msg_avail hw st ws = Some r \<and> waited_ok (k_device_mutex st) r"
proof (induction ws arbitrary: st)
  case Nil
  then show ?case using avail_ok [of st] by (auto simp: fresh_wakes_def)
next
  case (Cons w ws)
  from avail_ok [OF Cons.prems(1)] obtain n st1 where
    1: "sha256_accel_msg_avail st = Some (n, st1)" "kernel_inv st1"
      "n = 0 \<or> n = 8" "n = 8 \<longleftrightarrow> k_msg st1 \<noteq> None" "k_device_mutex st1 = k_device_mutex st"
    by blast
  have f1: "fresh_wakes st1 (w # ws)" using Cons.prems(2) avail_heap [OF 1(1)] by (simp add: fresh_wakes_def)
  show ?case
  proof (cases w)
    case Signal
    then show ?thesis using 1 f1 by auto
  next
    case (Irq alloc)
    show ?thesis
    proof (cases "n = 0")
      case True
      obtain a where a: "alloc = Some a" using f1 Irq by (cases alloc) (auto simp: fresh_wakes_def)
      with f1 Irq have "k_heap st1 a = None" by (auto simp: fresh_wakes_def)
      from irq_ok [OF 1(2) this, of hw] obtain st2 where
        2: "sha256_accel_irq hw alloc st1 = Some st2" "kernel_inv st2"
          "k_device_mutex st2 = k_device_mutex st1" unfolding a by blast
      have "fresh_wakes st2 ws"
        using fresh_wakes_Irq [OF f1 [unfolded Irq] irq_heap [OF 2(1) [unfolded a]] a] by simp
      from Cons.IH [OF 2(2) this] 1 2 True Irq show ?thesis by simp
    next
      case False
      then show ?thesis using 1 f1 Irq by auto
    qed
  qed
qed

fun avail_result_ok :: "bool \<Rightarrow> 'h avail_result \<Rightarrow> bool" where
  "avail_result_ok held (Available n st) \<longleftrightarrow> kernel_inv st \<and> k_device_mutex st = held
     \<and> n = 8 \<and> k_msg st \<noteq> None"
| "avail_result_ok held (Gave_up e st) \<longleftrightarrow> kernel_inv st \<and> k_device_mutex st = held"
| "avail_result_ok held (Still st) \<longleftrightarrow> kernel_inv st \<and> k_device_mutex st = held"

lemma avail_with_current: "k_msg st = Some a \<Longrightarrow> sha256_accel_msg_avail st = Some (8, st)"
  by (simp add: sha256_accel_msg_avail_def msg_size_def)

lemma read_loop_ok:
  assumes "kernel_inv st" and "fresh_wakes st ws"
  shows "\<exists>r. read_loop hw nb st ws = Some r \<and> avail_result_ok (k_device_mutex st) r"
proof -
  from avail_ok [OF assms(1)] obtain n st1 where
    1: "sha256_accel_msg_avail st = Some (n, st1)" "kernel_inv st1"
      "n = 0 \<or> n = 8" "n = 8 \<longleftrightarrow> k_msg st1 \<noteq> None" "k_device_mutex st1 = k_device_mutex st"
    by blast
  have "fresh_wakes st1 ws" using assms(2) avail_heap [OF 1(1)] by (simp add: fresh_wakes_def)
  from wait_ok [OF 1(2) this, of hw] obtain w where
    2: "wait_msg_avail hw st1 ws = Some w" "waited_ok (k_device_mutex st) w" by (auto simp: 1)
  have again: "read_loop hw nb' st2 ws2 = Some (Available 8 st2)" if "k_msg st2 = Some a" for nb' st2 ws2 a
    using that by (subst read_loop.simps) (auto simp: avail_with_current)
  show ?thesis using 1 2
    by (subst read_loop.simps) (auto simp: again split: waited.splits)
qed

lemma read_ok:
  assumes "kernel_inv st" and "fresh_wakes st ws"
  shows "\<exists>r. sha256_accel_read hw nb st um buffer len ws = Some r \<and>
    (case r of Done n st' um' \<Rightarrow> kernel_inv st' \<and> k_device_mutex st' = k_device_mutex st
     | Sleeping st' \<Rightarrow> kernel_inv st' \<and> k_device_mutex st' = k_device_mutex st)"
proof -
  from read_loop_ok [OF assms, of hw nb] obtain r where
    r: "read_loop hw nb st ws = Some r" "avail_result_ok (k_device_mutex st) r" by blast
  show ?thesis
  proof (cases r)
    case (Available n st1)
    with r obtain a where inv: "kernel_inv st1" and a: "k_msg st1 = Some a"
      "k_device_mutex st1 = k_device_mutex st" by auto
    then obtain m where "k_heap st1 a = Some m" by (auto simp: kernel_inv_def msg_addrs_def)
    with dequeue_ok [OF inv] a r Available assms show ?thesis
      by (auto simp: sha256_accel_read_def split: prod.split)
  qed (use r assms in \<open>auto simp: sha256_accel_read_def\<close>)
qed

section \<open>Sessions\<close>

text \<open>
  The calls the kernel makes on the driver, with the number of successful opens not yet
  released beside the driver's state. Only a file that was opened is read, polled,
  controlled or released; opens and interrupts happen at any time.
\<close>

inductive kernel_step :: "'h hw_ops \<Rightarrow> 'h kernel \<times> nat \<Rightarrow> 'h kernel \<times> nat \<Rightarrow> bool"
  for hw where
  step_open: "sha256_accel_open st = (0, st') \<Longrightarrow> kernel_step hw (st, n) (st', n + 1)"
| step_busy: "sha256_accel_open st = (r, st') \<Longrightarrow> r \<noteq> 0 \<Longrightarrow> kernel_step hw (st, n) (st', n)"
| step_release: "sha256_accel_release hw st = (r, st') \<Longrightarrow>
    kernel_step hw (st, Suc n) (st', n)"
| step_read: "fresh_wakes st ws \<Longrightarrow>
    sha256_accel_read hw nb st um buffer len ws = Some (Done r st' um') \<Longrightarrow>
    kernel_step hw (st, Suc n) (st', Suc n)"
| step_poll: "sha256_accel_poll st = Some (r, st') \<Longrightarrow> kernel_step hw (st, Suc n) (st', Suc n)"
| step_ioctl: "sha256_accel_ioctl hw st um cmd param = Some (r, st', um') \<Longrightarrow>
    kernel_step hw (st, Suc n) (st', Suc n)"
| step_irq: "k_heap st a = None \<Longrightarrow> sha256_accel_irq hw (Some a) st = Some st' \<Longrightarrow>
    kernel_step hw (st, n) (st', n)"
| step_locks: "kernel_step hw (st, n) (st\<lparr>k_locks := ls\<rparr>, n)"

definition kernel_start :: "'h kernel \<Rightarrow> bool" where
  "kernel_start st \<longleftrightarrow> \<not> k_device_mutex st \<and> k_heap st = Map.empty \<and> k_msg_list st = []
     \<and> k_msg st = None"

inductive kernel_reachable :: "'h hw_ops \<Rightarrow> 'h kernel \<times> nat \<Rightarrow> bool" for hw where
  reach_start: "kernel_start st \<Longrightarrow> kernel_reachable hw (st, 0)"
| reach_step: "kernel_reachable hw s \<Longrightarrow> kernel_step hw s s' \<Longrightarrow> kernel_reachable hw s'"

definition hw_only :: "'h kernel \<Rightarrow> 'h kernel \<Rightarrow> bool" where
  "hw_only st st' \<longleftrightarrow> k_heap st' = k_heap st \<and> k_msg_list st' = k_msg_list st
     \<and> k_msg st' = k_msg st \<and> k_device_mutex st' = k_device_mutex st \<and> k_locks st' = k_locks st"

lemma hw_only_refl [intro, simp]: "hw_only st st"
  by (simp add: hw_only_def)

lemma hw_only_trans [trans]: "hw_only a b \<Longrightarrow> hw_only b c \<Longrightarrow> hw_only a c"
  by (simp add: hw_only_def)

lemma hw_only_hw [simp]: "hw_only a (st\<lparr>k_hw := h\<rparr>) = hw_only a st"
  by (simp add: hw_only_def)

lemma hw_only_io [simp]:
  "hw_only c (iowrite hw bs a st) = hw_only c st" "hw_only c (iowrite8 hw v a st) = hw_only c st"
  "hw_only c (iowrite32 hw w a st) = hw_only c st"
  "hw_only c (snd (ioread32 hw a st)) = hw_only c st"
  by (auto simp: hw_only_def iowrite_def iowrite8_def iowrite32_def ioread32_def Let_def
      split: prod.splits)

lemma kernel_inv_cong:
  "k_heap st' = k_heap st \<Longrightarrow> k_msg_list st' = k_msg_list st \<Longrightarrow> k_msg st' = k_msg st \<Longrightarrow>
   kernel_inv st' = kernel_inv st"
  by (simp add: kernel_inv_def msg_addrs_def)

lemma hw_only_same:
  "hw_only st st' \<Longrightarrow> kernel_inv st' = kernel_inv st \<and> queue_of st' = queue_of st
     \<and> k_device_mutex st' = k_device_mutex st"
  by (simp add: hw_only_def kernel_inv_def queue_of_def msg_addrs_def)

lemma ioread_hw_only: "ioread32 hw a st = (v, st') \<Longrightarrow> hw_only c st' = hw_only c st"
  by (metis hw_only_io(4) snd_conv)

lemma clock_hw_only: "set_clock_speed hw param st = Some (r, st') \<Longrightarrow> hw_only st st'"
  unfolding set_clock_speed_def Let_def
  by (auto split: prod.splits if_splits simp: ioread_hw_only)

lemma branch_hw_only:
  "write_regs hw st um reg a n = (r, st') \<Longrightarrow> hw_only st st'"
  "read_reg hw st um reg a = (r, st', um') \<Longrightarrow> hw_only st st'"
  "get_debug hw st um a = (r, st', um') \<Longrightarrow> hw_only st st'"
  by (auto simp: write_regs_def read_reg_def get_debug_def ioread_hw_only
      split: prod.splits if_splits)

lemma ioctl_hw_only:
  assumes "sha256_accel_ioctl hw st um cmd param = Some (r, st', um')"
  shows "hw_only st st'"
  using assms unfolding sha256_accel_ioctl_def Let_def
  by (auto split: prod.splits if_splits bind_splits
      dest: branch_hw_only clock_hw_only)

lemma kernel_step_inv:
  assumes "kernel_step hw s s'" and "kernel_inv (fst s)"
    and "snd s = (if k_device_mutex (fst s) then 1 else 0)"
  shows "kernel_inv (fst s') \<and> snd s' = (if k_device_mutex (fst s') then 1 else 0)"
  using assms
proof cases
  case (step_read st ws nb um buffer len r st' um' n)
  with assms read_ok [of st ws hw nb um buffer len] show ?thesis by auto
next
  case (step_poll st r st' n)
  with assms avail_ok [of st] show ?thesis by (auto simp: sha256_accel_poll_def)
next
  case (step_ioctl st um cmd param r st' um' n)
  with assms show ?thesis using hw_only_same [OF ioctl_hw_only [OF step_ioctl(3)]] by simp
next
  case (step_irq st a st' n)
  with assms irq_ok [of st a hw] show ?thesis by auto
next
  case (step_locks st n ls)
  with assms show ?thesis by (simp add: kernel_inv_cong [of "st\<lparr>k_locks := ls\<rparr>" st])
next
  case (step_open st st' n)
  with assms show ?thesis
    by (auto simp: sha256_accel_open_def EBUSY_def kernel_inv_cong [of "st\<lparr>k_device_mutex := True\<rparr>" st]
        split: if_splits)
next
  case (step_busy st r st' n)
  with assms show ?thesis by (auto simp: sha256_accel_open_def EBUSY_def split: if_splits)
next
  case (step_release st r st' n)
  have "kernel_inv (st\<lparr>k_hw := h, k_device_mutex := b\<rparr>) = kernel_inv st" for h b
    by (simp add: kernel_inv_def msg_addrs_def)
  with step_release have "kernel_inv st' = kernel_inv st" "\<not> k_device_mutex st'"
    by (auto simp: sha256_accel_release_def iowrite8_def iowrite_def)
  with assms step_release show ?thesis by (auto split: if_splits)
qed

lemma kernel_reachable_inv:
  "kernel_reachable hw s \<Longrightarrow>
   kernel_inv (fst s) \<and> snd s = (if k_device_mutex (fst s) then 1 else 0)"
proof (induction rule: kernel_reachable.induct)
  case (reach_start st)
  then show ?case by (simp add: kernel_start_def kernel_inv_def msg_addrs_def)
next
  case (reach_step s s')
  then show ?case using kernel_step_inv by blast
qed

section \<open>Properties of the driver\<close>

text \<open>
  One interrupt, one \<open>read\<close> without waiting, or one \<open>poll\<close>; the read delivers the
  message at the head of the queue when it returns a positive count.
\<close>

datatype kernel_event = Ev_irq nat | Ev_read nat nat user_mem | Ev_poll

fun kernel_event_step ::
    "'h hw_ops \<Rightarrow> kernel_event \<Rightarrow> 'h kernel \<Rightarrow> (sha256_accel_msg_s list \<times> 'h kernel) option" where
  "kernel_event_step hw (Ev_irq a) st = map_option (\<lambda>st. ([], st)) (sha256_accel_irq hw (Some a) st)"
| "kernel_event_step hw (Ev_read buffer len um) st =
     (case sha256_accel_read hw True st um buffer len [] of
        Some (Done r st' um') \<Rightarrow> Some (if 0 < r then take 1 (queue_of st) else [], st')
      | _ \<Rightarrow> None)"
| "kernel_event_step hw Ev_poll st = map_option (\<lambda>(r, st). ([], st)) (sha256_accel_poll st)"

fun kernel_event_ok :: "kernel_event \<Rightarrow> 'h kernel \<Rightarrow> bool" where
  "kernel_event_ok (Ev_irq a) st \<longleftrightarrow> k_heap st a = None"
| "kernel_event_ok _ st \<longleftrightarrow> True"

fun kernel_event_added :: "'h hw_ops \<Rightarrow> kernel_event \<Rightarrow> 'h kernel \<Rightarrow> sha256_accel_msg_s list" where
  "kernel_event_added hw (Ev_irq a) st = [irq_msg hw st]"
| "kernel_event_added hw _ st = []"

lemma kernel_event_conserve:
  assumes "kernel_inv st" and "kernel_event_ok e st"
  shows "\<exists>out st'. kernel_event_step hw e st = Some (out, st') \<and> kernel_inv st' \<and>
    out @ queue_of st' = queue_of st @ kernel_event_added hw e st"
proof (cases e)
  case (Ev_irq a)
  then show ?thesis using irq_ok [of st a hw] assms by auto
next
  case Ev_poll
  then show ?thesis using avail_ok [OF assms(1)] by (auto simp: sha256_accel_poll_def)
next
  case (Ev_read buffer len um)
  show ?thesis
  proof (cases "len = 0")
    case True
    then show ?thesis using assms Ev_read by (simp add: sha256_accel_read_def)
  next
    case False
    then have l: "0 < len" by simp
    from read_nonblock [OF assms(1) this, of hw um buffer] obtain r st' um' where
      1: "sha256_accel_read hw True st um buffer len [] = Some (Done r st' um')" "kernel_inv st'"
      "r = - EAGAIN \<and> queue_of st' = queue_of st \<or> (\<exists>m. queue_of st = m # queue_of st' \<and> 0 < r)"
      using l by (auto split: if_splits)
    then show ?thesis using Ev_read by (auto simp: EAGAIN_def)
  qed
qed

interpretation driver_queue: fifo kernel_inv queue_of kernel_event_ok "kernel_event_step hw"
  "kernel_event_added hw"
  for hw :: "'h hw_ops"
  by unfold_locales (rule kernel_event_conserve)



text \<open>
  A device for the witnesses: SLCR with its write protection on and a clock register, and an
  accelerator whose registers all read 0x10.
\<close>

definition demo_hw :: "(bool \<times> u32) hw_ops" where
  "demo_hw = \<lparr>hw_write = (\<lambda>a bs (locked, clk).
       if a = slcr_addr 2 \<and> bs = le32_bytes 0xdf0d then (False, clk)
       else if a = slcr_addr 1 \<and> bs = le32_bytes 0x767b then (True, clk)
       else if a = slcr_addr 0x5c \<and> \<not> locked then (locked, le32_word bs)
       else (locked, clk)),
     hw_read = (\<lambda>a n (locked, clk).
       (if a = slcr_addr 0 then le32_bytes 0
        else if a = slcr_addr 3 then le32_bytes (if locked then 1 else 0)
        else [0x10, 0, 0, 0], (locked, clk)))\<rparr>"

definition demo_kernel :: "(bool \<times> u32) kernel" where
  "demo_kernel = \<lparr>k_device_mutex = False, k_heap = Map.empty, k_msg_list = [], k_msg = None,
     k_hw = (True, 0), k_locks = []\<rparr>"

definition demo_user :: user_mem where
  "demo_user = \<lparr>um_ok = (\<lambda>a n. True), um_bytes = (\<lambda>a. Some 0)\<rparr>"

lemma demo_inv: "kernel_inv demo_kernel"
  by (simp add: demo_kernel_def kernel_inv_def msg_addrs_def)

lemma demo_addrs: "slcr_addr 0 = 0xf8000000" "slcr_addr 1 = 0xf8000004" "slcr_addr 2 = 0xf8000008"
    "slcr_addr 3 = 0xf800000c" "slcr_addr 0x5c = 0xf8000170" "accel_addr 19 = 0x43c0004c"
    "accel_addr 23 = 0x43c0005c" "accel_addr 25 = 0x43c00064" "accel_addr 24 = 0x43c00060"
  by (simp_all add: slcr_addr_def accel_addr_def)



lemma demo_start: "kernel_start demo_kernel"
  by (simp add: kernel_start_def demo_kernel_def)

lemma demo_open: "sha256_accel_open demo_kernel = (0, demo_kernel\<lparr>k_device_mutex := True\<rparr>)"
  by (simp add: sha256_accel_open_def demo_kernel_def)


lemma fold_upd_in: "i < k \<Longrightarrow>
  fold (\<lambda>i m. m(a + i \<mapsto> f i)) [0..<k] m (a + i) = Some (f i)"
  by (induction k) (auto simp: less_Suc_eq)

lemma copy_to_user_all:
  assumes "um_ok um a (length bs)" and "mapped_prefix um a (length bs) = length bs"
  shows "fst (copy_to_user um a bs) = 0"
    and "i < length bs \<Longrightarrow> um_bytes (snd (copy_to_user um a bs)) (a + i) = Some (bs ! i)"
  using assms fold_upd_in [of i "length bs" a "\<lambda>i. bs ! i" "um_bytes um"]
  by (simp_all add: copy_to_user_def Let_def)

lemma length_msg_bytes [layout]: "length (msg_bytes m) = 8"
  by (simp add: msg_bytes_def layout)

lemma avail_locked:
  assumes "kernel_inv st" and "k_locks st = []" and "sha256_accel_msg_avail st = Some (n, st')"
  shows "n = 0 \<longleftrightarrow> queue_of st = []"
  using assms
  by (auto simp: sha256_accel_msg_avail_def sha256_accel_msg_dequeue_def queue_of_def msg_addrs_def
      msg_size_def mutex_lock_interruptible_def split: if_splits list.splits)

lemma read_again:
  assumes "kernel_inv st" and "0 < len" and "k_locks st = []"
    and "sha256_accel_read hw True st um buffer len [] = Some (Done (- EAGAIN) st' um')"
  shows "queue_of st = []"
proof -
  from avail_ok [OF assms(1)] obtain n st1 where
    1: "sha256_accel_msg_avail st = Some (n, st1)" by blast
  have "n = 0"
    using assms(2,4) 1 by (auto simp: sha256_accel_read_def read_loop.simps [of hw True st] EAGAIN_def
        split: bind_splits prod.splits if_splits)
  then show ?thesis using avail_locked [OF assms(1,3) 1] by simp
qed

text \<open>a read that does not wait returns \<open>-EAGAIN\<close> and leaves queue and memory alone
  when no message is queued; otherwise it hands out the oldest message, returns the smaller of
  eight and the buffer's length when the buffer is writable, writes exactly those bytes
  (status, then nonce, little endian) and removes the message.\<close>

theorem read_returns_oldest:
  assumes "kernel_inv st" and "k_locks st = []" and "0 < len" and n: "n = min 8 len"
    and "um_ok um buffer n" and "mapped_prefix um buffer n = n"
  shows "\<exists>r st' um'. sha256_accel_read hw True st um buffer len [] = Some (Done r st' um') \<and>
    (case queue_of st of
       [] \<Rightarrow> r = - EAGAIN \<and> um' = um \<and> queue_of st' = []
     | m # ms \<Rightarrow> r = int n \<and> queue_of st' = ms \<and>
         (\<forall>i<n. um_bytes um' (buffer + i) = Some (msg_bytes m ! i)))"
proof -
  from read_nonblock [OF assms(1,3), of hw um buffer] obtain r st' um' where
    1: "sha256_accel_read hw True st um buffer len [] = Some (Done r st' um')"
    and 2: "r = - EAGAIN \<and> um' = um \<and> queue_of st' = queue_of st \<or>
     (\<exists>m left. queue_of st = m # queue_of st' \<and>
        copy_to_user um buffer (take n (msg_bytes m)) = (left, um') \<and>
        r = int (if left = 0 then n else left))" unfolding n by blast
  show ?thesis
  proof (cases "queue_of st")
    case Nil
    with 1 2 show ?thesis by auto
  next
    case (Cons m ms)
    with read_again [OF assms(1,3,2)] 1 have "r \<noteq> - EAGAIN" by auto
    with 2 Cons obtain left where 3: "queue_of st' = ms"
      "copy_to_user um buffer (take n (msg_bytes m)) = (left, um')"
      "r = int (if left = 0 then n else left)" by auto
    have l: "length (take n (msg_bytes m)) = n" by (simp add: layout n)
    note all = copy_to_user_all [of um buffer "take n (msg_bytes m)", unfolded l, OF assms(5,6)]
    have "left = 0" "\<forall>i<n. um_bytes um' (buffer + i) = Some (msg_bytes m ! i)"
      using all 3(2) by auto
    with 1 3 Cons show ?thesis by auto
  qed
qed

definition demo_message :: sha256_accel_msg_s where
  "demo_message = \<lparr>msg_status = 0x10, msg_nonce_candidate = 0x12345678\<rparr>"

definition demo_queued :: "(bool \<times> u32) kernel" where
  "demo_queued = demo_kernel\<lparr>k_heap := [7 \<mapsto> demo_message], k_msg_list := [7]\<rparr>"

theorem read_returns_oldest_witness:
  "\<exists>r st' um'. sha256_accel_read demo_hw True demo_queued demo_user 100 6 [] = Some (Done r st' um')
     \<and> r = 6 \<and> queue_of st' = [] \<and> um_bytes um' 104 = Some 0x78"
proof -
  have inv: "kernel_inv demo_queued"
    by (simp add: demo_queued_def demo_kernel_def kernel_inv_def msg_addrs_def)
  have q: "queue_of demo_queued = [demo_message]"
    by (simp add: demo_queued_def demo_kernel_def queue_of_def msg_addrs_def)
  have b: "msg_bytes demo_message ! 4 = 0x78"
    by (simp add: demo_message_def msg_bytes_def le32_bytes_def)
  have m: "mapped_prefix demo_user 100 6 = 6" by (simp add: mapped_prefix_def demo_user_def)
  have l: "k_locks demo_queued = []" by (simp add: demo_queued_def demo_kernel_def)
  have u: "um_ok demo_user 100 6" by (simp add: demo_user_def)
  obtain r st' um' where 1: "sha256_accel_read demo_hw True demo_queued demo_user 100 6 [] =
      Some (Done r st' um')" "r = int 6" "queue_of st' = []"
      "\<forall>i<6. um_bytes um' (100 + i) = Some (msg_bytes demo_message ! i)"
    using read_returns_oldest [OF inv l _ _ u m, of 6 demo_hw] q by auto
  from 1(4) have "um_bytes um' (100 + 4) = Some (msg_bytes demo_message ! 4)"
    by (rule allE [of _ 4]) simp
  with 1 b show ?thesis by simp
qed

lemma avail_empty:
  assumes "kernel_inv st" and "queue_of st = []" and "k_locks st = []"
  shows "sha256_accel_msg_avail st = Some (0, st)"
  using assms by (auto simp: sha256_accel_msg_avail_def sha256_accel_msg_dequeue_def queue_of_def
      msg_addrs_def mutex_lock_interruptible_def split: option.splits)

lemma avail_listed:
  assumes "k_msg st = None" and "k_locks st = []" and "k_msg_list st = a # rest"
  shows "sha256_accel_msg_avail st = Some (8, st\<lparr>k_msg_list := rest, k_msg := Some a\<rparr>)"
  using assms by (simp add: sha256_accel_msg_avail_def sha256_accel_msg_dequeue_def msg_size_def
      mutex_lock_interruptible_def)

lemma wait_listed:
  assumes "k_msg st = None" and "k_locks st = []" and "k_msg_list st = a # rest"
  shows "wait_msg_avail hw st ws = Some (Woken (st\<lparr>k_msg_list := rest, k_msg := Some a\<rparr>) ws)"
proof (cases ws)
  case (Cons w ws')
  then show ?thesis by (cases w) (simp_all add: avail_listed [OF assms])
qed (simp add: avail_listed [OF assms])

lemma read_current:
  assumes "k_msg st = Some a" and "k_heap st a = Some m" and "0 < len" and n: "n = min 8 len"
    and "um_ok um buffer n" and "mapped_prefix um buffer n = n"
    and "kernel_inv st" and loop: "read_loop hw nb st0 ws = Some (Available 8 st)"
  shows "\<exists>st' um'. sha256_accel_read hw nb st0 um buffer len ws = Some (Done (int n) st' um') \<and>
    queue_of st' = drop 1 (queue_of st) \<and>
    (\<forall>i<n. um_bytes um' (buffer + i) = Some (msg_bytes m ! i))"
proof -
  have l: "length (take n (msg_bytes m)) = n" by (simp add: layout n)
  note all = copy_to_user_all [of um buffer "take n (msg_bytes m)", unfolded l, OF assms(5,6)]
  obtain um' where c: "copy_to_user um buffer (take n (msg_bytes m)) = (0, um')"
    by (metis all(1) surjective_pairing)
  have b: "\<forall>i<n. um_bytes um' (buffer + i) = Some (msg_bytes m ! i)" using all(2) c by auto
  from dequeue_ok [OF assms(7)] assms(1) obtain got st2 where
    d: "sha256_accel_msg_dequeue st = Some (got, st2)" "queue_of st2 = drop 1 (queue_of st)" by auto
  have "(if 8 \<ge> len then len else 8) = n" using n by auto
  with c d assms(1-3) loop b show ?thesis
    by (auto simp: sha256_accel_read_def split: prod.split)
qed

text \<open>a reader that sleeps on an empty queue is woken by the next interrupt and
  delivers that interrupt's status and nonce; a signal instead ends the wait with
  \<open>-ERESTARTSYS\<close> and leaves the queue and the user's memory as they were.\<close>

theorem blocking_read_wakes:
  assumes "kernel_inv st" and "queue_of st = []" and "k_locks st = []" and "k_heap st a = None"
    and "0 < len" and n: "n = min 8 len"
    and "um_ok um buffer n" and "mapped_prefix um buffer n = n"
  shows "(\<exists>st' um'. sha256_accel_read hw False st um buffer len (Irq (Some a) # ws) =
      Some (Done (int n) st' um') \<and> queue_of st' = [] \<and>
      (\<forall>i<n. um_bytes um' (buffer + i) = Some (msg_bytes (irq_msg hw st) ! i)))
    \<and> sha256_accel_read hw False st um buffer len (Signal # ws) =
      Some (Done (- ERESTARTSYS) st um)"
proof
  note empty = avail_empty [OF assms(1-3)]
  from assms(5) show "sha256_accel_read hw False st um buffer len (Signal # ws) =
      Some (Done (- ERESTARTSYS) st um)"
    by (simp add: sha256_accel_read_def read_loop.simps [of hw False st] empty)
  from irq_ok [OF assms(1,4), of hw] obtain st1 where
    1: "sha256_accel_irq hw (Some a) st = Some st1" "kernel_inv st1"
      "queue_of st1 = [irq_msg hw st]" by (auto simp: assms(2))
  have 2: "k_msg st1 = None" "k_msg_list st1 = [a]" "k_locks st1 = []" 
    using 1(1) assms(2,3) by (auto simp: sha256_accel_irq_def ioread32_def iowrite32_def iowrite_def
        queue_of_def msg_addrs_def Let_def split: prod.splits option.splits)
  let ?st2 = "st1\<lparr>k_msg_list := [], k_msg := Some a\<rparr>"
  have w: "wait_msg_avail hw st1 ws = Some (Woken ?st2 ws)"
    by (rule wait_listed [OF 2(1,3,2)])
  have loop: "read_loop hw False st (Irq (Some a) # ws) = Some (Available 8 ?st2)"
    by (simp add: read_loop.simps [of hw False st] read_loop.simps [of hw False ?st2] empty 1 w
        avail_with_current)
  have inv2: "kernel_inv ?st2" and q2: "queue_of ?st2 = [irq_msg hw st]"
    using 1(2,3) 2 by (simp_all add: kernel_inv_def msg_addrs_def queue_of_def)
  have h: "k_heap ?st2 a = Some (irq_msg hw st)" using irq_heap [OF 1(1)] by simp
  have c: "k_msg ?st2 = Some a" by simp
  from read_current [OF c h assms(5) n assms(7,8) inv2 loop] q2
  show "\<exists>st' um'. sha256_accel_read hw False st um buffer len (Irq (Some a) # ws) =
      Some (Done (int n) st' um') \<and> queue_of st' = [] \<and>
      (\<forall>i<n. um_bytes um' (buffer + i) = Some (msg_bytes (irq_msg hw st) ! i))" by simp
qed

theorem blocking_read_wakes_witness:
  "\<exists>st' um'. sha256_accel_read demo_hw False demo_kernel demo_user 100 64 [Irq (Some 3), Signal] =
      Some (Done 8 st' um') \<and> queue_of st' = []"
proof -
  have "queue_of demo_kernel = []" "k_locks demo_kernel = []" "k_heap demo_kernel 3 = None"
    "um_ok demo_user 100 8" "mapped_prefix demo_user 100 8 = 8"
    by (simp_all add: queue_of_def msg_addrs_def demo_kernel_def demo_user_def mapped_prefix_def)
  from blocking_read_wakes [OF demo_inv this(1-3) _ _ this(4,5), of 64 demo_hw "[Signal]"]
  show ?thesis by auto
qed

section \<open>The clock command\<close>

text \<open>
  What the SLCR block of the processor documents: LOCKSTA reads 1 while write protection is
  on, the unlock key turns it off, the lock key on, and the clock register keeps what is
  written to it while protection is off.
\<close>

definition slcr_device ::
    "'h hw_ops \<Rightarrow> ('h \<Rightarrow> u32) \<Rightarrow> ('h \<Rightarrow> bool) \<Rightarrow> ('h \<Rightarrow> u32) \<Rightarrow> bool" where
  "slcr_device hw scl prot clk \<longleftrightarrow>
     (\<forall>h. hw_read hw (slcr_addr 0) 4 h = (le32_bytes (scl h), h)) \<and>
     (\<forall>h. hw_read hw (slcr_addr 3) 4 h = (le32_bytes (if prot h then 1 else 0), h)) \<and>
     (\<forall>h. \<not> prot (hw_write hw (slcr_addr 2) (le32_bytes 0xdf0d) h)) \<and>
     (\<forall>h. prot (hw_write hw (slcr_addr 1) (le32_bytes 0x767b) h)
        \<and> clk (hw_write hw (slcr_addr 1) (le32_bytes 0x767b) h) = clk h) \<and>
     (\<forall>h v. \<not> prot h \<longrightarrow> clk (hw_write hw (slcr_addr 0x5c) (le32_bytes v) h) = v
        \<and> \<not> prot (hw_write hw (slcr_addr 0x5c) (le32_bytes v) h))"

definition unprotected :: "'h hw_ops \<Rightarrow> ('h \<Rightarrow> bool) \<Rightarrow> 'h \<Rightarrow> 'h" where
  "unprotected hw prot h = (if prot h then hw_write hw (slcr_addr 2) (le32_bytes 0xdf0d) h else h)"

lemma clock_eval:
  assumes "slcr_device hw scl prot clk" and "scl (k_hw st) = 0"
  shows "set_clock_speed hw f st =
    (if f = 0 then None
     else let val = 1000 div f; h = unprotected hw prot (k_hw st)
       in if val = 0 \<or> val > 0x3f then Some (- EINVAL, st\<lparr>k_hw := h\<rparr>)
       else let h = hw_write hw (slcr_addr 0x5c) (le32_bytes (push_bit 4 0 OR push_bit 8 val OR push_bit 20 1)) h;
            h = (if prot (k_hw st) then hw_write hw (slcr_addr 1) (le32_bytes 0x767b) h else h)
       in Some (0, st\<lparr>k_hw := h\<rparr>))"
  using assms unfolding slcr_device_def
  by (simp add: set_clock_speed_def ioread32_def iowrite32_def iowrite_def le32_word_bytes Let_def
      unprotected_def)

lemma divisor_range:
  assumes "f \<noteq> (0 :: u32)"
  shows "\<not> (1000 div f = 0 \<or> 1000 div f > 0x3f) \<longleftrightarrow> 16 \<le> unat f \<and> unat f \<le> 1000"
    and "unat (1000 div f) = 1000 div unat f"
proof -
  show u: "unat (1000 div f) = 1000 div unat f" by (simp add: unat_div)
  have f: "0 < unat f" using assms by (simp add: unat_gt_0)
  have "1000 div f = 0 \<longleftrightarrow> 1000 < unat f"
  proof -
    have "1000 div f = 0 \<longleftrightarrow> 1000 div unat f = 0" using u by (metis unat_0 unat_eq_zero)
    then show ?thesis using f by (simp add: div_eq_0_iff)
  qed
  moreover have "1000 div f > 0x3f \<longleftrightarrow> unat f < 16"
  proof -
    have "1000 div f > 0x3f \<longleftrightarrow> 64 \<le> 1000 div unat f"
      by (simp add: word_less_nat_alt u) linarith
    also have "\<dots> \<longleftrightarrow> unat f < 16" using f by (simp add: less_eq_div_iff_mult_less_eq) linarith
    finally show ?thesis .
  qed
  ultimately show "\<not> (1000 div f = 0 \<or> 1000 div f > 0x3f) \<longleftrightarrow> 16 \<le> unat f \<and> unat f \<le> 1000"
    by auto
qed

lemma clock_word:
  assumes "16 \<le> unat (f :: u32)" and "unat f \<le> 1000"
  shows "unat (push_bit 4 0 OR push_bit 8 (1000 div f) OR push_bit 20 1 :: u32) =
    0x100000 + 256 * (1000 div unat f)"
proof -
  have f0: "f \<noteq> 0" using assms(1) by auto
  let ?d = "1000 div f"
  have u: "unat ?d = 1000 div unat f" by (rule divisor_range(2) [OF f0])
  have "1000 div unat f \<le> 1000 div 16" by (rule div_le_mono2) (use assms(1) in simp_all)
  then have d: "1000 div unat f < 64" by simp
  then have d6: "take_bit 6 ?d = ?d"
    by (simp add: word_unat_eq_iff unsigned_take_bit_eq take_bit_nat_eq_self u)
  have hi: "\<not> bit ?d n" if "6 \<le> n" for n using that d6 by (metis bit_take_bit_iff not_le)
  have one: "bit (push_bit 20 (1 :: u32)) n \<longleftrightarrow> n = 20" for n
    by (simp only: bit_push_bit_iff bit_1_iff) auto
  have "push_bit 8 ?d AND push_bit 20 1 = 0"
  proof (rule bit_word_eqI)
    fix n show "bit (push_bit 8 ?d AND push_bit 20 1) n = bit (0 :: u32) n"
      by (simp only: bit_and_iff one bit_push_bit_iff) (auto simp: hi)
  qed
  then have "push_bit 8 ?d OR push_bit 20 1 = push_bit 8 ?d + push_bit 20 1"
    by (simp only: disjunctive_add_eq_or)
  also have "\<dots> = of_nat (256 * (1000 div unat f) + 0x100000)"
    by (simp add: push_bit_eq_mult flip: u)
  finally have "(push_bit 4 0 OR push_bit 8 ?d OR push_bit 20 1 :: u32) =
    of_nat (256 * (1000 div unat f) + 0x100000)" by simp
  moreover have "unat (of_nat (256 * (1000 div unat f) + 0x100000) :: u32) =
    256 * (1000 div unat f) + 0x100000"
    using d by (simp only: unat_of_nat) simp
  ultimately show ?thesis by simp
qed

lemma clock_programs:
  assumes "slcr_device hw scl prot clk" and "scl (k_hw st) = 0"
    and "16 \<le> unat f" and "unat f \<le> 1000"
  shows "\<exists>st'. set_clock_speed hw f st = Some (0, st') \<and> hw_only st st' \<and>
    prot (k_hw st') = prot (k_hw st) \<and>
    unat (clk (k_hw st')) = 0x100000 + 256 * (1000 div unat f) \<and> 1 \<le> 1000 div unat f
    \<and> 1000 div unat f < 64"
proof -
  have f0: "f \<noteq> 0" using assms(3) by auto
  note r = divisor_range [OF f0]
  have ok: "\<not> (1000 div f = 0 \<or> 1000 div f > 0x3f)" using r(1) assms(3,4) by blast
  let ?v = "push_bit 4 0 OR push_bit 8 (1000 div f) OR push_bit 20 1 :: u32"
  let ?h = "unprotected hw prot (k_hw st)"
  let ?h1 = "hw_write hw (slcr_addr 0x5c) (le32_bytes ?v) ?h"
  let ?h2 = "if prot (k_hw st) then hw_write hw (slcr_addr 1) (le32_bytes 0x767b) ?h1 else ?h1"
  have "\<not> prot ?h" using assms(1) by (simp add: unprotected_def slcr_device_def)
  then have 1: "clk ?h1 = ?v" "\<not> prot ?h1" using assms(1) unfolding slcr_device_def by blast+
  have 2: "clk ?h2 = ?v" "prot ?h2 = prot (k_hw st)"
    using 1 assms(1) unfolding slcr_device_def by simp_all
  have "set_clock_speed hw f st = Some (0, st\<lparr>k_hw := ?h2\<rparr>)"
    using ok f0 by (simp only: clock_eval [OF assms(1,2)] Let_def if_False)
  moreover have "1 \<le> 1000 div unat f" "1000 div unat f < 64"
    using ok r(2) by (simp_all add: word_less_nat_alt word_unat_eq_iff)
  ultimately show ?thesis using 2 clock_word [OF assms(3,4)] by auto
qed

text \<open>for a speed of 16 to 1000 MHz and an open secure lock the clock command succeeds,
  leaves write protection as it found it, and the clock register holds source 0, second
  divisor 1 and the first divisor 1000 div speed, which fits its six bits.\<close>

theorem clock_speed_set:
  assumes "slcr_device hw scl prot clk" and "scl (k_hw st) = 0"
    and "16 \<le> unat f" and "unat f \<le> 1000"
  shows "\<exists>st'. set_clock_speed hw f st = Some (0, st') \<and> hw_only st st' \<and>
    prot (k_hw st') = prot (k_hw st) \<and>
    unat (clk (k_hw st')) = 0x100000 + 256 * (1000 div unat f) \<and> 1 \<le> 1000 div unat f
    \<and> 1000 div unat f < 64"
  using assms by (rule clock_programs)

lemma demo_slcr: "slcr_device demo_hw (\<lambda>h. 0) fst snd"
  by (auto simp: slcr_device_def demo_hw_def demo_addrs le32_word_bytes)

theorem clock_speed_set_witness:
  "\<exists>st'. set_clock_speed demo_hw 71 demo_kernel = Some (0, st') \<and> fst (k_hw st') \<and>
     unat (snd (k_hw st')) = 0x100e00"
  using clock_speed_set [OF demo_slcr, where st = demo_kernel and f = 71] by (auto simp: demo_kernel_def)

text \<open>The divisor is the quotient 1000 / speed rounded down: divisor times speed is at
  most 1000, so the accelerator is clocked at the requested speed or above it, where the
  comment in the source promises the quotient rounded up.\<close>

theorem clock_divisor_rounds_down:
  assumes "slcr_device hw scl prot clk" and "scl (k_hw st) = 0"
    and "16 \<le> unat f" and "unat f \<le> 1000"
  shows "\<exists>st' d. set_clock_speed hw f st = Some (0, st') \<and>
    unat (clk (k_hw st')) = 0x100000 + 256 * d \<and> unat f * d \<le> 1000 \<and> 1000 < unat f * (d + 1)"
proof -
  let ?d = "1000 div unat f"
  have "unat f * ?d + 1000 mod unat f = 1000" by (rule mult_div_mod_eq)
  moreover have "1000 mod unat f < unat f" using assms(3) by simp
  ultimately have "unat f * ?d \<le> 1000" "1000 < unat f * ?d + unat f * 1" by linarith+
  then have "unat f * ?d \<le> 1000" "1000 < unat f * (?d + 1)" by (simp_all only: distrib_left)
  then show ?thesis using clock_programs [OF assms] by blast
qed

theorem clock_divisor_rounds_down_witness:
  "\<exists>st' d. set_clock_speed demo_hw 71 demo_kernel = Some (0, st') \<and>
    unat (snd (k_hw st')) = 0x100000 + 256 * d \<and> unat (71 :: u32) * d \<le> 1000"
  using clock_divisor_rounds_down [OF demo_slcr, where st = demo_kernel and f = 71] by auto

text \<open>a speed outside 16 to 1000 MHz is refused with \<open>-EINVAL\<close> (0 divides by zero
  instead), and the refusal leaves SLCR write protection off even where it was on.\<close>

theorem clock_speed_rejected:
  assumes "slcr_device hw scl prot clk" and "scl (k_hw st) = 0"
    and "unat f < 16 \<or> 1000 < unat f"
  shows "if f = 0 then set_clock_speed hw f st = None
    else \<exists>st'. set_clock_speed hw f st = Some (- EINVAL, st') \<and> \<not> prot (k_hw st')"
proof (cases "f = 0")
  case True
  then show ?thesis by (simp add: clock_eval [OF assms(1,2)])
next
  case False
  with divisor_range(1) [OF False] assms(3) have "1000 div f = 0 \<or> 1000 div f > 0x3f" by auto
  moreover have "\<not> prot (unprotected hw prot (k_hw st))"
    using assms(1) by (simp add: unprotected_def slcr_device_def)
  ultimately show ?thesis using False by (auto simp: clock_eval [OF assms(1,2)] Let_def)
qed

theorem clock_speed_rejected_witness:
  "fst (k_hw demo_kernel) \<and> (\<exists>st'. set_clock_speed demo_hw 2000 demo_kernel = Some (- EINVAL, st')
     \<and> \<not> fst (k_hw st'))"
  using clock_speed_rejected [OF demo_slcr, where st = demo_kernel and f = 2000] by (simp add: demo_kernel_def)

section \<open>Resources\<close>

lemmas init_simps = sha256_accel_init_def error_irq_def error_mem_region_sha256_def
  error_mem_region_slcr_def error_device_def error_class_def error_register_def release_def
  acquire_def Let_def

text \<open>Loading returns 0 only when every resource was granted, and then holds all eight.
  A failure once the device node exists leaves it behind, and a refused interrupt line also
  leaves the accelerator's memory region reserved and mapped.\<close>

theorem init_leaks:
  assumes "\<forall>r e. fails r = Some e \<longrightarrow> e < 0"
  shows "case sha256_accel_init fails \<lparr>r_held = [], r_bad = []\<rparr> of (ret, rs) \<Rightarrow>
    (ret = 0 \<longrightarrow> set (r_held rs) = UNIV \<and> r_bad rs = []) \<and>
    (ret \<noteq> 0 \<longrightarrow> r_held rs =
      (if fails Chrdev \<noteq> None \<or> fails Class \<noteq> None \<or> fails Device \<noteq> None then []
       else if fails Slcr_region \<noteq> None \<or> fails Accel_region \<noteq> None then [Device]
       else [Accel_map, Accel_region, Device]))"
proof -
  have "r \<in> set [Irq_line, Accel_map, Accel_region, Slcr_map, Slcr_region, Device, Class, Chrdev]"
    for r by (cases r) simp_all
  then have all: "set [Irq_line, Accel_map, Accel_region, Slcr_map, Slcr_region, Device, Class, Chrdev]
      = UNIV" by blast
  have "e \<noteq> 0" if "fails r = Some e" for r e using assms that by fastforce
  then show ?thesis using all
    by (auto simp: init_simps split: option.splits)
qed

theorem init_leaks_witness:
  "r_held (snd (sha256_accel_init [Irq_line \<mapsto> - 16] \<lparr>r_held = [], r_bad = []\<rparr>)) =
     [Accel_map, Accel_region, Device]"
  using init_leaks [of "[Irq_line \<mapsto> - 16]"]
  by (auto simp: init_simps split: if_splits)

lemma free_all_ok:
  "distinct as \<Longrightarrow> dom (k_heap st) = set as \<Longrightarrow>
   \<exists>st'. free_all as st = Some st' \<and> k_heap st' = Map.empty"
proof (induction as arbitrary: st)
  case (Cons a as)
  let ?st = "st\<lparr>k_msg_list := as, k_heap := (k_heap st)(a := None)\<rparr>"
  have "dom (k_heap ?st) = set as" using Cons.prems by auto
  from Cons.IH [OF _ this] Cons.prems(1) obtain st' where
    "free_all as ?st = Some st'" "k_heap st' = Map.empty" by auto
  moreover have "k_heap st a \<noteq> None" using Cons.prems(2) by auto
  ultimately show ?case by (simp add: kfree_def)
qed simp

text \<open>unloading a driver in a well-formed state frees every message exactly once and
  gives back every resource of a completed load; the one bad release is the second
  unregistration of the class.\<close>

theorem exit_frees_everything:
  assumes "kernel_inv st" and "sha256_accel_init fails \<lparr>r_held = [], r_bad = []\<rparr> = (0, rs)"
    and "\<forall>r e. fails r = Some e \<longrightarrow> e < 0"
  shows "\<exists>st' rs'. sha256_accel_exit hw st rs = Some (st', rs') \<and> k_heap st' = Map.empty \<and>
    r_held rs' = [] \<and> r_bad rs' = [Class]"
proof -
  have e0: "fails r \<noteq> Some 0" for r using assms(3) by fastforce
  have rs: "rs = \<lparr>r_held = [Irq_line, Accel_map, Accel_region, Slcr_map, Slcr_region, Device,
      Class, Chrdev], r_bad = []\<rparr>"
    using assms(2) e0 by (auto simp: init_simps split: option.splits)
  note inv = assms(1) [unfolded kernel_inv_def msg_addrs_def]
  define st1 where "st1 = (case k_msg st of None \<Rightarrow> st | Some a \<Rightarrow> st\<lparr>k_heap := (k_heap st)(a := None)\<rparr>)"
  have free: "(case k_msg st of None \<Rightarrow> Some st | Some a \<Rightarrow> kfree a st) = Some st1"
    using inv by (auto simp: st1_def kfree_def split: option.splits)
  have l: "k_msg_list (iowrite32 hw 1 (accel_addr 24) st1) = k_msg_list st"
    by (auto simp: st1_def iowrite32_def iowrite_def split: option.splits)
  have "dom (k_heap (iowrite32 hw 1 (accel_addr 24) st1)) = set (k_msg_list st)" "distinct (k_msg_list st)"
    using inv by (auto simp: st1_def iowrite32_def iowrite_def split: option.splits)
  with free_all_ok obtain st2 where
    "free_all (k_msg_list st) (iowrite32 hw 1 (accel_addr 24) st1) = Some st2" "k_heap st2 = Map.empty"
    by blast
  then show ?thesis by (simp add: sha256_accel_exit_def free l rs release_def)
qed

theorem exit_frees_everything_witness:
  "\<exists>rs st' rs'. sha256_accel_init Map.empty \<lparr>r_held = [], r_bad = []\<rparr> = (0, rs) \<and>
    sha256_accel_exit demo_hw demo_queued rs = Some (st', rs') \<and> k_heap st' = Map.empty"
proof -
  have inv: "kernel_inv demo_queued"
    by (simp add: demo_queued_def demo_kernel_def kernel_inv_def msg_addrs_def)
  obtain rs where rs: "sha256_accel_init Map.empty \<lparr>r_held = [], r_bad = []\<rparr> = (0, rs)"
    by (simp add: init_simps)
  from exit_frees_everything [OF inv rs, of demo_hw] rs show ?thesis by auto
qed

end
