(* ===== verification/Device_Calls.thy ===== *)
theory Device_Calls
  imports KernelModule
begin

text \<open>
  What a program does to the accelerator's device file, as the list of its calls, and what
  the driver does with such a list: the interface between the two programs that use the
  device (\<open>src/userspace_app/main.c\<close>, \<open>src/cgminer/driver-edc.c\<close>) and the driver of
  theory \<open>KernelModule\<close>.
\<close>

datatype dev_call = C_open | C_command u32 | C_value u32 u32 | C_block u32 "u8 list"
  | C_get u32 | C_select | C_read | C_submit u32 | C_close

text \<open>User memory that holds \<open>bs\<close> at address \<open>p\<close>.\<close>

definition user_with :: "nat \<Rightarrow> u8 list \<Rightarrow> user_mem" where
  "user_with p bs = \<lparr>um_ok = (\<lambda>a n. True),
     um_bytes = (\<lambda>a. if p \<le> a \<and> a < p + length bs then Some (bs ! (a - p)) else None)\<rparr>"

lemma copy_from_user_with: "copy_from_user (user_with p bs) p (length bs) = bs"
proof -
  have "takeWhile (\<lambda>a. um_bytes (user_with p bs) a \<noteq> None) [p..<p + length bs] = [p..<p + length bs]"
    by (rule takeWhile_eq_all_conv [THEN iffD2]) (auto simp: user_with_def)
  then have "mapped_prefix (user_with p bs) p (length bs) = length bs"
    by (simp only: mapped_prefix_def) simp
  moreover have "map (\<lambda>a. the (um_bytes (user_with p bs) a)) [p..<p + length bs] = bs"
    by (rule nth_equalityI) (auto simp: user_with_def)
  ultimately show ?thesis by (simp add: copy_from_user_def user_with_def Let_def)
qed

text \<open>The driver's side of the calls that reach \<open>ioctl\<close>; a block is passed by its address.\<close>

fun play :: "'h hw_ops \<Rightarrow> dev_call list \<Rightarrow> 'h kernel \<Rightarrow> 'h kernel option" where
  "play hw [] st = Some st"
| "play hw (C_command c # cs) st =
     Option.bind (sha256_accel_ioctl hw st (user_with 0 []) c 0) (\<lambda>(r, st, um). play hw cs st)"
| "play hw (C_value c v # cs) st =
     Option.bind (sha256_accel_ioctl hw st (user_with 0 []) c v) (\<lambda>(r, st, um). play hw cs st)"
| "play hw (C_block c bs # cs) st =
     Option.bind (sha256_accel_ioctl hw st (user_with 0x1000 bs) c 0x1000) (\<lambda>(r, st, um). play hw cs st)"
| "play hw (_ # cs) st = play hw cs st"

text \<open>The register writes that hand a piece of work to the accelerator and start it.\<close>

definition program_writes :: "u8 list \<Rightarrow> u8 list \<Rightarrow> u8 list \<Rightarrow> (u32 \<times> u8 list) list" where
  "program_writes state pre msk = [(0x43c00000, state), (0x43c00020, pre),
     (0x43c0002c, msk), (0x43c00060, [2])]"

definition programming_calls :: "u8 list \<Rightarrow> u8 list \<Rightarrow> u8 list \<Rightarrow> dev_call list" where
  "programming_calls state pre msk = [C_block SHA256_ACCEL_SET_STATE_IN state,
     C_block SHA256_ACCEL_SET_PREFIX pre, C_block SHA256_ACCEL_SET_DIFFICULTY_MASK msk,
     C_command SHA256_ACCEL_START]"

lemma command_words:
  "SHA256_ACCEL_RESET = 0x5300" "SHA256_ACCEL_START = 0x5301"
  "SHA256_ACCEL_SET_STATE_IN = 0x40045302" "SHA256_ACCEL_SET_PREFIX = 0x40045303"
  "SHA256_ACCEL_SET_DIFFICULTY_MASK = 0x40045304" "SHA256_ACCEL_SET_CONTROL = 0x40045305"
  "SHA256_ACCEL_SET_NONCE_FIRST = 0x40045306" "SHA256_ACCEL_SET_NONCE_LAST = 0x40045307"
  "SHA256_ACCEL_SET_CLOCK_SPEED = 0x40045308" "SHA256_ACCEL_GET_NONCE_CURRENT = 0x80045309"
  "SHA256_ACCEL_GET_NONCE_CANDIDATE = 0x8004530a" "SHA256_ACCEL_GET_STATUS = 0x8004530b"
  "SHA256_ACCEL_GET_DEBUG = 0x8004530c" "SHA256_ACCEL_STEP = 0x530d"
  by (simp_all add: commands)

lemma um_ok_with: "um_ok (user_with p bs) a n"
  by (simp add: user_with_def)

lemma write_regs_with:
  "length bs = n \<Longrightarrow> write_regs hw st (user_with p bs) reg p n =
     (0, iowrite hw bs (accel_addr reg) st)"
  by (auto simp: write_regs_def copy_from_user_with um_ok_with)

lemma ioctl_programming:
  "length state = 32 \<Longrightarrow> sha256_accel_ioctl hw st (user_with 0x1000 state) SHA256_ACCEL_SET_STATE_IN 0x1000 =
     Some (0, iowrite hw state 0x43c00000 st, user_with 0x1000 state)"
  "length pre = 12 \<Longrightarrow> sha256_accel_ioctl hw st (user_with 0x1000 pre) SHA256_ACCEL_SET_PREFIX 0x1000 =
     Some (0, iowrite hw pre 0x43c00020 st, user_with 0x1000 pre)"
  "length msk = 32 \<Longrightarrow> sha256_accel_ioctl hw st (user_with 0x1000 msk) SHA256_ACCEL_SET_DIFFICULTY_MASK 0x1000 =
     Some (0, iowrite hw msk 0x43c0002c st, user_with 0x1000 msk)"
  "sha256_accel_ioctl hw st um SHA256_ACCEL_START p = Some (0, iowrite hw [2] 0x43c00060 st, um)"
  "sha256_accel_ioctl hw st um SHA256_ACCEL_RESET p = Some (0, iowrite hw [1] 0x43c00060 st, um)"
  by (simp_all add: sha256_accel_ioctl_def command_words IOC_TYPE_def Let_def write_regs_with
      accel_addr_def iowrite8_def)

lemma play_programming:
  assumes "length state = 32" and "length pre = 12" and "length msk = 32"
  shows "play hw (programming_calls state pre msk @ cs) st = play hw cs
    (fold (\<lambda>(a, bs) st. iowrite hw bs a st) (program_writes state pre msk) st)"
  using assms by (simp add: programming_calls_def program_writes_def ioctl_programming)

end
