(* ===== verification/Userspace.thy ===== *)
theory Userspace
  imports Sha256 Device_Calls
begin

text \<open>
  The test program for the accelerator, \<open>src/userspace_app/main.c\<close>, and the hash
  project's own program \<open>src/sha256/main.c\<close>: the difficulty mask for a number of leading
  zero bits, the midstate handed to the device, the double hash with which a candidate nonce
  is checked, and the dialogue with the device.
\<close>

section \<open>The mask test of the device\<close>

definition passes_mask :: "u8 list \<Rightarrow> u8 list \<Rightarrow> bool" where
  "passes_mask msk hash \<longleftrightarrow> (\<forall>i < length hash. msk ! i AND hash ! i = 0)"

section \<open>The difficulty mask\<close>

text \<open>The inner loop over \<open>b\<close>, from 0x80 down, while \<open>nlz\<close> lasts.\<close>

function mask_bits :: "u8 \<Rightarrow> int \<Rightarrow> u8 \<Rightarrow> u8 \<times> int" where
  "mask_bits b nlz byte =
     (if b > 0 \<and> nlz > 0 then mask_bits (drop_bit 1 b) (nlz - 1) (byte OR b) else (byte, nlz))"
  by pat_completeness auto
termination
  by (relation "measure (\<lambda>(b, nlz, byte). nat nlz)") auto

declare mask_bits.simps [simp del]

fun mask_bytes :: "nat \<Rightarrow> int \<Rightarrow> u8 list \<Rightarrow> u8 list" where
  "mask_bytes 0 nlz msk = msk"
| "mask_bytes (Suc i) nlz msk =
     (let (byte, nlz) = mask_bits 0x80 nlz (msk ! i) in mask_bytes i nlz (msk[i := byte]))"

definition generate_test_mask :: "int \<Rightarrow> u8 list" where
  "generate_test_mask nlz = mask_bytes 32 nlz (replicate 32 0)"

lemma mask_bits_byte:
  assumes "n \<le> 8" shows "mask_bits 0x80 (int n) 0 = (NOT (mask (8 - n)), 0)"
proof -
  have "n \<in> set [0,1,2,3,4,5,6,7,8]" using assms by auto
  then show ?thesis
    by (auto simp: mask_bits.simps mask_eq_exp_minus_1)
qed

lemma mask_bits_full:
  assumes "8 \<le> n" shows "mask_bits 0x80 n 0 = (0xff, n - 8)"
  using assms by (simp add: mask_bits.simps)

lemma mask_bits_none: "n \<le> 0 \<Longrightarrow> mask_bits b n byte = (byte, n)"
  by (subst mask_bits.simps) simp

lemma mask_bytes_none: "nlz \<le> 0 \<Longrightarrow> i \<le> length msk \<Longrightarrow> mask_bytes i nlz msk = msk"
  by (induction i arbitrary: msk) (simp_all add: mask_bits_none Suc_le_eq)

text \<open>A byte passes the mask of its \<open>n\<close> leading bits when it is below \<open>2 ^ (8 - n)\<close>.\<close>

lemma byte_mask_less:
  assumes "n \<le> 8" shows "NOT (mask (8 - n)) AND (b :: u8) = 0 \<longleftrightarrow> unat b < 2 ^ (8 - n)"
proof -
  have "NOT (mask (8 - n)) AND b = 0 \<longleftrightarrow> take_bit (8 - n) b = b"
    by (auto simp: bit_eq_iff bit_simps)
  also have "\<dots> \<longleftrightarrow> unat b < 2 ^ (8 - n)"
    by (simp add: word_unat_eq_iff unsigned_take_bit_eq take_bit_nat_eq_self_iff)
  finally show ?thesis .
qed

lemma passes_mask_append:
  "length m1 = length h1 \<Longrightarrow>
   passes_mask (m1 @ m2) (h1 @ h2) \<longleftrightarrow> passes_mask m1 h1 \<and> passes_mask m2 h2"
  apply (auto simp: passes_mask_def nth_append)
  by (metis add_diff_cancel_left' add_less_cancel_left not_add_less1)

lemma mask_bytes_split:
  "i \<le> length msk \<Longrightarrow> mask_bytes i nlz (msk @ rest) = mask_bytes i nlz msk @ rest"
  by (induction i arbitrary: msk nlz) (auto simp: nth_append list_update_append split: prod.split)

lemma length_mask_bytes [simp]: "length (mask_bytes i nlz msk) = length msk"
  by (induction i arbitrary: msk nlz) (auto split: prod.split)

lemma digit_less:
  fixes r :: nat assumes "r < K" shows "r + K * u < K * c \<longleftrightarrow> u < c"
proof
  assume l: "r + K * u < K * c"
  show "u < c"
  proof (rule ccontr)
    assume "\<not> u < c"
    then have "K * c \<le> K * u" by simp
    with l show False by linarith
  qed
next
  assume "u < c"
  then have "K * Suc u \<le> K * c" by (intro mult_le_mono2) simp
  with assms show "r + K * u < K * c" by simp
qed

lemma mask_bytes_less:
  "length hash = k \<Longrightarrow> 0 \<le> n \<Longrightarrow> n \<le> 8 * int k \<Longrightarrow>
   passes_mask (mask_bytes k n (replicate k 0)) hash \<longleftrightarrow> le_number hash < 2 ^ (8 * k - nat n)"
proof (induction k arbitrary: hash n)
  case 0
  then show ?case by (simp add: passes_mask_def)
next
  case (Suc k)
  obtain h b where h: "hash = h @ [b]" "length h = k"
    using Suc.prems(1) by (metis length_Suc_conv_rev)
  have rep: "replicate (Suc k) (0 :: u8) = replicate k 0 @ [0]" by (simp add: replicate_append_same)
  have top: "(replicate k 0 @ [0 :: u8]) ! k = 0" by (simp add: nth_append)
  have num: "le_number (h @ [b]) = le_number h + 256 ^ k * unat b" by (simp add: h le_number_append)
  have hb: "le_number h < 256 ^ k" using le_number_bound [of h] h by simp
  have p256: "(256 :: nat) ^ k = 2 ^ (8 * k)" by (simp add: power_mult)
  have one: "passes_mask [m] [b] \<longleftrightarrow> m AND b = 0" for m by (simp add: passes_mask_def)
  show ?case
  proof (cases "8 \<le> n")
    case True
    have st: "mask_bytes (Suc k) n (replicate (Suc k) 0) = mask_bytes k (n - 8) (replicate k 0) @ [0xff]"
      by (simp add: rep top mask_bits_full [OF True] list_update_append mask_bytes_split
        del: replicate.simps)
    have "(0xff :: u8) = - 1" by simp
    then have "0xff AND b = b" by (metis and.left_neutral)
    moreover have "passes_mask (mask_bytes k (n - 8) (replicate k 0)) h \<longleftrightarrow>
        le_number h < 2 ^ (8 * k - nat (n - 8))"
      using Suc.IH [OF h(2), of "n - 8"] Suc.prems True by simp
    moreover have "8 * Suc k - nat n = 8 * k - nat (n - 8)" using True by (simp add: nat_diff_distrib)
    moreover have "le_number h + 256 ^ k * unat b < 2 ^ (8 * k - nat (n - 8)) \<longleftrightarrow>
        b = 0 \<and> le_number h < 2 ^ (8 * k - nat (n - 8))"
    proof (cases "b = 0")
      case False
      then have "1 \<le> unat b" using unat_gt_0 [of b] by linarith
      then have "256 ^ k \<le> le_number h + 256 ^ k * unat b" by (simp add: trans_le_add2)
      moreover have "(2 :: nat) ^ (8 * k - nat (n - 8)) \<le> 2 ^ (8 * k)" by (simp add: power_increasing)
      ultimately have "\<not> le_number h + 256 ^ k * unat b < 2 ^ (8 * k - nat (n - 8))"
        unfolding p256 by linarith
      with False show ?thesis by simp
    qed simp
    ultimately show ?thesis
      unfolding st h(1) num by (simp add: passes_mask_append h(2) one conj_commute)
  next
    case False
    define j where "j = nat n"
    have j: "n = int j" "j < 8" using False Suc.prems(2) by (auto simp: j_def)
    have st: "mask_bytes (Suc k) n (replicate (Suc k) 0) = replicate k 0 @ [NOT (mask (8 - j))]"
      using j by (simp add: rep top mask_bits_byte list_update_append mask_bytes_none
        del: replicate.simps)
    have "passes_mask (replicate k 0) h" by (simp add: passes_mask_def h(2))
    moreover have "8 * Suc k - nat n = 8 * k + (8 - j)" using j by simp
    moreover have "le_number h + 256 ^ k * unat b < 2 ^ (8 * k + (8 - j)) \<longleftrightarrow> unat b < 2 ^ (8 - j)"
      unfolding power_add p256 [symmetric] by (rule digit_less [OF hb])
    ultimately show ?thesis
      unfolding st h(1) num
      using j by (simp add: passes_mask_append h(2) one byte_mask_less)
  qed
qed

section \<open>The sample header\<close>

text \<open>The packed structure \<open>btc_s\<close> in memory; the machine is little endian.\<close>

record btc_s =
  Version :: u32
  hashPrevBlock :: "u8 list"
  hashMerkleRoot :: "u8 list"
  Time :: u32
  Bits :: u32
  Nonce :: u32

definition btc_bytes :: "btc_s \<Rightarrow> u8 list" where
  "btc_bytes s = le32_bytes (Version s) @ hashPrevBlock s @ hashMerkleRoot s @
     le32_bytes (Time s) @ le32_bytes (Bits s) @ le32_bytes (Nonce s)"

definition btc_sample :: btc_s where
  "btc_sample = \<lparr>Version = 1,
     hashPrevBlock = [0x81, 0xcd, 0x02, 0xab, 0x7e, 0x56, 0x9e, 0x8b, 0xcd, 0x93, 0x17, 0xe2,
       0xfe, 0x99, 0xf2, 0xde, 0x44, 0xd4, 0x9a, 0xb2, 0xb8, 0x85, 0x1b, 0xa4, 0xa3, 0x08, 0x00,
       0x00, 0x00, 0x00, 0x00, 0x00],
     hashMerkleRoot = [0xe3, 0x20, 0xb6, 0xc2, 0xff, 0xfc, 0x8d, 0x75, 0x04, 0x23, 0xdb, 0x8b,
       0x1e, 0xb9, 0x42, 0xae, 0x71, 0x0e, 0x95, 0x1e, 0xd7, 0x97, 0xf7, 0xaf, 0xfc, 0x88, 0x92,
       0xb0, 0xf1, 0xfc, 0x12, 0x2b],
     Time = 0x4dd7f5c7, Bits = 0x1a44b9f2, Nonce = 0\<rparr>"

text \<open>
  The midstate before the search, and the double hash of a candidate: the context already
  holds the first 76 bytes, the nonce follows in big endian, and the 32 byte buffer
  \<open>state\<close> is reused for both digests.
\<close>

definition search_context :: "sha256_context \<Rightarrow> btc_s \<Rightarrow> sha256_context" where
  "search_context ctx sample = sha256_update (sha256_init ctx) (take 76 (btc_bytes sample))"

definition check_candidate :: "sha256_context \<Rightarrow> u32 \<Rightarrow> u8 list \<Rightarrow> u8 list" where
  "check_candidate ctx nonce state =
     (let ctx = sha256_update ctx (be32_bytes nonce);
          (ctx, state) = sha256_finish ctx state;
          ctx = sha256_init ctx;
          ctx = sha256_update ctx state;
          (ctx, state) = sha256_finish ctx state
      in state)"

text \<open>\<open>main\<close> of the hash project: the state after the first block of its message.\<close>

definition sha256_main_msg :: "u8 list" where
  "sha256_main_msg = [0x01, 0x00, 0x00, 0x00,
     0x81, 0xcd, 0x02, 0xab, 0x7e, 0x56, 0x9e, 0x8b, 0xcd, 0x93, 0x17, 0xe2, 0xfe, 0x99, 0xf2,
     0xde, 0x44, 0xd4, 0x9a, 0xb2, 0xb8, 0x85, 0x1b, 0xa4, 0xa3, 0x08, 0x00, 0x00, 0x00, 0x00,
     0x00, 0x00,
     0xe3, 0x20, 0xb6, 0xc2, 0xff, 0xfc, 0x8d, 0x75, 0x04, 0x23, 0xdb, 0x8b, 0x1e, 0xb9, 0x42,
     0xae, 0x71, 0x0e, 0x95, 0x1e, 0xd7, 0x97, 0xf7, 0xaf, 0xfc, 0x88, 0x92, 0xb0]"

definition sha256_main :: "sha256_context \<Rightarrow> u8 list \<Rightarrow> u8 list" where
  "sha256_main ctx sha256sum =
     sha256_nofinish (sha256_update (sha256_init ctx) (take 64 sha256_main_msg)) sha256sum"

text \<open>
  The dialogue with the device. A failed status call leaves \<open>status\<close> as it was; the wait
  for the reset ends when it is 1, and the polls given may not end it (\<open>None\<close>). In the main
  loop \<open>select\<close> reports a timeout (with the two register calls), an error, or a readable
  device with the result of \<open>read\<close>.
\<close>

fun main_wait_reset :: "u32 \<Rightarrow> (int \<times> u32) list \<Rightarrow> dev_call list option" where
  "main_wait_reset status [] = None"
| "main_wait_reset status ((r, v) # ps) =
     (let status = (if r = 0 then v else status);
          call = C_get SHA256_ACCEL_GET_STATUS
      in if status \<noteq> 0x01 then map_option (Cons call) (main_wait_reset status ps)
      else Some [call])"

datatype main_event = M_timeout "int \<times> u32" "int \<times> u32" | M_error
  | M_readable int sha256_accel_msg_s

fun main_loop :: "sha256_context \<Rightarrow> u8 list \<Rightarrow> main_event list
    \<Rightarrow> (dev_call list \<times> u8 list option) option" where
  "main_loop ctx state [] = None"
| "main_loop ctx state (M_timeout n s # es) =
     map_option (\<lambda>(cs, out). ([C_select, C_get SHA256_ACCEL_GET_NONCE_CURRENT] @
       (if fst n = 0 then [C_get SHA256_ACCEL_GET_STATUS] else []) @ cs, out)) (main_loop ctx state es)"
| "main_loop ctx state (M_error # es) = map_option (\<lambda>(cs, out). (C_select # cs, out)) (main_loop ctx state es)"
| "main_loop ctx state (M_readable r msg # es) =
     Some ([C_select, C_read], if r = 8 \<and> msg_status msg = 0x10
       then Some (check_candidate ctx (msg_nonce_candidate msg) state) else None)"

definition userspace_main :: "int \<Rightarrow> int \<Rightarrow> int \<Rightarrow> u32 \<Rightarrow> (int \<times> u32) list \<Rightarrow> main_event list
    \<Rightarrow> sha256_context \<Rightarrow> (dev_call list \<times> u8 list option \<times> int) option" where
  "userspace_main argc nlz fd status polls events ctx =
     (if argc \<noteq> 2 then Some ([], None, 1)
      else if fd = - 1 then Some ([C_open], None, 1)
      else case main_wait_reset status polls of None \<Rightarrow> None
      | Some wait \<Rightarrow>
        let ctx = search_context ctx btc_sample;
            state = sha256_nofinish ctx (replicate 32 0);
            msk = generate_test_mask nlz
        in case main_loop ctx state events of None \<Rightarrow> None
        | Some (loop, out) \<Rightarrow>
          Some ([C_open, C_value SHA256_ACCEL_SET_CLOCK_SPEED 71, C_get SHA256_ACCEL_GET_STATUS,
             C_command SHA256_ACCEL_RESET] @ wait @
             [C_block SHA256_ACCEL_SET_STATE_IN state,
              C_block SHA256_ACCEL_SET_PREFIX (take 12 (drop 64 (btc_bytes btc_sample))),
              C_block SHA256_ACCEL_SET_DIFFICULTY_MASK msk,
              C_command SHA256_ACCEL_START] @ loop @ [C_close], out, 0))"

definition wf_btc :: "btc_s \<Rightarrow> bool" where
  "wf_btc s \<longleftrightarrow> length (hashPrevBlock s) = 32 \<and> length (hashMerkleRoot s) = 32"

lemma length_btc_bytes [layout]: "wf_btc s \<Longrightarrow> length (btc_bytes s) = 80"
  by (simp add: btc_bytes_def wf_btc_def layout)

lemma sha256_finish_buffer:
  "ctx_buffer (fst (sha256_finish ctx d)) = ctx_buffer (fst (sha256_finish ctx d'))"
  by (simp add: sha256_finish_def Let_def)

lemma sha256_finish_holds:
  assumes "sha256_holds ctx m"
  shows "length (ctx_buffer (fst (sha256_finish ctx d))) = 64"
proof -
  obtain pad where "fst (sha256_finish ctx d) = sha256_update ctx pad"
    by (simp add: sha256_finish_def Let_def)
  moreover from sha256_holds_update [OF assms] have "length (ctx_buffer (sha256_update ctx pad)) = 64"
    by (simp add: sha256_holds_def)
  ultimately show ?thesis by simp
qed

lemma check_candidate_spec:
  assumes "sha256_holds ctx m" and "length state = 32"
  shows "check_candidate ctx nonce state = sha256_spec (sha256_spec (m @ be32_bytes nonce))"
proof -
  have 1: "sha256_holds (sha256_update ctx (be32_bytes nonce)) (m @ be32_bytes nonce)"
    using assms(1) by (rule sha256_holds_update)
  obtain c1 d1 where f: "sha256_finish (sha256_update ctx (be32_bytes nonce)) state = (c1, d1)"
    by fastforce
  have d1: "d1 = sha256_spec (m @ be32_bytes nonce)"
    using sha256_finish_spec [OF 1 assms(2)] f by simp
  have "length (ctx_buffer c1) = 64" using sha256_finish_holds [OF 1, of state] f by simp
  then have "snd (sha256_finish (sha256_update (sha256_init c1) d1) d1) = sha256_spec d1"
    by (intro accel.digest_one) (simp_all add: d1 layout)
  then show ?thesis by (simp add: check_candidate_def f Let_def d1 case_prod_beta)
qed

lemma search_context_holds:
  "length (ctx_buffer ctx) = 64 \<Longrightarrow> sha256_holds (search_context ctx s) (take 76 (btc_bytes s))"
  using accel.holds_feed [OF accel.holds_start] by (simp add: search_context_def)

text \<open>the digest the program prints for a candidate nonce is the double SHA-256 of the
  80 byte header whose last four bytes are the nonce in big endian.\<close>

theorem candidate_double_hash:
  assumes "wf_btc s" and "length (ctx_buffer ctx) = 64" and "length state = 32"
  shows "check_candidate (search_context ctx s) nonce state =
    sha256_spec (sha256_spec (btc_bytes (s\<lparr>Nonce := le32_word (be32_bytes nonce)\<rparr>)))"
proof -
  have "take 76 (btc_bytes s) @ be32_bytes nonce =
      btc_bytes (s\<lparr>Nonce := le32_word (be32_bytes nonce)\<rparr>)"
    using assms(1) by (simp add: btc_bytes_def wf_btc_def layout le32_bytes_word)
  with check_candidate_spec [OF search_context_holds [OF assms(2)] assms(3), of s nonce]
  show ?thesis by simp
qed

lemma wf_sample: "wf_btc btc_sample"
  by (simp add: wf_btc_def btc_sample_def)

theorem candidate_double_hash_witness:
  "check_candidate (search_context \<lparr>ctx_total = 3, ctx_state = [], ctx_buffer = replicate 64 9\<rparr>
     btc_sample) 0x42a14695 (replicate 32 0) =
   sha256_spec (sha256_spec (btc_bytes (btc_sample\<lparr>Nonce := 0x9546a142\<rparr>)))"
proof -
  have "le32_word (be32_bytes 0x42a14695) = 0x9546a142"
    by (simp add: le32_word_def be32_bytes_def)
  with candidate_double_hash [OF wf_sample, of "\<lparr>ctx_total = 3, ctx_state = [], ctx_buffer = replicate 64 9\<rparr>"
      "replicate 32 0" "0x42a14695"] show ?thesis by simp
qed

text \<open>a hash passes the generated mask (no masked bit set) exactly when, read as a
  little-endian number, it has at least \<open>nlz\<close> leading zero bits.\<close>

theorem test_mask_leading_zeros:
  assumes "0 \<le> nlz" and "nlz \<le> 256" and "length hash = 32"
  shows "passes_mask (generate_test_mask nlz) hash \<longleftrightarrow> le_number hash < 2 ^ (256 - nat nlz)"
  using mask_bytes_less [of hash 32 nlz] assms by (simp add: generate_test_mask_def)

theorem test_mask_leading_zeros_witness:
  "passes_mask (generate_test_mask 12) (replicate 30 0xff @ [0x0f, 0]) \<longleftrightarrow>
     le_number (replicate 30 0xff @ [0x0f, 0]) < 2 ^ 244"
  using test_mask_leading_zeros [of 12 "replicate 30 0xff @ [0x0f, 0]"] by simp

lemma main_loop_out:
  "main_loop ctx state es = Some (cs, Some out) \<Longrightarrow>
   \<exists>msg. M_readable 8 msg \<in> set es \<and> out = check_candidate ctx (msg_nonce_candidate msg) state"
  by (induction ctx state es arbitrary: cs rule: main_loop.induct) (auto split: if_splits)

lemma search_state:
  assumes "wf_btc s" and "length (ctx_buffer ctx) = 64"
  shows "ctx_state (search_context ctx s) = compress fips_H0 (block_words (btc_bytes s))"
proof -
  have "ctx_state (search_context ctx s) = hash_blocks fips_H0 (take 76 (btc_bytes s))"
    using search_context_holds [OF assms(2), of s] by (simp add: sha256_holds_def)
  then show ?thesis using assms(1)
    by (simp add: hash_blocks_step hash_blocks_short layout block_words_take)
qed

text \<open>a run of the test program hands the device the midstate of the sample's first 64
  bytes, which is one compression from the initial value, and its next 12 bytes; and the digest
  it prints, if it prints one, is the double SHA-256 of the sample's first 76 bytes and the
  reported nonce.\<close>

theorem userspace_main_run:
  assumes "userspace_main 2 nlz fd status polls events ctx = Some (calls, out, ret)"
    and "fd \<noteq> - 1" and "length (ctx_buffer ctx) = 64"
  shows "C_block SHA256_ACCEL_SET_STATE_IN
      (concat (map be32_bytes (compress fips_H0 (block_words (btc_bytes btc_sample))))) \<in> set calls
    \<and> C_block SHA256_ACCEL_SET_PREFIX (take 12 (drop 64 (btc_bytes btc_sample))) \<in> set calls
    \<and> (\<forall>d. out = Some d \<longrightarrow> (\<exists>msg. M_readable 8 msg \<in> set events \<and>
         d = sha256_spec (sha256_spec (take 76 (btc_bytes btc_sample) @ be32_bytes (msg_nonce_candidate msg)))))"
proof -
  note st = search_state [OF wf_sample assms(3)]
  have state: "sha256_nofinish (search_context ctx btc_sample) (replicate 32 0) =
      concat (map be32_bytes (compress fips_H0 (block_words (btc_bytes btc_sample))))" (is "?s = _")
    by (subst nofinish_bytes) (simp_all add: st layout)
  have len: "length ?s = 32" unfolding state by (simp add: layout)
  have cand: "check_candidate (search_context ctx btc_sample) n ?s =
      sha256_spec (sha256_spec (take 76 (btc_bytes btc_sample) @ be32_bytes n))" for n
    by (rule check_candidate_spec [OF search_context_holds [OF assms(3)] len])
  show ?thesis
    using assms(1,2) main_loop_out [of "search_context ctx btc_sample" ?s events]
    by (auto simp: userspace_main_def Let_def state [symmetric] cand split: option.splits)
qed

theorem userspace_main_run_witness:
  "\<exists>calls d. userspace_main 2 32 4 0 [(0, 3), (0, 1)]
      [M_error, M_readable 8 \<lparr>msg_status = 0x10, msg_nonce_candidate = 0x42a14695\<rparr>]
      \<lparr>ctx_total = 0, ctx_state = [], ctx_buffer = replicate 64 0\<rparr> = Some (calls, Some d, 0) \<and>
    d = sha256_spec (sha256_spec (take 76 (btc_bytes btc_sample) @ be32_bytes 0x42a14695))"
proof -
  let ?es = "[M_error, M_readable 8 \<lparr>msg_status = 0x10, msg_nonce_candidate = 0x42a14695\<rparr>]"
  let ?c = "\<lparr>ctx_total = 0, ctx_state = [], ctx_buffer = replicate 64 0\<rparr> :: sha256_context"
  obtain calls d where run: "userspace_main 2 32 4 0 [(0, 3), (0, 1)] ?es ?c = Some (calls, Some d, 0)"
    by (simp add: userspace_main_def Let_def)
  from userspace_main_run [OF this] run show ?thesis by auto
qed

end
