(* ===== verification/Edc.thy ===== *)
theory Edc
  imports Device_Calls Userspace
begin

text \<open>
  The miner's driver for the accelerator, \<open>src/cgminer/driver-edc.c\<close>: detection of the
  device, the search for a nonce (\<open>edc_scanhash\<close>) with its difficulty mask and its
  dialogue with the device file, and the status line.
\<close>

section \<open>The difficulty mask\<close>

text \<open>
  The two nested loops look at the target's bytes from the last to the first, and in each
  byte at the bits from the lowest up. \<open>None\<close>: no bit is set, and the loops end with
  \<open>i = -1\<close> and \<open>b = 0\<close>.
\<close>

definition find_bit :: "u8 \<Rightarrow> u8 option" where
  "find_bit t = List.find (\<lambda>b. t AND b \<noteq> 0) [1, 2, 4, 8, 16, 32, 64, 128]"

fun find_byte :: "nat \<Rightarrow> u8 list \<Rightarrow> (nat \<times> u8) option" where
  "find_byte 0 target = None"
| "find_byte (Suc i) target = (case find_bit (target ! i) of Some b \<Rightarrow> Some (i, b)
     | None \<Rightarrow> find_byte i target)"

function or_down :: "u8 \<Rightarrow> u8 \<Rightarrow> u8" where
  "or_down b byte = (if b > 0 then or_down (drop_bit 1 b) (byte OR b) else byte)"
  by pat_completeness auto
termination
proof (relation "measure (\<lambda>(b, byte). unat b)", goal_cases)
  case (2 b byte)
  then have "0 < unat b" by (simp add: word_less_nat_alt)
  then show ?case by (simp add: drop_bit_Suc unat_div)
qed simp

declare or_down.simps [simp del]

text \<open>
  With no bit found the second pair of loops starts at \<open>i = -1\<close>, where \<open>b = 0\<close> writes
  nothing, and reaches byte 0 with \<open>b = 0x80\<close>.
\<close>

definition edc_device_target :: "u8 list \<Rightarrow> u8 list" where
  "edc_device_target target =
     (let (i, b) = (case find_byte 32 target of Some found \<Rightarrow> found | None \<Rightarrow> (0, 0x80))
      in fst (foldl (\<lambda>(dt, b) i. (dt[i := or_down b (dt ! i)], 0x80)) (replicate 32 0, b) [i..<32]))"

lemma find_bit_None: "find_bit t = None \<longleftrightarrow> t = 0"
proof
  assume "find_bit t = None"
  then have z: "\<forall>b\<in>set [1, 2, 4, 8, 16, 32, 64, 128]. t AND b = 0" by (simp only: find_bit_def find_None_iff) blast
  have "\<not> bit t n" if "n < 8" for n
  proof -
    have "n \<in> set [0..<8]" using that by simp
    then have "(2 :: u8) ^ n \<in> set [1, 2, 4, 8, 16, 32, 64, 128]" by (auto simp: upt_rec)
    with z have "t AND 2 ^ n = 0" by blast
    then show ?thesis by (simp add: and_exp_eq_0_iff_not_bit)
  qed
  then show "t = 0" by (intro bit_word_eqI) auto
qed (simp add: find_bit_def)

lemma find_bit_Some: "find_bit t = Some b \<Longrightarrow> t \<noteq> 0"
  using find_bit_None [of t] by auto

lemma or_down_values:
  "or_down 1 0 = 1" "or_down 2 0 = 3" "or_down 4 0 = 7" "or_down 8 0 = 15" "or_down 16 0 = 31"
  "or_down 32 0 = 63" "or_down 64 0 = 127" "or_down 128 0 = 255"
  by (simp_all add: or_down.simps)

lemma find_byte_None: "n \<le> length t \<Longrightarrow> find_byte n t = None \<longleftrightarrow> (\<forall>j<n. t ! j = 0)"
  by (induction n) (auto simp: find_bit_None less_Suc_eq split: option.splits dest: find_bit_Some)

lemma find_byte_Some:
  "find_byte n t = Some (i, b) \<Longrightarrow> i < n \<and> find_bit (t ! i) = Some b \<and> (\<forall>j. i < j \<and> j < n \<longrightarrow> t ! j = 0)"
  by (induction n) (auto simp: find_bit_None less_Suc_eq split: option.splits)

lemma mask_fold:
  "i \<le> n \<Longrightarrow> n \<le> length dt \<Longrightarrow> \<forall>j. i \<le> j \<and> j < n \<longrightarrow> dt ! j = 0 \<Longrightarrow>
   length (fst (foldl (\<lambda>(dt, b) i. (dt[i := or_down b (dt ! i)], 0x80)) (dt, b) [i..<n])) = length dt \<and>
   (\<forall>j < length dt. fst (foldl (\<lambda>(dt, b) i. (dt[i := or_down b (dt ! i)], 0x80)) (dt, b) [i..<n]) ! j =
     (if j = i \<and> i < n then or_down b 0 else if i < j \<and> j < n then 0xff else dt ! j))
   \<and> (i < n \<longrightarrow> snd (foldl (\<lambda>(dt, b) i. (dt[i := or_down b (dt ! i)], 0x80)) (dt, b) [i..<n]) = 0x80)"
proof (induction n)
  case (Suc n)
  show ?case
  proof (cases "i = Suc n")
    case False
    with Suc.prems have le: "i \<le> n" by simp
    let ?r = "foldl (\<lambda>(dt, b) i. (dt[i := or_down b (dt ! i)], 0x80)) (dt, b) [i..<n]"
    have IH: "length (fst ?r) = length dt" "\<forall>j < length dt. fst ?r ! j =
        (if j = i \<and> i < n then or_down b 0 else if i < j \<and> j < n then 0xff else dt ! j)"
        "i < n \<longrightarrow> snd ?r = 0x80" using Suc.IH le Suc.prems by auto
    have n: "fst ?r ! n = 0" using IH(2) Suc.prems le by auto
    have step: "foldl (\<lambda>(dt, b) i. (dt[i := or_down b (dt ! i)], 0x80)) (dt, b) [i..<Suc n] =
      ((fst ?r)[n := or_down (snd ?r) 0], 0x80)"
      using le n by (simp add: case_prod_beta)
    have b: "snd ?r = b" if "i = n" using that by simp
    show ?thesis unfolding step using IH Suc.prems le b
      by (auto simp: nth_list_update or_down_values less_Suc_eq)
  qed auto
qed simp

lemma edc_target_bytes:
  assumes "find_byte 32 t = Some (i, b)" and "j < 32"
  shows "edc_device_target t ! j = (if j < i then 0 else if j = i then or_down b 0 else 0xff)"
  using mask_fold [of i 32 "replicate 32 0" b] find_byte_Some [OF assms(1)] assms(2)
  by (auto simp: edc_device_target_def assms(1) split: if_splits)


text \<open>A byte below the first masked one does not restrict the hash at all.\<close>

lemma length_edc_target: "length (edc_device_target t) = 32"
proof (cases "find_byte 32 t")
  case None
  then show ?thesis using mask_fold [of 0 32 "replicate 32 0" "0x80"] by (simp add: edc_device_target_def)
next
  case (Some f)
  then show ?thesis
    using mask_fold [of "fst f" 32 "replicate 32 0" "snd f"] find_byte_Some [of 32 t "fst f" "snd f"]
    by (simp add: edc_device_target_def case_prod_beta)
qed

lemma le_number_high_zero:
  assumes "length h = n" and "i < n" and "\<forall>j. i < j \<and> j < n \<longrightarrow> h ! j = 0"
  shows "le_number h < 256 ^ Suc i"
proof -
  have "h = take (Suc i) h @ drop (Suc i) h" by simp
  then have "le_number h = le_number (take (Suc i) h) + 256 ^ length (take (Suc i) h) * le_number (drop (Suc i) h)"
    by (metis le_number_append)
  moreover have "le_number (drop (Suc i) h) = 0"
    unfolding le_number_eq_0 using assms by (auto simp: in_set_conv_nth)
  moreover have "length (take (Suc i) h) = Suc i" using assms by simp
  ultimately show ?thesis using le_number_bound [of "take (Suc i) h"] by simp
qed

lemma and_power: "(t :: u8) AND 2 ^ n = (if bit t n then 2 ^ n else 0)"
  by (rule bit_word_eqI) (auto simp: bit_simps)

lemmas and_powers = and_power [of _ 0, simplified] and_power [of _ 1, simplified]
  and_power [of _ 2, simplified] and_power [of _ 3, simplified] and_power [of _ 4, simplified]
  and_power [of _ 5, simplified] and_power [of _ 6, simplified] and_power [of _ 7, simplified]

lemma find_bit_low:
  assumes "find_bit t = Some b" shows "t AND or_down b 0 = b" and "b \<noteq> 0"
proof -
  have dist: "t AND (x OR y) = (t AND x) OR (t AND y)" for x y by (rule bit_word_eqI) (auto simp: bit_simps)
  have ors: "(3 :: u8) = 2 OR 1" "(7 :: u8) = 4 OR 3" "(15 :: u8) = 8 OR 7" "(31 :: u8) = 16 OR 15"
    "(63 :: u8) = 32 OR 31" "(127 :: u8) = 64 OR 63" "(255 :: u8) = 128 OR 127" by simp_all
  have steps: "t AND 3 = (t AND 2) OR (t AND 1)" "t AND 7 = (t AND 4) OR (t AND 3)"
    "t AND 15 = (t AND 8) OR (t AND 7)" "t AND 31 = (t AND 16) OR (t AND 15)"
    "t AND 63 = (t AND 32) OR (t AND 31)" "t AND 127 = (t AND 64) OR (t AND 63)"
    "t AND 255 = (t AND 128) OR (t AND 127)"
    by (subst ors, rule dist)+
  have "b = 1 \<and> t AND 1 \<noteq> 0 \<or> b = 2 \<and> t AND 1 = 0 \<and> t AND 2 \<noteq> 0
    \<or> b = 4 \<and> t AND 3 = 0 \<and> t AND 4 \<noteq> 0 \<or> b = 8 \<and> t AND 7 = 0 \<and> t AND 8 \<noteq> 0
    \<or> b = 16 \<and> t AND 15 = 0 \<and> t AND 16 \<noteq> 0 \<or> b = 32 \<and> t AND 31 = 0 \<and> t AND 32 \<noteq> 0
    \<or> b = 64 \<and> t AND 63 = 0 \<and> t AND 64 \<noteq> 0 \<or> b = 128 \<and> t AND 127 = 0 \<and> t AND 128 \<noteq> 0"
    using assms by (simp add: find_bit_def steps split: if_splits)
  then show "t AND or_down b 0 = b" "b \<noteq> 0"
    by (elim disjE; simp add: or_down_values steps; simp add: and_powers split: if_splits)+
qed

section \<open>Searching\<close>

text \<open>
  One turn of the wait for the reset: the result of the status call, the status register
  and \<open>thr->work_restart\<close> when the condition reads it.
\<close>

type_synonym ready_poll = "int \<times> u32 \<times> bool"

text \<open>
  What \<open>select\<close> reports in one turn of the main loop: a timeout, with the restart flag
  and the status call; an error; or a readable device, with the result of \<open>read\<close>.
\<close>

datatype select_event = Timeout bool int u32 | Select_error | Readable int sha256_accel_msg_s

record edc_env =
  env_open :: int
  env_set_clock :: int
  env_reset :: int
  env_ready :: "ready_poll list"
  env_state :: int
  env_prefix :: int
  env_mask :: int
  env_start :: int
  env_select :: "select_event list"
  env_nonce :: "int \<times> u32"

record edc_work =
  w_midstate :: "u8 list"
  w_data :: "u8 list"
  w_target :: "u8 list"

text \<open>
  \<open>Ready_fail\<close> leaves through \<open>goto close\<close>; \<open>None\<close>: the polls given do not end the
  wait.
\<close>

fun edc_wait_ready :: "ready_poll list \<Rightarrow> (dev_call list \<times> bool) option" where
  "edc_wait_ready [] = None"
| "edc_wait_ready ((r, status, restart) # ps) =
     (if r = - 1 then Some ([C_get SHA256_ACCEL_GET_STATUS], False)
      else if status \<noteq> 0x1 \<and> \<not> restart then
        map_option (\<lambda>(cs, ok). (C_get SHA256_ACCEL_GET_STATUS # cs, ok)) (edc_wait_ready ps)
      else Some ([C_get SHA256_ACCEL_GET_STATUS], status = 0x1))"

fun edc_select_loop :: "select_event list \<Rightarrow> dev_call list option" where
  "edc_select_loop [] = None"
| "edc_select_loop (Timeout restart r status # es) =
     (if restart then Some [C_select]
      else if r = - 1 \<or> status AND 0x2 = 0 then Some [C_select, C_get SHA256_ACCEL_GET_STATUS]
      else map_option (\<lambda>cs. [C_select, C_get SHA256_ACCEL_GET_STATUS] @ cs) (edc_select_loop es))"
| "edc_select_loop (Select_error # es) = Some [C_select]"
| "edc_select_loop (Readable r msg # es) =
     (if r \<noteq> 8 then Some [C_select, C_read]
      else if msg_status msg = 0x10 then
        Some [C_select, C_read, C_submit (msg_nonce_candidate msg)]
      else Some [C_select, C_read])"

text \<open>
  The result is the calls made and the hash count returned; every \<open>goto close\<close> returns the
  initial -1.
\<close>

definition edc_scanhash :: "edc_env \<Rightarrow> edc_work \<Rightarrow> (dev_call list \<times> int) option" where
  "edc_scanhash env work =
     (let device_target = edc_device_target (w_target work)
      in if env_open env = - 1 then Some ([C_open], - 1)
      else
        let clock = [C_open, C_value SHA256_ACCEL_SET_CLOCK_SPEED 110]
        in if env_set_clock env = - 1 then Some (clock @ [C_close], - 1)
        else
          let reset = clock @ [C_command SHA256_ACCEL_RESET]
          in if env_reset env = - 1 then Some (reset @ [C_close], - 1)
          else case edc_wait_ready (env_ready env) of None \<Rightarrow> None
          | Some (polls, False) \<Rightarrow> Some (reset @ polls @ [C_close], - 1)
          | Some (polls, True) \<Rightarrow>
            let s1 = reset @ polls @ [C_block SHA256_ACCEL_SET_STATE_IN (w_midstate work)]
            in if env_state env = - 1 then Some (s1 @ [C_close], - 1)
            else
              let s2 = s1 @ [C_block SHA256_ACCEL_SET_PREFIX (sub_list (w_data work) 64 12)]
              in if env_prefix env = - 1 then Some (s2 @ [C_close], - 1)
              else
                let s3 = s2 @ [C_block SHA256_ACCEL_SET_DIFFICULTY_MASK device_target]
                in if env_mask env = - 1 then Some (s3 @ [C_close], - 1)
                else
                  let s4 = s3 @ [C_command SHA256_ACCEL_START]
                  in if env_start env = - 1 then Some (s4 @ [C_close], - 1)
                  else case edc_select_loop (env_select env) of None \<Rightarrow> None
                  | Some loop \<Rightarrow>
                    let s5 = s4 @ loop @ [C_get SHA256_ACCEL_GET_NONCE_CURRENT]
                    in if fst (env_nonce env) = - 1 then Some (s5 @ [C_close], - 1)
                    else Some (s5 @ [C_close], uint (snd (env_nonce env))))"

section \<open>Detection and status line\<close>

text \<open>
  What \<open>edc_drv_detect\<close> meets: the two allocations, \<open>stat\<close>, the file type, and whether
  the miner accepts the device. The result lists the blocks still allocated and whether the
  device was added; \<open>None\<close> is the write through the first pointer when it is NULL.
\<close>

datatype edc_block = Cgpu_info | Edc_info

record detect_env =
  d_info_ok :: bool
  d_edcinfo_ok :: bool
  d_stat :: int
  d_is_chr :: bool
  d_add_cgpu :: bool

definition edc_drv_detect :: "detect_env \<Rightarrow> (edc_block list \<times> bool) option" where
  "edc_drv_detect env =
     (if \<not> d_info_ok env then None
      else
        let blocks = Cgpu_info # (if d_edcinfo_ok env then [Edc_info] else []);
            cleanup = Some (remove1 Cgpu_info blocks, False)
        in if d_stat env = - 1 then cleanup
        else if \<not> d_is_chr env then cleanup
        else if \<not> d_edcinfo_ok env then None
        else if \<not> d_add_cgpu env then cleanup
        else Some (blocks, True))"

datatype statline = Edc_closed | Edc_no_line | Edc_line u32 u32

definition edc_get_statline_before :: "int \<Rightarrow> int \<times> u32 \<Rightarrow> int \<times> u32 \<Rightarrow> statline" where
  "edc_get_statline_before fd status nonce =
     (if fd = - 1 then Edc_closed
      else if fst status = - 1 then Edc_no_line
      else if fst nonce = - 1 then Edc_no_line
      else Edc_line (snd status) (snd nonce))"

section \<open>Properties\<close>

lemma edc_mask_exact:
  assumes "length t = 32" and "find_byte 32 t = Some (i, b)" and "length hash = 32"
  shows "passes_mask (edc_device_target t) hash \<longleftrightarrow>
    (\<forall>j. i < j \<and> j < 32 \<longrightarrow> hash ! j = 0) \<and> or_down b 0 AND hash ! i = 0"
proof -
  have i: "i < 32" using find_byte_Some [OF assms(2)] by simp
  have all: "(255 :: u8) AND x = x" for x
  proof -
    have "(255 :: u8) = - 1" by simp
    then show ?thesis by (metis and.left_neutral)
  qed
  show ?thesis
  proof
    assume "passes_mask (edc_device_target t) hash"
    then have p: "edc_device_target t ! j AND hash ! j = 0" if "j < 32" for j
      using that by (simp add: passes_mask_def assms(3))
    have "hash ! j = 0" if "i < j" "j < 32" for j
      using p [OF that(2)] that by (simp add: edc_target_bytes [OF assms(2)] all)
    moreover have "or_down b 0 AND hash ! i = 0"
      using p [OF i] i by (simp add: edc_target_bytes [OF assms(2)])
    ultimately show "(\<forall>j. i < j \<and> j < 32 \<longrightarrow> hash ! j = 0) \<and> or_down b 0 AND hash ! i = 0"
      by blast
  next
    assume "(\<forall>j. i < j \<and> j < 32 \<longrightarrow> hash ! j = 0) \<and> or_down b 0 AND hash ! i = 0"
    then have "edc_device_target t ! j AND hash ! j = 0" if "j < 32" for j
      using that by (cases j i rule: linorder_cases) (simp_all add: edc_target_bytes [OF assms(2)])
    then show "passes_mask (edc_device_target t) hash" by (simp add: passes_mask_def assms(3))
  qed
qed

lemma le_number_ge_digit:
  assumes "i < length t" and "t ! i \<noteq> 0" shows "256 ^ i \<le> le_number t"
proof -
  have "t = take i t @ t ! i # drop (Suc i) t" using assms(1) by (rule id_take_nth_drop)
  then have "le_number t = le_number (take i t) +
      256 ^ length (take i t) * (unat (t ! i) + 256 * le_number (drop (Suc i) t))"
    by (metis le_number_append le_number.simps(2))
  moreover have "1 \<le> unat (t ! i)" using assms(2) unat_gt_0 [of "t ! i"] by linarith
  ultimately show ?thesis using assms(1)
    by (simp add: trans_le_add2)
qed

text \<open>every hash the device reports for a non-zero target is less than 256 times the
  target: the mask keeps all bytes above the target's highest non-zero byte zero.\<close>

theorem edc_mask_bound:
  assumes "length t = 32" and "length hash = 32" and "le_number t \<noteq> 0"
    and "passes_mask (edc_device_target t) hash"
  shows "le_number hash < 256 * le_number t"
proof -
  obtain i b where f: "find_byte 32 t = Some (i, b)"
    using find_byte_None [of 32 t] assms(1,3) by (cases "find_byte 32 t") (auto simp: le_number_eq_0 in_set_conv_nth)
  from find_byte_Some [OF f] have i: "i < 32" "t ! i \<noteq> 0" by (auto dest: find_bit_Some)
  have "le_number hash < 256 ^ Suc i"
    using edc_mask_exact [OF assms(1) f assms(2)] assms(4) i(1) assms(2)
    by (intro le_number_high_zero [of _ 32]) auto
  moreover have "256 ^ i \<le> le_number t" using i assms(1) by (intro le_number_ge_digit) simp_all
  ultimately show ?thesis by simp
qed

definition diff1_target :: "u8 list" where
  "diff1_target = replicate 26 0 @ [0xff, 0xff, 0, 0, 0, 0]"

lemma diff1_found: "find_byte 32 diff1_target = Some (27, 1)"
  by (simp add: diff1_target_def find_bit_def numeral_eq_Suc)

lemma le_number_zeros [simp]: "le_number (replicate n 0) = 0"
  by (induction n) simp_all

lemma diff1_number: "le_number diff1_target = 0xffff * 256 ^ 26"
  by (simp add: diff1_target_def le_number_append)

theorem edc_mask_bound_witness:
  "le_number (replicate 27 0xff @ [0xfe, 0, 0, 0, 0]) < 256 * le_number diff1_target"
proof (rule edc_mask_bound)
  show "length diff1_target = 32" by (simp add: diff1_target_def)
  show "length (replicate 27 0xff @ [0xfe, 0, 0, 0, 0 :: u8]) = 32" by simp
  show "le_number diff1_target \<noteq> 0" by (simp add: diff1_number)
  show "passes_mask (edc_device_target diff1_target) (replicate 27 0xff @ [0xfe, 0, 0, 0, 0])"
    by (subst edc_mask_exact [OF _ diff1_found])
      (auto simp: diff1_target_def or_down_values nth_append nth_Cons' )
qed

text \<open>the mask also rejects hashes that meet the target. The lowest set bit of the
  target's highest non-zero byte is masked, so whatever the target, the hash equal to it is
  rejected; for the difficulty 1 target the hash \<open>2 ^ 216\<close>, a 255th of the target, is.\<close>

theorem edc_mask_loses_shares:
  assumes "length t = 32" and "le_number t \<noteq> 0"
  shows "\<not> passes_mask (edc_device_target t) t
    \<and> le_number (replicate 27 0 @ [1, 0, 0, 0, 0]) * 255 < le_number diff1_target
    \<and> \<not> passes_mask (edc_device_target diff1_target) (replicate 27 0 @ [1, 0, 0, 0, 0])"
proof (intro conjI)
  obtain i b where f: "find_byte 32 t = Some (i, b)"
    using find_byte_None [of 32 t] assms by (cases "find_byte 32 t") (auto simp: le_number_eq_0 in_set_conv_nth)
  from find_byte_Some [OF f] find_bit_low [of "t ! i" b] have "or_down b 0 AND t ! i \<noteq> 0"
    by (simp add: and.commute)
  with edc_mask_exact [OF assms(1) f assms(1)] show "\<not> passes_mask (edc_device_target t) t" by simp
  show "le_number (replicate 27 0 @ [1, 0, 0, 0, 0]) * 255 < le_number diff1_target"
    unfolding diff1_number by (simp add: le_number_append)
  show "\<not> passes_mask (edc_device_target diff1_target) (replicate 27 0 @ [1, 0, 0, 0, 0])"
    by (subst edc_mask_exact [OF _ diff1_found]) (simp_all add: diff1_target_def or_down_values nth_append)
qed

theorem edc_mask_loses_shares_witness:
  "\<not> passes_mask (edc_device_target (replicate 31 0 @ [0x80])) (replicate 31 0 @ [0x80])"
  using edc_mask_loses_shares [of "replicate 31 0 @ [0x80]"] by (simp add: le_number_append)


lemma wait_ready_calls:
  "edc_wait_ready ps = Some (cs, ok) \<Longrightarrow> set cs \<subseteq> {C_get SHA256_ACCEL_GET_STATUS}"
  by (induction ps arbitrary: cs ok rule: edc_wait_ready.induct) (auto split: if_splits)

lemma select_loop_calls:
  "edc_select_loop es = Some cs \<Longrightarrow> c \<in> set cs \<Longrightarrow>
   c = C_select \<or> c = C_read \<or> c = C_get SHA256_ACCEL_GET_STATUS \<or>
   (\<exists>msg. Readable 8 msg \<in> set es \<and> msg_status msg = 0x10 \<and> c = C_submit (msg_nonce_candidate msg))"
  by (induction es arbitrary: cs rule: edc_select_loop.induct) (auto split: if_splits)

text \<open>C6: a search that opened the device closes it as its last call and not before. It sends
  the start command only after the reset device reported ready, right after the midstate, the
  end of the header and the mask were handed over, in this order; and it submits a nonce only
  if a complete message with the candidate status carried it.\<close>

theorem edc_scanhash_protocol:
  assumes "edc_scanhash env work = Some (calls, hashes)" and "env_open env \<noteq> - 1"
  shows "(hd calls = C_open \<and> last calls = C_close \<and> C_close \<notin> set (butlast calls)) \<and>
    (C_command SHA256_ACCEL_START \<in> set calls \<longrightarrow> (\<exists>polls post.
       edc_wait_ready (env_ready env) = Some (polls, True) \<and>
       calls = [C_open, C_value SHA256_ACCEL_SET_CLOCK_SPEED 110, C_command SHA256_ACCEL_RESET] @ polls @
         programming_calls (w_midstate work) (sub_list (w_data work) 64 12)
           (edc_device_target (w_target work)) @ post)) \<and>
    (\<forall>nonce. C_submit nonce \<in> set calls \<longrightarrow> (\<exists>msg. Readable 8 msg \<in> set (env_select env) \<and>
       msg_status msg = 0x10 \<and> msg_nonce_candidate msg = nonce))"
proof (cases "edc_wait_ready (env_ready env)")
  case None
  with assms show ?thesis
    by (auto simp: edc_scanhash_def Let_def command_words split: if_splits)
next
  case (Some r)
  obtain polls ok where r: "r = (polls, ok)" by fastforce
  note w = wait_ready_calls [OF Some [unfolded r]]
  show ?thesis
  proof (cases "ok \<and> env_set_clock env \<noteq> - 1 \<and> env_reset env \<noteq> - 1 \<and> env_state env \<noteq> - 1 \<and>
      env_prefix env \<noteq> - 1 \<and> env_mask env \<noteq> - 1 \<and> env_start env \<noteq> - 1")
    case False
    have "C_close \<notin> set polls" "C_command c \<notin> set polls" "C_submit n \<notin> set polls" for c n
      using w by auto
    with False assms Some r show ?thesis
      by (cases ok) (auto simp: edc_scanhash_def Let_def command_words programming_calls_def
          butlast_append split: if_splits)
  next
    case True
    then obtain loop where l: "edc_select_loop (env_select env) = Some loop"
      using assms Some r by (auto simp: edc_scanhash_def Let_def split: option.splits)
    have c: "calls = [C_open, C_value SHA256_ACCEL_SET_CLOCK_SPEED 110, C_command SHA256_ACCEL_RESET] @ polls @
         programming_calls (w_midstate work) (sub_list (w_data work) 64 12)
           (edc_device_target (w_target work)) @ loop @ [C_get SHA256_ACCEL_GET_NONCE_CURRENT, C_close]"
      using assms Some r l True
      by (auto simp: edc_scanhash_def Let_def programming_calls_def split: if_splits)
    have "C_close \<notin> set loop" "C_close \<notin> set polls"
      "C_submit n \<notin> set polls" for n
      using select_loop_calls [OF l, of C_close] w by auto
    then show ?thesis
      using Some r True select_loop_calls [OF l] unfolding c
      by (auto simp: programming_calls_def butlast_append)
  qed
qed

text \<open>An environment of a search that finds the nonce at the first interrupt.\<close>

definition demo_env :: edc_env where
  "demo_env = \<lparr>env_open = 5, env_set_clock = 0, env_reset = 0, env_ready = [(0, 3, False), (0, 1, False)],
     env_state = 0, env_prefix = 0, env_mask = 0, env_start = 0,
     env_select = [Timeout False 0 2,
       Readable 8 \<lparr>msg_status = 0x10, msg_nonce_candidate = 77\<rparr>], env_nonce = (0, 80)\<rparr>"

definition demo_work :: edc_work where
  "demo_work = \<lparr>w_midstate = replicate 32 3, w_data = replicate 128 4, w_target = diff1_target\<rparr>"

lemma demo_run: "\<exists>calls. edc_scanhash demo_env demo_work = Some (calls, 80) \<and>
  C_command SHA256_ACCEL_START \<in> set calls \<and> C_submit 77 \<in> set calls"
  by (simp add: edc_scanhash_def demo_env_def demo_work_def Let_def)

theorem edc_scanhash_protocol_witness:
  "\<exists>calls. edc_scanhash demo_env demo_work = Some (calls, 80) \<and> last calls = C_close \<and>
     (\<exists>msg. Readable 8 msg \<in> set (env_select demo_env) \<and> msg_nonce_candidate msg = 77)"
proof -
  obtain calls where c: "edc_scanhash demo_env demo_work = Some (calls, 80)" "C_submit 77 \<in> set calls"
    using demo_run by blast
  have "env_open demo_env \<noteq> - 1" by (simp add: demo_env_def)
  from edc_scanhash_protocol [OF c(1) this] c show ?thesis by blast
qed

text \<open>C5: when the driver of theory \<open>KernelModule\<close> serves a search's programming calls, the
  accelerator receives exactly four register writes: the 32 midstate bytes at state_in, bytes
  64 to 75 of the header at prefix, the 32 mask bytes, and the start bit in control; nothing
  else of the driver's state changes.\<close>

theorem edc_programs_accelerator:
  assumes "length (w_midstate work) = 32" and "76 \<le> length (w_data work)"
  shows "play hw (programming_calls (w_midstate work) (sub_list (w_data work) 64 12)
      (edc_device_target (w_target work))) st =
    Some (st\<lparr>k_hw := hw_write hw 0x43c00060 [2] (hw_write hw 0x43c0002c (edc_device_target (w_target work))
      (hw_write hw 0x43c00020 (take 12 (drop 64 (w_data work)))
        (hw_write hw 0x43c00000 (w_midstate work) (k_hw st))))\<rparr>)"
proof -
  have p: "length (sub_list (w_data work) 64 12) = 12" using assms(2) by (simp add: sub_list_def)
  show ?thesis
    using play_programming [OF assms(1) p length_edc_target [of "w_target work"], of hw "[]" st]
    by (simp add: program_writes_def iowrite_def sub_list_def)
qed

theorem edc_programs_accelerator_witness:
  "play demo_hw (programming_calls (w_midstate demo_work) (sub_list (w_data demo_work) 64 12)
      (edc_device_target (w_target demo_work))) demo_kernel \<noteq> None"
  by (subst edc_programs_accelerator) (simp_all add: demo_work_def)

text \<open>Detection adds the device only when the file exists and is a character device, and
  then keeps both blocks it allocated; every failure it survives frees the first block and
  leaks the second, which the first one pointed to.\<close>

theorem edc_detect_outcomes:
  "edc_drv_detect env = Some (blocks, added) \<Longrightarrow>
    (added \<longleftrightarrow> d_stat env \<noteq> - 1 \<and> d_is_chr env \<and> d_add_cgpu env) \<and>
    (added \<longrightarrow> blocks = [Cgpu_info, Edc_info]) \<and>
    (\<not> added \<longrightarrow> blocks = (if d_edcinfo_ok env then [Edc_info] else []))"
  by (auto simp: edc_drv_detect_def Let_def split: if_splits)

theorem edc_detect_outcomes_witness:
  "edc_drv_detect \<lparr>d_info_ok = True, d_edcinfo_ok = True, d_stat = - 1, d_is_chr = False,
     d_add_cgpu = True\<rparr> = Some ([Edc_info], False)"
  using edc_detect_outcomes [of "\<lparr>d_info_ok = True, d_edcinfo_ok = True, d_stat = - 1,
    d_is_chr = False, d_add_cgpu = True\<rparr>" "[Edc_info]" False]
  by (simp add: edc_drv_detect_def)

end
