(* ===== verification/Klist.thy ===== *)
theory Klist
  imports Prelude Fifo "HOL-Library.Monad_Syntax"
begin

text \<open>
  The miner's item lists, \<open>src/cgminer/klist.c\<close> and \<open>klist.h\<close>: doubly linked lists of
  items with an optional tail pointer, a list that allocates its items in arrays and stores
  that only borrow them. The memory is explicit: an address is a block and an index in it, so
  the neighbours that \<open>k_alloc_items\<close> computes with \<open>&item[i-1]\<close> and \<open>&item[i+1]\<close> are
  what the code computes, also where no item exists.
\<close>

section \<open>Memory\<close>

type_synonym ptr = "nat \<times> int"

record k_item =
  i_name :: nat
  i_prev :: "ptr option"
  i_next :: "ptr option"
  i_data :: "u8 list"

record k_list =
  l_name :: nat
  l_is_store :: bool
  l_head :: "ptr option"
  l_tail :: "ptr option"
  l_siz :: nat
  l_total :: int
  l_count :: int
  l_count_up :: int
  l_allocate :: int
  l_limit :: int
  l_do_tail :: bool
  l_item_memory :: "nat list"
  l_data_memory :: "ptr list"

text \<open>
  \<open>h_mem\<close> are the outcomes of the coming allocations, an exhausted list meaning success;
  \<open>h_next\<close> is the next unused block.
\<close>

record k_heap =
  h_items :: "ptr \<Rightarrow> k_item option"
  h_next :: nat
  h_mem :: "bool list"

text \<open>\<open>Quit\<close>: the code calls \<open>quithere(1, ...)\<close>; \<open>Wild\<close>: it follows a bad pointer.\<close>

datatype 'a outcome = Ok 'a | Quit | Wild

fun outcome_bind :: "'a outcome \<Rightarrow> ('a \<Rightarrow> 'b outcome) \<Rightarrow> 'b outcome" where
  "outcome_bind (Ok x) f = f x"
| "outcome_bind Quit f = Quit"
| "outcome_bind Wild f = Wild"

definition get_item :: "k_heap \<Rightarrow> ptr \<Rightarrow> k_item outcome" where
  "get_item h p = (case h_items h p of None \<Rightarrow> Wild | Some it \<Rightarrow> Ok it)"

definition set_item :: "ptr \<Rightarrow> (k_item \<Rightarrow> k_item) \<Rightarrow> k_heap \<Rightarrow> k_heap outcome" where
  "set_item p f h = (case h_items h p of None \<Rightarrow> Wild
     | Some it \<Rightarrow> Ok (h\<lparr>h_items := (h_items h)(p \<mapsto> f it)\<rparr>))"

definition set_next :: "ptr option \<Rightarrow> ptr option \<Rightarrow> k_heap \<Rightarrow> k_heap outcome" where
  "set_next p q h = (case p of None \<Rightarrow> Ok h | Some p \<Rightarrow> set_item p (\<lambda>it. it\<lparr>i_next := q\<rparr>) h)"

definition set_prev :: "ptr option \<Rightarrow> ptr option \<Rightarrow> k_heap \<Rightarrow> k_heap outcome" where
  "set_prev p q h = (case p of None \<Rightarrow> Ok h | Some p \<Rightarrow> set_item p (\<lambda>it. it\<lparr>i_prev := q\<rparr>) h)"

definition alloc_ok :: "k_heap \<Rightarrow> bool \<times> k_heap" where
  "alloc_ok h = (case h_mem h of [] \<Rightarrow> (True, h) | b # bs \<Rightarrow> (b, h\<lparr>h_mem := bs\<rparr>))"

section \<open>Allocation\<close>

text \<open>
  The links of the new array of \<open>n\<close> items in block \<open>b\<close>: first item 0, then the items
  between, then item \<open>n - 1\<close>, each store replacing an earlier one of the same item.
\<close>

definition new_items :: "nat \<Rightarrow> nat \<Rightarrow> int \<Rightarrow> ptr \<Rightarrow> k_item option" where
  "new_items name b n p =
     (let item0 = \<lparr>i_name = name, i_prev = None, i_next = Some (b, 1), i_data = []\<rparr>;
          mid = (\<lambda>i. \<lparr>i_name = name, i_prev = Some (b, i - 1), i_next = Some (b, i + 1), i_data = []\<rparr>);
          last = \<lparr>i_name = name, i_prev = Some (b, n - 2), i_next = None, i_data = []\<rparr>
      in if fst p \<noteq> b then None
         else if snd p = n - 1 then Some last
         else if snd p = 0 then Some item0
         else if 1 \<le> snd p \<and> snd p < n - 1 then Some (mid (snd p))
         else None)"

text \<open>
  The loop that gives each item its data follows \<open>next\<close> from the head; its bound is the
  number of items, \<open>fuel\<close>.
\<close>

fun alloc_data :: "nat \<Rightarrow> nat \<Rightarrow> ptr option \<Rightarrow> k_heap \<Rightarrow> ptr list \<Rightarrow> (k_heap \<times> ptr list) outcome" where
  "alloc_data fuel siz None h dm = Ok (h, dm)"
| "alloc_data 0 siz (Some p) h dm = Wild"
| "alloc_data (Suc fuel) siz (Some p) h dm =
     (let (ok, h) = alloc_ok h
      in if \<not> ok then Quit
      else let (ok, h) = alloc_ok h
      in if \<not> ok then Quit
      else outcome_bind (set_item p (\<lambda>it. it\<lparr>i_data := replicate siz 0\<rparr>) h) (\<lambda>h.
        outcome_bind (get_item h p) (\<lambda>it. alloc_data fuel siz (i_next it) h (dm @ [p]))))"

definition k_alloc_items :: "k_list \<Rightarrow> k_heap \<Rightarrow> (k_list \<times> k_heap) outcome" where
  "k_alloc_items l h =
     (if l_is_store l then Quit
      else if l_limit l > 0 \<and> l_total l \<ge> l_limit l then Ok (l, h)
      else
        let allocate = (if l_limit l > 0 \<and> l_total l + l_allocate l > l_limit l
                        then l_limit l - l_total l else l_allocate l);
            (ok, h) = alloc_ok h
        in if \<not> ok then Quit
        else let (ok, h) = alloc_ok h
        in if \<not> ok then Quit
        else
          let b = h_next h;
              h = h\<lparr>h_next := b + 1,
                    h_items := (\<lambda>p. if fst p = b then new_items (l_name l) b allocate p else h_items h p)\<rparr>;
              l = l\<lparr>l_item_memory := l_item_memory l @ [b], l_total := l_total l + allocate,
                    l_count := allocate, l_count_up := allocate, l_head := Some (b, 0)\<rparr>;
              l = (if l_do_tail l then l\<lparr>l_tail := Some (b, allocate - 1)\<rparr> else l)
          in outcome_bind (alloc_data (nat allocate) (l_siz l) (l_head l) h (l_data_memory l))
               (\<lambda>(h, dm). Ok (l\<lparr>l_data_memory := dm\<rparr>, h)))"

definition k_new_store :: "k_list \<Rightarrow> k_heap \<Rightarrow> (k_list \<times> k_heap) outcome" where
  "k_new_store l h =
     (let (ok, h) = alloc_ok h
      in if \<not> ok then Quit
      else Ok (\<lparr>l_name = l_name l, l_is_store = True, l_head = None, l_tail = None, l_siz = 0,
        l_total = 0, l_count = 0, l_count_up = 0, l_allocate = 0, l_limit = 0,
        l_do_tail = l_do_tail l, l_item_memory = [], l_data_memory = []\<rparr>, h))"

definition k_new_list ::
    "nat \<Rightarrow> nat \<Rightarrow> int \<Rightarrow> int \<Rightarrow> bool \<Rightarrow> k_heap \<Rightarrow> (k_list \<times> k_heap) outcome" where
  "k_new_list name siz allocate limit do_tail h =
     (if allocate < 1 then Quit
      else if limit < 0 then Quit
      else let (ok, h) = alloc_ok h
      in if \<not> ok then Quit
      else let (ok, h) = alloc_ok h
      in if \<not> ok then Quit
      else k_alloc_items \<lparr>l_name = name, l_is_store = False, l_head = None, l_tail = None,
        l_siz = siz, l_total = 0, l_count = 0, l_count_up = 0, l_allocate = allocate,
        l_limit = limit, l_do_tail = do_tail, l_item_memory = [], l_data_memory = []\<rparr> h)"

section \<open>Taking items out and putting them in\<close>

definition k_unlink_head :: "k_list \<Rightarrow> k_heap \<Rightarrow> (ptr option \<times> k_list \<times> k_heap) outcome" where
  "k_unlink_head l h =
     outcome_bind (if l_head l = None \<and> \<not> l_is_store l then k_alloc_items l h else Ok (l, h)) (\<lambda>(l, h).
       case l_head l of None \<Rightarrow> Ok (None, l, h)
       | Some item \<Rightarrow>
         outcome_bind (get_item h item) (\<lambda>it.
         let l = l\<lparr>l_head := i_next it\<rparr> in
         outcome_bind (set_prev (l_head l) None h) (\<lambda>h.
         let l = (if l_head l = None \<and> l_do_tail l then l\<lparr>l_tail := None\<rparr> else l) in
         outcome_bind (set_item item (\<lambda>it. it\<lparr>i_prev := None, i_next := None\<rparr>) h) (\<lambda>h.
         Ok (Some item, l\<lparr>l_count := l_count l - 1\<rparr>, h)))))"

definition k_unlink_head_zero :: "k_list \<Rightarrow> k_heap \<Rightarrow> (ptr option \<times> k_list \<times> k_heap) outcome" where
  "k_unlink_head_zero l h =
     outcome_bind (k_unlink_head l h) (\<lambda>(item, l, h).
       case item of None \<Rightarrow> Ok (None, l, h)
       | Some p \<Rightarrow> outcome_bind (set_item p (\<lambda>it. it\<lparr>i_data := memcpy_at (i_data it) 0 (replicate (l_siz l) 0)\<rparr>) h)
           (\<lambda>h. Ok (Some p, l, h)))"

definition k_unlink_tail :: "k_list \<Rightarrow> k_heap \<Rightarrow> (ptr option \<times> k_list \<times> k_heap) outcome" where
  "k_unlink_tail l h =
     (if \<not> l_do_tail l then Quit
      else case l_tail l of None \<Rightarrow> Ok (None, l, h)
      | Some item \<Rightarrow>
        outcome_bind (get_item h item) (\<lambda>it.
        let l = l\<lparr>l_tail := i_prev it\<rparr> in
        outcome_bind (set_next (l_tail l) None h) (\<lambda>h.
        let l = (if l_tail l = None then l\<lparr>l_head := None\<rparr> else l) in
        outcome_bind (set_item item (\<lambda>it. it\<lparr>i_prev := None, i_next := None\<rparr>) h) (\<lambda>h.
        Ok (Some item, l\<lparr>l_count := l_count l - 1\<rparr>, h)))))"

definition k_add_head :: "k_list \<Rightarrow> ptr \<Rightarrow> k_heap \<Rightarrow> (k_list \<times> k_heap) outcome" where
  "k_add_head l item h =
     outcome_bind (get_item h item) (\<lambda>it.
     if i_name it \<noteq> l_name l then Quit
     else
       outcome_bind (set_item item (\<lambda>it. it\<lparr>i_prev := None, i_next := l_head l\<rparr>) h) (\<lambda>h.
       outcome_bind (set_prev (l_head l) (Some item) h) (\<lambda>h.
       let l = l\<lparr>l_head := Some item\<rparr>;
           l = (if l_do_tail l \<and> l_tail l = None then l\<lparr>l_tail := Some item\<rparr> else l)
       in Ok (l\<lparr>l_count := l_count l + 1, l_count_up := l_count_up l + 1\<rparr>, h))))"

definition k_add_tail :: "k_list \<Rightarrow> ptr \<Rightarrow> k_heap \<Rightarrow> (k_list \<times> k_heap) outcome" where
  "k_add_tail l item h =
     outcome_bind (get_item h item) (\<lambda>it.
     if i_name it \<noteq> l_name l then Quit
     else if \<not> l_do_tail l then Quit
     else
       outcome_bind (set_item item (\<lambda>it. it\<lparr>i_prev := l_tail l, i_next := None\<rparr>) h) (\<lambda>h.
       outcome_bind (set_next (l_tail l) (Some item) h) (\<lambda>h.
       let l = l\<lparr>l_tail := Some item\<rparr>;
           l = (if l_head l = None then l\<lparr>l_head := Some item\<rparr> else l)
       in Ok (l\<lparr>l_count := l_count l + 1, l_count_up := l_count_up l + 1\<rparr>, h))))"

definition k_unlink_item :: "k_list \<Rightarrow> ptr \<Rightarrow> k_heap \<Rightarrow> (k_list \<times> k_heap) outcome" where
  "k_unlink_item l item h =
     outcome_bind (get_item h item) (\<lambda>it.
     outcome_bind (set_next (i_prev it) (i_next it) h) (\<lambda>h.
     outcome_bind (get_item h item) (\<lambda>it.
     outcome_bind (set_prev (i_next it) (i_prev it) h) (\<lambda>h.
     outcome_bind (get_item h item) (\<lambda>it.
     let l = (if l_head l = Some item then l\<lparr>l_head := i_next it\<rparr> else l);
         l = (if l_do_tail l \<and> l_tail l = Some item then l\<lparr>l_tail := i_prev it\<rparr> else l)
     in outcome_bind (set_item item (\<lambda>it. it\<lparr>i_prev := None, i_next := None\<rparr>) h) (\<lambda>h.
     Ok (l\<lparr>l_count := l_count l - 1\<rparr>, h)))))))"

text \<open>
  Freeing a list frees the item arrays it allocated, wherever their items are now, and the
  blocks of data; a store owns neither.
\<close>

definition k_free_list :: "k_list \<Rightarrow> k_heap \<Rightarrow> k_heap outcome" where
  "k_free_list l h =
     (if l_is_store l then Quit
      else Ok (h\<lparr>h_items := (\<lambda>p. if fst p \<in> set (l_item_memory l) then None else h_items h p)\<rparr>))"

definition k_free_store :: "k_list \<Rightarrow> k_heap \<Rightarrow> k_heap outcome" where
  "k_free_store l h = (if \<not> l_is_store l then Quit else Ok h)"

section \<open>What a list holds\<close>

definition first_ptr :: "'a list \<Rightarrow> 'a option" where
  "first_ptr xs = (case xs of [] \<Rightarrow> None | x # _ \<Rightarrow> Some x)"

definition last_ptr :: "'a list \<Rightarrow> 'a option" where
  "last_ptr xs = (if xs = [] then None else Some (last xs))"

text \<open>
  \<open>dll it p xs q\<close>: the items at \<open>xs\<close> form a chain whose first item has \<open>p\<close> before it
  and whose last has \<open>q\<close> after it.
\<close>

fun dll :: "(ptr \<Rightarrow> k_item option) \<Rightarrow> nat \<Rightarrow> ptr option \<Rightarrow> ptr list \<Rightarrow> ptr option \<Rightarrow> bool" where
  "dll it nm p [] q \<longleftrightarrow> True"
| "dll it nm p (x # xs) q \<longleftrightarrow> (\<exists>i. it x = Some i \<and> i_name i = nm \<and> i_prev i = p \<and>
     i_next i = (case xs of [] \<Rightarrow> q | y # _ \<Rightarrow> Some y) \<and> dll it nm (Some x) xs q)"

definition k_holds :: "k_heap \<Rightarrow> k_list \<Rightarrow> ptr list \<Rightarrow> bool" where
  "k_holds h l xs \<longleftrightarrow> distinct xs \<and> dll (h_items h) (l_name l) None xs None
     \<and> l_head l = first_ptr xs \<and> (l_do_tail l \<longrightarrow> l_tail l = last_ptr xs)
     \<and> l_count l = int (length xs)"

lemma first_ptr_simps [simp]: "first_ptr [] = None" "first_ptr (x # xs) = Some x"
  by (simp_all add: first_ptr_def)

lemma last_ptr_simps [simp]: "last_ptr [] = None" "last_ptr (xs @ [x]) = Some x"
  "last_ptr (x # y # xs) = last_ptr (y # xs)" "last_ptr [x] = Some x"
  by (simp_all add: last_ptr_def)

lemma first_ptr_snoc [simp]: "first_ptr (ys @ y # zs) = Some (hd (ys @ [y]))"
  by (cases ys) simp_all

lemma last_ptr_snoc [simp]: "last_ptr (ys @ [y, x]) = Some x"
  by (simp add: last_ptr_def)

lemma dll_append:
  "dll it nm p (xs @ ys) q \<longleftrightarrow>
   dll it nm p xs (case ys of [] \<Rightarrow> q | y # _ \<Rightarrow> Some y) \<and>
   dll it nm (if xs = [] then p else Some (last xs)) ys q"
proof (induction xs arbitrary: p)
  case Nil
  then show ?case by (cases ys) simp_all
next
  case (Cons x xs)
  then show ?case by (cases xs) auto
qed

lemma dll_frame: "x \<notin> set xs \<Longrightarrow> dll (it(x := v)) nm p xs q = dll it nm p xs q"
  by (induction xs arbitrary: p) auto

lemma dll_cong: "(\<And>x. x \<in> set xs \<Longrightarrow> it x = it' x) \<Longrightarrow> dll it nm p xs q = dll it' nm p xs q"
  by (induction xs arbitrary: p) auto

lemma dll_in: "dll it nm p xs q \<Longrightarrow> x \<in> set xs \<Longrightarrow> \<exists>i. it x = Some i \<and> i_name i = nm"
  by (induction xs arbitrary: p) auto

text \<open>Changing the outer links of a chain.\<close>

lemma dll_new_first:
  assumes "dll it nm p (x # xs) q" and "x \<notin> set xs" and "it x = Some i"
  shows "dll (it(x \<mapsto> i\<lparr>i_prev := p'\<rparr>)) nm p' (x # xs) q"
  using assms by (auto simp: dll_frame)

lemma dll_new_last:
  assumes "dll it nm p (xs @ [x]) q" and "x \<notin> set xs" and "it x = Some i"
  shows "dll (it(x \<mapsto> i\<lparr>i_next := q'\<rparr>)) nm p (xs @ [x]) q'"
  using assms by (auto simp: dll_append dll_frame)


lemmas k_steps = Let_def get_item_def set_item_def set_next_def set_prev_def

lemma unlink_head_nonempty:
  assumes "k_holds h l (x # xs)"
  shows "\<exists>l' h'. k_unlink_head l h = Ok (Some x, l', h') \<and> k_holds h' l' xs \<and>
    (\<forall>y. y \<notin> set (x # xs) \<longrightarrow> h_items h' y = h_items h y) \<and> l_name l' = l_name l \<and>
    l_do_tail l' = l_do_tail l \<and>
    (\<exists>i. h_items h x = Some i \<and> h_items h' x = Some (i\<lparr>i_prev := None, i_next := None\<rparr>))"
proof -
  note ok = assms [unfolded k_holds_def]
  then obtain i where i: "h_items h x = Some i" "i_name i = l_name l" "i_prev i = None"
      "i_next i = first_ptr xs" "dll (h_items h) (l_name l) (Some x) xs None"
    by (cases xs) auto
  show ?thesis
  proof (cases xs)
    case Nil
    with ok i show ?thesis by (simp add: k_unlink_head_def k_steps k_holds_def)
  next
    case (Cons y ys)
    with i(5) obtain j where j: "h_items h y = Some j" by auto
    have "dll ((h_items h)(y \<mapsto> j\<lparr>i_prev := None\<rparr>)) (l_name l) None (y # ys) None"
      using i(5) ok Cons j by (intro dll_new_first) auto
    then have "dll ((h_items h)(y \<mapsto> j\<lparr>i_prev := None\<rparr>, x \<mapsto> i\<lparr>i_prev := None, i_next := None\<rparr>))
        (l_name l) None (y # ys) None"
      using ok Cons by (subst dll_frame) auto
    with ok i Cons j show ?thesis
      by (auto simp: k_unlink_head_def k_steps k_holds_def simp del: dll.simps)
  qed
qed

lemma unlink_tail_nonempty:
  assumes "k_holds h l (xs @ [x])" and "l_do_tail l"
  shows "\<exists>l' h'. k_unlink_tail l h = Ok (Some x, l', h') \<and> k_holds h' l' xs \<and>
    (\<forall>y. y \<notin> set (xs @ [x]) \<longrightarrow> h_items h' y = h_items h y) \<and> l_name l' = l_name l \<and>
    l_do_tail l' = l_do_tail l \<and>
    (\<exists>i. h_items h x = Some i \<and> h_items h' x = Some (i\<lparr>i_prev := None, i_next := None\<rparr>))"
proof -
  note ok = assms(1) [unfolded k_holds_def]
  then obtain i where i: "h_items h x = Some i" "i_name i = l_name l" "i_prev i = last_ptr xs"
      "dll (h_items h) (l_name l) None xs (Some x)"
    by (auto simp: dll_append last_ptr_def)
  show ?thesis
  proof (cases xs rule: rev_cases)
    case Nil
    with ok i assms(2) show ?thesis by (simp add: k_unlink_tail_def k_steps k_holds_def)
  next
    case (snoc ys y)
    with i(4) obtain j where j: "h_items h y = Some j" by (auto simp: dll_append)
    have "dll ((h_items h)(y \<mapsto> j\<lparr>i_next := None\<rparr>)) (l_name l) None (ys @ [y]) None"
      using i(4) ok snoc j by (intro dll_new_last) auto
    then have d: "dll ((h_items h)(y \<mapsto> j\<lparr>i_next := None\<rparr>, x \<mapsto> i\<lparr>i_prev := None, i_next := None\<rparr>))
        (l_name l) None (ys @ [y]) None"
      using ok snoc by (subst dll_frame) auto
    with d ok i snoc j assms(2) show ?thesis
      by (auto simp: k_unlink_tail_def k_steps k_holds_def simp del: dll.simps)
  qed
qed

lemma add_head_holds:
  assumes "k_holds h l xs" and "x \<notin> set xs" and "h_items h x = Some i" and "i_name i = l_name l"
  shows "\<exists>l' h'. k_add_head l x h = Ok (l', h') \<and> k_holds h' l' (x # xs) \<and>
    (\<forall>y. y \<notin> set (x # xs) \<longrightarrow> h_items h' y = h_items h y) \<and> l_name l' = l_name l \<and>
    l_do_tail l' = l_do_tail l \<and> l_count_up l' = l_count_up l + 1"
proof -
  note ok = assms(1) [unfolded k_holds_def]
  show ?thesis
  proof (cases xs)
    case Nil
    with ok assms show ?thesis by (auto simp: k_add_head_def k_steps k_holds_def)
  next
    case (Cons y ys)
    with ok obtain j where j: "h_items h y = Some j" by auto
    let ?it = "(h_items h)(x \<mapsto> i\<lparr>i_prev := None, i_next := Some y\<rparr>)"
    have "dll ?it (l_name l) None (y # ys) None"
      using ok Cons assms(2) by (subst dll_frame) auto
    then have d: "dll (?it(y \<mapsto> j\<lparr>i_prev := Some x\<rparr>)) (l_name l) (Some x) (y # ys) None"
      using ok Cons j assms(2) by (intro dll_new_first) auto
    with ok Cons j assms show ?thesis
      by (auto simp: k_add_head_def k_steps k_holds_def last_ptr_def)
  qed
qed

lemma add_tail_holds:
  assumes "k_holds h l xs" and "x \<notin> set xs" and "h_items h x = Some i" and "i_name i = l_name l"
    and "l_do_tail l"
  shows "\<exists>l' h'. k_add_tail l x h = Ok (l', h') \<and> k_holds h' l' (xs @ [x]) \<and>
    (\<forall>y. y \<notin> set (x # xs) \<longrightarrow> h_items h' y = h_items h y) \<and> l_name l' = l_name l \<and>
    l_do_tail l' = l_do_tail l \<and> l_count_up l' = l_count_up l + 1"
proof -
  note ok = assms(1) [unfolded k_holds_def]
  show ?thesis
  proof (cases xs rule: rev_cases)
    case Nil
    with ok assms show ?thesis by (auto simp: k_add_tail_def k_steps k_holds_def)
  next
    case (snoc ys y)
    with ok obtain j where j: "h_items h y = Some j" by (auto simp: dll_append)
    let ?it = "(h_items h)(x \<mapsto> i\<lparr>i_prev := Some y, i_next := None\<rparr>)"
    have "dll ?it (l_name l) None (ys @ [y]) None"
      using ok snoc assms(2) by (subst dll_frame) auto
    then have d: "dll (?it(y \<mapsto> j\<lparr>i_next := Some x\<rparr>)) (l_name l) None (ys @ [y]) (Some x)"
      using ok snoc j assms(2) by (intro dll_new_last) auto
    have "y \<noteq> x" using snoc assms(2) by auto
    with d assms have "dll (?it(y \<mapsto> j\<lparr>i_next := Some x\<rparr>)) (l_name l) None ((ys @ [y]) @ [x]) None"
      by (subst dll_append) simp
    then show ?thesis using ok snoc j assms \<open>y \<noteq> x\<close>
      by (auto simp: k_add_tail_def k_steps k_holds_def simp del: dll.simps split: list.splits)
  qed
qed

lemma dll_change_next:
  assumes "dll it nm p xs q" and "xs \<noteq> []" and "distinct xs" and "it (last xs) = Some i"
  shows "dll (it(last xs \<mapsto> i\<lparr>i_next := q'\<rparr>)) nm p xs q'"
proof -
  obtain ys y where "xs = ys @ [y]" using assms(2) by (metis rev_exhaust)
  with assms dll_new_last [of it nm p ys y q i q'] show ?thesis by auto
qed

lemma dll_change_prev:
  assumes "dll it nm p xs q" and "xs \<noteq> []" and "distinct xs" and "it (hd xs) = Some i"
  shows "dll (it(hd xs \<mapsto> i\<lparr>i_prev := p'\<rparr>)) nm p' xs q"
proof -
  obtain y ys where "xs = y # ys" using assms(2) by (cases xs) auto
  with assms dll_new_first [of it nm p y ys q i p'] show ?thesis by auto
qed

text \<open>Linking a chain around an item: the chain before it and the chain after it.\<close>

lemma unlink_item_holds:
  assumes "k_holds h l (us @ x # vs)"
  shows "\<exists>l' h'. k_unlink_item l x h = Ok (l', h') \<and> k_holds h' l' (us @ vs) \<and>
    (\<forall>y. y \<notin> set (us @ x # vs) \<longrightarrow> h_items h' y = h_items h y) \<and> l_name l' = l_name l \<and>
    l_do_tail l' = l_do_tail l \<and>
    (\<exists>i. h_items h x = Some i \<and> h_items h' x = Some (i\<lparr>i_prev := None, i_next := None\<rparr>))"
proof -
  note ok = assms [unfolded k_holds_def]
  have dis: "distinct us" "distinct vs" "x \<notin> set us" "x \<notin> set vs" "set us \<inter> set vs = {}"
    using ok by auto
  have nv: "us \<noteq> [] \<Longrightarrow> last us \<notin> set vs" using dis(5) by (meson disjoint_iff last_in_set)
  have nu: "vs \<noteq> [] \<Longrightarrow> hd vs \<notin> set us" using dis(5) by (meson disjoint_iff hd_in_set)
  let ?p = "last_ptr us" and ?q = "first_ptr vs"
  obtain i where i: "h_items h x = Some i" "i_name i = l_name l" "i_prev i = ?p" "i_next i = ?q"
    and u: "dll (h_items h) (l_name l) None us (Some x)" and v: "dll (h_items h) (l_name l) (Some x) vs None"
    using ok by (cases vs) (auto simp: dll_append last_ptr_def)
  define h1 where "h1 = (if us = [] then h else
     h\<lparr>h_items := (h_items h)(last us \<mapsto> (the (h_items h (last us)))\<lparr>i_next := ?q\<rparr>)\<rparr>)"
  have ex_u: "us \<noteq> [] \<Longrightarrow> h_items h (last us) = Some (the (h_items h (last us)))"
    using dll_in [OF u] by (metis last_in_set option.sel)
  have s1: "set_next ?p ?q h = Ok h1"
  proof (cases "us = []")
    case False
    from ex_u [OF this] obtain j where "h_items h (last us) = Some j" by blast
    with False show ?thesis by (simp add: h1_def i set_next_def set_item_def last_ptr_def)
  qed (simp add: h1_def i set_next_def)
  have u1: "dll (h_items h1) (l_name l) None us ?q"
    using dll_change_next [OF u _ dis(1) ex_u] by (auto simp: h1_def)
  have x1: "h_items h1 x = Some i" using i(1) dis(3) last_in_set [of us] by (auto simp: h1_def)
  have v1: "dll (h_items h1) (l_name l) (Some x) vs None"
    using v nv by (auto simp: h1_def intro!: dll_frame [THEN iffD2])
  define h2 where "h2 = (if vs = [] then h1 else
     h1\<lparr>h_items := (h_items h1)(hd vs \<mapsto> (the (h_items h1 (hd vs)))\<lparr>i_prev := ?p\<rparr>)\<rparr>)"
  have ex_v: "vs \<noteq> [] \<Longrightarrow> h_items h1 (hd vs) = Some (the (h_items h1 (hd vs)))"
    using dll_in [OF v1] by (metis hd_in_set option.sel)
  have s2: "set_prev ?q ?p h1 = Ok h2"
  proof (cases "vs = []")
    case False
    from ex_v [OF this] obtain j where "h_items h1 (hd vs) = Some j" by blast
    moreover have "first_ptr vs = Some (hd vs)" using False by (cases vs) simp_all
    ultimately show ?thesis using False by (simp add: h2_def i set_prev_def set_item_def)
  qed (simp add: h2_def i set_prev_def)
  have v2: "dll (h_items h2) (l_name l) ?p vs None"
    using dll_change_prev [OF v1 _ dis(2) ex_v] by (auto simp: h2_def)
  have x2: "h_items h2 x = Some i" using x1 dis(4) hd_in_set [of vs] by (auto simp: h2_def)
  have u2: "dll (h_items h2) (l_name l) None us ?q"
    using u1 nu by (auto simp: h2_def intro!: dll_frame [THEN iffD2])
  let ?h3 = "h2\<lparr>h_items := (h_items h2)(x \<mapsto> i\<lparr>i_prev := None, i_next := None\<rparr>)\<rparr>"
  let ?l1 = "if l_head l = Some x then l\<lparr>l_head := ?q\<rparr> else l"
  let ?l2 = "if l_do_tail ?l1 \<and> l_tail ?l1 = Some x then ?l1\<lparr>l_tail := ?p\<rparr> else ?l1"
  have run: "k_unlink_item l x h = Ok (?l2\<lparr>l_count := l_count ?l2 - 1\<rparr>, ?h3)"
    by (simp add: k_unlink_item_def get_item_def i(1) s1 x1 s2 x2 set_item_def i(3,4) Let_def)
  have "dll (h_items h2) (l_name l) None (us @ vs) None"
    using u2 v2 by (cases vs) (simp_all add: dll_append last_ptr_def del: dll.simps)
  then have d: "dll (h_items ?h3) (l_name l) None (us @ vs) None"
    using dis by (simp add: dll_frame)
  have head: "l_head ?l2 = first_ptr (us @ vs)" using ok dis by (cases us) auto
  have tail: "l_do_tail ?l2 \<longrightarrow> l_tail ?l2 = last_ptr (us @ vs)"
    using ok dis by (cases vs rule: rev_cases) (auto simp: last_ptr_def)
  have "h_items ?h3 y = h_items h y" if "y \<notin> set (us @ x # vs)" for y
  proof -
    have "us \<noteq> [] \<longrightarrow> y \<noteq> last us" "vs \<noteq> [] \<longrightarrow> y \<noteq> hd vs" "y \<noteq> x"
      using that last_in_set [of us] hd_in_set [of vs] by (metis Un_iff set_append, metis Un_iff
          list.set_intros(2) set_append, simp)
    then show ?thesis by (simp add: h1_def h2_def)
  qed
  moreover have "k_holds ?h3 (?l2\<lparr>l_count := l_count ?l2 - 1\<rparr>) (us @ vs)"
    using d head tail ok dis by (auto simp: k_holds_def simp del: dll.simps)
  moreover have "l_name (?l2\<lparr>l_count := l_count ?l2 - 1\<rparr>) = l_name l"
    "l_do_tail (?l2\<lparr>l_count := l_count ?l2 - 1\<rparr>) = l_do_tail l" by simp_all
  moreover have "h_items ?h3 x = Some (i\<lparr>i_prev := None, i_next := None\<rparr>)" by simp
  ultimately show ?thesis using run i(1) by blast
qed

section \<open>New lists\<close>

lemma dll_new_items:
  assumes "2 \<le> n" and "\<And>i. 0 \<le> i \<Longrightarrow> i < int n \<Longrightarrow> it (b, i) = new_items nm b (int n) (b, i)"
    and "k < n"
  shows "dll it nm (if k = 0 then None else Some (b, int k - 1))
    (map (\<lambda>i. (b, int i)) [k..<n]) None"
  using assms(3)
proof (induction "n - k" arbitrary: k)
  case (Suc d)
  show ?case
  proof (cases "Suc k = n")
    case True
    then have "[k..<n] = [k]" "int n - 2 = int k - 1" by (auto simp: upt_conv_Cons)
    with True Suc.prems assms(1) assms(2) [of "int k"] show ?thesis
      by (simp add: new_items_def Let_def)
  next
    case False
    with Suc.prems have k: "Suc k < n" by simp
    with Suc have IH: "dll it nm (Some (b, int k)) (map (\<lambda>i. (b, int i)) [Suc k..<n]) None" by force
    have split: "[k..<n] = k # Suc k # [Suc (Suc k)..<n]" "[Suc k..<n] = Suc k # [Suc (Suc k)..<n]"
      using k by (simp_all add: upt_conv_Cons)
    show ?thesis using IH k assms(1) assms(2) [of "int k"] unfolding split
      by (auto simp: new_items_def Let_def add.commute)
  qed
qed simp

lemma alloc_data_ok:
  "dll (h_items h) nm p xs None \<Longrightarrow> distinct xs \<Longrightarrow> length xs \<le> fuel \<Longrightarrow> h_mem h = [] \<Longrightarrow>
   \<exists>h'. alloc_data fuel siz (first_ptr xs) h dm = Ok (h', dm @ xs) \<and>
     dll (h_items h') nm p xs None \<and> (\<forall>y. y \<notin> set xs \<longrightarrow> h_items h' y = h_items h y) \<and>
     (\<forall>x\<in>set xs. \<exists>i. h_items h' x = Some i \<and> i_data i = replicate siz 0)"
proof (induction xs arbitrary: h p fuel dm)
  case Nil
  then show ?case by (cases fuel) auto
next
  case (Cons x xs)
  then obtain k where k: "fuel = Suc k" "length xs \<le> k" by (cases fuel) auto
  from Cons.prems obtain i where i: "h_items h x = Some i" "i_name i = nm" "i_prev i = p"
    "i_next i = first_ptr xs" "dll (h_items h) nm (Some x) xs None"
    by (cases xs) auto
  let ?h = "h\<lparr>h_items := (h_items h)(x \<mapsto> i\<lparr>i_data := replicate siz 0\<rparr>)\<rparr>"
  have "dll (h_items ?h) nm (Some x) xs None" using i(5) Cons.prems(2) by (simp add: dll_frame)
  moreover have "distinct xs" "h_mem ?h = []" using Cons.prems by simp_all
  ultimately obtain h' where h': "alloc_data k siz (first_ptr xs) ?h (dm @ [x]) = Ok (h', (dm @ [x]) @ xs)"
    "dll (h_items h') nm (Some x) xs None" "\<forall>y. y \<notin> set xs \<longrightarrow> h_items h' y = h_items ?h y"
    "\<forall>x\<in>set xs. \<exists>i. h_items h' x = Some i \<and> i_data i = replicate siz 0"
    using Cons.IH [of ?h "Some x" k "dm @ [x]"] k(2) by blast
  have x: "h_items h' x = Some (i\<lparr>i_data := replicate siz 0\<rparr>)" using h'(3) [THEN spec, of x] Cons.prems(2) by simp
  have run: "alloc_data fuel siz (Some x) h dm = Ok (h', dm @ x # xs)"
    using h'(1) Cons.prems(4) i by (simp add: k(1) alloc_ok_def k_steps)
  show ?case using run x h' i by (cases xs) auto
qed

definition new_ptrs :: "nat \<Rightarrow> int \<Rightarrow> ptr list" where
  "new_ptrs b n = map (\<lambda>i. (b, int i)) [0..<nat n]"

lemma k_alloc_items_holds:
  assumes "\<not> l_is_store l" and "h_mem h = []" and "\<not> (0 < l_limit l \<and> l_limit l \<le> l_total l)"
    and n: "n = (if 0 < l_limit l \<and> l_limit l < l_total l + l_allocate l then l_limit l - l_total l
      else l_allocate l)" and "2 \<le> n"
  shows "\<exists>l' h'. k_alloc_items l h = Ok (l', h') \<and> k_holds h' l' (new_ptrs (h_next h) n) \<and>
    l_name l' = l_name l \<and> l_do_tail l' = l_do_tail l \<and> l_is_store l' = l_is_store l \<and> l_total l' = l_total l + n \<and>
    (\<forall>x\<in>set (new_ptrs (h_next h) n). \<exists>i. h_items h' x = Some i \<and> i_data i = replicate (l_siz l) 0)"
proof -
  let ?b = "h_next h"
  let ?h = "h\<lparr>h_next := ?b + 1, h_items :=
    (\<lambda>p. if fst p = ?b then new_items (l_name l) ?b n p else h_items h p)\<rparr>"
  let ?xs = "new_ptrs ?b n"
  have n2: "2 \<le> nat n" "int (nat n) = n" using assms(5) by simp_all
  have d: "dll (h_items ?h) (l_name l) None ?xs None"
    using dll_new_items [OF n2(1), of "h_items ?h" ?b "l_name l" 0] n2(2) assms(5)
    by (simp add: new_ptrs_def)
  have dis: "distinct ?xs" by (simp add: new_ptrs_def distinct_map inj_on_def)
  have fst: "first_ptr ?xs = Some (?b, 0)"
    using n2(1) by (simp add: new_ptrs_def upt_conv_Cons)
  have lst: "last_ptr ?xs = Some (?b, n - 1)"
  proof -
    have "?xs \<noteq> []" using n2(1) by (simp add: new_ptrs_def)
    moreover have "last [0..<nat n] = nat n - 1" using n2(1) by (intro last_upt) simp
    then have "last ?xs = (?b, n - 1)"
      using n2 assms(5) by (simp add: new_ptrs_def last_map of_nat_diff)
    ultimately show ?thesis by (simp add: last_ptr_def)
  qed
  have len: "int (length ?xs) = n" using assms(5) by (simp add: new_ptrs_def)
  have "length ?xs \<le> nat n" "h_mem ?h = []" using assms(2) by (simp_all add: new_ptrs_def)
  from alloc_data_ok [OF d dis this, of "l_siz l" "l_data_memory l"] obtain h' where
    h': "alloc_data (nat n) (l_siz l) (Some (?b, 0)) ?h (l_data_memory l) = Ok (h', l_data_memory l @ ?xs)"
    "dll (h_items h') (l_name l) None ?xs None"
    "\<forall>x\<in>set ?xs. \<exists>i. h_items h' x = Some i \<and> i_data i = replicate (l_siz l) 0"
    unfolding fst by blast
  let ?l = "l\<lparr>l_item_memory := l_item_memory l @ [?b], l_total := l_total l + n, l_count := n,
    l_count_up := n, l_head := Some (?b, 0)\<rparr>"
  let ?l1 = "if l_do_tail ?l then ?l\<lparr>l_tail := Some (?b, n - 1)\<rparr> else ?l"
  have "k_alloc_items l h = Ok (?l1\<lparr>l_data_memory := l_data_memory l @ ?xs\<rparr>, h')"
    using assms(1-3) h'(1) unfolding k_alloc_items_def n [symmetric] Let_def
    by (auto simp: alloc_ok_def)
  moreover have "k_holds h' (?l1\<lparr>l_data_memory := l_data_memory l @ ?xs\<rparr>) ?xs"
    using dis h'(2) fst lst len by (simp add: k_holds_def)
  ultimately show ?thesis using h'(3) by auto
qed

section \<open>Properties of the item lists\<close>

text \<open>
  One item pushed at the tail or one popped from the head of a store that tracks its tail.
\<close>

datatype k_event = K_push ptr | K_pop

fun k_event_step :: "k_event \<Rightarrow> k_list \<times> k_heap \<Rightarrow> (ptr list \<times> (k_list \<times> k_heap)) option" where
  "k_event_step (K_push p) (l, h) = (case k_add_tail l p h of Ok s \<Rightarrow> Some ([], s) | _ \<Rightarrow> None)"
| "k_event_step K_pop (l, h) = (case k_unlink_head l h of
     Ok (p, s) \<Rightarrow> Some ((case p of None \<Rightarrow> [] | Some p \<Rightarrow> [p]), s) | _ \<Rightarrow> None)"

fun k_walk :: "nat \<Rightarrow> ptr option \<Rightarrow> k_heap \<Rightarrow> ptr list" where
  "k_walk 0 p h = []"
| "k_walk (Suc n) None h = []"
| "k_walk (Suc n) (Some p) h = p # k_walk n (Option.bind (h_items h p) i_next) h"

definition k_elems :: "k_list \<times> k_heap \<Rightarrow> ptr list" where
  "k_elems s = k_walk (nat (l_count (fst s))) (l_head (fst s)) (snd s)"

definition k_store_inv :: "k_list \<times> k_heap \<Rightarrow> bool" where
  "k_store_inv s \<longleftrightarrow> (\<exists>xs. k_holds (snd s) (fst s) xs) \<and> l_is_store (fst s) \<and> l_do_tail (fst s)"

fun k_event_ok :: "k_event \<Rightarrow> k_list \<times> k_heap \<Rightarrow> bool" where
  "k_event_ok (K_push p) s \<longleftrightarrow> p \<notin> set (k_elems s) \<and>
     (\<exists>i. h_items (snd s) p = Some i \<and> i_name i = l_name (fst s))"
| "k_event_ok K_pop s \<longleftrightarrow> True"

fun k_event_added :: "k_event \<Rightarrow> k_list \<times> k_heap \<Rightarrow> ptr list" where
  "k_event_added (K_push p) s = [p]"
| "k_event_added K_pop s = []"

lemma k_walk_dll: "dll (h_items h) nm p xs None \<Longrightarrow> k_walk (length xs) (first_ptr xs) h = xs"
proof (induction xs arbitrary: p)
  case (Cons x xs)
  then show ?case by (cases xs) auto
qed simp

lemma k_elems_holds: "k_holds h l xs \<Longrightarrow> k_elems (l, h) = xs"
  by (auto simp: k_elems_def k_holds_def k_walk_dll)

lemma unlink_head_store: "k_unlink_head l h = Ok (p, l', h') \<Longrightarrow> l_is_store l \<Longrightarrow> l_is_store l'"
  by (auto simp: k_unlink_head_def k_steps split: option.splits if_splits)

lemma add_tail_store: "k_add_tail l p h = Ok (l', h') \<Longrightarrow> l_is_store l' = l_is_store l"
  by (auto simp: k_add_tail_def k_steps split: option.splits if_splits)

lemma k_event_conserve:
  assumes "k_store_inv s" and "k_event_ok e s"
  shows "\<exists>out s'. k_event_step e s = Some (out, s') \<and> k_store_inv s' \<and>
    out @ k_elems s' = k_elems s @ k_event_added e s"
proof -
  obtain l h where s: "s = (l, h)" by fastforce
  from assms(1) obtain xs where xs: "k_holds h l xs" and st: "l_is_store l" "l_do_tail l"
    by (auto simp: s k_store_inv_def)
  note el = k_elems_holds [OF xs]
  show ?thesis
  proof (cases e)
    case (K_push p)
    with assms(2) el obtain i where "p \<notin> set xs" "h_items h p = Some i" "i_name i = l_name l"
      by (auto simp: s)
    from add_tail_holds [OF xs this st(2)] obtain l' h' where
      r: "k_add_tail l p h = Ok (l', h')" "k_holds h' l' (xs @ [p])" "l_do_tail l' = l_do_tail l" by blast
    with st add_tail_store [OF r(1)] K_push k_elems_holds [OF r(2)] show ?thesis
      by (auto simp: s el k_store_inv_def)
  next
    case K_pop
    show ?thesis
    proof (cases xs)
      case Nil
      then have "k_unlink_head l h = Ok (None, l, h)"
        using xs st by (simp add: k_unlink_head_def k_holds_def)
      with K_pop assms(1) show ?thesis by (simp add: s)
    next
      case (Cons x ys)
      from unlink_head_nonempty [OF xs [unfolded Cons]] obtain l' h' where
        r: "k_unlink_head l h = Ok (Some x, l', h')" "k_holds h' l' ys" "l_do_tail l' = l_do_tail l"
        by blast
      with st unlink_head_store [OF r(1)] K_pop k_elems_holds [OF r(2)] show ?thesis
        by (auto simp: s el Cons k_store_inv_def)
    qed
  qed
qed

interpretation item_queue: fifo k_store_inv k_elems k_event_ok k_event_step k_event_added
  by unfold_locales (rule k_event_conserve)

text \<open>a store used as a queue never follows a bad pointer and never loses, duplicates or
  reorders an item: the items popped, followed by those left, are those it held followed by
  those pushed.\<close>

theorem item_store_is_queue:
  assumes "k_store_inv s" and "all_ok k_event_step k_event_ok es s"
  shows "\<exists>outs s'. run_events k_event_step es s = Some (outs, s') \<and> k_store_inv s' \<and>
    outs @ k_elems s' = k_elems s @ all_added k_event_step k_event_added es s"
  using item_queue.run_conserve [OF assms] .

text \<open>A list of two items with one of them moved to a store, for the witnesses.\<close>

definition demo_heap :: k_heap where
  "demo_heap = \<lparr>h_items = Map.empty, h_next = 1, h_mem = []\<rparr>"

definition demo_store :: "k_list \<times> k_heap" where
  "demo_store = (\<lparr>l_name = 9, l_is_store = True, l_head = None, l_tail = None, l_siz = 0, l_total = 0,
     l_count = 0, l_count_up = 0, l_allocate = 0, l_limit = 0, l_do_tail = True,
     l_item_memory = [], l_data_memory = []\<rparr>,
   \<lparr>h_items = [(1, 0) \<mapsto> \<lparr>i_name = 9, i_prev = None, i_next = None, i_data = [1, 2]\<rparr>,
      (1, 1) \<mapsto> \<lparr>i_name = 9, i_prev = None, i_next = None, i_data = [3, 4]\<rparr>], h_next = 2, h_mem = []\<rparr>)"

lemma demo_store_inv: "k_store_inv demo_store"
  by (auto simp: k_store_inv_def demo_store_def k_holds_def intro!: exI [of _ "[]"])

theorem item_store_is_queue_witness:
  "\<exists>outs s'. run_events k_event_step [K_push (1, 1), K_push (1, 0), K_pop] demo_store = Some (outs, s') \<and>
     outs @ k_elems s' = k_elems demo_store @
       all_added k_event_step k_event_added [K_push (1, 1), K_push (1, 0), K_pop] demo_store"
proof -
  have "all_ok k_event_step k_event_ok [K_push (1, 1), K_push (1, 0), K_pop] demo_store"
    by (simp add: demo_store_def k_elems_def k_add_tail_def k_steps k_unlink_head_def)
  from item_store_is_queue [OF demo_store_inv this] show ?thesis by blast
qed

text \<open>unlinking any item of a list, wherever it stands, leaves exactly the other items in
  their order with head, tail and count right, isolates the item, and touches no item outside
  the list.\<close>

theorem unlink_item_refines:
  assumes "k_holds h l (us @ x # vs)"
  shows "\<exists>l' h' i. k_unlink_item l x h = Ok (l', h') \<and> k_holds h' l' (us @ vs) \<and>
    h_items h' x = Some i \<and> i_prev i = None \<and> i_next i = None \<and>
    (\<forall>y. y \<notin> set (us @ x # vs) \<longrightarrow> h_items h' y = h_items h y)"
  using unlink_item_holds [OF assms] by fastforce

theorem unlink_item_refines_witness:
  "\<exists>l' h'. k_unlink_item (fst demo_store\<lparr>l_head := Some (1, 0), l_tail := Some (1, 0), l_count := 1\<rparr>) (1, 0)
      (snd demo_store) = Ok (l', h') \<and> k_holds h' l' []"
proof -
  have "k_holds (snd demo_store) (fst demo_store\<lparr>l_head := Some (1, 0), l_tail := Some (1, 0), l_count := 1\<rparr>)
      ([] @ (1, 0) # [])"
    by (simp add: demo_store_def k_holds_def)
  from unlink_item_refines [OF this] show ?thesis by auto
qed

text \<open>A new list with room for at least two items holds the whole first array in order,
  every item with zeroed data of the list's size.\<close>

theorem new_list_holds:
  assumes "h_mem h = []" and "2 \<le> allocate" and "limit = 0 \<or> 2 \<le> limit"
    and n: "n = (if 0 < limit \<and> limit < allocate then limit else allocate)"
  shows "\<exists>l h'. k_new_list nm siz allocate limit do_tail h = Ok (l, h') \<and>
    k_holds h' l (new_ptrs (h_next h) n) \<and> l_count l = n \<and> l_total l = n \<and>
    (\<forall>p\<in>set (new_ptrs (h_next h) n). \<exists>i. h_items h' p = Some i \<and> i_data i = replicate siz 0)"
proof -
  let ?l = "\<lparr>l_name = nm, l_is_store = False, l_head = None, l_tail = None,
        l_siz = siz, l_total = 0, l_count = 0, l_count_up = 0, l_allocate = allocate,
        l_limit = limit, l_do_tail = do_tail, l_item_memory = [], l_data_memory = []\<rparr>"
  have "2 \<le> n" using assms(2,3) by (auto simp: n)
  then obtain l' h' where 1: "k_alloc_items ?l h = Ok (l', h')" "k_holds h' l' (new_ptrs (h_next h) n)"
    "l_total l' = n" "\<forall>x\<in>set (new_ptrs (h_next h) n). \<exists>i. h_items h' x = Some i \<and> i_data i = replicate siz 0"
  proof -
    have "\<not> l_is_store ?l" "\<not> (0 < l_limit ?l \<and> l_limit ?l \<le> l_total ?l)"
      "n = (if 0 < l_limit ?l \<and> l_limit ?l < l_total ?l + l_allocate ?l then l_limit ?l - l_total ?l
        else l_allocate ?l)" by (simp_all add: n)
    from k_alloc_items_holds [OF this(1) assms(1) this(2,3) \<open>2 \<le> n\<close>] show ?thesis
      using that by auto
  qed
  have "k_new_list nm siz allocate limit do_tail h = k_alloc_items ?l h"
    using assms by (auto simp: k_new_list_def alloc_ok_def)
  moreover have "l_count l' = n" using 1(2) \<open>2 \<le> n\<close> by (simp add: k_holds_def new_ptrs_def)
  ultimately show ?thesis using 1 by auto
qed

theorem new_list_holds_witness:
  "\<exists>l h'. k_new_list 9 4 3 0 True demo_heap = Ok (l, h') \<and> k_holds h' l [(1, 0), (1, 1), (1, 2)]"
  using new_list_holds [of demo_heap 3 0 3 9 4 True]
  by (auto simp: demo_heap_def new_ptrs_def upt_rec)

text \<open>a list created with one item per allocation is broken from the start: its only item
  has the address before the array as its predecessor, and taking it off the tail or unlinking
  it follows that pointer.\<close>

theorem single_item_list_wild:
  assumes "h_mem h = []" and "0 \<le> limit"
  shows "\<exists>l h'. k_new_list nm siz 1 limit True h = Ok (l, h') \<and>
    l_head l = Some (h_next h, 0) \<and>
    k_unlink_tail l h' = Wild \<and> k_unlink_item l (h_next h, 0) h' = Wild"
proof -
  have "limit = 0 \<or> 1 \<le> limit" using assms(2) by linarith
  then show ?thesis using assms(1)
    by (elim disjE) (simp_all add: k_new_list_def alloc_ok_def k_alloc_items_def Let_def new_items_def
        k_steps k_unlink_tail_def k_unlink_item_def)
qed

theorem single_item_list_wild_witness:
  "\<exists>l h'. k_new_list 9 4 1 5 True demo_heap = Ok (l, h') \<and> k_unlink_tail l h' = Wild"
  using single_item_list_wild [of demo_heap 5 9 4] by (auto simp: demo_heap_def)

text \<open>The zeroing variant of unlinking, used on a store, zeroes nothing: a store's item
  size is 0, so the item comes off with its old data.\<close>

theorem store_unlink_zero_keeps_data:
  assumes "k_new_store l0 h0 = Ok (s, h1)" and "k_add_head s p h = Ok (s', h')"
    and "h_items h p = Some i" and "h_mem h0 = []"
  shows "\<exists>s'' h''. k_unlink_head_zero s' h' = Ok (Some p, s'', h'') \<and>
    (\<exists>j. h_items h'' p = Some j \<and> i_data j = i_data i)"
  using assms
  by (auto simp: k_new_store_def alloc_ok_def k_add_head_def k_steps k_unlink_head_zero_def
      k_unlink_head_def memcpy_at_def split: if_splits)

theorem store_unlink_zero_keeps_data_witness:
  "\<exists>s s' h'. k_new_store (fst demo_store) demo_heap = Ok (s, demo_heap) \<and>
     k_add_head s (1, 0) (snd demo_store) = Ok (s', h') \<and>
     (\<exists>s'' h'' j. k_unlink_head_zero s' h' = Ok (Some (1, 0), s'', h'') \<and>
        h_items h'' (1, 0) = Some j \<and> i_data j = [1, 2])"
proof -
  obtain s where s: "k_new_store (fst demo_store) demo_heap = Ok (s, demo_heap)"
    by (simp add: k_new_store_def alloc_ok_def demo_heap_def)
  have nm: "l_name s = 9" using s by (auto simp: k_new_store_def alloc_ok_def demo_heap_def demo_store_def)
  have hd: "l_head s = None" using s by (auto simp: k_new_store_def alloc_ok_def demo_heap_def)
  obtain s' h' where a: "k_add_head s (1, 0) (snd demo_store) = Ok (s', h')"
    by (simp add: k_add_head_def k_steps demo_store_def nm hd)
  have i: "h_items (snd demo_store) (1, 0) = Some \<lparr>i_name = 9, i_prev = None, i_next = None, i_data = [1, 2]\<rparr>"
    by (simp add: demo_store_def)
  have m: "h_mem demo_heap = []" by (simp add: demo_heap_def)
  from store_unlink_zero_keeps_data [OF s a i m] s a show ?thesis by auto
qed

end
