(* ===== verification/Work_Hash.thy ===== *)
theory Work_Hash
  imports Sha2
begin

text \<open>
  How the miner hashes: the word-order helpers of \<open>src/cgminer/miner.h\<close>
  (\<open>swap256\<close>, \<open>swab256\<close>, \<open>flip12\<close> to \<open>flip128\<close>), and from
  \<open>src/cgminer/cgminer.c\<close> the double hash \<open>gen_hash\<close>, the header hash
  \<open>regen_hash\<close>, \<open>calc_midstate\<close>, and the merkle branch of a block template
  (\<open>gbt_merkle_bins\<close>) with the root computed from it (\<open>__gbt_merkleroot\<close>). Buffers are
  byte lists; the machine is little endian. A local context starts with arbitrary
  contents, which the model takes as an argument.
\<close>

section \<open>Word order\<close>

definition swab32 :: "u32 \<Rightarrow> u32" where
  "swab32 v = be32_word (le32_bytes v)"

definition load32 :: "u8 list \<Rightarrow> nat \<Rightarrow> u32" where
  "load32 bs i = le32_word (sub_list bs (4 * i) 4)"

definition store32 :: "u8 list \<Rightarrow> nat \<Rightarrow> u32 \<Rightarrow> u8 list" where
  "store32 bs i w = memcpy_at bs (4 * i) (le32_bytes w)"

definition swap256 :: "u8 list \<Rightarrow> u8 list \<Rightarrow> u8 list" where
  "swap256 dest src =
     (let dest = store32 dest 0 (load32 src 7);
          dest = store32 dest 1 (load32 src 6);
          dest = store32 dest 2 (load32 src 5);
          dest = store32 dest 3 (load32 src 4);
          dest = store32 dest 4 (load32 src 3);
          dest = store32 dest 5 (load32 src 2);
          dest = store32 dest 6 (load32 src 1);
          dest = store32 dest 7 (load32 src 0)
      in dest)"

definition swab256 :: "u8 list \<Rightarrow> u8 list \<Rightarrow> u8 list" where
  "swab256 dest src =
     (let dest = store32 dest 0 (swab32 (load32 src 7));
          dest = store32 dest 1 (swab32 (load32 src 6));
          dest = store32 dest 2 (swab32 (load32 src 5));
          dest = store32 dest 3 (swab32 (load32 src 4));
          dest = store32 dest 4 (swab32 (load32 src 3));
          dest = store32 dest 5 (swab32 (load32 src 2));
          dest = store32 dest 6 (swab32 (load32 src 1));
          dest = store32 dest 7 (swab32 (load32 src 0))
      in dest)"

definition flip_words :: "nat \<Rightarrow> u8 list \<Rightarrow> u8 list \<Rightarrow> u8 list" where
  "flip_words n dest src = foldl (\<lambda>dest i. store32 dest i (swab32 (load32 src i))) dest [0..<n]"

definition flip12 :: "u8 list \<Rightarrow> u8 list \<Rightarrow> u8 list" where
  "flip12 = flip_words 3"

definition flip32 :: "u8 list \<Rightarrow> u8 list \<Rightarrow> u8 list" where
  "flip32 = flip_words 8"

definition flip64 :: "u8 list \<Rightarrow> u8 list \<Rightarrow> u8 list" where
  "flip64 = flip_words 16"

definition flip80 :: "u8 list \<Rightarrow> u8 list \<Rightarrow> u8 list" where
  "flip80 = flip_words 20"

definition flip128 :: "u8 list \<Rightarrow> u8 list \<Rightarrow> u8 list" where
  "flip128 = flip_words 32"

text \<open>The reference: every group of four bytes reversed.\<close>

fun rev_words :: "u8 list \<Rightarrow> u8 list" where
  "rev_words (a # b # c # d # bs) = d # c # b # a # rev_words bs"
| "rev_words bs = bs"

lemma store_swab: "store32 dest i (swab32 (load32 src i)) =
    memcpy_at dest (4 * i) (rev (le32_bytes (load32 src i)))"
proof -
  have "le32_bytes (be32_word (le32_bytes w)) = rev (le32_bytes w)" for w
    using be32_bytes_word [of "le32_bytes w"] rev_be32_bytes [of "be32_word (le32_bytes w)"]
    by (simp add: layout)
  then show ?thesis by (simp only: store32_def swab32_def)
qed

lemma length_rev_words [layout]: "length (rev_words bs) = length bs"
  by (induction bs rule: rev_words.induct) simp_all

lemma rev_words_append:
  "length xs mod 4 = 0 \<Longrightarrow> rev_words (xs @ ys) = rev_words xs @ rev_words ys"
proof (induction xs rule: rev_words.induct)
  case (1 a b c d bs)
  then have "length bs mod 4 = 0" by simp
  with 1 show ?case by simp
qed simp_all

lemma rev_words_rev_words: "rev_words (rev_words bs) = bs"
  by (induction bs rule: rev_words.induct) simp_all

lemma rev_words_4: "length bs = 4 \<Longrightarrow> rev_words bs = rev bs"
  using list4_cases [of bs] by auto

lemma load_bytes: "4 * i + 4 \<le> length src \<Longrightarrow> le32_bytes (load32 src i) = sub_list src (4 * i) 4"
  by (simp add: load32_def le32_bytes_word layout)

lemma flip_words_prefix:
  assumes "4 * n \<le> length src" and "4 * n \<le> length dest"
  shows "flip_words n dest src = rev_words (take (4 * n) src) @ drop (4 * n) dest"
  using assms
proof (induction n)
  case 0
  then show ?case by (simp add: flip_words_def)
next
  case (Suc n)
  have "flip_words (Suc n) dest src =
      store32 (flip_words n dest src) n (swab32 (load32 src n))" by (simp add: flip_words_def)
  also have "\<dots> = memcpy_at (rev_words (take (4 * n) src) @ drop (4 * n) dest) (4 * n)
      (rev (sub_list src (4 * n) 4))"
    using Suc by (simp add: store_swab load_bytes)
  also have "\<dots> = (rev_words (take (4 * n) src) @ rev (sub_list src (4 * n) 4)) @ drop (4 * n + 4) dest"
    using Suc.prems by (simp add: memcpy_at_def layout add.commute)
  also have "rev_words (take (4 * n) src) @ rev (sub_list src (4 * n) 4) =
      rev_words (take (4 * n) src @ sub_list src (4 * n) 4)"
    using Suc.prems by (subst rev_words_append) (simp_all add: rev_words_4 layout)
  also have "take (4 * n) src @ sub_list src (4 * n) 4 = take (4 * Suc n) src"
    by (simp only: sub_list_def take_add [symmetric]) (simp add: add.commute)
  finally show ?case by (simp add: add.commute)
qed

lemma flip_whole:
  assumes "length src = 4 * n" and "length dest = 4 * n"
  shows "flip_words n dest src = rev_words src"
  using flip_words_prefix [of n src dest] assms by simp

section \<open>Double hashing\<close>

definition gen_hash :: "sha256_ctx \<Rightarrow> u8 list \<Rightarrow> u8 list \<Rightarrow> u8 list \<Rightarrow> u8 list" where
  "gen_hash ctx hash1 data hash =
     (let hash1 = cg_sha256 ctx data hash1 in cg_sha256 ctx hash1 hash)"

definition regen_hash :: "sha256_ctx \<Rightarrow> u8 list \<Rightarrow> u8 list \<Rightarrow> u8 list \<Rightarrow> u8 list \<Rightarrow> u8 list" where
  "regen_hash ctx swap hash1 data hash =
     (let swap = flip80 swap data;
          hash1 = cg_sha256 ctx (take 80 swap) hash1
      in cg_sha256 ctx (take 32 hash1) hash)"

definition calc_midstate :: "sha256_ctx \<Rightarrow> u8 list \<Rightarrow> u8 list \<Rightarrow> u8 list \<Rightarrow> u8 list" where
  "calc_midstate ctx data64 data midstate =
     (let data64 = flip64 data64 data;
          ctx = cg_sha256_update (cg_sha256_init ctx) data64;
          midstate = memcpy_at midstate 0 (concat (map le32_bytes (cg_h ctx)))
      in midstate)"

definition dsha :: "u8 list \<Rightarrow> u8 list" where
  "dsha m = sha256_spec (sha256_spec m)"

lemma length_dsha [layout]: "length (dsha m) = 32"
  by (simp add: dsha_def layout)

lemma gen_hash_dsha:
  assumes "length (cg_block ctx) = 128" and "length hash1 = 32" and "length hash = 32"
    and "length data < 2 ^ 29"
  shows "gen_hash ctx hash1 data hash = dsha data"
  using assms by (simp add: gen_hash_def cg_sha256_is_spec layout dsha_def)

section \<open>The merkle branch\<close>

text \<open>
  Slot \<open>k\<close> of \<open>hashes\<close> is \<open>hashbin + 32 * k\<close>; slot 0 stands for the coinbase, whose hash
  is not known yet. The pairs are hashed in place, in increasing order.
\<close>

definition pair_level :: "(u8 list \<Rightarrow> u8 list) \<Rightarrow> u8 list list \<Rightarrow> u8 list list" where
  "pair_level H hashes =
     foldl (\<lambda>hs k. hs[k := H (hs ! (2 * k) @ hs ! (2 * k + 1))]) hashes
       [1..<(length hashes + 1) div 2]"

lemma length_pair_level [simp]: "length (pair_level H hashes) = length hashes"
proof -
  have "length (foldl (\<lambda>hs k. hs[k := f hs k]) hs ks) = length hs" for f and hs :: "'b list" and ks
    by (induction ks arbitrary: hs) simp_all
  then show ?thesis by (simp add: pair_level_def)
qed

function merkle_loop :: "(u8 list \<Rightarrow> u8 list) \<Rightarrow> u8 list list \<Rightarrow> u8 list list \<Rightarrow> u8 list list" where
  "merkle_loop H hashes merklebin =
     (if length hashes \<le> 1 then merklebin
      else
        let merklebin = merklebin @ [hashes ! 1];
            hashes = (if odd (length hashes) then hashes @ [last hashes] else hashes);
            hashes = pair_level H hashes
        in merkle_loop H (take (length hashes div 2) hashes) merklebin)"
  by pat_completeness auto
termination
  by (relation "measure (\<lambda>(H, hashes, mb). length hashes)") (auto, presburger)

declare merkle_loop.simps [simp del]

definition merkleroot :: "(u8 list \<Rightarrow> u8 list) \<Rightarrow> u8 list \<Rightarrow> u8 list list \<Rightarrow> u8 list" where
  "merkleroot H coinbase merklebin = foldl (\<lambda>sha bin. H (sha @ bin)) (H coinbase) merklebin"

text \<open>The reference: the merkle tree over all leaves, an odd level repeating its last node.\<close>

fun pairs :: "(u8 list \<Rightarrow> u8 list) \<Rightarrow> u8 list list \<Rightarrow> u8 list list" where
  "pairs H (a # b # hs) = H (a @ b) # pairs H hs"
| "pairs H [a] = [H (a @ a)]"
| "pairs H [] = []"

lemma length_pairs: "length (pairs H hs) = (length hs + 1) div 2"
  by (induction H hs rule: pairs.induct) simp_all

function merkle_tree :: "(u8 list \<Rightarrow> u8 list) \<Rightarrow> u8 list list \<Rightarrow> u8 list" where
  "merkle_tree H hs = (if length hs \<le> 1 then hd hs else merkle_tree H (pairs H hs))"
  by pat_completeness auto
termination
  by (relation "measure (\<lambda>(H, hs). length hs)") (auto simp: length_pairs)

declare merkle_tree.simps [simp del]

lemma nth_pairs:
  "k < length hs div 2 \<Longrightarrow> pairs H hs ! k = H (hs ! (2 * k) @ hs ! (2 * k + 1))"
  by (induction H hs arbitrary: k rule: pairs.induct) (auto simp: nth_Cons split: nat.splits)

lemma pairs_odd: "odd (length hs) \<Longrightarrow> pairs H (hs @ [last hs]) = pairs H hs"
  by (induction H hs rule: pairs.induct) auto

lemma pair_level_nth:
  assumes "m \<le> (length hs + 1) div 2" and "even (length hs)" and "k < length hs"
  shows "foldl (\<lambda>hs k. hs[k := H (hs ! (2 * k) @ hs ! (2 * k + 1))]) hs [1..<m] ! k =
    (if 1 \<le> k \<and> k < m then H (hs ! (2 * k) @ hs ! (2 * k + 1)) else hs ! k)"
  using assms(1,3)
proof (induction m arbitrary: k)
  case (Suc m)
  let ?f = "\<lambda>m. foldl (\<lambda>hs k. hs[k := H (hs ! (2 * k) @ hs ! (2 * k + 1))]) hs [1..<m]"
  have len: "length (?f m) = length hs"
  proof -
    have "length (foldl (\<lambda>hs k. hs[k := f hs k]) hs ks) = length hs" for f and hs :: "'b list" and ks
      by (induction ks arbitrary: hs) simp_all
    then show ?thesis .
  qed
  show ?case
  proof (cases "m = 0")
    case False
    then have m: "2 * m + 1 < length hs" using Suc.prems(1) assms(2) by presburger
    have "?f (Suc m) = (?f m)[m := H (?f m ! (2 * m) @ ?f m ! (2 * m + 1))]" using False by simp
    moreover have "?f m ! (2 * m) = hs ! (2 * m)" "?f m ! (2 * m + 1) = hs ! (2 * m + 1)"
      using Suc.IH [of "2 * m"] Suc.IH [of "2 * m + 1"] Suc.prems(1) m False by auto
    ultimately show ?thesis using Suc.IH [of k] Suc.prems len m False by (auto simp: nth_list_update)
  qed auto
qed simp

lemma merkle_level:
  assumes "even (length hs)" and "2 \<le> length hs"
  shows "pairs H (h0 # tl hs) = H (h0 @ hs ! 1) # tl (take (length hs div 2) (pair_level H hs))"
proof (rule nth_equalityI)
  show len: "length (pairs H (h0 # tl hs)) =
      length (H (h0 @ hs ! 1) # tl (take (length hs div 2) (pair_level H hs)))"
    using assms by (simp add: length_pairs) presburger
  fix k assume "k < length (pairs H (h0 # tl hs))"
  with assms have k: "k < length hs div 2" by (simp add: length_pairs) presburger
  have l: "length (h0 # tl hs) = length hs" using assms(2) by simp
  have A: "pairs H (h0 # tl hs) ! k = H ((h0 # tl hs) ! (2 * k) @ (h0 # tl hs) ! (2 * k + 1))"
    using k l by (intro nth_pairs) simp
  have e: "(h0 # tl hs) ! i = (if i = 0 then h0 else hs ! i)" if "i < length hs" for i
    using that by (cases i) (simp_all add: nth_tl)
  have k2: "2 * k + 1 < length hs" using k by linarith
  then have B: "(h0 # tl hs) ! (2 * k) = (if k = 0 then h0 else hs ! (2 * k))"
    "(h0 # tl hs) ! (2 * k + 1) = hs ! (2 * k + 1)"
    using e [of "2 * k"] e [of "2 * k + 1"] by simp_all
  have C: "(H (h0 @ hs ! 1) # tl (take (length hs div 2) (pair_level H hs))) ! k =
      (if k = 0 then H (h0 @ hs ! 1) else pair_level H hs ! k)"
    using k by (cases k) (simp_all add: nth_tl)
  have D: "pair_level H hs ! k = H (hs ! (2 * k) @ hs ! (2 * k + 1))" if "1 \<le> k"
    using pair_level_nth [of "(length hs + 1) div 2" hs k H] k assms that by (simp add: pair_level_def)
  show "pairs H (h0 # tl hs) ! k =
      (H (h0 @ hs ! 1) # tl (take (length hs div 2) (pair_level H hs))) ! k"
    unfolding A B C using D by (cases "k = 0") simp_all
qed

lemma merkle_loop_tree:
  assumes "hs \<noteq> []"
  shows "foldl (\<lambda>sha bin. H (sha @ bin)) h0 (merkle_loop H hs mb) =
    (let h = foldl (\<lambda>sha bin. H (sha @ bin)) h0 mb in merkle_tree H (h # tl hs))"
  using assms
proof (induction H hs mb rule: merkle_loop.induct)
  case (1 H hs mb)
  show ?case
  proof (cases "length hs \<le> 1")
    case True
    with "1.prems" show ?thesis
      by (subst merkle_loop.simps, subst merkle_tree.simps) simp
  next
    case False
    let ?hs = "if odd (length hs) then hs @ [last hs] else hs"
    let ?next = "take (length ?hs div 2) (pair_level H ?hs)"
    have hs: "even (length ?hs)" "2 \<le> length ?hs" "?hs ! 1 = hs ! 1"
      using False by (auto simp: nth_append)
    have n0: "?next \<noteq> []" 
    proof -
      have "length ?next = length ?hs div 2" by simp
      then show ?thesis using hs(2) by (metis div_le_mono div_self length_0_conv not_one_le_zero zero_neq_numeral)
    qed
    have loop: "merkle_loop H hs mb = merkle_loop H ?next (mb @ [hs ! 1])"
      using False by (subst merkle_loop.simps) (simp add: Let_def)
    have IH: "foldl (\<lambda>sha bin. H (sha @ bin)) h0 (merkle_loop H ?next (mb @ [hs ! 1])) =
      (let h = foldl (\<lambda>sha bin. H (sha @ bin)) h0 (mb @ [hs ! 1]) in merkle_tree H (h # tl ?next))"
      using "1.IH" [OF False refl refl refl] n0 by simp
    have "merkle_tree H (h # tl hs) = merkle_tree H (H (h @ hs ! 1) # tl ?next)" for h
    proof -
      have "pairs H (h # tl hs) = pairs H (h # tl ?hs)"
      proof (cases "odd (length hs)")
        case True
        with False have "tl hs \<noteq> []" "last (h # tl hs) = last hs" by (cases hs; auto)+
        moreover have "odd (length (h # tl hs))" using True False by simp
        ultimately show ?thesis using pairs_odd [of "h # tl hs" H] True by (cases hs) auto
      qed simp
      also have "\<dots> = H (h @ hs ! 1) # tl ?next"
        using merkle_level [OF hs(1,2), of H h] hs(3) by simp
      finally show ?thesis using False by (subst merkle_tree.simps) simp
    qed
    then show ?thesis unfolding loop IH by (simp add: Let_def)
  qed
qed

lemma length_merkleroot: "length (merkleroot dsha c ms) = 32"
proof -
  have "length (foldl (\<lambda>sha bin. dsha (sha @ bin)) x ms) = 32" if "length x = 32" for x
    using that by (induction ms arbitrary: x) (simp_all add: layout)
  then show ?thesis by (simp add: merkleroot_def layout)
qed

lemma merkleroot_cong:
  assumes "\<And>m. length m = n \<or> length m = 64 \<Longrightarrow> H m = dsha m" and "length c = n"
    and "\<forall>m\<in>set ms. length m = 32"
  shows "merkleroot H c ms = merkleroot dsha c ms"
proof -
  have "foldl (\<lambda>sha bin. H (sha @ bin)) x ms = foldl (\<lambda>sha bin. dsha (sha @ bin)) x ms"
    if "length x = 32" for x
    using that assms(3) by (induction ms arbitrary: x) (simp_all add: assms(1) layout)
  then show ?thesis using assms(1) [of c] assms(2) by (simp add: merkleroot_def layout)
qed

section \<open>Properties\<close>

text \<open>C8: the merkle branch that is stored when a template arrives is right for every
  coinbase: hashing the coinbase up the branch gives the root of the merkle tree over the
  coinbase's hash and all transaction hashes, whatever the number of transactions.\<close>

theorem merkle_branch_root:
  "merkleroot H coinbase (merkle_loop H (replicate 32 0 # txns) []) =
   merkle_tree H (H coinbase # txns)"
  using merkle_loop_tree [of "replicate 32 0 # txns" H "H coinbase" "[]"]
  by (simp add: merkleroot_def)

text \<open>the hash computed for a work item is the double SHA-256 of its 80 byte header, whose
  words the work stores byte-reversed.\<close>

theorem regen_hash_header:
  assumes "length (cg_block ctx) = 128" and "length swap = 80" and "length hash1 = 32"
    and "length hash = 32" and "80 \<le> length data"
  shows "regen_hash ctx swap hash1 data hash = dsha (rev_words (take 80 data))"
proof -
  have "flip80 swap data = rev_words (take 80 data)"
    using flip_words_prefix [of 20 data swap] assms by (simp add: flip80_def)
  then show ?thesis using assms
    by (simp add: regen_hash_def cg_sha256_is_spec layout dsha_def)
qed

definition demo_ctx :: sha256_ctx where
  "demo_ctx = \<lparr>cg_tot_len = 1, cg_len = 2, cg_block = replicate 128 3, cg_h = []\<rparr>"

theorem regen_hash_header_witness:
  "regen_hash demo_ctx (replicate 80 0) (replicate 32 1) (map of_nat [0..<128]) (replicate 32 2) =
     dsha (rev_words (map of_nat [0..<80]))"
  using regen_hash_header [of demo_ctx "replicate 80 0" "replicate 32 1" "replicate 32 2"
      "map of_nat [0..<128]"]
  by (simp add: demo_ctx_def take_map)

lemma calc_midstate_compress:
  assumes "length (cg_block ctx) = 128" and "length data64 = 64" and "64 \<le> length data"
    and "length midstate = 32"
  shows "calc_midstate ctx data64 data midstate =
    concat (map le32_bytes (compress fips_H0 (block_words (rev_words (take 64 data)))))"
proof -
  have f: "flip64 data64 data = rev_words (take 64 data)"
    using flip_words_prefix [of 16 data data64] assms by (simp add: flip64_def)
  have l: "length (rev_words (take 64 data)) = 64" using assms(3) by (simp add: layout)
  have le: "length (concat (map le32_bytes ws)) = 4 * length ws" for ws
    by (induction ws) (simp_all add: layout)
  show ?thesis using assms(4)
    by (simp add: calc_midstate_def f cg_midstate [OF assms(1) l] memcpy_at_def le layout)
qed

text \<open>the midstate of a work item is one compression of the first 64 header bytes from the
  initial value, each of its eight words stored least significant byte first.\<close>

theorem midstate_of_header:
  assumes "length (cg_block ctx) = 128" and "length data64 = 64" and "64 \<le> length data"
    and "length midstate = 32"
  shows "calc_midstate ctx data64 data midstate =
    concat (map le32_bytes (compress fips_H0 (block_words (rev_words (take 64 data)))))"
  using assms by (rule calc_midstate_compress)

theorem midstate_of_header_witness:
  "calc_midstate demo_ctx (replicate 64 0) (replicate 128 5) (replicate 32 0) =
    concat (map le32_bytes (compress fips_H0 (block_words (rev_words (replicate 64 5)))))"
  using midstate_of_header [of demo_ctx "replicate 64 0" "replicate 128 5" "replicate 32 0"]
  by (simp add: demo_ctx_def)

end
