(* ===== verification/Encoding.thy ===== *)
theory Encoding
  imports Prelude
begin

text \<open>
  The byte and text encodings of \<open>src/cgminer/util.c\<close>: hexadecimal in both directions,
  base 58 addresses, the numbers and strings of a coinbase script, and the comparison of a
  hash with a target. A C string is the list of its bytes without the terminating zero.
\<close>

section \<open>Hexadecimal\<close>

definition hex_digits :: "u8 list" where
  "hex_digits = [0x30, 0x31, 0x32, 0x33, 0x34, 0x35, 0x36, 0x37, 0x38, 0x39,
     0x61, 0x62, 0x63, 0x64, 0x65, 0x66]"

definition bin2hex :: "u8 list \<Rightarrow> u8 list" where
  "bin2hex p = concat (map (\<lambda>b. [hex_digits ! unat (drop_bit 4 b), hex_digits ! unat (b AND 0xF)]) p)"

text \<open>
  The size \<open>bin2hex\<close> allocates for \<open>len\<close> bytes, the terminator included.
\<close>

definition bin2hex_slen :: "nat \<Rightarrow> nat" where
  "bin2hex_slen len = (let slen = len * 2 + 1 in if slen mod 4 \<noteq> 0 then slen + (4 - slen mod 4) else slen)"

definition hex2bin_tbl :: "int list" where
  "hex2bin_tbl =
    [- 1, - 1, - 1, - 1, - 1, - 1, - 1, - 1, - 1, - 1, - 1, - 1, - 1, - 1, - 1, - 1,
     - 1, - 1, - 1, - 1, - 1, - 1, - 1, - 1, - 1, - 1, - 1, - 1, - 1, - 1, - 1, - 1,
     - 1, - 1, - 1, - 1, - 1, - 1, - 1, - 1, - 1, - 1, - 1, - 1, - 1, - 1, - 1, - 1,
     0, 1, 2, 3, 4, 5, 6, 7, 8, 9, - 1, - 1, - 1, - 1, - 1, - 1,
     - 1, 10, 11, 12, 13, 14, 15, - 1, - 1, - 1, - 1, - 1, - 1, - 1, - 1, - 1,
     - 1, - 1, - 1, - 1, - 1, - 1, - 1, - 1, - 1, - 1, - 1, - 1, - 1, - 1, - 1, - 1,
     - 1, 10, 11, 12, 13, 14, 15, - 1, - 1, - 1, - 1, - 1, - 1, - 1, - 1, - 1,
     - 1, - 1, - 1, - 1, - 1, - 1, - 1, - 1, - 1, - 1, - 1, - 1, - 1, - 1, - 1, - 1,
     - 1, - 1, - 1, - 1, - 1, - 1, - 1, - 1, - 1, - 1, - 1, - 1, - 1, - 1, - 1, - 1,
     - 1, - 1, - 1, - 1, - 1, - 1, - 1, - 1, - 1, - 1, - 1, - 1, - 1, - 1, - 1, - 1,
     - 1, - 1, - 1, - 1, - 1, - 1, - 1, - 1, - 1, - 1, - 1, - 1, - 1, - 1, - 1, - 1,
     - 1, - 1, - 1, - 1, - 1, - 1, - 1, - 1, - 1, - 1, - 1, - 1, - 1, - 1, - 1, - 1,
     - 1, - 1, - 1, - 1, - 1, - 1, - 1, - 1, - 1, - 1, - 1, - 1, - 1, - 1, - 1, - 1,
     - 1, - 1, - 1, - 1, - 1, - 1, - 1, - 1, - 1, - 1, - 1, - 1, - 1, - 1, - 1, - 1,
     - 1, - 1, - 1, - 1, - 1, - 1, - 1, - 1, - 1, - 1, - 1, - 1, - 1, - 1, - 1, - 1,
     - 1, - 1, - 1, - 1, - 1, - 1, - 1, - 1, - 1, - 1, - 1, - 1, - 1, - 1, - 1, - 1]"

text \<open>
  \<open>hex2bin\<close> writes the bytes decoded so far into \<open>p\<close> and returns False as soon as the
  string ends inside a pair or holds something else than a digit; it is True when the string
  and \<open>len\<close> end together.
\<close>

fun hex2bin_loop :: "u8 list \<Rightarrow> u8 list \<Rightarrow> nat \<Rightarrow> u8 list \<times> bool" where
  "hex2bin_loop acc [] len = (acc, len = 0)"
| "hex2bin_loop acc (c # cs) 0 = (acc, False)"
| "hex2bin_loop acc [c] (Suc len) = (acc, False)"
| "hex2bin_loop acc (c1 # c2 # cs) (Suc len) =
     (let nibble1 = hex2bin_tbl ! unat c1;
          nibble2 = hex2bin_tbl ! unat c2
      in if nibble1 < 0 \<or> nibble2 < 0 then (acc, False)
      else hex2bin_loop (acc @ [push_bit 4 (word_of_int nibble1) OR word_of_int nibble2]) cs len)"

definition hex2bin :: "u8 list \<Rightarrow> u8 list \<Rightarrow> nat \<Rightarrow> u8 list \<times> bool" where
  "hex2bin p hexstr len =
     (let (written, ret) = hex2bin_loop [] hexstr len in (memcpy_at p 0 written, ret))"

section \<open>Base 58\<close>

definition b58tobin_tbl :: "int list" where
  "b58tobin_tbl =
    [- 1, - 1, - 1, - 1, - 1, - 1, - 1, - 1, - 1, - 1, - 1, - 1, - 1, - 1, - 1, - 1,
     - 1, - 1, - 1, - 1, - 1, - 1, - 1, - 1, - 1, - 1, - 1, - 1, - 1, - 1, - 1, - 1,
     - 1, - 1, - 1, - 1, - 1, - 1, - 1, - 1, - 1, - 1, - 1, - 1, - 1, - 1, - 1, - 1,
     - 1, 0, 1, 2, 3, 4, 5, 6, 7, 8, - 1, - 1, - 1, - 1, - 1, - 1,
     - 1, 9, 10, 11, 12, 13, 14, 15, 16, - 1, 17, 18, 19, 20, 21, - 1,
     22, 23, 24, 25, 26, 27, 28, 29, 30, 31, 32, - 1, - 1, - 1, - 1, - 1,
     - 1, 33, 34, 35, 36, 37, 38, 39, 40, 41, 42, 43, - 1, 44, 45, 46,
     47, 48, 49, 50, 51, 52, 53, 54, 55, 56, 57]"

text \<open>
  The inner loop, from word \<open>j = 6\<close> down to word 0, with its carry \<open>c\<close>.
\<close>

fun b58_mul :: "nat \<Rightarrow> u32 list \<Rightarrow> u32 \<Rightarrow> u32 list" where
  "b58_mul 0 bin32 c = bin32"
| "b58_mul (Suc j) bin32 c =
     (let t = ucast (bin32 ! j) * 58 + ucast c :: u64
      in b58_mul j (bin32[j := ucast (t AND 0xffffffff)]) (ucast (drop_bit 32 (t AND 0x3f00000000))))"

text \<open>
  A character beyond the table is an access outside it: None.
\<close>

fun b58_digits :: "u32 list \<Rightarrow> u8 list \<Rightarrow> u32 list option" where
  "b58_digits bin32 [] = Some bin32"
| "b58_digits bin32 (ch # b58) =
     (if unat ch < length b58tobin_tbl
      then b58_digits (b58_mul 7 bin32 (word_of_int (b58tobin_tbl ! unat ch))) b58 else None)"

definition b58tobin :: "u8 list \<Rightarrow> u8 list option" where
  "b58tobin b58 = (case b58_digits (replicate 7 0) b58 of None \<Rightarrow> None
     | Some bin32 \<Rightarrow> Some (ucast (bin32 ! 0 AND 0xff) # concat (map be32_bytes (drop 1 bin32))))"

definition address_to_pubkeyhash :: "u8 list \<Rightarrow> u8 list option" where
  "address_to_pubkeyhash addr =
     (case b58tobin addr of None \<Rightarrow> None
      | Some b58bin \<Rightarrow> Some ([0x76, 0xa9, 0x14] @ take 20 (drop 1 b58bin) @ [0x88, 0xac]))"

section \<open>Coinbase numbers and strings\<close>

text \<open>
  All four bytes of \<open>val\<close> are stored after the length byte; the result is the bytes from
  \<open>s\<close> on and the number of bytes used.
\<close>

definition ser_number :: "int \<Rightarrow> u8 list \<times> nat" where
  "ser_number val =
     (let len = (if val < 128 then 1 else if val < 16512 then 2 else if val < 2113664 then 3 else 4)
      in (of_nat len # le32_bytes (word_of_int val), len + 1))"

definition ser_string :: "u8 list \<Rightarrow> u8 list \<times> nat" where
  "ser_string s =
     (let len = length s
      in if len < 253 then (of_nat len # s, len + 1)
      else if len < 0x10000 then
        ([253, of_nat (len div 256), of_nat len] @ s, len + 3)
      else (254 # be32_bytes (of_nat len) @ s, len + 5))"

section \<open>Meeting a target\<close>

fun fulltest_loop :: "nat \<Rightarrow> u8 list \<Rightarrow> u8 list \<Rightarrow> bool" where
  "fulltest_loop 0 hash target = True"
| "fulltest_loop (Suc i) hash target =
     (let h32tmp = le32_word (sub_list hash (4 * i) 4);
          t32tmp = le32_word (sub_list target (4 * i) 4)
      in if h32tmp > t32tmp then False
      else if h32tmp < t32tmp then True
      else fulltest_loop i hash target)"

definition fulltest :: "u8 list \<Rightarrow> u8 list \<Rightarrow> bool" where
  "fulltest hash target = fulltest_loop 8 hash target"

section \<open>Hexadecimal both ways\<close>

definition hex_value :: "u8 \<Rightarrow> int" where
  "hex_value c = (if 0x30 \<le> c \<and> c \<le> 0x39 then uint c - 0x30
     else if 0x41 \<le> c \<and> c \<le> 0x46 then uint c - 0x37
     else if 0x61 \<le> c \<and> c \<le> 0x66 then uint c - 0x57 else - 1)"

lemma hex_table_all:
  "list_all (\<lambda>n. hex2bin_tbl ! n = hex_value (of_nat n)) [0..<256]"
  by code_simp

lemma hex_table: "hex2bin_tbl ! unat c = hex_value c"
proof -
  have "unat c < 256" using unsigned_less [of c, where ?'a = nat] by simp
  then have "unat c \<in> set [0..<256]" by simp
  then show ?thesis using hex_table_all by (auto simp: list_all_iff)
qed

definition is_hex :: "u8 \<Rightarrow> bool" where
  "is_hex c \<longleftrightarrow> 0x30 \<le> c \<and> c \<le> 0x39 \<or> 0x41 \<le> c \<and> c \<le> 0x46 \<or> 0x61 \<le> c \<and> c \<le> 0x66"

lemma hex_value_neg: "hex_value c < 0 \<longleftrightarrow> \<not> is_hex c"
  by (auto simp: hex_value_def is_hex_def word_le_def)

lemma hex_digits_all:
  "list_all (\<lambda>n. hex_value (hex_digits ! n) = int n) [0..<16]"
  by code_simp

lemma hex_digit_value: "n < 16 \<Longrightarrow> hex_value (hex_digits ! n) = int n"
  using hex_digits_all by (auto simp: list_all_iff)

lemma hex_byte:
  fixes b :: u8
  shows "hex_value (hex_digits ! unat (drop_bit 4 b)) = uint (drop_bit 4 b)"
    and "hex_value (hex_digits ! unat (b AND 0xF)) = uint (b AND 0xF)"
    and "push_bit 4 (drop_bit 4 b) OR (b AND 0xF) = b"
proof -
  have m: "b AND 0xF = take_bit 4 b" by (simp add: take_bit_eq_mask mask_eq_exp_minus_1)
  have "unat b < 256" using unsigned_less [of b, where ?'a = nat] by simp
  then have "unat (drop_bit 4 b) < 16" by (simp add: unat_drop_bit_eq drop_bit_eq_div unat_div less_mult_imp_div_less)
  then show "hex_value (hex_digits ! unat (drop_bit 4 b)) = uint (drop_bit 4 b)"
    by (simp add: hex_digit_value)
  have "unat (b AND 0xF) < 16" unfolding m unsigned_take_bit_eq by (simp add: take_bit_eq_mod)
  then show "hex_value (hex_digits ! unat (b AND 0xF)) = uint (b AND 0xF)"
    by (simp add: hex_digit_value)
  show "push_bit 4 (drop_bit 4 b) OR (b AND 0xF) = b"
    unfolding m by (rule bit_word_eqI) (auto simp: bit_simps)
qed

lemma length_bin2hex: "length (bin2hex bs) = 2 * length bs"
  by (induction bs) (simp_all add: bin2hex_def)

lemma hex2bin_loop_bin2hex:
  "hex2bin_loop acc (bin2hex bs) (length bs) = (acc @ bs, True)"
proof (induction bs arbitrary: acc)
  case (Cons b bs)
  have e: "bin2hex (b # bs) = hex_digits ! unat (drop_bit 4 b) # hex_digits ! unat (b AND 0xF) # bin2hex bs"
    by (simp add: bin2hex_def)
  show ?case unfolding e by (simp add: hex_table hex_byte Cons)
qed (simp add: bin2hex_def)

lemma bin2hex_append: "bin2hex (xs @ ys) = bin2hex xs @ bin2hex ys"
  by (simp add: bin2hex_def)

lemma take_bin2hex: "take (2 * n) (bin2hex xs) = bin2hex (take n xs)"
proof (induction xs arbitrary: n)
  case (Cons x xs)
  then show ?case by (cases n) (simp_all add: bin2hex_def)
qed (simp add: bin2hex_def)

lemma drop_bin2hex: "drop (2 * n) (bin2hex xs) = bin2hex (drop n xs)"
proof (induction xs arbitrary: n)
  case (Cons x xs)
  then show ?case by (cases n) (simp_all add: bin2hex_def)
qed (simp add: bin2hex_def)

lemma hex2bin_loop_prefix:
  "fst (hex2bin_loop acc (bin2hex bs @ tail) (length bs)) = acc @ bs"
proof (induction bs arbitrary: acc)
  case Nil
  then show ?case by (cases tail) (simp_all add: bin2hex_def)
next
  case (Cons b bs)
  have e: "bin2hex (b # bs) = hex_digits ! unat (drop_bit 4 b) # hex_digits ! unat (b AND 0xF) # bin2hex bs"
    by (simp add: bin2hex_def)
  show ?case unfolding e by (simp add: hex_table hex_byte Cons)
qed

lemma hex2bin_loop_ok:
  "snd (hex2bin_loop acc s len) \<longleftrightarrow> length s = 2 * len \<and> list_all is_hex s"
  by (induction acc s len rule: hex2bin_loop.induct) (auto simp: hex_table hex_value_neg Let_def)

lemma hex2bin_loop_length:
  "snd (hex2bin_loop acc s len) \<Longrightarrow> length (fst (hex2bin_loop acc s len)) = length acc + len"
  by (induction acc s len rule: hex2bin_loop.induct) (auto simp: Let_def split: if_splits)

section \<open>Comparison with a target\<close>

lemma le_number_word:
  assumes "length bs = 4" shows "le_number bs = unat (le32_word bs)"
proof -
  obtain a b c d where bs: "bs = [a, b, c, d]" using list4_cases [OF assms] by blast
  have dj: "x AND y = 0 \<Longrightarrow> x OR y = x + y" for x y :: u32 by (simp add: disjunctive_add_eq_or)
  have z1: "ucast a AND push_bit 8 (ucast b) = (0 :: u32)"
    and z2: "(ucast a OR push_bit 8 (ucast b)) AND push_bit 16 (ucast c) = (0 :: u32)"
    and z3: "((ucast a OR push_bit 8 (ucast b)) OR push_bit 16 (ucast c)) AND push_bit 24 (ucast d) = (0 :: u32)"
    by (rule bit_word_eqI, auto simp: bit_simps impossible_bit)+
  have "le32_word bs = ((ucast a OR push_bit 8 (ucast b)) OR push_bit 16 (ucast c)) OR push_bit 24 (ucast d)"
    by (simp add: le32_word_def bs or.assoc)
  also have "\<dots> = ucast a + push_bit 8 (ucast b) + push_bit 16 (ucast c) + push_bit 24 (ucast d)"
    by (subst dj [OF z3], subst dj [OF z2], subst dj [OF z1]) (rule refl)
  also have "\<dots> = of_nat (le_number bs)"
    by (simp add: bs push_bit_eq_mult algebra_simps)
  finally show ?thesis
    using le_number_bound [of bs] assms by (simp only: unat_of_nat) simp
qed

lemma le_number_cmp:
  assumes "length x = length y" and "length u = length v"
  shows "le_number (x @ u) \<le> le_number (y @ v) \<longleftrightarrow>
    le_number u < le_number v \<or> le_number u = le_number v \<and> le_number x \<le> le_number y"
proof -
  let ?K = "256 ^ length x :: nat"
  have x: "le_number x < ?K" and y: "le_number y < ?K"
    using le_number_bound [of x] le_number_bound [of y] assms(1) by simp_all
  have *: "p + ?K * q < r + ?K * t" if "p < ?K" "q < t" for p q r t
  proof -
    have "?K * Suc q \<le> ?K * t" using that(2) by (intro mult_le_mono2) simp
    with that(1) show ?thesis by simp
  qed
  show ?thesis
    using * [OF x, of "le_number u" "le_number v" "le_number y"]
      * [OF y, of "le_number v" "le_number u" "le_number x"] assms(1)
    unfolding le_number_append
    by (cases "le_number u" "le_number v" rule: linorder_cases) auto
qed

lemma fulltest_loop_le:
  "4 * n \<le> length h \<Longrightarrow> 4 * n \<le> length t \<Longrightarrow>
   fulltest_loop n h t \<longleftrightarrow> le_number (take (4 * n) h) \<le> le_number (take (4 * n) t)"
proof (induction n)
  case (Suc n)
  have sp: "take (4 * Suc n) x = take (4 * n) x @ sub_list x (4 * n) 4" for x :: "u8 list"
    by (simp only: sub_list_def take_add [symmetric]) (simp add: add.commute)
  let ?h = "sub_list h (4 * n) 4" and ?t = "sub_list t (4 * n) 4"
  have l: "length ?h = 4" "length ?t = 4" using Suc.prems by (simp_all add: layout)
  have eq: "le_number ?h = le_number ?t \<longleftrightarrow> le32_word ?h = le32_word ?t"
    "le_number ?h < le_number ?t \<longleftrightarrow> le32_word ?h < le32_word ?t"
    by (simp_all add: le_number_word l word_unat_eq_iff word_less_nat_alt)
  show ?case unfolding sp
    using le_number_cmp [of "take (4 * n) h" "take (4 * n) t" ?h ?t] Suc l eq
    by (auto simp: Let_def)
qed simp

lemma fulltest_le:
  "length h = 32 \<Longrightarrow> length t = 32 \<Longrightarrow> fulltest h t \<longleftrightarrow> le_number h \<le> le_number t"
  using fulltest_loop_le [of 8 h t] by (simp add: fulltest_def)

section \<open>Base 58\<close>

text \<open>The number the first \<open>j\<close> words denote, most significant word first.\<close>

fun be_words :: "nat \<Rightarrow> u32 list \<Rightarrow> nat" where
  "be_words 0 ws = 0"
| "be_words (Suc j) ws = be_words j ws * 2 ^ 32 + unat (ws ! j)"

lemma be_words_update: "j \<le> k \<Longrightarrow> be_words j (ws[k := w]) = be_words j ws"
  by (induction j) simp_all

lemma b58_step:
  fixes w c :: u32
  assumes "unat c < 58"
  defines "t \<equiv> ucast w * 58 + ucast c :: u64"
  shows "unat (ucast (t AND 0xffffffff) :: u32) + 2 ^ 32 * unat (ucast (drop_bit 32 (t AND 0x3f00000000)) :: u32)
      = 58 * unat w + unat c"
    and "unat (ucast (drop_bit 32 (t AND 0x3f00000000)) :: u32) < 58"
proof -
  let ?n = "58 * unat w + unat c"
  have w: "unat w < 2 ^ 32" using unsigned_less [of w, where ?'a = nat] by simp
  then have n: "?n < 58 * 2 ^ 32" using assms(1) by linarith
  have "t = of_nat ?n" by (simp add: t_def)
  then have ut: "unat t = ?n" using n by (simp only: unat_of_nat) simp
  have m32: "(0xffffffff :: u64) = mask 32" by (simp add: mask_eq_exp_minus_1)
  have "unat (t AND 0xffffffff) = ?n mod 2 ^ 32"
    unfolding m32 take_bit_eq_mask [symmetric] unsigned_take_bit_eq ut by (rule take_bit_eq_mod)
  then have lo: "unat (ucast (t AND 0xffffffff) :: u32) = ?n mod 2 ^ 32"
    by (simp add: unsigned_ucast_eq take_bit_eq_mod)
  have m6: "drop_bit 32 (0x3f00000000 :: u64) = mask 6" by (simp add: mask_eq_exp_minus_1)
  have "drop_bit 32 (t AND 0x3f00000000) = take_bit 6 (drop_bit 32 t)"
    unfolding drop_bit_and m6 take_bit_eq_mask ..
  then have "unat (drop_bit 32 (t AND 0x3f00000000)) = take_bit 6 (drop_bit 32 ?n)"
    by (simp only: unsigned_take_bit_eq unat_drop_bit_eq ut)
  then have "unat (drop_bit 32 (t AND 0x3f00000000)) = ?n div 2 ^ 32 mod 2 ^ 6"
    by (simp only: take_bit_eq_mod drop_bit_eq_div)
  moreover have d: "?n div 2 ^ 32 < 58" using n by (intro less_mult_imp_div_less) simp
  ultimately have "unat (drop_bit 32 (t AND 0x3f00000000)) = ?n div 2 ^ 32" by simp
  then have hi: "unat (ucast (drop_bit 32 (t AND 0x3f00000000)) :: u32) = ?n div 2 ^ 32"
    using d by (simp add: unsigned_ucast_eq take_bit_eq_mod)
  show "unat (ucast (drop_bit 32 (t AND 0x3f00000000)) :: u32) < 58" unfolding hi by (rule d)
  show "unat (ucast (t AND 0xffffffff) :: u32) + 2 ^ 32 * unat (ucast (drop_bit 32 (t AND 0x3f00000000)) :: u32)
      = ?n" unfolding lo hi by (rule mod_mult_div_eq)
qed

lemma length_b58_mul [simp]: "length (b58_mul j ws c) = length ws"
  by (induction j arbitrary: ws c) (simp_all add: Let_def)

lemma b58_mul_above: "j \<le> k \<Longrightarrow> b58_mul j ws c ! k = ws ! k"
  by (induction j arbitrary: ws c) (simp_all add: Let_def)

lemma b58_mul_words:
  assumes "j \<le> length ws" and "unat c < 58"
  shows "be_words j (b58_mul j ws c) = (58 * be_words j ws + unat c) mod 2 ^ (32 * j)"
  using assms
proof (induction j arbitrary: ws c)
  case (Suc j)
  define t where "t = (ucast (ws ! j) * 58 + ucast c :: u64)"
  define lo where "lo = (ucast (t AND 0xffffffff) :: u32)"
  define ca where "ca = (ucast (drop_bit 32 (t AND 0x3f00000000)) :: u32)"
  note st = b58_step [OF Suc.prems(2), of "ws ! j", folded t_def, folded lo_def ca_def]
  have IH: "be_words j (b58_mul j (ws[j := lo]) ca) = (58 * be_words j ws + unat ca) mod 2 ^ (32 * j)"
    using Suc.IH [of "ws[j := lo]" ca] Suc.prems(1) st(2) by (simp add: be_words_update)
  have mul: "b58_mul (Suc j) ws c = b58_mul j (ws[j := lo]) ca"
    by (simp only: b58_mul.simps Let_def t_def lo_def ca_def)
  have "be_words (Suc j) (b58_mul (Suc j) ws c) =
      (58 * be_words j ws + unat ca) mod 2 ^ (32 * j) * 2 ^ 32 + unat lo"
    using Suc.prems(1) by (simp add: mul IH b58_mul_above del: b58_mul.simps)
  also have "\<dots> = (2 ^ 32 * (58 * be_words j ws + unat ca) + unat lo) mod 2 ^ (32 + 32 * j)"
  proof -
    have lt: "unat lo < 2 ^ 32" using unsigned_less [of lo, where ?'a = nat] by simp
    have "(2 ^ 32 * x + r) mod (2 ^ 32 * K) = x mod K * 2 ^ 32 + r" if "r < 2 ^ 32" "0 < K" for x r K :: nat
      using that by (simp add: mod_mult2_eq)
    from this [OF lt, of "2 ^ (32 * j)" "58 * be_words j ws + unat ca"] show ?thesis
      by (simp only: power_add) simp
  qed
  also have "2 ^ 32 * (58 * be_words j ws + unat ca) + unat lo = 58 * be_words (Suc j) ws + unat c"
    using st(1) by simp
  finally show ?case by simp
qed simp

definition be_number :: "u8 list \<Rightarrow> nat" where
  "be_number bs = foldl (\<lambda>v b. 256 * v + unat b) 0 bs"

lemma be_number_foldl:
  "foldl (\<lambda>v b. 256 * v + unat b) v bs = v * 256 ^ length bs + le_number (rev bs)"
  by (induction bs arbitrary: v) (simp_all add: le_number_append algebra_simps)

lemma be_number_word:
  "foldl (\<lambda>v b. 256 * v + unat b) v (be32_bytes w) = v * 2 ^ 32 + unat w"
  by (simp add: be_number_foldl layout rev_be32_bytes le_number_word le32_word_bytes)

lemma be_number_words:
  "foldl (\<lambda>v b. 256 * v + unat b) v (concat (map be32_bytes ws)) =
   foldl (\<lambda>v w. v * 2 ^ 32 + unat w) v ws"
  by (induction ws arbitrary: v) (simp_all add: be_number_word)

lemma be_words_foldl:
  "j \<le> length ws \<Longrightarrow> be_words j ws = foldl (\<lambda>v w. v * 2 ^ 32 + unat w) 0 (take j ws)"
  by (induction j) (simp_all add: take_Suc_conv_app_nth)

lemma words_foldl_mod:
  "foldl (\<lambda>v w. v * 2 ^ 32 + unat (w :: u32)) v ws mod 2 ^ (k + 32 * length ws) =
   foldl (\<lambda>v w. v * 2 ^ 32 + unat w) (v mod 2 ^ k) ws"
proof (induction ws arbitrary: v k)
  case (Cons w ws)
  have "unat w < 2 ^ 32" using unsigned_less [of w, where ?'a = nat] by simp
  then have "(v * 2 ^ 32 + unat w) mod 2 ^ (32 + k) = v mod 2 ^ k * 2 ^ 32 + unat w"
    by (simp add: power_add mod_mult2_eq)
  with Cons [of "v * 2 ^ 32 + unat w" "32 + k"] show ?case by (simp add: ac_simps)
qed simp

text \<open>The base 58 alphabet, and the number a string of digits denotes.\<close>

definition b58_alphabet :: "u8 list" where
  "b58_alphabet = map of_nat ([49..<58] @ [65..<73] @ [74..<79] @ [80..<91] @ [97..<108] @ [109..<123])"

definition b58_value :: "nat list \<Rightarrow> nat" where
  "b58_value ds = foldl (\<lambda>v d. 58 * v + d) 0 ds"

lemma b58_table_all:
  "list_all (\<lambda>d. unat (b58_alphabet ! d) < 123 \<and> b58tobin_tbl ! unat (b58_alphabet ! d) = int d) [0..<58]"
  by code_simp

lemma b58_table:
  "d < 58 \<Longrightarrow> unat (b58_alphabet ! d) < 123 \<and> b58tobin_tbl ! unat (b58_alphabet ! d) = int d"
  using b58_table_all by (auto simp: list_all_iff)

lemma be_words_bound: "be_words j ws < 2 ^ (32 * j)"
proof (induction j)
  case (Suc j)
  have "unat (ws ! j) < 2 ^ 32" using unsigned_less [of "ws ! j", where ?'a = nat] by simp
  moreover have "Suc (be_words j ws) * 2 ^ 32 \<le> 2 ^ (32 * j) * 2 ^ 32"
    using Suc by (intro mult_le_mono1) simp
  ultimately show ?case by (simp add: power_add)
qed simp

lemma foldl_digits_mod:
  "foldl (\<lambda>v d. 58 * v + d) (v mod M) ds mod M = foldl (\<lambda>v d. 58 * v + d) v ds mod (M :: nat)"
proof (induction ds arbitrary: v)
  case (Cons d ds)
  have "(58 * (v mod M) + d) mod M = (58 * v + d) mod M" by (metis mod_add_left_eq mod_mult_right_eq)
  then show ?case using Cons [of "58 * (v mod M) + d"] Cons [of "58 * v + d"] by simp
qed simp

lemma b58_digits_value:
  "\<forall>d\<in>set ds. d < 58 \<Longrightarrow> length ws = 7 \<Longrightarrow>
   \<exists>ws'. b58_digits ws (map ((!) b58_alphabet) ds) = Some ws' \<and> length ws' = 7 \<and>
     be_words 7 ws' = foldl (\<lambda>v d. 58 * v + d) (be_words 7 ws) ds mod 2 ^ 224"
proof (induction ds arbitrary: ws)
  case Nil
  then show ?case using be_words_bound [of 7 ws] by simp
next
  case (Cons d ds)
  from Cons.prems have d: "d < 58" by simp
  note tb = b58_table [OF d]
  let ?c = "word_of_int (int d) :: u32"
  have c: "unat ?c = d" using d by (simp add: unat_of_nat)
  let ?ws = "b58_mul 7 ws ?c"
  have "length b58tobin_tbl = 123" by (simp add: b58tobin_tbl_def)
  then have step: "b58_digits ws (map ((!) b58_alphabet) (d # ds)) =
      b58_digits ?ws (map ((!) b58_alphabet) ds)"
    using tb by simp
  from Cons.IH [of ?ws] Cons.prems obtain ws' where
    1: "b58_digits ?ws (map ((!) b58_alphabet) ds) = Some ws'" "length ws' = 7"
      "be_words 7 ws' = foldl (\<lambda>v d. 58 * v + d) (be_words 7 ?ws) ds mod 2 ^ 224" by auto
  have "be_words 7 ?ws = (58 * be_words 7 ws + d) mod 2 ^ 224"
    using b58_mul_words [of 7 ws ?c] Cons.prems(2) c d by (simp del: of_int_of_nat_eq)
  with 1 show ?case unfolding step by (simp add: foldl_digits_mod del: b58_mul.simps)
qed

lemma length_concat_be: "length (concat (map be32_bytes ws)) = 4 * length ws"
  by (induction ws) (simp_all add: layout)

text \<open>decoding a string of base 58 digits never reads outside the table and yields 25
  bytes, which are the big-endian digits of the number the string denotes, modulo
  \<open>2 ^ 200\<close>.\<close>

theorem b58tobin_number:
  assumes "\<forall>d\<in>set ds. d < 58"
  shows "\<exists>b58bin. b58tobin (map ((!) b58_alphabet) ds) = Some b58bin \<and> length b58bin = 25 \<and>
    be_number b58bin = b58_value ds mod 2 ^ 200"
proof -
  have z: "be_words j (replicate 7 0) = 0" if "j \<le> 7" for j
    using that by (induction j) simp_all
  obtain ws where ws: "b58_digits (replicate 7 0) (map ((!) b58_alphabet) ds) = Some ws"
    "length ws = 7" "be_words 7 ws = b58_value ds mod 2 ^ 224"
    using b58_digits_value [OF assms, of "replicate 7 0"] z [of 7] by (auto simp: b58_value_def)
  obtain w wt where w: "ws = w # wt" "length wt = 6" using ws(2) by (cases ws) auto
  let ?out = "ucast (w AND 0xff) # concat (map be32_bytes wt) :: u8 list"
  have m: "w AND 0xff = take_bit 8 w" by (simp add: take_bit_eq_mask mask_eq_exp_minus_1)
  have "unat (ucast (w AND 0xff) :: u8) = unat w mod 2 ^ 8"
    unfolding m unsigned_ucast_eq unsigned_take_bit_eq by (simp add: take_bit_eq_mod)
  then have "be_number ?out = foldl (\<lambda>v w. v * 2 ^ 32 + unat w) (unat w mod 2 ^ 8) wt"
    by (simp add: be_number_def be_number_words)
  also have "\<dots> = foldl (\<lambda>v w. v * 2 ^ 32 + unat w) (unat w) wt mod 2 ^ (8 + 32 * length wt)"
    by (rule words_foldl_mod [symmetric])
  also have "foldl (\<lambda>v w. v * 2 ^ 32 + unat w) (unat w) wt = be_words 7 ws"
    using be_words_foldl [of 7 ws] ws(2) w by simp
  also have "8 + 32 * length wt = 200" using w(2) by simp
  also have "be_words 7 ws mod 2 ^ 200 = b58_value ds mod 2 ^ 200"
    unfolding ws(3) by (rule mod_mod_cancel) (rule le_imp_power_dvd, simp)
  finally have "be_number ?out = b58_value ds mod 2 ^ 200" .
  then show ?thesis using w by (simp add: b58tobin_def ws(1) length_concat_be)
qed

theorem b58tobin_number_witness:
  "\<exists>b58bin. b58tobin [49, 50, 122] = Some b58bin \<and> be_number b58bin = 115"
proof -
  have "map ((!) b58_alphabet) [0, 1, 57] = [49, 50, 122]" by (simp add: b58_alphabet_def upt_rec)
  with b58tobin_number [of "[0, 1, 57]"] show ?thesis by (auto simp: b58_value_def)
qed

text \<open>\<open>hex2bin\<close> undoes \<open>bin2hex\<close>: it accepts its output and writes back the bytes.\<close>

theorem hex_round_trip:
  "hex2bin p (bin2hex bs) (length bs) = (memcpy_at p 0 bs, True)"
  using hex2bin_loop_bin2hex [of "[]" bs] by (simp add: hex2bin_def)

lemma hex2bin_loop_bound:
  "length acc + len = n \<Longrightarrow> length (fst (hex2bin_loop acc s len)) \<le> n"
  by (induction acc s len rule: hex2bin_loop.induct) (auto simp: Let_def split: if_splits)

text \<open>\<open>hex2bin\<close> accepts exactly the strings of twice \<open>len\<close> hexadecimal digits of
  either case, and writes at most \<open>len\<close> bytes whatever the input.\<close>

theorem hex2bin_accepts:
  assumes "len \<le> length p"
  shows "(snd (hex2bin p s len) \<longleftrightarrow> length s = 2 * len \<and> list_all is_hex s) \<and>
    length (fst (hex2bin p s len)) = length p \<and> drop len (fst (hex2bin p s len)) = drop len p"
proof -
  let ?w = "fst (hex2bin_loop [] s len)"
  have l: "length ?w \<le> len" using hex2bin_loop_bound [of "[]" len len s] by simp
  have f: "fst (hex2bin p s len) = memcpy_at p 0 ?w" "snd (hex2bin p s len) = snd (hex2bin_loop [] s len)"
    by (simp_all add: hex2bin_def case_prod_beta)
  have "length (memcpy_at p 0 ?w) = length p" using l assms by (intro length_memcpy_at) simp
  moreover have "drop len (memcpy_at p 0 ?w) = drop len p"
    using l by (simp add: memcpy_at_def)
  ultimately show ?thesis unfolding f hex2bin_loop_ok by simp
qed

theorem hex2bin_accepts_witness:
  "snd (hex2bin [0, 0] [0x41, 0x62, 0x30, 0x39] 2) \<and> \<not> snd (hex2bin [0, 0] [0x41, 0x62, 0x30] 2)"
  using hex2bin_accepts [of 2 "[0, 0]" "[0x41, 0x62, 0x30, 0x39]"] hex2bin_accepts [of 2 "[0, 0]" "[0x41, 0x62, 0x30]"]
  by (simp add: is_hex_def)

text \<open>the share test compares two 32 byte strings as 256 bit little-endian numbers.\<close>

theorem fulltest_compares:
  assumes "length hash = 32" and "length target = 32"
  shows "fulltest hash target \<longleftrightarrow> le_number hash \<le> le_number target"
  using assms by (rule fulltest_le)

theorem fulltest_compares_witness:
  "fulltest (replicate 31 0xff @ [0]) (replicate 31 0 @ [1]) \<longleftrightarrow>
     le_number (replicate 31 0xff @ [0]) \<le> le_number (replicate 31 0 @ [1])"
  using fulltest_compares [of "replicate 31 0xff @ [0]" "replicate 31 0 @ [1]"] by simp

lemma le_number_take: "le_number (take n bs) = le_number bs mod 256 ^ n"
proof (induction bs arbitrary: n)
  case (Cons b bs)
  have "unat b < 256" using unsigned_less [of b, where ?'a = nat] by simp
  then show ?case using Cons by (cases n) (simp_all add: mod_mult2_eq)
qed simp

text \<open>A non-negative block height survives its encoding: the length byte says how many
  bytes follow, and those bytes, least significant first, are the height.\<close>

theorem ser_number_round_trip:
  assumes "0 \<le> val" and "val < 2 ^ 31"
  shows "case ser_number val of (s, used) \<Rightarrow> used = unat (hd s) + 1 \<and> used \<le> 5 \<and>
    int (le_number (take (used - 1) (tl s))) = val"
proof -
  have "unat (word_of_int val :: u32) = nat val"
    using assms by (simp add: unat_eq_nat_uint uint_word_of_int take_bit_int_eq_self)
  then have n: "le_number (le32_bytes (word_of_int val)) = nat val"
    by (simp add: le_number_word layout le32_word_bytes)
  have c: "val < 128 \<or> 128 \<le> val \<and> val < 16512 \<or> 16512 \<le> val \<and> val < 2113664 \<or> 2113664 \<le> val"
    by linarith
  have "4 = length (le32_bytes (word_of_int val))" by (simp add: layout)
  then have t4: "take 4 (le32_bytes (word_of_int val)) = le32_bytes (word_of_int val)" by simp
  have small: "int (nat val mod N) = val" if "val < int N" for N
    using that assms(1) by (simp add: nat_less_iff)
  show ?thesis using c assms
    by (elim disjE) (simp_all add: ser_number_def le_number_take n t4 small)
qed

theorem ser_number_round_trip_witness:
  "case ser_number 851000 of (s, used) \<Rightarrow> used = unat (hd s) + 1 \<and> used \<le> 5 \<and>
    int (le_number (take (used - 1) (tl s))) = 851000"
  using ser_number_round_trip [of 851000] by simp

text \<open>
  How the receiver of a coinbase reads a length: one byte below 253, else the marker and the
  length in the little-endian bytes that follow.
\<close>

definition compact_size :: "u8 list \<Rightarrow> nat" where
  "compact_size bs = (if hd bs = 253 then le_number (take 2 (tl bs))
     else if hd bs = 254 then le_number (take 4 (tl bs)) else unat (hd bs))"

text \<open>A string shorter than 253 bytes is encoded with its length; from 253 to 65535 bytes
  the two length bytes are in the wrong order, so the reader finds the length byte-swapped.\<close>

theorem ser_string_length:
  assumes "length s < 0x10000"
  shows "case ser_string s of (bs, slen) \<Rightarrow> slen = length bs \<and>
    compact_size bs = (if length s < 253 then length s
      else 256 * (length s mod 256) + length s div 256)"
proof (cases "length s < 253")
  case True
  have "unat (of_nat (length s) :: u8) = length s" using True by (simp add: unat_of_nat)
  moreover then have "(of_nat (length s) :: u8) \<noteq> 253" "(of_nat (length s) :: u8) \<noteq> 254"
    using True by (auto simp: word_unat_eq_iff)
  ultimately show ?thesis using True by (simp add: ser_string_def compact_size_def Let_def)
next
  case False
  have "length s div 256 < 256" using assms by (simp add: less_mult_imp_div_less)
  then have "unat (of_nat (length s div 256) :: u8) = length s div 256"
    "unat (of_nat (length s) :: u8) = length s mod 256"
    by (simp_all add: unat_of_nat)
  then show ?thesis using False assms
    by (simp add: ser_string_def compact_size_def numeral_2_eq_2 Let_def)
qed

theorem ser_string_length_witness:
  "compact_size (fst (ser_string (replicate 300 65))) = 11265"
  using ser_string_length [of "replicate 300 65"] by (simp add: case_prod_beta)


end
