(* ===== verification/Thread_Queue.thy ===== *)
theory Thread_Queue
  imports Fifo
begin

text \<open>
  The queues between the miner's threads, \<open>tq_new\<close> to \<open>tq_pop\<close> of
  \<open>src/cgminer/util.c\<close>. Every function body between taking and releasing the queue's
  mutex is one step; a \<open>tq_pop\<close> that finds the queue empty is two steps, since
  \<open>pthread_cond_wait\<close> releases the mutex between them.
\<close>

record 'a thread_q =
  tq_q :: "'a list"
  tq_frozen :: bool

definition tq_new :: "bool \<Rightarrow> 'a thread_q option" where
  "tq_new calloc_ok = (if \<not> calloc_ok then None else Some \<lparr>tq_q = [], tq_frozen = False\<rparr>)"

text \<open>The entries freed by \<open>tq_free\<close>; a NULL queue frees nothing.\<close>

definition tq_free :: "'a thread_q option \<Rightarrow> 'a list" where
  "tq_free tq = (case tq of None \<Rightarrow> [] | Some tq \<Rightarrow> tq_q tq)"

definition tq_freezethaw :: "bool \<Rightarrow> 'a thread_q \<Rightarrow> 'a thread_q" where
  "tq_freezethaw frozen tq = tq\<lparr>tq_frozen := frozen\<rparr>"

definition tq_freeze :: "'a thread_q \<Rightarrow> 'a thread_q" where
  "tq_freeze tq = tq_freezethaw True tq"

definition tq_thaw :: "'a thread_q \<Rightarrow> 'a thread_q" where
  "tq_thaw tq = tq_freezethaw False tq"

definition tq_push :: "bool \<Rightarrow> 'a \<Rightarrow> 'a thread_q \<Rightarrow> bool \<times> 'a thread_q" where
  "tq_push calloc_ok data tq =
     (if \<not> calloc_ok then (False, tq)
      else if \<not> tq_frozen tq then (True, tq\<lparr>tq_q := tq_q tq @ [data]\<rparr>)
      else (False, tq))"

definition tq_pop_head :: "'a thread_q \<Rightarrow> 'a \<times> 'a thread_q" where
  "tq_pop_head tq = (hd (tq_q tq), tq\<lparr>tq_q := tl (tq_q tq)\<rparr>)"

text \<open>\<open>None\<close>: the caller waits on the condition.\<close>

definition tq_pop_enter :: "'a thread_q \<Rightarrow> ('a \<times> 'a thread_q) option" where
  "tq_pop_enter tq = (if tq_q tq \<noteq> [] then Some (tq_pop_head tq) else None)"

text \<open>After the wait, with its return value; a NULL result is None.\<close>

definition tq_pop_resume :: "int \<Rightarrow> 'a thread_q \<Rightarrow> 'a option \<times> 'a thread_q" where
  "tq_pop_resume rc tq =
     (if rc \<noteq> 0 then (None, tq)
      else if tq_q tq = [] then (None, tq)
      else (case tq_pop_head tq of (d, tq) \<Rightarrow> (Some d, tq)))"

text \<open>
  The steps of all threads on one queue: the number of callers asleep in \<open>tq_pop\<close> is part
  of the state.
\<close>

datatype 'a tq_event = Tq_push bool 'a | Tq_freeze | Tq_thaw | Tq_enter | Tq_resume int

type_synonym 'a tq_state = "'a thread_q \<times> nat"

fun tq_step :: "'a tq_event \<Rightarrow> 'a tq_state \<Rightarrow> ('a list \<times> 'a tq_state) option" where
  "tq_step (Tq_push ok d) (tq, w) = Some ([], snd (tq_push ok d tq), w)"
| "tq_step Tq_freeze (tq, w) = Some ([], tq_freeze tq, w)"
| "tq_step Tq_thaw (tq, w) = Some ([], tq_thaw tq, w)"
| "tq_step Tq_enter (tq, w) = (case tq_pop_enter tq of None \<Rightarrow> Some ([], tq, w + 1)
     | Some (d, tq) \<Rightarrow> Some ([d], tq, w))"
| "tq_step (Tq_resume rc) (tq, w) = (case w of 0 \<Rightarrow> None
     | Suc w \<Rightarrow> (case tq_pop_resume rc tq of (r, tq) \<Rightarrow>
         Some ((case r of None \<Rightarrow> [] | Some d \<Rightarrow> [d]), tq, w)))"

fun tq_ok :: "'a tq_event \<Rightarrow> 'a tq_state \<Rightarrow> bool" where
  "tq_ok (Tq_resume rc) s \<longleftrightarrow> 0 < snd s"
| "tq_ok _ s \<longleftrightarrow> True"

fun tq_added :: "'a tq_event \<Rightarrow> 'a tq_state \<Rightarrow> 'a list" where
  "tq_added (Tq_push ok d) s = (if ok \<and> \<not> tq_frozen (fst s) then [d] else [])"
| "tq_added _ s = []"

interpretation thread_queue: fifo "\<lambda>s. True" "\<lambda>s. tq_q (fst s)" tq_ok tq_step tq_added
proof (unfold_locales, goal_cases)
  case (1 s e)
  then show ?case
    by (cases s; cases e)
      (auto simp: tq_push_def tq_freeze_def tq_thaw_def tq_freezethaw_def tq_pop_enter_def
        tq_pop_resume_def tq_pop_head_def split: nat.split)
qed

text \<open>whatever the interleaving of pushes, freezes, thaws and pops of any number of
  threads, every accepted element is handed to exactly one pop, in the order of the pushes,
  or is still queued; a push into a frozen queue adds nothing.\<close>

theorem thread_queue_delivers:
  assumes "all_ok tq_step tq_ok es (tq, w)"
  shows "\<exists>outs tq' w'. run_events tq_step es (tq, w) = Some (outs, tq', w') \<and>
    outs @ tq_q tq' = tq_q tq @ all_added tq_step tq_added es (tq, w)"
  using thread_queue.run_conserve [OF TrueI assms] by auto

theorem thread_queue_delivers_witness:
  "\<exists>outs tq' w'. run_events tq_step [Tq_enter, Tq_push True 1, Tq_freeze, Tq_push True 2, Tq_thaw,
      Tq_push True 3, Tq_resume 0] (\<lparr>tq_q = [], tq_frozen = False\<rparr>, 0) = Some (outs, tq', w') \<and>
    outs @ tq_q tq' = [1, 3 :: nat]"
  using thread_queue_delivers [of "[Tq_enter, Tq_push True 1, Tq_freeze, Tq_push True 2, Tq_thaw,
      Tq_push True 3, Tq_resume 0]" "\<lparr>tq_q = [], tq_frozen = False\<rparr>" 0]
  by (simp add: tq_push_def tq_freeze_def tq_thaw_def tq_freezethaw_def tq_pop_enter_def
      tq_pop_resume_def tq_pop_head_def)

end
