(* ===== verification/Pools.thy ===== *)
theory Pools
  imports Prelude
begin

text \<open>
  The miner's pools, from \<open>src/cgminer/cgminer.c\<close>: the array of pools with their numbers
  and priorities (\<open>add_pool\<close>, \<open>remove_pool\<close>, \<open>priority_pool\<close>), the current pool
  (\<open>switch_pools\<close>), the choice of the pool that supplies work (\<open>select_pool\<close>,
  \<open>select_balanced\<close>) with its quotas (\<open>adjust_quota_gcd\<close>), and the enabled flags.

  A pool structure lives at an address and stays there after its removal; \<open>pools\<close> is the
  array of addresses. \<open>int\<close> fields that only count up from zero are naturals; the quota
  fields are the C \<open>int\<close>s, which \<open>adjust_quota_gcd\<close> mixes with \<open>unsigned long\<close>, 32 bits
  wide on the accelerator's processor.
\<close>

datatype pool_strategy = POOL_FAILOVER | POOL_ROUNDROBIN | POOL_ROTATE | POOL_LOADBALANCE | POOL_BALANCE

datatype pool_enable = POOL_DISABLED | POOL_ENABLED | POOL_REJECTING

record pool =
  pool_no :: nat
  prio :: nat
  quota :: int
  quota_gcd :: int
  quota_used :: int
  shares :: int
  idle :: bool
  enabled :: pool_enable
  has_stratum :: bool
  stratum_active :: bool
  has_gbt :: bool
  gbt_solo :: bool
  hdr_path :: bool
  sshares :: int
  lagging :: bool
  removed :: bool

record pools_state =
  ps_pool :: "nat \<Rightarrow> pool"
  pools :: "nat list"
  currentpool :: nat
  global_quota_gcd :: u32
  rotating_pool :: nat
  pool_strategy :: pool_strategy
  opt_fail_only :: bool
  enabled_pools :: int
  no_work :: bool

abbreviation total_pools :: "pools_state \<Rightarrow> nat" where
  "total_pools s \<equiv> length (pools s)"

definition upd_pool :: "nat \<Rightarrow> (pool \<Rightarrow> pool) \<Rightarrow> pools_state \<Rightarrow> pools_state" where
  "upd_pool a f s = s\<lparr>ps_pool := (ps_pool s)(a := f (ps_pool s a))\<rparr>"

section \<open>Quotas\<close>

definition ulong :: "int \<Rightarrow> u32" where
  "ulong i = word_of_int i"

definition lowest_quota :: "pools_state \<Rightarrow> u32" where
  "lowest_quota s = foldl (\<lambda>lowest a. let q = ulong (quota (ps_pool s a)) in
     if q = 0 then lowest else if q < lowest then q else lowest) (- 1) (pools s)"

text \<open>\<open>while (quota % gcd) gcd--\<close>; the loop is entered with \<open>gcd\<close> at least 1.\<close>

function gcd_down :: "u32 \<Rightarrow> u32 \<Rightarrow> u32" where
  "gcd_down q g = (if g = 0 \<or> q mod g = 0 then g else gcd_down q (g - 1))"
  by pat_completeness auto
termination
proof (relation "measure (\<lambda>(q, g). unat g)", goal_cases)
  case (2 q g)
  then show ?case by (simp add: unat_gt_0 unat_minus_one)
qed simp

declare gcd_down.simps [simp del]

definition quotas_gcd :: "pools_state \<Rightarrow> u32" where
  "quotas_gcd s =
     (if lowest_quota s < - 1
      then foldl (\<lambda>g a. let q = ulong (quota (ps_pool s a)) in if q = 0 then g else gcd_down q g)
             (lowest_quota s) (pools s)
      else 1)"

definition adjust_quota_gcd :: "pools_state \<Rightarrow> pools_state" where
  "adjust_quota_gcd s =
     (let g = quotas_gcd s;
          s = foldl (\<lambda>s a. upd_pool a (\<lambda>p.
                let used = sint (ulong (quota_used p) * global_quota_gcd s);
                    used = sint (ulong used div g)
                in p\<lparr>quota_used := used, quota_gcd := sint (ulong (quota p) div g)\<rparr>) s) s (pools s)
      in s\<lparr>global_quota_gcd := g\<rparr>)"

section \<open>Adding and removing pools\<close>

text \<open>\<open>a\<close> is the address \<open>calloc\<close> returns.\<close>

definition add_pool :: "nat \<Rightarrow> pools_state \<Rightarrow> pools_state" where
  "add_pool a s =
     (let n = total_pools s;
          p = \<lparr>pool_no = n, prio = n, quota = 1, quota_gcd = 0, quota_used = 0, shares = 0,
               idle = False, enabled = POOL_DISABLED, has_stratum = False, stratum_active = False,
               has_gbt = False, gbt_solo = False, hdr_path = False, sshares = 0, lagging = False,
               removed = False\<rparr>
      in adjust_quota_gcd (s\<lparr>ps_pool := (ps_pool s)(a := p), pools := pools s @ [a]\<rparr>))"

definition remove_pool :: "nat \<Rightarrow> pools_state \<Rightarrow> pools_state" where
  "remove_pool pool s =
     (let last_pool = total_pools s - 1;
          s = foldl (\<lambda>s a. if prio (ps_pool s a) > prio (ps_pool s pool)
                 then upd_pool a (\<lambda>o'. o'\<lparr>prio := prio o' - 1\<rparr>) s else s) s (pools s);
          n = pool_no (ps_pool s pool);
          s = (if n < last_pool
               then let s = upd_pool (pools s ! last_pool) (\<lambda>o'. o'\<lparr>pool_no := n\<rparr>) s
                    in s\<lparr>pools := (pools s)[n := pools s ! last_pool]\<rparr>
               else s);
          s = upd_pool pool (\<lambda>o'. o'\<lparr>pool_no := total_pools s, removed := True\<rparr>) s
      in s\<lparr>pools := butlast (pools s)\<rparr>)"

definition priority_pool :: "nat \<Rightarrow> pools_state \<Rightarrow> nat" where
  "priority_pool choice s =
     (case find (\<lambda>a. prio (ps_pool s a) = choice) (pools s) of
        None \<Rightarrow> pools s ! choice | Some a \<Rightarrow> a)"

section \<open>Enabling\<close>

definition enable_pool :: "nat \<Rightarrow> pools_state \<Rightarrow> pools_state" where
  "enable_pool a s =
     (if enabled (ps_pool s a) \<noteq> POOL_ENABLED
      then upd_pool a (\<lambda>p. p\<lparr>enabled := POOL_ENABLED\<rparr>) (s\<lparr>enabled_pools := enabled_pools s + 1\<rparr>)
      else s)"

definition disable_pool :: "nat \<Rightarrow> pools_state \<Rightarrow> pools_state" where
  "disable_pool a s =
     (let s = (if enabled (ps_pool s a) = POOL_ENABLED
               then s\<lparr>enabled_pools := enabled_pools s - 1\<rparr> else s)
      in upd_pool a (\<lambda>p. p\<lparr>enabled := POOL_DISABLED\<rparr>) s)"

definition reject_pool :: "nat \<Rightarrow> pools_state \<Rightarrow> pools_state" where
  "reject_pool a s =
     (let s = (if enabled (ps_pool s a) = POOL_ENABLED
               then s\<lparr>enabled_pools := enabled_pools s - 1\<rparr> else s)
      in upd_pool a (\<lambda>p. p\<lparr>enabled := POOL_REJECTING\<rparr>) s)"

definition pool_unusable :: "pools_state \<Rightarrow> nat \<Rightarrow> bool" where
  "pool_unusable s a \<longleftrightarrow>
     (if idle (ps_pool s a) then True
      else if enabled (ps_pool s a) \<noteq> POOL_ENABLED then True else False)"

definition pool_unworkable :: "pools_state \<Rightarrow> nat \<Rightarrow> bool" where
  "pool_unworkable s a \<longleftrightarrow>
     (if idle (ps_pool s a) then True
      else if enabled (ps_pool s a) \<noteq> POOL_ENABLED then True
      else if has_stratum (ps_pool s a) \<and> \<not> stratum_active (ps_pool s a) then True
      else False)"

definition pool_localgen :: "pools_state \<Rightarrow> nat \<Rightarrow> bool" where
  "pool_localgen s a \<longleftrightarrow>
     has_stratum (ps_pool s a) \<or> has_gbt (ps_pool s a) \<or> gbt_solo (ps_pool s a)"

section \<open>Switching\<close>

definition raise_priority :: "nat \<Rightarrow> pools_state \<Rightarrow> pools_state" where
  "raise_priority sel s =
     (if prio (ps_pool s sel) \<noteq> 0 then
        let s = foldl (\<lambda>s a. if prio (ps_pool s a) < prio (ps_pool s sel)
                  then upd_pool a (\<lambda>p. p\<lparr>prio := prio p + 1\<rparr>) s else s) s (pools s)
        in upd_pool sel (\<lambda>p. p\<lparr>prio := 0\<rparr>) s
      else s)"

fun first_usable :: "pools_state \<Rightarrow> nat list \<Rightarrow> nat \<Rightarrow> nat" where
  "first_usable s [] no = no"
| "first_usable s (i # is) no =
     (let pool = priority_pool i s
      in if pool_unusable s pool then first_usable s is no else pool_no (ps_pool s pool))"

text \<open>The loop of the two cycling strategies; \<open>k\<close> turns remain.\<close>

fun next_alive :: "pools_state \<Rightarrow> nat \<Rightarrow> nat \<Rightarrow> nat \<Rightarrow> nat" where
  "next_alive s 0 next_pool no = no"
| "next_alive s (Suc k) next_pool no =
     (let next_pool = next_pool + 1;
          next_pool = (if next_pool \<ge> total_pools s then 0 else next_pool);
          pool = pools s ! next_pool
      in if pool_unusable s pool then next_alive s k next_pool no else next_pool)"

definition switch_target :: "nat option \<Rightarrow> pools_state \<Rightarrow> nat" where
  "switch_target selected s =
     (let no = pool_no (ps_pool s (currentpool s))
      in case pool_strategy s of
        POOL_BALANCE \<Rightarrow> first_usable s [0..<total_pools s] no
      | POOL_FAILOVER \<Rightarrow> first_usable s [0..<total_pools s] no
      | POOL_LOADBALANCE \<Rightarrow> first_usable s [0..<total_pools s] no
      | _ \<Rightarrow> (case selected of
            Some sel \<Rightarrow> if \<not> idle (ps_pool s sel) then pool_no (ps_pool s sel)
              else next_alive s (total_pools s - 1) no no
          | None \<Rightarrow> next_alive s (total_pools s - 1) no no))"

text \<open>
  The second result says whether the work of the pool left is thrown away
  (\<open>clear_pool_work\<close>).
\<close>

definition switch_pools :: "nat option \<Rightarrow> pools_state \<Rightarrow> pools_state \<times> bool" where
  "switch_pools selected s =
     (let last_pool = currentpool s;
          s = (case selected of None \<Rightarrow> s | Some sel \<Rightarrow> raise_priority sel s);
          s = s\<lparr>currentpool := pools s ! switch_target selected s\<rparr>;
          pool = currentpool s;
          s = (if opt_fail_only s then upd_pool pool (\<lambda>p. p\<lparr>lagging := True\<rparr>) s else s);
          clear = (pool \<noteq> last_pool \<and> pool_strategy s \<noteq> POOL_LOADBALANCE \<and>
                   pool_strategy s \<noteq> POOL_BALANCE \<and> (pool_localgen s pool \<or> opt_fail_only s))
      in (s, clear))"

section \<open>Choosing a pool for work\<close>

definition select_balanced :: "nat \<Rightarrow> pools_state \<Rightarrow> nat \<times> pools_state" where
  "select_balanced cp s =
     (let (lowest, ret) = foldl (\<lambda>(lowest, ret) a.
            if pool_unworkable s a then (lowest, ret)
            else if shares (ps_pool s a) < lowest then (shares (ps_pool s a), a)
            else (lowest, ret)) (shares (ps_pool s cp), cp) (pools s)
      in (ret, upd_pool ret (\<lambda>p. p\<lparr>shares := shares p + 1\<rparr>) s))"

text \<open>The search in rotation order, at most \<open>total_pools\<close> turns.\<close>

fun rotate_select :: "nat \<Rightarrow> pools_state \<Rightarrow> nat option \<times> pools_state" where
  "rotate_select 0 s = (None, s)"
| "rotate_select (Suc k) s =
     (let pool = pools s ! rotating_pool s;
          quota_left = quota_used (ps_pool s pool) < quota_gcd (ps_pool s pool);
          s = upd_pool pool (\<lambda>p. p\<lparr>quota_used := quota_used p + 1\<rparr>) s
      in if quota_left \<and> \<not> pool_unworkable s pool then (Some pool, s)
         else
           let s = (if quota_left \<and> opt_fail_only s
                    then upd_pool (priority_pool 0 s) (\<lambda>p. p\<lparr>quota_used := quota_used p - 1\<rparr>) s else s);
               r = rotating_pool s + 1;
               s = s\<lparr>rotating_pool := (if r \<ge> total_pools s then 0 else r)\<rparr>
           in rotate_select k s)"

definition reset_quotas :: "pools_state \<Rightarrow> pools_state" where
  "reset_quotas s =
     (let s = foldl (\<lambda>s a. upd_pool a (\<lambda>p. p\<lparr>quota_used := 0\<rparr>) s) s (pools s);
          r = rotating_pool s + 1
      in s\<lparr>rotating_pool := (if r \<ge> total_pools s then 0 else r)\<rparr>)"

definition select_pool :: "bool \<Rightarrow> pools_state \<Rightarrow> nat \<times> pools_state" where
  "select_pool lag s =
     (let cp = currentpool s
      in if pool_strategy s = POOL_BALANCE then select_balanced cp s
      else if pool_strategy s \<noteq> POOL_LOADBALANCE \<and> (\<not> lag \<or> opt_fail_only s) then (cp, s)
      else
        let avail = (\<exists>a\<in>set (pools s). quota_used (ps_pool s a) < quota_gcd (ps_pool s a));
            s = (if \<not> avail then reset_quotas s else s)
        in case rotate_select (total_pools s) s of
          (Some pool, s) \<Rightarrow> (pool, s)
        | (None, s) \<Rightarrow>
            (case find (\<lambda>i. \<not> pool_unusable s (priority_pool i s)) [0..<total_pools s] of
               Some i \<Rightarrow> (priority_pool i s, s)
             | None \<Rightarrow> (cp, s)))"

definition cp_prio :: "pools_state \<Rightarrow> nat" where
  "cp_prio s = prio (ps_pool s (currentpool s))"

definition cnx_needed :: "nat \<Rightarrow> pools_state \<Rightarrow> bool" where
  "cnx_needed pool s \<longleftrightarrow>
     (let p = ps_pool s pool; cp = currentpool s
      in if enabled p \<noteq> POOL_ENABLED then False
      else if pool_strategy s = POOL_BALANCE then True
      else if pool_strategy s = POOL_LOADBALANCE then True
      else if has_stratum p \<and> idle p then True
      else if cp = pool then True
      else if \<not> pool_localgen s cp \<and> (\<not> opt_fail_only s \<or> \<not> hdr_path (ps_pool s cp)) then True
      else if sshares p \<noteq> 0 then True
      else if pool_strategy s = POOL_FAILOVER \<and> prio p < cp_prio s then True
      else if pool_unworkable s cp then True
      else if no_work s then True
      else False)"

section \<open>Numbers and priorities\<close>

text \<open>
  The array holds distinct pools, each pool's number is its index, and the priorities are
  the numbers below the count, each once.
\<close>

definition pools_ok :: "pools_state \<Rightarrow> bool" where
  "pools_ok s \<longleftrightarrow> distinct (pools s) \<and>
     (\<forall>i < total_pools s. pool_no (ps_pool s (pools s ! i)) = i) \<and>
     bij_betw (\<lambda>a. prio (ps_pool s a)) (set (pools s)) {..<total_pools s}"

lemma upd_pool_simps [simp]:
  "ps_pool (upd_pool a f s) = (ps_pool s)(a := f (ps_pool s a))"
  "pools (upd_pool a f s) = pools s" "currentpool (upd_pool a f s) = currentpool s"
  "global_quota_gcd (upd_pool a f s) = global_quota_gcd s"
  "pool_strategy (upd_pool a f s) = pool_strategy s"
  "opt_fail_only (upd_pool a f s) = opt_fail_only s"
  "rotating_pool (upd_pool a f s) = rotating_pool s"
  "enabled_pools (upd_pool a f s) = enabled_pools s"
  by (simp_all add: upd_pool_def)

lemma upd_pool_state: "upd_pool a f s = s\<lparr>ps_pool := (ps_pool s)(a := f (ps_pool s a))\<rparr>"
  by (simp add: upd_pool_def)

lemma fold_upd_pool:
  "distinct xs \<Longrightarrow> foldl (\<lambda>s a. upd_pool a f s) s xs =
    s\<lparr>ps_pool := (\<lambda>a. if a \<in> set xs then f (ps_pool s a) else ps_pool s a)\<rparr>"
proof (induction xs arbitrary: s)
  case (Cons x xs)
  then show ?case by (auto simp: upd_pool_state fun_eq_iff)
qed simp

text \<open>A loop over all pools whose condition compares with one pool that it leaves alone.\<close>

lemma fold_upd_cond:
  assumes "\<not> C (prio (ps_pool s p)) P" and "prio (ps_pool s p) = P"
  shows "foldl (\<lambda>s a. if C (prio (ps_pool s a)) (prio (ps_pool s p)) then upd_pool a f s else s) s xs =
    foldl (\<lambda>s a. upd_pool a (\<lambda>q. if C (prio q) P then f q else q) s) s xs"
  using assms
proof (induction xs arbitrary: s)
  case (Cons x xs)
  let ?s = "upd_pool x (\<lambda>q. if C (prio q) P then f q else q) s"
  have "(if C (prio (ps_pool s x)) (prio (ps_pool s p)) then upd_pool x f s else s) = ?s"
    using Cons.prems by (auto simp: upd_pool_state)
  moreover have "\<not> C (prio (ps_pool ?s p)) P" "prio (ps_pool ?s p) = P"
    using Cons.prems by auto
  ultimately show ?case using Cons.IH [of ?s] by simp
qed simp

lemma bij_prio_eq:
  assumes "pools_ok s" and "a \<in> set (pools s)" and "b \<in> set (pools s)"
  shows "prio (ps_pool s a) = prio (ps_pool s b) \<longleftrightarrow> a = b"
  using assms by (auto simp: pools_ok_def bij_betw_def inj_on_def)

lemma prio_range: "pools_ok s \<Longrightarrow> a \<in> set (pools s) \<Longrightarrow> prio (ps_pool s a) < total_pools s"
  by (auto simp: pools_ok_def bij_betw_def)

definition raised :: "nat \<Rightarrow> nat \<Rightarrow> nat" where
  "raised P k = (if k < P then k + 1 else if k = P then 0 else k)"

lemma raise_effect:
  assumes "pools_ok s" and "sel \<in> set (pools s)" and "a \<in> set (pools s)"
  shows "ps_pool (raise_priority sel s) a =
    (ps_pool s a)\<lparr>prio := raised (prio (ps_pool s sel)) (prio (ps_pool s a))\<rparr>"
    and "pools (raise_priority sel s) = pools s"
proof -
  let ?P = "prio (ps_pool s sel)" and ?f = "\<lambda>p. p\<lparr>prio := prio p + 1\<rparr>"
  have d: "distinct (pools s)" using assms(1) by (simp add: pools_ok_def)
  define t where "t = foldl (\<lambda>s a. if prio (ps_pool s a) < prio (ps_pool s sel)
       then upd_pool a ?f s else s) s (pools s)"
  have t: "t = s\<lparr>ps_pool := (\<lambda>a. if a \<in> set (pools s) then
      (\<lambda>q. if prio q < ?P then ?f q else q) (ps_pool s a) else ps_pool s a)\<rparr>"
    using fold_upd_cond [of "(<)" s sel ?P ?f "pools s"] by (simp only: t_def fold_upd_pool [OF d] less_irrefl) simp
  have raise: "raise_priority sel s = (if ?P \<noteq> 0 then upd_pool sel (\<lambda>p. p\<lparr>prio := 0\<rparr>) t else s)"
    by (simp only: raise_priority_def Let_def t_def)
  have eq: "prio (ps_pool s a) = ?P \<longleftrightarrow> a = sel"
    using bij_prio_eq [OF assms(1,3,2)] .
  have ta: "ps_pool t a = (if prio (ps_pool s a) < ?P then ?f (ps_pool s a) else ps_pool s a)"
    using assms(3) by (simp only: t) simp
  show "pools (raise_priority sel s) = pools s" by (simp add: raise t)
  show "ps_pool (raise_priority sel s) a = (ps_pool s a)\<lparr>prio := raised ?P (prio (ps_pool s a))\<rparr>"
  proof (cases "ps_pool s a")
    case (fields no pr)
    show ?thesis
      using eq ta by (cases "?P = 0"; cases "a = sel"; cases "pr < ?P") (simp_all add: raise raised_def fields)
  qed
qed

lemma raise_pools_ok:
  assumes "pools_ok s" and "sel \<in> set (pools s)"
  shows "pools_ok (raise_priority sel s)" and "prio (ps_pool (raise_priority sel s) sel) = 0"
    and "pools (raise_priority sel s) = pools s"
proof -
  let ?n = "total_pools s" and ?P = "prio (ps_pool s sel)"
  let ?\<tau> = "\<lambda>k. if k = 0 then ?P else if k \<le> ?P then k - 1 else k"
  note eff = raise_effect [OF assms]
  show ps: "pools (raise_priority sel s) = pools s" by (rule raise_effect(2) [OF assms assms(2)])
  show "prio (ps_pool (raise_priority sel s) sel) = 0"
    using assms(2) by (simp add: eff(1) raised_def)
  have P: "?P < ?n" by (rule prio_range [OF assms])
  have "bij_betw (raised ?P) {..<?n} {..<?n}"
    by (rule bij_betw_byWitness [where f' = ?\<tau>]) (use P in \<open>auto simp: raised_def\<close>)
  moreover have "bij_betw (\<lambda>a. prio (ps_pool s a)) (set (pools s)) {..<?n}"
    using assms(1) by (simp add: pools_ok_def)
  ultimately have "bij_betw (raised ?P \<circ> (\<lambda>a. prio (ps_pool s a))) (set (pools s)) {..<?n}"
    by (rule bij_betw_trans [rotated])
  then have "bij_betw (\<lambda>a. prio (ps_pool (raise_priority sel s) a)) (set (pools s)) {..<?n}"
    by (rule bij_betw_cong [THEN iffD1, rotated]) (simp add: eff(1))
  with assms(1) show "pools_ok (raise_priority sel s)"
    by (simp add: pools_ok_def eff(1) ps)
qed

section \<open>Adding and removing\<close>

lemma bij_insert_last:
  assumes "bij_betw f A {..<n}" and "a \<notin> A" and "f a = n"
  shows "bij_betw f (insert a A) {..<Suc n}"
  using bij_betw_combine [OF assms(1), of "{a}" "{n}"] assms(2,3)
  by (simp add: lessThan_Suc bij_betw_def insert_commute)

text \<open>The quota computation changes neither numbers nor priorities.\<close>

lemma fold_upd_keeps:
  assumes "\<And>s a q. key (f s a q) = key q"
  shows "key (ps_pool (foldl (\<lambda>s a. upd_pool a (f s a) s) s xs) b) = key (ps_pool s b)"
    and "pools (foldl (\<lambda>s a. upd_pool a (f s a) s) s xs) = pools s"
  by (induction xs arbitrary: s) (simp_all add: assms)

lemma adjust_keeps:
  "pool_no (ps_pool (adjust_quota_gcd s) a) = pool_no (ps_pool s a)"
  "prio (ps_pool (adjust_quota_gcd s) a) = prio (ps_pool s a)"
  "quota (ps_pool (adjust_quota_gcd s) a) = quota (ps_pool s a)"
  "enabled (ps_pool (adjust_quota_gcd s) a) = enabled (ps_pool s a)"
  "pools (adjust_quota_gcd s) = pools s"
proof -
  note F = fold_upd_keeps [where f = "\<lambda>s a p. p\<lparr>quota_used := sint (ulong (sint (ulong (quota_used p) * global_quota_gcd s)) div G),
     quota_gcd := sint (ulong (quota p) div G)\<rparr>" for G]
  show "pool_no (ps_pool (adjust_quota_gcd s) a) = pool_no (ps_pool s a)"
    using F(1) [of pool_no] by (simp add: adjust_quota_gcd_def Let_def)
  show "prio (ps_pool (adjust_quota_gcd s) a) = prio (ps_pool s a)"
    using F(1) [of prio] by (simp add: adjust_quota_gcd_def Let_def)
  show "quota (ps_pool (adjust_quota_gcd s) a) = quota (ps_pool s a)"
    using F(1) [of quota] by (simp add: adjust_quota_gcd_def Let_def)
  show "enabled (ps_pool (adjust_quota_gcd s) a) = enabled (ps_pool s a)"
    using F(1) [of enabled] by (simp add: adjust_quota_gcd_def Let_def)
  show "pools (adjust_quota_gcd s) = pools s"
    using F(2) [of pool_no] by (simp add: adjust_quota_gcd_def Let_def)
qed

lemma add_pool_ok:
  assumes "pools_ok s" and "a \<notin> set (pools s)"
  shows "pools_ok (add_pool a s)" and "pools (add_pool a s) = pools s @ [a]"
proof -
  show ps: "pools (add_pool a s) = pools s @ [a]" by (simp add: add_pool_def Let_def adjust_keeps)
  have b: "bij_betw (\<lambda>b. prio (ps_pool s b)) (set (pools s)) {..<total_pools s}"
    using assms(1) by (simp add: pools_ok_def)
  have at: "b \<noteq> a \<Longrightarrow> prio (ps_pool (add_pool a s) b) = prio (ps_pool s b)"
    "b \<noteq> a \<Longrightarrow> pool_no (ps_pool (add_pool a s) b) = pool_no (ps_pool s b)"
    "prio (ps_pool (add_pool a s) a) = total_pools s"
    "pool_no (ps_pool (add_pool a s) a) = total_pools s" for b
    by (simp_all add: add_pool_def Let_def adjust_keeps)
  have "prio (ps_pool s b) = prio (ps_pool (add_pool a s) b)" if "b \<in> set (pools s)" for b
    using at(1) [of b] that assms(2) by metis
  from bij_betw_cong [THEN iffD1, OF this b]
  have "bij_betw (\<lambda>b. prio (ps_pool (add_pool a s) b)) (set (pools s)) {..<total_pools s}" .
  from bij_insert_last [OF this assms(2) at(3)]
  have "bij_betw (\<lambda>b. prio (ps_pool (add_pool a s) b)) (set (pools s @ [a])) {..<total_pools (add_pool a s)}"
    by (simp add: ps)
  moreover have "pool_no (ps_pool (add_pool a s) ((pools s @ [a]) ! i)) = i" if "i < Suc (total_pools s)" for i
  proof (cases "i = total_pools s")
    case False
    with that have i: "i < total_pools s" by simp
    then have "pools s ! i \<in> set (pools s)" by simp
    with assms(2) have "pools s ! i \<noteq> a" by blast
    with i assms(1) show ?thesis by (simp add: nth_append at pools_ok_def)
  qed (simp add: at)
  ultimately show "pools_ok (add_pool a s)"
    using assms by (simp add: pools_ok_def ps)
qed


definition lowered :: "nat \<Rightarrow> nat \<Rightarrow> nat" where
  "lowered P k = (if P < k then k - 1 else k)"

lemma lower_effect:
  fixes p :: nat
  assumes "distinct (pools s)"
  defines "t \<equiv> foldl (\<lambda>s a. if prio (ps_pool s a) > prio (ps_pool s p)
                 then upd_pool a (\<lambda>o'. o'\<lparr>prio := prio o' - 1\<rparr>) s else s) s (pools s)"
  shows "prio (ps_pool t a) = (if a \<in> set (pools s) then lowered (prio (ps_pool s p)) (prio (ps_pool s a))
      else prio (ps_pool s a))"
    and "pool_no (ps_pool t a) = pool_no (ps_pool s a)" and "pools t = pools s"
proof -
  have t: "t = s\<lparr>ps_pool := (\<lambda>a. if a \<in> set (pools s) then
      (\<lambda>q. if prio q > prio (ps_pool s p) then q\<lparr>prio := prio q - 1\<rparr> else q) (ps_pool s a) else ps_pool s a)\<rparr>"
    using fold_upd_cond [of "(>)" s p "prio (ps_pool s p)" "\<lambda>o'. o'\<lparr>prio := prio o' - 1\<rparr>" "pools s"]
    by (simp only: t_def fold_upd_pool [OF assms(1)] less_irrefl) simp
  show "prio (ps_pool t a) = (if a \<in> set (pools s) then lowered (prio (ps_pool s p)) (prio (ps_pool s a))
      else prio (ps_pool s a))"
    by (simp add: t lowered_def)
  show "pool_no (ps_pool t a) = pool_no (ps_pool s a)" by (simp add: t)
  show "pools t = pools s" by (simp add: t)
qed

lemma remove_effect:
  assumes "pools_ok s" and "p \<in> set (pools s)"
  defines "n \<equiv> pool_no (ps_pool s p)" and "q \<equiv> last (pools s)"
  shows "pools (remove_pool p s) = butlast ((pools s)[n := q])"
    and "a \<in> set (pools s) \<Longrightarrow> a \<noteq> p \<Longrightarrow>
      prio (ps_pool (remove_pool p s) a) = lowered (prio (ps_pool s p)) (prio (ps_pool s a))"
    and "a \<noteq> p \<Longrightarrow> pool_no (ps_pool (remove_pool p s) a) =
      (if a = q then n else pool_no (ps_pool s a))"
proof -
  have d: "distinct (pools s)" using assms(1) by (simp add: pools_ok_def)
  note low = lower_effect [OF d, of p]
  have ne: "pools s \<noteq> []" using assms(2) by auto
  then have q: "q = pools s ! (total_pools s - 1)" by (simp add: q_def last_conv_nth)
  obtain i where i: "i < total_pools s" "pools s ! i = p" using assms(2) by (metis in_set_conv_nth)
  have n: "n = i" using assms(1) i by (auto simp: pools_ok_def n_def)
  have qn: "pool_no (ps_pool s q) = total_pools s - 1"
    using assms(1) ne by (auto simp: pools_ok_def q)
  have last: "n = total_pools s - 1 \<Longrightarrow> q = p" using i by (simp add: n q)
  have upd: "\<not> n < total_pools s - 1 \<Longrightarrow> (pools s)[n := q] = pools s"
  proof -
    assume "\<not> n < total_pools s - 1"
    with i n have "n = total_pools s - 1" by linarith
    then have "q = pools s ! n" by (simp add: q)
    then show ?thesis by simp
  qed
  show "pools (remove_pool p s) = butlast ((pools s)[n := q])"
    using upd by (simp add: remove_pool_def Let_def low n_def [symmetric] q)
  show "prio (ps_pool (remove_pool p s) a) = lowered (prio (ps_pool s p)) (prio (ps_pool s a))"
    if "a \<in> set (pools s)" "a \<noteq> p"
    using that by (simp add: remove_pool_def Let_def low n_def [symmetric])
  show "pool_no (ps_pool (remove_pool p s) a) = (if a = q then n else pool_no (ps_pool s a))" if "a \<noteq> p"
    using that last qn i n by (auto simp add: remove_pool_def Let_def low n_def [symmetric] q)
qed


text \<open>Moving the last element into the place of another one and shortening the list.\<close>

lemma move_last:
  assumes "distinct xs" and "i < length xs"
  shows "set (butlast (xs[i := last xs])) = set xs - {xs ! i}"
    and "distinct (butlast (xs[i := last xs]))"
    and "j < length xs - 1 \<Longrightarrow> butlast (xs[i := last xs]) ! j = (if j = i then last xs else xs ! j)"
proof -
  obtain ys y where xs: "xs = ys @ [y]" using assms(2) by (cases xs rule: rev_cases) auto
  have eq: "butlast (xs[i := last xs]) = (if i < length ys then ys[i := y] else ys)"
    using assms(2) by (simp add: xs list_update_append butlast_append)
  have d: "distinct ys" "y \<notin> set ys" using assms(1) by (auto simp: xs)
  show "set (butlast (xs[i := last xs])) = set xs - {xs ! i}"
  proof (cases "i < length ys")
    case True
    with d have "set (ys[i := y]) = insert y (set ys - {ys ! i})"
      by (simp add: set_update_distinct)
    moreover have "ys ! i \<noteq> y" using True d(2) by (metis nth_mem)
    moreover have "xs ! i = ys ! i" using True by (simp add: xs nth_append)
    moreover have "set xs = insert y (set ys)" by (simp add: xs)
    ultimately show ?thesis using True d(2) by (simp add: eq insert_Diff_if)
  next
    case False
    with assms(2) have "i = length ys" by (simp add: xs)
    then have "xs ! i = y" by (simp add: xs)
    moreover have "set xs = insert y (set ys)" by (simp add: xs)
    ultimately show ?thesis using False d(2) by (simp add: eq)
  qed
  show "distinct (butlast (xs[i := last xs]))"
    using d by (simp add: eq distinct_list_update)
  show "butlast (xs[i := last xs]) ! j = (if j = i then last xs else xs ! j)" if "j < length xs - 1"
  proof -
    have "last xs = y" "j < length ys" "xs ! j = ys ! j"
      using that by (simp_all add: xs nth_append)
    then show ?thesis unfolding eq by (auto simp: nth_list_update)
  qed
qed

lemma lowered_bij:
  assumes "P < n"
  shows "bij_betw (lowered P) ({..<n} - {P}) {..<n - 1}"
  by (rule bij_betw_byWitness [where f' = "\<lambda>k. if k < P then k else k + 1"])
    (use assms in \<open>auto simp: lowered_def\<close>)

lemma remove_pool_ok:
  assumes "pools_ok s" and "p \<in> set (pools s)"
  shows "pools_ok (remove_pool p s)" and "set (pools (remove_pool p s)) = set (pools s) - {p}"
    and "total_pools (remove_pool p s) = total_pools s - 1"
proof -
  let ?n = "pool_no (ps_pool s p)" and ?N = "total_pools s" and ?P = "prio (ps_pool s p)"
  note eff = remove_effect [OF assms]
  have d: "distinct (pools s)" using assms(1) by (simp add: pools_ok_def)
  obtain i where "i < ?N" "pools s ! i = p" using assms(2) by (metis in_set_conv_nth)
  then have n: "?n < ?N" "pools s ! ?n = p" using assms(1) by (auto simp: pools_ok_def)
  note mv = move_last [OF d n(1)]
  show set: "set (pools (remove_pool p s)) = set (pools s) - {p}" by (simp add: eff(1) mv(1) n)
  show N: "total_pools (remove_pool p s) = ?N - 1" by (simp add: eff(1))
  have "bij_betw (\<lambda>a. prio (ps_pool s a)) (set (pools s) - {p}) ({..<?N} - {?P})"
  proof (rule bij_betw_DiffI)
    show "bij_betw (\<lambda>a. prio (ps_pool s a)) (set (pools s)) {..<?N}"
      using assms(1) by (simp add: pools_ok_def)
  qed (use assms(2) prio_range [OF assms] in \<open>auto simp: bij_betw_def\<close>)
  from bij_betw_trans [OF this lowered_bij [OF prio_range [OF assms]]]
  have "bij_betw (\<lambda>a. prio (ps_pool (remove_pool p s) a)) (set (pools s) - {p}) {..<?N - 1}"
    by (rule bij_betw_cong [THEN iffD1, rotated]) (simp add: eff(2))
  moreover have "pool_no (ps_pool (remove_pool p s) (pools (remove_pool p s) ! j)) = j" if "j < ?N - 1" for j
  proof -
    have a: "pools (remove_pool p s) ! j = (if j = ?n then last (pools s) else pools s ! j)"
      using that by (simp add: eff(1) mv(3))
    have "pools (remove_pool p s) ! j \<in> set (pools (remove_pool p s))" using that N by simp
    then have ne: "pools (remove_pool p s) ! j \<noteq> p" using set by blast
    have "pools s \<noteq> []" using n(1) by auto
    then have "pools s ! j \<noteq> last (pools s)"
      using that d by (simp add: last_conv_nth nth_eq_iff_index_eq)
    moreover have "pool_no (ps_pool s (pools s ! j)) = j" using assms(1) that by (simp add: pools_ok_def)
    ultimately show ?thesis using eff(3) [OF ne] a by simp
  qed
  ultimately show "pools_ok (remove_pool p s)"
    using mv(2) by (simp add: pools_ok_def set N) (simp add: eff(1))
qed

section \<open>The pool by priority and the pool switched to\<close>

lemma priority_pool_finds:
  assumes "pools_ok s" and "k < total_pools s"
  shows "priority_pool k s \<in> set (pools s)" and "prio (ps_pool s (priority_pool k s)) = k"
proof -
  have "k \<in> (\<lambda>a. prio (ps_pool s a)) ` set (pools s)"
    using assms by (simp add: pools_ok_def bij_betw_def)
  then obtain a where "a \<in> set (pools s)" "prio (ps_pool s a) = k" by auto
  then obtain b where b: "find (\<lambda>a. prio (ps_pool s a) = k) (pools s) = Some b"
    by (cases "find (\<lambda>a. prio (ps_pool s a) = k) (pools s)") (auto simp: find_None_iff)
  then show "priority_pool k s \<in> set (pools s)" "prio (ps_pool s (priority_pool k s)) = k"
    using b by (simp_all add: priority_pool_def) (auto simp: find_Some_iff)
qed

lemma priority_pool_eq:
  "pools_ok s \<Longrightarrow> a \<in> set (pools s) \<Longrightarrow> priority_pool (prio (ps_pool s a)) s = a"
  using priority_pool_finds [of s "prio (ps_pool s a)"] bij_prio_eq [of s] prio_range [of s a] by simp

lemma first_usable_find:
  "first_usable s is no = (case find (\<lambda>i. \<not> pool_unusable s (priority_pool i s)) is of
     None \<Rightarrow> no | Some i \<Rightarrow> pool_no (ps_pool s (priority_pool i s)))"
  by (induction "is") (simp_all add: Let_def)

lemma pool_at_no: "pools_ok s \<Longrightarrow> a \<in> set (pools s) \<Longrightarrow> pools s ! pool_no (ps_pool s a) = a"
  by (auto simp: pools_ok_def in_set_conv_nth)

lemma find_upt:
  "find P [0..<n] = Some i \<longleftrightarrow> i < n \<and> P i \<and> (\<forall>j < i. \<not> P j)"
  by (auto simp: find_Some_iff)


lemma raise_frame:
  "pool_strategy (raise_priority sel s) = pool_strategy s"
  "currentpool (raise_priority sel s) = currentpool s"
  "opt_fail_only (raise_priority sel s) = opt_fail_only s"
proof -
  have *: "F (foldl (\<lambda>s a. if P s a then upd_pool a f s else s) s xs) = F s"
    if "\<And>a s. F (upd_pool a f s) = F s" for F :: "pools_state \<Rightarrow> 'a" and f P xs
    by (induction xs arbitrary: s) (simp_all add: that)
  show "pool_strategy (raise_priority sel s) = pool_strategy s"
    by (simp add: raise_priority_def Let_def * [of pool_strategy])
  show "currentpool (raise_priority sel s) = currentpool s"
    by (simp add: raise_priority_def Let_def * [of currentpool])
  show "opt_fail_only (raise_priority sel s) = opt_fail_only s"
    by (simp add: raise_priority_def Let_def * [of opt_fail_only])
qed

lemma next_alive_bound: "no < n \<Longrightarrow> n = total_pools s \<Longrightarrow> next_alive s k nx no < n"
  by (induction k arbitrary: nx) (auto simp: Let_def)

lemma no_bound: "pools_ok s \<Longrightarrow> a \<in> set (pools s) \<Longrightarrow> pool_no (ps_pool s a) < total_pools s"
  by (auto simp: pools_ok_def in_set_conv_nth)

lemma switch_target_bound:
  assumes ok: "pools_ok s" and cur: "currentpool s \<in> set (pools s)"
    and sel: "\<forall>a. selected = Some a \<longrightarrow> a \<in> set (pools s)"
  shows "switch_target selected s < total_pools s"
proof -
  have fu: "first_usable s [0..<total_pools s] no < total_pools s" if "no < total_pools s" for no
    using that no_bound [OF ok] priority_pool_finds(1) [OF ok]
    by (auto simp: first_usable_find find_upt split: option.split)
  note b = no_bound [OF ok cur]
  show ?thesis
    using fu [OF b] next_alive_bound [OF b refl] no_bound [OF ok] sel
    by (cases "pool_strategy s"; cases selected) (simp_all add: switch_target_def Let_def)
qed

lemma pools_ok_cong:
  "pools t = pools s \<Longrightarrow> (\<And>a. pool_no (ps_pool t a) = pool_no (ps_pool s a)) \<Longrightarrow>
   (\<And>a. prio (ps_pool t a) = prio (ps_pool s a)) \<Longrightarrow> pools_ok t = pools_ok s"
  by (simp add: pools_ok_def)

lemma switch_pools_ok:
  assumes ok: "pools_ok s" and cur: "currentpool s \<in> set (pools s)"
    and sel: "\<forall>a. selected = Some a \<longrightarrow> a \<in> set (pools s)"
  shows "pools_ok (fst (switch_pools selected s))"
    and "currentpool (fst (switch_pools selected s)) \<in> set (pools s)"
    and "pools (fst (switch_pools selected s)) = pools s"
proof -
  define t where "t = (case selected of None \<Rightarrow> s | Some a \<Rightarrow> raise_priority a s)"
  have t: "pools_ok t" "pools t = pools s" "currentpool t = currentpool s"
    using ok sel raise_pools_ok [OF ok] by (auto simp: t_def raise_frame split: option.split)
  define u where "u = t\<lparr>currentpool := pools t ! switch_target selected t\<rparr>"
  have res: "fst (switch_pools selected s) =
     (if opt_fail_only u then upd_pool (currentpool u) (\<lambda>p. p\<lparr>lagging := True\<rparr>) u else u)"
    by (simp add: switch_pools_def Let_def t_def u_def)
  have b: "switch_target selected t < total_pools t"
    by (rule switch_target_bound) (use t cur sel in auto)
  have u: "pools_ok u" "pools u = pools s" "currentpool u \<in> set (pools s)"
    using t b by (simp_all add: u_def pools_ok_cong [of u t]) (simp add: pools_ok_def)
  show "pools_ok (fst (switch_pools selected s))"
    using u(1) by (simp add: res pools_ok_cong [of "upd_pool (currentpool u) (\<lambda>p. p\<lparr>lagging := True\<rparr>) u" u])
  show "currentpool (fst (switch_pools selected s)) \<in> set (pools s)"
    "pools (fst (switch_pools selected s)) = pools s"
    using u by (simp_all add: res)
qed

lemma switch_pools_none:
  "currentpool (fst (switch_pools None s)) = pools s ! switch_target None s"
  by (simp add: switch_pools_def Let_def)

text \<open>the pools' bookkeeping survives every change: adding a pool, removing one and
switching keep the numbers equal to the array indices and the priorities a permutation of
\<open>0 .. n - 1\<close>; a removal takes exactly that pool out, a selected pool gets priority 0, and the
current pool stays one of the array.\<close>

theorem pools_stay_numbered:
  assumes "pools_ok s" and "a \<notin> set (pools s)" and "p \<in> set (pools s)" and "currentpool s \<in> set (pools s)"
  shows "pools_ok (add_pool a s) \<and> pools (add_pool a s) = pools s @ [a] \<and>
    pools_ok (remove_pool p s) \<and> set (pools (remove_pool p s)) = set (pools s) - {p} \<and>
    pools_ok (raise_priority p s) \<and> prio (ps_pool (raise_priority p s) p) = 0 \<and>
    pools_ok (fst (switch_pools (Some p) s)) \<and> pools_ok (fst (switch_pools None s)) \<and>
    currentpool (fst (switch_pools (Some p) s)) \<in> set (pools s) \<and>
    currentpool (fst (switch_pools None s)) \<in> set (pools s)"
  using assms add_pool_ok [OF assms(1,2)] remove_pool_ok [OF assms(1,3)] raise_pools_ok [OF assms(1,3)]
    switch_pools_ok [OF assms(1,4), of "Some p"] switch_pools_ok [OF assms(1,4), of None]
  by simp

lemma switch_finds_best:
  assumes ok: "pools_ok s" and cur: "currentpool s \<in> set (pools s)"
    and strategy: "pool_strategy s \<in> {POOL_FAILOVER, POOL_LOADBALANCE, POOL_BALANCE}"
  shows "(if \<exists>a\<in>set (pools s). \<not> pool_unusable s a
     then let c = currentpool (fst (switch_pools None s)) in
       c \<in> set (pools s) \<and> \<not> pool_unusable s c \<and>
       (\<forall>a\<in>set (pools s). \<not> pool_unusable s a \<longrightarrow> prio (ps_pool s c) \<le> prio (ps_pool s a))
     else currentpool (fst (switch_pools None s)) = currentpool s)"
proof -
  let ?P = "\<lambda>i. \<not> pool_unusable s (priority_pool i s)" and ?n = "total_pools s"
  have tgt: "switch_target None s = (case find ?P [0..<?n] of None \<Rightarrow> pool_no (ps_pool s (currentpool s))
      | Some i \<Rightarrow> pool_no (ps_pool s (priority_pool i s)))"
    using strategy by (auto simp: switch_target_def Let_def first_usable_find split: option.split)
  show ?thesis
  proof (cases "find ?P [0..<?n]")
    case None
    then have "\<forall>i < ?n. pool_unusable s (priority_pool i s)" by (auto simp: find_None_iff)
    then have "\<forall>a \<in> set (pools s). pool_unusable s a"
      using priority_pool_eq [OF ok] prio_range [OF ok] by metis
    then show ?thesis by (simp add: switch_pools_none tgt None pool_at_no [OF ok cur])
  next
    case (Some i)
    then have i: "i < ?n" "?P i" "\<forall>j < i. \<not> ?P j" by (auto simp: find_upt)
    note c = priority_pool_finds [OF ok i(1)]
    have "currentpool (fst (switch_pools None s)) = priority_pool i s"
      by (simp add: switch_pools_none tgt Some pool_at_no [OF ok c(1)])
    moreover have "prio (ps_pool s (priority_pool i s)) \<le> prio (ps_pool s a)"
      if "a \<in> set (pools s)" "\<not> pool_unusable s a" for a
      using i(3) that priority_pool_eq [OF ok that(1)] c(2) by (metis not_le)
    ultimately show ?thesis using i(2) c(1) by (auto simp: Let_def)
  qed
qed

text \<open>C31: without a selection, the strategies that stay with one pool switch to the usable pool
of the lowest priority number, and keep the current pool when none is usable.\<close>

theorem switch_takes_best_usable:
  assumes ok: "pools_ok s" and cur: "currentpool s \<in> set (pools s)"
    and strategy: "pool_strategy s \<in> {POOL_FAILOVER, POOL_LOADBALANCE, POOL_BALANCE}"
  shows "(if \<exists>a\<in>set (pools s). \<not> pool_unusable s a
     then let c = currentpool (fst (switch_pools None s)) in
       c \<in> set (pools s) \<and> \<not> pool_unusable s c \<and>
       (\<forall>a\<in>set (pools s). \<not> pool_unusable s a \<longrightarrow> prio (ps_pool s c) \<le> prio (ps_pool s a))
     else currentpool (fst (switch_pools None s)) = currentpool s)"
  by (rule switch_finds_best [OF assms])


section \<open>The quota divisor and the rotation\<close>

lemma gcd_down_props:
  "0 < g \<Longrightarrow> 0 < gcd_down q g \<and> gcd_down q g \<le> g \<and> q mod gcd_down q g = 0"
proof (induction q g rule: gcd_down.induct)
  case (1 q g)
  show ?case
  proof (cases "q mod g = 0")
    case True
    then show ?thesis using 1(2) by (simp add: gcd_down.simps [of q g])
  next
    case False
    have g1: "g \<noteq> 1" using False by auto
    have le: "g - 1 \<le> g" using 1(2) by (simp add: word_le_nat_alt unat_minus_one word_gt_0)
    have pos: "0 < g - 1" using 1(2) g1 by (metis eq_iff_diff_eq_0 word_gt_0)
    have "gcd_down q g = gcd_down q (g - 1)" using 1(2) False by (subst gcd_down.simps) (simp add: word_gt_0)
    then show ?thesis using 1(1) [OF _ pos] False 1(2) le by (auto intro: order_trans)
  qed
qed

lemma lowest_quota_le:
  fixes s :: pools_state
  defines "step \<equiv> \<lambda>lowest a. let q = ulong (quota (ps_pool s a)) in
     if q = 0 then lowest else if q < lowest then q else lowest"
  shows "foldl step l xs \<le> l"
    and "a \<in> set xs \<Longrightarrow> ulong (quota (ps_pool s a)) \<noteq> 0 \<Longrightarrow> foldl step l xs \<le> ulong (quota (ps_pool s a))"
    and "0 < l \<Longrightarrow> 0 < foldl step l xs"
proof -
  have le: "foldl step l xs \<le> l" for l xs
  proof (induction xs arbitrary: l)
    case (Cons x xs)
    have "step l x \<le> l" by (auto simp: step_def Let_def)
    with Cons [of "step l x"] show ?case by (simp add: order_trans)
  qed simp
  then show "foldl step l xs \<le> l" .
  show "foldl step l xs \<le> ulong (quota (ps_pool s a))" if "a \<in> set xs" "ulong (quota (ps_pool s a)) \<noteq> 0"
    using that(1)
  proof (induction xs arbitrary: l)
    case (Cons x xs)
    show ?case
    proof (cases "a = x")
      case True
      have "step l x \<le> ulong (quota (ps_pool s a))" using that(2) True by (auto simp: step_def Let_def)
      with le [of "step l x" xs] show ?thesis by (simp add: order_trans)
    qed (use Cons in simp)
  qed simp
  show "0 < foldl step l xs" if "0 < l"
    using that by (induction xs arbitrary: l) (auto simp: step_def Let_def word_gt_0)
qed

lemma fold_gcd:
  fixes s :: pools_state
  defines "step \<equiv> \<lambda>g a. let q = ulong (quota (ps_pool s a)) in if q = 0 then g else gcd_down q g"
  assumes "0 < g"
  shows "0 < foldl step g xs \<and> foldl step g xs \<le> g"
  using assms(2)
proof (induction xs arbitrary: g)
  case (Cons x xs)
  have "0 < step g x \<and> step g x \<le> g"
    using gcd_down_props [OF Cons.prems] Cons.prems by (simp add: step_def Let_def)
  with Cons.IH [of "step g x"] show ?case by (auto intro: order_trans)
qed simp

lemma quotas_gcd_bounds:
  shows "0 < quotas_gcd s"
    and "a \<in> set (pools s) \<Longrightarrow> ulong (quota (ps_pool s a)) \<notin> {0, - 1} \<Longrightarrow>
      quotas_gcd s \<le> ulong (quota (ps_pool s a))"
proof -
  have m1: "(0::u32) < - 1" by (simp add: word_gt_0)
  have pos: "0 < lowest_quota s"
    using lowest_quota_le(3) [of "- 1" s "pools s"] m1 by (simp add: lowest_quota_def)
  note f = fold_gcd [OF pos, of s "pools s"]
  show "0 < quotas_gcd s" using f by (simp add: quotas_gcd_def)
  show "quotas_gcd s \<le> ulong (quota (ps_pool s a))"
    if "a \<in> set (pools s)" "ulong (quota (ps_pool s a)) \<notin> {0, - 1}"
  proof -
    have low: "lowest_quota s \<le> ulong (quota (ps_pool s a))"
      using lowest_quota_le(2) [of a "pools s" s "- 1"] that by (simp add: lowest_quota_def)
    moreover have "ulong (quota (ps_pool s a)) < - 1"
      using that(2) word_order.not_eq_extremum [of "ulong (quota (ps_pool s a))"] by simp
    ultimately have "lowest_quota s < - 1" by (rule order.strict_trans1)
    moreover have "foldl (\<lambda>g a. let q = ulong (quota (ps_pool s a)) in if q = 0 then g else gcd_down q g)
        (lowest_quota s) (pools s) \<le> ulong (quota (ps_pool s a))"
      using f low by (blast intro: order_trans)
    ultimately show ?thesis by (simp only: quotas_gcd_def if_True)
  qed
qed

lemma adjust_quota_gcd_at:
  assumes "distinct (pools s)" and "a \<in> set (pools s)"
  shows "quota_gcd (ps_pool (adjust_quota_gcd s) a) = sint (ulong (quota (ps_pool s a)) div quotas_gcd s)"
    and "global_quota_gcd (adjust_quota_gcd s) = quotas_gcd s"
proof -
  have "quota_gcd (ps_pool (foldl (\<lambda>s a. upd_pool a (\<lambda>p. p\<lparr>quota_used := F s p, quota_gcd := sint (ulong (quota p) div G)\<rparr>) s) s xs) a)
      = (if a \<in> set xs then sint (ulong (quota (ps_pool s a)) div G) else quota_gcd (ps_pool s a))"
    if "distinct xs" for F xs G
    using that
  proof (induction xs arbitrary: s)
    case (Cons x xs)
    then show ?case by (cases "a = x") (auto simp: Let_def)
  qed simp
  from this [OF assms(1), where G = "quotas_gcd s"] assms(2)
  show "quota_gcd (ps_pool (adjust_quota_gcd s) a) = sint (ulong (quota (ps_pool s a)) div quotas_gcd s)"
    by (simp add: adjust_quota_gcd_def Let_def)
  show "global_quota_gcd (adjust_quota_gcd s) = quotas_gcd s"
    by (simp add: adjust_quota_gcd_def Let_def)
qed

lemma ulong_quota: "0 \<le> i \<Longrightarrow> i < 2 ^ 31 \<Longrightarrow> uint (ulong i) = i"
  by (simp add: ulong_def uint_word_of_int take_bit_int_eq_self)

text \<open>the divisor the quotas are reduced by is positive and at most every configured quota, so a
pool with a quota gets at least one share in every round and one without gets none; each pool
is given the quotient.\<close>

theorem quota_shares_positive:
  assumes ok: "pools_ok s" and quotas: "\<forall>a\<in>set (pools s). 0 \<le> quota (ps_pool s a) \<and> quota (ps_pool s a) < 2 ^ 31"
    and a: "a \<in> set (pools s)"
  shows "let t = adjust_quota_gcd s; g = uint (global_quota_gcd t) in
    0 < g \<and> (0 < quota (ps_pool s a) \<longrightarrow> g \<le> quota (ps_pool s a)) \<and>
    quota_gcd (ps_pool t a) = quota (ps_pool s a) div g \<and>
    (0 < quota_gcd (ps_pool t a) \<longleftrightarrow> 0 < quota (ps_pool s a))"
proof -
  let ?q = "quota (ps_pool s a)" and ?g = "quotas_gcd s"
  have d: "distinct (pools s)" using ok by (simp add: pools_ok_def)
  have q: "0 \<le> ?q" "?q < 2 ^ 31" using quotas a by auto
  note u = ulong_quota [OF q]
  have g: "0 < uint ?g" using quotas_gcd_bounds(1) [of s] by (simp add: word_less_alt)
  have le: "uint ?g \<le> ?q" if "0 < ?q"
  proof -
    have "ulong ?q \<noteq> 0" "ulong ?q \<noteq> - 1" using u q that by (auto simp: uint_word_ariths)
    with quotas_gcd_bounds(2) [OF a] have "?g \<le> ulong ?q" by simp
    then show ?thesis by (simp add: word_le_def u)
  qed
  have "uint (ulong ?q div ?g) = ?q div uint ?g" by (simp add: uint_div u)
  moreover have "?q div uint ?g \<le> ?q" using q(1) g by (metis div_by_1 zdiv_mono2 zero_less_one int_one_le_iff_zero_less)
  ultimately have "sint (ulong ?q div ?g) = ?q div uint ?g"
    using q g pos_imp_zdiv_nonneg_iff [OF g, of ?q]
    by (simp add: sint_uint) (simp add: signed_take_bit_int_eq_self_iff)
  moreover have "0 < ?q div uint ?g \<longleftrightarrow> 0 < ?q"
    using le g q(1) by (auto simp: pos_imp_zdiv_pos_iff)
  ultimately show ?thesis using g le by (simp add: Let_def adjust_quota_gcd_at [OF d a])
qed


section \<open>The rotation\<close>

definition quota_left :: "pools_state \<Rightarrow> nat \<Rightarrow> bool" where
  "quota_left s a \<longleftrightarrow> quota_used (ps_pool s a) < quota_gcd (ps_pool s a)"

lemma workable_upd_used [simp]:
  "pool_unworkable (upd_pool b (\<lambda>p. p\<lparr>quota_used := f p\<rparr>) s) a = pool_unworkable s a"
  "pool_unworkable (s\<lparr>rotating_pool := r\<rparr>) a = pool_unworkable s a"
  by (simp_all add: pool_unworkable_def)

lemma mod_add_neq:
  fixes r :: nat
  assumes "r < n" and "0 < j" and "j < n"
  shows "(r + j) mod n \<noteq> r"
proof (cases "r + j < n")
  case False
  with assms have "(r + j) mod n = r + j - n" by (simp add: mod_if)
  with assms False show ?thesis by linarith
qed (use assms in simp)

text \<open>Turn \<open>j\<close> looks at the pool \<open>j\<close> places after the rotating one.\<close>

lemma rotate_finds:
  assumes "distinct (pools s)" and "rotating_pool s < total_pools s" and "k \<le> total_pools s" and "j < k"
    and "a = pools s ! ((rotating_pool s + j) mod total_pools s)"
    and "quota_left s a" and "\<not> pool_unworkable s a"
  shows "\<exists>b t. rotate_select k s = (Some b, t) \<and> b \<in> set (pools s) \<and> \<not> pool_unworkable s b"
  using assms
proof (induction k arbitrary: s j)
  case (Suc k)
  let ?n = "total_pools s" and ?p = "pools s ! rotating_pool s"
  show ?case
  proof (cases "quota_left s ?p \<and> \<not> pool_unworkable s ?p")
    case True
    then show ?thesis using Suc.prems(2) by (simp add: Let_def quota_left_def)
  next
    case False
    define s1 where "s1 = upd_pool ?p (\<lambda>p. p\<lparr>quota_used := quota_used p + 1\<rparr>) s"
    define s2 where "s2 = (if quota_left s ?p \<and> opt_fail_only s1
       then upd_pool (priority_pool 0 s1) (\<lambda>p. p\<lparr>quota_used := quota_used p - 1\<rparr>) s1 else s1)"
    define s3 where "s3 = s2\<lparr>rotating_pool := (if rotating_pool s2 + 1 \<ge> total_pools s2 then 0 else rotating_pool s2 + 1)\<rparr>"
    have step: "rotate_select (Suc k) s = rotate_select k s3"
    proof -
      have "(quota_left s ?p \<and> \<not> pool_unworkable s1 ?p) = False" using False by (simp add: s1_def)
      then show ?thesis
        by (simp only: rotate_select.simps Let_def quota_left_def [symmetric] s1_def [symmetric]
          s2_def [symmetric] s3_def [symmetric] if_False)
    qed
    have ps: "pools s3 = pools s" by (simp add: s1_def s2_def s3_def)
    have un: "pool_unworkable s3 b = pool_unworkable s b" for b by (simp add: s1_def s2_def s3_def)
    have j: "j \<noteq> 0" using False Suc.prems(2,5,6,7) by (cases j) auto
    then obtain i where i: "j = Suc i" by (cases j) auto
    have n: "0 < ?n" using Suc.prems(2) by linarith
    have "rotating_pool s3 = (if rotating_pool s + 1 \<ge> ?n then 0 else rotating_pool s + 1)"
      by (simp add: s1_def s2_def s3_def)
    then have rot: "rotating_pool s3 = (rotating_pool s + 1) mod ?n"
      using Suc.prems(2) by (simp add: mod_if)
    have at: "(rotating_pool s3 + i) mod ?n = (rotating_pool s + j) mod ?n"
      by (simp add: rot i mod_simps)
    have "(rotating_pool s + j) mod ?n \<noteq> rotating_pool s"
      using mod_add_neq [OF Suc.prems(2), of j] j Suc.prems(3,4) by simp
    then have ne: "a \<noteq> ?p"
      using Suc.prems(1,2,5) n by (simp add: nth_eq_iff_index_eq)
    have left: "quota_left s3 a"
      using Suc.prems(6) ne by (auto simp: s1_def s2_def s3_def quota_left_def)
    have "\<exists>b t. rotate_select k s3 = (Some b, t) \<and> b \<in> set (pools s3) \<and> \<not> pool_unworkable s3 b"
    proof (rule Suc.IH)
      show "rotating_pool s3 < total_pools s3" using n by (simp add: rot ps)
      show "a = pools s3 ! ((rotating_pool s3 + i) mod total_pools s3)" using Suc.prems(5) by (simp add: ps at)
    qed (use Suc.prems left un ps i in simp_all)
    then show ?thesis unfolding step ps un .
  qed
qed simp

text \<open>load balancing gives the work to a pool that can work: whenever some workable pool has
quota left in this round, \<open>select_pool\<close> returns a pool of the array that is neither idle, nor
disabled, nor waiting for its stratum connection.\<close>

theorem load_balance_finds_workable:
  assumes ok: "pools_ok s" and strategy: "pool_strategy s = POOL_LOADBALANCE"
    and rot: "rotating_pool s < total_pools s"
    and a: "a \<in> set (pools s)" "quota_used (ps_pool s a) < quota_gcd (ps_pool s a)" "\<not> pool_unworkable s a"
  shows "fst (select_pool lag s) \<in> set (pools s) \<and> \<not> pool_unworkable s (fst (select_pool lag s))"
proof -
  let ?n = "total_pools s" and ?r = "rotating_pool s"
  obtain i where i: "i < ?n" "pools s ! i = a" using a(1) by (auto simp: in_set_conv_nth)
  define j where "j = (if ?r \<le> i then i - ?r else i + ?n - ?r)"
  have j: "j < ?n" "(?r + j) mod ?n = i" using i rot by (auto simp: j_def)
  have "quota_left s a" using a(2) by (simp add: quota_left_def)
  with rotate_finds [of s ?n j a] ok rot j i(2) a(3)
  obtain b t where "rotate_select ?n s = (Some b, t)" "b \<in> set (pools s)" "\<not> pool_unworkable s b"
    by (auto simp: pools_ok_def)
  moreover have "\<exists>a\<in>set (pools s). quota_used (ps_pool s a) < quota_gcd (ps_pool s a)" using a by blast
  ultimately show ?thesis using strategy by (simp add: select_pool_def Let_def)
qed


section \<open>Concrete states\<close>

definition new_pool :: pool where
  "new_pool = \<lparr>pool_no = 0, prio = 0, quota = 1, quota_gcd = 0, quota_used = 0, shares = 0,
     idle = False, enabled = POOL_DISABLED, has_stratum = False, stratum_active = False,
     has_gbt = False, gbt_solo = False, hdr_path = False, sshares = 0, lagging = False, removed = False\<rparr>"

definition no_pools :: pools_state where
  "no_pools = \<lparr>ps_pool = (\<lambda>a. new_pool), pools = [], currentpool = 10, global_quota_gcd = 1,
     rotating_pool = 0, pool_strategy = POOL_FAILOVER, opt_fail_only = False, enabled_pools = 0, no_work = False\<rparr>"

text \<open>Two enabled pools with quotas 4 and 6; the first one is dead.\<close>

definition two_pools :: pools_state where
  "two_pools = no_pools\<lparr>pools := [10, 11], enabled_pools := 2,
     ps_pool := (\<lambda>a. if a = 10 then new_pool\<lparr>quota := 4, enabled := POOL_ENABLED, idle := True\<rparr>
       else new_pool\<lparr>pool_no := 1, prio := 1, quota := 6, enabled := POOL_ENABLED\<rparr>)\<rparr>"

lemma two_pools_ok:
  "pools two_pools = [10, 11]" "pools_ok two_pools" "currentpool two_pools = 10"
  "pool_strategy two_pools = POOL_FAILOVER" "rotating_pool two_pools = 0"
  by (auto simp: two_pools_def no_pools_def new_pool_def pools_ok_def less_Suc_eq bij_betw_def lessThan_Suc)

lemma pools_stay_numbered_witness:
  "pools_ok (remove_pool 10 two_pools) \<and> set (pools (remove_pool 10 two_pools)) = {11} \<and>
   pools_ok (fst (switch_pools (Some 11) two_pools))"
  using pools_stay_numbered [of two_pools 12 10] pools_stay_numbered [of two_pools 12 11] two_pools_ok by auto

lemma switch_takes_best_usable_witness: "currentpool (fst (switch_pools None two_pools)) = 11"
  using switch_takes_best_usable [of two_pools] two_pools_ok
  by (auto simp: pool_unusable_def two_pools_def no_pools_def new_pool_def Let_def)

text \<open>Quotas 4 and 6 are divided by 3, which divides only the last of them.\<close>

lemma quota_shares_positive_witness:
  "global_quota_gcd (adjust_quota_gcd two_pools) = 3 \<and>
   quota_gcd (ps_pool (adjust_quota_gcd two_pools) 10) = 1 \<and> 4 mod (3::int) \<noteq> 0"
proof -
  have g: "quotas_gcd two_pools = 3" by code_simp
  have q: "\<forall>a\<in>set (pools two_pools). 0 \<le> quota (ps_pool two_pools a) \<and> quota (ps_pool two_pools a) < 2 ^ 31"
    "quota (ps_pool two_pools 10) = 4"
    by (simp_all add: two_pools_def no_pools_def new_pool_def)
  have gg: "global_quota_gcd (adjust_quota_gcd two_pools) = 3"
    using adjust_quota_gcd_at(2) [of two_pools 10] g two_pools_ok(1) by simp
  have "quota_gcd (ps_pool (adjust_quota_gcd two_pools) 10) = quota (ps_pool two_pools 10) div uint (3::u32)"
    using quota_shares_positive [of two_pools 10] two_pools_ok(1,2) q(1) gg by (simp add: Let_def)
  then show ?thesis using gg q(2) by simp
qed

text \<open>The same pools under load balancing; the second one has two shares in a round.\<close>

definition balanced_pools :: pools_state where
  "balanced_pools = upd_pool 11 (\<lambda>p. p\<lparr>quota_gcd := 2\<rparr>) (two_pools\<lparr>pool_strategy := POOL_LOADBALANCE\<rparr>)"

lemma load_balance_finds_workable_witness: "fst (select_pool False balanced_pools) = 11"
proof -
  have "pools_ok balanced_pools = pools_ok two_pools"
    by (rule pools_ok_cong) (simp_all add: balanced_pools_def)
  then show ?thesis
    using load_balance_finds_workable [of balanced_pools 11 False] two_pools_ok
    by (auto simp: balanced_pools_def two_pools_def no_pools_def new_pool_def pool_unworkable_def)
qed

end
