(* ===== verification/Url.thy ===== *)
theory Url
  imports Prelude
begin

text \<open>
  Where a pool is: the address parsing of \<open>src/cgminer/util.c\<close> (\<open>extract_sockaddr\<close>,
  \<open>get_proxy\<close>) and of \<open>src/cgminer/cgminer.c\<close> (\<open>detect_stratum\<close>, \<open>setup_url\<close>), over the C
  library's string functions.

  A C string is the list of its characters before the NUL. \<open>None\<close> is a write past the end of
  a buffer, after which C defines nothing.
\<close>

section \<open>String functions of the C library\<close>

fun strstr :: "string \<Rightarrow> string \<Rightarrow> nat option" where
  "strstr [] needle = (if needle = [] then Some 0 else None)"
| "strstr (c # cs) needle =
     (if take (length needle) (c # cs) = needle then Some 0 else map_option Suc (strstr cs needle))"

definition strchr :: "string \<Rightarrow> char \<Rightarrow> nat option" where
  "strchr s c = strstr s [c]"

definition strncmp_eq :: "string \<Rightarrow> string \<Rightarrow> nat \<Rightarrow> bool" where
  "strncmp_eq a b n \<longleftrightarrow> take n a = take n b"

definition tolower :: "char \<Rightarrow> char" where
  "tolower c = (if 65 \<le> (of_char c :: nat) \<and> (of_char c :: nat) \<le> 90 then char_of (of_char c + 32 :: nat) else c)"

definition strncasecmp_eq :: "string \<Rightarrow> string \<Rightarrow> nat \<Rightarrow> bool" where
  "strncasecmp_eq a b n \<longleftrightarrow> map tolower (take n a) = map tolower (take n b)"

section \<open>Addresses\<close>

definition find_url_end :: "string \<Rightarrow> nat option" where
  "find_url_end url_begin =
     (case (strstr url_begin ''['', strstr url_begin '']'') of
        (Some ipv6_begin, Some ipv6_end) \<Rightarrow>
          if ipv6_end > ipv6_begin
          then map_option (\<lambda>i. ipv6_end + i) (strstr (drop ipv6_end url_begin) '':'')
          else strstr url_begin '':''
      | _ \<Rightarrow> strstr url_begin '':'')"

text \<open>
  The result: success, the new \<open>sockaddr_url\<close> (set to the whole URL even on failure), and the
  new \<open>sockaddr_port\<close>, if it is set. \<open>url_address\<close> has 256 bytes.
\<close>

definition extract_sockaddr :: "string \<Rightarrow> (bool \<times> string \<times> string option) option" where
  "extract_sockaddr url =
     (let url_begin = (case strstr url ''//'' of None \<Rightarrow> url | Some i \<Rightarrow> drop (i + 2) url);
          (url_len, port_start) = (case find_url_end url_begin of
             Some url_end \<Rightarrow> (url_end, Some (drop (url_end + 1) url_begin))
           | None \<Rightarrow> (length url_begin, None))
      in if port_start = Some [] \<or> url_len < 1 then Some (False, url, None)
         else if url_len + 1 > 256 then None
         else
           let port = (case port_start of
                 Some p \<Rightarrow> takeWhile (\<lambda>c. c \<noteq> CHR ''/'') (take 5 p)
               | None \<Rightarrow> ''80'')
           in Some (True, take url_len url_begin, Some port))"

section \<open>A pool's connection details\<close>

datatype proxytypes_t = PROXY_HTTP | PROXY_HTTP_1_0 | PROXY_SOCKS4 | PROXY_SOCKS5 | PROXY_SOCKS4A | PROXY_SOCKS5H

definition proxynames :: "(string \<times> proxytypes_t) list" where
  "proxynames = [(''http:'', PROXY_HTTP), (''http0:'', PROXY_HTTP_1_0), (''socks4:'', PROXY_SOCKS4),
     (''socks5:'', PROXY_SOCKS5), (''socks4a:'', PROXY_SOCKS4A), (''socks5h:'', PROXY_SOCKS5H)]"

definition proxytype :: "proxytypes_t \<Rightarrow> string" where
  "proxytype t = (case find (\<lambda>p. snd p = t) proxynames of Some (name, _) \<Rightarrow> name | None \<Rightarrow> ''invalid'')"

record pool_details =
  rpc_url :: "string option"
  rpc_user :: "string option"
  rpc_pass :: "string option"
  rpc_userpass :: "string option"
  rpc_proxy :: "string option"
  rpc_proxytype :: proxytypes_t
  sockaddr_url :: "string option"
  stratum_port :: "string option"
  stratum_url :: "string option"
  sockaddr_proxy_url :: "string option"
  sockaddr_proxy_port :: "string option"
  stratum_pool :: bool

definition get_proxy :: "string \<Rightarrow> pool_details \<Rightarrow> (string \<times> pool_details) option" where
  "get_proxy url p =
     (let p = p\<lparr>rpc_proxy := None\<rparr>
      in case find (\<lambda>(name, _). strncmp_eq url name (length name)) proxynames of
        None \<Rightarrow> Some (url, p)
      | Some (name, t) \<Rightarrow>
          (case strchr url (CHR ''|'') of
             None \<Rightarrow> Some (url, p)
           | Some split \<Rightarrow>
               (let proxy = drop (length name) (take split url)
                in case extract_sockaddr proxy of
                  None \<Rightarrow> None
                | Some (_, addr, port) \<Rightarrow>
                    Some (drop (split + 1) url,
                      p\<lparr>rpc_proxy := Some proxy, sockaddr_proxy_url := Some addr,
                        sockaddr_proxy_port := (case port of None \<Rightarrow> sockaddr_proxy_port p | Some q \<Rightarrow> Some q),
                        rpc_proxytype := t\<rparr>))))"

definition detect_stratum :: "pool_details \<Rightarrow> string \<Rightarrow> (bool \<times> pool_details) option" where
  "detect_stratum p url =
     (case extract_sockaddr url of
        None \<Rightarrow> None
      | Some (ok, addr, port) \<Rightarrow>
          (let p = p\<lparr>sockaddr_url := Some addr,
                 stratum_port := (case port of None \<Rightarrow> stratum_port p | Some q \<Rightarrow> Some q)\<rparr>
           in if \<not> ok then Some (False, p)
              else if strncasecmp_eq url ''stratum+tcp://'' 14
              then Some (True, p\<lparr>rpc_url := Some url, stratum_pool := True, stratum_url := sockaddr_url p\<rparr>)
              else Some (False, p)))"

text \<open>\<open>httpinput\<close> has 256 bytes; \<open>strncat\<close> appends at most 242 characters and a NUL to its 14.\<close>

definition setup_url :: "pool_details \<Rightarrow> string \<Rightarrow> pool_details option" where
  "setup_url p arg =
     (case get_proxy arg p of
        None \<Rightarrow> None
      | Some (arg, p) \<Rightarrow>
          (case detect_stratum p arg of
             None \<Rightarrow> None
           | Some (True, p) \<Rightarrow> Some p
           | Some (False, p) \<Rightarrow>
               (let p = p\<lparr>rpc_url := Some arg\<rparr>
                in if \<not> strncmp_eq arg ''http://'' 7 \<and> \<not> strncmp_eq arg ''https://'' 8
                   then let httpinput = ''stratum+tcp://'' @ take 242 arg
                        in if length httpinput + 1 > 256 then None
                           else map_option snd (detect_stratum p httpinput)
                   else Some p)))"


section \<open>Facts about the string functions\<close>

lemma strstr_char_None: "strstr s [c] = None \<longleftrightarrow> c \<notin> set s"
  by (induction s) auto

lemma strstr_char_first: "c \<notin> set h \<Longrightarrow> strstr (h @ c # r) [c] = Some (length h)"
  by (induction h) auto

lemma strstr_None_drop: "strstr s n = None \<Longrightarrow> n \<noteq> [] \<Longrightarrow> take (length n) (drop i s) \<noteq> n"
proof (induction s arbitrary: i)
  case (Cons c s)
  then show ?case by (cases i) (auto split: if_splits)
qed simp

lemma find_url_end_plain:
  "CHR '':'' \<notin> set h \<Longrightarrow> CHR ''['' \<notin> set (h @ r) \<Longrightarrow> find_url_end (h @ CHR '':'' # r) = Some (length h)"
proof -
  assume h: "CHR '':'' \<notin> set h" and b: "CHR ''['' \<notin> set (h @ r)"
  have "strstr (h @ CHR '':'' # r) ''['' = None" using b by (simp add: strstr_char_None)
  then show ?thesis by (simp add: find_url_end_def strstr_char_first [OF h])
qed

definition port_of :: "string \<Rightarrow> string" where
  "port_of r = takeWhile (\<lambda>c. c \<noteq> CHR ''/'') (take 5 r)"

lemma port_of_path: "CHR ''/'' \<notin> set port \<Longrightarrow> length port \<le> 5 \<Longrightarrow> path = [] \<or> hd path = CHR ''/'' \<Longrightarrow>
    port_of (port @ path) = port"
  by (cases path; cases "length port = 5") (auto simp: port_of_def takeWhile_append takeWhile_eq_all_conv take_Cons')

lemma extract_plain:
  assumes "strstr url ''//'' = None \<and> begin' = url \<or>
      (\<exists>i. strstr url ''//'' = Some i \<and> begin' = drop (i + 2) url)"
    and "begin' = h @ CHR '':'' # r" and "CHR '':'' \<notin> set h" and "CHR ''['' \<notin> set (h @ r)" and "r \<noteq> []" and "h \<noteq> []"
  shows "extract_sockaddr url = (if length h > 255 then None else Some (True, h, Some (port_of r)))"
proof -
  have b: "(case strstr url ''//'' of None \<Rightarrow> url | Some i \<Rightarrow> drop (i + 2) url) = h @ CHR '':'' # r"
    using assms(1,2) by auto
  have "length h \<ge> 1" using assms(6) by (cases h) auto
  then show ?thesis
    unfolding extract_sockaddr_def b Let_def find_url_end_plain [OF assms(3,4)]
    using assms(5,6) by (simp add: port_of_def)
qed

text \<open>an address \<open>scheme://host:port/path\<close> is split into its host and its port: the text
between \<open>//\<close> and the first colon, and up to five characters of the port, the path dropped. A
host of more than 255 characters is written past the end of the buffer \<open>url_address\<close>.\<close>

theorem extract_sockaddr_splits:
  assumes "CHR ''/'' \<notin> set scheme" and "h \<noteq> []" and "CHR '':'' \<notin> set h" and "CHR ''['' \<notin> set (h @ port @ path)"
    and "port \<noteq> []" and "CHR ''/'' \<notin> set port" and "length port \<le> 5" and "path = [] \<or> hd path = CHR ''/''"
  shows "extract_sockaddr (scheme @ ''//'' @ h @ '':'' @ port @ path) =
    (if length h \<le> 255 then Some (True, h, Some port) else None)"
proof -
  have "strstr (scheme @ ''//'' @ x) ''//'' = Some (length scheme)" for x
    using assms(1) by (induction scheme) auto
  then have "extract_sockaddr (scheme @ ''//'' @ h @ '':'' @ port @ path) =
      (if length h > 255 then None else Some (True, h, Some (port_of (port @ path))))"
    by (intro extract_plain [where begin' = "h @ CHR '':'' # port @ path"]) (use assms in auto)
  then show ?thesis by (simp add: port_of_path assms)
qed

lemma extract_sockaddr_splits_witness:
  "extract_sockaddr ''stratum+tcp://btc.example:3333/x'' = Some (True, ''btc.example'', Some ''3333'')"
  using extract_sockaddr_splits [of "''stratum+tcp:''" "''btc.example''" "''3333''" "''/x''"] by simp

lemma tolower_slash: "tolower c = CHR ''/'' \<Longrightarrow> c = CHR ''/''"
proof (rule ccontr)
  assume t: "tolower c = CHR ''/''" and "c \<noteq> CHR ''/''"
  then have r: "65 \<le> (of_char c :: nat)" "(of_char c :: nat) \<le> 90" and
    "char_of (of_char c + 32 :: nat) = CHR ''/''"
    by (auto simp: tolower_def split: if_splits)
  from this(3) have "(of_char (char_of (of_char c + 32 :: nat)) :: nat) = of_char (CHR ''/'')" by simp
  then have "(of_char c + 32) mod 256 = (47::nat)" by (simp only: of_char_of) simp
  with r show False by simp
qed

text \<open>a bare \<open>host:port\<close> becomes a stratum pool: the URL gets the prefix
\<open>stratum+tcp://\<close> and the host and the port are the pool's stratum address. A bare address of 242
characters or more ends in a write one byte past the end of \<open>httpinput\<close>.\<close>

theorem setup_url_bare:
  assumes bare: "strstr arg ''//'' = None" "\<forall>(name, _)\<in>set proxynames. \<not> strncmp_eq arg name (length name)"
    and arg: "arg = h @ '':'' @ r" and h: "h \<noteq> []" "CHR '':'' \<notin> set h" "length h \<le> 255" and r: "r \<noteq> []"
    and "CHR ''['' \<notin> set arg"
  shows "setup_url p arg =
    (if length arg < 242 then Some (p\<lparr>rpc_proxy := None, rpc_url := Some (''stratum+tcp://'' @ arg),
        sockaddr_url := Some h, stratum_port := Some (port_of r), stratum_url := Some h, stratum_pool := True\<rparr>)
     else None)"
proof -
  let ?p = "p\<lparr>rpc_proxy := None\<rparr>"
  have prox: "get_proxy arg p = Some (arg, ?p)"
  proof -
    have "find (\<lambda>(name, _). strncmp_eq arg name (length name)) proxynames = None"
      using bare(2) by (auto simp: find_None_iff)
    then show ?thesis by (simp add: get_proxy_def Let_def)
  qed
  have nb: "CHR ''['' \<notin> set (h @ r)" using assms(8) arg by simp
  have arg': "arg = h @ CHR '':'' # r" using arg by simp
  have ex: "extract_sockaddr url = Some (True, h, Some (port_of r))"
    if "strstr url ''//'' = None \<and> arg = url \<or> (\<exists>i. strstr url ''//'' = Some i \<and> arg = drop (i + 2) url)" for url
    using extract_plain [OF that arg' h(2) nb r h(1)] h(3) by simp
  have slashes: "take 2 (drop i arg) \<noteq> ''//''" for i
    using strstr_None_drop [OF bare(1), of i] by (simp add: numeral_2_eq_2)
  have "\<not> strncasecmp_eq arg ''stratum+tcp://'' 14"
  proof
    assume "strncasecmp_eq arg ''stratum+tcp://'' 14"
    then have "drop 12 (map tolower (take 14 arg)) = ''//''" by (simp add: strncasecmp_eq_def tolower_def)
    then have "map tolower (take 2 (drop 12 arg)) = ''//''" by (simp add: drop_map drop_take)
    then have "take 2 (drop 12 arg) = ''//''" using tolower_slash by (auto simp: map_eq_Cons_conv)
    with slashes show False by blast
  qed
  then have d1: "detect_stratum ?p arg = Some (False, ?p\<lparr>sockaddr_url := Some h, stratum_port := Some (port_of r)\<rparr>)"
    using ex [of arg] bare(1) by (simp add: detect_stratum_def Let_def)
  have "\<not> strncmp_eq arg ''http://'' 7"
  proof
    assume "strncmp_eq arg ''http://'' 7"
    then have "drop 5 (take 7 arg) = ''//''" by (simp add: strncmp_eq_def)
    with slashes [of 5] show False by (simp add: drop_take)
  qed
  moreover have "\<not> strncmp_eq arg ''https://'' 8"
  proof
    assume "strncmp_eq arg ''https://'' 8"
    then have "drop 6 (take 8 arg) = ''//''" by (simp add: strncmp_eq_def)
    with slashes [of 6] show False by (simp add: drop_take)
  qed
  ultimately have "setup_url p arg = (if length arg < 242
      then map_option snd (detect_stratum (?p\<lparr>sockaddr_url := Some h, stratum_port := Some (port_of r), rpc_url := Some arg\<rparr>)
        (''stratum+tcp://'' @ arg)) else None)"
    by (simp add: setup_url_def prox d1 Let_def)
  moreover have "strstr (''stratum+tcp://'' @ arg) ''//'' = Some 12" by simp
  then have "extract_sockaddr (''stratum+tcp://'' @ arg) = Some (True, h, Some (port_of r))"
    by (intro ex) simp
  ultimately show ?thesis
    by (simp add: detect_stratum_def Let_def strncasecmp_eq_def)
qed

definition blank_details :: pool_details where
  "blank_details = \<lparr>rpc_url = None, rpc_user = None, rpc_pass = None, rpc_userpass = None, rpc_proxy = None,
     rpc_proxytype = PROXY_HTTP, sockaddr_url = None, stratum_port = None, stratum_url = None,
     sockaddr_proxy_url = None, sockaddr_proxy_port = None, stratum_pool = False\<rparr>"

lemma setup_url_bare_witness:
  "setup_url blank_details ''pool:3333/a'' = Some (blank_details\<lparr>rpc_url := Some ''stratum+tcp://pool:3333/a'',
      sockaddr_url := Some ''pool'', stratum_port := Some ''3333'', stratum_url := Some ''pool'', stratum_pool := True\<rparr>) \<and>
   setup_url blank_details (''pool:3333/'' @ replicate 232 (CHR ''a'')) = None"
proof
  show "setup_url blank_details ''pool:3333/a'' = Some (blank_details\<lparr>rpc_url := Some ''stratum+tcp://pool:3333/a'',
      sockaddr_url := Some ''pool'', stratum_port := Some ''3333'', stratum_url := Some ''pool'', stratum_pool := True\<rparr>)"
    by (rule trans [OF setup_url_bare [where h = "''pool''" and r = "''3333/a''"]])
      (simp_all add: proxynames_def strncmp_eq_def port_of_def blank_details_def)
  have s: "strstr (replicate n (CHR ''a'')) ''//'' = None" for n by (induction n) auto
  have b: "CHR ''['' \<notin> set (replicate n (CHR ''a''))" for n by (induction n) auto
  have "setup_url blank_details (''pool:3333/'' @ replicate n (CHR ''a'')) = None" if "232 \<le> n" for n
    by (rule trans [OF setup_url_bare [where h = "''pool''" and r = "''3333/'' @ replicate n (CHR ''a'')"]])
      (use that s b in \<open>simp_all add: proxynames_def strncmp_eq_def\<close>)
  then show "setup_url blank_details (''pool:3333/'' @ replicate 232 (CHR ''a'')) = None" by blast
qed

end
