(* ===== verification/Pool_Control.thy ===== *)
theory Pool_Control
  imports Pools Url
begin

text \<open>
  The commands that change the pools while the miner runs: the API's of \<open>src/cgminer/api.c\<close>
  (\<open>switchpool\<close>, \<open>addpool\<close>, \<open>enablepool\<close>, \<open>poolpriority\<close>, \<open>poolquota\<close>, \<open>disablepool\<close>,
  \<open>removepool\<close>) with the parsing of their parameters, the pool menu of
  \<open>src/cgminer/cgminer.c\<close> (\<open>display_pools\<close>), and the pools' own events (\<open>pool_died\<close>, the
  disabling of a pool that rejects every share).

  A command returns the message it answers with and the new state. The parameter is \<open>None\<close> for
  the null pointer. \<open>current_pool()\<close> is the field \<open>currentpool\<close>.
\<close>

section \<open>Numbers in parameters\<close>

definition isdigit :: "char \<Rightarrow> bool" where
  "isdigit c \<longleftrightarrow> 48 \<le> (of_char c :: nat) \<and> (of_char c :: nat) \<le> 57"

definition isspace :: "char \<Rightarrow> bool" where
  "isspace c \<longleftrightarrow> (of_char c :: nat) \<in> {9, 10, 11, 12, 13, 32}"

fun digits_value :: "nat \<Rightarrow> string \<Rightarrow> nat" where
  "digits_value n [] = n"
| "digits_value n (c # cs) = (if isdigit c then digits_value (10 * n + (of_char c - 48)) cs else n)"

text \<open>\<open>atoi\<close> is \<open>strtol\<close> in base ten, which saturates at the bounds of a 32-bit \<open>long\<close>.\<close>

definition atoi :: "string \<Rightarrow> int" where
  "atoi s = (let s = dropWhile isspace s
     in case s of
       c # cs \<Rightarrow> if c = CHR ''-'' then max (- (2 ^ 31)) (- int (digits_value 0 cs))
         else if c = CHR ''+'' then min (2 ^ 31 - 1) (int (digits_value 0 cs))
         else min (2 ^ 31 - 1) (int (digits_value 0 s))
     | [] \<Rightarrow> 0)"

text \<open>Numbers as \<open>sprintf\<close> writes them with \<open>%d\<close>; \<open>atoi\<close> reads them back.\<close>

fun decimal :: "nat \<Rightarrow> string" where
  "decimal n = (if n div 10 = 0 then [] else decimal (n div 10)) @ [char_of (48 + n mod 10)]"

declare decimal.simps [simp del]

definition int_text :: "int \<Rightarrow> string" where
  "int_text i = (if i < 0 then CHR ''-'' # decimal (nat (- i)) else decimal (nat i))"

lemma digits_value_append:
  "\<forall>x\<in>set xs. isdigit x \<Longrightarrow> isdigit c \<Longrightarrow> digits_value v (xs @ [c]) = 10 * digits_value v xs + (of_char c - 48)"
  by (induction v xs rule: digits_value.induct) auto

lemma decimal_digits: "(\<forall>x\<in>set (decimal n). isdigit x) \<and> decimal n \<noteq> [] \<and> digits_value 0 (decimal n) = n"
proof (induction n rule: decimal.induct)
  case (1 n)
  have c: "isdigit (char_of (48 + n mod 10))" "of_char (char_of (48 + n mod 10) :: char) - 48 = n mod 10"
    by (simp_all add: isdigit_def)
  show ?case
  proof (cases "n div 10 = 0")
    case True
    then have "decimal n = [char_of (48 + n mod 10)]" by (subst decimal.simps) simp
    then show ?thesis using c True by simp
  next
    case False
    then have d: "decimal n = decimal (n div 10) @ [char_of (48 + n mod 10)]" by (subst decimal.simps) simp
    have ih: "\<forall>x\<in>set (decimal (n div 10)). isdigit x" "digits_value 0 (decimal (n div 10)) = n div 10" using 1 [OF False] by auto
    have "digits_value 0 (decimal n) = 10 * (n div 10) + n mod 10"
      unfolding d using digits_value_append [OF ih(1) c(1), of 0] ih(2) c(2) by simp
    then show ?thesis using ih(1) c(1) d by auto
  qed
qed

lemma atoi_int_text: "i \<in> {0..<2 ^ 31} \<Longrightarrow> atoi (int_text i) = i"
proof -
  assume i: "i \<in> {0..<2 ^ 31}"
  obtain c cs where d: "decimal (nat i) = c # cs" "isdigit c" using decimal_digits [of "nat i"] by (cases "decimal (nat i)") auto
  then have "\<not> isspace c" "c \<noteq> CHR ''-''" "c \<noteq> CHR ''+''" by (auto simp: isdigit_def isspace_def)
  then have "atoi (decimal (nat i)) = min (2 ^ 31 - 1) (int (digits_value 0 (decimal (nat i))))" by (simp add: atoi_def d)
  then show ?thesis using i decimal_digits [of "nat i"] by (simp add: int_text_def)
qed

section \<open>The state\<close>

record control =
  cs_pools :: pools_state
  cs_details :: "nat \<Rightarrow> pool_details"

datatype api_msg = MSG_NOPOOL | MSG_MISPID | MSG_INVPID | MSG_SWITCHP | MSG_MISPDP | MSG_INVPDP | MSG_ADDPOOL
  | MSG_ALRENAP | MSG_ENAPOOL | MSG_DUPPID | MSG_POOLPRIO | MSG_CONVAL | MSG_INVNEG | MSG_SETQUOTA
  | MSG_ALRDISP | MSG_DISLASTP | MSG_DISPOOL | MSG_REMLASTP | MSG_ACTPOOL | MSG_REMPOOL

section \<open>Pool details\<close>

text \<open>The copied text and the rest of the parameter.\<close>

fun copyadvanceafter :: "char \<Rightarrow> string \<Rightarrow> string \<times> string" where
  "copyadvanceafter ch [] = ([], [])"
| "copyadvanceafter ch [c] = (if c = ch then ([], []) else ([c], []))"
| "copyadvanceafter ch (c # d # cs) =
     (if c = ch then ([], d # cs)
      else if c = CHR 0x5C
      then let (w, r) = copyadvanceafter ch cs in (d # w, r)
      else let (w, r) = copyadvanceafter ch (d # cs) in (c # w, r))"

definition pooldetails :: "string \<Rightarrow> (string \<times> string \<times> string) option" where
  "pooldetails param =
     (let (url, param) = copyadvanceafter (CHR '','') param
      in if param = [] then None
      else let (user, param) = copyadvanceafter (CHR '','') param
      in if param = [] then None
      else let (pass, param) = copyadvanceafter (CHR '','') param
      in Some (url, user, pass))"

definition put_details :: "nat \<Rightarrow> pool_details \<Rightarrow> control \<Rightarrow> control" where
  "put_details a d s = s\<lparr>cs_details := (cs_details s)(a := d),
     cs_pools := upd_pool a (\<lambda>p. p\<lparr>has_stratum := stratum_pool d\<rparr>) (cs_pools s)\<rparr>"

definition blank_details :: pool_details where
  "blank_details = \<lparr>rpc_url = None, rpc_user = None, rpc_pass = None, rpc_userpass = None, rpc_proxy = None,
     rpc_proxytype = PROXY_HTTP, sockaddr_url = None, stratum_port = None, stratum_url = None,
     sockaddr_proxy_url = None, sockaddr_proxy_port = None, stratum_pool = False\<rparr>"

definition add_pool_details :: "nat \<Rightarrow> string \<Rightarrow> string \<Rightarrow> string \<Rightarrow> control \<Rightarrow> control option" where
  "add_pool_details a url user pass s =
     (case get_proxy url (cs_details s a) of
        None \<Rightarrow> None
      | Some (url, d) \<Rightarrow>
          (let d = d\<lparr>rpc_url := Some url, rpc_user := Some user, rpc_pass := Some pass,
                 rpc_userpass := Some (user @ '':'' @ pass)\<rparr>;
               s = put_details a d s
           in Some (s\<lparr>cs_pools := enable_pool a (upd_pool a (\<lambda>p. p\<lparr>idle := True\<rparr>) (cs_pools s))\<rparr>)))"

text \<open>\<open>a\<close> is the address of the new pool.\<close>

definition addpool :: "nat \<Rightarrow> string option \<Rightarrow> control \<Rightarrow> (api_msg \<times> control) option" where
  "addpool a param s =
     (case param of
        None \<Rightarrow> Some (MSG_MISPDP, s)
      | Some p \<Rightarrow>
          if p = [] then Some (MSG_MISPDP, s)
          else case pooldetails p of
            None \<Rightarrow> Some (MSG_INVPDP, s)
          | Some (url, user, pass) \<Rightarrow>
              (let s = s\<lparr>cs_pools := add_pool a (cs_pools s), cs_details := (cs_details s)(a := blank_details)\<rparr>
               in case detect_stratum (cs_details s a) url of
                 None \<Rightarrow> None
               | Some (_, d) \<Rightarrow>
                   map_option (\<lambda>s. (MSG_ADDPOOL, s)) (add_pool_details a url user pass (put_details a d s))))"

section \<open>Commands that name a pool\<close>

text \<open>The tests that every command on one pool begins with, in this order.\<close>

definition pool_param :: "string option \<Rightarrow> pools_state \<Rightarrow> api_msg + nat" where
  "pool_param param s =
     (if total_pools s = 0 then Inl MSG_NOPOOL
      else case param of
        None \<Rightarrow> Inl MSG_MISPID
      | Some p \<Rightarrow>
          if p = [] then Inl MSG_MISPID
          else let i = atoi p
            in if i < 0 \<or> i \<ge> int (total_pools s) then Inl MSG_INVPID else Inr (pools s ! nat i))"

definition switchpool :: "string option \<Rightarrow> pools_state \<Rightarrow> api_msg \<times> pools_state" where
  "switchpool param s =
     (case pool_param param s of
        Inl m \<Rightarrow> (m, s)
      | Inr pool \<Rightarrow>
          (let s = upd_pool pool (\<lambda>p. p\<lparr>enabled := POOL_ENABLED\<rparr>) s
           in (MSG_SWITCHP, fst (switch_pools (Some pool) s))))"

definition enablepool :: "string option \<Rightarrow> pools_state \<Rightarrow> api_msg \<times> pools_state" where
  "enablepool param s =
     (case pool_param param s of
        Inl m \<Rightarrow> (m, s)
      | Inr pool \<Rightarrow>
          if enabled (ps_pool s pool) = POOL_ENABLED then (MSG_ALRENAP, s)
          else
            let s = upd_pool pool (\<lambda>p. p\<lparr>enabled := POOL_ENABLED\<rparr>) s;
                s = (if prio (ps_pool s pool) < prio (ps_pool s (currentpool s))
                     then fst (switch_pools (Some pool) s) else s)
            in (MSG_ENAPOOL, s))"

definition disablepool :: "string option \<Rightarrow> pools_state \<Rightarrow> api_msg \<times> pools_state" where
  "disablepool param s =
     (case pool_param param s of
        Inl m \<Rightarrow> (m, s)
      | Inr pool \<Rightarrow>
          if enabled (ps_pool s pool) = POOL_DISABLED then (MSG_ALRDISP, s)
          else if enabled_pools s \<le> 1 then (MSG_DISLASTP, s)
          else
            let s = upd_pool pool (\<lambda>p. p\<lparr>enabled := POOL_DISABLED\<rparr>) s;
                s = (if pool = currentpool s then fst (switch_pools None s) else s)
            in (MSG_DISPOOL, s))"

definition removepool :: "string option \<Rightarrow> pools_state \<Rightarrow> api_msg \<times> pools_state" where
  "removepool param s =
     (case pool_param param s of
        Inl m \<Rightarrow> (m, s)
      | Inr pool \<Rightarrow>
          if total_pools s \<le> 1 then (MSG_REMLASTP, s)
          else
            let s = (if pool = currentpool s then fst (switch_pools None s) else s)
            in if pool = currentpool s then (MSG_ACTPOOL, s)
               else
                 let s = upd_pool pool (\<lambda>p. p\<lparr>enabled := POOL_DISABLED\<rparr>) s
                 in (MSG_REMPOOL, remove_pool pool s))"

definition poolquota :: "string option \<Rightarrow> pools_state \<Rightarrow> api_msg \<times> pools_state" where
  "poolquota param s =
     (if total_pools s = 0 then (MSG_NOPOOL, s)
      else case param of
        None \<Rightarrow> (MSG_MISPID, s)
      | Some p \<Rightarrow>
          if p = [] then (MSG_MISPID, s)
          else case strchr p (CHR '','') of
            None \<Rightarrow> (MSG_CONVAL, s)
          | Some comma \<Rightarrow>
              (let i = atoi (take comma p)
               in if i < 0 \<or> i \<ge> int (total_pools s) then (MSG_INVPID, s)
               else
                 let q = atoi (drop (comma + 1) p)
                 in if q < 0 then (MSG_INVNEG, s)
                    else (MSG_SETQUOTA, adjust_quota_gcd (upd_pool (pools s ! nat i) (\<lambda>p. p\<lparr>quota := q\<rparr>) s))))"

section \<open>The priority list\<close>

text \<open>The numbers of a comma-separated list, each a pool and none twice.\<close>

function parse_prios :: "nat \<Rightarrow> string \<Rightarrow> nat list \<Rightarrow> api_msg + nat list" where
  "parse_prios n nxt ids =
     (if nxt = [] then Inr ids
      else
        let ptr = takeWhile (\<lambda>c. c \<noteq> CHR '','') nxt;
            nxt' = tl (dropWhile (\<lambda>c. c \<noteq> CHR '','') nxt);
            i = atoi ptr
        in if i < 0 \<or> i \<ge> int n then Inl MSG_INVPID
           else if nat i \<in> set ids then Inl MSG_DUPPID
           else parse_prios n nxt' (ids @ [nat i]))"
  by pat_completeness auto
termination
proof (relation "measure (\<lambda>(n, nxt, ids). length nxt)", goal_cases)
  case (2 n nxt ids)
  have "length (tl (dropWhile (\<lambda>c. c \<noteq> CHR '','') nxt)) < length nxt" if "nxt \<noteq> []" for nxt :: string
    using that length_dropWhile_le [of "\<lambda>c. c \<noteq> CHR '',''" "tl nxt"] by (cases nxt) (auto simp: less_Suc_eq_le)
  then show ?case using 2 by simp
qed simp

declare parse_prios.simps [simp del]

fun set_listed :: "nat list \<Rightarrow> nat \<Rightarrow> pools_state \<Rightarrow> pools_state" where
  "set_listed [] k s = s"
| "set_listed (i # ids) k s = set_listed ids (k + 1) (upd_pool (pools s ! i) (\<lambda>p. p\<lparr>prio := k\<rparr>) s)"

definition append_step :: "nat \<Rightarrow> bool list \<times> nat \<times> pools_state \<Rightarrow> nat \<Rightarrow> bool list \<times> nat \<times> pools_state" where
  "append_step n = (\<lambda>(changed, k, s) pr.
     (case find (\<lambda>i. \<not> changed ! i \<and> prio (ps_pool s (pools s ! i)) = pr) [0..<n] of
        None \<Rightarrow> (changed, k, s)
      | Some i \<Rightarrow> (changed[i := True], k + 1, upd_pool (pools s ! i) (\<lambda>p. p\<lparr>prio := k\<rparr>) s)))"

definition poolpriority :: "string option \<Rightarrow> pools_state \<Rightarrow> api_msg \<times> pools_state" where
  "poolpriority param s =
     (if total_pools s = 0 then (MSG_NOPOOL, s)
      else case param of
        None \<Rightarrow> (MSG_MISPID, s)
      | Some p \<Rightarrow>
          if p = [] then (MSG_MISPID, s)
          else case parse_prios (total_pools s) p [] of
            Inl m \<Rightarrow> (m, s)
          | Inr ids \<Rightarrow>
              (let n = total_pools s;
                   changed = map (\<lambda>i. i \<in> set ids) [0..<n];
                   s = set_listed ids 0 s;
                   (_, _, s) = foldl (append_step n) (changed, length ids, s) [0..<n];
                   s = (if prio (ps_pool s (currentpool s)) \<noteq> 0 then fst (switch_pools None s) else s)
               in (MSG_POOLPRIO, s)))"

section \<open>The pool menu\<close>

datatype pool_menu = Menu_Remove int | Menu_Switch int | Menu_Disable int | Menu_Enable int
  | Menu_Strategy pool_strategy | Menu_Quota int int | Menu_Failonly

definition menu_selected :: "int \<Rightarrow> pools_state \<Rightarrow> nat option" where
  "menu_selected i s = (if i < 0 \<or> i \<ge> int (total_pools s) then None else Some (pools s ! nat i))"

fun menu_step :: "pool_menu \<Rightarrow> pools_state \<Rightarrow> pools_state" where
  "menu_step (Menu_Remove i) s =
     (if total_pools s \<le> 1 then s
      else case menu_selected i s of
        None \<Rightarrow> s
      | Some pool \<Rightarrow>
          (let s = (if pool = currentpool s then fst (switch_pools None s) else s)
           in if pool = currentpool s then s else remove_pool pool (disable_pool pool s)))"
| "menu_step (Menu_Switch i) s =
     (case menu_selected i s of
        None \<Rightarrow> s
      | Some pool \<Rightarrow> fst (switch_pools (Some pool) (enable_pool pool s)))"
| "menu_step (Menu_Disable i) s =
     (if enabled_pools s \<le> 1 then s
      else case menu_selected i s of
        None \<Rightarrow> s
      | Some pool \<Rightarrow>
          (let s = disable_pool pool s
           in if pool = currentpool s then fst (switch_pools None s) else s))"
| "menu_step (Menu_Enable i) s =
     (case menu_selected i s of
        None \<Rightarrow> s
      | Some pool \<Rightarrow>
          (let s = enable_pool pool s
           in if prio (ps_pool s pool) < prio (ps_pool s (currentpool s))
              then fst (switch_pools (Some pool) s) else s))"
| "menu_step (Menu_Strategy strategy) s = fst (switch_pools None (s\<lparr>pool_strategy := strategy\<rparr>))"
| "menu_step (Menu_Quota i q) s =
     (case menu_selected i s of
        None \<Rightarrow> s
      | Some pool \<Rightarrow>
          if q < 0 then s else adjust_quota_gcd (upd_pool pool (\<lambda>p. p\<lparr>quota := q\<rparr>) s))"
| "menu_step Menu_Failonly s = s\<lparr>opt_fail_only := \<not> opt_fail_only s\<rparr>"

section \<open>Events\<close>

definition pool_died :: "nat \<Rightarrow> pools_state \<Rightarrow> pools_state" where
  "pool_died pool s =
     (let was_idle = idle (ps_pool s pool);
          s = upd_pool pool (\<lambda>p. p\<lparr>idle := True\<rparr>) s
      in if \<not> was_idle \<and> pool = currentpool s then fst (switch_pools None s) else s)"

text \<open>
  A pool that has rejected a sequence of shares: more than ten, more than the utility of three
  minutes (\<open>over_utility\<close>, a comparison of floating-point numbers), the last one not stale.
\<close>

definition sequential_rejects :: "nat \<Rightarrow> nat \<Rightarrow> bool \<Rightarrow> bool \<Rightarrow> bool \<Rightarrow> pools_state \<Rightarrow> pools_state" where
  "sequential_rejects pool seq_rejects stale opt_disable_pool over_utility s =
     (if seq_rejects > 10 \<and> \<not> stale \<and> opt_disable_pool \<and> enabled_pools s > 1 \<and> over_utility
      then let s = reject_pool pool s
           in if pool = currentpool s then fst (switch_pools None s) else s
      else s)"


section \<open>The invariant of the commands\<close>

definition ctl_ok :: "pools_state \<Rightarrow> bool" where
  "ctl_ok s \<longleftrightarrow> pools_ok s \<and> currentpool s \<in> set (pools s)"

lemma ctl_ok_upd:
  assumes "\<And>p. pool_no (f p) = pool_no p" and "\<And>p. prio (f p) = prio p"
  shows "ctl_ok (upd_pool a f s) = ctl_ok s"
proof -
  have "pools_ok (upd_pool a f s) = pools_ok s"
    by (rule pools_ok_cong) (simp_all add: assms)
  then show ?thesis by (simp add: ctl_ok_def)
qed

lemma ctl_ok_switch:
  "ctl_ok s \<Longrightarrow> ctl_ok (fst (switch_pools None s))"
  "ctl_ok s \<Longrightarrow> a \<in> set (pools s) \<Longrightarrow> ctl_ok (fst (switch_pools (Some a) s))"
  "ctl_ok s \<Longrightarrow> pools (fst (switch_pools None s)) = pools s"
  using switch_pools_ok [of s None] switch_pools_ok [of s "Some a"] by (auto simp: ctl_ok_def)

lemma ctl_ok_fields:
  "ctl_ok (s\<lparr>enabled_pools := n\<rparr>) = ctl_ok s" "ctl_ok (s\<lparr>pool_strategy := st\<rparr>) = ctl_ok s"
  "ctl_ok (s\<lparr>opt_fail_only := b\<rparr>) = ctl_ok s"
  by (simp_all add: ctl_ok_def pools_ok_def)

lemma ctl_ok_enabling:
  "ctl_ok (enable_pool a s) = ctl_ok s" "pools (enable_pool a s) = pools s"
  "ctl_ok (disable_pool a s) = ctl_ok s" "pools (disable_pool a s) = pools s"
  "ctl_ok (reject_pool a s) = ctl_ok s" "pools (reject_pool a s) = pools s"
  "currentpool (enable_pool a s) = currentpool s" "currentpool (disable_pool a s) = currentpool s"
  "currentpool (reject_pool a s) = currentpool s"
  by (simp_all add: enable_pool_def disable_pool_def reject_pool_def ctl_ok_upd ctl_ok_fields Let_def)

lemma adjust_currentpool: "currentpool (adjust_quota_gcd s) = currentpool s"
proof -
  have "currentpool (foldl (\<lambda>s a. upd_pool a (f s) s) t xs) = currentpool t" for f xs t
    by (induction xs arbitrary: t) simp_all
  then show ?thesis by (simp add: adjust_quota_gcd_def Let_def)
qed

lemma ctl_ok_adjust: "ctl_ok (adjust_quota_gcd s) = ctl_ok s"
proof -
  have "pools_ok (adjust_quota_gcd s) = pools_ok s" by (rule pools_ok_cong) (simp_all add: adjust_keeps)
  then show ?thesis by (simp add: ctl_ok_def adjust_currentpool adjust_keeps)
qed

lemma remove_currentpool: "currentpool (remove_pool p s) = currentpool s"
proof -
  have "currentpool (foldl (\<lambda>s a. if C s a then upd_pool a f s else s) t xs) = currentpool t" for C f xs t
    by (induction xs arbitrary: t) simp_all
  then show ?thesis by (simp add: remove_pool_def Let_def)
qed

lemma ctl_ok_remove:
  "ctl_ok s \<Longrightarrow> p \<in> set (pools s) \<Longrightarrow> p \<noteq> currentpool s \<Longrightarrow> ctl_ok (remove_pool p s)"
  "ctl_ok s \<Longrightarrow> p \<in> set (pools s) \<Longrightarrow> currentpool s \<noteq> p \<Longrightarrow> ctl_ok (remove_pool p s)"
  using remove_pool_ok [of s p] by (auto simp: ctl_ok_def remove_currentpool)

lemma ctl_ok_current: "ctl_ok s \<Longrightarrow> currentpool s \<in> set (pools s)"
  by (simp add: ctl_ok_def)

lemma add_currentpool: "currentpool (add_pool a s) = currentpool s"
  by (simp add: add_pool_def Let_def adjust_currentpool)

lemma ctl_ok_add: "ctl_ok s \<Longrightarrow> a \<notin> set (pools s) \<Longrightarrow> ctl_ok (add_pool a s)"
  using add_pool_ok [of s a] by (simp add: ctl_ok_def add_currentpool)

lemma pool_param_mem: "pool_param param s = Inr pool \<Longrightarrow> pool \<in> set (pools s)"
  by (auto simp: pool_param_def Let_def split: if_splits option.splits)

lemma menu_selected_mem: "menu_selected i s = Some pool \<Longrightarrow> pool \<in> set (pools s)"
  by (auto simp: menu_selected_def split: if_splits)

lemmas ctl_ok_simps = ctl_ok_upd ctl_ok_switch ctl_ok_fields ctl_ok_enabling ctl_ok_adjust ctl_ok_remove

lemma ctl_ok_menu: "ctl_ok s \<Longrightarrow> ctl_ok (menu_step m s)"
proof (cases m)
  case (Menu_Remove i)
  assume "ctl_ok s"
  then show ?thesis
    using menu_selected_mem [of i s]
    by (cases "menu_selected i s") (simp_all add: Menu_Remove ctl_ok_simps ctl_ok_current Let_def)
qed (use menu_selected_mem [of _ s] in
  \<open>auto simp: ctl_ok_simps Let_def split: option.split\<close>)

lemma ctl_ok_api:
  assumes "ctl_ok s"
  shows "ctl_ok (snd (switchpool param s))" "ctl_ok (snd (enablepool param s))"
    "ctl_ok (snd (disablepool param s))" "ctl_ok (snd (removepool param s))"
    "ctl_ok (snd (poolquota param s))" "ctl_ok (pool_died pool s)"
    "ctl_ok (sequential_rejects pool n b1 b2 b3 s)"
  using assms pool_param_mem [of param s]
  by (auto simp: switchpool_def enablepool_def disablepool_def removepool_def poolquota_def pool_died_def
    sequential_rejects_def ctl_ok_simps Let_def split: sum.split option.split)


section \<open>The order of priorities\<close>

definition pr :: "pools_state \<Rightarrow> nat \<Rightarrow> nat" where
  "pr s i = prio (ps_pool s (pools s ! i))"

lemma pr_upd:
  "distinct (pools s) \<Longrightarrow> i < total_pools s \<Longrightarrow> j < total_pools s \<Longrightarrow>
   pr (upd_pool (pools s ! i) (\<lambda>p. p\<lparr>prio := k\<rparr>) s) j = (if j = i then k else pr s j)"
  by (auto simp: pr_def nth_eq_iff_index_eq)

lemma set_listed_frame:
  "pools (set_listed ids k s) = pools s" "currentpool (set_listed ids k s) = currentpool s"
  "pool_no (ps_pool (set_listed ids k s) a) = pool_no (ps_pool s a)"
  by (induction ids arbitrary: k s) simp_all

lemma set_listed_pr:
  assumes "distinct ids" and "set ids \<subseteq> {..<total_pools s}" and "distinct (pools s)" and "i < total_pools s"
  shows "i \<notin> set ids \<Longrightarrow> pr (set_listed ids k s) i = pr s i"
    and "j < length ids \<Longrightarrow> pr (set_listed ids k s) (ids ! j) = k + j"
proof -
  have out: "pr (set_listed ids k s) i = pr s i"
    if "i \<notin> set ids" "i < total_pools s" "set ids \<subseteq> {..<total_pools s}" "distinct (pools s)" for ids k s i
    using that by (induction ids arbitrary: k s) (simp_all add: pr_upd)
  show "i \<notin> set ids \<Longrightarrow> pr (set_listed ids k s) i = pr s i" using out assms by blast
  show "j < length ids \<Longrightarrow> pr (set_listed ids k s) (ids ! j) = k + j"
    using assms(1-3)
  proof (induction ids arbitrary: k s j)
    case (Cons x ids)
    show ?case
    proof (cases j)
      case 0
      then show ?thesis using Cons.prems out [of x ids] by (simp add: pr_upd)
    next
      case (Suc j')
      then show ?thesis using Cons.prems Cons.IH [of j'] by simp
    qed
  qed simp
qed

text \<open>How many pools outside the list came before: \<open>q\<close> is their old priority.\<close>

definition rank :: "nat \<Rightarrow> nat list \<Rightarrow> (nat \<Rightarrow> nat) \<Rightarrow> nat \<Rightarrow> nat" where
  "rank n ids q x = length ids + card {j. j < n \<and> j \<notin> set ids \<and> q j < x}"

lemma rank_Suc:
  assumes "inj_on q {..<n}"
  shows "rank n ids q (Suc m) = (if \<exists>i<n. i \<notin> set ids \<and> q i = m then rank n ids q m + 1 else rank n ids q m)"
proof (cases "\<exists>i<n. i \<notin> set ids \<and> q i = m")
  case True
  then obtain i where i: "i < n" "i \<notin> set ids" "q i = m" by blast
  have "{j. j < n \<and> j \<notin> set ids \<and> q j < Suc m} = insert i {j. j < n \<and> j \<notin> set ids \<and> q j < m}"
    using i assms by (auto simp: less_Suc_eq inj_on_def)
  then show ?thesis using True i by (simp add: rank_def)
next
  case False
  then have "{j. j < n \<and> j \<notin> set ids \<and> q j < Suc m} = {j. j < n \<and> j \<notin> set ids \<and> q j < m}"
    by (auto simp: less_Suc_eq)
  then show ?thesis using False by (simp add: rank_def)
qed

lemma append_loop:
  assumes d: "distinct (pools s)" and n: "n = total_pools s" and q: "inj_on q {..<n}"
    and base: "\<And>i. i < n \<Longrightarrow> i \<notin> set ids \<Longrightarrow> pr s i = q i"
  shows "\<exists>ch t. foldl (append_step n) (map (\<lambda>i. i \<in> set ids) [0..<n], length ids, s) [0..<m] = (ch, rank n ids q m, t) \<and>
    length ch = n \<and> (\<forall>i<n. ch ! i \<longleftrightarrow> i \<in> set ids \<or> q i < m) \<and> pools t = pools s \<and> currentpool t = currentpool s \<and>
    (\<forall>a. pool_no (ps_pool t a) = pool_no (ps_pool s a)) \<and>
    (\<forall>i<n. pr t i = (if i \<notin> set ids \<and> q i < m then rank n ids q (q i) else pr s i))"
proof (induction m)
  case 0
  then show ?case by (simp add: rank_def)
next
  case (Suc m)
  then obtain ch t where IH: "foldl (append_step n) (map (\<lambda>i. i \<in> set ids) [0..<n], length ids, s) [0..<m] = (ch, rank n ids q m, t)"
    and ch: "length ch = n" "\<forall>i<n. ch ! i \<longleftrightarrow> i \<in> set ids \<or> q i < m"
    and t: "pools t = pools s" "currentpool t = currentpool s" "\<forall>a. pool_no (ps_pool t a) = pool_no (ps_pool s a)"
    and prt: "\<forall>i<n. pr t i = (if i \<notin> set ids \<and> q i < m then rank n ids q (q i) else pr s i)"
    by blast
  let ?P = "\<lambda>i. \<not> ch ! i \<and> prio (ps_pool t (pools t ! i)) = m"
  have P: "?P i \<longleftrightarrow> i \<notin> set ids \<and> q i = m" if "i < n" for i
    using ch(2) prt base that by (auto simp: pr_def [symmetric])
  have fold: "foldl (append_step n) (map (\<lambda>i. i \<in> set ids) [0..<n], length ids, s) [0..<Suc m] =
      append_step n (ch, rank n ids q m, t) m" by (simp add: IH)
  show ?case
  proof (cases "find ?P [0..<n]")
    case None
    then have no: "\<not> (\<exists>i<n. i \<notin> set ids \<and> q i = m)" using P by (auto simp: find_None_iff)
    have "append_step n (ch, rank n ids q m, t) m = (ch, rank n ids q (Suc m), t)"
      using None no by (simp add: append_step_def rank_Suc [OF q])
    moreover have "q i < Suc m \<longleftrightarrow> q i < m" if "i < n" "i \<notin> set ids" for i
      using no that by (auto simp: less_Suc_eq)
    ultimately show ?thesis unfolding fold using ch t prt by auto
  next
    case (Some i)
    then have i: "i < n" "?P i" by (auto simp: find_upt)
    then have qi: "i \<notin> set ids" "q i = m" using P by auto
    have uniq: "q j = m \<longleftrightarrow> j = i" if "j < n" for j
      using q qi(2) i(1) that by (auto simp: inj_on_def)
    let ?t = "upd_pool (pools t ! i) (\<lambda>p. p\<lparr>prio := rank n ids q m\<rparr>) t"
    have "append_step n (ch, rank n ids q m, t) m = (ch[i := True], rank n ids q (Suc m), ?t)"
      using Some qi i(1) by (auto simp: append_step_def rank_Suc [OF q])
    moreover have "pr ?t j = (if j \<notin> set ids \<and> q j < Suc m then rank n ids q (q j) else pr s j)" if "j < n" for j
      using pr_upd [of t i j "rank n ids q m"] d n t(1) i(1) that prt uniq [OF that] qi by (auto simp: less_Suc_eq)
    moreover have "ch[i := True] ! j \<longleftrightarrow> j \<in> set ids \<or> q j < Suc m" if "j < n" for j
      using ch that uniq [OF that] qi i(1) by (auto simp: nth_list_update less_Suc_eq)
    ultimately show ?thesis unfolding fold using ch t by auto
  qed
qed

lemma rank_mono:
  assumes "i < n" and "i \<notin> set ids" and "q i < y"
  shows "rank n ids q (q i) < rank n ids q y"
proof -
  have "{j. j < n \<and> j \<notin> set ids \<and> q j < q i} \<subset> {j. j < n \<and> j \<notin> set ids \<and> q j < y}"
    using assms by auto
  then show ?thesis unfolding rank_def by (simp add: psubset_card_mono)
qed

lemma rank_bound:
  assumes "i < n" and "i \<notin> set ids" and "distinct ids" and "set ids \<subseteq> {..<n}"
  shows "rank n ids q (q i) < n"
proof -
  have "{j. j < n \<and> j \<notin> set ids \<and> q j < q i} \<subset> {..<n} - set ids" using assms(1,2) by auto
  then have "card {j. j < n \<and> j \<notin> set ids \<and> q j < q i} < card ({..<n} - set ids)"
    by (intro psubset_card_mono) simp_all
  also have "\<dots> = n - length ids"
    using assms(3,4) by (simp add: card_Diff_subset distinct_card finite_subset)
  finally show ?thesis unfolding rank_def by linarith
qed

lemma pools_ok_pr:
  assumes "distinct (pools s)" and "\<And>i. i < total_pools s \<Longrightarrow> pool_no (ps_pool s (pools s ! i)) = i"
    and "inj_on (pr s) {..<total_pools s}" and "\<And>i. i < total_pools s \<Longrightarrow> pr s i < total_pools s"
  shows "pools_ok s"
proof -
  let ?f = "\<lambda>a. prio (ps_pool s a)"
  have set: "set (pools s) = (\<lambda>i. pools s ! i) ` {..<total_pools s}" by (auto simp: in_set_conv_nth)
  have inj: "inj_on ?f (set (pools s))"
    using assms(3) by (auto simp: inj_on_def set pr_def)
  have sub: "?f ` set (pools s) \<subseteq> {..<total_pools s}" using assms(4) by (auto simp: set pr_def)
  have "card (?f ` set (pools s)) = total_pools s"
    using inj assms(1) by (simp add: card_image distinct_card)
  then have "?f ` set (pools s) = {..<total_pools s}" using sub by (simp add: card_subset_eq)
  then show ?thesis using assms(1,2) inj by (simp add: pools_ok_def bij_betw_def)
qed

lemma pr_inj: "pools_ok s \<Longrightarrow> inj_on (pr s) {..<total_pools s}"
proof (rule inj_onI)
  fix i j assume ok: "pools_ok s" and i: "i \<in> {..<total_pools s}" "j \<in> {..<total_pools s}" "pr s i = pr s j"
  then have "pools s ! i = pools s ! j" using bij_prio_eq [OF ok, of "pools s ! i" "pools s ! j"] by (simp add: pr_def)
  with i ok show "i = j" by (simp add: pools_ok_def nth_eq_iff_index_eq)
qed

lemma new_order_inj:
  assumes "distinct ids" and "inj_on q {..<n}"
    and listed: "\<And>j. j < length ids \<Longrightarrow> r (ids ! j) = j"
    and rest: "\<And>i. i < n \<Longrightarrow> i \<notin> set ids \<Longrightarrow> r i = rank n ids q (q i)"
  shows "inj_on r {..<n}"
proof (rule inj_onI)
  fix i j assume i: "i \<in> {..<n}" and j: "j \<in> {..<n}" and eq: "r i = r j"
  have small: "r k < length ids" if "k \<in> set ids" for k
    using that listed by (auto simp: in_set_conv_nth)
  have big: "length ids \<le> r k" if "k \<notin> set ids" "k < n" for k
    using rest [OF that(2,1)] by (simp add: rank_def)
  consider "i \<in> set ids" "j \<in> set ids" | "i \<notin> set ids" "j \<notin> set ids"
    using small [of i] small [of j] big [of i] big [of j] eq i j by fastforce
  then show "i = j"
  proof cases
    case 1
    then show ?thesis using listed eq by (auto simp: in_set_conv_nth)
  next
    case 2
    then have "rank n ids q (q i) = rank n ids q (q j)" using rest eq i j by simp
    then have "q i = q j"
      using rank_mono [of i n ids q "q j"] rank_mono [of j n ids q "q i"] 2 i j
      by (metis lessThan_iff less_irrefl nat_neq_iff)
    then show ?thesis using assms(2) i j by (simp add: inj_on_def)
  qed
qed

lemma parse_prios_ids:
  "parse_prios n p ids = Inr r \<Longrightarrow> distinct ids \<Longrightarrow> set ids \<subseteq> {..<n} \<Longrightarrow> distinct r \<and> set r \<subseteq> {..<n}"
proof (induction n p ids rule: parse_prios.induct)
  case (1 n nxt ids)
  show ?case
    using "1.prems" "1.IH" by (subst (asm) parse_prios.simps) (auto simp: Let_def split: if_splits)
qed

lemma switch_none_pr:
  "pr (fst (switch_pools None s)) = pr s"
  by (rule ext) (simp add: switch_pools_def Let_def pr_def)

text \<open>the API's priority list either leaves the state unchanged and reports the wrong
number, or gives the listed pools the priorities 0, 1, 2, ... in the order of the list and
every other pool a priority after them, in their old order; the priorities stay a permutation.\<close>

theorem poolpriority_orders:
  assumes ok: "ctl_ok s" and p: "p \<noteq> []"
  shows "case parse_prios (total_pools s) p [] of
      Inl m \<Rightarrow> poolpriority (Some p) s = (m, s)
    | Inr ids \<Rightarrow>
        (let t = snd (poolpriority (Some p) s) in
          ctl_ok t \<and> pools t = pools s \<and>
          (\<forall>k < length ids. prio (ps_pool t (pools s ! (ids ! k))) = k) \<and>
          (\<forall>i < total_pools s. \<forall>j < total_pools s. i \<notin> set ids \<longrightarrow> j \<notin> set ids \<longrightarrow>
             length ids \<le> prio (ps_pool t (pools s ! i)) \<and>
             (prio (ps_pool s (pools s ! i)) < prio (ps_pool s (pools s ! j)) \<longrightarrow>
              prio (ps_pool t (pools s ! i)) < prio (ps_pool t (pools s ! j)))))"
proof (cases "parse_prios (total_pools s) p []")
  case (Inl m)
  have "total_pools s \<noteq> 0" using ok by (auto simp: ctl_ok_def)
  with Inl p show ?thesis by (simp add: poolpriority_def)
next
  case (Inr ids)
  let ?n = "total_pools s" and ?q = "pr s" and ?s1 = "set_listed ids 0 s"
  have po: "pools_ok s" and d: "distinct (pools s)" and cur: "currentpool s \<in> set (pools s)"
    using ok by (auto simp: ctl_ok_def pools_ok_def)
  have ids: "distinct ids" "set ids \<subseteq> {..<?n}" using parse_prios_ids [OF Inr] by auto
  note sl = set_listed_pr [OF ids d]
  obtain ch t where L: "foldl (append_step ?n) (map (\<lambda>i. i \<in> set ids) [0..<?n], length ids, ?s1) [0..<?n] = (ch, rank ?n ids ?q ?n, t)"
    and t: "pools t = pools s" "currentpool t = currentpool s" "\<forall>a. pool_no (ps_pool t a) = pool_no (ps_pool s a)"
    and prt: "\<forall>i<?n. pr t i = (if i \<notin> set ids \<and> ?q i < ?n then rank ?n ids ?q (?q i) else pr ?s1 i)"
    using append_loop [of ?s1 ?n ?q ids ?n] d pr_inj [OF po] sl(1) by (auto simp: set_listed_frame)
  have qn: "?q i < ?n" if "i < ?n" for i
    using prio_range [OF po, of "pools s ! i"] that by (simp add: pr_def)
  have listed: "pr t (ids ! k) = k" if "k < length ids" for k
  proof -
    have "ids ! k < ?n" using ids(2) that nth_mem by blast
    then show ?thesis using prt sl(2) [of "ids ! k" k 0] that by simp
  qed
  have rest: "pr t i = rank ?n ids ?q (?q i)" if "i < ?n" "i \<notin> set ids" for i
    using prt that qn by simp
  have "pr t i < ?n" if "i < ?n" for i
  proof (cases "i \<in> set ids")
    case True
    have "length ids \<le> ?n" using ids by (metis card_lessThan card_mono distinct_card finite_lessThan)
    then show ?thesis using listed True by (auto simp: in_set_conv_nth)
  qed (use that rest rank_bound [OF that _ ids] in simp)
  then have pt: "pools_ok t"
    using new_order_inj [OF ids(1) pr_inj [OF po], of "pr t"] listed rest d t po
    by (intro pools_ok_pr) (auto simp: pools_ok_def)
  define u where "u = (if prio (ps_pool t (currentpool t)) \<noteq> 0 then fst (switch_pools None t) else t)"
  have n0: "?n \<noteq> 0" using cur by auto
  have res: "poolpriority (Some p) s = (MSG_POOLPRIO, u)"
    using n0 p Inr by (simp add: poolpriority_def Let_def L u_def split del: if_split)
  have ct: "ctl_ok t" using pt t cur by (simp add: ctl_ok_def)
  have u: "ctl_ok u" "pools u = pools s" "pr u = pr t"
    using ctl_ok_switch(1,3) [OF ct] ct t(1) by (simp_all add: u_def switch_none_pr)
  have at: "prio (ps_pool u (pools s ! i)) = pr t i" for i using u(2,3) by (metis pr_def)
  have "length ids \<le> pr t i" if "i < ?n" "i \<notin> set ids" for i using rest [OF that] by (simp add: rank_def)
  moreover have "pr t i < pr t j" if "i < ?n" "j < ?n" "i \<notin> set ids" "j \<notin> set ids" "pr s i < pr s j" for i j
    using rank_mono [of i ?n ids ?q "?q j"] that rest by simp
  ultimately show ?thesis
    using u(1,2) listed by (simp add: Inr res at Let_def) (simp add: pr_def)
qed


section \<open>The count of enabled pools\<close>

definition enabled_set :: "pools_state \<Rightarrow> nat set" where
  "enabled_set s = {a \<in> set (pools s). enabled (ps_pool s a) = POOL_ENABLED}"

definition count_ok :: "pools_state \<Rightarrow> bool" where
  "count_ok s \<longleftrightarrow> enabled_pools s = int (card (enabled_set s))"

lemma fold_cond_keeps:
  assumes "\<And>q. enabled (f q) = enabled q"
  shows "enabled (ps_pool (foldl (\<lambda>s a. if C s a then upd_pool a f s else s) t xs) b) = enabled (ps_pool t b)"
    and "enabled_pools (foldl (\<lambda>s a. if C s a then upd_pool a f s else s) t xs) = enabled_pools t"
  by (induction xs arbitrary: t) (simp_all add: assms)

lemma raise_enabled:
  "enabled (ps_pool (raise_priority sel s) b) = enabled (ps_pool s b)"
  "enabled_pools (raise_priority sel s) = enabled_pools s"
  using fold_cond_keeps [of "\<lambda>p. p\<lparr>prio := prio p + 1\<rparr>" "\<lambda>s a. prio (ps_pool s a) < prio (ps_pool s sel)" s "pools s"]
  by (simp_all add: raise_priority_def Let_def)

lemma switch_enabled:
  "enabled (ps_pool (fst (switch_pools sel s)) b) = enabled (ps_pool s b)"
  "enabled_pools (fst (switch_pools sel s)) = enabled_pools s"
  by (simp_all add: switch_pools_def Let_def raise_enabled split: option.split)

lemma remove_enabled:
  "enabled (ps_pool (remove_pool p s) b) = enabled (ps_pool s b)"
  "enabled_pools (remove_pool p s) = enabled_pools s"
  using fold_cond_keeps [of "\<lambda>o'. o'\<lparr>prio := prio o' - 1\<rparr>" "\<lambda>s a. prio (ps_pool s a) > prio (ps_pool s p)" s "pools s"]
  by (simp_all add: remove_pool_def Let_def)

lemma adjust_enabled: "enabled_pools (adjust_quota_gcd s) = enabled_pools s"
proof -
  have "enabled_pools (foldl (\<lambda>s a. upd_pool a (f s) s) t xs) = enabled_pools t" for f xs t
    by (induction xs arbitrary: t) simp_all
  then show ?thesis by (simp add: adjust_quota_gcd_def Let_def)
qed

lemma finite_enabled [simp]: "finite (enabled_set s)"
  by (simp add: enabled_set_def)

lemma enabled_set_cong:
  "pools t = pools s \<Longrightarrow> (\<And>a. enabled (ps_pool t a) = enabled (ps_pool s a)) \<Longrightarrow> enabled_set t = enabled_set s"
  by (simp add: enabled_set_def)

lemma count_ok_cong:
  "pools t = pools s \<Longrightarrow> enabled_pools t = enabled_pools s \<Longrightarrow>
   (\<And>a. enabled (ps_pool t a) = enabled (ps_pool s a)) \<Longrightarrow> count_ok t = count_ok s"
  using enabled_set_cong [of t s] by (simp add: count_ok_def)

lemma count_ok_switch:
  "ctl_ok s \<Longrightarrow> count_ok (fst (switch_pools None s)) = count_ok s"
  "ctl_ok s \<Longrightarrow> a \<in> set (pools s) \<Longrightarrow> count_ok (fst (switch_pools (Some a) s)) = count_ok s"
proof -
  show "count_ok (fst (switch_pools None s)) = count_ok s" if "ctl_ok s"
    using switch_pools_ok(3) [of s None] that by (intro count_ok_cong) (simp_all add: switch_enabled ctl_ok_def)
  show "count_ok (fst (switch_pools (Some a) s)) = count_ok s" if "ctl_ok s" "a \<in> set (pools s)"
    using switch_pools_ok(3) [of s "Some a"] that by (intro count_ok_cong) (simp_all add: switch_enabled ctl_ok_def)
qed

lemma count_ok_adjust: "count_ok (adjust_quota_gcd s) = count_ok s"
  by (rule count_ok_cong) (simp_all add: adjust_keeps adjust_enabled)

lemma count_ok_enable:
  assumes "a \<in> set (pools s)" and "count_ok s"
  shows "count_ok (enable_pool a s)"
proof (cases "enabled (ps_pool s a) = POOL_ENABLED")
  case False
  then have "enabled_set (enable_pool a s) = insert a (enabled_set s)" "a \<notin> enabled_set s"
    using assms(1) by (auto simp: enabled_set_def enable_pool_def)
  with assms(2) False show ?thesis by (simp add: count_ok_def) (simp add: enable_pool_def)
qed (use assms in \<open>simp add: enable_pool_def\<close>)

lemma enabled_set_disabled:
  assumes "e \<noteq> POOL_ENABLED"
  shows "enabled_set (upd_pool a (\<lambda>p. p\<lparr>enabled := e\<rparr>) s) = enabled_set s - {a}"
  using assms by (auto simp: enabled_set_def)

lemma count_ok_off:
  assumes "a \<in> set (pools s)" and "count_ok s"
  shows "count_ok (disable_pool a s)" and "count_ok (reject_pool a s)"
proof -
  have set: "enabled_set (disable_pool a s) = enabled_set s - {a}" "enabled_set (reject_pool a s) = enabled_set s - {a}"
    by (auto simp: disable_pool_def reject_pool_def enabled_set_def Let_def)
  have "a \<in> enabled_set s \<longleftrightarrow> enabled (ps_pool s a) = POOL_ENABLED"
    using assms(1) by (simp add: enabled_set_def)
  then have "enabled_pools s - (if enabled (ps_pool s a) = POOL_ENABLED then 1 else 0) = int (card (enabled_set s - {a}))"
    using assms(2) card_gt_0_iff [of "enabled_set s"] by (auto simp: count_ok_def of_nat_diff card_Diff_singleton_if)
  then show "count_ok (disable_pool a s)" "count_ok (reject_pool a s)"
    by (simp_all add: count_ok_def set) (simp_all add: disable_pool_def reject_pool_def Let_def split: if_splits)
qed

lemma count_ok_remove:
  assumes "ctl_ok s" and "p \<in> set (pools s)" and "enabled (ps_pool s p) \<noteq> POOL_ENABLED" and "count_ok s"
  shows "count_ok (remove_pool p s)"
proof -
  have "enabled_set (remove_pool p s) = enabled_set s"
    using assms(1-3) remove_pool_ok(2) [of s p] by (auto simp: enabled_set_def remove_enabled ctl_ok_def)
  then show ?thesis using assms(4) by (simp add: count_ok_def remove_enabled)
qed

lemma disable_off: "enabled (ps_pool (disable_pool a s) a) = POOL_DISABLED"
  by (simp add: disable_pool_def Let_def)

lemma count_ok_menu:
  assumes ok: "ctl_ok s" and c: "count_ok s"
  shows "count_ok (menu_step m s)"
proof (cases m)
  case (Menu_Remove i)
  show ?thesis
  proof (cases "menu_selected i s")
    case (Some pool)
    define t where "t = (if pool = currentpool s then fst (switch_pools None s) else s)"
    have mem: "pool \<in> set (pools s)" by (rule menu_selected_mem [OF Some])
    have t: "ctl_ok t" "count_ok t" "pools t = pools s"
      using ok c ctl_ok_switch(1,3) [OF ok] count_ok_switch(1) [OF ok] by (simp_all add: t_def)
    have "count_ok (remove_pool pool (disable_pool pool t))"
      using t mem by (intro count_ok_remove count_ok_off) (simp_all add: ctl_ok_enabling disable_off)
    then show ?thesis using t(2) c by (simp add: Menu_Remove Some t_def [symmetric] Let_def)
  qed (simp add: Menu_Remove c)
next
  case (Menu_Switch i)
  show ?thesis
  proof (cases "menu_selected i s")
    case (Some pool)
    note mem = menu_selected_mem [OF Some]
    then show ?thesis using ok c by (simp add: Menu_Switch Some count_ok_switch count_ok_enable ctl_ok_enabling)
  qed (simp add: Menu_Switch c)
next
  case (Menu_Disable i)
  show ?thesis
  proof (cases "menu_selected i s")
    case (Some pool)
    note mem = menu_selected_mem [OF Some]
    then show ?thesis using ok c by (simp add: Menu_Disable Some count_ok_switch count_ok_off ctl_ok_enabling ctl_ok_current Let_def)
  qed (simp add: Menu_Disable c)
next
  case (Menu_Enable i)
  show ?thesis
  proof (cases "menu_selected i s")
    case (Some pool)
    note mem = menu_selected_mem [OF Some]
    then show ?thesis using ok c by (simp add: Menu_Enable Some count_ok_switch count_ok_enable ctl_ok_enabling Let_def)
  qed (simp add: Menu_Enable c)
next
  case (Menu_Strategy st)
  have "count_ok (s\<lparr>pool_strategy := st\<rparr>) = count_ok s" by (rule count_ok_cong) simp_all
  then show ?thesis using ok c by (simp add: Menu_Strategy count_ok_switch ctl_ok_fields)
next
  case (Menu_Quota i q)
  have "count_ok (upd_pool p (\<lambda>p. p\<lparr>quota := q\<rparr>) s) = count_ok s" for p by (rule count_ok_cong) simp_all
  then show ?thesis using c by (simp add: Menu_Quota count_ok_adjust split: option.split)
next
  case Menu_Failonly
  have "count_ok (s\<lparr>opt_fail_only := b\<rparr>) = count_ok s" for b by (rule count_ok_cong) simp_all
  then show ?thesis using c by (simp add: Menu_Failonly)
qed



text \<open>the API forgets the count: \<open>disablepool\<close> checks \<open>enabled_pools\<close>, which it never
decreases, so with two or more pools counted at the start, disabling the pools one after the
other through the API leaves no pool enabled, which the test was to prevent.\<close>

theorem api_disables_last_pool:
  assumes ok: "ctl_ok s" and two: "1 < enabled_pools s"
    and ps: "\<And>p. p \<in> set ps \<Longrightarrow> p \<noteq> []" "map atoi ps = map int [0..<total_pools s]"
  shows "enabled_set (foldl (\<lambda>s p. snd (disablepool (Some p) s)) s ps) = {}"
proof -
  let ?d = "\<lambda>s p. snd (disablepool (Some p) s)"
  have step: "ctl_ok (?d t p) \<and> pools (?d t p) = pools t \<and> enabled_pools (?d t p) = enabled_pools t \<and>
      enabled_set (?d t p) = enabled_set t - {pools t ! i}"
    if t: "ctl_ok t" "1 < enabled_pools t" and p: "p \<noteq> []" "atoi p = int i" "i < total_pools t" for t p i
  proof -
    let ?a = "pools t ! i"
    have par: "pool_param (Some p) t = Inr ?a" using p by (auto simp: pool_param_def)
    let ?u = "upd_pool ?a (\<lambda>p. p\<lparr>enabled := POOL_DISABLED\<rparr>) t"
    have u: "ctl_ok ?u" using t(1) by (simp add: ctl_ok_upd)
    have sw: "enabled_set (fst (switch_pools None ?u)) = enabled_set ?u"
      by (rule enabled_set_cong) (simp_all add: ctl_ok_switch(3) [OF u] switch_enabled)
    have eu: "enabled_set ?u = enabled_set t - {?a}" by (rule enabled_set_disabled) simp
    show ?thesis
    proof (cases "enabled (ps_pool t ?a) = POOL_DISABLED")
      case True
      then have "?a \<notin> enabled_set t" by (simp add: enabled_set_def)
      then show ?thesis using True t(1) by (simp add: disablepool_def par)
    next
      case False
      define v where "v = (if ?a = currentpool ?u then fst (switch_pools None ?u) else ?u)"
      have "?d t p = v" using False t(2) by (simp only: disablepool_def par v_def Let_def sum.case if_False snd_conv) simp
      moreover have "ctl_ok v" "pools v = pools t" "enabled_pools v = enabled_pools t"
        "enabled_set v = enabled_set t - {?a}"
        using u ctl_ok_switch(1,3) [OF u] sw eu
        by (cases "?a = currentpool ?u"; simp add: v_def switch_enabled)+
      ultimately show ?thesis by simp
    qed
  qed
  have len: "length ps = total_pools s" using arg_cong [OF ps(2), of length] by simp
  have "ctl_ok (foldl ?d s (take n ps)) \<and> pools (foldl ?d s (take n ps)) = pools s \<and>
      enabled_pools (foldl ?d s (take n ps)) = enabled_pools s \<and>
      enabled_set (foldl ?d s (take n ps)) \<subseteq> set (drop n (pools s))" if "n \<le> total_pools s" for n
    using that
  proof (induction n)
    case 0
    then show ?case using ok by (auto simp: enabled_set_def)
  next
    case (Suc n)
    let ?t = "foldl ?d s (take n ps)"
    have n: "n < total_pools s" using Suc.prems by simp
    have "map atoi ps ! n = map int [0..<total_pools s] ! n" by (simp only: ps(2))
    then have at: "atoi (ps ! n) = int n" using n len by simp
    have "ps ! n \<noteq> []" using ps(1) n len by simp
    note s = step [of ?t "ps ! n" n]
    have "foldl ?d s (take (Suc n) ps) = ?d ?t (ps ! n)" using n len by (simp add: take_Suc_conv_app_nth)
    moreover have "set (drop n (pools s)) = insert (pools s ! n) (set (drop (Suc n) (pools s)))"
      using n by (metis Cons_nth_drop_Suc list.simps(15))
    ultimately show ?case using s Suc.IH n at two \<open>ps ! n \<noteq> []\<close> by auto
  qed
  from this [of "total_pools s"] show ?thesis by (simp add: len [symmetric])
qed


section \<open>Pool details in a parameter\<close>

text \<open>The client's side: commas and backslashes inside a field are preceded by a backslash.\<close>

definition esc :: "string \<Rightarrow> string" where
  "esc w = concat (map (\<lambda>c. if c = CHR '','' \<or> c = CHR 0x5C then [CHR 0x5C, c] else [c]) w)"

lemma copyadvanceafter_esc:
  "copyadvanceafter (CHR '','') (esc w @ CHR '','' # r) = (w, r)"
  "copyadvanceafter (CHR '','') (esc w) = (w, [])"
proof -
  have cons: "copyadvanceafter (CHR '','') (c # s) = (let (w, r) = copyadvanceafter (CHR '','') s in (c # w, r))"
    if "c \<noteq> CHR '',''" "c \<noteq> CHR 0x5C" for c s
    using that by (cases s) simp_all
  show "copyadvanceafter (CHR '','') (esc w @ CHR '','' # r) = (w, r)"
  proof (induction w)
    case Nil
    then show ?case by (cases r) (simp_all add: esc_def)
  qed (auto simp: esc_def cons)
  show "copyadvanceafter (CHR '','') (esc w) = (w, [])"
    by (induction w) (auto simp: esc_def cons)
qed

lemma copyadvanceafter_length:
  "copyadvanceafter ch s = (w, r) \<Longrightarrow> length w + length r \<le> length s \<and> (r \<noteq> [] \<longrightarrow> length w + length r < length s)"
proof (induction ch s arbitrary: w r rule: copyadvanceafter.induct)
  case (2 ch c)
  then show ?case by (simp split: if_splits) auto
next
  case (3 ch c d cs)
  obtain w1 r1 where r1: "copyadvanceafter ch cs = (w1, r1)" by fastforce
  obtain w2 r2 where r2: "copyadvanceafter ch (d # cs) = (w2, r2)" by fastforce
  note step1 = "3.IH"(1) [OF _ _ r1] and step2 = "3.IH"(2) [OF _ _ r2] and eq = "3.prems"
  consider (sep) "c = ch" | (bs) "c \<noteq> ch" "c = CHR 0x5C" | (plain) "c \<noteq> ch" "c \<noteq> CHR 0x5C" by blast
  then show ?case
  proof cases
    case sep
    with eq show ?thesis by auto
  next
    case bs
    then have "w = d # w1 \<and> r = r1" using eq by (simp add: r1)
    with step1 [OF bs] show ?thesis by auto
  next
    case plain
    then have "w = c # w2 \<and> r = r2" using eq by (simp add: r2)
    with step2 [OF plain] show ?thesis by auto
  qed
qed simp

lemma esc_Nil: "esc w = [] \<longleftrightarrow> w = []"
  by (cases w) (simp_all add: esc_def)

text \<open>the API's \<open>addpool\<close> parameter \<open>url,user,pass\<close> is read back field by field, whatever
characters the fields contain, when commas and backslashes are escaped and the password is not
empty; and the copies with their three NULs always fit the buffer of \<open>strlen(param) + 1\<close>.\<close>

theorem pool_details_round_trip:
  "(pass \<noteq> [] \<longrightarrow> pooldetails (esc url @ '','' @ esc user @ '','' @ esc pass) = Some (url, user, pass)) \<and>
   (pooldetails param = Some (url, user, pass) \<longrightarrow>
     (length url + 1) + (length user + 1) + (length pass + 1) \<le> length param + 1)"
proof -
  have "pooldetails (esc url @ '','' @ esc user @ '','' @ esc pass) = Some (url, user, pass)" if "pass \<noteq> []"
    using that by (simp add: pooldetails_def copyadvanceafter_esc esc_Nil)
  moreover have "(length url + 1) + (length user + 1) + (length pass + 1) \<le> length param + 1"
    if d: "pooldetails param = Some (url, user, pass)"
  proof -
    obtain w1 r1 where 1: "copyadvanceafter (CHR '','') param = (w1, r1)" by fastforce
    obtain w2 r2 where 2: "copyadvanceafter (CHR '','') r1 = (w2, r2)" by fastforce
    obtain w3 r3 where 3: "copyadvanceafter (CHR '','') r2 = (w3, r3)" by fastforce
    show ?thesis
      using d copyadvanceafter_length [OF 1] copyadvanceafter_length [OF 2] copyadvanceafter_length [OF 3]
      by (auto simp: pooldetails_def 1 2 3 split: if_splits)
  qed
  ultimately show ?thesis by blast
qed

lemma pool_details_round_trip_witness:
  "pooldetails (esc ''http://a,b'' @ '','' @ esc ''me'' @ '','' @ esc ''x'') = Some (''http://a,b'', ''me'', ''x'')"
  using pool_details_round_trip [of "''x''" "''http://a,b''" "''me''"] by blast

section \<open>Concrete runs\<close>

lemma two_pools_ctl: "ctl_ok two_pools" "count_ok two_pools"
proof -
  show "ctl_ok two_pools" using two_pools_ok by (simp add: ctl_ok_def)
  have "enabled (ps_pool two_pools a) = POOL_ENABLED" for a
    by (simp add: two_pools_def no_pools_def new_pool_def)
  then have "enabled_set two_pools = {10, 11}" by (auto simp: enabled_set_def two_pools_ok(1))
  then show "count_ok two_pools" by (simp add: count_ok_def) (simp add: two_pools_def)
qed

lemma poolpriority_orders_witness:
  "prio (ps_pool (snd (poolpriority (Some ''1'') two_pools)) 11) = 0 \<and>
   ctl_ok (snd (poolpriority (Some ''1'') two_pools))"
proof -
  have "parse_prios (total_pools two_pools) ''1'' [] = Inr [1]"
    by (simp add: two_pools_ok parse_prios.simps atoi_def isspace_def isdigit_def)
  then show ?thesis
    using poolpriority_orders [of two_pools "''1''"] two_pools_ctl two_pools_ok(1) by (simp add: Let_def)
qed


lemma api_disables_last_pool_witness:
  "enabled_set (foldl (\<lambda>s p. snd (disablepool (Some p) s)) two_pools [''0'', ''1'']) = {}"
proof (rule api_disables_last_pool)
  show "ctl_ok two_pools" by (rule two_pools_ctl)
  show "1 < enabled_pools two_pools" by (simp add: two_pools_def)
  show "map atoi [''0'', ''1''] = map int [0..<total_pools two_pools]"
    by (simp add: two_pools_ok atoi_def isspace_def isdigit_def upt_rec)
qed auto

end
