(* ===== verification/Work.thy ===== *)
theory Work
  imports Pools Work_Hash Encoding Thread_Queue
begin

text \<open>
  Work items, from \<open>src/cgminer/cgminer.c\<close>: \<open>struct work\<close>, the counters and options its
  operations share, making and copying an item (\<open>make_work\<close>, \<open>copy_work_noffset\<close>,
  \<open>make_clone\<close>), rolling its time (\<open>roll_work\<close>, \<open>set_work_ntime\<close>) and the tests that
  decide whether an item may still be used (\<open>stale_work\<close>, \<open>can_roll\<close>, \<open>should_roll\<close>).

  An item is owned by one place at a time, so it is a value that moves between the lists of
  the state. A pool is its address, as in \<open>Pools\<close>; the fields of \<open>struct pool\<close> that only
  this part uses are in \<open>pool_work\<close>. Times are seconds, and \<open>now\<close> is what \<open>cgtime\<close>
  returns. A double is its bit pattern: these operations only copy it.
\<close>

type_synonym dbl = u64

record work =
  w_data :: "u8 list"
  w_midstate :: "u8 list"
  w_target :: "u8 list"
  w_hash :: "u8 list"
  w_rolls :: int
  w_drv_rolllimit :: int
  w_nonce :: u32
  w_thr_id :: int
  w_pool :: "nat option"
  tv_staged :: int
  w_mined :: bool
  w_clone :: bool
  w_rolltime :: int
  w_longpoll :: bool
  w_stale :: bool
  w_mandatory :: bool
  w_block :: bool
  w_stratum :: bool
  w_job_id :: "u8 list option"
  w_nonce2 :: u64
  w_nonce2_len :: nat
  w_ntime :: "u8 list option"
  w_sdiff :: dbl
  w_nonce1 :: "u8 list option"
  w_gbt :: bool
  w_coinbase :: "u8 list option"
  w_gbt_txns :: int
  w_work_block :: u32
  w_id :: u32
  tv_cloned :: int
  tv_work_start :: int
  tv_work_found :: int

record pool_work =
  p_stratum_notify :: bool
  p_job_id :: "u8 list"
  p_getwork_delay :: int
  p_prev_block :: "u8 list"
  p_works :: int
  p_solved :: int
  p_discarded_work :: u32
  p_stale_shares :: u32
  p_submit_old :: bool
  p_stratum_q :: "work thread_q"

record block =
  b_hash :: "u8 list"
  b_no :: int

text \<open>What the local arrays of a function hold before it writes them.\<close>

record locals =
  st_bin :: "u8 list"
  st_swap :: "u8 list"
  st_hash1 :: "u8 list"
  st_ctx :: sha256_ctx

definition locals_ok :: "locals \<Rightarrow> bool" where
  "locals_ok l \<longleftrightarrow> length (st_bin l) = 4 \<and> length (st_swap l) = 80 \<and> length (st_hash1 l) = 32 \<and>
     length (cg_block (st_ctx l)) = 128"

record miner =
  m_pools :: pools_state
  m_pool :: "nat \<Rightarrow> pool_work"
  m_locals :: locals
  staged_work :: "work list"
  staged_rollable :: int
  getq_frozen :: bool
  max_queue :: int
  work_filled :: bool
  work_emptied :: bool
  total_work :: u32
  local_work :: u32
  work_block :: u32
  new_blocks :: u32
  blocks :: "block list"
  current_hash :: "u8 list"
  current_block :: "u8 list"
  prev_block :: "u8 list"
  restarts :: nat
  total_stale :: int
  total_discarded :: int
  hw_errors :: int
  found_blocks :: int
  submit_threads :: "work list"
  opt_scantime :: int
  opt_expiry :: int
  opt_queue :: int
  mining_threads :: int
  opt_benchmark :: bool
  opt_submit_stale :: bool

abbreviation pool_of :: "miner \<Rightarrow> work \<Rightarrow> pool" where
  "pool_of s w \<equiv> ps_pool (m_pools s) (the (w_pool w))"

abbreviation pool_work_of :: "miner \<Rightarrow> work \<Rightarrow> pool_work" where
  "pool_work_of s w \<equiv> m_pool s (the (w_pool w))"

definition upd_pool_work :: "nat \<Rightarrow> (pool_work \<Rightarrow> pool_work) \<Rightarrow> miner \<Rightarrow> miner" where
  "upd_pool_work a f s = s\<lparr>m_pool := (m_pool s)(a := f (m_pool s a))\<rparr>"

text \<open>\<open>gen_hash\<close> with its locals.\<close>

definition hash_of :: "locals \<Rightarrow> u8 list \<Rightarrow> u8 list" where
  "hash_of l data = gen_hash (st_ctx l) (st_hash1 l) data (st_hash1 l)"

section \<open>Making and retiring items\<close>

definition total_work_inc :: "miner \<Rightarrow> u32 \<times> miner" where
  "total_work_inc s = (total_work s, s\<lparr>total_work := total_work s + 1\<rparr>)"

text \<open>An item of all zeros, as \<open>calloc\<close> and \<open>memset\<close> leave it.\<close>

definition zero_work :: work where
  "zero_work = \<lparr>w_data = replicate 128 0, w_midstate = replicate 32 0, w_target = replicate 32 0,
     w_hash = replicate 32 0, w_rolls = 0, w_drv_rolllimit = 0, w_nonce = 0, w_thr_id = 0,
     w_pool = None, tv_staged = 0, w_mined = False, w_clone = False, w_rolltime = 0,
     w_longpoll = False, w_stale = False, w_mandatory = False, w_block = False,
     w_stratum = False, w_job_id = None, w_nonce2 = 0, w_nonce2_len = 0, w_ntime = None,
     w_sdiff = 0, w_nonce1 = None, w_gbt = False, w_coinbase = None, w_gbt_txns = 0,
     w_work_block = 0, w_id = 0, tv_cloned = 0, tv_work_start = 0, tv_work_found = 0\<rparr>"

definition make_work :: "miner \<Rightarrow> work \<times> miner" where
  "make_work s = (let (i, s) = total_work_inc s in (zero_work\<lparr>w_id := i\<rparr>, s))"

definition clean_work :: "work \<Rightarrow> work" where
  "clean_work w = zero_work"

section \<open>The time of an item\<close>

definition work_ntime :: "work \<Rightarrow> u32" where
  "work_ntime w = be32_word (sub_list (w_data w) 68 4)"

definition put_ntime :: "u32 \<Rightarrow> work \<Rightarrow> work" where
  "put_ntime t w = w\<lparr>w_data := memcpy_at (w_data w) 68 (be32_bytes t)\<rparr>"

definition modify_ntime :: "u8 list \<Rightarrow> u8 list \<Rightarrow> int \<Rightarrow> u8 list" where
  "modify_ntime bin ntime noffset =
     (let bin = fst (hex2bin bin ntime 4);
          h32 = be32_word bin + word_of_int noffset
      in bin2hex (be32_bytes h32))"

definition offset_ntime :: "u8 list \<Rightarrow> u8 list \<Rightarrow> int \<Rightarrow> u8 list" where
  "offset_ntime bin ntime noffset =
     (let bin = fst (hex2bin bin ntime 4);
          h32 = be32_word bin + word_of_int noffset
      in bin2hex (be32_bytes h32))"

definition roll_work :: "work \<Rightarrow> miner \<Rightarrow> work \<times> miner" where
  "roll_work w s =
     (let w = put_ntime (work_ntime w + 1) w;
          s = s\<lparr>local_work := local_work s + 1\<rparr>;
          w = w\<lparr>w_rolls := w_rolls w + 1, w_nonce := 0\<rparr>;
          w = (case w_ntime w of None \<Rightarrow> w
               | Some t \<Rightarrow> w\<lparr>w_ntime := Some (modify_ntime (st_bin (m_locals s)) t 1)\<rparr>);
          (i, s) = total_work_inc s
      in (w\<lparr>w_id := i\<rparr>, s))"

definition set_work_ntime :: "work \<Rightarrow> int \<Rightarrow> work" where
  "set_work_ntime w ntime =
     (let w = put_ntime (word_of_int ntime) w
      in case w_ntime w of None \<Rightarrow> w
         | Some _ \<Rightarrow> w\<lparr>w_ntime := Some (bin2hex (sub_list (w_data w) 68 4))\<rparr>)"

section \<open>Copies\<close>

text \<open>\<open>strdup\<close> of a string is the same value; the copy keeps its own number.\<close>

definition copy_into :: "miner \<Rightarrow> work \<Rightarrow> work \<Rightarrow> int \<Rightarrow> work" where
  "copy_into s w base noffset =
     (let i = w_id w;
          w = base\<lparr>w_id := i\<rparr>
      in case w_ntime base of
           Some t \<Rightarrow>
             (if noffset \<noteq> 0 then
                let w = put_ntime (work_ntime w + word_of_int noffset) w
                in w\<lparr>w_ntime := Some (offset_ntime (st_bin (m_locals s)) t noffset)\<rparr>
              else w)
         | None \<Rightarrow> (if noffset \<noteq> 0 then put_ntime (work_ntime w + word_of_int noffset) w else w))"

definition copy_work_noffset :: "work \<Rightarrow> int \<Rightarrow> miner \<Rightarrow> work \<times> miner" where
  "copy_work_noffset base noffset s =
     (let (w, s) = make_work s in (copy_into s w base noffset, s))"

definition make_clone :: "int \<Rightarrow> work \<Rightarrow> miner \<Rightarrow> work \<times> miner" where
  "make_clone now w s =
     (let (c, s) = copy_work_noffset w 0 s;
          c = c\<lparr>w_clone := True, tv_cloned := now, w_longpoll := False, w_mandatory := False\<rparr>;
          c = c\<lparr>tv_staged := tv_staged c - 1\<rparr>
      in (c, s))"

section \<open>Whether an item may be used\<close>

definition shared_strategy :: "pools_state \<Rightarrow> bool" where
  "shared_strategy ps \<longleftrightarrow> pool_strategy ps = POOL_LOADBALANCE \<or> pool_strategy ps = POOL_BALANCE"

text \<open>
  \<open>p_getwork_delay\<close> is the pool's average delay times 5 plus 1, cut to an integer, which
  the statistics of the pool keep as a double.
\<close>

definition stale_work :: "int \<Rightarrow> work \<Rightarrow> bool \<Rightarrow> miner \<Rightarrow> bool" where
  "stale_work now w share s \<longleftrightarrow>
     (if opt_benchmark s then False
      else if w_work_block w \<noteq> work_block s then True
      else
        let work_expiry = (if w_rolltime w > opt_scantime s then w_rolltime w else opt_expiry s);
            p = pool_of s w;
            q = pool_work_of s w
        in if \<not> share \<and> has_stratum p \<and> (\<not> stratum_active p \<or> \<not> p_stratum_notify q) then True
        else if \<not> share \<and> has_stratum p \<and> w_job_id w \<noteq> Some (p_job_id q) then True
        else
          let work_expiry = work_expiry - p_getwork_delay q;
              work_expiry = (if work_expiry < 5 then 5 else work_expiry)
          in if now - tv_staged w \<ge> work_expiry then True
          else if opt_fail_only (m_pools s) \<and> \<not> share \<and>
                  the (w_pool w) \<noteq> currentpool (m_pools s) \<and> \<not> w_mandatory w \<and>
                  pool_strategy (m_pools s) \<noteq> POOL_LOADBALANCE \<and>
                  pool_strategy (m_pools s) \<noteq> POOL_BALANCE then True
          else False)"

text \<open>The division of C: a negative dividend rounds towards zero.\<close>

definition two_thirds :: "int \<Rightarrow> int" where
  "two_thirds e = (if e < 0 then - (- (e * 2) div 3) else e * 2 div 3)"

definition should_roll :: "int \<Rightarrow> work \<Rightarrow> miner \<Rightarrow> bool" where
  "should_roll now w s \<longleftrightarrow>
     (if the (w_pool w) \<noteq> currentpool (m_pools s) \<and>
         pool_strategy (m_pools s) \<noteq> POOL_LOADBALANCE \<and>
         pool_strategy (m_pools s) \<noteq> POOL_BALANCE then False
      else
        let expiry = (if w_rolltime w > opt_scantime s then w_rolltime w else opt_scantime s);
            expiry = two_thirds expiry
        in if now - tv_staged w > expiry then False else True)"

definition can_roll :: "int \<Rightarrow> work \<Rightarrow> miner \<Rightarrow> bool" where
  "can_roll now w s \<longleftrightarrow>
     \<not> w_stratum w \<and> w_pool w \<noteq> None \<and> w_rolltime w \<noteq> 0 \<and> \<not> w_clone w \<and>
     w_rolls w < 7000 \<and> \<not> stale_work now w False s"

definition work_rollable :: "work \<Rightarrow> bool" where
  "work_rollable w \<longleftrightarrow> \<not> w_clone w \<and> w_rolltime w \<noteq> 0"


section \<open>The two forms of the time agree\<close>

definition ntime_ok :: "work \<Rightarrow> bool" where
  "ntime_ok w \<longleftrightarrow> length (w_data w) = 128 \<and>
     (\<forall>t. w_ntime w = Some t \<longrightarrow> t = bin2hex (sub_list (w_data w) 68 4))"

lemma put_ntime_simps [simp]:
  "w_ntime (put_ntime t w) = w_ntime w" "w_rolls (put_ntime t w) = w_rolls w"
  "w_pool (put_ntime t w) = w_pool w" "w_clone (put_ntime t w) = w_clone w"
  "w_rolltime (put_ntime t w) = w_rolltime w" "w_stratum (put_ntime t w) = w_stratum w"
  "w_id (put_ntime t w) = w_id w" "tv_staged (put_ntime t w) = tv_staged w"
  by (simp_all add: put_ntime_def)

lemma length_put_ntime [layout]: "length (w_data w) = 128 \<Longrightarrow> length (w_data (put_ntime t w)) = 128"
  by (simp add: put_ntime_def layout)

lemma put_ntime_bytes:
  assumes "length (w_data w) = 128"
  shows "sub_list (w_data (put_ntime t w)) 68 4 = be32_bytes t"
  using assms by (simp add: put_ntime_def memcpy_at_def sub_list_def layout)

lemma work_ntime_put [simp]: "length (w_data w) = 128 \<Longrightarrow> work_ntime (put_ntime t w) = t"
  by (simp add: work_ntime_def put_ntime_bytes bytes)

lemma work_ntime_cong: "w_data w' = w_data w \<Longrightarrow> work_ntime w' = work_ntime w"
  by (simp add: work_ntime_def)

lemma work_ntime_bytes:
  "length (w_data w) = 128 \<Longrightarrow> be32_bytes (work_ntime w) = sub_list (w_data w) 68 4"
  by (simp add: work_ntime_def bytes layout)

text \<open>Everything in the header but its time.\<close>

definition header_rest :: "work \<Rightarrow> u8 list" where
  "header_rest w = take 68 (w_data w) @ drop 72 (w_data w)"

lemma header_rest_put [simp]: "length (w_data w) = 128 \<Longrightarrow> header_rest (put_ntime t w) = header_rest w"
  by (simp add: header_rest_def put_ntime_def memcpy_at_def layout)

lemma hex2bin_text:
  assumes "length bin = 4" and "length bs = 4"
  shows "fst (hex2bin bin (bin2hex bs) 4) = bs"
  using hex2bin_loop_bin2hex [of "[]" bs] assms
  by (simp add: hex2bin_def memcpy_at_def)

lemma modify_ntime_text:
  assumes "length bin = 4" and "length bs = 4"
  shows "modify_ntime bin (bin2hex bs) n = bin2hex (be32_bytes (be32_word bs + word_of_int n))"
  by (simp add: modify_ntime_def hex2bin_text [OF assms])

lemma offset_ntime_text:
  assumes "length bin = 4" and "length bs = 4"
  shows "offset_ntime bin (bin2hex bs) n = bin2hex (be32_bytes (be32_word bs + word_of_int n))"
  by (simp add: offset_ntime_def hex2bin_text [OF assms])

section \<open>Rolling and copying\<close>

lemma roll_work_state [simp]:
  "snd (roll_work w s) = s\<lparr>local_work := local_work s + 1, total_work := total_work s + 1\<rparr>"
  by (simp add: roll_work_def total_work_inc_def Let_def)

lemma roll_work_data [simp]:
  "w_data (fst (roll_work w s)) = w_data (put_ntime (work_ntime w + 1) w)"
  by (simp add: roll_work_def total_work_inc_def Let_def split: option.splits)

lemma roll_work_fields [simp]:
  "w_rolls (fst (roll_work w s)) = w_rolls w + 1" "w_pool (fst (roll_work w s)) = w_pool w"
  "w_clone (fst (roll_work w s)) = w_clone w" "w_rolltime (fst (roll_work w s)) = w_rolltime w"
  "w_id (fst (roll_work w s)) = total_work s"
  by (simp_all add: roll_work_def total_work_inc_def Let_def split: option.splits)

lemma roll_work_ntime:
  "w_ntime (fst (roll_work w s)) =
     map_option (\<lambda>t. modify_ntime (st_bin (m_locals s)) t 1) (w_ntime w)"
  by (simp add: roll_work_def total_work_inc_def Let_def split: option.splits)

lemma work_ntime_roll:
  "length (w_data w) = 128 \<Longrightarrow> work_ntime (fst (roll_work w s)) = work_ntime w + 1"
  using work_ntime_cong [OF roll_work_data] by simp

lemma length_roll_work: "length (w_data w) = 128 \<Longrightarrow> length (w_data (fst (roll_work w s))) = 128"
  by (simp add: layout)

lemma header_rest_roll:
  "length (w_data w) = 128 \<Longrightarrow> header_rest (fst (roll_work w s)) = header_rest w"
  using header_rest_put [of w "work_ntime w + 1"] by (simp add: header_rest_def)

lemma roll_work_ok:
  assumes "ntime_ok w" and "length (st_bin (m_locals s)) = 4"
  shows "ntime_ok (fst (roll_work w s))"
proof -
  have l: "length (w_data w) = 128" using assms(1) by (simp add: ntime_ok_def)
  have "sub_list (w_data (fst (roll_work w s))) 68 4 = be32_bytes (work_ntime w + 1)"
    using put_ntime_bytes [OF l] by simp
  moreover have "modify_ntime (st_bin (m_locals s)) (bin2hex (sub_list (w_data w) 68 4)) 1 =
      bin2hex (be32_bytes (work_ntime w + 1))"
    using l assms(2) by (simp add: modify_ntime_text layout work_ntime_def)
  ultimately show ?thesis using assms(1) l
    by (auto simp: ntime_ok_def roll_work_ntime layout)
qed

lemma copy_into_fields [simp]:
  "w_id (copy_into s w b n) = w_id w" "w_clone (copy_into s w b n) = w_clone b"
  "w_rolltime (copy_into s w b n) = w_rolltime b" "w_pool (copy_into s w b n) = w_pool b"
  by (simp_all add: copy_into_def Let_def put_ntime_def split: option.splits)

lemma copy_into_data:
  "w_data (copy_into s w b n) =
     (if n = 0 then w_data b else w_data (put_ntime (work_ntime b + word_of_int n) b))"
  by (simp add: copy_into_def Let_def put_ntime_def work_ntime_def split: option.splits)

lemma copy_into_ntime:
  "w_ntime (copy_into s w b n) =
     (if n = 0 then w_ntime b
      else map_option (\<lambda>t. offset_ntime (st_bin (m_locals s)) t n) (w_ntime b))"
  by (simp add: copy_into_def Let_def split: option.splits)

lemma copy_into_ok:
  assumes "ntime_ok b" and "length (st_bin (m_locals s)) = 4"
  shows "ntime_ok (copy_into s w b n)"
proof (cases "n = 0")
  case True
  then show ?thesis using assms(1) by (simp add: ntime_ok_def copy_into_data copy_into_ntime)
next
  case False
  have l: "length (w_data b) = 128" using assms(1) by (simp add: ntime_ok_def)
  have "offset_ntime (st_bin (m_locals s)) (bin2hex (sub_list (w_data b) 68 4)) n =
      bin2hex (be32_bytes (work_ntime b + word_of_int n))"
    using l assms(2) by (simp add: offset_ntime_text layout work_ntime_def)
  with False show ?thesis using assms(1) l put_ntime_bytes [OF l]
    by (auto simp: ntime_ok_def copy_into_data copy_into_ntime layout)
qed

lemma set_work_ntime_ok:
  assumes "ntime_ok w" shows "ntime_ok (set_work_ntime w n)"
  using assms by (auto simp: ntime_ok_def set_work_ntime_def Let_def layout split: option.splits)

lemma make_clone_state [simp]:
  "snd (make_clone now w s) = s\<lparr>total_work := total_work s + 1\<rparr>"
  by (simp add: make_clone_def copy_work_noffset_def make_work_def total_work_inc_def Let_def)

lemma make_clone_fields [simp]:
  "w_data (fst (make_clone now w s)) = w_data w" "w_clone (fst (make_clone now w s))"
  "w_ntime (fst (make_clone now w s)) = w_ntime w" "w_pool (fst (make_clone now w s)) = w_pool w"
  "w_id (fst (make_clone now w s)) = total_work s"
  by (simp_all add: make_clone_def copy_work_noffset_def make_work_def total_work_inc_def Let_def
      copy_into_data copy_into_ntime)

lemma clone_not_rollable [simp]: "\<not> work_rollable (fst (make_clone now w s))"
  by (simp add: work_rollable_def)

lemma roll_work_rollable [simp]: "work_rollable (fst (roll_work w s)) = work_rollable w"
  by (simp add: work_rollable_def)

lemma copy_work_noffset_eq: "fst (copy_work_noffset w n s) =
    copy_into (s\<lparr>total_work := total_work s + 1\<rparr>) (zero_work\<lparr>w_id := total_work s\<rparr>) w n"
  by (simp add: copy_work_noffset_def make_work_def total_work_inc_def Let_def)

lemma copy_ntime:
  assumes "length (w_data w) = 128"
  shows "work_ntime (fst (copy_work_noffset w n s)) = work_ntime w + word_of_int n"
    and "header_rest (fst (copy_work_noffset w n s)) = header_rest w"
proof -
  have d: "w_data (fst (copy_work_noffset w n s)) =
      (if n = 0 then w_data w else w_data (put_ntime (work_ntime w + word_of_int n) w))"
    by (simp add: copy_work_noffset_eq copy_into_data)
  show "work_ntime (fst (copy_work_noffset w n s)) = work_ntime w + word_of_int n"
  proof (cases "n = 0")
    case True
    then have "w_data (fst (copy_work_noffset w n s)) = w_data w" using d by simp
    from work_ntime_cong [OF this] True show ?thesis by simp
  next
    case False
    then have "w_data (fst (copy_work_noffset w n s)) =
        w_data (put_ntime (work_ntime w + word_of_int n) w)" using d by simp
    from work_ntime_cong [OF this] show ?thesis using assms by simp
  qed
  show "header_rest (fst (copy_work_noffset w n s)) = header_rest w"
    using header_rest_put [OF assms, of "work_ntime w + word_of_int n"] d
    by (simp add: header_rest_def split: if_splits)
qed

lemma set_work_ntime_data: "w_data (set_work_ntime w n) = w_data (put_ntime (word_of_int n) w)"
  by (simp add: set_work_ntime_def Let_def split: option.splits)

text \<open>C18: The time a pool is told is the time that was hashed: whatever rolls, shifts or sets the
  time of a work item, the hexadecimal text sent with a share is the text of the four time
  bytes in the header, the rest of the header is untouched, and the time wraps at 2^32.\<close>

theorem time_text_follows_header:
  assumes "ntime_ok w" and "locals_ok (m_locals s)"
  shows "(ntime_ok (fst (roll_work w s)) \<and> work_ntime (fst (roll_work w s)) = work_ntime w + 1 \<and>
      header_rest (fst (roll_work w s)) = header_rest w) \<and>
    (ntime_ok (fst (copy_work_noffset w n s)) \<and>
      work_ntime (fst (copy_work_noffset w n s)) = work_ntime w + word_of_int n \<and>
      header_rest (fst (copy_work_noffset w n s)) = header_rest w) \<and>
    (ntime_ok (set_work_ntime w n) \<and> work_ntime (set_work_ntime w n) = word_of_int n)"
proof -
  have l: "length (w_data w) = 128" using assms(1) by (simp add: ntime_ok_def)
  have b: "length (st_bin (m_locals s)) = 4" using assms(2) by (simp add: locals_ok_def)
  have "work_ntime (set_work_ntime w n) = word_of_int n"
    using work_ntime_cong [OF set_work_ntime_data] l by simp
  moreover have "ntime_ok (fst (copy_work_noffset w n s))"
    using copy_into_ok [OF assms(1)] b by (simp add: copy_work_noffset_eq)
  ultimately show ?thesis
    using roll_work_ok [OF assms(1) b] work_ntime_roll [OF l] header_rest_roll [OF l]
      copy_ntime [OF l] set_work_ntime_ok [OF assms(1)] by simp
qed

section \<open>A sample state\<close>

definition demo_locals :: locals where
  "demo_locals = \<lparr>st_bin = [1, 2, 3, 4], st_swap = replicate 80 5, st_hash1 = replicate 32 6,
     st_ctx = demo_ctx\<rparr>"

definition demo_pool_work :: pool_work where
  "demo_pool_work = \<lparr>p_stratum_notify = False, p_job_id = [], p_getwork_delay = 1,
     p_prev_block = replicate 32 0, p_works = 0, p_solved = 0, p_discarded_work = 0,
     p_stale_shares = 0, p_submit_old = False,
     p_stratum_q = \<lparr>tq_q = [], tq_frozen = False\<rparr>\<rparr>"

definition demo_miner :: miner where
  "demo_miner = \<lparr>m_pools = two_pools, m_pool = (\<lambda>a. demo_pool_work), m_locals = demo_locals,
     staged_work = [], staged_rollable = 0, getq_frozen = False, max_queue = 1,
     work_filled = False, work_emptied = False, total_work = 7, local_work = 0, work_block = 0,
     new_blocks = 1, blocks = [\<lparr>b_hash = replicate 64 0x30, b_no = 0\<rparr>],
     current_hash = replicate 64 0x30, current_block = replicate 32 0,
     prev_block = replicate 8 0x30, restarts = 0, total_stale = 0, total_discarded = 0,
     hw_errors = 0, found_blocks = 0, submit_threads = [], opt_scantime = 30, opt_expiry = 120,
     opt_queue = 2, mining_threads = 1, opt_benchmark = False, opt_submit_stale = False\<rparr>"

text \<open>An item of pool 10 with time \<open>0x01020304\<close>.\<close>

definition demo_work :: work where
  "demo_work = zero_work\<lparr>w_data := replicate 68 0 @ [1, 2, 3, 4] @ replicate 56 0,
     w_ntime := Some (bin2hex [1, 2, 3, 4]), w_pool := Some (currentpool two_pools), w_rolltime := 60\<rparr>"

lemma demo_work_ok: "ntime_ok demo_work"
  by (simp add: ntime_ok_def demo_work_def sub_list_def zero_work_def)

lemma demo_locals_ok: "locals_ok (m_locals demo_miner)"
  by (simp add: locals_ok_def demo_miner_def demo_locals_def demo_ctx_def)

theorem time_text_follows_header_witness:
  "work_ntime (fst (roll_work demo_work demo_miner)) = work_ntime demo_work + 1 \<and>
   ntime_ok (fst (copy_work_noffset demo_work (- 5) demo_miner))"
  using time_text_follows_header [OF demo_work_ok demo_locals_ok, of "- 5"] by blast

end
