(* ===== verification/Work_Queue.thy ===== *)
theory Work_Queue
  imports Work "HOL-Library.Multiset"
begin

text \<open>
  The queue of staged work, from \<open>src/cgminer/cgminer.c\<close>: the table of recent blocks
  (\<open>test_work_current\<close>, \<open>set_curblock\<close>), staging (\<open>stage_work\<close>, \<open>hash_push\<close>), taking
  work out (\<open>hash_pop\<close>, \<open>get_work\<close>), discarding it (\<open>discard_stale\<close>,
  \<open>clear_pool_work\<close>) and multiplying it (\<open>clone_available\<close>, \<open>clone_work\<close>).

  A hash table of the C code that is only iterated is the list of its items in iteration
  order. Every function that holds the staging lock is one step; a thread that finds the queue
  empty in \<open>hash_pop\<close> sleeps between two steps.
\<close>

section \<open>Blocks\<close>

definition block_exists :: "u8 list \<Rightarrow> miner \<Rightarrow> bool" where
  "block_exists hexstr s \<longleftrightarrow> (\<exists>b\<in>set (blocks s). b_hash b = hexstr)"

text \<open>The offset of the first digit that is not zero, at most 57.\<close>

definition zero_digits :: "u8 list \<Rightarrow> nat" where
  "zero_digits h = (case find (\<lambda>ofs. h ! ofs \<noteq> 0x30) [0..<57] of None \<Rightarrow> 57 | Some ofs \<Rightarrow> ofs)"

definition set_curblock :: "u8 list \<Rightarrow> u8 list \<Rightarrow> miner \<Rightarrow> miner" where
  "set_curblock hexstr bedata s =
     (let s = s\<lparr>current_hash := hexstr, current_block := take 32 bedata\<rparr>;
          ofs = zero_digits (current_hash s)
      in s\<lparr>prev_block := take 8 (drop ofs (current_hash s))\<rparr>)"

text \<open>
  \<open>HASH_SORT\<close> by number and removal of the head, when seven blocks are kept already.
\<close>

definition add_block :: "u8 list \<Rightarrow> miner \<Rightarrow> miner" where
  "add_block hexstr s =
     (let b = \<lparr>b_hash = hexstr, b_no = uint (new_blocks s)\<rparr>;
          s = s\<lparr>new_blocks := new_blocks s + 1\<rparr>;
          s = (if length (blocks s) > 6 then s\<lparr>blocks := tl (sort_key b_no (blocks s))\<rparr> else s)
      in s\<lparr>blocks := blocks s @ [b]\<rparr>)"

definition restart_threads :: "miner \<Rightarrow> miner" where
  "restart_threads s = s\<lparr>restarts := restarts s + 1\<rparr>"

text \<open>All 32 bytes of \<open>bedata\<close> are written by \<open>swap256\<close>.\<close>

definition work_prev :: "work \<Rightarrow> u8 list" where
  "work_prev w = swap256 (replicate 32 0) (sub_list (w_data w) 4 32)"

definition test_work_current :: "work \<Rightarrow> miner \<Rightarrow> bool \<times> work \<times> miner" where
  "test_work_current w s =
     (if w_mandatory w then (True, w, s)
      else
        let pool = the (w_pool w);
            bedata = work_prev w;
            hexstr = bin2hex bedata
        in if \<not> block_exists hexstr s then
          let s = add_block hexstr s;
              s = set_curblock hexstr bedata s;
              s = upd_pool_work pool (\<lambda>p. p\<lparr>p_prev_block := bedata\<rparr>) s
          in if new_blocks s = 1 then (False, w\<lparr>w_longpoll := False\<rparr>, s)
             else
               let s = s\<lparr>work_block := work_block s + 1\<rparr>;
                   w = w\<lparr>w_work_block := work_block s\<rparr>;
                   s = restart_threads s
               in (True, w\<lparr>w_longpoll := False\<rparr>, s)
        else
          let (ret, s) =
                (if p_prev_block (m_pool s pool) \<noteq> bedata then
                   if bedata \<noteq> current_block s then (False, s)
                   else (True, upd_pool_work pool (\<lambda>p. p\<lparr>p_prev_block := bedata\<rparr>) s)
                 else (True, s));
              (w, s) =
                (if w_longpoll w then
                   let s = s\<lparr>work_block := work_block s + 1\<rparr>;
                       w = w\<lparr>w_work_block := work_block s\<rparr>;
                       s = (if shared_strategy (m_pools s) \<or> pool = currentpool (m_pools s)
                            then restart_threads s else s)
                   in (w, s)
                 else (w, s))
          in (ret, w\<lparr>w_longpoll := False\<rparr>, s))"

section \<open>Staging\<close>

definition hash_push :: "work \<Rightarrow> miner \<Rightarrow> bool \<times> miner" where
  "hash_push w s =
     (let s = (if work_rollable w then s\<lparr>staged_rollable := staged_rollable s + 1\<rparr> else s)
      in if \<not> getq_frozen s then (True, s\<lparr>staged_work := sort_key tv_staged (staged_work s @ [w])\<rparr>)
         else (False, s))"

definition stage_work :: "work \<Rightarrow> miner \<Rightarrow> miner" where
  "stage_work w s =
     (let w = w\<lparr>w_work_block := work_block s\<rparr>;
          (_, w, s) = test_work_current w s;
          s = upd_pool_work (the (w_pool w)) (\<lambda>p. p\<lparr>p_works := p_works p + 1\<rparr>) s
      in snd (hash_push w s))"

section \<open>Taking work out\<close>

text \<open>
  \<open>Delete_null\<close> is \<open>HASH_DEL\<close> applied to the null pointer that the search for an item that
  cannot be rolled ends with when there is none.
\<close>

datatype pop_result = Popped work | No_work | Waiting | Delete_null

definition hash_pop_take :: "miner \<Rightarrow> pop_result \<times> miner" where
  "hash_pop_take s =
     (let s = (if no_work (m_pools s) then s\<lparr>m_pools := (m_pools s)\<lparr>no_work := False\<rparr>\<rparr> else s);
          hc = int (length (staged_work s));
          pos = (if hc > staged_rollable s
                 then find (\<lambda>i. \<not> work_rollable (staged_work s ! i)) [0..<length (staged_work s)]
                 else Some 0)
      in case pos of
           None \<Rightarrow> (Delete_null, s)
         | Some i \<Rightarrow>
             let w = staged_work s ! i;
                 s = s\<lparr>staged_work := take i (staged_work s) @ drop (Suc i) (staged_work s)\<rparr>;
                 s = (if work_rollable w then s\<lparr>staged_rollable := staged_rollable s - 1\<rparr> else s)
             in (Popped w, s))"

definition hash_pop :: "bool \<Rightarrow> miner \<Rightarrow> pop_result \<times> miner" where
  "hash_pop blocking s =
     (if staged_work s = [] then
        let s = (if work_filled s \<and> max_queue s < opt_queue s
                 then s\<lparr>max_queue := max_queue s + 1, work_filled := False\<rparr> else s);
            s = s\<lparr>work_emptied := True\<rparr>
        in if \<not> blocking then (No_work, s) else (Waiting, s)
      else hash_pop_take s)"

text \<open>
  A sleeping thread goes on when the condition is signalled or its ten seconds are over:
  \<open>rc\<close> is the result of \<open>pthread_cond_timedwait\<close>.
\<close>

definition hash_pop_wake :: "int \<Rightarrow> miner \<Rightarrow> pop_result \<times> miner" where
  "hash_pop_wake rc s =
     (let s = (if rc \<noteq> 0 \<and> \<not> no_work (m_pools s)
               then s\<lparr>m_pools := (m_pools s)\<lparr>no_work := True\<rparr>\<rparr> else s)
      in if staged_work s = [] then (Waiting, s) else hash_pop_take s)"

definition discard_work :: "work \<Rightarrow> miner \<Rightarrow> miner" where
  "discard_work w s =
     (if \<not> w_clone w \<and> w_rolls w = 0 \<and> \<not> w_mined w then
        let s = (case w_pool w of None \<Rightarrow> s
                 | Some a \<Rightarrow>
                     let s = upd_pool_work a (\<lambda>p. p\<lparr>p_discarded_work := p_discarded_work p + 1,
                               p_works := p_works p - 1\<rparr>) s
                     in s\<lparr>m_pools := upd_pool a (\<lambda>p. p\<lparr>quota_used := quota_used p - 1\<rparr>) (m_pools s)\<rparr>)
        in s\<lparr>total_discarded := total_discarded s + 1\<rparr>
      else s)"

definition discard_stale :: "int \<Rightarrow> miner \<Rightarrow> miner" where
  "discard_stale now s =
     (let (stales, kept) = partition (\<lambda>w. stale_work now w False s) (staged_work s)
      in foldl (\<lambda>s w. discard_work w s) (s\<lparr>staged_work := kept\<rparr>) stales)"

definition clear_pool_work :: "nat \<Rightarrow> miner \<Rightarrow> miner" where
  "clear_pool_work a s = s\<lparr>staged_work := filter (\<lambda>w. w_pool w \<noteq> Some a) (staged_work s)\<rparr>"

section \<open>Multiplying work\<close>

definition clone_available :: "int \<Rightarrow> miner \<Rightarrow> bool \<times> miner" where
  "clone_available now s =
     (if staged_rollable s = 0 then (False, s)
      else case find (\<lambda>i. can_roll now (staged_work s ! i) s \<and> should_roll now (staged_work s ! i) s)
                  [0..<length (staged_work s)] of
        None \<Rightarrow> (False, s)
      | Some i \<Rightarrow>
          let w = staged_work s ! i;
              (w, s) = roll_work w s;
              (c, s) = make_clone now w s;
              (w, s) = roll_work w s;
              s = s\<lparr>staged_work := (staged_work s)[i := w]\<rparr>
          in (True, stage_work c s))"

text \<open>The loop with its counter \<open>mrs\<close>.\<close>

fun clone_loop :: "int \<Rightarrow> nat \<Rightarrow> work \<Rightarrow> work \<Rightarrow> bool \<Rightarrow> miner \<Rightarrow> work \<times> work \<times> bool \<times> miner" where
  "clone_loop now 0 w c cloned s = (w, c, cloned, s)"
| "clone_loop now (Suc mrs) w c cloned s =
     (if can_roll now w s \<and> should_roll now w s then
        let s = stage_work c s;
            (w, s) = roll_work w s;
            (c, s) = make_clone now w s;
            (w, s) = roll_work w s
        in clone_loop now mrs w c True s
      else (w, c, cloned, s))"

definition clone_work :: "int \<Rightarrow> work \<Rightarrow> miner \<Rightarrow> work \<times> miner" where
  "clone_work now w s =
     (let mrs = mining_threads s + opt_queue s - int (length (staged_work s))
      in if mrs < 1 then (w, s)
         else
           let (c, s) = make_clone now w s;
               (w, c, cloned, s) = clone_loop now (nat mrs) w c False s
           in if cloned then (c, stage_work w s) else (w, s))"


section \<open>Getting work for a device\<close>

lemma length_hash_pop_take:
  "hash_pop_take s = (Popped w, s') \<Longrightarrow> staged_work s \<noteq> [] \<Longrightarrow>
     Suc (length (staged_work s')) = length (staged_work s)"
  by (auto simp: hash_pop_take_def Let_def find_Some_iff split: option.splits if_splits)

lemma hash_pop_take_keeps: "fst (hash_pop_take s) = Delete_null \<or> (\<exists>w. fst (hash_pop_take s) = Popped w)"
  by (simp add: hash_pop_take_def Let_def split: option.splits)

lemma length_hash_pop:
  "hash_pop b s = (Popped w, s') \<Longrightarrow> Suc (length (staged_work s')) = length (staged_work s)"
  using length_hash_pop_take [of s w s'] by (auto simp: hash_pop_def Let_def split: if_splits)

lemma discard_work_staged [simp]:
  "staged_work (discard_work w s) = staged_work s"
  "staged_rollable (discard_work w s) = staged_rollable s"
  by (simp_all add: discard_work_def Let_def upd_pool_work_def split: option.splits)

function get_work_loop :: "int \<Rightarrow> int \<Rightarrow> pop_result \<times> miner \<Rightarrow> pop_result \<times> miner" where
  "get_work_loop now thr_id (Popped w, s) =
     (if stale_work now w False s
      then get_work_loop now thr_id (hash_pop True (discard_work w s))
      else (Popped (w\<lparr>w_thr_id := thr_id, w_mined := True\<rparr>), s))"
| "get_work_loop now thr_id (No_work, s) = (No_work, s)"
| "get_work_loop now thr_id (Waiting, s) = (Waiting, s)"
| "get_work_loop now thr_id (Delete_null, s) = (Delete_null, s)"
  by pat_completeness auto
termination
proof (relation "measure (\<lambda>(now, thr_id, r, s).
    length (staged_work s) + (case r of Popped w \<Rightarrow> 1 | _ \<Rightarrow> 0))", goal_cases)
  case (2 now thr_id w s)
  obtain r s' where p: "hash_pop True (discard_work w s) = (r, s')" by fastforce
  have le: "length (staged_work s') \<le> length (staged_work s)" if "\<forall>w. r \<noteq> Popped w"
    using p that by (auto simp: hash_pop_def hash_pop_take_def Let_def split: if_splits option.splits)
  show ?case
  proof (cases "\<exists>w. r = Popped w")
    case True
    then show ?thesis using length_hash_pop p by fastforce
  next
    case False
    then show ?thesis using le p by (cases r) auto
  qed
qed simp

definition get_work :: "int \<Rightarrow> int \<Rightarrow> miner \<Rightarrow> pop_result \<times> miner" where
  "get_work now thr_id s = get_work_loop now thr_id (hash_pop True s)"

definition get_work_wake :: "int \<Rightarrow> int \<Rightarrow> int \<Rightarrow> miner \<Rightarrow> pop_result \<times> miner" where
  "get_work_wake rc now thr_id s = get_work_loop now thr_id (hash_pop_wake rc s)"

section \<open>What staging changes\<close>

lemma upd_pool_work_fields [simp]:
  "staged_work (upd_pool_work a f s) = staged_work s"
  "staged_rollable (upd_pool_work a f s) = staged_rollable s"
  "getq_frozen (upd_pool_work a f s) = getq_frozen s"
  "work_block (upd_pool_work a f s) = work_block s"
  "blocks (upd_pool_work a f s) = blocks s" "new_blocks (upd_pool_work a f s) = new_blocks s"
  "current_block (upd_pool_work a f s) = current_block s"
  "current_hash (upd_pool_work a f s) = current_hash s"
  "m_locals (upd_pool_work a f s) = m_locals s" "m_pools (upd_pool_work a f s) = m_pools s"
  "total_work (upd_pool_work a f s) = total_work s"
  by (simp_all add: upd_pool_work_def)

lemma add_block_fields [simp]:
  "staged_work (add_block h s) = staged_work s"
  "staged_rollable (add_block h s) = staged_rollable s" "getq_frozen (add_block h s) = getq_frozen s"
  "new_blocks (add_block h s) = new_blocks s + 1" "m_locals (add_block h s) = m_locals s"
  "total_work (add_block h s) = total_work s"
  by (simp_all add: add_block_def Let_def)

lemma set_curblock_fields [simp]:
  "staged_work (set_curblock h d s) = staged_work s"
  "staged_rollable (set_curblock h d s) = staged_rollable s"
  "getq_frozen (set_curblock h d s) = getq_frozen s" "blocks (set_curblock h d s) = blocks s"
  "new_blocks (set_curblock h d s) = new_blocks s" "current_block (set_curblock h d s) = take 32 d"
  "m_locals (set_curblock h d s) = m_locals s" "total_work (set_curblock h d s) = total_work s"
  by (simp_all add: set_curblock_def Let_def)

lemma restart_threads_fields [simp]:
  "staged_work (restart_threads s) = staged_work s"
  "staged_rollable (restart_threads s) = staged_rollable s"
  "getq_frozen (restart_threads s) = getq_frozen s" "blocks (restart_threads s) = blocks s"
  "new_blocks (restart_threads s) = new_blocks s"
  "current_block (restart_threads s) = current_block s"
  "work_block (restart_threads s) = work_block s" "m_locals (restart_threads s) = m_locals s"
  "total_work (restart_threads s) = total_work s"
  by (simp_all add: restart_threads_def)

lemma test_work_current_queue:
  assumes "test_work_current w s = (ret, w', s')"
  shows "staged_work s' = staged_work s" "staged_rollable s' = staged_rollable s"
    "getq_frozen s' = getq_frozen s" "m_locals s' = m_locals s" "total_work s' = total_work s"
  using assms by (auto simp: test_work_current_def Let_def split: if_splits)

lemma test_work_current_work:
  assumes "test_work_current w s = (ret, w', s')"
  shows "w_data w' = w_data w" "w_clone w' = w_clone w" "w_rolltime w' = w_rolltime w"
    "tv_staged w' = tv_staged w" "w_pool w' = w_pool w" "w_ntime w' = w_ntime w" "w_id w' = w_id w"
  using assms by (auto simp: test_work_current_def Let_def split: if_splits)

lemma hash_push_staged [simp]:
  "staged_work (snd (hash_push w s)) =
     (if getq_frozen s then staged_work s else sort_key tv_staged (staged_work s @ [w]))"
  "staged_rollable (snd (hash_push w s)) =
     staged_rollable s + (if work_rollable w then 1 else 0)"
  "getq_frozen (snd (hash_push w s)) = getq_frozen s"
  "m_locals (snd (hash_push w s)) = m_locals s" "total_work (snd (hash_push w s)) = total_work s"
  by (simp_all add: hash_push_def Let_def)

text \<open>What ends up in the queue is the item itself, up to its block number and the flag of a
  long poll.\<close>

definition same_item :: "work \<Rightarrow> work \<Rightarrow> bool" where
  "same_item w w' \<longleftrightarrow> w_data w' = w_data w \<and> w_clone w' = w_clone w \<and> w_rolltime w' = w_rolltime w \<and>
     tv_staged w' = tv_staged w \<and> w_pool w' = w_pool w \<and> w_ntime w' = w_ntime w \<and> w_id w' = w_id w"

lemma same_item_rollable: "same_item w w' \<Longrightarrow> work_rollable w' = work_rollable w"
  by (simp add: same_item_def work_rollable_def)

lemma stage_work_cases:
  obtains w' where "same_item w w'"
    "staged_work (stage_work w s) =
       (if getq_frozen s then staged_work s else sort_key tv_staged (staged_work s @ [w']))"
    "staged_rollable (stage_work w s) = staged_rollable s + (if work_rollable w then 1 else 0)"
    "getq_frozen (stage_work w s) = getq_frozen s" "m_locals (stage_work w s) = m_locals s"
    "total_work (stage_work w s) = total_work s"
proof -
  obtain ret w' s' where t: "test_work_current (w\<lparr>w_work_block := work_block s\<rparr>) s = (ret, w', s')"
    by (metis prod_cases3)
  have i: "same_item w w'" using test_work_current_work [OF t] by (simp add: same_item_def)
  note q = test_work_current_queue [OF t]
  have e: "stage_work w s = snd (hash_push w'
      (upd_pool_work (the (w_pool w')) (\<lambda>p. p\<lparr>p_works := p_works p + 1\<rparr>) s'))"
    by (simp add: stage_work_def t Let_def)
  show ?thesis
    by (rule that [OF i]) (simp_all add: e q same_item_rollable [OF i])
qed

section \<open>The count of rollable items\<close>

definition rollables :: "miner \<Rightarrow> nat" where
  "rollables s = length (filter work_rollable (staged_work s))"

definition queue_ok :: "miner \<Rightarrow> bool" where
  "queue_ok s \<longleftrightarrow> int (rollables s) \<le> staged_rollable s \<and> sorted (map tv_staged (staged_work s))"

lemma rollables_sort: "length (filter P (sort_key f xs)) = length (filter P xs)"
  by (metis mset_filter mset_sort size_mset)

lemma stage_work_ok: "queue_ok s \<Longrightarrow> queue_ok (stage_work w s)"
  by (rule stage_work_cases [of w s]) (auto simp: queue_ok_def rollables_def rollables_sort same_item_rollable)

lemma filter_split:
  assumes "i < length xs"
  shows "length (filter P xs) =
    length (filter P (take i xs @ drop (Suc i) xs)) + (if P (xs ! i) then 1 else 0)"
  by (subst id_take_nth_drop [OF assms]) simp

lemma sorted_remove:
  "sorted (map f xs) \<Longrightarrow> sorted (map f (take i xs @ drop (Suc i) xs))"
proof (cases "i < length xs")
  case True
  assume "sorted (map f xs)"
  then show ?thesis
    by (subst (asm) id_take_nth_drop [OF True]) (auto simp: sorted_append)
qed simp

lemma hash_pop_take_pos:
  assumes "queue_ok s" and "staged_work s \<noteq> []"
  obtains i where "i < length (staged_work s)" "fst (hash_pop_take s) = Popped (staged_work s ! i)"
    "staged_work (snd (hash_pop_take s)) = take i (staged_work s) @ drop (Suc i) (staged_work s)"
    "staged_rollable (snd (hash_pop_take s)) =
       staged_rollable s - (if work_rollable (staged_work s ! i) then 1 else 0)"
    "\<forall>j<i. work_rollable (staged_work s ! j)"
    "i = 0 \<or> \<not> work_rollable (staged_work s ! i)"
    "int (length (staged_work s)) > staged_rollable s \<longrightarrow> \<not> work_rollable (staged_work s ! i)"
proof (cases "int (length (staged_work s)) > staged_rollable s")
  case True
  have "\<exists>j<length (staged_work s). \<not> work_rollable (staged_work s ! j)"
  proof (rule ccontr)
    assume "\<not> ?thesis"
    then have "filter work_rollable (staged_work s) = staged_work s"
      by (simp add: filter_id_conv all_set_conv_all_nth)
    with assms(1) True show False by (simp add: queue_ok_def rollables_def)
  qed
  then obtain i where f: "find (\<lambda>i. \<not> work_rollable (staged_work s ! i)) [0..<length (staged_work s)] = Some i"
    by (cases "find (\<lambda>i. \<not> work_rollable (staged_work s ! i)) [0..<length (staged_work s)]")
      (auto simp: find_None_iff)
  then have "i < length (staged_work s)" "\<not> work_rollable (staged_work s ! i)"
    "\<forall>j<i. work_rollable (staged_work s ! j)"
    by (auto simp: find_Some_iff)
  then show ?thesis using True f
    by (intro that [of i]) (simp_all add: hash_pop_take_def Let_def)
next
  case False
  then show ?thesis using assms(2)
    by (intro that [of 0]) (simp_all add: hash_pop_take_def Let_def)
qed

lemma hash_pop_take_ok:
  assumes "queue_ok s" and "staged_work s \<noteq> []" shows "queue_ok (snd (hash_pop_take s))"
proof -
  obtain i where i: "i < length (staged_work s)"
    "staged_work (snd (hash_pop_take s)) = take i (staged_work s) @ drop (Suc i) (staged_work s)"
    "staged_rollable (snd (hash_pop_take s)) =
       staged_rollable s - (if work_rollable (staged_work s ! i) then 1 else 0)"
    using hash_pop_take_pos [OF assms] by metis
  have "sorted (map tv_staged (staged_work (snd (hash_pop_take s))))"
    unfolding i(2) using assms(1) by (intro sorted_remove) (simp add: queue_ok_def)
  moreover have "int (rollables (snd (hash_pop_take s))) \<le> staged_rollable (snd (hash_pop_take s))"
    using assms(1) filter_split [OF i(1), of work_rollable]
    unfolding queue_ok_def rollables_def i(2,3) by (simp split: if_splits)
  ultimately show ?thesis by (simp add: queue_ok_def)
qed

lemma queue_ok_cong:
  "staged_work s' = staged_work s \<Longrightarrow> staged_rollable s' = staged_rollable s \<Longrightarrow>
     queue_ok s \<Longrightarrow> queue_ok s'"
  by (simp add: queue_ok_def rollables_def)

lemma queue_ok_filter:
  assumes "queue_ok s" and "staged_work s' = filter P (staged_work s)"
    and "staged_rollable s' = staged_rollable s"
  shows "queue_ok s'"
proof -
  have "length (filter Q (filter P xs)) \<le> length (filter Q xs)" for Q and xs :: "work list"
    by (induction xs) auto
  from this [of work_rollable "staged_work s"] assms show ?thesis by (simp add: queue_ok_def rollables_def sorted_filter)
qed

lemma discards_staged:
  "staged_work (foldl (\<lambda>s w. discard_work w s) s ws) = staged_work s"
  "staged_rollable (foldl (\<lambda>s w. discard_work w s) s ws) = staged_rollable s"
  by (induction ws arbitrary: s) simp_all

lemma discard_stale_ok: "queue_ok s \<Longrightarrow> queue_ok (discard_stale now s)"
  by (rule queue_ok_filter [of s _ "\<lambda>w. \<not> stale_work now w False s"])
    (simp_all add: discard_stale_def discards_staged Let_def o_def)

lemma clear_pool_work_ok: "queue_ok s \<Longrightarrow> queue_ok (clear_pool_work a s)"
  by (rule queue_ok_filter [of s _ "\<lambda>w. w_pool w \<noteq> Some a"]) (simp_all add: clear_pool_work_def)

lemma hash_pop_ok: "queue_ok s \<Longrightarrow> queue_ok (snd (hash_pop b s))"
proof (cases "staged_work s = []")
  case True
  moreover assume "queue_ok s"
  ultimately show ?thesis
    by (simp add: hash_pop_def Let_def queue_ok_def rollables_def)
qed (simp add: hash_pop_def hash_pop_take_ok)

lemma hash_pop_wake_ok: "queue_ok s \<Longrightarrow> queue_ok (snd (hash_pop_wake rc s))"
proof -
  assume q: "queue_ok s"
  let ?t = "if rc \<noteq> 0 \<and> \<not> no_work (m_pools s) then s\<lparr>m_pools := (m_pools s)\<lparr>no_work := True\<rparr>\<rparr> else s"
  have "queue_ok ?t" by (rule queue_ok_cong [OF _ _ q]) simp_all
  then show ?thesis using hash_pop_take_ok [of ?t]
    by (cases "staged_work ?t = []") (simp_all add: hash_pop_wake_def Let_def)
qed

lemma count_by_map: "length (filter P xs) = length (filter id (map P xs))"
  by (induction xs) simp_all

lemma roll_staged_ok:
  assumes "queue_ok s" and "i < length (staged_work s)" and "tv_staged w = tv_staged (staged_work s ! i)"
    and "work_rollable w = work_rollable (staged_work s ! i)"
  shows "queue_ok (s\<lparr>staged_work := (staged_work s)[i := w]\<rparr>)"
proof -
  have "map tv_staged ((staged_work s)[i := w]) = map tv_staged (staged_work s)"
    by (simp add: map_update list_update_same_conv assms(2,3))
  moreover have "map work_rollable ((staged_work s)[i := w]) = map work_rollable (staged_work s)"
    by (simp add: map_update list_update_same_conv assms(2,4))
  then have "length (filter work_rollable ((staged_work s)[i := w])) = length (filter work_rollable (staged_work s))"
    by (simp only: count_by_map [of work_rollable])
  ultimately show ?thesis using assms(1) by (simp add: queue_ok_def rollables_def)
qed

lemma roll_work_staged_time [simp]: "tv_staged (fst (roll_work w s)) = tv_staged w"
  by (simp add: roll_work_def total_work_inc_def Let_def split: option.splits)

lemma clone_available_ok: assumes "queue_ok s" shows "queue_ok (snd (clone_available now s))"
proof (cases "staged_rollable s = 0 \<or> find (\<lambda>i. can_roll now (staged_work s ! i) s \<and>
    should_roll now (staged_work s ! i) s) [0..<length (staged_work s)] = None")
  case True
  then show ?thesis using assms by (auto simp: clone_available_def)
next
  case False
  then obtain i where z: "staged_rollable s \<noteq> 0" and
    f: "find (\<lambda>i. can_roll now (staged_work s ! i) s \<and>
      should_roll now (staged_work s ! i) s) [0..<length (staged_work s)] = Some i" by auto
  then have i: "i < length (staged_work s)" by (auto simp: find_Some_iff)
  obtain w1 s1 where r1: "roll_work (staged_work s ! i) s = (w1, s1)" by fastforce
  obtain c s2 where c: "make_clone now w1 s1 = (c, s2)" by fastforce
  obtain w3 s3 where r3: "roll_work w1 s2 = (w3, s3)" by fastforce
  note rr = roll_work_state [of "staged_work s ! i" s, unfolded r1 snd_conv]
    make_clone_state [of now w1 s1, unfolded c snd_conv] roll_work_state [of w1 s2, unfolded r3 snd_conv]
  have "staged_work s3 = staged_work s" "staged_rollable s3 = staged_rollable s" using rr by simp_all
  then have q3: "queue_ok s3" and i3: "i < length (staged_work s3)" and eq: "staged_work s3 = staged_work s"
    using queue_ok_cong [of s3 s] assms i by simp_all
  have t1: "tv_staged w1 = tv_staged (staged_work s ! i)"
    "work_rollable w1 = work_rollable (staged_work s ! i)"
    using roll_work_staged_time [of "staged_work s ! i" s] roll_work_rollable [of "staged_work s ! i" s]
    by (simp_all add: r1)
  have t: "tv_staged w3 = tv_staged (staged_work s3 ! i)"
    "work_rollable w3 = work_rollable (staged_work s3 ! i)"
    using t1 roll_work_staged_time [of w1 s2] roll_work_rollable [of w1 s2] by (simp_all add: r3 eq)
  have "snd (clone_available now s) = stage_work c (s3\<lparr>staged_work := (staged_work s3)[i := w3]\<rparr>)"
    by (simp add: clone_available_def z f r1 c r3 Let_def)
  then show ?thesis using stage_work_ok [OF roll_staged_ok [OF q3 i3 t]] by simp
qed

lemma queue_ok_counters: "queue_ok s \<Longrightarrow> queue_ok (s\<lparr>local_work := a, total_work := b\<rparr>)"
  by (simp add: queue_ok_def rollables_def)

lemma queue_ok_counter: "queue_ok s \<Longrightarrow> queue_ok (s\<lparr>total_work := b\<rparr>)"
  by (simp add: queue_ok_def rollables_def)

lemma roll_work_ok_queue: "queue_ok s \<Longrightarrow> queue_ok (snd (roll_work w s))"
  by (simp add: queue_ok_counters)

lemma make_clone_ok_queue: "queue_ok s \<Longrightarrow> queue_ok (snd (make_clone now w s))"
  by (simp add: queue_ok_counter)

lemma clone_loop_step:
  assumes "can_roll now w s" and "should_roll now w s"
  obtains w1 s1 c' s2 w2 s3 where "roll_work w (stage_work c s) = (w1, s1)"
    "make_clone now w1 s1 = (c', s2)" "roll_work w1 s2 = (w2, s3)"
    "clone_loop now (Suc mrs) w c cloned s = clone_loop now mrs w2 c' True s3"
proof -
  obtain w1 s1 where 1: "roll_work w (stage_work c s) = (w1, s1)" by fastforce
  obtain c' s2 where 2: "make_clone now w1 s1 = (c', s2)" by fastforce
  obtain w2 s3 where 3: "roll_work w1 s2 = (w2, s3)" by fastforce
  show ?thesis by (rule that [OF 1 2 3]) (simp add: assms 1 2 3 Let_def)
qed

lemma clone_loop_ok:
  "queue_ok s \<Longrightarrow> clone_loop now mrs w c cloned s = (w', c', cloned', s') \<Longrightarrow> queue_ok s'"
proof (induction mrs arbitrary: w c cloned s)
  case (Suc mrs)
  show ?case
  proof (cases "can_roll now w s \<and> should_roll now w s")
    case True
    then obtain w1 s1 c1 s2 w2 s3 where e: "roll_work w (stage_work c s) = (w1, s1)"
      "make_clone now w1 s1 = (c1, s2)" "roll_work w1 s2 = (w2, s3)"
      "clone_loop now (Suc mrs) w c cloned s = clone_loop now mrs w2 c1 True s3"
      using clone_loop_step by metis
    have "queue_ok s3"
      using roll_work_ok_queue [OF stage_work_ok [OF Suc.prems(1), of c], of w]
        make_clone_ok_queue [of s1 now w1] roll_work_ok_queue [of s2 w1] by (simp only: e snd_conv)
    with Suc.IH Suc.prems(2) e(4) show ?thesis by metis
  qed (use Suc.prems in auto)
qed simp

lemma clone_work_ok: assumes "queue_ok s" shows "queue_ok (snd (clone_work now w s))"
proof -
  let ?mrs = "mining_threads s + opt_queue s - int (length (staged_work s))"
  obtain c s1 where c: "make_clone now w s = (c, s1)" by fastforce
  obtain w2 c2 cl s2 where l: "clone_loop now (nat ?mrs) w c False s1 = (w2, c2, cl, s2)"
    by (metis prod_cases4)
  have "queue_ok s2" using clone_loop_ok [OF _ l] make_clone_ok_queue [OF assms, of now w] c by simp
  then show ?thesis using assms by (simp add: clone_work_def c l Let_def stage_work_ok)
qed


section \<open>Runs of the queue\<close>

text \<open>
  One step of any thread under the staging lock. \<open>elsewhere\<close> is everything that leaves the
  queue and its count alone: time, options, pools, other threads.
\<close>

inductive queue_step :: "miner \<Rightarrow> miner \<Rightarrow> bool" where
  stage: "queue_step s (stage_work w s)"
| pop: "queue_step s (snd (hash_pop blocking s))"
| wake: "queue_step s (snd (hash_pop_wake rc s))"
| take_work: "queue_step s (snd (get_work now thr_id s))"
| discard: "queue_step s (discard_stale now s)"
| clear: "queue_step s (clear_pool_work a s)"
| available: "queue_step s (snd (clone_available now s))"
| clone: "queue_step s (snd (clone_work now w s))"
| elsewhere: "staged_work s' = staged_work s \<Longrightarrow> staged_rollable s' = staged_rollable s \<Longrightarrow>
    queue_step s s'"

lemma discard_work_ok: "queue_ok s \<Longrightarrow> queue_ok (discard_work w s)"
  by (erule queue_ok_cong [rotated 2]) simp_all

lemma get_work_loop_ok: "queue_ok (snd rs) \<Longrightarrow> queue_ok (snd (get_work_loop now thr_id rs))"
proof (induction now thr_id rs rule: get_work_loop.induct)
  case (1 now thr_id w s)
  then show ?case by (simp add: hash_pop_ok discard_work_ok)
qed simp_all

lemma get_work_ok: "queue_ok s \<Longrightarrow> queue_ok (snd (get_work now thr_id s))"
  by (simp add: get_work_def get_work_loop_ok hash_pop_ok)

lemma queue_step_ok: "queue_step s s' \<Longrightarrow> queue_ok s \<Longrightarrow> queue_ok s'"
  by (induction rule: queue_step.induct)
    (simp_all add: stage_work_ok hash_pop_ok hash_pop_wake_ok get_work_ok discard_stale_ok
      clear_pool_work_ok clone_available_ok clone_work_ok queue_ok_cong)

lemma queue_run_ok: "queue_step\<^sup>*\<^sup>* s s' \<Longrightarrow> queue_ok s \<Longrightarrow> queue_ok s'"
  by (induction rule: rtranclp_induct) (auto intro: queue_step_ok)

text \<open>C16: However the threads interleave, the count of rollable items never falls below their
  number in the queue, so the search of \<open>hash_pop\<close> never ends without an item (it would
  delete a null pointer); an item that can still be rolled is only taken when no other one is
  staged or when it is the oldest, and every item staged before the one taken is rollable.\<close>

theorem pop_prefers_spent_items:
  assumes "queue_step\<^sup>*\<^sup>* s s'" and "staged_work s = []" and "0 \<le> staged_rollable s"
  shows "case hash_pop True s' of
      (Popped w, t) \<Rightarrow> \<exists>i<length (staged_work s'). w = staged_work s' ! i \<and>
        staged_work t = take i (staged_work s') @ drop (Suc i) (staged_work s') \<and>
        (\<forall>j<i. work_rollable (staged_work s' ! j)) \<and>
        (work_rollable w \<longrightarrow> i = 0 \<and> (\<forall>v\<in>set (staged_work s'). tv_staged w \<le> tv_staged v))
    | (Waiting, t) \<Rightarrow> staged_work s' = []
    | (No_work, t) \<Rightarrow> False
    | (Delete_null, t) \<Rightarrow> False"
proof -
  have "queue_ok s" using assms(2,3) by (simp add: queue_ok_def rollables_def)
  then have q: "queue_ok s'" using queue_run_ok [OF assms(1)] by simp
  show ?thesis
  proof (cases "staged_work s' = []")
    case True
    then show ?thesis by (simp add: hash_pop_def Let_def)
  next
    case False
    obtain i where i: "i < length (staged_work s')"
      "fst (hash_pop_take s') = Popped (staged_work s' ! i)"
      "staged_work (snd (hash_pop_take s')) = take i (staged_work s') @ drop (Suc i) (staged_work s')"
      "\<forall>j<i. work_rollable (staged_work s' ! j)" "i = 0 \<or> \<not> work_rollable (staged_work s' ! i)"
      using hash_pop_take_pos [OF q False] by metis
    have "\<forall>v\<in>set (staged_work s'). tv_staged (staged_work s' ! 0) \<le> tv_staged v"
      using q False by (cases "staged_work s'") (auto simp: queue_ok_def)
    then have "\<exists>k<length (staged_work s'). staged_work s' ! i = staged_work s' ! k \<and>
        staged_work (snd (hash_pop_take s')) = take k (staged_work s') @ drop (Suc k) (staged_work s') \<and>
        (\<forall>j<k. work_rollable (staged_work s' ! j)) \<and>
        (work_rollable (staged_work s' ! i) \<longrightarrow>
          k = 0 \<and> (\<forall>v\<in>set (staged_work s'). tv_staged (staged_work s' ! i) \<le> tv_staged v))"
      using i by (intro exI [of _ i]) auto
    moreover have "hash_pop True s' = (Popped (staged_work s' ! i), snd (hash_pop_take s'))"
      using i(2) False by (simp add: hash_pop_def prod_eq_iff)
    ultimately show ?thesis by simp
  qed
qed

definition demo_busy :: miner where
  "demo_busy = stage_work demo_work (stage_work (demo_work\<lparr>w_clone := True, tv_staged := 3\<rparr>) demo_miner)"

lemma demo_busy_run: "queue_step\<^sup>*\<^sup>* demo_miner demo_busy"
  unfolding demo_busy_def
  by (rule rtranclp.rtrancl_into_rtrancl [OF r_into_rtranclp]) (rule queue_step.stage)+

theorem pop_prefers_spent_items_witness:
  "queue_step\<^sup>*\<^sup>* demo_miner demo_busy \<and>
   (case hash_pop True demo_busy of
      (Popped w, t) \<Rightarrow> \<exists>i<length (staged_work demo_busy). w = staged_work demo_busy ! i \<and>
        staged_work t = take i (staged_work demo_busy) @ drop (Suc i) (staged_work demo_busy) \<and>
        (\<forall>j<i. work_rollable (staged_work demo_busy ! j)) \<and>
        (work_rollable w \<longrightarrow> i = 0 \<and> (\<forall>v\<in>set (staged_work demo_busy). tv_staged w \<le> tv_staged v))
    | (Waiting, t) \<Rightarrow> staged_work demo_busy = []
    | (No_work, t) \<Rightarrow> False
    | (Delete_null, t) \<Rightarrow> False)"
  using demo_busy_run pop_prefers_spent_items [OF demo_busy_run]
  by (simp add: demo_miner_def)

section \<open>The count drifts\<close>

text \<open>
  Discarding and clearing remove rollable items without lowering the count, so it can stay
  above the number of items for good; then \<open>hash_pop\<close> takes the oldest item although a spent
  one is staged.
\<close>

theorem discard_leaves_count:
  "staged_rollable (discard_stale now s) = staged_rollable s"
  "staged_rollable (clear_pool_work a s) = staged_rollable s"
  by (simp_all add: discard_stale_def discards_staged Let_def clear_pool_work_def)

lemma high_count_takes_head:
  assumes "staged_work s = w # ws" and "int (length (staged_work s)) \<le> staged_rollable s"
  shows "fst (hash_pop_take s) = Popped w"
  using assms by (simp add: hash_pop_take_def Let_def)

section \<open>Work handed out is fresh\<close>

lemma stale_work_cong:
  assumes "w_work_block w' = w_work_block w" "w_rolltime w' = w_rolltime w" "w_pool w' = w_pool w"
    "w_job_id w' = w_job_id w" "tv_staged w' = tv_staged w" "w_mandatory w' = w_mandatory w"
  shows "stale_work now w' share s = stale_work now w share s"
  by (simp only: stale_work_def assms)

lemma get_work_loop_fresh:
  "get_work_loop now thr_id rs = (Popped w, s') \<Longrightarrow>
     \<not> stale_work now w False s' \<and> w_mined w \<and> w_thr_id w = thr_id"
proof (induction now thr_id rs rule: get_work_loop.induct)
  case (1 now thr_id v s)
  show ?case
  proof (cases "stale_work now v False s")
    case True
    then show ?thesis using "1.IH" [OF True] "1.prems" by simp
  next
    case False
    then have "w = v\<lparr>w_thr_id := thr_id, w_mined := True\<rparr>" "s' = s" using "1.prems" by auto
    then show ?thesis using False stale_work_cong [of w v now False s] by simp
  qed
qed simp_all

text \<open>The result of a blocking pop: an item, or a thread asleep on an empty queue.\<close>

definition pop_sound :: "pop_result \<times> miner \<Rightarrow> bool" where
  "pop_sound rs \<longleftrightarrow> queue_ok (snd rs) \<and> \<not> opt_benchmark (snd rs) \<and>
     (case fst rs of Popped w \<Rightarrow> True | No_work \<Rightarrow> False
      | Waiting \<Rightarrow> staged_work (snd rs) = [] | Delete_null \<Rightarrow> False)"

lemma discard_work_benchmark [simp]: "opt_benchmark (discard_work w s) = opt_benchmark s"
  by (simp add: discard_work_def Let_def upd_pool_work_def split: option.splits)

lemma hash_pop_take_benchmark [simp]: "opt_benchmark (snd (hash_pop_take s)) = opt_benchmark s"
  by (simp add: hash_pop_take_def Let_def split: option.splits)

lemma hash_pop_sound:
  assumes "queue_ok s" and "\<not> opt_benchmark s" shows "pop_sound (hash_pop True s)"
proof (cases "staged_work s = []")
  case True
  then show ?thesis using assms
    by (simp add: pop_sound_def hash_pop_def Let_def queue_ok_def rollables_def)
next
  case False
  obtain i where "fst (hash_pop_take s) = Popped (staged_work s ! i)"
    using hash_pop_take_pos [OF assms(1) False] by metis
  then show ?thesis using assms hash_pop_take_ok [OF assms(1) False] False
    by (simp add: pop_sound_def hash_pop_def)
qed

lemma get_work_loop_sound: "pop_sound rs \<Longrightarrow> pop_sound (get_work_loop now thr_id rs)"
proof (induction now thr_id rs rule: get_work_loop.induct)
  case (1 now thr_id w s)
  have "pop_sound (hash_pop True (discard_work w s))"
    using 1 by (intro hash_pop_sound discard_work_ok) (simp_all add: pop_sound_def)
  with 1 show ?case by (simp add: pop_sound_def)
qed simp_all

lemma not_stale:
  assumes "\<not> stale_work now w False s" and "\<not> opt_benchmark s"
  shows "w_work_block w = work_block s \<and>
    now - tv_staged w < max 5 ((if w_rolltime w > opt_scantime s then w_rolltime w
      else opt_expiry s) - p_getwork_delay (pool_work_of s w)) \<and>
    (has_stratum (pool_of s w) \<longrightarrow>
       stratum_active (pool_of s w) \<and> w_job_id w = Some (p_job_id (pool_work_of s w)))"
  using assms by (simp add: stale_work_def Let_def not_le max_def split: if_splits)

text \<open>C17: A device never starts on stale work: the item \<open>get_work\<close> returns belongs to the current
  block and is within its time, and its pool still serves its job; the items it throws away
  first are lost from the queue, so a call either returns a fresh item or leaves the queue
  empty and sleeps.\<close>

theorem get_work_is_fresh:
  assumes "queue_ok s" and "\<not> opt_benchmark s"
  shows "case get_work now thr_id s of
      (Popped w, t) \<Rightarrow> w_work_block w = work_block t \<and>
        now - tv_staged w < max 5 ((if w_rolltime w > opt_scantime t then w_rolltime w
          else opt_expiry t) - p_getwork_delay (pool_work_of t w)) \<and>
        (has_stratum (pool_of t w) \<longrightarrow>
           stratum_active (pool_of t w) \<and> w_job_id w = Some (p_job_id (pool_work_of t w))) \<and>
        w_mined w \<and> w_thr_id w = thr_id
    | (r, t) \<Rightarrow> r = Waiting \<and> staged_work t = []"
proof -
  have p: "pop_sound (get_work now thr_id s)"
    using get_work_loop_sound [OF hash_pop_sound [OF assms]] by (simp add: get_work_def)
  obtain r t where g: "get_work now thr_id s = (r, t)" by fastforce
  show ?thesis
  proof (cases r)
    case (Popped w)
    then have f: "\<not> stale_work now w False t \<and> w_mined w \<and> w_thr_id w = thr_id"
      using get_work_loop_fresh [of now thr_id "hash_pop True s" w t] g by (simp add: get_work_def)
    then show ?thesis using not_stale [of now w t] p g Popped by (simp add: pop_sound_def)
  qed (use p g in \<open>simp_all add: pop_sound_def\<close>)
qed

lemma demo_busy_ok: "queue_ok demo_busy"
  using queue_run_ok [OF demo_busy_run] by (simp add: demo_miner_def queue_ok_def rollables_def)

lemma opt_benchmark_kept [simp]:
  "opt_benchmark (upd_pool_work a f s) = opt_benchmark s"
  "opt_benchmark (add_block h s) = opt_benchmark s"
  "opt_benchmark (set_curblock h d s) = opt_benchmark s"
  "opt_benchmark (restart_threads s) = opt_benchmark s"
  "opt_benchmark (snd (hash_push w s)) = opt_benchmark s"
  by (simp_all add: upd_pool_work_def add_block_def set_curblock_def restart_threads_def
      hash_push_def Let_def)

lemma test_work_current_benchmark:
  "test_work_current w s = (ret, w', s') \<Longrightarrow> opt_benchmark s' = opt_benchmark s"
  by (auto simp: test_work_current_def Let_def split: if_splits)

lemma stage_work_benchmark: "opt_benchmark (stage_work w s) = opt_benchmark s"
proof -
  obtain ret w' s' where t: "test_work_current (w\<lparr>w_work_block := work_block s\<rparr>) s = (ret, w', s')"
    by (metis prod_cases3)
  show ?thesis using test_work_current_benchmark [OF t] by (simp add: stage_work_def t Let_def)
qed

theorem get_work_is_fresh_witness:
  "case get_work 20 5 demo_busy of
      (Popped w, t) \<Rightarrow> w_work_block w = work_block t \<and>
        20 - tv_staged w < max 5 ((if w_rolltime w > opt_scantime t then w_rolltime w
          else opt_expiry t) - p_getwork_delay (pool_work_of t w)) \<and>
        (has_stratum (pool_of t w) \<longrightarrow>
           stratum_active (pool_of t w) \<and> w_job_id w = Some (p_job_id (pool_work_of t w))) \<and>
        w_mined w \<and> w_thr_id w = 5
    | (r, t) \<Rightarrow> r = Waiting \<and> staged_work t = []"
  by (rule get_work_is_fresh [OF demo_busy_ok])
    (simp add: demo_busy_def stage_work_benchmark demo_miner_def)

section \<open>The recent blocks\<close>

text \<open>
  What the table promises: the hashes of the last seven different blocks, oldest first.
\<close>

definition see_block :: "u8 list \<Rightarrow> u8 list list \<Rightarrow> u8 list list" where
  "see_block h seen =
     (if h \<in> set seen then seen else (if length seen > 6 then tl seen else seen) @ [h])"

definition blocks_ok :: "miner \<Rightarrow> bool" where
  "blocks_ok s \<longleftrightarrow> length (blocks s) \<le> 7 \<and> distinct (map b_hash (blocks s)) \<and>
     sorted (map b_no (blocks s)) \<and> (\<forall>b\<in>set (blocks s). b_no b < uint (new_blocks s)) \<and>
     (\<forall>b\<in>set (blocks s). length (b_hash b) = 64)"

definition block_text :: "work \<Rightarrow> u8 list" where
  "block_text w = bin2hex (work_prev w)"

lemma add_block_hashes:
  assumes "sorted (map b_no (blocks s))"
  shows "map b_hash (blocks (add_block h s)) =
    (if length (blocks s) > 6 then tl (map b_hash (blocks s)) else map b_hash (blocks s)) @ [h]"
  using sorted_sort_id [of "map b_no (blocks s)"] assms
  by (simp add: add_block_def Let_def sort_key_id_if_sorted map_tl)

lemma block_exists_iff: "block_exists h s \<longleftrightarrow> h \<in> set (map b_hash (blocks s))"
  by (auto simp: block_exists_def)

lemma test_work_current_blocks:
  "blocks (snd (snd (test_work_current w s))) =
     (if w_mandatory w \<or> block_exists (block_text w) s then blocks s
      else blocks (add_block (block_text w) s))"
  "new_blocks (snd (snd (test_work_current w s))) =
     (if w_mandatory w \<or> block_exists (block_text w) s then new_blocks s else new_blocks s + 1)"
  by (auto simp: test_work_current_def Let_def block_text_def)

lemma length_swap256: "length dest = 32 \<Longrightarrow> length (swap256 dest src) = 32"
  by (simp add: swap256_def store32_def Let_def layout)

lemma length_block_text [simp]: "length (block_text w) = 64"
  by (simp add: block_text_def length_bin2hex work_prev_def length_swap256)

lemma add_block_ok:
  assumes "blocks_ok s" and "h \<notin> set (map b_hash (blocks s))" and "length h = 64"
    and "uint (new_blocks s) + 1 < 2 ^ 32"
  shows "blocks_ok (add_block h s)"
proof -
  define old where "old = (if length (blocks s) > 6 then tl (blocks s) else blocks s)"
  have b: "blocks (add_block h s) = old @ [\<lparr>b_hash = h, b_no = uint (new_blocks s)\<rparr>]"
    using assms(1) by (simp add: add_block_def Let_def blocks_ok_def sort_key_id_if_sorted old_def)
  have n: "uint (new_blocks s + 1) = uint (new_blocks s) + 1"
    using assms(4) by (simp add: uint_word_ariths(1) mod_pos_pos_trivial)
  have sub: "\<forall>x\<in>set old. x \<in> set (blocks s)" by (cases "blocks s") (auto simp: old_def)
  have old: "distinct (map b_hash old)" "sorted (map b_no old)" "length old \<le> 6"
    using assms(1) by (cases "blocks s"; auto simp: blocks_ok_def old_def)+
  have lt: "\<forall>x\<in>set old. b_no x < uint (new_blocks s) \<and> length (b_hash x) = 64"
    using assms(1) sub by (auto simp: blocks_ok_def)
  have new: "h \<notin> b_hash ` set old" using assms(2) sub by auto
  show ?thesis using old lt new assms(3)
    unfolding blocks_ok_def b by (auto simp: n sorted_append)
qed

text \<open>The table of blocks is the list of the last seven different previous-block hashes: work
  is matched against exactly these, a hash seen for the first time replaces the oldest of
  seven, and the keys stay distinct, 64 digits long and in order of their numbers.\<close>

theorem block_table_refines:
  assumes "blocks_ok s" and "uint (new_blocks s) + 1 < 2 ^ 32" and "\<not> w_mandatory w"
  shows "blocks_ok (snd (snd (test_work_current w s))) \<and>
    map b_hash (blocks (snd (snd (test_work_current w s)))) =
      see_block (block_text w) (map b_hash (blocks s))"
proof (cases "block_exists (block_text w) s")
  case True
  then show ?thesis using assms
    by (simp add: blocks_ok_def test_work_current_blocks see_block_def block_exists_iff)
next
  case False
  have h: "block_text w \<notin> set (map b_hash (blocks s))" using False unfolding block_exists_iff .
  have "blocks_ok (add_block (block_text w) s)"
    using add_block_ok [OF assms(1) h _ assms(2)] by simp
  then have "blocks_ok (snd (snd (test_work_current w s)))"
    using False assms(3) by (simp add: blocks_ok_def test_work_current_blocks)
  moreover have "map b_hash (blocks (snd (snd (test_work_current w s)))) =
      see_block (block_text w) (map b_hash (blocks s))"
    using add_block_hashes [of s "block_text w"] False h assms(1,3)
    by (simp add: test_work_current_blocks see_block_def blocks_ok_def)
  ultimately show ?thesis ..
qed

lemma demo_blocks_ok: "blocks_ok demo_miner"
  by (simp add: blocks_ok_def demo_miner_def)

theorem block_table_refines_witness:
  "map b_hash (blocks (snd (snd (test_work_current (demo_work\<lparr>w_data := replicate 128 1\<rparr>) demo_miner)))) =
     see_block (block_text (demo_work\<lparr>w_data := replicate 128 1\<rparr>)) [replicate 64 0x30]"
  using block_table_refines [OF demo_blocks_ok, of "demo_work\<lparr>w_data := replicate 128 1\<rparr>"]
  by (simp add: demo_miner_def demo_work_def zero_work_def)


section \<open>The times of cloned work\<close>

text \<open>The offsets of the items staged in \<open>k\<close> turns of the loop, after the first.\<close>

definition turn_times :: "u32 \<Rightarrow> u32 \<Rightarrow> nat \<Rightarrow> u32 list" where
  "turn_times c n k = (if k = 0 then [] else c # map (\<lambda>j. n + of_nat (2 * j + 1)) [0..<k - 1])"

lemma turn_times_Suc: "turn_times c n (Suc k) = c # turn_times (n + 1) (n + 2) k"
proof (cases k)
  case (Suc m)
  have "[0..<Suc m] = 0 # map Suc [0..<m]" by (simp only: map_Suc_upt) (rule upt_conv_Cons, simp)
  then show ?thesis using Suc by (simp add: turn_times_def o_def algebra_simps del: upt_Suc)
qed (simp add: turn_times_def)

definition clone_run :: "work \<Rightarrow> work \<Rightarrow> miner \<Rightarrow> nat \<Rightarrow> work list \<Rightarrow> work \<Rightarrow> work \<Rightarrow> miner \<Rightarrow> bool" where
  "clone_run w c s k new w' c' s' \<longleftrightarrow>
     mset (staged_work s') = mset (staged_work s) + mset new \<and>
     map work_ntime new = turn_times (work_ntime c) (work_ntime w) k \<and>
     work_ntime w' = work_ntime w + of_nat (2 * k) \<and>
     work_ntime c' = (if k = 0 then work_ntime c else work_ntime w + of_nat (2 * k - 1)) \<and>
     (\<forall>v\<in>set (w' # c' # new). header_rest v = header_rest w) \<and>
     length (w_data w') = 128 \<and> \<not> getq_frozen s' \<and> w_rolls w' = w_rolls w + 2 * int k"

lemma stage_work_adds:
  assumes "\<not> getq_frozen s"
  obtains v where "w_data v = w_data w" "mset (staged_work (stage_work w s)) = mset (staged_work s) + {#v#}"
    "\<not> getq_frozen (stage_work w s)"
  by (rule stage_work_cases [of w s]) (use assms in \<open>auto simp: same_item_def\<close>)

lemma header_rest_cong: "w_data v = w_data w \<Longrightarrow> header_rest v = header_rest w"
  by (simp add: header_rest_def)

lemma clone_loop_run:
  assumes "length (w_data w) = 128" and "header_rest c = header_rest w" and "\<not> getq_frozen s"
  shows "clone_loop now mrs w c cloned s = (w', c', cloned', s') \<Longrightarrow>
    \<exists>k new. clone_run w c s k new w' c' s' \<and> cloned' = (cloned \<or> k > 0) \<and>
      (k = 0 \<longrightarrow> w' = w \<and> c' = c \<and> s' = s) \<and> (k > 0 \<longrightarrow> w_rolls w + 2 * int k \<le> 7001)"
  using assms
proof (induction mrs arbitrary: w c cloned s)
  case 0
  then show ?case
    by (intro exI [of _ 0] exI [of _ "[]"]) (simp add: clone_run_def turn_times_def)
next
  case (Suc mrs)
  show ?case
  proof (cases "can_roll now w s \<and> should_roll now w s")
    case False
    then show ?thesis using Suc.prems
      by (intro exI [of _ 0] exI [of _ "[]"]) (auto simp add: clone_run_def turn_times_def)
  next
    case True
    then obtain w1 s1 c1 s2 w2 s3 where e: "roll_work w (stage_work c s) = (w1, s1)"
      "make_clone now w1 s1 = (c1, s2)" "roll_work w1 s2 = (w2, s3)"
      "clone_loop now (Suc mrs) w c cloned s = clone_loop now mrs w2 c1 True s3"
      using clone_loop_step by metis
    obtain v where v: "w_data v = w_data c"
      "mset (staged_work (stage_work c s)) = mset (staged_work s) + {#v#}"
      "\<not> getq_frozen (stage_work c s)"
      using stage_work_adds Suc.prems(4) by metis
    have st: "staged_work s3 = staged_work (stage_work c s)" "\<not> getq_frozen s3"
      using roll_work_state [of w "stage_work c s", unfolded e prod.sel]
        make_clone_state [of now w1 s1, unfolded e prod.sel]
        roll_work_state [of w1 s2, unfolded e prod.sel] v(3) by simp_all
    have l1: "length (w_data w1) = 128" "work_ntime w1 = work_ntime w + 1"
      "header_rest w1 = header_rest w" "w_rolls w1 = w_rolls w + 1"
      using length_roll_work [of w "stage_work c s", unfolded e prod.sel]
        work_ntime_roll [of w "stage_work c s", unfolded e prod.sel]
        header_rest_roll [of w "stage_work c s", unfolded e prod.sel]
        roll_work_fields(1) [of w "stage_work c s", unfolded e prod.sel]
        Suc.prems(2) by simp_all
    have l2: "length (w_data w2) = 128" "work_ntime w2 = work_ntime w + 2"
      "header_rest w2 = header_rest w" "w_rolls w2 = w_rolls w + 2"
      using length_roll_work [of w1 s2, unfolded e prod.sel]
        work_ntime_roll [of w1 s2, unfolded e prod.sel]
        header_rest_roll [of w1 s2, unfolded e prod.sel]
        roll_work_fields(1) [of w1 s2, unfolded e prod.sel] l1 by simp_all
    have dc: "w_data c1 = w_data w1" using make_clone_fields(1) [of now w1 s1, unfolded e prod.sel] .
    have c1: "work_ntime c1 = work_ntime w + 1" "header_rest c1 = header_rest w"
      using work_ntime_cong [OF dc] header_rest_cong [OF dc] l1 by simp_all
    have vc: "work_ntime v = work_ntime c" "header_rest v = header_rest w"
      using work_ntime_cong [OF v(1)] header_rest_cong [OF v(1)] Suc.prems(3) by simp_all
    obtain k new where k: "clone_run w2 c1 s3 k new w' c' s'"
      "cloned'" "k = 0 \<longrightarrow> w' = w2 \<and> c' = c1 \<and> s' = s3" "k > 0 \<longrightarrow> w_rolls w2 + 2 * int k \<le> 7001"
      using Suc.IH [of w2 c1 True s3] Suc.prems(1) e(4) l2(1,3) c1(2) st(2) by auto
    have "w_rolls w < 7000" using True by (simp add: can_roll_def)
    then have bound: "w_rolls w + 2 * int (Suc k) \<le> 7001" using k(4) l2(4) by (cases "k = 0") auto
    have "clone_run w c s (Suc k) (v # new) w' c' s'"
      using k(1) l2 c1 vc st(1) v(2)
      by (auto simp: clone_run_def turn_times_Suc algebra_simps)
    then show ?thesis using k(2) bound by (intro exI [of _ "Suc k"] exI [of _ "v # new"]) simp
  qed
qed

text \<open>As natural numbers, the items of a run and then the master and the clone returned.\<close>

definition turn_offsets :: "nat \<Rightarrow> nat list" where
  "turn_offsets k = 0 # map (\<lambda>j. 2 * j + 1) [0..<k - 1] @ [2 * k, 2 * k - 1]"

lemma distinct_turn_offsets: "0 < k \<Longrightarrow> distinct (turn_offsets k)"
  by (auto simp: turn_offsets_def distinct_map inj_on_def)

lemma turn_offsets_bound: "d \<in> set (turn_offsets k) \<Longrightarrow> d \<le> 2 * k"
  by (auto simp: turn_offsets_def)

lemma distinct_shifted:
  assumes "distinct ds" and "\<forall>d\<in>set ds. d < 2 ^ 32"
  shows "distinct (map (\<lambda>d. n + of_nat d :: u32) ds)"
  using assms(1)
proof (rule distinct_map [THEN iffD2, OF conjI])
  show "inj_on (\<lambda>d. n + of_nat d) (set ds)"
  proof (rule inj_onI)
    fix a b assume "a \<in> set ds" "b \<in> set ds" "n + of_nat a = (n + of_nat b :: u32)"
    then have "(of_nat a :: u32) = of_nat b" "a < 2 ^ 32" "b < 2 ^ 32" using assms(2) by auto
    then show "a = b" by (simp add: word_of_nat_eq_iff take_bit_nat_eq_self)
  qed
qed

text \<open>C15: Cloning never makes two devices hash the same header: from one item with a known roll
  time, \<open>clone_work\<close> stages and returns items that differ from the original in the time alone,
  and these times are pairwise different (the limit of 7000 rolls keeps them from wrapping).
  Nothing else is added to the queue or taken from it.\<close>

theorem clones_have_distinct_times:
  assumes "length (w_data w) = 128" and "0 \<le> w_rolls w" and "\<not> getq_frozen s"
    and "clone_work now w s = (ret, s')"
  shows "\<exists>new. mset (staged_work s') = mset (staged_work s) + mset new \<and>
    distinct (map work_ntime (new @ [ret])) \<and> (\<forall>v\<in>set (new @ [ret]). header_rest v = header_rest w)"
proof -
  let ?mrs = "mining_threads s + opt_queue s - int (length (staged_work s))"
  obtain c s1 where c: "make_clone now w s = (c, s1)" by fastforce
  obtain w2 c2 cl s2 where l: "clone_loop now (nat ?mrs) w c False s1 = (w2, c2, cl, s2)"
    by (metis prod_cases4)
  have dc: "w_data c = w_data w" using make_clone_fields(1) [of now w s, unfolded c prod.sel] .
  have s1: "staged_work s1 = staged_work s" "\<not> getq_frozen s1"
    using make_clone_state [of now w s, unfolded c prod.sel] assms(3) by simp_all
  obtain k new where k: "clone_run w c s1 k new w2 c2 s2" "cl = (k > 0)"
    "k = 0 \<longrightarrow> w2 = w \<and> c2 = c \<and> s2 = s1" "k > 0 \<longrightarrow> w_rolls w + 2 * int k \<le> 7001"
    using clone_loop_run [OF assms(1) header_rest_cong [OF dc] s1(2) l] by auto
  show ?thesis
  proof (cases "?mrs < 1 \<or> k = 0")
    case True
    then have "ret = w" "staged_work s' = staged_work s"
      using assms(4) k(2,3) s1(1) by (auto simp: clone_work_def c l Let_def split: if_splits)
    then show ?thesis by (intro exI [of _ "[]"]) simp
  next
    case False
    then have r: "ret = c2" "s' = stage_work w2 s2"
      using assms(4) k(2) by (auto simp: clone_work_def c l Let_def)
    have run: "mset (staged_work s2) = mset (staged_work s) + mset new"
      "map work_ntime new = turn_times (work_ntime w) (work_ntime w) k"
      "work_ntime w2 = work_ntime w + of_nat (2 * k)"
      "work_ntime c2 = work_ntime w + of_nat (2 * k - 1)"
      "\<forall>v\<in>set (w2 # c2 # new). header_rest v = header_rest w" "\<not> getq_frozen s2"
      using k(1) s1(1) False work_ntime_cong [OF dc] by (simp_all add: clone_run_def)
    obtain v where v: "w_data v = w_data w2" "mset (staged_work s') = mset (staged_work s2) + {#v#}"
      using stage_work_adds [OF run(6), of w2] r(2) by metis
    have "map work_ntime (new @ [v, ret]) = map (\<lambda>d. work_ntime w + of_nat d) (turn_offsets k)"
      using run(2-4) work_ntime_cong [OF v(1)] False r(1)
      by (simp add: turn_times_def turn_offsets_def o_def)
    moreover have "\<forall>d\<in>set (turn_offsets k). d < 2 ^ 32"
      using turn_offsets_bound [of _ k] k(4) assms(2) False by fastforce
    ultimately have "distinct (map work_ntime ((new @ [v]) @ [ret]))"
      using distinct_shifted [OF distinct_turn_offsets] False by simp
    moreover have "\<forall>u\<in>set ((new @ [v]) @ [ret]). header_rest u = header_rest w"
      using run(5) r(1) header_rest_cong [OF v(1)] by auto
    moreover have "mset (staged_work s') = mset (staged_work s) + mset (new @ [v])"
      using v(2) run(1) by simp
    ultimately show ?thesis by metis
  qed
qed

theorem clones_have_distinct_times_witness:
  "\<exists>new. mset (staged_work (snd (clone_work 0 demo_work demo_miner))) = mset [] + mset new \<and>
     distinct (map work_ntime (new @ [fst (clone_work 0 demo_work demo_miner)])) \<and>
     (\<forall>v\<in>set (new @ [fst (clone_work 0 demo_work demo_miner)]). header_rest v = header_rest demo_work)"
  using clones_have_distinct_times [of demo_work demo_miner 0 "fst (clone_work 0 demo_work demo_miner)"
      "snd (clone_work 0 demo_work demo_miner)"]
  by (simp add: demo_miner_def demo_work_def zero_work_def)

end
