(* ===== verification/Share_Submit.thy ===== *)
theory Share_Submit
  imports Work_Queue
begin

text \<open>
  From a nonce to a share, and the queue of work a device holds, from
  \<open>src/cgminer/cgminer.c\<close>: \<open>rebuild_nonce\<close>, \<open>test_nonce\<close>, \<open>submit_nonce\<close>,
  \<open>submit_noffset_nonce\<close> with \<open>submit_tested_work\<close> and \<open>submit_work_async\<close>, then
  \<open>fill_queue\<close>, \<open>get_queued\<close>, the searches by midstate and number, \<open>work_completed\<close>,
  \<open>age_queued_work\<close> and \<open>flush_queue\<close>.

  \<open>share_diff\<close> and the network difficulty are doubles; the only decision taken from them,
  whether a share solves a block, is the argument \<open>solves\<close>.
\<close>

section \<open>Testing a nonce\<close>

definition regen_work :: "miner \<Rightarrow> work \<Rightarrow> work" where
  "regen_work s w = w\<lparr>w_hash := regen_hash (st_ctx (m_locals s)) (st_swap (m_locals s))
     (st_hash1 (m_locals s)) (w_data w) (w_hash w)\<rparr>"

definition rebuild_nonce :: "miner \<Rightarrow> work \<Rightarrow> u32 \<Rightarrow> work" where
  "rebuild_nonce s w nonce =
     (let w = w\<lparr>w_data := memcpy_at (w_data w) (64 + 12) (le32_bytes nonce)\<rparr> in regen_work s w)"

definition test_nonce :: "miner \<Rightarrow> work \<Rightarrow> u32 \<Rightarrow> bool \<times> work" where
  "test_nonce s w nonce =
     (let w = rebuild_nonce s w nonce in (le32_word (sub_list (w_hash w) 28 4) = 0, w))"

definition inc_hw_errors :: "miner \<Rightarrow> miner" where
  "inc_hw_errors s = s\<lparr>hw_errors := hw_errors s + 1\<rparr>"

definition update_work_stats :: "(work \<Rightarrow> bool) \<Rightarrow> work \<Rightarrow> miner \<Rightarrow> work \<times> miner" where
  "update_work_stats solves w s =
     (if solves w then
        let w = w\<lparr>w_block := True\<rparr>;
            s = upd_pool_work (the (w_pool w)) (\<lambda>p. p\<lparr>p_solved := p_solved p + 1\<rparr>) s;
            s = s\<lparr>found_blocks := found_blocks s + 1\<rparr>;
            w = w\<lparr>w_mandatory := True\<rparr>
        in (w, s)
      else (w, s))"

section \<open>Handing a share to its pool\<close>

text \<open>\<open>alloc\<close>: the memory for the queue's entry is available.\<close>

definition push_share :: "bool \<Rightarrow> work \<Rightarrow> miner \<Rightarrow> miner" where
  "push_share alloc w s =
     (let a = the (w_pool w)
      in if w_stratum w then
           case tq_push alloc w (p_stratum_q (m_pool s a)) of
             (ok, q) \<Rightarrow> upd_pool_work a (\<lambda>p. p\<lparr>p_stratum_q := q\<rparr>) s
         else s\<lparr>submit_threads := submit_threads s @ [w]\<rparr>)"

definition submit_work_async :: "bool \<Rightarrow> int \<Rightarrow> work \<Rightarrow> miner \<Rightarrow> miner" where
  "submit_work_async alloc now w s =
     (let a = the (w_pool w);
          w = w\<lparr>tv_work_found := now\<rparr>
      in if stale_work now w True s then
           if opt_submit_stale s then push_share alloc (w\<lparr>w_stale := True\<rparr>) s
           else if p_submit_old (m_pool s a) then push_share alloc (w\<lparr>w_stale := True\<rparr>) s
           else upd_pool_work a (\<lambda>p. p\<lparr>p_stale_shares := p_stale_shares p + 1\<rparr>)
                  (s\<lparr>total_stale := total_stale s + 1\<rparr>)
         else push_share alloc w s)"

definition submit_tested_work ::
    "(work \<Rightarrow> bool) \<Rightarrow> bool \<Rightarrow> int \<Rightarrow> work \<Rightarrow> miner \<Rightarrow> bool \<times> work \<times> miner" where
  "submit_tested_work solves alloc now w s =
     (let (w, s) = update_work_stats solves w s
      in if \<not> fulltest (w_hash w) (w_target w) then (False, w, s)
         else
           let (w_out, s) = copy_work_noffset w 0 s
           in (True, w, submit_work_async alloc now w_out s))"

definition submit_nonce ::
    "(work \<Rightarrow> bool) \<Rightarrow> bool \<Rightarrow> int \<Rightarrow> work \<Rightarrow> u32 \<Rightarrow> miner \<Rightarrow> bool \<times> work \<times> miner" where
  "submit_nonce solves alloc now w nonce s =
     (let (ok, w) = test_nonce s w nonce
      in if ok then let (_, w, s) = submit_tested_work solves alloc now w s in (True, w, s)
         else (False, w, inc_hw_errors s))"

definition submit_noffset_nonce ::
    "(work \<Rightarrow> bool) \<Rightarrow> bool \<Rightarrow> int \<Rightarrow> work \<Rightarrow> u32 \<Rightarrow> int \<Rightarrow> miner \<Rightarrow> bool \<times> miner" where
  "submit_noffset_nonce solves alloc now work_in nonce noffset s =
     (let (w, s) = copy_work_noffset work_in noffset s;
          (ok, w) = test_nonce s w nonce
      in if \<not> ok then (False, inc_hw_errors s)
         else
           let (w, s) = update_work_stats solves w s
           in if \<not> fulltest (w_hash w) (w_target w) then (True, s)
              else (True, submit_work_async alloc now w s))"

section \<open>The work a device holds\<close>

record device_queue =
  unqueued_work :: "work option"
  queued_work :: "work list"
  queued_count :: int

text \<open>
  One turn of the loop of \<open>fill_queue\<close>: \<open>got\<close> is the work \<open>get_work\<close> returned, which is only
  called when there is none, and \<open>raced\<close> says that another thread stored work meanwhile.
\<close>

definition fill_queue_turn :: "work \<Rightarrow> work option \<Rightarrow> device_queue \<Rightarrow> miner \<Rightarrow> device_queue \<times> miner" where
  "fill_queue_turn got raced c s =
     (if unqueued_work c = None then
        let c = (case raced of None \<Rightarrow> c | Some w \<Rightarrow> c\<lparr>unqueued_work := Some w\<rparr>)
        in if unqueued_work c = None then (c\<lparr>unqueued_work := Some got\<rparr>, s)
           else (c, discard_work got s)
      else (c, s))"

definition add_queued :: "work \<Rightarrow> device_queue \<Rightarrow> device_queue" where
  "add_queued w c = c\<lparr>queued_count := queued_count c + 1, queued_work := queued_work c @ [w]\<rparr>"

definition get_queued :: "int \<Rightarrow> device_queue \<Rightarrow> miner \<Rightarrow> work option \<times> device_queue \<times> miner" where
  "get_queued now c s =
     (case unqueued_work c of
        None \<Rightarrow> (None, c, s)
      | Some w \<Rightarrow>
          if stale_work now w False s then (None, c\<lparr>unqueued_work := None\<rparr>, discard_work w s)
          else (Some w, (add_queued w c)\<lparr>unqueued_work := None\<rparr>, s))"

definition get_queue_work ::
    "int \<Rightarrow> int \<Rightarrow> device_queue \<Rightarrow> miner \<Rightarrow> pop_result \<times> device_queue \<times> miner" where
  "get_queue_work now thr_id c s =
     (case get_work now thr_id s of
        (Popped w, s) \<Rightarrow> (Popped w, add_queued w c, s)
      | (r, s) \<Rightarrow> (r, c, s))"

definition find_work_bymidstate ::
    "work list \<Rightarrow> u8 list \<Rightarrow> nat \<Rightarrow> u8 list \<Rightarrow> nat \<Rightarrow> nat \<Rightarrow> work option" where
  "find_work_bymidstate que midstate midstatelen data offset datalen =
     find (\<lambda>w. take midstatelen (w_midstate w) = take midstatelen midstate \<and>
       sub_list (w_data w) offset datalen = take datalen data) que"

definition clone_queued_work_bymidstate ::
    "u8 list \<Rightarrow> nat \<Rightarrow> u8 list \<Rightarrow> nat \<Rightarrow> nat \<Rightarrow> device_queue \<Rightarrow> miner \<Rightarrow> work option \<times> miner" where
  "clone_queued_work_bymidstate midstate midstatelen data offset datalen c s =
     (case find_work_bymidstate (queued_work c) midstate midstatelen data offset datalen of
        None \<Rightarrow> (None, s)
      | Some w \<Rightarrow> (case copy_work_noffset w 0 s of (w, s) \<Rightarrow> (Some w, s)))"

definition find_work_byid :: "work list \<Rightarrow> u32 \<Rightarrow> work option" where
  "find_work_byid que i = find (\<lambda>w. w_id w = i) que"

definition work_completed :: "work \<Rightarrow> device_queue \<Rightarrow> device_queue" where
  "work_completed w c = c\<lparr>queued_count := queued_count c - 1, queued_work := remove1 w (queued_work c)\<rparr>"

text \<open>\<open>old\<close>: the device started the item more than the given time ago (\<open>tdiff\<close>).\<close>

definition age_queued_work :: "(work \<Rightarrow> bool) \<Rightarrow> device_queue \<Rightarrow> nat \<times> device_queue" where
  "age_queued_work old c =
     foldl (\<lambda>(aged, c) w. if old w then (aged + 1, work_completed w c) else (aged, c)) (0, c)
       (queued_work c)"

definition take_queued_work_bymidstate ::
    "u8 list \<Rightarrow> nat \<Rightarrow> u8 list \<Rightarrow> nat \<Rightarrow> nat \<Rightarrow> device_queue \<Rightarrow> work option \<times> device_queue" where
  "take_queued_work_bymidstate midstate midstatelen data offset datalen c =
     (case find_work_bymidstate (queued_work c) midstate midstatelen data offset datalen of
        None \<Rightarrow> (None, c)
      | Some w \<Rightarrow> (Some w, work_completed w c))"

text \<open>\<open>locked\<close>: the lock of the queue is taken, and nothing is flushed.\<close>

definition flush_queue :: "bool \<Rightarrow> device_queue \<Rightarrow> device_queue" where
  "flush_queue locked c = (if locked then c else c\<lparr>unqueued_work := None\<rparr>)"


section \<open>What is submitted\<close>

text \<open>The header with the nonce in it, and its hash.\<close>

definition nonced :: "work \<Rightarrow> u32 \<Rightarrow> u8 list" where
  "nonced w nonce = memcpy_at (w_data w) 76 (le32_bytes nonce)"

definition share_hash :: "work \<Rightarrow> u32 \<Rightarrow> u8 list" where
  "share_hash w nonce = dsha (rev_words (take 80 (nonced w nonce)))"

definition work_ok :: "work \<Rightarrow> bool" where
  "work_ok w \<longleftrightarrow> length (w_data w) = 128 \<and> length (w_hash w) = 32 \<and> length (w_target w) = 32"

lemma regen_hash_spec:
  assumes "locals_ok l" and "length hash = 32" and "80 \<le> length data"
  shows "regen_hash (st_ctx l) (st_swap l) (st_hash1 l) data hash = dsha (rev_words (take 80 data))"
proof -
  have "flip80 (st_swap l) data = rev_words (take 80 data)"
    using flip_words_prefix [of 20 data "st_swap l"] assms by (simp add: flip80_def locals_ok_def)
  then show ?thesis using assms
    by (simp add: regen_hash_def cg_sha256_is_spec layout dsha_def locals_ok_def)
qed

lemma test_nonce_eq:
  assumes "locals_ok (m_locals s)" and "work_ok w"
  shows "test_nonce s w nonce =
    (drop 28 (share_hash w nonce) = [0, 0, 0, 0], w\<lparr>w_data := nonced w nonce, w_hash := share_hash w nonce\<rparr>)"
proof -
  have l: "length (nonced w nonce) = 128" using assms(2) by (simp add: nonced_def work_ok_def layout)
  have h: "w_hash (rebuild_nonce s w nonce) = share_hash w nonce"
    using assms l by (simp add: rebuild_nonce_def regen_work_def Let_def nonced_def [symmetric]
        regen_hash_spec work_ok_def share_hash_def)
  have "sub_list (share_hash w nonce) 28 4 = drop 28 (share_hash w nonce)"
    by (simp add: sub_list_def share_hash_def layout)
  moreover have "length (drop 28 (share_hash w nonce)) = 4" by (simp add: share_hash_def layout)
  then have "le32_word (drop 28 (share_hash w nonce)) = 0 \<longleftrightarrow> drop 28 (share_hash w nonce) = [0, 0, 0, 0]"
    using le32_bytes_word [of "drop 28 (share_hash w nonce)"]
    by (metis le32_word_bytes le32_bytes_def drop_bit_of_0 unsigned_0)
  ultimately show ?thesis using h
    by (simp add: test_nonce_def Let_def rebuild_nonce_def regen_work_def nonced_def)
qed

text \<open>The shares on their way: the queue of a pool and the submitting threads.\<close>

definition handed :: "nat \<Rightarrow> miner \<Rightarrow> work list \<times> work list" where
  "handed a s = (tq_q (p_stratum_q (m_pool s a)), submit_threads s)"

definition accepts :: "bool \<Rightarrow> nat \<Rightarrow> miner \<Rightarrow> bool" where
  "accepts alloc a s \<longleftrightarrow> alloc \<and> \<not> tq_frozen (p_stratum_q (m_pool s a))"

lemma handed_push:
  "handed (the (w_pool w)) (push_share alloc w s) =
     (case handed (the (w_pool w)) s of (q, t) \<Rightarrow>
        if w_stratum w then (if accepts alloc (the (w_pool w)) s then (q @ [w], t) else (q, t))
        else (q, t @ [w]))"
  by (simp add: handed_def push_share_def tq_push_def accepts_def Let_def upd_pool_work_def)

definition goes_out :: "int \<Rightarrow> work \<Rightarrow> miner \<Rightarrow> bool" where
  "goes_out now w s \<longleftrightarrow> stale_work now w True s \<longrightarrow> opt_submit_stale s \<or> p_submit_old (pool_work_of s w)"

definition outgoing :: "int \<Rightarrow> work \<Rightarrow> miner \<Rightarrow> work" where
  "outgoing now w s = w\<lparr>tv_work_found := now, w_stale := w_stale w \<or> stale_work now w True s\<rparr>"

lemma stale_found_time [simp]:
  "stale_work now (w\<lparr>tv_work_found := x\<rparr>) share s = stale_work now w share s"
  by (rule stale_work_cong) simp_all

lemma handed_upd [simp]:
  "handed a (upd_pool_work b (\<lambda>p. p\<lparr>p_stale_shares := f p\<rparr>) s) = handed a s"
  "handed a (upd_pool_work b (\<lambda>p. p\<lparr>p_solved := g p\<rparr>) s) = handed a s"
  "handed a (s\<lparr>total_stale := n\<rparr>) = handed a s" "handed a (s\<lparr>hw_errors := n\<rparr>) = handed a s"
  "handed a (s\<lparr>found_blocks := n\<rparr>) = handed a s" "handed a (s\<lparr>total_work := m\<rparr>) = handed a s"
  by (simp_all add: handed_def upd_pool_work_def)

definition deliver :: "bool \<Rightarrow> work \<Rightarrow> miner \<Rightarrow> work list \<times> work list \<Rightarrow> work list \<times> work list" where
  "deliver alloc v s qt =
     (if w_stratum v then (if accepts alloc (the (w_pool v)) s then (fst qt @ [v], snd qt) else qt)
      else (fst qt, snd qt @ [v]))"

lemma handed_push_deliver:
  "handed (the (w_pool w)) (push_share alloc w s) = deliver alloc w s (handed (the (w_pool w)) s)"
  using handed_push [of w alloc s] by (simp add: deliver_def split: prod.splits)

lemma handed_async:
  "handed (the (w_pool w)) (submit_work_async alloc now w s) =
     (if goes_out now w s then deliver alloc (outgoing now w s) s (handed (the (w_pool w)) s)
      else handed (the (w_pool w)) s)"
proof (cases "stale_work now w True s")
  case True
  have e: "w\<lparr>tv_work_found := now, w_stale := True\<rparr> = outgoing now w s"
    using True by (simp add: outgoing_def)
  have p: "the (w_pool (outgoing now w s)) = the (w_pool w)" by (simp add: outgoing_def)
  show ?thesis using True handed_push_deliver [of "outgoing now w s" alloc s]
    by (simp add: submit_work_async_def Let_def goes_out_def e p)
next
  case False
  have e: "w\<lparr>tv_work_found := now\<rparr> = outgoing now w s"
    using False by (cases w) (simp add: outgoing_def)
  have p: "the (w_pool (outgoing now w s)) = the (w_pool w)" by (simp add: outgoing_def)
  have n: "\<not> stale_work now (w\<lparr>tv_work_found := now\<rparr>) True s" using False by simp
  show ?thesis using n [unfolded e] False handed_push_deliver [of "outgoing now w s" alloc s]
    by (simp add: submit_work_async_def Let_def goes_out_def e p)
qed

lemma update_work_stats_work:
  "fst (update_work_stats solves w s) = (if solves w then w\<lparr>w_block := True, w_mandatory := True\<rparr> else w)"
  by (simp add: update_work_stats_def Let_def)

lemma update_work_stats_state:
  "handed a (snd (update_work_stats solves w s)) = handed a s"
  "m_locals (snd (update_work_stats solves w s)) = m_locals s"
  by (simp_all add: update_work_stats_def Let_def)

lemma stale_stats:
  "stale_work now v True (snd (update_work_stats solves w s)) = stale_work now v True s"
  by (simp add: update_work_stats_def Let_def stale_work_def upd_pool_work_def)

lemma stale_state_cong:
  assumes "opt_benchmark s' = opt_benchmark s" "work_block s' = work_block s"
    "opt_scantime s' = opt_scantime s" "opt_expiry s' = opt_expiry s" "m_pools s' = m_pools s"
    "m_pool s' = m_pool s"
  shows "stale_work now v share s' = stale_work now v share s"
  by (simp only: stale_work_def assms)

lemma stale_total: "stale_work now v share (s\<lparr>total_work := n\<rparr>) = stale_work now v share s"
  by (rule stale_state_cong) simp_all

text \<open>
  The item that leaves for a nonce: a copy with a number of its own, marked stale if it is
  late.
\<close>

definition share_of :: "(work \<Rightarrow> bool) \<Rightarrow> int \<Rightarrow> work \<Rightarrow> u32 \<Rightarrow> miner \<Rightarrow> work" where
  "share_of solves now w nonce s =
     (let v = w\<lparr>w_data := nonced w nonce, w_hash := share_hash w nonce\<rparr>
      in v\<lparr>w_block := w_block w \<or> solves v, w_mandatory := w_mandatory w \<or> solves v,
          w_id := total_work s, tv_work_found := now, w_stale := w_stale w \<or> stale_work now w True s\<rparr>)"

lemma submit_nonce_handed:
  assumes "locals_ok (m_locals s)" and "work_ok w"
    and "submit_nonce solves alloc now w nonce s = (ret, w', s')"
  shows "ret = (drop 28 (share_hash w nonce) = [0, 0, 0, 0]) \<and>
    w_data w' = nonced w nonce \<and> w_hash w' = share_hash w nonce \<and>
    (\<not> ret \<longrightarrow> s' = s\<lparr>hw_errors := hw_errors s + 1\<rparr>) \<and>
    handed (the (w_pool w)) s' =
      (if ret \<and> le_number (share_hash w nonce) \<le> le_number (w_target w) \<and> goes_out now w s
       then deliver alloc (share_of solves now w nonce s) s (handed (the (w_pool w)) s)
       else handed (the (w_pool w)) s)"
proof -
  define w1 where "w1 = w\<lparr>w_data := nonced w nonce, w_hash := share_hash w nonce\<rparr>"
  obtain w2 s2 where u: "update_work_stats solves w1 s = (w2, s2)" by fastforce
  have w2: "w2 = w1\<lparr>w_block := w_block w1 \<or> solves w1, w_mandatory := w_mandatory w1 \<or> solves w1\<rparr>"
    using update_work_stats_work [of solves w1 s, unfolded u] by (cases w1) auto
  have s2: "handed a s2 = handed a s" for a
    using update_work_stats_state(1) [of a solves w1 s, unfolded u] by simp
  define v where "v = w2\<lparr>w_id := total_work s\<rparr>"
  define s3 where "s3 = s2\<lparr>total_work := total_work s2 + 1\<rparr>"
  have tw: "total_work s2 = total_work s"
    using u by (auto simp: update_work_stats_def Let_def split: if_splits)
  have cp: "copy_work_noffset w2 0 s2 = (v, s3)"
    by (simp add: copy_work_noffset_def make_work_def total_work_inc_def Let_def copy_into_def
        v_def s3_def tw split: option.splits)
  have st: "stale_work now v True s3 = stale_work now w True s"
  proof -
    have "stale_work now v True s3 = stale_work now v True s2" by (simp add: s3_def stale_total)
    also have "\<dots> = stale_work now v True s"
      using stale_stats [of now v solves w1 s, unfolded u] by simp
    also have "\<dots> = stale_work now w True s"
      by (simp add: stale_work_def v_def w2 w1_def)
    finally show ?thesis .
  qed
  have pl: "the (w_pool v) = the (w_pool w)" by (simp add: v_def w2 w1_def)
  have o: "opt_submit_stale s3 = opt_submit_stale s \<and> p_submit_old (m_pool s3 a) = p_submit_old (m_pool s a)" for a
    using u by (auto simp: update_work_stats_def s3_def Let_def upd_pool_work_def split: if_splits)
  have go: "goes_out now v s3 = goes_out now w s" by (simp add: goes_out_def st o pl)
  have out: "outgoing now v s3 = share_of solves now w nonce s"
    unfolding outgoing_def st by (simp add: share_of_def Let_def v_def w2 w1_def)
  have del: "deliver alloc x s3 qt = deliver alloc x s qt" for x qt
    using u by (auto simp: deliver_def accepts_def s3_def update_work_stats_def Let_def
        upd_pool_work_def split: if_splits)
  have ft: "fulltest (w_hash w2) (w_target w2) \<longleftrightarrow> le_number (share_hash w nonce) \<le> le_number (w_target w)"
    using assms(2) by (simp add: w2 w1_def fulltest_le work_ok_def share_hash_def layout)
  have h3: "handed a s3 = handed a s" for a by (simp add: s3_def s2)
  have d: "w_data w2 = nonced w nonce" "w_hash w2 = share_hash w nonce" by (simp_all add: w2 w1_def)
  show ?thesis
  proof (cases "drop 28 (share_hash w nonce) = [0, 0, 0, 0]")
    case False
    then show ?thesis using assms(3)
      by (auto simp: submit_nonce_def test_nonce_eq [OF assms(1,2)] inc_hw_errors_def Let_def)
  next
    case True
    have r: "ret \<and> w' = w2 \<and> s' = (if fulltest (w_hash w2) (w_target w2) then submit_work_async alloc now v s3 else s2)"
      using assms(3) True u cp
      by (auto simp: submit_nonce_def test_nonce_eq [OF assms(1,2)] w1_def [symmetric]
          submit_tested_work_def Let_def split: if_splits)
    then show ?thesis using True d s2
      handed_async [of v alloc now s3, unfolded go out del pl h3] ft by simp
  qed
qed


lemma demo_work_sizes: "work_ok demo_work"
  by (simp add: work_ok_def demo_work_def zero_work_def)


section \<open>The device's queue\<close>

definition device_ok :: "device_queue \<Rightarrow> bool" where
  "device_ok c \<longleftrightarrow> queued_count c = int (length (queued_work c)) \<and> distinct (queued_work c)"

definition device_work :: "device_queue \<Rightarrow> work set" where
  "device_work c = set (queued_work c)"

lemma add_queued_ok: "device_ok c \<Longrightarrow> w \<notin> device_work c \<Longrightarrow> device_ok (add_queued w c)"
  by (simp add: device_ok_def device_work_def add_queued_def)

lemma work_completed_ok:
  "device_ok c \<Longrightarrow> w \<in> device_work c \<Longrightarrow>
     device_ok (work_completed w c) \<and> device_work (work_completed w c) = device_work c - {w}"
  using length_pos_if_in_set [of w "queued_work c"]
  by (simp add: device_ok_def device_work_def work_completed_def length_remove1 of_nat_diff Suc_leI)

lemma age_fold:
  assumes "distinct ws" and "device_ok c" and "set ws \<subseteq> device_work c"
  shows "foldl (\<lambda>(aged, c) w. if old w then (aged + 1, work_completed w c) else (aged, c)) (n, c) ws =
      (aged, c') \<Longrightarrow> device_ok c' \<and> device_work c' = device_work c - {w \<in> set ws. old w} \<and>
        aged = n + length (filter old ws) \<and> unqueued_work c' = unqueued_work c"
  using assms
proof (induction ws arbitrary: n c)
  case (Cons w ws)
  have un: "unqueued_work (work_completed w c) = unqueued_work c" by (simp add: work_completed_def)
  show ?case
  proof (cases "old w")
    case True
    have c: "device_ok (work_completed w c)" "device_work (work_completed w c) = device_work c - {w}"
      using work_completed_ok [of c w] Cons.prems by auto
    then show ?thesis using Cons.IH [of "n + 1" "work_completed w c"] Cons.prems True un by auto
  next
    case False
    then show ?thesis using Cons.IH [of n c] Cons.prems by auto
  qed
qed simp

text \<open>Ageing a device's queue drops exactly the items that were started too long ago, returns
  their number, and keeps the count of the queue equal to its size.\<close>

theorem aged_work_is_dropped:
  assumes "device_ok c"
  shows "fst (age_queued_work old c) = length (filter old (queued_work c)) \<and>
    device_work (snd (age_queued_work old c)) = {w \<in> device_work c. \<not> old w} \<and>
    device_ok (snd (age_queued_work old c))"
proof -
  obtain aged c' where a: "age_queued_work old c = (aged, c')" by fastforce
  then show ?thesis using age_fold [of "queued_work c" c old 0 aged c'] assms
    by (auto simp: age_queued_work_def device_ok_def device_work_def)
qed

definition demo_device :: device_queue where
  "demo_device = \<lparr>unqueued_work = None, queued_work = [demo_work, demo_work\<lparr>w_id := 1\<rparr>], queued_count = 2\<rparr>"

theorem aged_work_is_dropped_witness:
  "device_work (snd (age_queued_work (\<lambda>w. w_id w = 1) demo_device)) = {demo_work}"
proof -
  have d: "w_id demo_work = 0" by (simp add: demo_work_def zero_work_def)
  have n: "demo_work \<noteq> demo_work\<lparr>w_id := 1\<rparr>"
    by (rule notI, drule arg_cong [where f = w_id]) (simp add: d)
  then have "device_ok demo_device" by (simp add: device_ok_def demo_device_def)
  note a = aged_work_is_dropped [OF this, of "\<lambda>w. w_id w = 1"]
  have s: "device_work demo_device = {demo_work, demo_work\<lparr>w_id := 1\<rparr>}"
    by (simp add: device_work_def demo_device_def)
  have "{w \<in> device_work demo_device. w_id w \<noteq> 1} = {demo_work}"
    unfolding s by (rule set_eqI) (use d in \<open>auto simp del: work.update_convs\<close>)
  with a show ?thesis by simp
qed

end
