(* ===== verification/Json.thy ===== *)
theory Json
  imports Work
begin

text \<open>
  The values a pool sends as JSON, with the accessors of the bundled jansson library
  (\<open>src/cgminer/compat/jansson-2.5/src/value.c\<close>), \<open>__json_array_string\<close> of
  \<open>src/cgminer/util.c\<close>, and copies into buffers.

  \<open>None\<close> is a memory fault: a write past the end of a buffer, a NULL string read, a pointer
  freed twice or used after it was freed.
\<close>

section \<open>JSON values\<close>

datatype json = JNull | JTrue | JFalse | JInteger int | JReal dbl | JString "u8 list"
  | JArray "json list" | JObject "(string \<times> json) list"

fun json_is_array :: "json option \<Rightarrow> bool" where
  "json_is_array (Some (JArray _)) = True"
| "json_is_array _ = False"

definition json_is_null :: "json option \<Rightarrow> bool" where
  "json_is_null j \<longleftrightarrow> j = Some JNull"

definition json_is_true :: "json option \<Rightarrow> bool" where
  "json_is_true j \<longleftrightarrow> j = Some JTrue"

fun json_array_size :: "json option \<Rightarrow> nat" where
  "json_array_size (Some (JArray js)) = length js"
| "json_array_size _ = 0"

fun json_array_get :: "json option \<Rightarrow> nat \<Rightarrow> json option" where
  "json_array_get (Some (JArray js)) i = (if i \<ge> length js then None else Some (js ! i))"
| "json_array_get _ i = None"

fun json_object_get :: "json option \<Rightarrow> string \<Rightarrow> json option" where
  "json_object_get (Some (JObject kvs)) k = map_of kvs k"
| "json_object_get _ k = None"

fun json_string_value :: "json option \<Rightarrow> u8 list option" where
  "json_string_value (Some (JString s)) = Some s"
| "json_string_value _ = None"

fun json_integer_value :: "json option \<Rightarrow> int" where
  "json_integer_value (Some (JInteger i)) = i"
| "json_integer_value _ = 0"

text \<open>\<open>to_dbl\<close> is the conversion of an integer to a double.\<close>

fun json_number_value :: "(int \<Rightarrow> dbl) \<Rightarrow> json option \<Rightarrow> dbl" where
  "json_number_value to_dbl (Some (JInteger i)) = to_dbl i"
| "json_number_value to_dbl (Some (JReal d)) = d"
| "json_number_value to_dbl _ = 0"

definition json_array_string :: "json option \<Rightarrow> nat \<Rightarrow> u8 list option" where
  "json_array_string val entry =
     (if json_is_null val then None
      else if \<not> json_is_array val then None
      else if entry > json_array_size val then None
      else json_string_value (json_array_get val entry))"

section \<open>Buffers\<close>

text \<open>A copy into a buffer at an offset: within it, or a fault.\<close>

definition poke :: "u8 list \<Rightarrow> int \<Rightarrow> u8 list \<Rightarrow> u8 list option" where
  "poke buf off bs =
     (if 0 \<le> off \<and> off + int (length bs) \<le> int (length buf) then Some (memcpy_at buf (nat off) bs)
      else None)"

definition align_len :: "nat \<Rightarrow> nat" where
  "align_len len = (if len mod 4 \<noteq> 0 then len + (4 - len mod 4) else len)"

text \<open>An entry of \<open>merkle_bin\<close>: a pointer to 32 bytes, a freed one, or one never set.\<close>

datatype slot = Live "u8 list" | Freed | Wild

lemma align_len_ge: "n \<le> align_len n"
  unfolding align_len_def by presburger

lemma poke_at:
  "length a = n \<Longrightarrow> length b = length src \<Longrightarrow> poke (a @ b @ c) (int n) src = Some (a @ src @ c)"
  by (simp add: poke_def memcpy_at_def)

section \<open>The padding of a header\<close>

definition zeros :: "nat \<Rightarrow> u8 list" where
  "zeros n = replicate n 0x30"

text \<open>\<open>"000000800000...80020000"\<close>\<close>

definition workpadding :: "u8 list" where
  "workpadding = zeros 6 @ [0x38, 0x30] @ zeros 80 @ [0x38, 0x30, 0x30, 0x32, 0x30, 0x30, 0x30, 0x30]"

lemma hex_digit_0: "hex_digits ! 0 = 0x30" by (simp add: hex_digits_def)

lemma bin2hex_zeros: "bin2hex (replicate n 0) = zeros (2 * n)"
  by (induction n) (simp_all add: bin2hex_def zeros_def hex_digit_0)

lemma bin2hex_padding: "workpadding = bin2hex ([0, 0, 0, 0x80] @ replicate 40 0 @ [0x80, 2, 0, 0])"
proof -
  have a: "bin2hex [0, 0, 0, 0x80] = zeros 6 @ [0x38, 0x30]" by code_simp
  have b: "bin2hex [0x80, 2, 0, 0] = [0x38, 0x30, 0x30, 0x32, 0x30, 0x30, 0x30, 0x30]" by code_simp
  show ?thesis by (simp only: bin2hex_append a b bin2hex_zeros workpadding_def) simp
qed

end
