(* ===== verification/Stratum.thy ===== *)
theory Stratum
  imports Json Url
begin

text \<open>
  The stratum protocol, from \<open>src/cgminer/util.c\<close>: \<open>parse_notify\<close>, \<open>parse_diff\<close>,
  \<open>parse_reconnect\<close>, \<open>parse_method\<close> and the reply to \<open>mining.subscribe\<close> in
  \<open>initiate_stratum\<close>. \<open>None\<close> is a memory fault, as in \<open>Json\<close>.
\<close>

section \<open>The state of a connection\<close>

record stratum =
  t_nonce1 :: "u8 list option"
  t_nonce1bin :: "u8 list"
  t_n1_len :: nat
  t_nonce2 :: u64
  t_n2size :: int
  t_sessionid :: "u8 list option"
  t_active :: bool
  t_notify :: bool
  t_job_id :: "u8 list option"
  t_clean :: bool
  t_merkle_bin :: "slot list"
  t_merkles :: nat
  t_coinbase :: "u8 list"
  t_coinbase_len :: int
  t_nonce2_offset :: int
  t_header_bin :: "u8 list"
  t_prev_hash :: "u8 list"
  t_bbversion :: "u8 list"
  t_nbit :: "u8 list"
  t_ntime :: "u8 list"
  t_sdiff :: dbl
  t_sockaddr_url :: string
  t_stratum_port :: string
  t_sockbuf :: "u8 list"
  t_getwork_requested :: u32

section \<open>A notification\<close>

text \<open>\<open>for (i = 0; i < pool->merkles; i++) free(...)\<close>\<close>

fun free_slots :: "nat \<Rightarrow> slot list \<Rightarrow> slot list option" where
  "free_slots 0 slots = Some slots"
| "free_slots (Suc n) [] = None"
| "free_slots (Suc n) (Live b # slots) = map_option (\<lambda>rest. Freed # rest) (free_slots n slots)"
| "free_slots (Suc n) (Freed # slots) = None"
| "free_slots (Suc n) (Wild # slots) = None"

definition realloc_slots :: "nat \<Rightarrow> slot list \<Rightarrow> slot list" where
  "realloc_slots n slots = take n slots @ replicate (n - length slots) Wild"

text \<open>
  The loop over the merkle branch from entry \<open>i\<close>; \<open>malloc\<close> returns 32 bytes of arbitrary
  content \<open>fresh\<close>. The result says whether every entry was converted.
\<close>

fun convert_merkles ::
    "u8 list \<Rightarrow> json option \<Rightarrow> nat \<Rightarrow> nat \<Rightarrow> slot list \<Rightarrow> (bool \<times> slot list) option" where
  "convert_merkles fresh arr i 0 slots = Some (True, slots)"
| "convert_merkles fresh arr i (Suc n) slots =
     (case json_array_string arr i of
        None \<Rightarrow> None
      | Some merkle \<Rightarrow>
          (case hex2bin fresh merkle 32 of
             (bin, ok) \<Rightarrow>
               if \<not> ok then Some (False, slots[i := Live bin])
               else convert_merkles fresh arr (Suc i) n (slots[i := Live bin])))"

definition blank_merkle :: "u8 list" where
  "blank_merkle = zeros 64"

definition header_text :: "stratum \<Rightarrow> u8 list" where
  "header_text t = take 224 (t_bbversion t @ t_prev_hash t @ blank_merkle @ t_ntime t @ t_nbit t @
     zeros 8 @ workpadding)"

text \<open>
  From the header on, once the branch is converted. \<open>alloca\<close> memory is \<open>fresh\<close> as well.
\<close>

definition notify_header :: "u8 list \<Rightarrow> u8 list \<Rightarrow> stratum \<Rightarrow> (bool \<times> stratum) option" where
  "notify_header coinbase1 coinbase2 t =
     (let cb1_len = length coinbase1 div 2;
          cb2_len = length coinbase2 div 2;
          (hb, ok) = hex2bin (t_header_bin t) (header_text t) 112;
          t = t\<lparr>t_header_bin := hb\<rparr>
      in if \<not> ok then Some (False, t)
         else case hex2bin (replicate cb1_len 0) coinbase1 cb1_len of
           (cb1, ok) \<Rightarrow>
           if \<not> ok then Some (False, t)
           else case hex2bin (replicate cb2_len 0) coinbase2 cb2_len of
             (cb2, ok) \<Rightarrow>
             if \<not> ok then Some (False, t)
             else if t_coinbase_len t < 0 then None
             else
               let coinbase = replicate (align_len (nat (t_coinbase_len t))) 0
               in case poke coinbase 0 cb1 of None \<Rightarrow> None | Some coinbase \<Rightarrow>
                  case poke coinbase (int cb1_len) (take (t_n1_len t) (t_nonce1bin t)) of
                    None \<Rightarrow> None | Some coinbase \<Rightarrow>
                  case poke coinbase (int cb1_len + int (t_n1_len t) + t_n2size t) cb2 of
                    None \<Rightarrow> None
                  | Some coinbase \<Rightarrow> Some (True, t\<lparr>t_coinbase := coinbase\<rparr>))"

definition parse_notify :: "u8 list \<Rightarrow> stratum \<Rightarrow> json option \<Rightarrow> (bool \<times> stratum) option" where
  "parse_notify fresh t val =
     (let arr = json_array_get val 4
      in if \<not> json_is_array arr then Some (False, t)
         else
           let merkles = json_array_size arr;
               clean = json_is_true (json_array_get val 8)
           in case (json_array_string val 0, json_array_string val 1, json_array_string val 2,
                    json_array_string val 3, json_array_string val 5, json_array_string val 6,
                    json_array_string val 7) of
             (Some job_id, Some prev_hash, Some coinbase1, Some coinbase2, Some bbversion,
              Some nbit, Some ntime) \<Rightarrow>
               (let cb1_len = length coinbase1 div 2;
                    cb2_len = length coinbase2 div 2;
                    t = t\<lparr>t_job_id := Some job_id, t_prev_hash := take 64 prev_hash,
                          t_bbversion := take 8 bbversion, t_nbit := take 8 nbit,
                          t_ntime := take 8 ntime, t_clean := clean,
                          t_coinbase_len := int cb1_len + int (t_n1_len t) + t_n2size t + int cb2_len,
                          t_nonce2_offset := int cb1_len + int (t_n1_len t)\<rparr>
                in case free_slots (t_merkles t) (t_merkle_bin t) of
                     None \<Rightarrow> None
                   | Some slots \<Rightarrow>
                     (case (if merkles = 0 then Some (True, slots)
                            else convert_merkles fresh arr 0 merkles (realloc_slots merkles slots)) of
                        None \<Rightarrow> None
                      | Some (ok, slots) \<Rightarrow>
                          let t = t\<lparr>t_merkle_bin := slots\<rparr>
                          in map_option (\<lambda>(ret, t).
                               (ret, t\<lparr>t_getwork_requested := t_getwork_requested t + 1\<rparr>))
                               (if \<not> ok then Some (False, t)
                                else
                                  let t = t\<lparr>t_merkles := merkles\<rparr>;
                                      t = (if clean then t\<lparr>t_nonce2 := 0\<rparr> else t)
                                  in notify_header coinbase1 coinbase2 t)))
           | _ \<Rightarrow> Some (False, t))"

section \<open>The other messages\<close>

text \<open>Both zeros of a double compare equal to 0.\<close>

definition dbl_is_zero :: "dbl \<Rightarrow> bool" where
  "dbl_is_zero d \<longleftrightarrow> d = 0 \<or> d = 0x8000000000000000"

definition parse_diff :: "(int \<Rightarrow> dbl) \<Rightarrow> stratum \<Rightarrow> json option \<Rightarrow> bool \<times> stratum" where
  "parse_diff to_dbl t val =
     (let diff = json_number_value to_dbl (json_array_get val 0)
      in if dbl_is_zero diff then (False, t) else (True, t\<lparr>t_sdiff := diff\<rparr>))"

definition suspend_stratum :: "stratum \<Rightarrow> stratum" where
  "suspend_stratum t = t\<lparr>t_sockbuf := [], t_active := False, t_notify := False\<rparr>"

definition text_of :: "u8 list \<Rightarrow> string" where
  "text_of bs = map (\<lambda>b. char_of (unat b)) bs"

text \<open>
  The checks of \<open>parse_reconnect\<close> and the address it goes to; \<open>address\<close> has 256 bytes. The
  second result says whether the stratum is suspended and started again.
\<close>

definition parse_reconnect :: "stratum \<Rightarrow> json option \<Rightarrow> (bool \<times> stratum) option" where
  "parse_reconnect t val =
     (let asked = map_option text_of (json_string_value (json_array_get val 0));
          allowed =
            (case asked of
               None \<Rightarrow> True
             | Some url \<Rightarrow>
                 (case (strchr (t_sockaddr_url t) (CHR ''.''), strchr url (CHR ''.'')) of
                    (Some p, Some r) \<Rightarrow> drop p (t_sockaddr_url t) = drop r url
                  | _ \<Rightarrow> False));
          url = (case asked of None \<Rightarrow> t_sockaddr_url t | Some url \<Rightarrow> url);
          port = (case json_string_value (json_array_get val 1) of
                    None \<Rightarrow> t_stratum_port t | Some p \<Rightarrow> text_of p);
          address = url @ '':'' @ port
      in if \<not> allowed then Some (False, t)
         else if length address + 1 > 256 then None
         else case extract_sockaddr address of
           None \<Rightarrow> None
         | Some (False, _, _) \<Rightarrow> Some (False, t)
         | Some (True, sockaddr, port) \<Rightarrow>
             Some (True, (suspend_stratum t)\<lparr>t_sockaddr_url := sockaddr,
               t_stratum_port := the port\<rparr>))"

text \<open>
  The dispatch on the method's name. \<open>restart\<close> is \<open>restart_stratum\<close> and \<open>send_version\<close> the
  reply over the socket.
\<close>

definition parse_method ::
    "(int \<Rightarrow> dbl) \<Rightarrow> (stratum \<Rightarrow> bool \<times> stratum) \<Rightarrow> (json option \<Rightarrow> bool) \<Rightarrow> u8 list \<Rightarrow> stratum \<Rightarrow>
     json option \<Rightarrow> (bool \<times> stratum) option" where
  "parse_method to_dbl restart send_version fresh t val =
     (let meth = json_object_get val ''method'';
          err_val = json_object_get val ''error'';
          params = json_object_get val ''params''
      in if val = None \<or> meth = None then Some (False, t)
         else if err_val \<noteq> None \<and> \<not> json_is_null err_val then Some (False, t)
         else case json_string_value meth of
           None \<Rightarrow> Some (False, t)
         | Some buf \<Rightarrow>
             if strncasecmp_eq (text_of buf) ''mining.notify'' 13 then
               map_option (\<lambda>(ret, t). (ret, t\<lparr>t_notify := ret\<rparr>)) (parse_notify fresh t params)
             else if strncasecmp_eq (text_of buf) ''mining.set_difficulty'' 21 then
               Some (parse_diff to_dbl t params)
             else if strncasecmp_eq (text_of buf) ''client.reconnect'' 16 then
               (case parse_reconnect t params of
                  None \<Rightarrow> None
                | Some (False, t) \<Rightarrow> Some (False, t)
                | Some (True, t) \<Rightarrow> Some (restart t))
             else if strncasecmp_eq (text_of buf) ''client.get_version'' 18 then
               Some (send_version val, t)
             else if strncasecmp_eq (text_of buf) ''client.show_message'' 19 then
               Some (json_is_array params \<and> json_string_value (json_array_get params 0) \<noteq> None, t)
             else Some (False, t))"

section \<open>Subscribing\<close>

text \<open>The session number in the reply: the first entry named \<open>mining.notify\<close>.\<close>

fun find_session :: "json list \<Rightarrow> u8 list option" where
  "find_session [] = None"
| "find_session (arr # arrs) =
     (if \<not> json_is_array (Some arr) then None
      else case json_array_string (Some arr) 0 of
        None \<Rightarrow> find_session arrs
      | Some notify \<Rightarrow>
          if strncasecmp_eq (text_of notify) ''mining.notify'' 13
          then json_array_string (Some arr) 1 else find_session arrs)"

definition get_sessionid :: "json option \<Rightarrow> u8 list option" where
  "get_sessionid val =
     (case json_array_get val 0 of Some (JArray arrs) \<Rightarrow> find_session arrs | _ \<Rightarrow> None)"

text \<open>
  What \<open>initiate_stratum\<close> does with the result and the error of the reply; a C \<open>int\<close> has 32
  bits.
\<close>

definition subscribe_reply :: "stratum \<Rightarrow> json option \<Rightarrow> json option \<Rightarrow> bool \<times> stratum" where
  "subscribe_reply t res_val err_val =
     (if res_val = None \<or> json_is_null res_val \<or> (err_val \<noteq> None \<and> \<not> json_is_null err_val)
      then (False, t)
      else
        let sessionid = get_sessionid res_val
        in case json_array_string res_val 1 of
          None \<Rightarrow> (False, t)
        | Some nonce1 \<Rightarrow>
            let n2size = sint (word_of_int (json_integer_value (json_array_get res_val 2)) :: u32)
            in if n2size = 0 then (False, t)
               else
                 let n1_len = length nonce1 div 2
                 in (True, t\<lparr>t_sessionid := sessionid, t_nonce1 := Some nonce1, t_n1_len := n1_len,
                      t_nonce1bin := fst (hex2bin (replicate n1_len 0) nonce1 n1_len),
                      t_n2size := n2size, t_active := True, t_sdiff := 0x3ff0000000000000\<rparr>))"

text \<open>The branch as \<open>gen_stratum_work\<close> reads it.\<close>

fun live_bins :: "nat \<Rightarrow> slot list \<Rightarrow> u8 list list option" where
  "live_bins 0 slots = Some []"
| "live_bins (Suc n) (Live b # slots) = map_option (\<lambda>bs. b # bs) (live_bins n slots)"
| "live_bins (Suc n) _ = None"

section \<open>Encoded notifications\<close>

text \<open>A job as the pool means it, and the parameters of its notification.\<close>

record job =
  j_id :: "u8 list"
  j_version :: "u8 list"
  j_prev :: "u8 list"
  j_cb1 :: "u8 list"
  j_cb2 :: "u8 list"
  j_merkles :: "u8 list list"
  j_bits :: "u8 list"
  j_time :: "u8 list"
  j_clean :: bool

definition job_ok :: "job \<Rightarrow> bool" where
  "job_ok j \<longleftrightarrow> length (j_version j) = 4 \<and> length (j_prev j) = 32 \<and> length (j_bits j) = 4 \<and>
     length (j_time j) = 4 \<and> (\<forall>m\<in>set (j_merkles j). length m = 32)"

definition encode_job :: "job \<Rightarrow> json" where
  "encode_job j = JArray [JString (j_id j), JString (bin2hex (j_prev j)), JString (bin2hex (j_cb1 j)),
     JString (bin2hex (j_cb2 j)), JArray (map (\<lambda>m. JString (bin2hex m)) (j_merkles j)),
     JString (bin2hex (j_version j)), JString (bin2hex (j_bits j)), JString (bin2hex (j_time j)),
     if j_clean j then JTrue else JFalse]"

definition job_header :: "job \<Rightarrow> u8 list" where
  "job_header j = j_version j @ j_prev j @ replicate 32 0 @ j_time j @ j_bits j @ replicate 4 0 @
     [0, 0, 0, 0x80] @ replicate 28 0"

lemma hex2bin_exact:
  "length p = length bs \<Longrightarrow> hex2bin p (bin2hex bs) (length bs) = (bs, True)"
  using hex2bin_loop_bin2hex [of "[]" bs] by (simp add: hex2bin_def memcpy_at_def)

lemma hex2bin_prefix:
  "length bs \<le> length p \<Longrightarrow> hex2bin p (bin2hex bs) (length bs) = (bs @ drop (length bs) p, True)"
  using hex2bin_loop_bin2hex [of "[]" bs] by (simp add: hex2bin_def memcpy_at_def)

lemma json_array_string_map:
  "i < length ms \<Longrightarrow> json_array_string (Some (JArray (map (\<lambda>m. JString (f m)) ms))) i = Some (f (ms ! i))"
  by (simp add: json_array_string_def json_is_null_def)

lemma convert_merkles_all:
  assumes "length fresh = 32" and "\<forall>m\<in>set ms. length m = 32" and "i + n = length ms"
    and "length slots = length ms" and "take i slots = map Live (take i ms)"
  shows "convert_merkles fresh (Some (JArray (map (\<lambda>m. JString (bin2hex m)) ms))) i n slots =
     Some (True, map Live ms)"
  using assms(3-5)
proof (induction n arbitrary: i slots)
  case 0
  then show ?case by simp
next
  case (Suc n)
  have i: "i < length ms" using Suc.prems(1) by simp
  have "hex2bin fresh (bin2hex (ms ! i)) 32 = (ms ! i, True)"
    using hex2bin_exact [of fresh "ms ! i"] assms(1,2) i by simp
  moreover have "take (Suc i) (slots[i := Live (ms ! i)]) = map Live (take (Suc i) ms)"
    using Suc.prems i by (simp add: take_Suc_conv_app_nth)
  ultimately show ?case using Suc.IH [of "Suc i" "slots[i := Live (ms ! i)]"] Suc.prems i
    by (simp add: json_array_string_map)
qed

lemma header_hex:
  assumes "job_ok j"
  shows "take 224 (bin2hex (j_version j) @ bin2hex (j_prev j) @ zeros 64 @ bin2hex (j_time j) @ bin2hex (j_bits j) @
    zeros 8 @ workpadding) = bin2hex (job_header j)"
proof -
  let ?all = "j_version j @ j_prev j @ replicate 32 0 @ j_time j @ j_bits j @ replicate 4 0 @
     [0, 0, 0, 0x80] @ replicate 40 0 @ [0x80, 2, 0, 0]"
  have "zeros 64 = bin2hex (replicate 32 0)" "zeros 8 = bin2hex (replicate 4 0)"
    using bin2hex_zeros [of 32] bin2hex_zeros [of 4] by simp_all
  then have "take 224 (bin2hex (j_version j) @ bin2hex (j_prev j) @ zeros 64 @ bin2hex (j_time j) @ bin2hex (j_bits j) @
      zeros 8 @ workpadding) = take (2 * 112) (bin2hex ?all)"
    by (simp only: bin2hex_padding bin2hex_append) simp
  also have "\<dots> = bin2hex (take 112 ?all)" by (rule take_bin2hex)
  also have "take 112 ?all = job_header j" using assms(1)
    by (simp add: job_ok_def job_header_def)
  finally show ?thesis .
qed

lemma header_of_job:
  assumes "job_ok j"
    and "t_bbversion t = bin2hex (j_version j)" "t_prev_hash t = bin2hex (j_prev j)"
    "t_ntime t = bin2hex (j_time j)" "t_nbit t = bin2hex (j_bits j)"
  shows "header_text t = bin2hex (job_header j)"
  using header_hex [OF assms(1)] unfolding header_text_def assms(2-5) blank_merkle_def .

text \<open>The state between a subscription and a notification.\<close>

definition subscribed :: "stratum \<Rightarrow> bool" where
  "subscribed t \<longleftrightarrow> t_nonce1 t \<noteq> None \<and> length (t_nonce1bin t) = t_n1_len t \<and>
     length (t_header_bin t) = 128 \<and> t_merkles t \<le> length (t_merkle_bin t) \<and>
     (\<forall>k<t_merkles t. \<exists>b. t_merkle_bin t ! k = Live b \<and> length b = 32)"

lemma free_slots_live:
  "n \<le> length slots \<Longrightarrow> \<forall>k<n. \<exists>b. slots ! k = Live b \<Longrightarrow>
     free_slots n slots = Some (replicate n Freed @ drop n slots)"
proof (induction n arbitrary: slots)
  case (Suc n)
  then obtain b rest where "slots = Live b # rest" by (cases slots) fastforce+
  moreover have "\<forall>k<n. \<exists>b. rest ! k = Live b"
    using Suc.prems(2) calculation by (metis Suc_less_eq nth_Cons_Suc)
  ultimately show ?case using Suc by simp
qed simp

definition job_coinbase :: "job \<Rightarrow> stratum \<Rightarrow> u8 list \<Rightarrow> u8 list" where
  "job_coinbase j t n2 = j_cb1 j @ t_nonce1bin t @ n2 @ j_cb2 j"

text \<open>The state holds job \<open>j\<close>: everything the generation of work reads.\<close>

definition holds_job :: "stratum \<Rightarrow> job \<Rightarrow> bool" where
  "holds_job t j \<longleftrightarrow> t_job_id t = Some (j_id j) \<and> t_ntime t = bin2hex (j_time j) \<and>
     live_bins (t_merkles t) (t_merkle_bin t) = Some (j_merkles j) \<and>
     length (t_header_bin t) = 128 \<and> take 112 (t_header_bin t) = job_header j \<and>
     t_nonce2_offset t = int (length (j_cb1 j) + t_n1_len t) \<and>
     t_coinbase_len t \<le> int (length (t_coinbase t)) \<and>
     (\<exists>n2. int (length n2) = t_n2size t \<and> take (nat (t_coinbase_len t)) (t_coinbase t) = job_coinbase j t n2 \<and>
        t_coinbase_len t = int (length (job_coinbase j t n2)))"

lemma live_bins_all: "live_bins (length ms) (map Live ms) = Some ms"
  by (induction ms) simp_all

lemma length_job_header: "job_ok j \<Longrightarrow> length (job_header j) = 112"
  by (simp add: job_ok_def job_header_def)

lemma build_coinbase:
  assumes "N = length cb1 + n1 + n2 + length cb2 + r" and "length nb = n1"
  shows "poke (replicate N 0) 0 cb1 = Some (cb1 @ replicate n1 0 @ replicate (n2 + length cb2 + r) 0)"
    and "poke (cb1 @ replicate n1 0 @ replicate (n2 + length cb2 + r) 0) (int (length cb1)) nb =
      Some (cb1 @ nb @ replicate (n2 + length cb2 + r) 0)"
    and "poke (cb1 @ nb @ replicate (n2 + length cb2 + r) 0) (int (length cb1) + int n1 + int n2) cb2 =
      Some ((cb1 @ nb @ replicate n2 0) @ cb2 @ replicate r 0)"
proof -
  have r: "replicate N 0 = [] @ replicate (length cb1) 0 @ replicate n1 0 @ replicate (n2 + length cb2 + r) 0"
    by (simp add: assms(1) replicate_add add.assoc)
  show "poke (replicate N 0) 0 cb1 = Some (cb1 @ replicate n1 0 @ replicate (n2 + length cb2 + r) 0)"
    unfolding r using poke_at [of "[]" 0 "replicate (length cb1) 0" cb1] by simp
  show "poke (cb1 @ replicate n1 0 @ replicate (n2 + length cb2 + r) 0) (int (length cb1)) nb =
      Some (cb1 @ nb @ replicate (n2 + length cb2 + r) 0)"
    using assms(2) by (intro poke_at) simp_all
  have r2: "cb1 @ nb @ replicate (n2 + length cb2 + r) 0 =
      (cb1 @ nb @ replicate n2 0) @ replicate (length cb2) 0 @ replicate r 0"
    by (simp add: replicate_add add.assoc)
  show "poke (cb1 @ nb @ replicate (n2 + length cb2 + r) 0) (int (length cb1) + int n1 + int n2) cb2 =
      Some ((cb1 @ nb @ replicate n2 0) @ cb2 @ replicate r 0)"
    unfolding r2 using poke_at [of "cb1 @ nb @ replicate n2 0" "length cb1 + n1 + n2" "replicate (length cb2) 0" cb2]
      assms(2) by simp
qed

lemma notify_header_job:
  assumes "job_ok j" and "length (t_header_bin t) = 128" and "header_text t = bin2hex (job_header j)"
    and "length (t_nonce1bin t) = t_n1_len t" and "t_n2size t = int n2"
    and "t_coinbase_len t = int (length (j_cb1 j) + t_n1_len t + n2 + length (j_cb2 j))"
  shows "\<exists>pad. notify_header (bin2hex (j_cb1 j)) (bin2hex (j_cb2 j)) t =
    Some (True, t\<lparr>t_header_bin := job_header j @ drop 112 (t_header_bin t),
      t_coinbase := job_coinbase j t (replicate n2 0) @ pad\<rparr>)"
proof -
  let ?len = "length (j_cb1 j) + t_n1_len t + n2 + length (j_cb2 j)"
  obtain r where r: "align_len ?len = ?len + r" using align_len_ge le_Suc_ex by metis
  have h: "hex2bin (t_header_bin t) (header_text t) 112 = (job_header j @ drop 112 (t_header_bin t), True)"
    using hex2bin_prefix [of "job_header j" "t_header_bin t"] length_job_header [OF assms(1)] assms(2,3)
    by simp
  have c: "hex2bin (replicate (length cb) 0) (bin2hex cb) (length cb) = (cb, True)" for cb
    by (rule hex2bin_exact) simp
  have n: "nat (t_coinbase_len t) = ?len" "\<not> t_coinbase_len t < 0" using assms(6) by simp_all
  have l: "length (bin2hex cb) div 2 = length cb" for cb by (simp add: length_bin2hex)
  note b = build_coinbase [of "align_len ?len" "j_cb1 j" "t_n1_len t" n2 "j_cb2 j" r "t_nonce1bin t", OF r assms(4)]
  show ?thesis
    by (rule exI [of _ "replicate r 0"])
      (simp add: notify_header_def Let_def h l c n b assms(4,5) job_coinbase_def)
qed

lemma encode_job_fields:
  "json_array_get (Some (encode_job j)) 4 = Some (JArray (map (\<lambda>m. JString (bin2hex m)) (j_merkles j)))"
  "json_is_true (json_array_get (Some (encode_job j)) 8) = j_clean j"
  "json_array_string (Some (encode_job j)) 0 = Some (j_id j)"
  "json_array_string (Some (encode_job j)) (Suc 0) = Some (bin2hex (j_prev j))"
  "json_array_string (Some (encode_job j)) 2 = Some (bin2hex (j_cb1 j))"
  "json_array_string (Some (encode_job j)) 3 = Some (bin2hex (j_cb2 j))"
  "json_array_string (Some (encode_job j)) 5 = Some (bin2hex (j_version j))"
  "json_array_string (Some (encode_job j)) 6 = Some (bin2hex (j_bits j))"
  "json_array_string (Some (encode_job j)) 7 = Some (bin2hex (j_time j))"
  by (simp_all add: encode_job_def json_array_string_def json_is_null_def json_is_true_def)

text \<open>The state before the header is written.\<close>

definition job_fields :: "job \<Rightarrow> stratum \<Rightarrow> stratum" where
  "job_fields j t = t\<lparr>t_job_id := Some (j_id j), t_prev_hash := bin2hex (j_prev j),
     t_bbversion := bin2hex (j_version j), t_nbit := bin2hex (j_bits j),
     t_ntime := bin2hex (j_time j), t_clean := j_clean j,
     t_coinbase_len := int (length (j_cb1 j)) + int (t_n1_len t) + t_n2size t + int (length (j_cb2 j)),
     t_nonce2_offset := int (length (j_cb1 j)) + int (t_n1_len t)\<rparr>"

definition job_slots :: "job \<Rightarrow> stratum \<Rightarrow> slot list" where
  "job_slots j t = (if j_merkles j = [] then replicate (t_merkles t) Freed @ drop (t_merkles t) (t_merkle_bin t)
     else map Live (j_merkles j))"

lemma parse_notify_encoded:
  assumes "subscribed t" and "job_ok j" and "length fresh = 32"
  shows "parse_notify fresh t (Some (encode_job j)) =
    map_option (\<lambda>(ret, t). (ret, t\<lparr>t_getwork_requested := t_getwork_requested t + 1\<rparr>))
      (notify_header (bin2hex (j_cb1 j)) (bin2hex (j_cb2 j))
        ((job_fields j t)\<lparr>t_merkle_bin := job_slots j t, t_merkles := length (j_merkles j),
           t_nonce2 := if j_clean j then 0 else t_nonce2 t\<rparr>))"
proof -
  have f: "free_slots (t_merkles t) (t_merkle_bin t) =
      Some (replicate (t_merkles t) Freed @ drop (t_merkles t) (t_merkle_bin t))"
    using assms(1) by (intro free_slots_live) (auto simp: subscribed_def)
  have c: "convert_merkles fresh (Some (JArray (map (\<lambda>m. JString (bin2hex m)) (j_merkles j)))) 0
      (length (j_merkles j)) (realloc_slots (length (j_merkles j)) slots) = Some (True, map Live (j_merkles j))"
    for slots
    using assms(2,3) by (intro convert_merkles_all) (simp_all add: job_ok_def realloc_slots_def)
  have l: "length (bin2hex cb) div 2 = length cb" for cb by (simp add: length_bin2hex)
  have tk: "take 64 (bin2hex (j_prev j)) = bin2hex (j_prev j)" "take 8 (bin2hex (j_version j)) = bin2hex (j_version j)"
    "take 8 (bin2hex (j_bits j)) = bin2hex (j_bits j)" "take 8 (bin2hex (j_time j)) = bin2hex (j_time j)"
    using assms(2) by (simp_all add: length_bin2hex job_ok_def)
  show ?thesis
    unfolding parse_notify_def Let_def encode_job_fields
    by (cases "j_clean j") (simp_all add: encode_job_fields f c l tk job_slots_def job_fields_def)
qed

lemma notify_round_trip:
  assumes "subscribed t" and "0 \<le> t_n2size t" and "job_ok j" and "length fresh = 32"
  shows "\<exists>t'. parse_notify fresh t (Some (encode_job j)) = Some (True, t') \<and> holds_job t' j \<and>
    subscribed t' \<and> t_n2size t' = t_n2size t \<and> t_nonce1 t' = t_nonce1 t \<and>
    t_nonce2 t' = (if j_clean j then 0 else t_nonce2 t) \<and> t_clean t' = j_clean j \<and>
    t_nonce1bin t' = t_nonce1bin t"
proof -
  let ?t = "(job_fields j t)\<lparr>t_merkle_bin := job_slots j t, t_merkles := length (j_merkles j),
           t_nonce2 := if j_clean j then 0 else t_nonce2 t\<rparr>"
  obtain n2 where n2: "t_n2size t = int n2" using assms(2) nonneg_int_cases by blast
  have sub: "length (t_nonce1bin t) = t_n1_len t" "length (t_header_bin t) = 128" "t_nonce1 t \<noteq> None"
    using assms(1) by (simp_all add: subscribed_def)
  have "header_text ?t = bin2hex (job_header j)"
    by (rule header_of_job [OF assms(3)]) (simp_all add: job_fields_def)
  from notify_header_job [of j ?t n2, OF assms(3) _ this] obtain pad where
    h: "notify_header (bin2hex (j_cb1 j)) (bin2hex (j_cb2 j)) ?t =
      Some (True, ?t\<lparr>t_header_bin := job_header j @ drop 112 (t_header_bin t),
        t_coinbase := job_coinbase j t (replicate n2 0) @ pad\<rparr>)"
    using sub n2 by (auto simp: job_fields_def job_coinbase_def)
  let ?t' = "?t\<lparr>t_header_bin := job_header j @ drop 112 (t_header_bin t),
        t_coinbase := job_coinbase j t (replicate n2 0) @ pad,
        t_getwork_requested := t_getwork_requested t + 1\<rparr>"
  have p: "parse_notify fresh t (Some (encode_job j)) = Some (True, ?t')"
    unfolding parse_notify_encoded [OF assms(1,3,4)] h by (simp add: job_fields_def)
  have lj: "length (job_header j) = 112" by (rule length_job_header [OF assms(3)])
  have bins: "live_bins (length (j_merkles j)) (job_slots j t) = Some (j_merkles j)"
    by (simp add: job_slots_def live_bins_all)
  have "holds_job ?t' j"
    unfolding holds_job_def using sub n2 lj bins
    by (simp add: job_fields_def job_coinbase_def exI [of _ "replicate n2 0"])
  moreover have "subscribed ?t'"
    using assms(1,3) lj by (auto simp: subscribed_def job_fields_def job_slots_def job_ok_def)
  ultimately show ?thesis using p by (intro exI [of _ ?t']) (simp add: job_fields_def)
qed


section \<open>Reconnecting\<close>

lemma no_slash_pair: "CHR ''/'' \<notin> set s \<Longrightarrow> strstr s ''//'' = None"
  by (induction s) auto

lemma one_slash_pair:
  "CHR ''/'' \<notin> set a \<Longrightarrow> CHR ''/'' \<notin> set b \<Longrightarrow> c \<noteq> CHR ''/'' \<Longrightarrow> strstr (a @ CHR ''/'' # c # b) ''//'' = None"
  by (induction a) (auto simp: no_slash_pair)

lemma extract_no_scheme:
  assumes "strstr url ''//'' = None" and "url = h @ CHR '':'' # r" and "CHR '':'' \<notin> set h"
    and "CHR ''['' \<notin> set (h @ r)" and "r \<noteq> []" and "h \<noteq> []" and "length h \<le> 255"
  shows "extract_sockaddr url = Some (True, h, Some (port_of r))"
  using extract_plain [of url url h r] assms by simp

text \<open>The part of a host from its first dot, the domain a reconnect must keep.\<close>

definition domain :: "string \<Rightarrow> string option" where
  "domain url = map_option (\<lambda>i. drop i url) (strchr url (CHR ''.''))"

definition plain :: "string \<Rightarrow> bool" where
  "plain s \<longleftrightarrow> s \<noteq> [] \<and> CHR '':'' \<notin> set s \<and> CHR ''/'' \<notin> set s \<and> CHR ''['' \<notin> set s"

lemma port_of_plain: "plain port \<Longrightarrow> port_of port = take 5 port"
  by (auto simp: port_of_def plain_def takeWhile_eq_all_conv dest: in_set_takeD)

text \<open>A pool may move the miner to another host of its own domain: a request that names a plain
  host is obeyed exactly when both hosts have a dot and agree from the first dot on; then the
  connection is suspended and the new host and port are stored. A request without a host keeps
  the host.\<close>

theorem reconnect_keeps_domain:
  assumes "json_string_value (json_array_get val 0) = Some u" and "plain (text_of u)"
    and "json_string_value (json_array_get val 1) = Some p" and "plain (text_of p)"
    and "length (text_of u) + length (text_of p) < 255"
  shows "parse_reconnect t val =
    (if domain (text_of u) \<noteq> None \<and> domain (text_of u) = domain (t_sockaddr_url t)
     then Some (True, (suspend_stratum t)\<lparr>t_sockaddr_url := text_of u, t_stratum_port := take 5 (text_of p)\<rparr>)
     else Some (False, t))"
proof -
  have "extract_sockaddr (text_of u @ '':'' @ text_of p) = Some (True, text_of u, Some (port_of (text_of p)))"
    by (rule extract_no_scheme) (use assms(2,4,5) in \<open>auto simp: plain_def intro!: no_slash_pair\<close>)
  then show ?thesis using assms(1,3,5)
    by (auto simp: parse_reconnect_def Let_def domain_def port_of_plain [OF assms(4)] split: option.splits)
qed

text \<open>The domain check of a reconnect can be passed by: the check compares the text from the first
  dot, and the address is parsed afterwards, so a name without dots (a host of the local network
  or an address written as one number), followed by a port, a slash and the pool's own domain,
  is accepted for every pool, and the miner connects to that name.\<close>

theorem reconnect_leaves_domain:
  assumes "t_sockaddr_url t = name @ CHR ''.'' # tld" and "CHR ''.'' \<notin> set name"
    and "CHR ''/'' \<notin> set (tld @ port)" "CHR ''['' \<notin> set (tld @ port)"
    and "plain h" and "CHR ''.'' \<notin> set h"
    and "json_string_value (json_array_get val 0) = Some u" and "text_of u = h @ '':80/x.'' @ tld"
    and "json_string_value (json_array_get val 1) = None" and "t_stratum_port t = port"
    and "length h + length tld + length port + 8 \<le> 256"
  shows "parse_reconnect t val =
    Some (True, (suspend_stratum t)\<lparr>t_sockaddr_url := h, t_stratum_port := ''80''\<rparr>)"
proof -
  have d1: "strchr (t_sockaddr_url t) (CHR ''.'') = Some (length name)"
    unfolding assms(1) strchr_def by (rule strstr_char_first [OF assms(2)])
  have u: "text_of u = (h @ '':80/x'') @ CHR ''.'' # tld" using assms(8) by simp
  have d2: "strchr (text_of u) (CHR ''.'') = Some (length (h @ '':80/x''))"
    unfolding u strchr_def by (rule strstr_char_first) (use assms(6) in auto)
  have "extract_sockaddr (text_of u @ '':'' @ port) = Some (True, h, Some (port_of (''80/x.'' @ tld @ '':'' @ port)))"
  proof (rule extract_no_scheme)
    show "strstr (text_of u @ '':'' @ port) ''//'' = None"
      using one_slash_pair [of "h @ '':80''" "CHR ''.'' # tld @ '':'' @ port" "CHR ''x''"] assms(3,5)
      by (simp add: u plain_def)
  qed (use assms(4,5,11) in \<open>auto simp: u plain_def\<close>)
  moreover have "port_of (''80/x.'' @ tld @ '':'' @ port) = ''80''" by (simp add: port_of_def)
  ultimately show ?thesis using assms(7,9,10,11)
    by (simp add: parse_reconnect_def Let_def d1 [unfolded assms(1)] d2 [unfolded u, simplified] u assms(1))
qed

text \<open>The text of a JSON string, from characters.\<close>

definition chars :: "string \<Rightarrow> u8 list" where
  "chars s = map (\<lambda>c. of_nat (of_char c)) s"

definition jstring :: "string \<Rightarrow> json" where
  "jstring s = JString (chars s)"

lemma text_of_chars: "text_of (chars s) = s"
proof -
  have "char_of (unat (of_nat (of_char c) :: u8)) = c" for c
    by (simp add: unsigned_of_nat char_of_take_bit_eq)
  then show ?thesis by (simp add: text_of_def chars_def o_def)
qed

definition demo_stratum :: stratum where
  "demo_stratum = \<lparr>t_nonce1 = Some (bin2hex [9]), t_nonce1bin = [9], t_n1_len = 1, t_nonce2 = 3,
     t_n2size = 4, t_sessionid = None, t_active = True, t_notify = False, t_job_id = None,
     t_clean = False, t_merkle_bin = [], t_merkles = 0, t_coinbase = [], t_coinbase_len = 0,
     t_nonce2_offset = 0, t_header_bin = replicate 128 0, t_prev_hash = [], t_bbversion = [],
     t_nbit = [], t_ntime = [], t_sdiff = 0, t_sockaddr_url = ''eu.pool.com'',
     t_stratum_port = ''3333'', t_sockbuf = [], t_getwork_requested = 0\<rparr>"

theorem reconnect_keeps_domain_witness:
  "parse_reconnect demo_stratum (Some (JArray [jstring ''b.pool.com'', jstring ''80''])) =
     Some (True, (suspend_stratum demo_stratum)\<lparr>t_sockaddr_url := ''b.pool.com'', t_stratum_port := ''80''\<rparr>)"
  by (rule trans [OF reconnect_keeps_domain [where u = "chars ''b.pool.com''" and p = "chars ''80''"]])
    (simp_all add: jstring_def text_of_chars plain_def demo_stratum_def domain_def strchr_def)

theorem reconnect_leaves_domain_witness:
  "parse_reconnect demo_stratum (Some (JArray [jstring ''16909060:80/x.pool.com''])) =
     Some (True, (suspend_stratum demo_stratum)\<lparr>t_sockaddr_url := ''16909060'', t_stratum_port := ''80''\<rparr>)"
  by (rule reconnect_leaves_domain [where name = "''eu''" and u = "chars ''16909060:80/x.pool.com''" and tld = "''pool.com''" and port = "''3333''"])
    (simp_all add: demo_stratum_def plain_def jstring_def text_of_chars)


section \<open>A job to try\<close>

definition demo_job :: job where
  "demo_job = \<lparr>j_id = [0x61], j_version = [0, 0, 0, 2], j_prev = replicate 32 1, j_cb1 = [1, 2],
     j_cb2 = [3], j_merkles = [replicate 32 7], j_bits = [0x1d, 0, 0xff, 0xff], j_time = [5, 6, 7, 8],
     j_clean = False\<rparr>"

lemma demo_job_ok: "job_ok demo_job"
  by (simp add: job_ok_def demo_job_def)

lemma demo_subscribed: "subscribed demo_stratum"
  by (simp add: subscribed_def demo_stratum_def)

text \<open>C19: A notification is read back as it was meant: for every job, sent as hexadecimal fields,
  \<open>parse_notify\<close> succeeds, the header template is the job's version, previous block, time and
  bits around an empty merkle root, and the coinbase is the two parts with \<open>nonce1\<close> and room
  for \<open>nonce2\<close> between them; \<open>nonce2\<close> starts again for a clean job only.\<close>

theorem notification_round_trip:
  assumes "subscribed t" and "0 \<le> t_n2size t" and "job_ok j" and "length fresh = 32"
  shows "\<exists>t'. parse_notify fresh t (Some (encode_job j)) = Some (True, t') \<and> holds_job t' j \<and>
    subscribed t' \<and> t_n2size t' = t_n2size t \<and> t_nonce1 t' = t_nonce1 t \<and>
    t_nonce2 t' = (if j_clean j then 0 else t_nonce2 t)"
  using notify_round_trip [OF assms] by blast

theorem notification_round_trip_witness:
  "\<exists>t'. parse_notify (replicate 32 0) demo_stratum (Some (encode_job demo_job)) = Some (True, t') \<and>
     holds_job t' demo_job \<and> subscribed t' \<and> t_n2size t' = 4 \<and> t_nonce1 t' = Some (bin2hex [9]) \<and>
     t_nonce2 t' = 3"
  using notification_round_trip [OF demo_subscribed _ demo_job_ok, of "replicate 32 0"]
  by (simp add: demo_stratum_def demo_job_def)

section \<open>A broken branch\<close>

lemma free_slots_dead:
  "q < m \<Longrightarrow> q < length slots \<Longrightarrow> \<forall>b. slots ! q \<noteq> Live b \<Longrightarrow> free_slots m slots = None"
proof (induction m slots arbitrary: q rule: free_slots.induct)
  case (3 n b slots)
  then show ?case by (cases q) auto
qed auto

lemma free_slots_short: "length slots < m \<Longrightarrow> free_slots m slots = None"
  by (induction m slots rule: free_slots.induct) auto

text \<open>A branch whose first bad entry follows \<open>good\<close>.\<close>

definition bad_branch :: "u8 list list \<Rightarrow> u8 list \<Rightarrow> json list \<Rightarrow> json list" where
  "bad_branch good bad rest = map (\<lambda>m. JString (bin2hex m)) good @ JString bad # rest"

lemma convert_merkles_fails:
  assumes "length fresh = 32" and "\<forall>m\<in>set good. length m = 32" and "\<not> snd (hex2bin fresh bad 32)"
    and "i \<le> length good" and "n = length (bad_branch good bad rest) - i"
  shows "\<exists>slots'. convert_merkles fresh (Some (JArray (bad_branch good bad rest))) i n slots = Some (False, slots') \<and>
    length slots' = length slots \<and> (\<forall>q>length good. slots' ! q = slots ! q)"
  using assms(4,5)
proof (induction n arbitrary: i slots)
  case 0
  then show ?case by (simp add: bad_branch_def)
next
  case (Suc n)
  let ?arr = "bad_branch good bad rest"
  have i: "i < length ?arr" using Suc.prems by simp
  show ?case
  proof (cases "i < length good")
    case True
    have "hex2bin fresh (bin2hex (good ! i)) 32 = (good ! i, True)"
      using hex2bin_exact [of fresh "good ! i"] assms(1,2) True by simp
    moreover have "json_array_string (Some (JArray ?arr)) i = Some (bin2hex (good ! i))"
      using True i by (simp add: json_array_string_def json_is_null_def bad_branch_def nth_append)
    ultimately have "convert_merkles fresh (Some (JArray ?arr)) i (Suc n) slots =
        convert_merkles fresh (Some (JArray ?arr)) (Suc i) n (slots[i := Live (good ! i)])" by simp
    moreover have n: "n = length ?arr - Suc i" using Suc.prems(2) by simp
    ultimately show ?thesis
      using Suc.IH [OF _ n, of "slots[i := Live (good ! i)]"] True by auto
  next
    case False
    then have "i = length good" using Suc.prems(1) by simp
    then have "json_array_string (Some (JArray ?arr)) i = Some bad"
      by (simp add: json_array_string_def json_is_null_def bad_branch_def nth_append)
    moreover obtain bin where "hex2bin fresh bad 32 = (bin, False)" using assms(3) by (cases "hex2bin fresh bad 32") auto
    ultimately show ?thesis using \<open>i = length good\<close> by auto
  qed
qed

lemma parse_notify_dead:
  assumes "free_slots (t_merkles t) (t_merkle_bin t) = None"
  shows "parse_notify fresh t (Some (encode_job j)) = None"
  unfolding parse_notify_def Let_def encode_job_fields by (simp add: encode_job_fields assms)

lemma length_realloc_slots: "length (realloc_slots n slots) = n"
  by (simp add: realloc_slots_def min_def)

lemma slots_after_realloc:
  assumes "Suc k < m" and "m \<le> length slots"
    and "length slots' = n" and "\<forall>q>k. slots' ! q = realloc_slots n (replicate m Freed @ drop m slots) ! q"
  shows "free_slots m slots' = None"
proof (cases "n \<le> Suc k")
  case True
  then show ?thesis using assms by (intro free_slots_short) simp
next
  case False
  then have "slots' ! Suc k = Freed" using assms by (simp add: realloc_slots_def nth_append)
  then show ?thesis using assms False by (intro free_slots_dead [of "Suc k"]) simp_all
qed

text \<open>A notification with one bad branch hash leaves dead pointers behind: it is refused, but the
  branch in use was freed before the new one was complete and its length is not changed, so
  when the bad hash comes before the last place of the old branch, the next notification, however
  correct, frees memory twice.\<close>

theorem bad_branch_double_free:
  assumes "subscribed t" and "length fresh = 32" and "\<forall>m\<in>set good. length m = 32"
    and "\<not> snd (hex2bin fresh bad 32)" and "Suc (length good) < t_merkles t"
  shows "\<exists>t'. parse_notify fresh t (Some (JArray [JString i, JString prev, JString cb1, JString cb2,
      JArray (bad_branch good bad rest), JString version, JString bits, JString time, clean])) = Some (False, t') \<and>
    (\<forall>fresh' j. parse_notify fresh' t' (Some (encode_job j)) = None)"
proof -
  let ?val = "Some (JArray [JString i, JString prev, JString cb1, JString cb2,
      JArray (bad_branch good bad rest), JString version, JString bits, JString time, clean])"
  let ?n = "length (bad_branch good bad rest)"
  let ?freed = "replicate (t_merkles t) Freed @ drop (t_merkles t) (t_merkle_bin t)"
  have f: "free_slots (t_merkles t) (t_merkle_bin t) = Some ?freed"
    using assms(1) by (intro free_slots_live) (auto simp: subscribed_def)
  obtain slots' where c: "convert_merkles fresh (Some (JArray (bad_branch good bad rest))) 0 ?n
      (realloc_slots ?n ?freed) = Some (False, slots')" "length slots' = length (realloc_slots ?n ?freed)"
    "\<forall>q>length good. slots' ! q = realloc_slots ?n ?freed ! q"
    using convert_merkles_fails [OF assms(2-4), of 0 ?n rest "realloc_slots ?n ?freed"] by auto
  have n: "?n \<noteq> 0" by (simp add: bad_branch_def)
  have get: "json_array_get ?val 4 = Some (JArray (bad_branch good bad rest))"
    "json_array_string ?val 0 = Some i" "json_array_string ?val (Suc 0) = Some prev" "json_array_string ?val 2 = Some cb1"
    "json_array_string ?val 3 = Some cb2" "json_array_string ?val 5 = Some version"
    "json_array_string ?val 6 = Some bits" "json_array_string ?val 7 = Some time"
    by (simp_all add: json_array_string_def json_is_null_def)
  obtain t' where p: "parse_notify fresh t ?val = Some (False, t')" "t_merkles t' = t_merkles t" "t_merkle_bin t' = slots'"
    using n unfolding parse_notify_def Let_def get by (simp add: f c(1) get)
  have "free_slots (t_merkles t') (t_merkle_bin t') = None" unfolding p(2,3)
    by (rule slots_after_realloc [OF assms(5) _ _ c(3)])
      (use assms(1) c(2) in \<open>simp_all add: subscribed_def length_realloc_slots\<close>)
  then show ?thesis using p(1) parse_notify_dead by blast
qed

theorem bad_branch_double_free_witness:
  "\<exists>t'. parse_notify (replicate 32 0) (demo_stratum\<lparr>t_merkles := 2, t_merkle_bin := replicate 2 (Live (replicate 32 0))\<rparr>)
     (Some (JArray [JString [], JString [], JString [], JString [], JArray [JString []], JString [], JString [],
        JString [], JTrue])) = Some (False, t') \<and>
    parse_notify (replicate 32 0) t' (Some (encode_job demo_job)) = None"
  using bad_branch_double_free [where t = "demo_stratum\<lparr>t_merkles := 2, t_merkle_bin := replicate 2 (Live (replicate 32 0))\<rparr>"
      and fresh = "replicate 32 0" and good = "[]" and bad = "[]" and rest = "[]" and clean = JTrue
      and i = "[]" and prev = "[]" and version = "[]" and bits = "[]" and time = "[]" and ?cb1.0 = "[]" and ?cb2.0 = "[]"]
  by (fastforce simp: subscribed_def demo_stratum_def bad_branch_def hex2bin_def)


end
