(* ===== verification/Stratum_Work.thy ===== *)
theory Stratum_Work
  imports Stratum Work_Queue
begin

text \<open>
  Work from a stratum notification: \<open>gen_stratum_work\<close> of \<open>src/cgminer/cgminer.c\<close>, the header
  it builds for a job, and the run of different items one job yields.
\<close>

section \<open>Work from a notification\<close>

text \<open>
  \<open>n2size\<close> bytes are copied out of the eight bytes of \<open>nonce2le\<close>: a size that is negative or
  above 8 reads outside them. \<open>set_target\<close> computes the target with doubles and is an
  argument; \<open>now\<close> is the time.
\<close>

definition gen_stratum_work ::
    "(dbl \<Rightarrow> u8 list) \<Rightarrow> int \<Rightarrow> nat \<Rightarrow> stratum \<Rightarrow> work \<Rightarrow> miner \<Rightarrow> (stratum \<times> work \<times> miner) option" where
  "gen_stratum_work set_target now pool t w s =
     (let l = m_locals s;
          nonce2le = le64_bytes (t_nonce2 t)
      in if t_n2size t < 0 \<or> t_n2size t > 8 then None
         else case poke (t_coinbase t) (t_nonce2_offset t) (take (nat (t_n2size t)) nonce2le) of
           None \<Rightarrow> None
         | Some coinbase \<Rightarrow>
           if t_coinbase_len t > int (length coinbase) then None
           else case live_bins (t_merkles t) (t_merkle_bin t) of
             None \<Rightarrow> None
           | Some bins \<Rightarrow>
             (case (t_job_id t, t_nonce1 t) of
                (Some job_id, Some nonce1) \<Rightarrow>
                  let t = t\<lparr>t_coinbase := coinbase\<rparr>;
                      w = w\<lparr>w_nonce2 := t_nonce2 t, w_nonce2_len := nat (t_n2size t)\<rparr>;
                      t = t\<lparr>t_nonce2 := t_nonce2 t + 1\<rparr>;
                      merkle_root = merkleroot (hash_of l) (take (nat (t_coinbase_len t)) coinbase) bins;
                      merkle_root = flip32 merkle_root merkle_root;
                      w = w\<lparr>w_data := memcpy_at (w_data w) 0 (take 112 (t_header_bin t))\<rparr>;
                      w = w\<lparr>w_data := memcpy_at (w_data w) 36 merkle_root\<rparr>;
                      w = w\<lparr>w_sdiff := t_sdiff t, w_job_id := Some job_id, w_nonce1 := Some nonce1,
                            w_ntime := Some (t_ntime t)\<rparr>;
                      w = w\<lparr>w_midstate := calc_midstate (st_ctx l) (take 64 (st_swap l)) (w_data w)
                            (w_midstate w)\<rparr>;
                      w = w\<lparr>w_target := set_target (w_sdiff w)\<rparr>;
                      s = s\<lparr>local_work := local_work s + 1\<rparr>;
                      w = w\<lparr>w_pool := Some pool, w_stratum := True, w_nonce := 0, w_longpoll := False,
                            w_work_block := work_block s, w_drv_rolllimit := 60, tv_staged := now\<rparr>
                  in Some (t, w, s)
              | _ \<Rightarrow> None))"


section \<open>Generated work\<close>

text \<open>The header a miner should hash for a job: what the pool sent, with the merkle root of the
  coinbase that contains \<open>nonce2\<close>.\<close>

definition nonce2_bytes :: "stratum \<Rightarrow> u8 list" where
  "nonce2_bytes t = take (nat (t_n2size t)) (le64_bytes (t_nonce2 t))"

definition job_root :: "job \<Rightarrow> stratum \<Rightarrow> u8 list" where
  "job_root j t = merkleroot dsha (job_coinbase j t (nonce2_bytes t)) (j_merkles j)"

definition mined_header :: "job \<Rightarrow> stratum \<Rightarrow> u8 list" where
  "mined_header j t = j_version j @ j_prev j @ rev_words (job_root j t) @ j_time j @ j_bits j @ replicate 4 0"

definition ready :: "stratum \<Rightarrow> job \<Rightarrow> bool" where
  "ready t j \<longleftrightarrow> holds_job t j \<and> t_nonce1 t \<noteq> None \<and> 0 \<le> t_n2size t \<and> t_n2size t \<le> 8 \<and> job_ok j \<and>
     length (t_nonce1bin t) = t_n1_len t \<and> t_coinbase_len t < 2 ^ 29"

lemma length_nonce2_bytes: "t_n2size t \<le> 8 \<Longrightarrow> length (nonce2_bytes t) = nat (t_n2size t)"
  by (simp add: nonce2_bytes_def layout)

lemma coinbase_with_nonce2:
  assumes "ready t j"
  obtains c where "poke (t_coinbase t) (t_nonce2_offset t) (nonce2_bytes t) = Some c"
    "length c = length (t_coinbase t)"
    "take (nat (t_coinbase_len t)) c = job_coinbase j t (nonce2_bytes t)"
proof -
  let ?N = "nat (t_coinbase_len t)"
  obtain n2 where n2: "int (length n2) = t_n2size t" "take ?N (t_coinbase t) = job_coinbase j t n2"
    "t_coinbase_len t = int (length (job_coinbase j t n2))" "t_coinbase_len t \<le> int (length (t_coinbase t))"
    using assms by (auto simp: ready_def holds_job_def)
  define rest where "rest = drop ?N (t_coinbase t)"
  have c: "t_coinbase t = (j_cb1 j @ t_nonce1bin t) @ n2 @ (j_cb2 j @ rest)"
    using append_take_drop_id [of ?N "t_coinbase t"] n2(2) by (simp add: rest_def job_coinbase_def)
  have l: "length (nonce2_bytes t) = length n2" "int (length (j_cb1 j @ t_nonce1bin t)) = t_nonce2_offset t"
    using assms n2(1) length_nonce2_bytes [of t] by (simp_all add: ready_def holds_job_def)
  have "poke (t_coinbase t) (t_nonce2_offset t) (nonce2_bytes t) =
      Some ((j_cb1 j @ t_nonce1bin t) @ nonce2_bytes t @ (j_cb2 j @ rest))"
    unfolding c l(2) [symmetric] by (rule poke_at) (simp_all add: l(1))
  moreover have "?N = length (job_coinbase j t (nonce2_bytes t))"
    using n2(3) l(1) by (simp add: job_coinbase_def)
  ultimately show ?thesis using l(1)
    by (elim that) (simp_all add: c job_coinbase_def)
qed

lemma header_with_root:
  assumes "take 112 hb = job_header j" and "job_ok j" and "length d = 128" and "length r = 32"
    and "d' = memcpy_at (memcpy_at d 0 (take 112 hb)) 36 r"
  shows "take 80 d' = j_version j @ j_prev j @ r @ j_time j @ j_bits j @ replicate 4 0" and "length d' = 128"
proof -
  have h: "length (job_header j) = 112" by (rule length_job_header [OF assms(2)])
  have "memcpy_at d 0 (take 112 hb) = job_header j @ drop 112 d"
    by (simp add: memcpy_at_def assms(1) h)
  also have "\<dots> = (j_version j @ j_prev j) @ replicate 32 0 @ (j_time j @ j_bits j @ replicate 4 0 @
     [0, 0, 0, 0x80] @ replicate 28 0 @ drop 112 d)" by (simp add: job_header_def)
  finally have "d' = (j_version j @ j_prev j) @ r @ (j_time j @ j_bits j @ replicate 4 0 @
     [0, 0, 0, 0x80] @ replicate 28 0 @ drop 112 d)"
    using assms(2,4,5) by (simp add: memcpy_at_def job_ok_def)
  then show "take 80 d' = j_version j @ j_prev j @ r @ j_time j @ j_bits j @ replicate 4 0"
    "length d' = 128" using assms(2-4) by (simp_all add: job_ok_def)
qed

lemma job_coinbase_fields:
  "t_nonce1bin t' = t_nonce1bin t \<Longrightarrow> job_coinbase j t' n2 = job_coinbase j t n2"
  by (simp add: job_coinbase_def)

text \<open>The item made for \<open>w\<close>, given the coinbase buffer and the header data.\<close>

definition stratum_item :: "(dbl \<Rightarrow> u8 list) \<Rightarrow> int \<Rightarrow> nat \<Rightarrow> stratum \<Rightarrow> job \<Rightarrow> work \<Rightarrow> miner \<Rightarrow> u8 list \<Rightarrow> work" where
  "stratum_item set_target now pool t j w s d =
     w\<lparr>w_nonce2 := t_nonce2 t, w_nonce2_len := nat (t_n2size t), w_data := d, w_sdiff := t_sdiff t,
    w_job_id := Some (j_id j), w_nonce1 := t_nonce1 t, w_ntime := Some (bin2hex (j_time j)),
    w_midstate := concat (map le32_bytes (compress fips_H0 (block_words (rev_words (take 64 (mined_header j t)))))),
    w_target := set_target (t_sdiff t), w_pool := Some pool, w_stratum := True, w_nonce := 0,
    w_longpoll := False, w_work_block := work_block s, w_drv_rolllimit := 60, tv_staged := now\<rparr>"

lemma root_computed:
  assumes "ready t j" and "locals_ok l"
  shows "merkleroot (hash_of l) (job_coinbase j t (nonce2_bytes t)) (j_merkles j) = job_root j t"
proof -
  let ?n = "length (job_coinbase j t (nonce2_bytes t))"
  have r: "holds_job t j" "job_ok j" "0 \<le> t_n2size t" "t_n2size t \<le> 8" "t_coinbase_len t < 2 ^ 29"
    using assms(1) by (simp_all add: ready_def)
  have len: "t_coinbase_len t = int ?n"
    using r(1) length_nonce2_bytes [OF r(4)] r(3) by (auto simp: holds_job_def job_coinbase_def)
  have H: "hash_of l m = dsha m" if "length m = ?n \<or> length m = 64" for m
  proof -
    have "length m < 2 ^ 29" using that len r(5) by auto
    then show ?thesis unfolding hash_of_def
      using assms(2) by (intro gen_hash_dsha) (simp_all add: locals_ok_def)
  qed
  show ?thesis unfolding job_root_def
    by (rule merkleroot_cong [OF H]) (use r(2) in \<open>simp_all add: job_ok_def\<close>)
qed

lemma gen_stratum_work_ready:
  assumes "ready t j" and "locals_ok (m_locals s)" and "length (w_data w) = 128" and "length (w_midstate w) = 32"
  obtains c d where
    "gen_stratum_work set_target now pool t w s =
      Some (t\<lparr>t_coinbase := c, t_nonce2 := t_nonce2 t + 1\<rparr>, stratum_item set_target now pool t j w s d,
        s\<lparr>local_work := local_work s + 1\<rparr>)"
    "take 80 d = mined_header j t" "length d = 128"
    "take (nat (t_coinbase_len t)) c = job_coinbase j t (nonce2_bytes t)"
    "ready (t\<lparr>t_coinbase := c, t_nonce2 := t_nonce2 t + 1\<rparr>) j"
proof -
  let ?l = "m_locals s"
  obtain c where c: "poke (t_coinbase t) (t_nonce2_offset t) (nonce2_bytes t) = Some c"
    "length c = length (t_coinbase t)"
    "take (nat (t_coinbase_len t)) c = job_coinbase j t (nonce2_bytes t)"
    by (rule coinbase_with_nonce2 [OF assms(1)])
  have r: "holds_job t j" "job_ok j" "0 \<le> t_n2size t" "t_n2size t \<le> 8"
    using assms(1) by (simp_all add: ready_def)
  obtain n1 where n1: "t_nonce1 t = Some n1" using assms(1) by (auto simp: ready_def)
  have len: "t_coinbase_len t = int (length (job_coinbase j t (nonce2_bytes t)))"
    using r(1) length_nonce2_bytes [OF r(4)] r(3) by (auto simp: holds_job_def job_coinbase_def)
  note root = root_computed [OF assms(1,2), folded c(3)]
  have lr: "length (job_root j t) = 32" by (simp add: job_root_def length_merkleroot)
  have fl: "flip32 (job_root j t) (job_root j t) = rev_words (job_root j t)"
    unfolding flip32_def by (rule flip_whole) (simp_all add: lr)
  define d where "d = memcpy_at (memcpy_at (w_data w) 0 (take 112 (t_header_bin t))) 36
      (flip32 (job_root j t) (job_root j t))"
  have hb: "take 112 (t_header_bin t) = job_header j" using r(1) by (simp add: holds_job_def)
  have d: "take 80 d = mined_header j t" "length d = 128"
    using header_with_root [OF hb r(2) assms(3) _ d_def] lr fl by (simp_all add: mined_header_def layout)
  have bins: "live_bins (t_merkles t) (t_merkle_bin t) = Some (j_merkles j)" "t_job_id t = Some (j_id j)"
    "t_ntime t = bin2hex (j_time j)" "\<not> t_coinbase_len t > int (length c)"
    using r(1) c(2) by (simp_all add: holds_job_def)
  have "take 64 d = take 64 (mined_header j t)" using arg_cong [OF d(1), of "take 64"] by simp
  then have mid: "calc_midstate (st_ctx ?l) (take 64 (st_swap ?l)) d (w_midstate w) =
      concat (map le32_bytes (compress fips_H0 (block_words (rev_words (take 64 (mined_header j t))))))"
    using assms(2,4) d(2) by (subst calc_midstate_compress) (simp_all add: locals_ok_def)
  show ?thesis
  proof (rule that [OF _ d c(3)])
    show "gen_stratum_work set_target now pool t w s =
      Some (t\<lparr>t_coinbase := c, t_nonce2 := t_nonce2 t + 1\<rparr>, stratum_item set_target now pool t j w s d,
        s\<lparr>local_work := local_work s + 1\<rparr>)"
      using r(3,4) bins(4) by (simp add: gen_stratum_work_def Let_def c(1) [unfolded nonce2_bytes_def] bins n1 root
        d_def [symmetric] mid stratum_item_def)
    show "ready (t\<lparr>t_coinbase := c, t_nonce2 := t_nonce2 t + 1\<rparr>) j"
      using assms(1) c len length_nonce2_bytes [OF r(4)]
      by (auto simp: ready_def holds_job_def job_coinbase_def intro!: exI [of _ "nonce2_bytes t"])
  qed
qed

lemma mined_time:
  assumes "ready t j" and "take 80 d = mined_header j t" shows "sub_list d 68 4 = j_time j"
proof -
  have "sub_list d 68 4 = take 4 (drop 68 (take 80 d))" by (simp add: sub_list_def drop_take)
  then show ?thesis using assms
    by (simp add: mined_header_def job_ok_def ready_def job_root_def length_merkleroot layout)
qed

text \<open>C20: From a notification to the header that is hashed: for a job the state holds, the work
  generated has the header made of the pool's version, previous block, time and bits and the
  merkle root over the coinbase with the next \<open>nonce2\<close> in its place; its time text is the
  header's, its midstate is that of the header, and the state still holds the job with
  \<open>nonce2\<close> advanced by one, so the next item differs.\<close>

theorem stratum_work_header:
  assumes "ready t j" and "locals_ok (m_locals s)" and "length (w_data w) = 128" and "length (w_midstate w) = 32"
  shows "\<exists>t' w' s'. gen_stratum_work set_target now pool t w s = Some (t', w', s') \<and>
    take 80 (w_data w') = mined_header j t \<and> ntime_ok w' \<and> w_ntime w' = Some (bin2hex (j_time j)) \<and>
    w_nonce2 w' = t_nonce2 t \<and> w_job_id w' = Some (j_id j) \<and> w_pool w' = Some pool \<and> w_stratum w' \<and>
    w_midstate w' = concat (map le32_bytes (compress fips_H0 (block_words (rev_words (take 64 (mined_header j t)))))) \<and>
    ready t' j \<and> t_nonce2 t' = t_nonce2 t + 1"
proof -
  obtain c d where g: "gen_stratum_work set_target now pool t w s =
      Some (t\<lparr>t_coinbase := c, t_nonce2 := t_nonce2 t + 1\<rparr>, stratum_item set_target now pool t j w s d,
        s\<lparr>local_work := local_work s + 1\<rparr>)"
    "take 80 d = mined_header j t" "length d = 128"
    "ready (t\<lparr>t_coinbase := c, t_nonce2 := t_nonce2 t + 1\<rparr>) j"
    by (rule gen_stratum_work_ready [OF assms])
  show ?thesis
    by (intro exI conjI, rule g(1))
      (use g mined_time [OF assms(1) g(2)] in \<open>simp_all add: ntime_ok_def stratum_item_def\<close>)
qed

section \<open>No header twice\<close>

lemma ucast_drop_byte: "unat (ucast (drop_bit (8 * i) (a :: u64)) :: u8) = unat a div 256 ^ i mod 256"
proof -
  have "unat (drop_bit (8 * i) a) = unat a div 256 ^ i"
    using take_bit_nat_eq_self [of "unat a" 64] unsigned_less [of a, where ?'a = nat]
    by (simp only: unsigned_drop_bit_eq) (simp add: drop_bit_eq_div power_mult)
  then show ?thesis by (simp add: unsigned_ucast_eq take_bit_eq_mod)
qed

lemma le_number_le64:
  assumes "n \<le> 8" shows "le_number (take n (le64_bytes a)) = unat a mod 256 ^ n"
  using assms
proof (induction n)
  case (Suc n)
  have l: "le64_bytes a = map (\<lambda>i. ucast (drop_bit (8 * i) a)) [0..<8]"
    by (simp add: le64_bytes_def upt_conv_Cons)
  have "take (Suc n) (le64_bytes a) = take n (le64_bytes a) @ [ucast (drop_bit (8 * n) a)]"
    using Suc.prems by (simp add: l take_Suc_conv_app_nth)
  moreover have "length (take n (le64_bytes a)) = n" using Suc.prems by (simp add: layout)
  ultimately have "le_number (take (Suc n) (le64_bytes a)) =
      unat a mod 256 ^ n + 256 ^ n * (unat a div 256 ^ n mod 256)"
    using Suc by (simp add: le_number_append ucast_drop_byte)
  also have "\<dots> = unat a mod (256 ^ n * 256)" by (simp only: mod_mult2_eq)
  finally show ?case by (simp add: mult.commute)
qed simp

lemma nonce2_bytes_number:
  assumes "0 \<le> t_n2size t" "t_n2size t \<le> 8"
  shows "le_number (nonce2_bytes t) = unat (t_nonce2 t) mod 256 ^ nat (t_n2size t)"
  using assms by (simp add: nonce2_bytes_def le_number_le64)

text \<open>The coinbases of \<open>k\<close> items generated in a row, with the items.\<close>

fun gen_run ::
    "(dbl \<Rightarrow> u8 list) \<Rightarrow> int \<Rightarrow> nat \<Rightarrow> nat \<Rightarrow> stratum \<Rightarrow> work \<Rightarrow> miner \<Rightarrow> (work \<times> u8 list) list option" where
  "gen_run set_target now pool 0 t w s = Some []"
| "gen_run set_target now pool (Suc k) t w s =
     (case gen_stratum_work set_target now pool t w s of
        None \<Rightarrow> None
      | Some (t', w', s') \<Rightarrow>
          map_option (\<lambda>ws. (w', take (nat (t_coinbase_len t')) (t_coinbase t')) # ws)
            (gen_run set_target now pool k t' w s'))"

definition nth_stratum :: "stratum \<Rightarrow> nat \<Rightarrow> stratum" where
  "nth_stratum t i = t\<lparr>t_nonce2 := t_nonce2 t + of_nat i\<rparr>"

lemma mined_header_cong:
  "t_nonce2 t' = t_nonce2 t \<Longrightarrow> t_n2size t' = t_n2size t \<Longrightarrow> t_nonce1bin t' = t_nonce1bin t \<Longrightarrow>
     mined_header j t' = mined_header j t"
  by (simp add: mined_header_def job_root_def job_coinbase_def nonce2_bytes_def)

lemma gen_run_items:
  assumes "ready t j" and "locals_ok (m_locals s)" and "length (w_data w) = 128" and "length (w_midstate w) = 32"
  shows "\<exists>ws. gen_run set_target now pool k t w s = Some ws \<and> length ws = k \<and>
    (\<forall>i<k. snd (ws ! i) = job_coinbase j t (nonce2_bytes (nth_stratum t i)) \<and>
      take 80 (w_data (fst (ws ! i))) = mined_header j (nth_stratum t i))"
  using assms(1,2)
proof (induction k arbitrary: t s)
  case (Suc k)
  obtain c d where g: "gen_stratum_work set_target now pool t w s =
      Some (t\<lparr>t_coinbase := c, t_nonce2 := t_nonce2 t + 1\<rparr>, stratum_item set_target now pool t j w s d,
        s\<lparr>local_work := local_work s + 1\<rparr>)"
    "take 80 d = mined_header j t" "take (nat (t_coinbase_len t)) c = job_coinbase j t (nonce2_bytes t)"
    "ready (t\<lparr>t_coinbase := c, t_nonce2 := t_nonce2 t + 1\<rparr>) j"
    by (rule gen_stratum_work_ready [OF Suc.prems assms(3,4)])
  let ?t = "t\<lparr>t_coinbase := c, t_nonce2 := t_nonce2 t + 1\<rparr>"
  obtain ws where ws: "gen_run set_target now pool k ?t w (s\<lparr>local_work := local_work s + 1\<rparr>) = Some ws"
    "length ws = k" "\<forall>i<k. snd (ws ! i) = job_coinbase j ?t (nonce2_bytes (nth_stratum ?t i)) \<and>
      take 80 (w_data (fst (ws ! i))) = mined_header j (nth_stratum ?t i)"
    using Suc.IH [OF g(4), of "s\<lparr>local_work := local_work s + 1\<rparr>"] Suc.prems(2) by auto
  have n: "nonce2_bytes (nth_stratum ?t i) = nonce2_bytes (nth_stratum t (Suc i))"
    "mined_header j (nth_stratum ?t i) = mined_header j (nth_stratum t (Suc i))" for i
    using mined_header_cong [of "nth_stratum ?t i" "nth_stratum t (Suc i)" j]
    by (simp_all add: nonce2_bytes_def nth_stratum_def add.assoc)
  have z: "nonce2_bytes (nth_stratum t 0) = nonce2_bytes t" "mined_header j (nth_stratum t 0) = mined_header j t"
    by (simp_all add: nth_stratum_def)
  have jc: "job_coinbase j ?t n2 = job_coinbase j t n2" for n2 by (simp add: job_coinbase_def)
  let ?ws = "(stratum_item set_target now pool t j w s d, take (nat (t_coinbase_len t)) c) # ws"
  have "gen_run set_target now pool (Suc k) t w s = Some ?ws" by (simp add: g(1) ws(1))
  moreover have "snd (?ws ! i) = job_coinbase j t (nonce2_bytes (nth_stratum t i)) \<and>
      take 80 (w_data (fst (?ws ! i))) = mined_header j (nth_stratum t i)" if "i < Suc k" for i
    using that ws(3) g(2,3) n z jc by (cases i) (simp_all add: stratum_item_def)
  ultimately show ?case using ws(2) by (intro exI [of _ ?ws]) simp
qed simp

lemma nonce2_number_mod:
  assumes "0 \<le> t_n2size t" "t_n2size t \<le> 8"
  shows "le_number (nonce2_bytes (nth_stratum t i)) = (unat (t_nonce2 t) + i) mod 256 ^ nat (t_n2size t)"
proof -
  let ?n = "nat (t_n2size t)"
  have d: "256 ^ ?n dvd (2 ^ 64 :: nat)"
  proof -
    have "(256 :: nat) ^ ?n = 2 ^ (8 * ?n)" by (simp add: power_mult)
    then show ?thesis using assms by (simp only:) (intro le_imp_power_dvd, simp)
  qed
  have "unat (t_nonce2 t + of_nat i) = (unat (t_nonce2 t) + i) mod 2 ^ 64"
    by (simp add: unat_word_ariths(1) unsigned_of_nat take_bit_eq_mod mod_simps)
  then show ?thesis using assms d
    by (simp add: nonce2_bytes_number nth_stratum_def mod_mod_cancel)
qed

lemma mod_add_inj:
  fixes x a b M :: nat
  assumes "(x + a) mod M = (x + b) mod M" and "a < M" and "b < M"
  shows "a = b"
proof -
  have "(int x + int a) mod int M = (int x + int b) mod int M"
    using assms(1) by (metis of_nat_add zmod_int)
  then have "(int x + int a - int x) mod int M = (int x + int b - int x) mod int M"
    by (rule mod_diff_cong) simp
  then show ?thesis using assms(2,3) by simp
qed

text \<open>C21: The work made from one job repeats nothing: as many items as \<open>nonce2\<close> has values can be
  generated in a row without the pool's help, all their coinbases are different, and each
  item's header has the merkle root of its own coinbase.\<close>

theorem generated_work_distinct:
  assumes "ready t j" and "locals_ok (m_locals s)" and "length (w_data w) = 128" and "length (w_midstate w) = 32"
    and "k \<le> 256 ^ nat (t_n2size t)"
  shows "\<exists>ws. gen_run set_target now pool k t w s = Some ws \<and> length ws = k \<and> distinct (map snd ws) \<and>
    (\<forall>(w', coinbase)\<in>set ws. take 80 (w_data w') =
      j_version j @ j_prev j @ rev_words (merkleroot dsha coinbase (j_merkles j)) @ j_time j @ j_bits j @ replicate 4 0)"
proof -
  obtain ws where ws: "gen_run set_target now pool k t w s = Some ws" "length ws = k"
    "\<forall>i<k. snd (ws ! i) = job_coinbase j t (nonce2_bytes (nth_stratum t i)) \<and>
      take 80 (w_data (fst (ws ! i))) = mined_header j (nth_stratum t i)"
    using gen_run_items [OF assms(1-4)] by blast
  let ?M = "256 ^ nat (t_n2size t)"
  have n2: "0 \<le> t_n2size t" "t_n2size t \<le> 8" using assms(1) by (simp_all add: ready_def)
  have inj: "a = b" if "a < k" "b < k" "snd (ws ! a) = snd (ws ! b)" for a b
  proof -
    have "nonce2_bytes (nth_stratum t a) = nonce2_bytes (nth_stratum t b)"
      using ws(3) that length_nonce2_bytes [of "nth_stratum t a"] length_nonce2_bytes [of "nth_stratum t b"] n2
      by (simp add: job_coinbase_def nth_stratum_def)
    then have "(unat (t_nonce2 t) + a) mod ?M = (unat (t_nonce2 t) + b) mod ?M"
      using nonce2_number_mod [OF n2] by metis
    then show ?thesis using that(1,2) assms(5) by (intro mod_add_inj [of "unat (t_nonce2 t)" a ?M b]) simp_all
  qed
  have "distinct (map snd ws)" using inj ws(2) by (auto simp: distinct_conv_nth)
  moreover have "\<forall>(w', coinbase)\<in>set ws. take 80 (w_data w') =
      j_version j @ j_prev j @ rev_words (merkleroot dsha coinbase (j_merkles j)) @ j_time j @ j_bits j @ replicate 4 0"
    using ws(2,3) by (fastforce simp: in_set_conv_nth mined_header_def job_root_def nth_stratum_def job_coinbase_def)
  ultimately show ?thesis using ws(1,2) by blast
qed


section \<open>Samples\<close>

definition demo_ready :: stratum where
  "demo_ready = demo_stratum\<lparr>t_job_id := Some [0x61], t_ntime := bin2hex [5, 6, 7, 8],
     t_merkles := 1, t_merkle_bin := [Live (replicate 32 7)], t_header_bin := job_header demo_job @ replicate 16 0,
     t_nonce2_offset := 3, t_coinbase_len := 8, t_coinbase := [1, 2, 9, 0, 0, 0, 0, 3]\<rparr>"

lemma demo_ready_ok: "ready demo_ready demo_job"
proof -
  have "job_coinbase demo_job demo_ready (replicate 4 0) = [1, 2, 9, 0, 0, 0, 0, 3]"
    by (simp add: job_coinbase_def demo_job_def demo_ready_def demo_stratum_def numeral_eq_Suc)
  then have "holds_job demo_ready demo_job"
    unfolding holds_job_def
    by (intro conjI exI [of _ "replicate 4 0"])
      (simp_all add: demo_ready_def demo_job_def demo_stratum_def job_header_def)
  then show ?thesis using demo_job_ok by (simp add: ready_def demo_ready_def demo_stratum_def)
qed

theorem stratum_work_header_witness:
  "\<exists>t' w' s'. gen_stratum_work (\<lambda>d. replicate 32 0) 9 4 demo_ready zero_work demo_miner = Some (t', w', s') \<and>
     take 80 (w_data w') = mined_header demo_job demo_ready \<and> ntime_ok w'"
  using stratum_work_header [OF demo_ready_ok demo_locals_ok, of zero_work "\<lambda>d. replicate 32 0" 9 4]
  by (fastforce simp: zero_work_def)

theorem generated_work_distinct_witness:
  "\<exists>ws. gen_run (\<lambda>d. replicate 32 0) 9 4 1000 demo_ready zero_work demo_miner = Some ws \<and>
     length ws = 1000 \<and> distinct (map snd ws)"
  using generated_work_distinct [OF demo_ready_ok demo_locals_ok, of zero_work 1000 "\<lambda>d. replicate 32 0" 9 4]
  by (fastforce simp: zero_work_def demo_ready_def demo_stratum_def)

section \<open>What a pool can break\<close>

text \<open>The size of \<open>nonce2\<close> that a pool announces is not checked beyond zero: the reply to the
  subscription is accepted for every other 32 bit value, and with a size outside 1 to 8 no
  work can be made afterwards without copying from outside the eight bytes of the local
  \<open>nonce2\<close>, whatever is notified in between.\<close>

theorem announced_size_faults:
  assumes "n \<noteq> 0" and "- (2 ^ 31) \<le> n" and "n < 2 ^ 31" and "n \<notin> {1..8}"
  shows "\<exists>t'. subscribe_reply t (Some (JArray [ids, JString nonce1, JInteger n])) None = (True, t') \<and>
    (\<forall>t''. t_n2size t'' = t_n2size t' \<longrightarrow> gen_stratum_work set_target now pool t'' w s = None)"
proof -
  have "signed_take_bit 31 n = n"
    using assms(2,3) by (intro signed_take_bit_int_eq_self) simp_all
  then have i: "sint (word_of_int n :: u32) = n" by (simp add: sint_sbintrunc')
  have "fst (subscribe_reply t (Some (JArray [ids, JString nonce1, JInteger n])) None)"
    "t_n2size (snd (subscribe_reply t (Some (JArray [ids, JString nonce1, JInteger n])) None)) = n"
    using assms(1) by (simp_all add: subscribe_reply_def json_is_null_def json_array_string_def i Let_def numeral_2_eq_2)
  moreover have "gen_stratum_work set_target now pool t'' w s = None" if "t_n2size t'' = n" for t''
    using that assms(1,4) by (auto simp: gen_stratum_work_def Let_def)
  ultimately show ?thesis
    by (intro exI [of _ "snd (subscribe_reply t (Some (JArray [ids, JString nonce1, JInteger n])) None)"])
      (simp add: prod_eq_iff)
qed

theorem announced_size_faults_witness:
  "\<exists>t'. subscribe_reply demo_stratum (Some (JArray [JArray [], JString [], JInteger 9])) None = (True, t') \<and>
    gen_stratum_work (\<lambda>d. []) 0 0 t' zero_work demo_miner = None"
  using announced_size_faults [of 9 demo_stratum "JArray []" "[]" "\<lambda>d. []" 0 0 zero_work demo_miner] by auto



end
