(* ===== verification/Stratum_Line.thy ===== *)
theory Stratum_Line
  imports Prelude
begin

text \<open>
  Lines from a stratum socket: \<open>recv_line\<close>, \<open>recalloc_sock\<close>, \<open>_recalloc\<close> and
  \<open>clear_sock\<close> of \<open>src/cgminer/util.c\<close>. \<open>sockbuf\<close> is a C string: its bytes before the NUL.
  The bytes arrive in the pieces \<open>recv\<close> returns, which are the input of the model.
\<close>

section \<open>The buffer\<close>

record sock =
  sockbuf :: "u8 list"
  sockbuf_size :: nat

abbreviation newline :: u8 where
  "newline \<equiv> 10"

definition RBUFSIZE :: nat where
  "RBUFSIZE = 8192"

definition recalloc_sock :: "nat \<Rightarrow> sock \<Rightarrow> sock" where
  "recalloc_sock len k =
     (let old = length (sockbuf k);
          new = old + len + 1
      in if new < sockbuf_size k then k
         else k\<lparr>sockbuf_size := new + (RBUFSIZE - new mod RBUFSIZE)\<rparr>)"

text \<open>\<open>strcat\<close> after \<open>recalloc_sock\<close>; writing past the end of the buffer is None.\<close>

definition append_sock :: "u8 list \<Rightarrow> sock \<Rightarrow> sock option" where
  "append_sock s k =
     (let k = recalloc_sock (length s) k
      in if length (sockbuf k) + length s + 1 \<le> sockbuf_size k
         then Some (k\<lparr>sockbuf := sockbuf k @ s\<rparr>) else None)"

section \<open>Receiving\<close>

text \<open>
  What one \<open>recv\<close> gives: the closed connection, an error with which waiting goes on or not,
  or at most \<open>RECVSIZE\<close> bytes; each with the seconds waited so far.
\<close>

datatype recvd = Closed | Again | Failed | Data "u8 list"

definition c_string :: "u8 list \<Rightarrow> u8 list" where
  "c_string bs = takeWhile (\<lambda>b. b \<noteq> 0) bs"

text \<open>
  The loop. \<open>None\<close>: the thread is still in \<open>recv\<close>. \<open>suspend_stratum\<close> empties the buffer.
\<close>

fun recv_loop :: "(int \<times> recvd) list \<Rightarrow> sock \<Rightarrow> (sock \<times> (int \<times> recvd) list) option" where
  "recv_loop [] k = None"
| "recv_loop ((waited, Closed) # evs) k = Some (k\<lparr>sockbuf := []\<rparr>, evs)"
| "recv_loop ((waited, Failed) # evs) k = Some (k\<lparr>sockbuf := []\<rparr>, evs)"
| "recv_loop ((waited, Again) # evs) k =
     (if waited < 60 \<and> newline \<notin> set (sockbuf k) then recv_loop evs k else Some (k, evs))"
| "recv_loop ((waited, Data d) # evs) k =
     (case append_sock (c_string d) k of
        None \<Rightarrow> None
      | Some k \<Rightarrow> if waited < 60 \<and> newline \<notin> set (sockbuf k) then recv_loop evs k else Some (k, evs))"

text \<open>
  \<open>strtok\<close> skips newlines, ends the token with a NUL, and the rest is moved to the front from
  the token's length plus one.
\<close>

definition take_line :: "sock \<Rightarrow> u8 list option \<times> sock" where
  "take_line k =
     (let buf = sockbuf k;
          skip = length (takeWhile (\<lambda>b. b = newline) buf);
          tok = drop skip buf
      in if tok = [] then (None, k)
         else
           let sret = takeWhile (\<lambda>b. b \<noteq> newline) tok;
               len = length sret;
               cut = buf[skip + len := 0]
           in (Some sret,
               if length buf > len + 1 then k\<lparr>sockbuf := c_string (drop (len + 1) cut)\<rparr>
               else k\<lparr>sockbuf := []\<rparr>))"

text \<open>\<open>clear_sock\<close> reads everything that is there and throws it away.\<close>

fun clear_sock :: "(int \<times> recvd) list \<Rightarrow> sock \<Rightarrow> sock \<times> (int \<times> recvd) list" where
  "clear_sock ((waited, Data d) # evs) k = clear_sock evs k"
| "clear_sock evs k = (k\<lparr>sockbuf := []\<rparr>, evs)"

text \<open>\<open>ready\<close>: data came within the time that the first \<open>socket_full\<close> waits.\<close>

definition recv_line ::
    "bool \<Rightarrow> (int \<times> recvd) list \<Rightarrow> sock \<Rightarrow> (u8 list option \<times> sock \<times> (int \<times> recvd) list) option" where
  "recv_line ready evs k =
     (if newline \<notin> set (sockbuf k) \<and> \<not> ready then
        (case clear_sock evs k of (k, evs) \<Rightarrow> Some (None, k, evs))
      else
        case (if newline \<notin> set (sockbuf k) then recv_loop evs k else Some (k, evs)) of
          None \<Rightarrow> None
        | Some (k, evs) \<Rightarrow>
            (case take_line k of
               (Some s, k) \<Rightarrow> Some (Some s, k, evs)
             | (None, k) \<Rightarrow> (case clear_sock evs k of (k, evs) \<Rightarrow> Some (None, k, evs))))"

section \<open>The lines of the stream\<close>

text \<open>The bytes still to be read: those in the buffer and those of the pieces to come.\<close>

fun pieces :: "(int \<times> recvd) list \<Rightarrow> u8 list" where
  "pieces [] = []"
| "pieces ((waited, Data d) # evs) = d @ pieces evs"
| "pieces ((waited, _) # evs) = pieces evs"

definition stream :: "sock \<Rightarrow> (int \<times> recvd) list \<Rightarrow> u8 list" where
  "stream k evs = sockbuf k @ pieces evs"

text \<open>An undisturbed connection: text in time.\<close>

definition steady :: "(int \<times> recvd) list \<Rightarrow> bool" where
  "steady evs \<longleftrightarrow> (\<forall>(waited, r)\<in>set evs. waited < 60 \<and> (r = Again \<or> (\<exists>d. r = Data d \<and> 0 \<notin> set d)))"

lemma append_sock_ok: "append_sock s k \<noteq> None"
proof -
  have "length (sockbuf k) + length s + 1 \<le> sockbuf_size (recalloc_sock (length s) k)"
    unfolding recalloc_sock_def Let_def
    by (cases "length (sockbuf k) + length s + 1 < sockbuf_size k") (simp_all add: le_add1)
  moreover have "sockbuf (recalloc_sock (length s) k) = sockbuf k"
    by (simp add: recalloc_sock_def Let_def)
  ultimately show ?thesis by (simp add: append_sock_def Let_def)
qed

lemma append_sock_buf: "append_sock s k = Some k' \<Longrightarrow> sockbuf k' = sockbuf k @ s"
  by (auto simp: append_sock_def recalloc_sock_def Let_def split: if_splits)

lemma c_string_id: "0 \<notin> set d \<Longrightarrow> c_string d = d"
  by (auto simp: c_string_def takeWhile_eq_all_conv)

lemma recv_loop_stream:
  assumes "steady evs" and "newline \<in> set (sockbuf k @ pieces evs)" and "newline \<notin> set (sockbuf k)"
  shows "\<exists>k' evs'. recv_loop evs k = Some (k', evs') \<and> stream k' evs' = stream k evs \<and>
    newline \<in> set (sockbuf k') \<and> steady evs'"
  using assms
proof (induction evs k rule: recv_loop.induct)
  case (5 waited d evs k)
  have s: "waited < 60" "c_string d = d" "steady evs"
    using "5.prems"(1) by (auto simp: steady_def c_string_id)
  obtain k' where k': "append_sock (c_string d) k = Some k'" using append_sock_ok by blast
  have b: "sockbuf k' = sockbuf k @ d" using append_sock_buf [OF k'] s(2) by simp
  show ?case
  proof (cases "newline \<in> set (sockbuf k')")
    case True
    then show ?thesis using k' b s by (simp add: stream_def)
  next
    case False
    have "newline \<in> set (sockbuf k' @ pieces evs)" using "5.prems"(2) b by simp
    then show ?thesis using "5.IH" [OF k' _ s(3)] False s(1) k' b by (simp add: stream_def)
  qed
qed (auto simp: steady_def stream_def)

lemma take_line_first:
  assumes "sockbuf k = l @ newline # rest" and "l \<noteq> []" and "newline \<notin> set l" and "0 \<notin> set rest"
  shows "take_line k = (Some l, k\<lparr>sockbuf := rest\<rparr>)"
proof -
  obtain c cs where l: "l = c # cs" by (cases l) (use assms(2) in auto)
  have skip: "takeWhile (\<lambda>b. b = newline) (sockbuf k) = []" using assms(1,3) l by simp
  have tw: "takeWhile (\<lambda>b. b \<noteq> newline) (l @ newline # r) = l" for r
    using assms(3) by (subst takeWhile_append2) auto
  show ?thesis
    using assms(2,4) by (simp add: take_line_def Let_def skip) (simp add: assms(1) tw c_string_id)
qed

text \<open>C28: Lines come out of the socket as the pool sent them: however the bytes are cut into pieces,
  each call returns the next line of the stream without its newline and leaves exactly the rest
  to be read, as long as no line is empty and no wait is too long; the buffer grows before it
  would overflow.\<close>

theorem recv_line_next:
  assumes "steady evs" and "stream k evs = l @ newline # rest" and "l \<noteq> []" and "newline \<notin> set l"
    and "0 \<notin> set (stream k evs)"
  shows "\<exists>k' evs'. recv_line True evs k = Some (Some l, k', evs') \<and> stream k' evs' = rest \<and> steady evs'"
proof -
  obtain k1 evs1 where r: "(if newline \<notin> set (sockbuf k) then recv_loop evs k else Some (k, evs)) = Some (k1, evs1)"
    "stream k1 evs1 = stream k evs" "newline \<in> set (sockbuf k1)" "steady evs1"
  proof (cases "newline \<in> set (sockbuf k)")
    case False
    have "newline \<in> set (sockbuf k @ pieces evs)" using assms(2) by (simp add: stream_def)
    then show ?thesis using recv_loop_stream [OF assms(1) _ False] False that by auto
  qed (use assms(1) that in simp)
  then obtain a b where ab: "sockbuf k1 = a @ newline # b" "newline \<notin> set a"
    by (meson split_list_first)
  have "a @ newline # (b @ pieces evs1) = l @ newline # rest"
    using r(2) assms(2) ab(1) by (simp add: stream_def)
  then have l: "a = l" "b @ pieces evs1 = rest"
    using append_eq_append_conv2 [of a "newline # b @ pieces evs1" l "newline # rest"] ab(2) assms(4)
    by (auto simp: append_eq_Cons_conv Cons_eq_append_conv)
  have "0 \<notin> set b" using assms(5) r(2) ab(1) by (metis UnI1 UnI2 set_append stream_def list.set_intros(2))
  then have "take_line k1 = (Some l, k1\<lparr>sockbuf := b\<rparr>)"
    using take_line_first [of k1 l b] ab l(1) assms(3) by simp
  then show ?thesis using r(1,4) l(2) by (simp add: recv_line_def stream_def)
qed

theorem recv_line_next_witness:
  "\<exists>k' evs'. recv_line True [(0, Data [0x61, 0x62]), (1, Data [10, 0x63, 10])]
       \<lparr>sockbuf = [], sockbuf_size = 8192\<rparr> = Some (Some [0x61, 0x62], k', evs') \<and> stream k' evs' = [0x63, 10]"
  using recv_line_next [of "[(0, Data [0x61, 0x62]), (1, Data [10, 0x63, 10])]"
      "\<lparr>sockbuf = [], sockbuf_size = 8192\<rparr>" "[0x61, 0x62]" "[0x63, 10]"]
  by (auto simp: steady_def stream_def)

text \<open>An empty line costs the lines behind it: when the buffer starts with a newline, the next
  line is returned, but the position the rest is moved from counts the line's length from the
  start of the buffer, where the NUL that ends the line is found first, and everything after
  it that was already received is lost.\<close>

theorem blank_line_loses_rest:
  assumes "l \<noteq> []" and "newline \<notin> set l"
  shows "recv_line ready evs \<lparr>sockbuf = newline # l @ newline # rest, sockbuf_size = n\<rparr> =
    Some (Some l, \<lparr>sockbuf = [], sockbuf_size = n\<rparr>, evs)"
proof -
  obtain c cs where l: "l = c # cs" by (cases l) (use assms(1) in auto)
  have tw: "takeWhile (\<lambda>b. b = newline) (newline # l @ newline # rest) = [newline]"
    using assms(2) l by simp
  have tl: "takeWhile (\<lambda>b. b \<noteq> newline) (l @ newline # rest) = l"
    using assms(2) by (subst takeWhile_append2) auto
  have "(newline # l @ newline # rest)[1 + length l := 0] = newline # l @ 0 # rest"
    by (simp add: list_update_append)
  then have "take_line \<lparr>sockbuf = newline # l @ newline # rest, sockbuf_size = n\<rparr> =
      (Some l, \<lparr>sockbuf = [], sockbuf_size = n\<rparr>)"
    by (simp add: take_line_def Let_def tw tl c_string_def del: takeWhile.simps(2)) simp
  then show ?thesis by (simp add: recv_line_def)
qed

theorem blank_line_loses_rest_witness:
  "recv_line True [] \<lparr>sockbuf = [10, 0x61, 10, 0x62, 10], sockbuf_size = 8192\<rparr> =
     Some (Some [0x61], \<lparr>sockbuf = [], sockbuf_size = 8192\<rparr>, [])"
  using blank_line_loses_rest [of "[0x61]" True "[]" "[0x62, 10]" 8192] by simp

end
