(* ===== verification/Gbt.thy ===== *)
theory Gbt
  imports Json
begin

text \<open>
  Block templates and plain getwork, from \<open>src/cgminer/cgminer.c\<close>: \<open>gbt_decode\<close> with
  \<open>gbt_merkle_bins\<close>, \<open>gen_gbt_work\<close>, \<open>jobj_binary\<close>, \<open>getwork_decode\<close> and
  \<open>work_decode\<close>. \<open>None\<close> is a memory fault, as in \<open>Json\<close>.

  Integers that are stored in memory order are the bytes stored. \<open>junk\<close> is the content of
  memory that was not written.
\<close>

section \<open>The state of a template\<close>

record template =
  g_previousblockhash :: "u8 list"
  g_target :: "u8 list"
  g_coinbasetxn :: "u8 list"
  g_longpollid :: "u8 list"
  g_workid :: "u8 list option"
  g_expires :: int
  g_version :: "u8 list"
  g_curtime :: "u8 list"
  g_bits :: "u8 list"
  g_submit_old :: bool
  g_n2size :: nat
  g_nonce2 :: u64
  g_nonce2_offset :: nat
  g_coinbase :: "u8 list"
  g_coinbase_len :: nat
  g_merklebin :: "u8 list list"
  g_transactions :: nat
  g_txn_data :: "u8 list option"
  g_gbt_txns :: int
  g_lastwork :: int

text \<open>\<open>hex2bin\<close> into a buffer at an offset.\<close>

definition hex_into :: "u8 list \<Rightarrow> nat \<Rightarrow> u8 list \<Rightarrow> nat \<Rightarrow> u8 list option" where
  "hex_into buf off hexstr len = poke buf (int off) (fst (hex2bin_loop [] hexstr len))"

text \<open>A pointer into a string, \<open>n\<close> bytes on; past its NUL it must not be read.\<close>

definition string_at :: "u8 list \<Rightarrow> nat \<Rightarrow> u8 list option" where
  "string_at s n = (if n \<le> length s then Some (drop n s) else None)"

section \<open>The transactions of a template\<close>

fun txn_strings :: "json list \<Rightarrow> u8 list list option" where
  "txn_strings [] = Some []"
| "txn_strings (v # vs) =
     (case json_string_value (json_object_get (Some v) ''data'') of
        None \<Rightarrow> None
      | Some txn \<Rightarrow> map_option (\<lambda>ts. txn # ts) (txn_strings vs))"

text \<open>
  The hash of one transaction, from its \<open>hash\<close> field or from its data; None if the field is
  not hexadecimal.
\<close>

definition txn_hash :: "(u8 list \<Rightarrow> u8 list) \<Rightarrow> u8 \<Rightarrow> json \<Rightarrow> u8 list \<Rightarrow> u8 list option" where
  "txn_hash H junk v txn =
     (case json_string_value (json_object_get (Some v) ''hash'') of
        None \<Rightarrow>
          let txn_len = length txn div 2
          in Some (H (fst (hex2bin (replicate txn_len junk) txn txn_len)))
      | Some hash \<Rightarrow>
          (case hex2bin (replicate 32 junk) hash 32 of
             (binswap, ok) \<Rightarrow> if \<not> ok then None else Some (swab256 (replicate 32 junk) binswap)))"

text \<open>The hashes up to the first bad one, and whether there is none.\<close>

fun txn_hashes :: "(u8 list \<Rightarrow> u8 list) \<Rightarrow> u8 \<Rightarrow> json list \<Rightarrow> u8 list list \<Rightarrow> u8 list list \<times> bool" where
  "txn_hashes H junk (v # vs) (txn # txns) =
     (case txn_hash H junk v txn of
        None \<Rightarrow> ([], False)
      | Some h \<Rightarrow> (case txn_hashes H junk vs txns of (hs, ok) \<Rightarrow> (h # hs, ok)))"
| "txn_hashes H junk _ _ = ([], True)"

definition json_elems :: "json option \<Rightarrow> json list" where
  "json_elems j = (case j of Some (JArray vs) \<Rightarrow> vs | _ \<Rightarrow> [])"

text \<open>
  \<open>txn_data\<close> is allocated one byte longer than the text and its NUL, and the byte before
  the NUL is not written. \<open>merklebin\<close> has room for 16 hashes; a longer branch is written past
  its end.
\<close>

definition gbt_merkle_bins :: "(u8 list \<Rightarrow> u8 list) \<Rightarrow> u8 \<Rightarrow> json option \<Rightarrow> template \<Rightarrow> template option" where
  "gbt_merkle_bins H junk transaction_arr t =
     (let vs = json_elems transaction_arr;
          t = t\<lparr>g_txn_data := None, g_transactions := 0, g_merklebin := []\<rparr>;
          t = t\<lparr>g_transactions := length vs\<rparr>
      in case txn_strings vs of
           None \<Rightarrow> Some t
         | Some txns \<Rightarrow>
             (case txn_hashes H junk vs txns of
                (hashes, ok) \<Rightarrow>
                  let n = (if ok then length txns else Suc (length hashes));
                      copied = concat (take n txns);
                      left = length (concat txns) - length copied;
                      t = (if vs \<noteq> [] then t\<lparr>g_txn_data := Some (copied @ replicate (left + 1) junk)\<rparr> else t)
                  in if \<not> ok then Some t
                     else
                       let bins = merkle_loop H (replicate 32 0 # hashes) []
                       in if length bins > 16 then None else Some (t\<lparr>g_merklebin := bins\<rparr>)))"

section \<open>Decoding a template\<close>

text \<open>
  The coinbase with room for eight bytes behind its script: None where the text of the pool
  is shorter than its own lengths say.
\<close>

definition gbt_coinbase :: "u8 list \<Rightarrow> (u8 list \<times> nat) option" where
  "gbt_coinbase coinbasetxn =
     (let cbt_len = length coinbasetxn div 2;
          cal_len = align_len (cbt_len + 8 + 1)
      in case hex_into (replicate cal_len 0) 0 coinbasetxn 42 of
           None \<Rightarrow> None
         | Some coinbase \<Rightarrow>
           if cal_len \<le> 41 then None
           else
             let orig_len = unat (coinbase ! 41)
             in case string_at coinbasetxn 84 of
                  None \<Rightarrow> None
                | Some rest \<Rightarrow>
                  (case hex_into coinbase 42 rest orig_len of
                     None \<Rightarrow> None
                   | Some coinbase \<Rightarrow>
                     let coinbase = coinbase[41 := coinbase ! 41 + 8]
                     in case string_at coinbasetxn (84 + orig_len * 2) of
                          None \<Rightarrow> None
                        | Some rest \<Rightarrow>
                            map_option (\<lambda>c. (c, orig_len + 42))
                              (hex_into coinbase (42 + unat (coinbase ! 41)) rest (cbt_len - orig_len - 42))))"

definition gbt_decode ::
    "(u8 list \<Rightarrow> u8 list) \<Rightarrow> u8 \<Rightarrow> json option \<Rightarrow> template \<Rightarrow> (bool \<times> template) option" where
  "gbt_decode H junk res_val t =
     (let expires = json_integer_value (json_object_get res_val ''expires'');
          version = json_integer_value (json_object_get res_val ''version'');
          curtime = json_integer_value (json_object_get res_val ''curtime'');
          submitold = json_is_true (json_object_get res_val ''submitold'');
          workid = json_string_value (json_object_get res_val ''workid'')
      in case (json_string_value (json_object_get res_val ''previousblockhash''),
               json_string_value (json_object_get res_val ''target''),
               json_string_value (json_object_get (json_object_get res_val ''coinbasetxn'') ''data''),
               json_string_value (json_object_get res_val ''longpollid''),
               json_string_value (json_object_get res_val ''bits'')) of
        (Some previousblockhash, Some target, Some coinbasetxn, Some longpollid, Some bits) \<Rightarrow>
          if (word_of_int expires :: u32) = 0 \<or> (word_of_int version :: u32) = 0 \<or>
             (word_of_int curtime :: u32) = 0 then Some (False, t)
          else (case gbt_coinbase coinbasetxn of
             None \<Rightarrow> None
           | Some (coinbase, offset) \<Rightarrow>
             let t = t\<lparr>g_coinbasetxn := coinbasetxn, g_n2size := 8,
                   g_coinbase_len := length coinbasetxn div 2 + 8, g_coinbase := coinbase,
                   g_nonce2_offset := offset, g_longpollid := longpollid, g_workid := workid\<rparr>;
                 hash_swap = fst (hex2bin (replicate 32 junk) previousblockhash 32);
                 t = t\<lparr>g_previousblockhash := swap256 (g_previousblockhash t) hash_swap\<rparr>;
                 hash_swap = fst (hex2bin hash_swap target 32);
                 t = t\<lparr>g_target := swab256 (g_target t) hash_swap\<rparr>;
                 t = t\<lparr>g_expires := sint (word_of_int expires :: u32),
                   g_version := be32_bytes (word_of_int version),
                   g_curtime := be32_bytes (word_of_int curtime), g_submit_old := submitold,
                   g_bits := fst (hex2bin (g_bits t) bits 4)\<rparr>
             in map_option (\<lambda>t. (True, t))
                  (gbt_merkle_bins H junk (json_object_get res_val ''transactions'') t))
      | _ \<Rightarrow> Some (False, t))"

section \<open>Work from a template\<close>

text \<open>
  \<open>t\<close> is the template after the update that \<open>gen_gbt_work\<close> asks the pool for when it is older
  than a minute. \<open>calc_diff\<close> computes statistics in doubles and is left out.
\<close>

definition gen_gbt_work :: "int \<Rightarrow> nat \<Rightarrow> template \<Rightarrow> work \<Rightarrow> miner \<Rightarrow> (template \<times> work \<times> miner) option" where
  "gen_gbt_work now pool t w s =
     (let l = m_locals s
      in case poke (g_coinbase t) (int (g_nonce2_offset t)) (take (g_n2size t) (le64_bytes (g_nonce2 t))) of
           None \<Rightarrow> None
         | Some coinbase \<Rightarrow>
           let t = t\<lparr>g_coinbase := coinbase\<rparr>;
               t = t\<lparr>g_nonce2 := g_nonce2 t + 1\<rparr>;
               cb = take (g_coinbase_len t) coinbase;
               root = merkleroot (hash_of l) cb (g_merklebin t);
               d = w_data w;
               d = memcpy_at d 0 (g_version t);
               d = memcpy_at d 4 (g_previousblockhash t);
               d = memcpy_at d (4 + 32 + 32) (g_curtime t);
               d = memcpy_at d (4 + 32 + 32 + 4) (g_bits t);
               w = w\<lparr>w_target := g_target t, w_coinbase := Some (bin2hex cb)\<rparr>;
               w = w\<lparr>w_gbt_txns := g_gbt_txns t + 1\<rparr>;
               w = (case g_workid t of None \<Rightarrow> w | Some i \<Rightarrow> w\<lparr>w_job_id := Some i\<rparr>);
               d = memcpy_at d (4 + 32) (flip32 (sub_list d (4 + 32) 32) root);
               d = memcpy_at d (4 + 32 + 32 + 4 + 4) (replicate 4 0);
               d = memcpy_at d (4 + 32 + 32 + 4 + 4 + 4) (fst (hex2bin_loop [] workpadding 48));
               w = w\<lparr>w_data := d\<rparr>;
               w = w\<lparr>w_midstate := calc_midstate (st_ctx l) (take 64 (st_swap l)) d (w_midstate w)\<rparr>;
               s = s\<lparr>local_work := local_work s + 1\<rparr>;
               w = w\<lparr>w_pool := Some pool, w_gbt := True, w_longpoll := False,
                     w_work_block := work_block s, w_drv_rolllimit := 60, tv_staged := now\<rparr>
           in Some (t, w, s))"

section \<open>Plain getwork\<close>

definition jobj_binary :: "json option \<Rightarrow> string \<Rightarrow> u8 list \<Rightarrow> nat \<Rightarrow> u8 list \<times> bool" where
  "jobj_binary obj key buf buflen =
     (case json_object_get obj key of
        None \<Rightarrow> (buf, False)
      | Some tmp \<Rightarrow>
          (case json_string_value (Some tmp) of
             None \<Rightarrow> (buf, False)
           | Some hexstr \<Rightarrow> hex2bin buf hexstr buflen))"

definition getwork_decode :: "locals \<Rightarrow> json option \<Rightarrow> work \<Rightarrow> bool \<times> work" where
  "getwork_decode l res_val w =
     (case jobj_binary res_val ''data'' (w_data w) 128 of
        (d, ok) \<Rightarrow>
          let w = w\<lparr>w_data := d\<rparr>
          in if \<not> ok then (False, w)
             else case jobj_binary res_val ''midstate'' (w_midstate w) 32 of
               (m, ok) \<Rightarrow>
                 let w = w\<lparr>w_midstate := m\<rparr>;
                     w = (if \<not> ok then w\<lparr>w_midstate := calc_midstate (st_ctx l) (take 64 (st_swap l))
                            (w_data w) (w_midstate w)\<rparr> else w)
                 in case jobj_binary res_val ''target'' (w_target w) 32 of
                      (tg, ok) \<Rightarrow> (ok, w\<lparr>w_target := tg\<rparr>))"

text \<open>
  The three kinds of pool; \<open>solo\<close> decodes the template of a solo pool, which leaves the work
  alone.
\<close>

definition work_decode ::
    "(json option \<Rightarrow> template \<Rightarrow> (bool \<times> template) option) \<Rightarrow> (u8 list \<Rightarrow> u8 list) \<Rightarrow> u8 \<Rightarrow> locals \<Rightarrow>
     bool \<Rightarrow> bool \<Rightarrow> int \<Rightarrow> json option \<Rightarrow> template \<Rightarrow> work \<Rightarrow> (bool \<times> template \<times> work) option" where
  "work_decode solo H junk l is_solo is_gbt now val t w =
     (let res_val = json_object_get val ''result'';
          t = t\<lparr>g_lastwork := now\<rparr>
      in if res_val = None \<or> json_is_null res_val then Some (False, t, w)
         else if is_solo then map_option (\<lambda>(ok, t). (ok, t, w)) (solo res_val t)
         else if is_gbt then
           map_option (\<lambda>(ok, t). if ok then (True, t, w\<lparr>w_gbt := True\<rparr>) else (False, t, w))
             (gbt_decode H junk res_val t)
         else (case getwork_decode l res_val w of
             (False, w) \<Rightarrow> Some (False, t, w)
           | (True, w) \<Rightarrow> Some (True, t, w\<lparr>w_hash := replicate 32 0, tv_staged := now\<rparr>)))"


section \<open>The length of the branch\<close>

lemma merkle_loop_step:
  assumes "\<not> length hs \<le> 1"
  obtains hs' where "merkle_loop H hs mb = merkle_loop H hs' (mb @ [hs ! 1])"
    "length hs' = (length hs + 1) div 2" "hs' \<noteq> []"
    "\<exists>n. hs' = take n (pair_level H (if odd (length hs) then hs @ [last hs] else hs))"
proof -
  let ?hs = "if odd (length hs) then hs @ [last hs] else hs"
  let ?next = "take (length ?hs div 2) (pair_level H ?hs)"
  have e: "merkle_loop H hs mb = merkle_loop H ?next (mb @ [hs ! 1])"
    using assms by (subst merkle_loop.simps) (simp add: Let_def)
  have "length ?next = length ?hs div 2" by (simp add: min_absorb2)
  then have l: "length ?next = (length hs + 1) div 2" by auto
  then have "length ?next > 0" using assms by (simp add: div_greater_zero_iff)
  then have "?next \<noteq> []" unfolding length_greater_0_conv .
  then show ?thesis using that e l by blast
qed

lemma merkle_loop_grows: "length mb \<le> length (merkle_loop H hs mb)"
proof (induction "length hs" arbitrary: hs mb rule: less_induct)
  case less
  show ?case
  proof (cases "length hs \<le> 1")
    case True
    then show ?thesis by (subst merkle_loop.simps) simp
  next
    case False
    then obtain hs' where e: "merkle_loop H hs mb = merkle_loop H hs' (mb @ [hs ! 1])"
      "length hs' = (length hs + 1) div 2" by (rule merkle_loop_step)
    have "length hs' < length hs" unfolding e(2) using False by linarith
    from less [OF this, of "mb @ [hs ! 1]"] show ?thesis by (simp add: e(1))
  qed
qed

text \<open>The branch has one hash per halving.\<close>

lemma merkle_loop_length:
  "hs \<noteq> [] \<Longrightarrow> length (merkle_loop H hs mb) \<le> length mb + k \<longleftrightarrow> length hs \<le> 2 ^ k"
proof (induction k arbitrary: hs mb)
  case 0
  show ?case
  proof (cases "length hs \<le> 1")
    case True
    then show ?thesis by (subst merkle_loop.simps) simp
  next
    case False
    then obtain hs' where e: "merkle_loop H hs mb = merkle_loop H hs' (mb @ [hs ! 1])" by (rule merkle_loop_step)
    from merkle_loop_grows [of "mb @ [hs ! 1]" H hs'] False show ?thesis by (simp add: e)
  qed
next
  case (Suc k)
  show ?case
  proof (cases "length hs \<le> 1")
    case True
    then have "merkle_loop H hs mb = mb" by (subst merkle_loop.simps) simp
    moreover have "length hs \<le> 2 ^ Suc k" using True by (metis le_trans one_le_numeral one_le_power)
    ultimately show ?thesis by simp
  next
    case False
    then obtain hs' where e: "merkle_loop H hs mb = merkle_loop H hs' (mb @ [hs ! 1])"
      "length hs' = (length hs + 1) div 2" "hs' \<noteq> []" by (rule merkle_loop_step)
    have "length (merkle_loop H hs mb) \<le> length mb + Suc k \<longleftrightarrow> length hs' \<le> 2 ^ k"
      using Suc.IH [OF e(3), of "mb @ [hs ! 1]"] by (simp add: e(1))
    also have "\<dots> \<longleftrightarrow> length hs \<le> 2 ^ Suc k" unfolding e(2) by simp linarith
    finally show ?thesis .
  qed
qed

text \<open>The transactions of a template, as hexadecimal text and with or without their hashes.\<close>

lemma txn_hashes_all:
  "length vs = length txns \<Longrightarrow> snd (txn_hashes H junk vs txns) \<Longrightarrow>
     length (fst (txn_hashes H junk vs txns)) = length txns"
  by (induction H junk vs txns rule: txn_hashes.induct) (auto split: option.splits prod.splits)

lemma txn_strings_length: "txn_strings vs = Some txns \<Longrightarrow> length txns = length vs"
  by (induction vs arbitrary: txns) (auto split: option.splits)

text \<open>The memory for the merkle branch suffices for exactly 65535 transactions: a template with
  that many or fewer, all readable, stores a branch of at most 16 hashes; with one tail the
  seventeenth hash is written past the end of \<open>merklebin\<close>.\<close>

theorem merkle_branch_fits:
  assumes "txn_strings vs = Some txns" and "snd (txn_hashes H junk vs txns)"
  shows "gbt_merkle_bins H junk (Some (JArray vs)) t \<noteq> None \<longleftrightarrow> length vs < 65536"
proof -
  obtain hs where h: "txn_hashes H junk vs txns = (hs, True)"
    using assms(2) by (cases "txn_hashes H junk vs txns") auto
  have l: "length hs = length vs"
    using txn_hashes_all [OF _ assms(2)] txn_strings_length [OF assms(1)] h by simp
  have "length (merkle_loop H (replicate 32 0 # hs) []) \<le> 16 \<longleftrightarrow> length vs < 65536"
    using merkle_loop_length [of "replicate 32 0 # hs" H "[]" 16] l by auto
  then show ?thesis
    by (auto simp: gbt_merkle_bins_def json_elems_def assms(1) h Let_def)
qed

theorem merkle_branch_fits_witness:
  "\<forall>H t. gbt_merkle_bins H 0 (Some (JArray (replicate 3 (JObject [(''data'', JString [])])))) t \<noteq> None"
proof (intro allI)
  fix H t
  have "txn_strings (replicate n (JObject [(''data'', JString [])])) = Some (replicate n [])" for n
    by (induction n) simp_all
  moreover have "snd (txn_hashes H 0 (replicate n (JObject [(''data'', JString [])])) (replicate n []))" for n
    by (induction n) (auto simp: txn_hash_def Let_def split: prod.splits)
  ultimately show "gbt_merkle_bins H 0 (Some (JArray (replicate 3 (JObject [(''data'', JString [])])))) t \<noteq> None"
    using merkle_branch_fits [of "replicate 3 (JObject [(''data'', JString [])])" "replicate 3 []" H 0 t] by simp
qed

section \<open>The coinbase\<close>

lemma hex_into_prefix:
  "length a = off \<Longrightarrow> length old = length bs \<Longrightarrow>
     hex_into (a @ old @ rest) off (bin2hex bs @ tail) (length bs) = Some (a @ bs @ rest)"
  unfolding hex_into_def hex2bin_loop_prefix append_Nil by (rule poke_at)

text \<open>The template's coinbase gets eight bytes for the extra nonce at the end of its script: for a
  coinbase transaction with its script length at byte 41, the length is raised by eight, the
  eight bytes follow the script, the rest of the transaction is unchanged, and the offset that
  the nonce is later written at points to them. From 248 on the length wraps.\<close>

theorem coinbase_extended:
  assumes "length pre = 41" and "length script = unat n" and "unat n + 8 < 256"
  shows "\<exists>pad. gbt_coinbase (bin2hex (pre @ [n] @ script @ rest)) =
    Some (pre @ [n + 8] @ script @ replicate 8 0 @ rest @ pad, 42 + unat n)"
proof -
  let ?cb = "pre @ [n] @ script @ rest"
  let ?len = "42 + unat n + length rest"
  have len: "length (bin2hex ?cb) div 2 = ?len" using assms(1,2) by (simp add: length_bin2hex)
  have "?len + 8 \<le> align_len (?len + 8 + 1)" using align_len_ge [of "?len + 8 + 1"] by linarith
  then obtain r where r: "align_len (?len + 8 + 1) = ?len + 8 + r" using le_Suc_ex by blast
  let ?zeros = "replicate (unat n) 0 @ replicate 8 0 @ replicate (length rest) 0 @ replicate r 0 :: u8 list"
  have z: "replicate (?len + 8 + r) 0 = [] @ replicate 42 0 @ ?zeros"
    by (simp add: replicate_add [symmetric] add.commute add.left_commute)
  have b: "bin2hex ?cb = bin2hex (pre @ [n]) @ bin2hex (script @ rest)"
    by (simp only: bin2hex_append append_assoc)
  have s1: "hex_into (replicate (?len + 8 + r) 0) 0 (bin2hex ?cb) 42 = Some ((pre @ [n]) @ ?zeros)"
    unfolding z b using hex_into_prefix [of "[]" 0 "replicate 42 0" "pre @ [n]" ?zeros "bin2hex (script @ rest)"] assms(1)
    by simp
  have at: "string_at (bin2hex ?cb) 84 = Some (bin2hex script @ bin2hex rest)"
    using drop_bin2hex [of 42 ?cb] assms(1) by (simp add: string_at_def length_bin2hex bin2hex_append)
  have s2: "hex_into ((pre @ [n]) @ ?zeros) 42 (bin2hex script @ bin2hex rest) (unat n) =
      Some ((pre @ [n]) @ script @ replicate 8 0 @ replicate (length rest) 0 @ replicate r 0)"
    using hex_into_prefix [of "pre @ [n]" 42 "replicate (unat n) 0" script] assms(1,2) by simp
  have up: "((pre @ [n]) @ xs)[41 := n + 8] = (pre @ [n + 8]) @ xs" for xs
    using assms(1) by (simp add: list_update_append nth_append)
  have at2: "string_at (bin2hex ?cb) (84 + unat n * 2) = Some (bin2hex rest)"
    using drop_bin2hex [of "42 + unat n" ?cb] assms(1,2)
    by (simp add: string_at_def length_bin2hex bin2hex_append mult.commute)
  have n8: "unat (n + 8) = unat n + 8" using assms(3) by (simp add: unat_word_ariths(1))
  have s3: "hex_into ((pre @ [n + 8]) @ script @ replicate 8 0 @ replicate (length rest) 0 @ replicate r 0)
      (42 + unat (((pre @ [n + 8]) @ script @ replicate 8 0 @ replicate (length rest) 0 @ replicate r 0) ! 41))
      (bin2hex rest) (?len - unat n - 42) =
      Some (pre @ [n + 8] @ script @ replicate 8 0 @ rest @ replicate r 0)"
    using hex_into_prefix [of "pre @ [n + 8] @ script @ replicate 8 0" "50 + unat n" "replicate (length rest) 0" rest
        "replicate r 0" "[]"] assms(1,2)
    by (simp add: nth_append n8)
  have i: "((pre @ [n]) @ xs) ! 41 = n" for xs using assms(1) by (simp add: nth_append)
  have "gbt_coinbase (bin2hex ?cb) = Some (pre @ [n + 8] @ script @ replicate 8 0 @ rest @ replicate r 0, unat n + 42)"
    unfolding gbt_coinbase_def Let_def len r s1 option.case at i s2 up at2 s3 by simp
  then show ?thesis by (intro exI [of _ "replicate r 0"]) (simp add: add.commute)
qed


section \<open>The header commits to the transactions\<close>

lemma pair_level_lengths:
  assumes "\<forall>m\<in>set hs. length m = 32" shows "\<forall>m\<in>set (pair_level dsha hs). length m = 32"
proof -
  have "\<forall>m\<in>set (foldl (\<lambda>hs k. hs[k := dsha (f hs k)]) hs ks). length m = 32"
    if "\<forall>m\<in>set hs. length m = 32" for hs :: "u8 list list" and f and ks :: "nat list"
    using that
  proof (induction ks arbitrary: hs)
    case (Cons k ks)
    have "\<forall>m\<in>set (hs[k := dsha (f hs k)]). length m = 32"
      using Cons.prems set_update_subset_insert [of hs k "dsha (f hs k)"] by (auto simp: layout)
    then show ?case using Cons.IH by simp
  qed simp
  from this [OF assms] show ?thesis by (simp add: pair_level_def)
qed

lemma merkle_loop_lengths:
  "\<forall>m\<in>set hs \<union> set mb. length m = 32 \<Longrightarrow> hs \<noteq> [] \<Longrightarrow> \<forall>m\<in>set (merkle_loop dsha hs mb). length m = 32"
proof (induction "length hs" arbitrary: hs mb rule: less_induct)
  case less
  show ?case
  proof (cases "length hs \<le> 1")
    case True
    then show ?thesis using less.prems by (subst merkle_loop.simps) simp
  next
    case False
    then obtain hs' n where e: "merkle_loop dsha hs mb = merkle_loop dsha hs' (mb @ [hs ! 1])"
      "length hs' = (length hs + 1) div 2" "hs' \<noteq> []"
      "hs' = take n (pair_level dsha (if odd (length hs) then hs @ [last hs] else hs))"
      by (rule merkle_loop_step) blast
    have "\<forall>m\<in>set (if odd (length hs) then hs @ [last hs] else hs). length m = 32"
      using less.prems by auto
    then have n: "\<forall>m\<in>set hs'. length m = 32"
      using pair_level_lengths unfolding e(4) by (meson in_set_takeD)
    have "hs ! 1 \<in> set hs" using False by simp
    then have h: "length (hs ! 1) = 32" using less.prems(1) by blast
    have "length hs' < length hs" unfolding e(2) using False by linarith
    moreover have "\<forall>m\<in>set hs' \<union> set (mb @ [hs ! 1]). length m = 32"
    proof
      fix m assume "m \<in> set hs' \<union> set (mb @ [hs ! 1])"
      then consider "m \<in> set hs'" | "m \<in> set mb" | "m = hs ! 1" by auto
      then show "length m = 32" using n h less.prems(1) by cases blast+
    qed
    ultimately show ?thesis unfolding e(1) by (rule less.hyps [OF _ _ e(3)])
  qed
qed

definition template_header :: "template \<Rightarrow> u8 list \<Rightarrow> u8 list" where
  "template_header t root = g_version t @ g_previousblockhash t @ root @ g_curtime t @ g_bits t @ replicate 4 0 @
     [0, 0, 0, 0x80] @ replicate 40 0 @ [0x80, 2, 0, 0]"

text \<open>A decoded template, with the parts of its coinbase around the extra nonce.\<close>

definition template_ok :: "template \<Rightarrow> u8 list \<Rightarrow> u8 list \<Rightarrow> u8 list list \<Rightarrow> bool" where
  "template_ok t a b hashes \<longleftrightarrow> length (g_version t) = 4 \<and> length (g_previousblockhash t) = 32 \<and>
     length (g_curtime t) = 4 \<and> length (g_bits t) = 4 \<and> g_n2size t = 8 \<and>
     g_nonce2_offset t = length a \<and> g_coinbase_len t = length a + 8 + length b \<and>
     (\<exists>old pad. g_coinbase t = a @ old @ b @ pad \<and> length old = 8) \<and> g_coinbase_len t < 2 ^ 29 \<and>
     (\<forall>h\<in>set hashes. length h = 32) \<and> g_merklebin t = merkle_loop dsha (replicate 32 0 # hashes) []"

lemma hash_of_dsha: "locals_ok l \<Longrightarrow> length m < 2 ^ 29 \<Longrightarrow> hash_of l m = dsha m"
  unfolding hash_of_def by (intro gen_hash_dsha) (simp_all add: locals_ok_def)

lemma template_root:
  assumes "locals_ok l" and "length cb < 2 ^ 29" and "\<forall>h\<in>set hashes. length h = 32"
  shows "merkleroot (hash_of l) cb (merkle_loop dsha (replicate 32 0 # hashes) []) =
    merkle_tree dsha (dsha cb # hashes)"
proof -
  have "merkleroot (hash_of l) cb (merkle_loop dsha (replicate 32 0 # hashes) []) =
      merkleroot dsha cb (merkle_loop dsha (replicate 32 0 # hashes) [])"
  proof (rule merkleroot_cong)
    show "hash_of l m = dsha m" if "length m = length cb \<or> length m = 64" for m
      using that assms(2) by (intro hash_of_dsha [OF assms(1)]) auto
    show "\<forall>m\<in>set (merkle_loop dsha (replicate 32 0 # hashes) []). length m = 32"
      using merkle_loop_lengths [of "replicate 32 0 # hashes" "[]"] assms(3) by auto
  qed simp
  then show ?thesis
    using merkle_loop_tree [of "replicate 32 0 # hashes" dsha "dsha cb" "[]"] by (simp add: merkleroot_def)
qed

lemma template_data:
  assumes "length d = 128" "length v = 4" "length p = 32" "length c = 4" "length b = 4" "length r = 32"
  shows "let d1 = memcpy_at (memcpy_at (memcpy_at (memcpy_at d 0 v) 4 p) (4 + 32 + 32) c) (4 + 32 + 32 + 4) b
    in memcpy_at (memcpy_at (memcpy_at d1 (4 + 32) (flip32 (sub_list d1 (4 + 32) 32) r)) (4 + 32 + 32 + 4 + 4)
        (replicate 4 0)) (4 + 32 + 32 + 4 + 4 + 4) (fst (hex2bin_loop [] workpadding 48)) =
      v @ p @ rev_words r @ c @ b @ replicate 4 0 @ [0, 0, 0, 0x80] @ replicate 40 0 @ [0x80, 2, 0, 0]"
proof -
  let ?d1 = "memcpy_at (memcpy_at (memcpy_at (memcpy_at d 0 v) 4 p) (4 + 32 + 32) c) (4 + 32 + 32 + 4) b"
  have d1: "?d1 = v @ p @ sub_list d 36 32 @ c @ b @ drop 76 d"
    using assms by (simp add: memcpy_at_def sub_list_def drop_take)
  have "length (sub_list ?d1 36 32) = 32" using assms unfolding d1 by (simp add: sub_list_def layout)
  then have f: "flip32 (sub_list ?d1 36 32) r = rev_words r"
    unfolding flip32_def using assms(6) by (intro flip_whole) simp_all
  have w: "fst (hex2bin_loop [] workpadding 48) = [0, 0, 0, 0x80] @ replicate 40 0 @ [0x80, 2, 0, 0]"
    using hex2bin_loop_prefix [of "[]" "[0, 0, 0, 0x80] @ replicate 40 0 @ [0x80, 2, 0, 0]" "[]"]
    by (simp add: bin2hex_padding)
  show ?thesis unfolding Let_def
    using assms f w unfolding d1 by (simp add: memcpy_at_def layout)
qed

text \<open>The header made from a block template commits to the whole block: its merkle root is the
  root of the tree over the coinbase, with the extra nonce in it, and every transaction of the
  template; the other fields are the template's, the nonce is zero, and the padding that
  hashing needs follows. The work carries that coinbase, and the next item has the next extra
  nonce.\<close>

theorem template_work_commits:
  assumes "template_ok t a b hashes" and "locals_ok (m_locals s)" and "length (w_data w) = 128"
  shows "\<exists>t' w' s'. gen_gbt_work now pool t w s = Some (t', w', s') \<and>
    w_data w' = template_header t (rev_words (merkle_tree dsha (dsha (a @ le64_bytes (g_nonce2 t) @ b) # hashes))) \<and>
    w_coinbase w' = Some (bin2hex (a @ le64_bytes (g_nonce2 t) @ b)) \<and> w_target w' = g_target t \<and>
    w_pool w' = Some pool \<and> w_gbt w' \<and> g_nonce2 t' = g_nonce2 t + 1 \<and> template_ok t' a b hashes"
proof -
  let ?cb = "a @ le64_bytes (g_nonce2 t) @ b"
  let ?l = "m_locals s"
  obtain old pad where cb: "g_coinbase t = a @ old @ b @ pad" "length old = 8"
    using assms(1) by (auto simp: template_ok_def)
  have n: "take (g_n2size t) (le64_bytes (g_nonce2 t)) = le64_bytes (g_nonce2 t)"
    using assms(1) by (simp add: template_ok_def layout)
  have p: "poke (g_coinbase t) (int (g_nonce2_offset t)) (le64_bytes (g_nonce2 t)) =
      Some (a @ le64_bytes (g_nonce2 t) @ b @ pad)"
    unfolding cb(1) using assms(1) cb(2) by (intro poke_at) (simp_all add: template_ok_def layout)
  have tk: "take (g_coinbase_len t) (a @ le64_bytes (g_nonce2 t) @ b @ pad) = ?cb"
    using assms(1) by (simp add: template_ok_def layout)
  have "length ?cb < 2 ^ 29" using assms(1) by (simp add: template_ok_def layout)
  then have root: "merkleroot (hash_of ?l) ?cb (g_merklebin t) = merkle_tree dsha (dsha ?cb # hashes)"
    using template_root [OF assms(2)] assms(1) by (simp add: template_ok_def)
  have len: "length (merkle_tree dsha (dsha ?cb # hashes)) = 32"
    using length_merkleroot [of ?cb "merkle_loop dsha (replicate 32 0 # hashes) []"]
      merkle_loop_tree [of "replicate 32 0 # hashes" dsha "dsha ?cb" "[]"] by (simp add: merkleroot_def)
  have L: "length (g_version t) = 4" "length (g_previousblockhash t) = 32" "length (g_curtime t) = 4"
    "length (g_bits t) = 4"
    using assms(1) by (simp_all add: template_ok_def)
  note d = template_data [OF assms(3) L len, unfolded Let_def]
  have d': "w_data w' = template_header t (rev_words (merkle_tree dsha (dsha ?cb # hashes)))"
    if "gen_gbt_work now pool t w s = Some (t', w', s')" for t' w' s'
    using that unfolding template_header_def d [symmetric]
    by (auto simp: gen_gbt_work_def Let_def n p tk root simp del: take_append split: option.splits)
  obtain t' w' s' where g: "gen_gbt_work now pool t w s = Some (t', w', s')"
    by (simp add: gen_gbt_work_def Let_def n p)
  then have "w_coinbase w' = Some (bin2hex ?cb)" "w_target w' = g_target t" "w_pool w' = Some pool" "w_gbt w'"
    "t' = t\<lparr>g_coinbase := a @ le64_bytes (g_nonce2 t) @ b @ pad, g_nonce2 := g_nonce2 t + 1\<rparr>"
    by (auto simp: gen_gbt_work_def Let_def n p tk simp del: take_append split: option.splits)
  moreover have "template_ok t' a b hashes"
    using calculation(5) assms(1) by (auto simp: template_ok_def layout)
  ultimately show ?thesis using g d' [OF g] by auto
qed

definition demo_template :: template where
  "demo_template = \<lparr>g_previousblockhash = replicate 32 1, g_target = replicate 32 2, g_coinbasetxn = [],
     g_longpollid = [], g_workid = None, g_expires = 60, g_version = [0, 0, 0, 2], g_curtime = [5, 6, 7, 8],
     g_bits = [0x1d, 0, 0xff, 0xff], g_submit_old = False, g_n2size = 8, g_nonce2 = 77, g_nonce2_offset = 2,
     g_coinbase = [1, 2] @ replicate 8 0 @ [3], g_coinbase_len = 11, g_merklebin = [], g_transactions = 0,
     g_txn_data = None, g_gbt_txns = 0, g_lastwork = 0\<rparr>"

lemma demo_template_ok: "template_ok demo_template [1, 2] [3] []"
proof -
  have "merkle_loop dsha (replicate 32 0 # []) [] = []" by (subst merkle_loop.simps) simp
  moreover have "\<exists>old pad. g_coinbase demo_template = [1, 2] @ old @ [3] @ pad \<and> length old = 8"
    by (intro exI [of _ "replicate 8 0"] exI [of _ "[]"]) (simp add: demo_template_def)
  ultimately show ?thesis unfolding template_ok_def by (simp add: demo_template_def)
qed

theorem template_work_commits_witness:
  "\<exists>t' w' s'. gen_gbt_work 3 4 demo_template zero_work demo_miner = Some (t', w', s') \<and>
     w_coinbase w' = Some (bin2hex ([1, 2] @ le64_bytes 77 @ [3])) \<and> g_nonce2 t' = 78"
  using template_work_commits [OF demo_template_ok demo_locals_ok, of zero_work 3 4]
  by (fastforce simp: zero_work_def demo_template_def)

theorem coinbase_extended_witness:
  "\<exists>pad. gbt_coinbase (bin2hex (replicate 41 5 @ [2] @ [7, 8] @ [9])) =
    Some (replicate 41 5 @ [10] @ [7, 8] @ replicate 8 0 @ [9] @ pad, 44)"
  using coinbase_extended [of "replicate 41 5" "[7, 8]" 2 "[9]"] by simp

end
