(* ===== verification/Stratum_Share.thy ===== *)
theory Stratum_Share
  imports Share_Submit Stratum_Work Pool_Control
begin

text \<open>
  Shares on their way to a stratum pool, from \<open>src/cgminer/cgminer.c\<close>: the send thread
  (\<open>stratum_sthread\<close>), the table of shares without an answer (\<open>stratum_shares\<close>), the
  answers (\<open>parse_stratum_response\<close>, \<open>share_result\<close>), the loss of a connection
  (\<open>clear_stratum_shares\<close>) and of an answer (\<open>prune_stratum_shares\<close>).

  The send threads, the receive threads and the watchdog run at the same time: a step is what one
  of them does between two points where it sleeps or waits for the lock of the table. \<open>None\<close> is a
  memory fault. Sums of doubles, the comparison of a double with an integer and the difficulty of
  an item, which is a double, are the fields of \<open>env\<close>, with the options.
\<close>

section \<open>The state\<close>

record sshare =
  ss_id :: u32
  ss_work :: work
  ss_time :: int
  ss_sent :: int

record tally =
  t_accepted :: int
  t_rejected :: int
  t_diff_accepted :: dbl
  t_diff_rejected :: dbl

record pool_stat =
  po_tally :: tally
  seq_rejects :: nat
  last_share_time :: int
  last_share_diff :: dbl
  po_diff_stale :: dbl
  submit_fail :: bool
  remotefail_occasions :: u32

record cgpu_stat =
  cg_tally :: tally
  cg_last_pool :: nat
  cg_last_time :: int
  cg_last_diff :: dbl

text \<open>What the send thread of a pool holds: nothing, a share it tries to send, or the pointer to a
  share it has entered in the table.\<close>

datatype sender = Idle | Sending sshare | Entered u32

record shares_state =
  sh_miner :: miner
  conn :: "nat \<Rightarrow> stratum"
  sender_of :: "nat \<Rightarrow> sender"
  stratum_shares :: "sshare list"
  swork_id :: u32
  sh_total :: tally
  total_diff_stale :: dbl
  total_ro :: u32
  pool_stat :: "nat \<Rightarrow> pool_stat"
  cgpu_stat :: "nat \<Rightarrow> cgpu_stat"
  killed :: bool

record env =
  fadd :: "dbl \<Rightarrow> dbl \<Rightarrow> dbl"
  work_difficulty :: "work \<Rightarrow> dbl"
  shares_reached :: "dbl \<Rightarrow> bool"
  over_utility :: "nat \<Rightarrow> int \<Rightarrow> bool"
  thr_cgpu :: "int \<Rightarrow> nat"
  rpc_user :: "nat \<Rightarrow> u8 list"
  opt_quiet :: bool
  opt_disable_pool :: bool
  opt_lowmem :: bool

definition on_miner :: "(miner \<Rightarrow> miner) \<Rightarrow> shares_state \<Rightarrow> shares_state" where
  "on_miner f s = s\<lparr>sh_miner := f (sh_miner s)\<rparr>"

definition on_pools :: "(pools_state \<Rightarrow> pools_state) \<Rightarrow> miner \<Rightarrow> miner" where
  "on_pools f m = m\<lparr>m_pools := f (m_pools m)\<rparr>"

definition upd_stat :: "nat \<Rightarrow> (pool_stat \<Rightarrow> pool_stat) \<Rightarrow> shares_state \<Rightarrow> shares_state" where
  "upd_stat a f s = s\<lparr>pool_stat := (pool_stat s)(a := f (pool_stat s a))\<rparr>"

definition upd_cgpu :: "nat \<Rightarrow> (cgpu_stat \<Rightarrow> cgpu_stat) \<Rightarrow> shares_state \<Rightarrow> shares_state" where
  "upd_cgpu c f s = s\<lparr>cgpu_stat := (cgpu_stat s)(c := f (cgpu_stat s c))\<rparr>"

definition set_sender :: "nat \<Rightarrow> sender \<Rightarrow> shares_state \<Rightarrow> shares_state" where
  "set_sender a x s = s\<lparr>sender_of := (sender_of s)(a := x)\<rparr>"

definition add_sshares :: "nat \<Rightarrow> int \<Rightarrow> shares_state \<Rightarrow> shares_state" where
  "add_sshares a n = on_miner (on_pools (upd_pool a (\<lambda>p. p\<lparr>sshares := sshares p + n\<rparr>)))"

definition add_stale :: "nat \<Rightarrow> nat \<Rightarrow> shares_state \<Rightarrow> shares_state" where
  "add_stale a n = on_miner (\<lambda>m. upd_pool_work a (\<lambda>p. p\<lparr>p_stale_shares := p_stale_shares p + of_nat n\<rparr>)
     (m\<lparr>total_stale := total_stale m + int n\<rparr>))"

text \<open>\<open>switch_pools (NULL)\<close> with its effect on the staged work.\<close>

definition switch_away :: "miner \<Rightarrow> miner" where
  "switch_away m =
     (let last_pool = currentpool (m_pools m);
          (p, clear) = switch_pools None (m_pools m);
          m = m\<lparr>m_pools := p\<rparr>
      in if clear then clear_pool_work last_pool m else m)"

section \<open>The result of a share\<close>

definition count_accepted :: "env \<Rightarrow> dbl \<Rightarrow> tally \<Rightarrow> tally" where
  "count_accepted e d t = t\<lparr>t_accepted := t_accepted t + 1, t_diff_accepted := fadd e (t_diff_accepted t) d\<rparr>"

definition count_rejected :: "env \<Rightarrow> dbl \<Rightarrow> tally \<Rightarrow> tally" where
  "count_rejected e d t = t\<lparr>t_rejected := t_rejected t + 1, t_diff_rejected := fadd e (t_diff_rejected t) d\<rparr>"

definition share_accepted :: "env \<Rightarrow> int \<Rightarrow> work \<Rightarrow> shares_state \<Rightarrow> shares_state" where
  "share_accepted e now w s =
     (let a = the (w_pool w);
          d = work_difficulty e w;
          s = upd_cgpu (thr_cgpu e (w_thr_id w)) (\<lambda>c. c\<lparr>cg_tally := count_accepted e d (cg_tally c),
                cg_last_pool := pool_no (ps_pool (m_pools (sh_miner s)) a), cg_last_time := now, cg_last_diff := d\<rparr>) s;
          s = s\<lparr>sh_total := count_accepted e d (sh_total s)\<rparr>;
          s = upd_stat a (\<lambda>p. p\<lparr>po_tally := count_accepted e d (po_tally p), seq_rejects := 0,
                last_share_time := now, last_share_diff := d\<rparr>) s
      in if shares_reached e (t_diff_accepted (sh_total s)) then s\<lparr>killed := True\<rparr>
         else
           let s = (if enabled (ps_pool (m_pools (sh_miner s)) a) = POOL_REJECTING
                    then on_miner (\<lambda>m. switch_away (on_pools (enable_pool a) m)) s else s)
           in if w_block w then on_miner restart_threads s else s)"

text \<open>
  The reason shown for a reject. The text of \<open>reject-reason\<close>, or of the result of a block
  template, is read without testing that it is a string. The second component is the word for
  the share log.
\<close>

definition reject_reason ::
    "json option \<Rightarrow> json option \<Rightarrow> json option \<Rightarrow> work \<Rightarrow> (u8 list \<times> u8 list) option" where
  "reject_reason val res err w =
     (let res = (if w_gbt w then res else json_object_get val ''reject-reason'')
      in if res \<noteq> None then
           (case json_string_value res of
              None \<Rightarrow> None
            | Some r \<Rightarrow> Some (chars '' ('' @ take 28 r @ chars '')'', chars ''reject:'' @ take 28 r))
         else if w_stratum w \<and> json_is_array err then
           (case json_string_value (json_array_get err 1) of
              None \<Rightarrow> Some ([], chars ''reject'')
            | Some r \<Rightarrow> Some (take 30 (chars '' ('' @ r @ chars '')''), chars ''reject''))
         else Some ([], chars ''reject''))"

definition share_rejected ::
    "env \<Rightarrow> json option \<Rightarrow> json option \<Rightarrow> json option \<Rightarrow> work \<Rightarrow> shares_state \<Rightarrow> shares_state option" where
  "share_rejected e val res err w s =
     (let a = the (w_pool w);
          d = work_difficulty e w;
          s = upd_cgpu (thr_cgpu e (w_thr_id w)) (\<lambda>c. c\<lparr>cg_tally := count_rejected e d (cg_tally c)\<rparr>) s;
          s = s\<lparr>sh_total := count_rejected e d (sh_total s)\<rparr>;
          s = upd_stat a (\<lambda>p. p\<lparr>po_tally := count_rejected e d (po_tally p), seq_rejects := seq_rejects p + 1\<rparr>) s
      in if \<not> opt_quiet e \<and> reject_reason val res err w = None then None
         else
           let n = seq_rejects (pool_stat s a)
           in Some (if n > 10 \<and> \<not> w_stale w \<and> opt_disable_pool e \<and> enabled_pools (m_pools (sh_miner s)) > 1 \<and>
                       over_utility e n (t_accepted (sh_total s))
                    then
                      let s = on_miner (on_pools (reject_pool a)) s;
                          s = (if a = currentpool (m_pools (sh_miner s)) then on_miner switch_away s else s)
                      in upd_stat a (\<lambda>p. p\<lparr>seq_rejects := 0\<rparr>) s
                    else s))"

definition share_result ::
    "env \<Rightarrow> int \<Rightarrow> json option \<Rightarrow> json option \<Rightarrow> json option \<Rightarrow> work \<Rightarrow> shares_state \<Rightarrow> shares_state option" where
  "share_result e now val res err w s =
     (if json_is_true res \<or> w_gbt w \<and> json_is_null res then Some (share_accepted e now w s)
      else share_rejected e val res err w s)"

section \<open>Sending a share\<close>

function dec_nat :: "nat \<Rightarrow> u8 list" where
  "dec_nat n = (if n < 10 then [] else dec_nat (n div 10)) @ [0x30 + of_nat (n mod 10)]"
  by pat_completeness auto
termination by (relation "measure id") auto

declare dec_nat.simps [simp del]

definition dec_int :: "u32 \<Rightarrow> u8 list" where
  "dec_int i = (if sint i < 0 then 0x2D # dec_nat (nat (- sint i)) else dec_nat (nat (sint i)))"

text \<open>\<open>%s\<close> with a null pointer.\<close>

definition text_arg :: "u8 list option \<Rightarrow> u8 list" where
  "text_arg x = (case x of None \<Rightarrow> chars ''(null)'' | Some t \<Rightarrow> t)"

definition submit_nonce_hex :: "work \<Rightarrow> u8 list" where
  "submit_nonce_hex w = bin2hex (sub_list (w_data w) 76 4)"

definition submit_nonce2_hex :: "work \<Rightarrow> u8 list" where
  "submit_nonce2_hex w = bin2hex (take (w_nonce2_len w) (le64_bytes (w_nonce2 w)))"

definition submit_request :: "u8 list \<Rightarrow> work \<Rightarrow> u32 \<Rightarrow> u8 list" where
  "submit_request user w i =
     chars ''{\"params\": [\"'' @ user @ chars ''\", \"'' @ text_arg (w_job_id w) @ chars ''\", \"'' @
     submit_nonce2_hex w @ chars ''\", \"'' @ text_arg (w_ntime w) @ chars ''\", \"'' @ submit_nonce_hex w @
     chars ''\"], \"id\": '' @ dec_int i @ chars '', \"method\": \"mining.submit\"}''"

text \<open>\<open>snprintf\<close> into a buffer of 1024 bytes.\<close>

definition submit_text :: "u8 list \<Rightarrow> work \<Rightarrow> u32 \<Rightarrow> u8 list" where
  "submit_text user w i = take 1023 (submit_request user w i)"

text \<open>
  The turns of \<open>stratum_sthread\<close>: \<open>submit_begin\<close> takes an item from the queue and numbers it,
  \<open>submit_attempt\<close> is one turn of the loop that tries to send it, at the time \<open>now\<close> and with the
  result of \<open>stratum_send\<close>; \<open>submit_stamp\<close> writes the time of sending into the share, which
  meanwhile is in the table.
\<close>

definition submit_begin :: "nat \<Rightarrow> int \<Rightarrow> shares_state \<Rightarrow> shares_state" where
  "submit_begin a now s =
     (case tq_pop_enter (p_stratum_q (m_pool (sh_miner s) a)) of
        None \<Rightarrow> s
      | Some (w, q) \<Rightarrow>
          let s = on_miner (upd_pool_work a (\<lambda>p. p\<lparr>p_stratum_q := q\<rparr>)) s
          in if w_nonce2_len w > 8 then s
             else set_sender a (Sending \<lparr>ss_id = swork_id s, ss_work = w, ss_time = now, ss_sent = 0\<rparr>)
                    (s\<lparr>swork_id := swork_id s + 1\<rparr>))"

definition discard_share :: "nat \<Rightarrow> shares_state \<Rightarrow> shares_state" where
  "discard_share a s = add_stale a 1 (set_sender a Idle s)"

definition session_match :: "nat \<Rightarrow> work \<Rightarrow> shares_state \<Rightarrow> bool" where
  "session_match a w s \<longleftrightarrow> (case t_nonce1 (conn s a) of None \<Rightarrow> False | Some n \<Rightarrow> w_nonce1 w = Some n)"

definition submit_attempt :: "env \<Rightarrow> nat \<Rightarrow> int \<Rightarrow> bool \<Rightarrow> sshare \<Rightarrow> shares_state \<Rightarrow> shares_state" where
  "submit_attempt e a now sent sh s =
     (if \<not> now < ss_time sh + 120 then discard_share a s
      else if sent then
        let s = upd_stat a (\<lambda>p. p\<lparr>submit_fail := False\<rparr>) s;
            s = s\<lparr>stratum_shares := stratum_shares s @ [sh]\<rparr>
        in set_sender a (Entered (ss_id sh)) (add_sshares a 1 s)
      else
        let failed = submit_fail (pool_stat s a);
            s = upd_stat a (\<lambda>p. p\<lparr>submit_fail := True\<rparr>) s;
            s = (if \<not> failed \<and> cnx_needed a (m_pools (sh_miner s))
                 then upd_stat a (\<lambda>p. p\<lparr>remotefail_occasions := remotefail_occasions p + 1\<rparr>)
                        (s\<lparr>total_ro := total_ro s + 1\<rparr>)
                 else s)
        in if opt_lowmem e then discard_share a s
           else if \<not> session_match a (ss_work sh) s then discard_share a s
           else s)"

definition submit_stamp :: "nat \<Rightarrow> int \<Rightarrow> u32 \<Rightarrow> shares_state \<Rightarrow> shares_state option" where
  "submit_stamp a now i s =
     (if i \<notin> set (map ss_id (stratum_shares s)) then None
      else Some (set_sender a Idle (s\<lparr>stratum_shares :=
        map (\<lambda>x. if ss_id x = i then x\<lparr>ss_sent := now\<rparr> else x) (stratum_shares s)\<rparr>)))"

section \<open>Answers\<close>

fun hash_del :: "u32 \<Rightarrow> sshare list \<Rightarrow> (sshare \<times> sshare list) option" where
  "hash_del i [] = None"
| "hash_del i (x # xs) =
     (if ss_id x = i then Some (x, xs) else map_option (\<lambda>(y, ys). (y, x # ys)) (hash_del i xs))"

text \<open>An answer to a share that is not in the table is counted for the pool that sent it.\<close>

definition untracked_result :: "env \<Rightarrow> nat \<Rightarrow> json option \<Rightarrow> shares_state \<Rightarrow> shares_state" where
  "untracked_result e a res s =
     (let d = t_sdiff (conn s a)
      in if json_is_true res
         then upd_stat a (\<lambda>p. p\<lparr>po_tally := count_accepted e d (po_tally p)\<rparr>)
                (s\<lparr>sh_total := count_accepted e d (sh_total s)\<rparr>)
         else upd_stat a (\<lambda>p. p\<lparr>po_tally := count_rejected e d (po_tally p)\<rparr>)
                (s\<lparr>sh_total := count_rejected e d (sh_total s)\<rparr>))"

text \<open>The message is given as parsed, or \<open>None\<close> when it is not JSON.\<close>

definition parse_stratum_response ::
    "env \<Rightarrow> int \<Rightarrow> nat \<Rightarrow> json option \<Rightarrow> shares_state \<Rightarrow> (bool \<times> shares_state) option" where
  "parse_stratum_response e now a val s =
     (if val = None then Some (False, s)
      else
        let res_val = json_object_get val ''result'';
            err_val = json_object_get val ''error'';
            id_val = json_object_get val ''id''
        in if json_is_null id_val \<or> id_val = None then Some (False, s)
           else
             case hash_del (word_of_int (json_integer_value id_val)) (stratum_shares s) of
               None \<Rightarrow> Some (False, untracked_result e a res_val s)
             | Some (sh, rest) \<Rightarrow>
                 let s = add_sshares a (- 1) (s\<lparr>stratum_shares := rest\<rparr>)
                 in map_option (\<lambda>s. (True, s)) (share_result e now val res_val err_val (ss_work sh) s))"

section \<open>Shares given up\<close>

definition own_share :: "nat \<Rightarrow> sshare \<Rightarrow> bool" where
  "own_share a x \<longleftrightarrow> w_pool (ss_work x) = Some a"

definition clear_stratum_shares :: "env \<Rightarrow> nat \<Rightarrow> shares_state \<Rightarrow> shares_state" where
  "clear_stratum_shares e a s =
     (let lost = filter (own_share a) (stratum_shares s);
          diff_cleared = foldl (\<lambda>d x. fadd e d (work_difficulty e (ss_work x))) 0 lost;
          cleared = length lost;
          s = add_sshares a (- int cleared) (s\<lparr>stratum_shares := filter (\<lambda>x. \<not> own_share a x) (stratum_shares s)\<rparr>)
      in if cleared \<noteq> 0
         then add_stale a cleared (upd_stat a (\<lambda>p. p\<lparr>po_diff_stale := fadd e (po_diff_stale p) diff_cleared\<rparr>)
                (s\<lparr>total_diff_stale := fadd e (total_diff_stale s) diff_cleared\<rparr>))
         else s)"

definition prune_stratum_shares :: "nat \<Rightarrow> int \<Rightarrow> shares_state \<Rightarrow> shares_state" where
  "prune_stratum_shares a now s =
     (let old = (\<lambda>x. own_share a x \<and> now > ss_time x + 120);
          cleared = length (filter old (stratum_shares s));
          s = s\<lparr>stratum_shares := filter (\<lambda>x. \<not> old x) (stratum_shares s)\<rparr>
      in if cleared \<noteq> 0 then add_stale a cleared s else s)"

section \<open>Runs\<close>

text \<open>
  What the threads do, one event each. \<open>Again a\<close> and \<open>Stamp a\<close> are turns of the send thread of
  pool \<open>a\<close>, which does nothing else while it holds a share.
\<close>

datatype share_event =
    Begin nat int
  | Attempt nat int bool
  | Stamp nat int
  | Answer nat int "json option"
  | Lost nat
  | Prune nat int

fun share_step :: "env \<Rightarrow> share_event \<Rightarrow> shares_state \<Rightarrow> shares_state option" where
  "share_step e (Begin a now) s =
     Some (case sender_of s a of Idle \<Rightarrow> submit_begin a now s | _ \<Rightarrow> s)"
| "share_step e (Attempt a now sent) s =
     Some (case sender_of s a of Sending sh \<Rightarrow> submit_attempt e a now sent sh s | _ \<Rightarrow> s)"
| "share_step e (Stamp a now) s =
     (case sender_of s a of Entered i \<Rightarrow> submit_stamp a now i s | _ \<Rightarrow> Some s)"
| "share_step e (Answer a now val) s = map_option snd (parse_stratum_response e now a val s)"
| "share_step e (Lost a) s = Some (clear_stratum_shares e a s)"
| "share_step e (Prune a now) s = Some (prune_stratum_shares a now s)"

fun share_run :: "env \<Rightarrow> share_event list \<Rightarrow> shares_state \<Rightarrow> shares_state option" where
  "share_run e [] s = Some s"
| "share_run e (ev # evs) s = (case share_step e ev s of None \<Rightarrow> None | Some s \<Rightarrow> share_run e evs s)"

section \<open>The account of a pool\<close>

definition pending :: "nat \<Rightarrow> shares_state \<Rightarrow> nat" where
  "pending a s = length (filter (own_share a) (stratum_shares s))"

definition in_hand :: "nat \<Rightarrow> shares_state \<Rightarrow> nat" where
  "in_hand a s = (case sender_of s a of Sending _ \<Rightarrow> 1 | _ \<Rightarrow> 0)"

text \<open>Accepted, rejected, stale, without an answer and not sent yet, as a 32-bit number, which is
  what the count of stale shares is.\<close>

definition account :: "nat \<Rightarrow> shares_state \<Rightarrow> u32" where
  "account a s = word_of_int (t_accepted (po_tally (pool_stat s a)) + t_rejected (po_tally (pool_stat s a))) +
     p_stale_shares (m_pool (sh_miner s) a) + of_nat (pending a s) + of_nat (in_hand a s)"

definition tracked :: "json option \<Rightarrow> shares_state \<Rightarrow> sshare option" where
  "tracked val s = map_option fst (hash_del (word_of_int (json_integer_value (json_object_get val ''id''))) (stratum_shares s))"

definition answers :: "json option \<Rightarrow> bool" where
  "answers val \<longleftrightarrow> val \<noteq> None \<and> json_object_get val ''id'' \<noteq> None \<and> \<not> json_is_null (json_object_get val ''id'')"

text \<open>What enters the account: a share taken for sending, and an answer to a share that is not in
  the table.\<close>

fun entry :: "nat \<Rightarrow> share_event \<Rightarrow> shares_state \<Rightarrow> nat" where
  "entry a (Begin b now) s =
     (if a = b \<and> sender_of s b = Idle then
        (case tq_q (p_stratum_q (m_pool (sh_miner s) b)) of [] \<Rightarrow> 0
         | w # ws \<Rightarrow> if w_nonce2_len w > 8 then 0 else 1) else 0)"
| "entry a (Answer b now val) s = (if a = b \<and> answers val \<and> tracked val s = None then 1 else 0)"
| "entry a _ s = 0"

fun entries :: "env \<Rightarrow> nat \<Rightarrow> share_event list \<Rightarrow> shares_state \<Rightarrow> nat" where
  "entries e a [] s = 0"
| "entries e a (ev # evs) s =
     entry a ev s + (case share_step e ev s of None \<Rightarrow> 0 | Some s \<Rightarrow> entries e a evs s)"

definition shares_ok :: "shares_state \<Rightarrow> bool" where
  "shares_ok s \<longleftrightarrow>
     (\<forall>a. \<forall>w\<in>set (tq_q (p_stratum_q (m_pool (sh_miner s) a))). w_pool w = Some a) \<and>
     (\<forall>a sh. sender_of s a = Sending sh \<longrightarrow> w_pool (ss_work sh) = Some a) \<and>
     (\<forall>x\<in>set (stratum_shares s). w_pool (ss_work x) \<noteq> None)"

named_theorems shr

lemma pool_stat_frames [shr]:
  "pool_stat (on_miner f s) = pool_stat s" "pool_stat (upd_cgpu c g s) = pool_stat s"
  "pool_stat (set_sender a x s) = pool_stat s" "pool_stat (add_sshares a n s) = pool_stat s"
  "pool_stat (add_stale a k s) = pool_stat s"
  "pool_stat (upd_stat a h s) = (pool_stat s)(a := h (pool_stat s a))"
  by (simp_all add: on_miner_def upd_cgpu_def set_sender_def add_sshares_def add_stale_def upd_stat_def)

lemma stratum_shares_frames [shr]:
  "stratum_shares (on_miner f s) = stratum_shares s" "stratum_shares (upd_cgpu c g s) = stratum_shares s"
  "stratum_shares (set_sender a x s) = stratum_shares s" "stratum_shares (add_sshares a n s) = stratum_shares s"
  "stratum_shares (add_stale a k s) = stratum_shares s" "stratum_shares (upd_stat a h s) = stratum_shares s"
  by (simp_all add: on_miner_def upd_cgpu_def set_sender_def add_sshares_def add_stale_def upd_stat_def)

lemma sender_of_frames [shr]:
  "sender_of (on_miner f s) = sender_of s" "sender_of (upd_cgpu c g s) = sender_of s"
  "sender_of (set_sender a x s) = (sender_of s)(a := x)" "sender_of (add_sshares a n s) = sender_of s"
  "sender_of (add_stale a k s) = sender_of s" "sender_of (upd_stat a h s) = sender_of s"
  by (simp_all add: on_miner_def upd_cgpu_def set_sender_def add_sshares_def add_stale_def upd_stat_def)

lemma sh_miner_frames [shr]:
  "sh_miner (on_miner f s) = f (sh_miner s)" "sh_miner (upd_cgpu c g s) = sh_miner s"
  "sh_miner (set_sender a x s) = sh_miner s" "sh_miner (upd_stat a h s) = sh_miner s"
  by (simp_all add: on_miner_def upd_cgpu_def set_sender_def upd_stat_def)

lemma m_pool_add_sshares [shr]: "m_pool (sh_miner (add_sshares a n s)) = m_pool (sh_miner s)"
  by (simp add: add_sshares_def on_miner_def on_pools_def)

lemma m_pool_add_stale [shr]:
  "m_pool (sh_miner (add_stale a n s)) =
     (m_pool (sh_miner s))(a := (m_pool (sh_miner s) a)\<lparr>p_stale_shares := p_stale_shares (m_pool (sh_miner s) a) + of_nat n\<rparr>)"
  by (simp add: add_stale_def on_miner_def upd_pool_work_def)

lemma m_pool_steps [shr]:
  "m_pool (on_pools f m) = m_pool m" "m_pool (switch_away m) = m_pool m" "m_pool (restart_threads m) = m_pool m"
  "m_pool (clear_pool_work a m) = m_pool m"
  by (simp_all add: on_pools_def switch_away_def restart_threads_def clear_pool_work_def Let_def split: prod.splits)

lemma m_pool_upd_pool_work [shr]: "m_pool (upd_pool_work a f m) = (m_pool m)(a := f (m_pool m a))"
  by (simp add: upd_pool_work_def)

lemma tally_counts [shr]:
  "t_accepted (count_accepted e d t) = t_accepted t + 1" "t_rejected (count_accepted e d t) = t_rejected t"
  "t_rejected (count_rejected e d t) = t_rejected t + 1" "t_accepted (count_rejected e d t) = t_accepted t"
  by (simp_all add: count_accepted_def count_rejected_def)

text \<open>A result is counted once, for the pool of the share.\<close>

definition settled :: "nat \<Rightarrow> shares_state \<Rightarrow> int" where
  "settled a s = t_accepted (po_tally (pool_stat s a)) + t_rejected (po_tally (pool_stat s a))"

lemma share_accepted_frame:
  "stratum_shares (share_accepted e now w s) = stratum_shares s"
  "sender_of (share_accepted e now w s) = sender_of s"
  "m_pool (sh_miner (share_accepted e now w s)) = m_pool (sh_miner s)"
  by (simp_all add: share_accepted_def Let_def shr)

lemma share_accepted_settled:
  "settled a (share_accepted e now w s) = settled a s + of_bool (a = the (w_pool w))"
  by (simp add: share_accepted_def Let_def shr settled_def)

lemma share_rejected_frame:
  assumes "share_rejected e val res err w s = Some s'"
  shows "stratum_shares s' = stratum_shares s" "sender_of s' = sender_of s"
    "m_pool (sh_miner s') = m_pool (sh_miner s)" "settled a s' = settled a s + of_bool (a = the (w_pool w))"
  using assms by (auto simp: share_rejected_def Let_def shr settled_def split: if_splits)

lemma share_result_frame:
  assumes "share_result e now val res err w s = Some s'"
  shows "stratum_shares s' = stratum_shares s" "sender_of s' = sender_of s"
    "m_pool (sh_miner s') = m_pool (sh_miner s)" "settled a s' = settled a s + of_bool (a = the (w_pool w))"
  using assms share_rejected_frame [of e val res err w s s']
  by (auto simp: share_result_def share_accepted_frame share_accepted_settled split: if_splits)

lemma untracked_frame:
  "stratum_shares (untracked_result e a res s) = stratum_shares s"
  "sender_of (untracked_result e a res s) = sender_of s"
  "m_pool (sh_miner (untracked_result e a res s)) = m_pool (sh_miner s)"
  "settled b (untracked_result e a res s) = settled b s + of_bool (b = a)"
  by (simp_all add: untracked_result_def Let_def shr settled_def)

lemma hash_del_some:
  "hash_del i xs = Some (x, ys) \<Longrightarrow> mset xs = add_mset x (mset ys) \<and> ss_id x = i \<and> set ys \<subseteq> set xs \<and> x \<in> set xs"
proof (induction xs arbitrary: ys)
  case (Cons y xs)
  then show ?case by (auto split: if_splits)
qed simp

lemma account_settled:
  "account a s = word_of_int (settled a s) + p_stale_shares (m_pool (sh_miner s) a) + of_nat (pending a s) +
     of_nat (in_hand a s)"
  by (simp add: account_def settled_def)


lemma shares_okD:
  assumes "shares_ok s"
  shows "w \<in> set (tq_q (p_stratum_q (m_pool (sh_miner s) a))) \<Longrightarrow> w_pool w = Some a"
    "sender_of s a = Sending sh \<Longrightarrow> w_pool (ss_work sh) = Some a"
    "x \<in> set (stratum_shares s) \<Longrightarrow> w_pool (ss_work x) \<noteq> None"
  using assms by (auto simp: shares_ok_def)

lemma shares_ok_frame:
  assumes "shares_ok s" and "\<And>a. p_stratum_q (m_pool (sh_miner s') a) = p_stratum_q (m_pool (sh_miner s) a)"
    and "sender_of s' = sender_of s" and "set (stratum_shares s') \<subseteq> set (stratum_shares s)"
  shows "shares_ok s'"
  using assms by (fastforce simp: shares_ok_def)

lemma clear_frame:
  "stratum_shares (clear_stratum_shares e b s) = filter (\<lambda>x. \<not> own_share b x) (stratum_shares s)"
  "sender_of (clear_stratum_shares e b s) = sender_of s"
  "settled a (clear_stratum_shares e b s) = settled a s"
  "p_stratum_q (m_pool (sh_miner (clear_stratum_shares e b s)) a) = p_stratum_q (m_pool (sh_miner s) a)"
  "p_stale_shares (m_pool (sh_miner (clear_stratum_shares e b s)) a) =
     p_stale_shares (m_pool (sh_miner s) a) + (if a = b then of_nat (pending b s) else 0)"
  by (simp_all add: clear_stratum_shares_def Let_def shr settled_def pending_def)

lemma prune_frame:
  "stratum_shares (prune_stratum_shares b now s) = filter (\<lambda>x. \<not> (own_share b x \<and> now > ss_time x + 120)) (stratum_shares s)"
  "sender_of (prune_stratum_shares b now s) = sender_of s"
  "settled a (prune_stratum_shares b now s) = settled a s"
  "p_stratum_q (m_pool (sh_miner (prune_stratum_shares b now s)) a) = p_stratum_q (m_pool (sh_miner s) a)"
  "p_stale_shares (m_pool (sh_miner (prune_stratum_shares b now s)) a) = p_stale_shares (m_pool (sh_miner s) a) +
     (if a = b then of_nat (length (filter (\<lambda>x. own_share b x \<and> now > ss_time x + 120) (stratum_shares s))) else 0)"
  by (simp_all add: prune_stratum_shares_def Let_def shr settled_def)

lemma parse_response_cases:
  assumes "parse_stratum_response e now a val s = Some (r, s')"
  obtains (ignored) "\<not> answers val" "s' = s"
  | (untracked) "answers val" "tracked val s = None" "s' = untracked_result e a (json_object_get val ''result'') s"
  | (result) sh rest where "answers val" "tracked val s = Some sh"
      "hash_del (word_of_int (json_integer_value (json_object_get val ''id''))) (stratum_shares s) = Some (sh, rest)"
      "share_result e now val (json_object_get val ''result'') (json_object_get val ''error'') (ss_work sh)
         (add_sshares a (- 1) (s\<lparr>stratum_shares := rest\<rparr>)) = Some s'"
proof (cases "answers val")
  case False
  then show ?thesis using assms ignored
    by (simp only: parse_stratum_response_def answers_def Let_def) (auto split: if_splits)
next
  case True
  have p: "parse_stratum_response e now a val s =
      (case hash_del (word_of_int (json_integer_value (json_object_get val ''id''))) (stratum_shares s) of
         None \<Rightarrow> Some (False, untracked_result e a (json_object_get val ''result'') s)
       | Some (sh, rest) \<Rightarrow> map_option (\<lambda>s. (True, s)) (share_result e now val (json_object_get val ''result'')
           (json_object_get val ''error'') (ss_work sh) (add_sshares a (- 1) (s\<lparr>stratum_shares := rest\<rparr>))))"
    using True by (simp only: parse_stratum_response_def answers_def Let_def if_False simp_thms)
  show ?thesis
  proof (cases "hash_del (word_of_int (json_integer_value (json_object_get val ''id''))) (stratum_shares s)")
    case None
    then show ?thesis using assms p True untracked by (simp add: tracked_def)
  next
    case (Some y)
    obtain sh rest where "y = (sh, rest)" by (cases y)
    then show ?thesis using assms p Some True result [of sh rest] by (simp add: tracked_def)
  qed
qed

lemma response_settled:
  assumes "share_result e now val res err w (add_sshares b (- 1) (s\<lparr>stratum_shares := rest\<rparr>)) = Some s'"
  shows "stratum_shares s' = rest" "sender_of s' = sender_of s" "m_pool (sh_miner s') = m_pool (sh_miner s)"
    "settled a s' = settled a s + of_bool (a = the (w_pool w))"
  using share_result_frame [OF assms] by (simp_all add: shr settled_def)

lemma step_shares_ok:
  assumes "shares_ok s" and "share_step e ev s = Some s'"
  shows "shares_ok s'"
proof (cases ev)
  case (Begin a now)
  have "shares_ok (submit_begin a now s)" if "sender_of s a = Idle"
  proof (cases "tq_q (p_stratum_q (m_pool (sh_miner s) a))")
    case Nil
    then show ?thesis using assms(1) by (simp add: submit_begin_def tq_pop_enter_def)
  next
    case (Cons w ws)
    have "w_pool w = Some a" using shares_okD(1) [OF assms(1), of w a] Cons by simp
    then show ?thesis using assms(1) Cons
      by (auto simp: submit_begin_def tq_pop_enter_def tq_pop_head_def shares_ok_def Let_def shr)
  qed
  then show ?thesis using assms Begin by (auto split: sender.splits)
next
  case (Attempt a now sent)
  have "shares_ok (submit_attempt e a now sent sh s)" if "sender_of s a = Sending sh" for sh
  proof -
    have "w_pool (ss_work sh) = Some a" using shares_okD(2) [OF assms(1) that] .
    then show ?thesis using assms(1)
      by (auto simp: submit_attempt_def discard_share_def shares_ok_def Let_def shr)
  qed
  then show ?thesis using assms Attempt by (auto split: sender.splits)
next
  case (Stamp a now)
  then show ?thesis using assms
    by (auto simp: submit_stamp_def shares_ok_def Let_def shr split: sender.splits if_splits)
next
  case (Answer a now val)
  then obtain r where "parse_stratum_response e now a val s = Some (r, s')" using assms(2) by auto
  then show ?thesis
  proof (cases rule: parse_response_cases)
    case ignored
    then show ?thesis using assms(1) by simp
  next
    case untracked
    then show ?thesis by (intro shares_ok_frame [OF assms(1)]) (simp_all add: untracked_frame)
  next
    case (result sh rest)
    then show ?thesis using response_settled [OF result(4)] hash_del_some [OF result(3)]
      by (intro shares_ok_frame [OF assms(1)]) simp_all
  qed
next
  case (Lost a)
  then show ?thesis using assms
    by (auto intro!: shares_ok_frame [OF assms(1)] simp: clear_frame)
next
  case (Prune a now)
  then show ?thesis using assms
    by (auto intro!: shares_ok_frame [OF assms(1)] simp: prune_frame)
qed

lemma account_cong:
  assumes "settled a s' = settled a s" "p_stale_shares (m_pool (sh_miner s') a) = p_stale_shares (m_pool (sh_miner s) a)"
    "pending a s' = pending a s" "in_hand a s' = in_hand a s"
  shows "account a s' = account a s"
  using assms by (simp add: account_settled)

lemma account_discard:
  assumes "sender_of s b = Sending sh"
  shows "account a (discard_share b s) = account a s"
  using assms by (auto simp: account_settled discard_share_def settled_def pending_def in_hand_def shr split: sender.splits)

lemma account_begin:
  assumes "sender_of s b = Idle"
  shows "account a (submit_begin b now s) = account a s + of_nat (entry a (Begin b now) s)"
proof (cases "tq_q (p_stratum_q (m_pool (sh_miner s) b))")
  case Nil
  then show ?thesis by (simp add: submit_begin_def tq_pop_enter_def)
next
  case (Cons w ws)
  then show ?thesis using assms
    by (auto simp: submit_begin_def tq_pop_enter_def tq_pop_head_def account_settled settled_def pending_def
      in_hand_def Let_def shr)
qed

lemma account_attempt:
  assumes "sender_of s b = Sending sh" and "w_pool (ss_work sh) = Some b"
  shows "account a (submit_attempt e b now sent sh s) = account a s"
proof -
  let ?t = "upd_stat b (\<lambda>p. p\<lparr>submit_fail := True\<rparr>) s"
  let ?u = "upd_stat b (\<lambda>p. p\<lparr>remotefail_occasions := remotefail_occasions p + 1\<rparr>) (?t\<lparr>total_ro := total_ro ?t + 1\<rparr>)"
  have 1: "account a (discard_share b ?t) = account a s" "account a (discard_share b ?u) = account a s"
    by (subst account_discard; (simp add: shr assms(1))?;
        (rule account_cong; simp add: settled_def pending_def in_hand_def shr))+
  have 2: "account a ?t = account a s" "account a ?u = account a s"
    by (rule account_cong; simp add: settled_def pending_def in_hand_def shr)+
  have 3: "account a (discard_share b s) = account a s" by (rule account_discard [OF assms(1)])
  have 4: "account a (set_sender b (Entered (ss_id sh)) (add_sshares b 1
      ((upd_stat b (\<lambda>p. p\<lparr>submit_fail := False\<rparr>) s)\<lparr>stratum_shares := stratum_shares s @ [sh]\<rparr>))) = account a s"
    using assms by (auto simp: account_settled settled_def pending_def in_hand_def own_share_def shr)
  show ?thesis using 1 2 3 4 by (simp add: submit_attempt_def Let_def shr)
qed


lemma pending_split:
  "length (filter P xs) + length (filter (\<lambda>x. \<not> P x) xs) = length xs"
  by (rule sum_length_filter_compl)

lemma pending_lost:
  "of_nat (length (filter (own_share a) (filter (\<lambda>x. \<not> (own_share b x \<and> Q x)) xs))) +
     (if a = b then of_nat (length (filter (\<lambda>x. own_share b x \<and> Q x) xs)) else 0) =
   (of_nat (length (filter (own_share a) xs)) :: u32)"
proof -
  have "length (filter (own_share a) (filter (\<lambda>x. \<not> (own_share b x \<and> Q x)) xs)) +
      (if a = b then length (filter (\<lambda>x. own_share b x \<and> Q x) xs) else 0) = length (filter (own_share a) xs)"
    by (induction xs) (auto simp: own_share_def)
  then show ?thesis by (simp flip: of_nat_add split: if_splits)
qed

lemma pending_hash_del:
  assumes "hash_del i (stratum_shares s) = Some (sh, rest)" and "stratum_shares s' = rest"
  shows "pending a s = pending a s' + of_bool (own_share a sh)"
proof -
  have m: "mset (stratum_shares s) = add_mset sh (mset rest)" using hash_del_some [OF assms(1)] by blast
  have "size (filter_mset (own_share a) (mset (stratum_shares s))) =
      size (filter_mset (own_share a) (mset rest)) + of_bool (own_share a sh)" unfolding m by simp
  then show ?thesis using assms(2) by (simp add: pending_def flip: mset_filter)
qed

lemma step_account:
  assumes "shares_ok s" and "share_step e ev s = Some s'"
  shows "account a s' = account a s + of_nat (entry a ev s)"
proof (cases ev)
  case (Begin b now)
  show ?thesis
  proof (cases "sender_of s b = Idle")
    case True
    then show ?thesis using assms(2) account_begin [OF True, of a now] by (simp add: Begin)
  next
    case False
    then show ?thesis using assms(2) by (auto simp: Begin split: sender.splits)
  qed
next
  case (Attempt b now sent)
  show ?thesis
  proof (cases "sender_of s b")
    case (Sending sh)
    then show ?thesis
      using assms account_attempt [OF Sending shares_okD(2) [OF assms(1) Sending]] by (auto simp: Attempt)
  qed (use assms(2) in \<open>auto simp: Attempt\<close>)
next
  case (Stamp b now)
  show ?thesis
  proof (cases "sender_of s b")
    case (Entered i)
    have "filter (own_share a) (map (\<lambda>x. if ss_id x = i then x\<lparr>ss_sent := now\<rparr> else x) xs) =
        map (\<lambda>x. if ss_id x = i then x\<lparr>ss_sent := now\<rparr> else x) (filter (own_share a) xs)" for xs
      by (induction xs) (auto simp: own_share_def)
    then show ?thesis using assms(2) Entered
      by (auto simp: Stamp submit_stamp_def account_settled settled_def pending_def in_hand_def shr split: if_splits)
  qed (use assms(2) in \<open>auto simp: Stamp\<close>)
next
  case (Answer b now val)
  then obtain r where "parse_stratum_response e now b val s = Some (r, s')" using assms(2) by auto
  then show ?thesis
  proof (cases rule: parse_response_cases)
    case ignored
    then show ?thesis by (simp add: Answer)
  next
    case untracked
    then show ?thesis
      by (simp add: Answer account_settled untracked_frame pending_def in_hand_def)
  next
    case (result sh rest)
    have "w_pool (ss_work sh) \<noteq> None"
      using shares_okD(3) [OF assms(1), of sh] hash_del_some [OF result(3)] by blast
    then have "(a = the (w_pool (ss_work sh))) = own_share a sh" by (auto simp: own_share_def)
    then show ?thesis using pending_hash_del [OF result(3), of s' a] response_settled(1-3) [OF result(4)] response_settled(4) [OF result(4), of a] result(2)
      by (auto simp: Answer account_settled in_hand_def)
  qed
next
  case (Lost b)
  have s': "s' = clear_stratum_shares e b s" using assms(2) by (simp add: Lost)
  show ?thesis using pending_lost [of a b "\<lambda>x. True" "stratum_shares s"]
    by (cases "a = b") (simp_all add: Lost s' account_settled clear_frame in_hand_def pending_def algebra_simps)
next
  case (Prune b now)
  have s': "s' = prune_stratum_shares b now s" using assms(2) by (simp add: Prune)
  show ?thesis using pending_lost [of a b "\<lambda>x. now > ss_time x + 120" "stratum_shares s"]
    by (simp add: Prune s' account_settled prune_frame in_hand_def pending_def algebra_simps)
qed

text \<open>C11: No share is lost or counted twice, whatever the order in which the send threads, the receive
  threads and the watchdog act: for every pool the shares accepted, rejected, stale, waiting for
  an answer and in the hand of the send thread are what they were before, plus one for every
  share taken for sending and for every answer to an unknown number.\<close>

theorem shares_accounted:
  assumes "shares_ok s" and "share_run e evs s = Some s'"
  shows "shares_ok s' \<and> account a s' = account a s + of_nat (entries e a evs s)"
  using assms
proof (induction evs arbitrary: s)
  case (Cons ev evs)
  obtain t where t: "share_step e ev s = Some t" "share_run e evs t = Some s'"
    using Cons.prems(2) by (auto split: option.splits)
  then show ?case
    using Cons.IH [OF step_shares_ok [OF Cons.prems(1) t(1)] t(2)] step_account [OF Cons.prems(1) t(1), of a] by simp
qed simp


section \<open>The count of open shares\<close>

definition open_count :: "nat \<Rightarrow> shares_state \<Rightarrow> int" where
  "open_count a s = sshares (ps_pool (m_pools (sh_miner s)) a)"

text \<open>What separates the count from the number of entries: pruning removes entries only, and an
  answer counts for the pool that sent it, whoever the share belongs to.\<close>

fun drift :: "nat \<Rightarrow> share_event \<Rightarrow> shares_state \<Rightarrow> int" where
  "drift a (Prune b now) s =
     (if a = b then int (length (filter (\<lambda>x. own_share b x \<and> now > ss_time x + 120) (stratum_shares s))) else 0)"
| "drift a (Answer b now val) s =
     (case (if answers val then tracked val s else None) of None \<Rightarrow> 0
      | Some sh \<Rightarrow> of_bool (own_share a sh) - of_bool (a = b))"
| "drift a _ s = 0"

fun drifts :: "env \<Rightarrow> nat \<Rightarrow> share_event list \<Rightarrow> shares_state \<Rightarrow> int" where
  "drifts e a [] s = 0"
| "drifts e a (ev # evs) s =
     drift a ev s + (case share_step e ev s of None \<Rightarrow> 0 | Some s \<Rightarrow> drifts e a evs s)"

lemma open_count_simps [shr]:
  "open_count a (upd_cgpu c g s) = open_count a s" "open_count a (set_sender b x s) = open_count a s"
  "open_count a (upd_stat b h s) = open_count a s" "open_count a (add_stale b k s) = open_count a s"
  "open_count a (add_sshares b n s) = open_count a s + (if a = b then n else 0)"
  by (simp_all add: open_count_def upd_cgpu_def set_sender_def upd_stat_def add_stale_def on_miner_def
    upd_pool_work_def add_sshares_def on_pools_def upd_pool_def)

lemma open_count_fields [shr]:
  "open_count a (s\<lparr>stratum_shares := x\<rparr>) = open_count a s" "open_count a (s\<lparr>swork_id := i\<rparr>) = open_count a s"
  "open_count a (s\<lparr>sh_total := y\<rparr>) = open_count a s" "open_count a (s\<lparr>total_diff_stale := d\<rparr>) = open_count a s"
  "open_count a (s\<lparr>total_ro := r\<rparr>) = open_count a s" "open_count a (s\<lparr>killed := k\<rparr>) = open_count a s"
  by (simp_all add: open_count_def)

lemma sshares_upd: "(\<And>p. sshares (f p) = sshares p) \<Longrightarrow> sshares (ps_pool (upd_pool b f s) a) = sshares (ps_pool s a)"
  by (simp add: upd_pool_def)

lemma sshares_steps:
  "sshares (ps_pool (fst (switch_pools None s)) a) = sshares (ps_pool s a)"
  "sshares (ps_pool (enable_pool b s) a) = sshares (ps_pool s a)"
  "sshares (ps_pool (reject_pool b s) a) = sshares (ps_pool s a)"
  by (simp_all add: switch_pools_def enable_pool_def reject_pool_def Let_def sshares_upd)

lemma open_count_on_miner [shr]:
  "open_count a (on_miner (\<lambda>m. switch_away (on_pools (enable_pool b) m)) s) = open_count a s"
  "open_count a (on_miner switch_away s) = open_count a s"
  "open_count a (on_miner restart_threads s) = open_count a s"
  "open_count a (on_miner (on_pools (reject_pool b)) s) = open_count a s"
  "open_count a (on_miner (upd_pool_work b h) s) = open_count a s"
  by (simp_all add: open_count_def on_miner_def on_pools_def switch_away_def clear_pool_work_def restart_threads_def
    upd_pool_work_def sshares_steps Let_def case_prod_beta)

lemma open_count_share_result:
  assumes "share_result e now val res err w s = Some s'"
  shows "open_count a s' = open_count a s"
proof -
  have "open_count a (share_accepted e now w s) = open_count a s"
    by (simp add: share_accepted_def Let_def shr)
  moreover have "share_rejected e val res err w s = Some s' \<Longrightarrow> open_count a s' = open_count a s"
    by (auto simp: share_rejected_def Let_def shr split: if_splits)
  ultimately show ?thesis using assms by (auto simp: share_result_def split: if_splits)
qed

lemma open_count_untracked: "open_count a (untracked_result e b res s) = open_count a s"
  by (simp add: untracked_result_def Let_def shr)

lemma step_open_count:
  assumes "shares_ok s" and "share_step e ev s = Some s'"
  shows "open_count a s' - int (pending a s') = open_count a s - int (pending a s) + drift a ev s"
proof (cases ev)
  case (Begin b now)
  have "open_count a (submit_begin b now s) = open_count a s" "pending a (submit_begin b now s) = pending a s"
    by (simp_all add: submit_begin_def pending_def Let_def shr split: option.splits prod.splits)
  then show ?thesis using assms(2) by (auto simp: Begin split: sender.splits)
next
  case (Attempt b now sent)
  have "open_count a (submit_attempt e b now sent sh s) - int (pending a (submit_attempt e b now sent sh s)) =
      open_count a s - int (pending a s)" if "sender_of s b = Sending sh" for sh
    using shares_okD(2) [OF assms(1) that]
    by (auto simp: submit_attempt_def discard_share_def pending_def own_share_def Let_def shr)
  then show ?thesis using assms(2) by (auto simp: Attempt split: sender.splits)
next
  case (Stamp b now)
  have "length (filter (own_share a) (map (\<lambda>x. if ss_id x = i then x\<lparr>ss_sent := now\<rparr> else x) xs)) =
      length (filter (own_share a) xs)" for i xs
    by (induction xs) (auto simp: own_share_def)
  then show ?thesis using assms(2)
    by (auto simp: Stamp submit_stamp_def pending_def shr split: sender.splits if_splits)
next
  case (Answer b now val)
  then obtain r where "parse_stratum_response e now b val s = Some (r, s')" using assms(2) by auto
  then show ?thesis
  proof (cases rule: parse_response_cases)
    case ignored
    then show ?thesis by (simp add: Answer)
  next
    case untracked
    then show ?thesis by (simp add: Answer open_count_untracked untracked_frame pending_def)
  next
    case (result sh rest)
    then show ?thesis
      using pending_hash_del [OF result(3) response_settled(1) [OF result(4)], of a]
        open_count_share_result [OF result(4), of a]
      by (simp add: Answer shr)
  qed
next
  case (Lost b)
  have "int (length (filter (own_share a) (filter (\<lambda>x. \<not> own_share b x) xs))) =
      int (length (filter (own_share a) xs)) - (if a = b then int (length (filter (own_share b) xs)) else 0)" for xs
    by (induction xs) (auto simp: own_share_def)
  then show ?thesis using assms(2)
    by (auto simp: Lost clear_stratum_shares_def pending_def Let_def shr)
next
  case (Prune b now)
  have "int (length (filter (own_share a) (filter (\<lambda>x. \<not> (own_share b x \<and> Q x)) xs))) =
      int (length (filter (own_share a) xs)) - (if a = b then int (length (filter (\<lambda>x. own_share b x \<and> Q x) xs)) else 0)" for Q xs
    by (induction xs) (auto simp: own_share_def)
  note n = this [of "\<lambda>x. now > ss_time x + 120" "stratum_shares s"]
  have "open_count a (prune_stratum_shares b now s) = open_count a s"
    by (simp add: prune_stratum_shares_def Let_def shr)
  then show ?thesis using assms(2) n by (auto simp: Prune prune_frame pending_def)
qed

lemma run_open_count:
  assumes "shares_ok s" and "share_run e evs s = Some s'"
  shows "open_count a s' - int (pending a s') = open_count a s - int (pending a s) + drifts e a evs s"
  using assms
proof (induction evs arbitrary: s)
  case (Cons ev evs)
  obtain t where t: "share_step e ev s = Some t" "share_run e evs t = Some s'"
    using Cons.prems(2) by (auto split: option.splits)
  then show ?case
    using Cons.IH [OF step_shares_ok [OF Cons.prems(1) t(1)] t(2)] step_open_count [OF Cons.prems(1) t(1), of a] by simp
qed simp


fun pruned :: "env \<Rightarrow> nat \<Rightarrow> share_event list \<Rightarrow> shares_state \<Rightarrow> nat" where
  "pruned e a [] s = 0"
| "pruned e a (ev # evs) s =
     (case ev of
        Prune b now \<Rightarrow> if a = b then length (filter (\<lambda>x. own_share b x \<and> now > ss_time x + 120) (stratum_shares s)) else 0
      | _ \<Rightarrow> 0) +
     (case share_step e ev s of None \<Rightarrow> 0 | Some s \<Rightarrow> pruned e a evs s)"

text \<open>Every pool answers for its own shares only.\<close>

fun own_answers :: "env \<Rightarrow> share_event list \<Rightarrow> shares_state \<Rightarrow> bool" where
  "own_answers e [] s = True"
| "own_answers e (ev # evs) s \<longleftrightarrow>
     (case ev of
        Answer b now val \<Rightarrow> (case tracked val s of None \<Rightarrow> True | Some sh \<Rightarrow> own_share b sh)
      | _ \<Rightarrow> True) \<and>
     (case share_step e ev s of None \<Rightarrow> True | Some s \<Rightarrow> own_answers e evs s)"

lemma own_drift:
  assumes "case tracked val s of None \<Rightarrow> True | Some sh \<Rightarrow> own_share b sh"
  shows "drift a (Answer b now val) s = 0"
  using assms by (auto simp: own_share_def split: option.splits)

lemma drifts_pruned: "own_answers e evs s \<Longrightarrow> drifts e a evs s = int (pruned e a evs s)"
proof (induction evs arbitrary: s)
  case (Cons ev evs)
  have "drift a ev s = (case ev of
      Prune b now \<Rightarrow> if a = b then int (length (filter (\<lambda>x. own_share b x \<and> now > ss_time x + 120) (stratum_shares s))) else 0
    | _ \<Rightarrow> 0)"
    using Cons.prems own_drift by (cases ev) (auto simp del: drift.simps(2))
  then show ?case using Cons
    by (auto split: share_event.splits option.splits)
qed simp

text \<open>A share the pool never answers keeps the connection open for ever: when it is pruned
  after two minutes it leaves the table, but not the count of open shares. With every pool
  answering for its own shares, the count is the number of shares in the table plus all that were
  ever pruned, so that from the first one on \<open>cnx_needed\<close> holds as long as the pool is enabled,
  although nothing is awaited.\<close>

theorem pruned_share_holds_connection:
  assumes "shares_ok s" and "share_run e evs s = Some s'" and "open_count a s = int (pending a s)"
    and "own_answers e evs s"
  shows "open_count a s' = int (pending a s') + int (pruned e a evs s) \<and>
    (0 < pruned e a evs s \<and> enabled (ps_pool (m_pools (sh_miner s')) a) = POOL_ENABLED \<longrightarrow>
       cnx_needed a (m_pools (sh_miner s')))"
proof -
  have o: "open_count a s' = int (pending a s') + int (pruned e a evs s)"
    using run_open_count [OF assms(1,2), of a] drifts_pruned [OF assms(4), of a] assms(3) by simp
  have "cnx_needed a p" if "sshares (ps_pool p a) \<noteq> 0" "enabled (ps_pool p a) = POOL_ENABLED" for p
    using that by (simp add: cnx_needed_def Let_def)
  then show ?thesis using o by (simp add: open_count_def)
qed

text \<open>Answers are matched by number only, across all pools: a pool that sends the number of a
  share of another pool settles that share, and the other pool is credited or charged for it; the
  count of open shares goes down for the pool that sent the answer, which can make it negative, and
  stays for the pool that is owed one, whose connection is then held open.\<close>

theorem foreign_answer_settles:
  assumes "shares_ok s" and "answers val" and "tracked val s = Some sh" and "own_share b sh" and "a \<noteq> b"
    and "parse_stratum_response e now a val s = Some (r, s')"
  shows "settled b s' = settled b s + 1 \<and> settled a s' = settled a s \<and>
    Suc (pending b s') = pending b s \<and> pending a s' = pending a s \<and>
    open_count a s' = open_count a s - 1 \<and> open_count b s' = open_count b s"
  using assms(6)
proof (cases rule: parse_response_cases)
  case (result sh' rest)
  then have [simp]: "sh' = sh" using assms(3) by simp
  have w: "w_pool (ss_work sh) = Some b" using assms(4) by (simp add: own_share_def)
  show ?thesis
    using response_settled(4) [OF result(4)] pending_hash_del [OF result(3) response_settled(1) [OF result(4)]]
      open_count_share_result [OF result(4)] assms(5)
    by (simp add: w own_share_def shr)
qed (use assms in simp_all)

text \<open>The reason of a reject is used without testing that it is a string: a pool that rejects
  a share with a \<open>reject-reason\<close> that is null, a number or an object makes the miner read through
  the null pointer, unless messages are off.\<close>

theorem reject_reason_faults:
  assumes "answers val" and "tracked val s = Some sh" and "\<not> opt_quiet e" and "\<not> w_gbt (ss_work sh)"
    and "\<not> json_is_true (json_object_get val ''result'')"
    and "json_object_get val ''reject-reason'' = Some j" and "json_string_value (Some j) = None"
  shows "parse_stratum_response e now a val s = None"
proof (cases "parse_stratum_response e now a val s")
  case (Some y)
  obtain r s' where "parse_stratum_response e now a val s = Some (r, s')" using Some by (cases y) auto
  then show ?thesis
  proof (cases rule: parse_response_cases)
    case (result sh' rest)
    then have [simp]: "sh' = sh" using assms(2) by simp
    have "reject_reason val (json_object_get val ''result'') (json_object_get val ''error'') (ss_work sh) = None"
      using assms(4,6,7) by (simp add: reject_reason_def)
    then show ?thesis using result(4) assms(3,4,5) by (simp add: share_result_def share_rejected_def Let_def)
  qed (use assms in simp_all)
qed

text \<open>The send thread writes to a share it has handed over: once the share is in the table, an
  answer may free it before the thread has written the time of sending into it. When the answer
  comes first, the write goes to freed memory; when the write comes first, both are done.\<close>

theorem answer_before_stamp_faults:
  assumes "shares_ok s" and "sender_of s a = Sending sh" and "now < ss_time sh + 120"
    and "ss_id sh \<notin> set (map ss_id (stratum_shares s))"
    and "answers val" and "word_of_int (json_integer_value (json_object_get val ''id'')) = ss_id sh"
    and "json_is_true (json_object_get val ''result'')"
  shows "share_run e [Attempt a now True, Answer a t val] s \<noteq> None \<and>
    share_run e [Attempt a now True, Answer a t val, Stamp a t'] s = None \<and>
    share_run e [Attempt a now True, Stamp a t', Answer a t val] s \<noteq> None"
proof -
  define u where "u = set_sender a (Entered (ss_id sh)) (add_sshares a 1
    ((upd_stat a (\<lambda>p. p\<lparr>submit_fail := False\<rparr>) s)\<lparr>stratum_shares := stratum_shares s @ [sh]\<rparr>))"
  have step: "share_step e (Attempt a now True) s = Some u"
    using assms(2,3) by (simp add: submit_attempt_def Let_def u_def shr)
  have u: "stratum_shares u = stratum_shares s @ [sh]" "sender_of u a = Entered (ss_id sh)"
    by (simp_all add: u_def shr)
  have found: "hash_del (ss_id sh) (xs @ [y]) = Some (y, xs)" if "ss_id y = ss_id sh" "ss_id sh \<notin> set (map ss_id xs)" for xs y
    using that by (induction xs) auto
  have answered: "\<exists>v. parse_stratum_response e t a val v0 = Some (True, v) \<and> stratum_shares v = xs \<and> sender_of v = sender_of v0"
    if "stratum_shares v0 = xs @ [y]" "ss_id y = ss_id sh" "ss_id sh \<notin> set (map ss_id xs)" for v0 xs y
  proof -
    obtain v where v: "share_result e t val (json_object_get val ''result'') (json_object_get val ''error'') (ss_work y)
        (add_sshares a (- 1) (v0\<lparr>stratum_shares := xs\<rparr>)) = Some v"
      using assms(7) by (simp add: share_result_def)
    have "parse_stratum_response e t a val v0 = Some (True, v)"
      using assms(5) v unfolding parse_stratum_response_def answers_def Let_def assms(6)
      by (simp add: that(1) found [OF that(2,3)])
    then show ?thesis using response_settled(1,2) [OF v] by blast
  qed
  obtain v where v: "parse_stratum_response e t a val u = Some (True, v)" "stratum_shares v = stratum_shares s"
      "sender_of v = sender_of u"
    using answered [OF u(1) refl assms(4)] by blast
  have "share_step e (Stamp a t') v = None"
    using assms(4) v u(2) by (simp add: submit_stamp_def)
  moreover obtain x where x: "share_step e (Stamp a t') u = Some x"
      "stratum_shares x = stratum_shares s @ [sh\<lparr>ss_sent := t'\<rparr>]"
  proof -
    have "map (\<lambda>y. if ss_id y = ss_id sh then y\<lparr>ss_sent := t'\<rparr> else y) xs = xs" if "ss_id sh \<notin> set (map ss_id xs)" for xs :: "sshare list"
      using that by (induction xs) auto
    then have "share_step e (Stamp a t') u = Some (set_sender a Idle (u\<lparr>stratum_shares := stratum_shares s @ [sh\<lparr>ss_sent := t'\<rparr>]\<rparr>))"
      using u assms(4) by (simp add: submit_stamp_def)
    then show ?thesis by (rule that) (simp add: shr)
  qed
  moreover obtain y where "parse_stratum_response e t a val x = Some (True, y)"
    using answered [OF x(2) _ assms(4)] by auto
  ultimately show ?thesis using step v(1) by simp
qed


section \<open>A share to try\<close>

definition demo_shares :: shares_state where
  "demo_shares = \<lparr>sh_miner = demo_miner\<lparr>m_pool := (\<lambda>a. demo_pool_work\<lparr>p_stratum_q := \<lparr>tq_q = if a = 10 then [demo_work] else [], tq_frozen = False\<rparr>\<rparr>)\<rparr>,
     conn = (\<lambda>a. demo_stratum), sender_of = (\<lambda>a. Idle), stratum_shares = [], swork_id = 0,
     sh_total = \<lparr>t_accepted = 0, t_rejected = 0, t_diff_accepted = 0, t_diff_rejected = 0\<rparr>,
     total_diff_stale = 0, total_ro = 0,
     pool_stat = (\<lambda>a. \<lparr>po_tally = \<lparr>t_accepted = 0, t_rejected = 0, t_diff_accepted = 0, t_diff_rejected = 0\<rparr>,
        seq_rejects = 0, last_share_time = 0, last_share_diff = 0, po_diff_stale = 0, submit_fail = False,
        remotefail_occasions = 0\<rparr>),
     cgpu_stat = (\<lambda>c. \<lparr>cg_tally = \<lparr>t_accepted = 0, t_rejected = 0, t_diff_accepted = 0, t_diff_rejected = 0\<rparr>,
        cg_last_pool = 0, cg_last_time = 0, cg_last_diff = 0\<rparr>),
     killed = False\<rparr>"

definition demo_env :: env where
  "demo_env = \<lparr>fadd = (\<lambda>x y. x), work_difficulty = (\<lambda>w. 0), shares_reached = (\<lambda>d. False),
     over_utility = (\<lambda>n t. False), thr_cgpu = (\<lambda>t. 0), rpc_user = (\<lambda>a. []), opt_quiet = False,
     opt_disable_pool = False, opt_lowmem = False\<rparr>"

lemma demo_work_pool: "w_pool demo_work = Some 10"
  by (simp add: demo_work_def two_pools_ok)

lemma demo_shares_ok: "shares_ok demo_shares"
  by (simp add: shares_ok_def demo_shares_def demo_work_pool)


definition demo_share :: sshare where
  "demo_share = \<lparr>ss_id = 0, ss_work = demo_work, ss_time = 5, ss_sent = 0\<rparr>"

definition demo_sent :: shares_state where
  "demo_sent = submit_attempt demo_env 10 6 True demo_share (submit_begin 10 5 demo_shares)"

lemma demo_nonce2_len: "w_nonce2_len demo_work = 0"
  by (simp add: demo_work_def zero_work_def)

lemma demo_begin:
  "sender_of (submit_begin 10 5 demo_shares) = (\<lambda>a. Idle)(10 := Sending demo_share)"
  "stratum_shares (submit_begin 10 5 demo_shares) = []"
  "open_count a (submit_begin 10 5 demo_shares) = sshares (ps_pool two_pools a)"
  by (simp_all add: submit_begin_def demo_shares_def tq_pop_enter_def tq_pop_head_def demo_nonce2_len Let_def shr
    demo_share_def open_count_def demo_miner_def on_miner_def upd_pool_work_def set_sender_def)

lemma demo_begin_step:
  "share_step demo_env (Begin 10 5) demo_shares =
     Some (submit_begin 10 5 demo_shares)"
  by (simp add: demo_shares_def)

lemma demo_attempt_step:
  "share_step demo_env (Attempt 10 6 True) (submit_begin 10 5 demo_shares) = Some demo_sent"
  by (simp add: demo_sent_def demo_begin)

lemma demo_sent_facts:
  "stratum_shares demo_sent = [demo_share]" "sender_of demo_sent 10 = Entered 0"
  "open_count 10 demo_sent = sshares (ps_pool two_pools 10) + 1"
  by (simp_all add: demo_sent_def submit_attempt_def demo_begin demo_share_def Let_def shr)

lemma demo_sent_ok: "shares_ok demo_sent"
  using step_shares_ok [OF step_shares_ok [OF demo_shares_ok demo_begin_step] demo_attempt_step] .

theorem shares_accounted_witness:
  "\<exists>s'. share_run demo_env [Begin 10 5, Attempt 10 6 True,
       Prune 10 200] demo_shares = Some s' \<and>
     account 10 s' = account 10 demo_shares + 1"
proof -
  let ?evs = "[Begin 10 5, Attempt 10 6 True, Prune 10 200]"
  have "entries demo_env 10 ?evs demo_shares = 1"
    using demo_nonce2_len demo_begin_step demo_attempt_step by (simp add: demo_shares_def)
  moreover obtain s' where "share_run demo_env ?evs demo_shares = Some s'"
    using demo_begin_step demo_attempt_step by simp
  ultimately show ?thesis using shares_accounted [OF demo_shares_ok, of demo_env ?evs s' "10"] by auto
qed


lemma demo_pools: "sshares (ps_pool two_pools a) = 0"
  by (simp add: two_pools_def new_pool_def)

lemma demo_own: "own_share a demo_share \<longleftrightarrow> a = 10"
  by (auto simp: own_share_def demo_share_def demo_work_pool)

theorem pruned_share_holds_connection_witness:
  "\<exists>s'. share_run demo_env [Prune 10 200] demo_sent = Some s' \<and> stratum_shares s' = [] \<and>
     open_count 10 s' = 1"
  using pruned_share_holds_connection [OF demo_sent_ok, of demo_env "[Prune 10 200]" "prune_stratum_shares 10 200 demo_sent" 10]
  by (simp add: demo_sent_facts prune_frame demo_own demo_pools pending_def) (simp add: demo_share_def)

definition demo_answer :: "json option" where
  "demo_answer = Some (JObject [(''id'', JInteger 0), (''result'', JTrue)])"

lemma demo_answer_tracked: "answers demo_answer" "tracked demo_answer demo_sent = Some demo_share"
  by (simp_all add: answers_def tracked_def demo_answer_def demo_sent_facts json_is_null_def demo_share_def)

theorem foreign_answer_settles_witness:
  "\<exists>r s'. parse_stratum_response demo_env 7 11 demo_answer demo_sent = Some (r, s') \<and>
     settled 10 s' = settled 10 demo_sent + 1 \<and> open_count 11 s' = open_count 11 demo_sent - 1"
proof -
  have "share_result demo_env 7 demo_answer (Some JTrue) (json_object_get demo_answer ''error'') demo_work s \<noteq> None" for s
    by (simp add: share_result_def json_is_true_def)
  then obtain r s' where r: "parse_stratum_response demo_env 7 11 demo_answer demo_sent = Some (r, s')"
    by (fastforce simp: parse_stratum_response_def demo_answer_def demo_sent_facts demo_share_def json_is_null_def)
  show ?thesis
    using foreign_answer_settles [OF demo_sent_ok demo_answer_tracked, of 10 11, OF _ _ r] r demo_own by auto
qed

theorem reject_reason_faults_witness:
  "parse_stratum_response demo_env 7 10
     (Some (JObject [(''id'', JInteger 0), (''result'', JFalse), (''reject-reason'', JNull)])) demo_sent = None"
  by (rule reject_reason_faults [where sh = demo_share and j = JNull])
    (simp_all add: answers_def tracked_def demo_sent_facts json_is_null_def json_is_true_def demo_share_def demo_env_def
      demo_work_def zero_work_def)

lemma demo_begin_ok: "shares_ok (submit_begin 10 5 demo_shares)"
  using step_shares_ok [OF demo_shares_ok demo_begin_step] .

theorem answer_before_stamp_faults_witness:
  "share_run demo_env [Attempt 10 6 True, Answer 10 6 demo_answer, Stamp 10 6] (submit_begin 10 5 demo_shares) = None"
  using answer_before_stamp_faults [OF demo_begin_ok, of 10 demo_share 6 demo_answer demo_env 6 6]
  by (simp add: demo_begin demo_answer_tracked) (simp add: demo_share_def demo_answer_def json_is_true_def)


section \<open>What the pool recomputes\<close>

text \<open>The header a pool builds from the parameters of \<open>mining.submit\<close> and its own job.\<close>

definition pool_header :: "job \<Rightarrow> u8 list \<Rightarrow> u8 list \<Rightarrow> u8 list \<Rightarrow> u8 list \<Rightarrow> u8 list" where
  "pool_header j nonce1 nonce2 ntime nonce =
     j_version j @ j_prev j @ rev_words (merkleroot dsha (j_cb1 j @ nonce1 @ nonce2 @ j_cb2 j) (j_merkles j)) @
     ntime @ j_bits j @ nonce"

lemma length_dec_nat: "n < 10 ^ k \<Longrightarrow> 0 < k \<Longrightarrow> length (dec_nat n) \<le> k"
proof (induction n arbitrary: k rule: dec_nat.induct)
  case (1 n)
  show ?case
  proof (cases "n < 10")
    case True
    then show ?thesis using "1.prems" by (subst dec_nat.simps) simp
  next
    case False
    then obtain m where k: "k = Suc m" "0 < m"
      using "1.prems" by (cases k; cases "k - 1") auto
    then have "n div 10 < 10 ^ m" using "1.prems" by (simp add: less_mult_imp_div_less mult.commute)
    then show ?thesis using "1.IH" [OF False _ k(2)] False k by (subst dec_nat.simps) simp
  qed
qed

lemma length_dec_int: "length (dec_int i) \<le> 11"
proof -
  have "- (2 ^ 31) \<le> sint i" "sint i < 2 ^ 31" using sint_range_size [of i] by (simp_all add: word_size)
  then have "nat (sint i) < 10 ^ 10" "nat (- sint i) < 10 ^ 10" by (simp_all add: nat_less_iff)
  then show ?thesis using length_dec_nat [of "nat (sint i)" 10] length_dec_nat [of "nat (- sint i)" 10]
    by (simp add: dec_int_def)
qed

lemma nonced_fields:
  assumes "length (w_data w) = 128"
  shows "sub_list (nonced w n) 76 4 = le32_bytes n" "take 76 (nonced w n) = take 76 (w_data w)"
    "take 80 (nonced w n) = take 76 (w_data w) @ le32_bytes n"
  using assms by (simp_all add: nonced_def memcpy_at_def sub_list_def layout)


text \<open>The text of a submission, from the values it carries.\<close>

definition encode_submission :: "u8 list \<Rightarrow> u8 list \<Rightarrow> u8 list \<Rightarrow> u8 list \<Rightarrow> u8 list \<Rightarrow> u32 \<Rightarrow> u8 list" where
  "encode_submission user job nonce2 ntime nonce i =
     chars ''{\"params\": [\"'' @ user @ chars ''\", \"'' @ job @ chars ''\", \"'' @ bin2hex nonce2 @
     chars ''\", \"'' @ bin2hex ntime @ chars ''\", \"'' @ bin2hex nonce @ chars ''\"], \"id\": '' @ dec_int i @
     chars '', \"method\": \"mining.submit\"}''"

lemma length_chars: "length (chars s) = length s"
  by (simp add: chars_def)

lemma submission_fits:
  assumes "length nonce2 \<le> 8" and "length ntime = 4" and "length nonce = 4" and "length user + length job \<le> 900"
  shows "length (encode_submission user job nonce2 ntime nonce i) \<le> 1023"
  using assms length_dec_int [of i] by (simp add: encode_submission_def length_chars length_bin2hex)

text \<open>An item whose header differs from that of a generated one in its time at most.\<close>

definition rolled_from :: "work \<Rightarrow> work \<Rightarrow> bool" where
  "rolled_from w v \<longleftrightarrow> ntime_ok v \<and> w_ntime v \<noteq> None \<and> header_rest v = header_rest w \<and>
     w_job_id v = w_job_id w \<and> w_nonce2 v = w_nonce2 w \<and> w_nonce2_len v = w_nonce2_len w"

lemma rolled_header:
  assumes "length (w_data w) = 128" and "rolled_from w v" and "take 80 (w_data w) = a @ tm @ b @ replicate 4 0"
    and "length a = 68" and "length tm = 4" and "length b = 4"
  shows "take 76 (w_data v) = a @ sub_list (w_data v) 68 4 @ b"
proof -
  have l: "length (w_data v) = 128" using assms(2) by (simp add: rolled_from_def ntime_ok_def)
  have "take 68 (w_data v) @ drop 72 (w_data v) = take 68 (w_data w) @ drop 72 (w_data w)"
    using assms(2) by (simp add: rolled_from_def header_rest_def)
  then have h: "take 68 (w_data v) = take 68 (w_data w)" "drop 72 (w_data v) = drop 72 (w_data w)"
    using l assms(1) by (simp_all add: append_eq_append_conv)
  have w: "take 68 (w_data w) = a" "take 4 (drop 72 (w_data w)) = b"
    using arg_cong [OF assms(3), of "take 68"] arg_cong [OF assms(3), of "\<lambda>x. take 4 (drop 72 x)"] assms(4-6)
    by (simp_all add: drop_take min_def)
  have "take 76 (w_data v) = take 68 (w_data v) @ take 4 (drop 68 (w_data v)) @ take 4 (drop 72 (w_data v))"
    using take_add [of 72 4 "w_data v"] take_add [of 68 4 "w_data v"] by simp
  then show ?thesis using h w by (simp add: sub_list_def)
qed

text \<open>C10: A share verifies at the pool: for work generated from a job, with its time rolled or not, and
  any nonce, the parameters of \<open>mining.submit\<close> decode to a nonce2, a time and a nonce from which the
  pool, with its own job, builds a header whose double hash is the hash the miner tested. When the
  names of user and job have at most 900 characters together, the request is sent whole.\<close>

theorem submission_verifies:
  assumes "ready t j" and "locals_ok (m_locals s)" and "length (w_data w) = 128" and "length (w_midstate w) = 32"
    and "gen_stratum_work set_target now pool t w s = Some (t', w', s')" and "rolled_from w' v"
    and "u = share_of solves later v nonce m"
  shows "\<exists>ntime. length ntime = 4 \<and>
    submit_request user u i = encode_submission user (j_id j) (nonce2_bytes t) ntime (le32_bytes nonce) i \<and>
    w_hash u = dsha (rev_words (pool_header j (t_nonce1bin t) (nonce2_bytes t) ntime (le32_bytes nonce))) \<and>
    (length user + length (j_id j) \<le> 900 \<longrightarrow>
       submit_text user u i = encode_submission user (j_id j) (nonce2_bytes t) ntime (le32_bytes nonce) i)"
proof -
  obtain c d where "gen_stratum_work set_target now pool t w s =
      Some (t\<lparr>t_coinbase := c, t_nonce2 := t_nonce2 t + 1\<rparr>, stratum_item set_target now pool t j w s d,
        s\<lparr>local_work := local_work s + 1\<rparr>)" and d: "take 80 d = mined_header j t" "length d = 128"
    using gen_stratum_work_ready [OF assms(1-4), of set_target now pool] by metis
  then have w': "w' = stratum_item set_target now pool t j w s d" using assms(5) by simp
  have j: "job_ok j" "t_n2size t \<le> 8" using assms(1) by (simp_all add: ready_def)
  let ?tm = "sub_list (w_data v) 68 4"
  have v: "length (w_data v) = 128" "w_ntime v = Some (bin2hex ?tm)"
    using assms(6) by (auto simp: rolled_from_def ntime_ok_def)
  have h: "take 76 (w_data v) = (j_version j @ j_prev j @ rev_words (job_root j t)) @ ?tm @ j_bits j"
    using j(1) d by (intro rolled_header [OF _ assms(6), where tm = "j_time j"])
      (simp_all add: w' stratum_item_def mined_header_def job_ok_def job_root_def length_merkleroot layout)
  have u: "w_data u = nonced v nonce" "w_hash u = share_hash v nonce" "w_ntime u = w_ntime v"
      "w_job_id u = w_job_id v" "w_nonce2 u = w_nonce2 v" "w_nonce2_len u = w_nonce2_len v"
    by (simp_all add: assms(7) share_of_def Let_def)
  have r: "submit_request user u i = encode_submission user (j_id j) (nonce2_bytes t) ?tm (le32_bytes nonce) i"
    using assms(6) by (simp add: submit_request_def encode_submission_def submit_nonce_hex_def submit_nonce2_hex_def u v
      nonced_fields rolled_from_def w' stratum_item_def text_arg_def nonce2_bytes_def)
  have "w_hash u = dsha (rev_words (pool_header j (t_nonce1bin t) (nonce2_bytes t) ?tm (le32_bytes nonce)))"
    by (simp add: u share_hash_def nonced_fields [OF v(1)] h pool_header_def job_root_def job_coinbase_def)
  moreover have "length ?tm = 4" by (simp add: v layout)
  ultimately show ?thesis
    using r submission_fits [of "nonce2_bytes t" ?tm "le32_bytes nonce" user "j_id j" i] length_nonce2_bytes [OF j(2)] j(2)
    by (intro exI [of _ ?tm]) (simp add: submit_text_def layout)
qed

theorem submission_verifies_witness:
  "\<exists>t' w' s' ntime. gen_stratum_work (\<lambda>d. replicate 32 0) 9 4 demo_ready zero_work demo_miner = Some (t', w', s') \<and>
     submit_text [0x75] (share_of (\<lambda>w. False) 0 w' 7 demo_miner) 0 =
       encode_submission [0x75] (j_id demo_job) (nonce2_bytes demo_ready) ntime (le32_bytes 7) 0"
proof -
  have z: "length (w_data zero_work) = 128" "length (w_midstate zero_work) = 32" by (simp_all add: zero_work_def)
  obtain c d where g: "gen_stratum_work (\<lambda>d. replicate 32 0) 9 4 demo_ready zero_work demo_miner =
      Some (demo_ready\<lparr>t_coinbase := c, t_nonce2 := t_nonce2 demo_ready + 1\<rparr>,
        stratum_item (\<lambda>d. replicate 32 0) 9 4 demo_ready demo_job zero_work demo_miner d,
        demo_miner\<lparr>local_work := local_work demo_miner + 1\<rparr>)"
      and d: "take 80 d = mined_header demo_job demo_ready" "length d = 128"
    using gen_stratum_work_ready [OF demo_ready_ok demo_locals_ok z, of "\<lambda>d. replicate 32 0" 9 4] by metis
  let ?w = "stratum_item (\<lambda>d. replicate 32 0) 9 4 demo_ready demo_job zero_work demo_miner d"
  have "rolled_from ?w ?w"
    using mined_time [OF demo_ready_ok d(1)] d(2) by (simp add: rolled_from_def ntime_ok_def stratum_item_def)
  from submission_verifies [OF demo_ready_ok demo_locals_ok z g this refl, where user = "[0x75]" and i = 0 and nonce = 7
      and solves = "\<lambda>w. False" and later = 0 and m = demo_miner]
  show ?thesis using g by (auto simp: demo_job_def)
qed


section \<open>The attempts end\<close>

fun attempt_times :: "nat \<Rightarrow> share_event list \<Rightarrow> int list" where
  "attempt_times a [] = []"
| "attempt_times a (Attempt b now sent # evs) = (if a = b then now # attempt_times a evs else attempt_times a evs)"
| "attempt_times a (_ # evs) = attempt_times a evs"

lemma other_events_keep:
  assumes "sender_of s a = Sending sh" and "\<forall>now sent. ev \<noteq> Attempt a now sent" and "share_step e ev s = Some t"
  shows "sender_of t a = Sending sh"
proof (cases ev)
  case (Begin b now)
  show ?thesis
  proof (cases "sender_of s b = Idle")
    case True
    then have "a \<noteq> b" using assms(1) by auto
    then show ?thesis using assms Begin True
      by (auto simp: submit_begin_def Let_def shr split: option.splits prod.splits)
  next
    case False
    then show ?thesis using assms Begin by (auto split: sender.splits)
  qed
next
  case (Attempt b now sent)
  then have "a \<noteq> b" using assms(2) by auto
  then show ?thesis using assms(1,3) Attempt
    by (auto simp: submit_attempt_def discard_share_def Let_def shr split: sender.splits if_splits)
next
  case (Stamp b now)
  then show ?thesis using assms(1,3) by (auto simp: submit_stamp_def shr split: sender.splits if_splits)
next
  case (Answer b now val)
  then obtain r where "parse_stratum_response e now b val s = Some (r, t)" using assms(3) by auto
  then show ?thesis
  proof (cases rule: parse_response_cases)
    case (result sh' rest)
    then show ?thesis using response_settled(2) [OF result(4)] assms(1) by simp
  qed (use assms(1) in \<open>simp_all add: untracked_frame\<close>)
next
  case (Lost b)
  then show ?thesis using assms(1,3) by (auto simp: clear_frame)
next
  case (Prune b now)
  then show ?thesis using assms(1,3) by (auto simp: prune_frame)
qed

lemma attempt_keeps:
  assumes "sender_of s a = Sending sh" and "share_step e (Attempt a now sent) s = Some t" and "sender_of t a = Sending x"
  shows "x = sh \<and> now < ss_time sh + 120"
  using assms by (auto simp: submit_attempt_def discard_share_def Let_def shr split: if_splits)

lemma sending_ends_from:
  assumes "sender_of s a = Sending sh" and "share_run e evs s = Some s'" and "k \<le> 24" and "24 < k + length (attempt_times a evs)"
    and "\<forall>i<length (attempt_times a evs). ss_time sh + 5 * int (k + i) \<le> attempt_times a evs ! i"
  shows "\<exists>evs1 evs2 u. evs = evs1 @ evs2 \<and> share_run e evs1 s = Some u \<and> (\<forall>x. sender_of u a \<noteq> Sending x)"
  using assms
proof (induction evs arbitrary: s k)
  case (Cons ev evs)
  obtain t where t: "share_step e ev s = Some t" "share_run e evs t = Some s'"
    using Cons.prems(2) by (auto split: option.splits)
  have extend: ?case if "\<exists>evs1 evs2 u. evs = evs1 @ evs2 \<and> share_run e evs1 t = Some u \<and> (\<forall>x. sender_of u a \<noteq> Sending x)"
  proof -
    obtain evs1 evs2 u where "evs = evs1 @ evs2" "share_run e evs1 t = Some u" "\<forall>x. sender_of u a \<noteq> Sending x"
      using \<open>\<exists>evs1 evs2 u. _\<close> by blast
    then show ?thesis using t(1) by (intro exI [of _ "ev # evs1"] exI [of _ evs2] exI [of _ u]) simp
  qed
  show ?case
  proof (cases "\<exists>now sent. ev = Attempt a now sent")
    case True
    then obtain now sent where ev: "ev = Attempt a now sent" by blast
    show ?thesis
    proof (cases "sender_of t a = Sending sh")
      case True
      have "now < ss_time sh + 120" using attempt_keeps [OF Cons.prems(1) t(1) [unfolded ev] True] by blast
      moreover have "ss_time sh + 5 * int k \<le> now" using Cons.prems(5) [rule_format, of 0] ev by simp
      ultimately have k1: "k + 1 \<le> 24" by linarith
      have tm: "\<forall>i<length (attempt_times a evs). ss_time sh + 5 * int (k + 1 + i) \<le> attempt_times a evs ! i"
      proof (intro allI impI)
        fix i assume "i < length (attempt_times a evs)"
        then show "ss_time sh + 5 * int (k + 1 + i) \<le> attempt_times a evs ! i"
          using Cons.prems(5) [rule_format, of "Suc i"] ev by simp
      qed
      have l: "24 < k + 1 + length (attempt_times a evs)" using Cons.prems(4) ev by simp
      show ?thesis by (rule extend) (rule Cons.IH [OF True t(2) k1 l tm])
    next
      case False
      then have "\<forall>x. sender_of t a \<noteq> Sending x" using attempt_keeps [OF Cons.prems(1) t(1) [unfolded ev]] by blast
      then show ?thesis using t(1) by (intro exI [of _ "[ev]"] exI [of _ evs] exI [of _ t]) simp
    qed
  next
    case False
    then have "attempt_times a (ev # evs) = attempt_times a evs" by (cases ev) auto
    moreover have "sender_of t a = Sending sh" using False by (intro other_events_keep [OF Cons.prems(1) _ t(1)]) blast
    ultimately show ?thesis using Cons.IH [OF _ t(2) Cons.prems(3)] Cons.prems(4,5) by (intro extend) simp
  qed
qed simp

text \<open>C12: No share occupies a send thread for ever: the attempts are five seconds apart, so that, whatever
  the other threads do meanwhile, after at most 25 of them the share was sent or given up, and the
  thread turns to the next one.\<close>

theorem sending_ends:
  assumes "sender_of s a = Sending sh" and "share_run e evs s = Some s'" and "25 \<le> length (attempt_times a evs)"
    and "\<forall>i<length (attempt_times a evs). ss_time sh + 5 * int i \<le> attempt_times a evs ! i"
  shows "\<exists>evs1 evs2 u. evs = evs1 @ evs2 \<and> share_run e evs1 s = Some u \<and> (\<forall>x. sender_of u a \<noteq> Sending x)"
  using sending_ends_from [OF assms(1,2), of 0] assms(3,4) by simp

lemma attempts_run: "\<exists>s'. share_run e (map (\<lambda>i. Attempt a (f i) sent) is) s = Some s'"
  by (induction "is" arbitrary: s) auto

lemma attempt_times_map: "attempt_times a (map (\<lambda>i. Attempt a (f i) sent) is) = map f is"
  by (induction "is") auto

theorem sending_ends_witness:
  "\<exists>evs1 evs2 u. map (\<lambda>i. Attempt 10 (5 + 5 * int i) False) [0..<25] = evs1 @ evs2 \<and>
     share_run demo_env evs1 (submit_begin 10 5 demo_shares) = Some u \<and> (\<forall>x. sender_of u 10 \<noteq> Sending x)"
proof -
  obtain s' where r: "share_run demo_env (map (\<lambda>i. Attempt 10 (5 + 5 * int i) False) [0..<25]) (submit_begin 10 5 demo_shares) = Some s'"
    using attempts_run [of demo_env 10 "\<lambda>i. 5 + 5 * int i" False "[0..<25]" "submit_begin 10 5 demo_shares"] by blast
  have b: "sender_of (submit_begin 10 5 demo_shares) 10 = Sending demo_share" by (simp add: demo_begin)
  show ?thesis by (rule sending_ends [OF b r]) (simp_all add: attempt_times_map demo_share_def del: upt_Suc)
qed

end
