(* ===== verification/Stratum_Thread.thy ===== *)
theory Stratum_Thread
  imports Stratum_Share
begin

text \<open>
  The receive thread of a stratum pool, \<open>stratum_rthread\<close> of \<open>src/cgminer/cgminer.c\<close>: what a
  line from the pool does to the connection, the pools, the staged work, the block table and the
  shares, and what the loss of the connection does.

  \<open>struct pool\<close> is split over several records here; the fields that the connection and the work
  queue both read are copied by \<open>publish\<close>. Starting a connection again is the argument
  \<open>link_restart\<close>, the memory that a notification allocates is \<open>fresh\<close>.
\<close>

section \<open>The state of a pool after a message\<close>

record link =
  shr_env :: env
  link_dbl :: "int \<Rightarrow> dbl"
  link_restart :: "stratum \<Rightarrow> bool \<times> stratum"
  link_version :: "json option \<Rightarrow> bool"
  fresh_memory :: "u8 list"
  link_target :: "dbl \<Rightarrow> u8 list"

definition publish :: "nat \<Rightarrow> stratum \<Rightarrow> shares_state \<Rightarrow> shares_state" where
  "publish a t s =
     (let s = s\<lparr>conn := (conn s)(a := t)\<rparr>;
          s = on_miner (upd_pool_work a (\<lambda>p. p\<lparr>p_stratum_notify := t_notify t,
                p_job_id := (case t_job_id t of None \<Rightarrow> p_job_id p | Some i \<Rightarrow> i)\<rparr>)) s
      in on_miner (on_pools (upd_pool a (\<lambda>p. p\<lparr>stratum_active := t_active t\<rparr>))) s)"

definition stratum_resumed :: "nat \<Rightarrow> shares_state \<Rightarrow> shares_state" where
  "stratum_resumed a s =
     (if \<not> t_notify (conn s a) then s
      else on_miner (on_pools (upd_pool a (\<lambda>p. p\<lparr>idle := False\<rparr>))) s)"

definition supports_resume :: "stratum \<Rightarrow> bool" where
  "supports_resume t \<longleftrightarrow> t_sessionid t \<noteq> None"

text \<open>A message that makes the miner leave for another address.\<close>

definition reconnects :: "stratum \<Rightarrow> json option \<Rightarrow> bool" where
  "reconnects t val \<longleftrightarrow>
     (json_object_get val ''error'' = None \<or> json_is_null (json_object_get val ''error'')) \<and>
     (case json_string_value (json_object_get val ''method'') of
        None \<Rightarrow> False
      | Some buf \<Rightarrow>
          \<not> strncasecmp_eq (text_of buf) ''mining.notify'' 13 \<and>
          \<not> strncasecmp_eq (text_of buf) ''mining.set_difficulty'' 21 \<and>
          strncasecmp_eq (text_of buf) ''client.reconnect'' 16 \<and>
          (case parse_reconnect t (json_object_get val ''params'') of Some (True, _) \<Rightarrow> True | _ \<Rightarrow> False))"

section \<open>A line from the pool\<close>

text \<open>After a clean job one item is generated, only to enter its block in the table.\<close>

definition update_blocks_from :: "link \<Rightarrow> int \<Rightarrow> nat \<Rightarrow> shares_state \<Rightarrow> shares_state option" where
  "update_blocks_from k now a s =
     (let (w, m) = make_work (sh_miner s);
          t = (conn s a)\<lparr>t_clean := False\<rparr>
      in case gen_stratum_work (link_target k) now a t w m of
           None \<Rightarrow> None
         | Some (t, w, m) \<Rightarrow>
             let w = w\<lparr>w_longpoll := True\<rparr>;
                 (_, w, m) = test_work_current w m
             in Some (publish a t (s\<lparr>sh_miner := m\<rparr>)))"

definition receive_line :: "link \<Rightarrow> int \<Rightarrow> nat \<Rightarrow> json option \<Rightarrow> shares_state \<Rightarrow> shares_state option" where
  "receive_line k now a val s =
     (let s = stratum_resumed a s
      in case parse_method (link_dbl k) (link_restart k) (link_version k) (fresh_memory k) (conn s a) val of
           None \<Rightarrow> None
         | Some (ok, t) \<Rightarrow>
             let s = (if reconnects (conn s a) val then on_miner (clear_pool_work a) s else s);
                 s = publish a t s
             in case (if ok then Some (True, s) else parse_stratum_response (shr_env k) now a val s) of
                  None \<Rightarrow> None
                | Some (handled, s) \<Rightarrow>
                    if handled \<and> t_clean (conn s a) then update_blocks_from k now a s else Some s)"

section \<open>A lost connection\<close>

definition died :: "nat \<Rightarrow> miner \<Rightarrow> miner" where
  "died a m =
     (let was_idle = idle (ps_pool (m_pools m) a);
          m = on_pools (upd_pool a (\<lambda>p. p\<lparr>idle := True\<rparr>)) m
      in if \<not> was_idle \<and> a = currentpool (m_pools m) then switch_away m else m)"

definition connection_lost :: "link \<Rightarrow> nat \<Rightarrow> shares_state \<Rightarrow> shares_state" where
  "connection_lost k a s =
     (let s = (if \<not> supports_resume (conn s a) \<or> opt_lowmem (shr_env k)
               then clear_stratum_shares (shr_env k) a s else s);
          s = on_miner (clear_pool_work a) s;
          s = (if a = currentpool (m_pools (sh_miner s)) then on_miner restart_threads s else s);
          (up, t) = link_restart k (conn s a);
          s = publish a t s
      in if up then s else on_miner (died a) s)"

text \<open>A turn of the loop that tries every 30 seconds until the pool is up again or removed.\<close>

definition connection_retry :: "link \<Rightarrow> nat \<Rightarrow> shares_state \<Rightarrow> bool \<times> shares_state" where
  "connection_retry k a s =
     (let (up, t) = link_restart k (conn s a);
          s = publish a t s
      in if up then (True, stratum_resumed a s) else (False, s))"

text \<open>A pool whose connection is not needed, with no bytes waiting to be read (\<open>sock_full\<close>), drops it,
  with the shares and the work.\<close>

definition connection_idle :: "link \<Rightarrow> bool \<Rightarrow> nat \<Rightarrow> shares_state \<Rightarrow> shares_state" where
  "connection_idle k sock_full a s =
     (if sock_full \<or> cnx_needed a (m_pools (sh_miner s)) then s
      else
        let s = publish a (suspend_stratum (conn s a)) s;
            s = clear_stratum_shares (shr_env k) a s
        in on_miner (clear_pool_work a) s)"


section \<open>A clean job\<close>

definition notification :: "job \<Rightarrow> json option" where
  "notification j = Some (JObject [(''params'', encode_job j), (''id'', JNull), (''method'', JString (chars ''mining.notify''))])"

lemma parse_notification:
  "parse_method dbl restart sv fresh t (notification j) =
     map_option (\<lambda>(ret, t). (ret, t\<lparr>t_notify := ret\<rparr>)) (parse_notify fresh t (Some (encode_job j)))"
  by (simp add: parse_method_def notification_def text_of_chars Let_def strncasecmp_eq_def json_is_null_def)

lemma notification_stays: "\<not> reconnects t (notification j)"
  by (simp add: reconnects_def notification_def text_of_chars strncasecmp_eq_def)

lemma ready_flags:
  "ready (t\<lparr>t_clean := x\<rparr>) j = ready t j" "ready (t\<lparr>t_notify := x\<rparr>) j = ready t j"
proof -
  have "job_coinbase j (t\<lparr>t_clean := x\<rparr>) n = job_coinbase j t n" "job_coinbase j (t\<lparr>t_notify := x\<rparr>) n = job_coinbase j t n" for n
    by (simp_all add: job_coinbase_def)
  then show "ready (t\<lparr>t_clean := x\<rparr>) j = ready t j" "ready (t\<lparr>t_notify := x\<rparr>) j = ready t j"
    by (simp_all add: ready_def holds_job_def)
qed

text \<open>A job for the connection, with a coinbase that can be hashed.\<close>

definition fits_link :: "job \<Rightarrow> stratum \<Rightarrow> bool" where
  "fits_link j t \<longleftrightarrow> subscribed t \<and> 0 \<le> t_n2size t \<and> t_n2size t \<le> 8 \<and> job_ok j \<and>
     length (j_cb1 j) + t_n1_len t + nat (t_n2size t) + length (j_cb2 j) < 2 ^ 29"

lemma notified_ready:
  assumes "fits_link j t" and "length fresh = 32"
  obtains t' where "parse_notify fresh t (Some (encode_job j)) = Some (True, t')" "ready t' j"
    "t_clean t' = j_clean j" "t_nonce2 t' = (if j_clean j then 0 else t_nonce2 t)"
proof -
  obtain t' where t': "parse_notify fresh t (Some (encode_job j)) = Some (True, t')" "holds_job t' j" "subscribed t'"
    "t_n2size t' = t_n2size t" "t_nonce1 t' = t_nonce1 t" "t_clean t' = j_clean j"
    "t_nonce2 t' = (if j_clean j then 0 else t_nonce2 t)" "t_nonce1bin t' = t_nonce1bin t"
    using notify_round_trip [of t j fresh] assms by (auto simp: fits_link_def)
  have n1: "length (t_nonce1bin t) = t_n1_len t" using assms(1) by (simp add: fits_link_def subscribed_def)
  have "t_coinbase_len t' < 2 ^ 29"
    using t'(2,4,8) assms(1) n1 by (auto simp: holds_job_def fits_link_def job_coinbase_def)
  then have "ready t' j" using t' assms(1) by (simp add: ready_def fits_link_def subscribed_def)
  then show ?thesis using t' by (intro that) simp_all
qed

lemma block_moved:
  assumes "test_work_current w m = (r, w', m')" and "\<not> w_mandatory w" and "w_longpoll w"
    and "new_blocks m \<noteq> 0 \<or> block_exists (bin2hex (work_prev w)) m"
  shows "work_block m' = work_block m + 1" "opt_benchmark m' = opt_benchmark m"
  using assms by (auto simp: test_work_current_def Let_def add_block_def set_curblock_def upd_pool_work_def
    restart_threads_def split: if_splits)

lemma work_prev_of:
  "length (w_data w) = 128 \<Longrightarrow> take 80 (w_data w) = take 80 d \<Longrightarrow> length d = 128 \<Longrightarrow> work_prev w = swap256 (replicate 32 0) (sub_list d 4 32)"
proof -
  assume "take 80 (w_data w) = take 80 d"
  from arg_cong [OF this, of "\<lambda>x. take 32 (drop 4 x)"]
  show ?thesis by (simp add: work_prev_def sub_list_def drop_take)
qed


lemma publish_simps:
  "conn (publish a t s) = (conn s)(a := t)" "stratum_shares (publish a t s) = stratum_shares s"
  "work_block (sh_miner (publish a t s)) = work_block (sh_miner s)"
  "new_blocks (sh_miner (publish a t s)) = new_blocks (sh_miner s)"
  "blocks (sh_miner (publish a t s)) = blocks (sh_miner s)"
  "opt_benchmark (sh_miner (publish a t s)) = opt_benchmark (sh_miner s)"
  "m_locals (sh_miner (publish a t s)) = m_locals (sh_miner s)"
  by (simp_all add: publish_def on_miner_def on_pools_def upd_pool_work_def Let_def)

lemma resumed_simps:
  "conn (stratum_resumed a s) = conn s"
  "work_block (sh_miner (stratum_resumed a s)) = work_block (sh_miner s)"
  "new_blocks (sh_miner (stratum_resumed a s)) = new_blocks (sh_miner s)"
  "blocks (sh_miner (stratum_resumed a s)) = blocks (sh_miner s)"
  "opt_benchmark (sh_miner (stratum_resumed a s)) = opt_benchmark (sh_miner s)"
  "m_locals (sh_miner (stratum_resumed a s)) = m_locals (sh_miner s)"
  by (simp_all add: stratum_resumed_def on_miner_def on_pools_def)

lemma make_work_simps:
  "w_data (fst (make_work m)) = replicate 128 0" "w_midstate (fst (make_work m)) = replicate 32 0"
  "\<not> w_mandatory (fst (make_work m))"
  "work_block (snd (make_work m)) = work_block m" "new_blocks (snd (make_work m)) = new_blocks m"
  "blocks (snd (make_work m)) = blocks m" "opt_benchmark (snd (make_work m)) = opt_benchmark m"
  "m_locals (snd (make_work m)) = m_locals m"
  by (simp_all add: make_work_def total_work_inc_def zero_work_def Let_def)

lemma block_known:
  "test_work_current w m = (r, w', m') \<Longrightarrow> \<not> w_mandatory w \<Longrightarrow> block_exists (bin2hex (work_prev w)) m'"
  by (auto simp: test_work_current_def block_exists_def Let_def add_block_def set_curblock_def upd_pool_work_def
    restart_threads_def split: if_splits)

text \<open>The key of a job's block in the table.\<close>

definition job_block :: "job \<Rightarrow> u8 list" where
  "job_block j = bin2hex (swap256 (replicate 32 0) (j_prev j))"

lemma update_blocks_ready:
  assumes "ready (conn s a) j" and "locals_ok (m_locals (sh_miner s))"
    and "new_blocks (sh_miner s) \<noteq> 0 \<or> block_exists (job_block j) (sh_miner s)"
  obtains s' where "update_blocks_from k now a s = Some s'" "ready (conn s' a) j"
    "t_nonce2 (conn s' a) = t_nonce2 (conn s a) + 1" "\<not> t_clean (conn s' a)"
    "work_block (sh_miner s') = work_block (sh_miner s) + 1"
    "opt_benchmark (sh_miner s') = opt_benchmark (sh_miner s)" "block_exists (job_block j) (sh_miner s')"
proof -
  define w m where "w = fst (make_work (sh_miner s))" and "m = snd (make_work (sh_miner s))"
  let ?t = "(conn s a)\<lparr>t_clean := False\<rparr>"
  have r: "ready ?t j" using assms(1) by (simp add: ready_flags)
  have l: "locals_ok (m_locals m)" "length (w_data w) = 128" "length (w_midstate w) = 32"
    using assms(2) by (simp_all add: w_def m_def make_work_simps)
  obtain c d where g: "gen_stratum_work (link_target k) now a ?t w m =
      Some (?t\<lparr>t_coinbase := c, t_nonce2 := t_nonce2 ?t + 1\<rparr>, stratum_item (link_target k) now a ?t j w m d,
        m\<lparr>local_work := local_work m + 1\<rparr>)"
    and d: "take 80 d = mined_header j ?t" "length d = 128"
    and r': "ready (?t\<lparr>t_coinbase := c, t_nonce2 := t_nonce2 ?t + 1\<rparr>) j"
    by (rule gen_stratum_work_ready [OF r l])
  define v where "v = (stratum_item (link_target k) now a ?t j w m d)\<lparr>w_longpoll := True\<rparr>"
  obtain q v' m' where tw: "test_work_current v (m\<lparr>local_work := local_work m + 1\<rparr>) = (q, v', m')"
    using prod_cases3 by blast
  have vd: "w_data v = d" "\<not> w_mandatory v" "w_longpoll v"
    using make_work_simps(3) [of "sh_miner s"] by (simp_all add: v_def stratum_item_def w_def)
  have j: "job_ok j" using assms(1) by (simp add: ready_def)
  have "sub_list d 4 32 = j_prev j"
  proof -
    have "sub_list d 4 32 = take 32 (drop 4 (take 80 d))" by (simp add: sub_list_def drop_take)
    then show ?thesis using j by (simp add: d mined_header_def job_ok_def)
  qed
  then have p: "bin2hex (work_prev v) = job_block j" by (simp add: work_prev_def vd job_block_def)
  have nb: "new_blocks (m\<lparr>local_work := local_work m + 1\<rparr>) \<noteq> 0 \<or>
      block_exists (bin2hex (work_prev v)) (m\<lparr>local_work := local_work m + 1\<rparr>)"
    using assms(3) by (simp add: p m_def make_work_simps block_exists_def)
  note b = block_moved [OF tw vd(2,3) nb] block_known [OF tw vd(2)]
  have "update_blocks_from k now a s =
      Some (publish a (?t\<lparr>t_coinbase := c, t_nonce2 := t_nonce2 ?t + 1\<rparr>) (s\<lparr>sh_miner := m'\<rparr>))"
    using g tw by (simp add: update_blocks_from_def Let_def w_def [symmetric] m_def [symmetric] case_prod_beta v_def)
  then show ?thesis
    by (rule that) (use r' b p in \<open>simp_all add: publish_simps m_def make_work_simps block_exists_def\<close>)
qed

text \<open>C13: A clean job makes all earlier work stale: when the pool sends one, the connection holds the
  job and the first of its items has been used to enter the block in the table; the number of the
  current block has moved on, so that every item staged or handed out before is stale, whatever
  its age and pool.\<close>

theorem clean_job_makes_work_stale:
  assumes "fits_link j (conn s a)" and "j_clean j" and "locals_ok (m_locals (sh_miner s))"
    and "length (fresh_memory k) = 32" and "\<not> opt_benchmark (sh_miner s)"
    and "new_blocks (sh_miner s) \<noteq> 0 \<or> block_exists (job_block j) (sh_miner s)"
  shows "\<exists>s'. receive_line k now a (notification j) s = Some s' \<and> ready (conn s' a) j \<and>
    t_nonce2 (conn s' a) = 1 \<and> \<not> t_clean (conn s' a) \<and> block_exists (job_block j) (sh_miner s') \<and>
    (\<forall>w. w_work_block w = work_block (sh_miner s) \<longrightarrow> stale_work later w share (sh_miner s'))"
proof -
  let ?s = "stratum_resumed a s"
  obtain t' where t': "parse_notify (fresh_memory k) (conn s a) (Some (encode_job j)) = Some (True, t')" "ready t' j"
    "t_clean t'" "t_nonce2 t' = 0"
    using notified_ready [OF assms(1,4)] assms(2) by metis
  define t where "t = t'\<lparr>t_notify := True\<rparr>"
  define u where "u = publish a t ?s"
  have "ready t j" using t'(2) by (simp add: t_def ready_flags)
  then have u: "ready (conn u a) j" "locals_ok (m_locals (sh_miner u))"
      "new_blocks (sh_miner u) \<noteq> 0 \<or> block_exists (job_block j) (sh_miner u)"
    using assms(3,6) by (simp_all add: u_def publish_simps resumed_simps block_exists_def)
  obtain s' where s': "update_blocks_from k now a u = Some s'" "ready (conn s' a) j"
    "t_nonce2 (conn s' a) = t_nonce2 (conn u a) + 1" "\<not> t_clean (conn s' a)"
    "work_block (sh_miner s') = work_block (sh_miner u) + 1"
    "opt_benchmark (sh_miner s') = opt_benchmark (sh_miner u)" "block_exists (job_block j) (sh_miner s')"
    by (rule update_blocks_ready [OF u])
  have "receive_line k now a (notification j) s = update_blocks_from k now a u"
    using t'(1,3) by (simp add: receive_line_def parse_notification notification_stays Let_def resumed_simps
      u_def t_def publish_simps)
  then show ?thesis using s' assms(5) t'(4)
    by (intro exI [of _ s']) (simp add: u_def t_def publish_simps resumed_simps stale_work_def)
qed


section \<open>What is lost with a connection\<close>

lemma staged_steps:
  "staged_work (sh_miner (publish a t s)) = staged_work (sh_miner s)"
  "set (staged_work (died a m)) \<subseteq> set (staged_work m)"
  "staged_work (restart_threads m) = staged_work m"
  "staged_work (clear_pool_work a m) = filter (\<lambda>w. w_pool w \<noteq> Some a) (staged_work m)"
  by (auto simp: publish_def on_miner_def on_pools_def upd_pool_work_def Let_def died_def switch_away_def
    clear_pool_work_def restart_threads_def case_prod_beta)

lemma m_pool_died: "m_pool (died a m) = m_pool m"
  by (simp add: died_def Let_def shr)

lemma account_publish: "account b (publish a t s) = account b s"
  by (rule account_cong)
    (simp_all add: publish_def settled_def pending_def in_hand_def Let_def shr)

lemma account_on_miner: "(\<And>m. m_pool (f m) = m_pool m) \<Longrightarrow> account b (on_miner f s) = account b s"
  by (rule account_cong) (simp_all add: settled_def pending_def in_hand_def shr)

lemma account_clear: "account b (clear_stratum_shares e a s) = account b s"
  using pending_lost [of b a "\<lambda>x. True" "stratum_shares s"]
  by (cases "b = a") (simp_all add: account_settled clear_frame in_hand_def pending_def algebra_simps)


section \<open>A pool to try\<close>

definition demo_link :: link where
  "demo_link = \<lparr>shr_env = demo_env, link_dbl = (\<lambda>i. 0), link_restart = (\<lambda>t. (True, t)),
     link_version = (\<lambda>j. True), fresh_memory = replicate 32 0, link_target = (\<lambda>d. replicate 32 0)\<rparr>"

lemma demo_fits: "fits_link (demo_job\<lparr>j_clean := True\<rparr>) demo_stratum"
  using demo_subscribed demo_job_ok by (simp add: fits_link_def demo_stratum_def demo_job_def job_ok_def)

theorem clean_job_makes_work_stale_witness:
  "\<exists>s'. receive_line demo_link 5 10 (notification (demo_job\<lparr>j_clean := True\<rparr>))
       (demo_shares\<lparr>sh_miner := (sh_miner demo_shares)\<lparr>new_blocks := 3\<rparr>\<rparr>) = Some s' \<and>
     stale_work 5 demo_work False (sh_miner s')"
proof -
  let ?s = "demo_shares\<lparr>sh_miner := (sh_miner demo_shares)\<lparr>new_blocks := 3\<rparr>\<rparr>"
  have c: "conn ?s 10 = demo_stratum" by (simp add: demo_shares_def)
  have "locals_ok (m_locals (sh_miner ?s))" "\<not> opt_benchmark (sh_miner ?s)" "new_blocks (sh_miner ?s) \<noteq> 0"
    "w_work_block demo_work = work_block (sh_miner ?s)"
    using demo_locals_ok by (simp_all add: demo_shares_def demo_miner_def demo_work_def zero_work_def)
  then show ?thesis
    using clean_job_makes_work_stale [of "demo_job\<lparr>j_clean := True\<rparr>" ?s 10 demo_link 5 5 False] demo_fits
    unfolding c by (fastforce simp: demo_link_def)
qed


end
