(* ===== verification/Gbt_Solo.thy ===== *)
theory Gbt_Solo
  imports Gbt Stratum_Work "HOL-Library.Monad_Syntax"
begin

text \<open>
  Mining on the user's own node, from \<open>src/cgminer/cgminer.c\<close>: \<open>gbt_solo_decode\<close>, which builds
  the coinbase transaction from a block template, \<open>__setup_gbt_solo\<close>, which writes the address
  of the user into it, \<open>gen_solo_work\<close> and \<open>update_gbt_solo\<close>.

  The transactions of the template are decoded as in \<open>Gbt\<close>. \<open>None\<close> is a memory fault or the end of
  the program by \<open>quit\<close>. The buffer \<open>scriptsig_base\<close> has 100 bytes.
\<close>

section \<open>The state\<close>

record solo =
  so_template :: template
  so_prev_hash :: "u8 list"
  so_bbversion :: "u8 list"
  so_nbit :: "u8 list"
  so_ntime :: "u8 list"
  so_sdiff :: dbl
  so_height :: int
  so_scriptsig_base :: "u8 list"
  so_script_pubkey :: "u8 list"
  so_n1_len :: nat
  so_header_bin :: "u8 list"

section \<open>The script of the coinbase\<close>

definition cgminer_tag :: "u8 list" where
  "cgminer_tag = [0x09, 0x63, 0x67, 0x6d, 0x69, 0x6e, 0x65, 0x72, 0x34, 0x32]"

text \<open>
  The script with its length in front: the buffer, the offset of the extra nonce in it and its
  length \<open>ofs\<close>. \<open>sec\<close> and \<open>usec\<close> are the time.
\<close>

definition solo_script ::
    "u32 \<Rightarrow> u32 \<Rightarrow> u8 list option \<Rightarrow> int \<Rightarrow> u8 list \<Rightarrow> u8 list \<Rightarrow> (u8 list \<times> nat \<times> nat) option" where
  "solo_script sec usec btc_sig height flags base =
     (let base = memcpy_at base 0 (replicate 42 0);
          ofs = 1;
          (ser, used) = ser_number height
      in do {
        base \<leftarrow> poke base (int ofs) ser;
        let ofs = ofs + used;
        let len = length flags div 2;
        base \<leftarrow> poke base (int ofs) [of_nat len];
        let ofs = ofs + 1;
        base \<leftarrow> hex_into base ofs flags len;
        let ofs = ofs + len;
        base \<leftarrow> poke base (int ofs) (0xfe # le32_bytes sec);
        let ofs = ofs + 5;
        base \<leftarrow> poke base (int ofs) (0xfe # le32_bytes usec);
        let ofs = ofs + 5;
        base \<leftarrow> poke base (int ofs) cgminer_tag;
        let ofs = ofs + 10;
        base \<leftarrow> poke base (int ofs) [8];
        let nonce2 = ofs + 1;
        let ofs = nonce2 + 8;
        (base, ofs) \<leftarrow>
          (case btc_sig of
             None \<Rightarrow> Some (base, ofs)
           | Some sig \<Rightarrow>
               (let sig = take 32 sig
                in map_option (\<lambda>base. (base, ofs + 1 + length sig))
                     (poke base (int ofs) (of_nat (length sig) # sig))));
        base \<leftarrow> poke base 0 [of_nat ofs];
        Some (base, nonce2, ofs)
      })"

text \<open>The coinbase around the script; the first 41 bytes and the output script are written by
  \<open>__setup_gbt_solo\<close>. The script is copied with one byte behind it.\<close>

definition solo_coinbase :: "u8 list \<Rightarrow> nat \<Rightarrow> u64 \<Rightarrow> u8 list option" where
  "solo_coinbase base n1_len coinbasevalue =
     (if n1_len > length base then None
      else
        do {
          let coinbase = replicate (41 + n1_len + 4 + 1 + 8 + 1 + 25 + 4) 0;
          coinbase \<leftarrow> poke coinbase 41 (take n1_len base);
          coinbase \<leftarrow> poke coinbase (int (41 + n1_len)) [0xff, 0xff, 0xff, 0xff];
          coinbase \<leftarrow> poke coinbase (int (41 + n1_len + 4)) [1];
          poke coinbase (int (41 + n1_len + 5)) (le64_bytes coinbasevalue)
        })"

definition solo_header :: "solo \<Rightarrow> u8 list" where
  "solo_header t = take 224 (so_bbversion t @ so_prev_hash t @ zeros 64 @ so_ntime t @ so_nbit t @ zeros 8 @ workpadding)"

text \<open>Numbers are read as \<open>int\<close>; \<open>%08x\<close> prints the bits of the number.\<close>

definition gbt_solo_decode ::
    "(u8 list \<Rightarrow> dbl) \<Rightarrow> (u8 list \<Rightarrow> u8 list) \<Rightarrow> u8 \<Rightarrow> u32 \<Rightarrow> u32 \<Rightarrow> u8 list option \<Rightarrow> json option \<Rightarrow> solo \<Rightarrow>
     (bool \<times> solo) option" where
  "gbt_solo_decode diff_from_target H junk sec usec btc_sig res_val t =
     (let version = word_of_int (json_integer_value (json_object_get res_val ''version'')) :: u32;
          curtime = word_of_int (json_integer_value (json_object_get res_val ''curtime'')) :: u32;
          height = sint (word_of_int (json_integer_value (json_object_get res_val ''height'')) :: u32);
          coinbasevalue = word_of_int (json_integer_value (json_object_get res_val ''coinbasevalue'')) :: u64;
          coinbase_aux = json_object_get res_val ''coinbaseaux''
      in case (json_string_value (json_object_get res_val ''previousblockhash''),
               json_string_value (json_object_get res_val ''target''),
               json_string_value (json_object_get res_val ''bits''),
               json_string_value (json_object_get coinbase_aux ''flags'')) of
        (Some previousblockhash, Some target, Some bits, Some flags) \<Rightarrow>
          if version = 0 \<or> curtime = 0 then Some (False, t)
          else
            let g = so_template t;
                hash_swap = fst (hex2bin (replicate 32 junk) previousblockhash 32);
                g = g\<lparr>g_previousblockhash := swap256 (g_previousblockhash g) hash_swap\<rparr>;
                t = t\<lparr>so_prev_hash := bin2hex (g_previousblockhash g)\<rparr>;
                hash_swap = fst (hex2bin hash_swap target 32);
                g = g\<lparr>g_target := swab256 (g_target g) hash_swap\<rparr>;
                t = t\<lparr>so_sdiff := diff_from_target (g_target g)\<rparr>;
                g = g\<lparr>g_version := be32_bytes version, g_curtime := be32_bytes curtime\<rparr>;
                t = t\<lparr>so_ntime := bin2hex (be32_bytes curtime), so_bbversion := bin2hex (be32_bytes version),
                      so_nbit := take 8 bits\<rparr>;
                g = g\<lparr>g_bits := fst (hex2bin (g_bits g) bits 4)\<rparr>
            in do {
              g \<leftarrow> gbt_merkle_bins H junk (json_object_get res_val ''transactions'') g;
              let t = t\<lparr>so_height := height\<rparr>;
              (base, nonce2, ofs) \<leftarrow> solo_script sec usec btc_sig height flags (so_scriptsig_base t);
              let t = t\<lparr>so_scriptsig_base := base, so_n1_len := ofs + 1\<rparr>;
              coinbase \<leftarrow> solo_coinbase base (ofs + 1) coinbasevalue;
              let t = t\<lparr>so_template := g\<lparr>g_nonce2_offset := 41 + nonce2, g_coinbase := coinbase, g_nonce2 := 0,
                    g_n2size := 4, g_coinbase_len := 41 + (ofs + 1) + 4 + 1 + 8 + 1 + 25 + 4\<rparr>\<rparr>;
              (case hex2bin (so_header_bin t) (solo_header t) 112 of
                 (h, ok) \<Rightarrow> if ok then Some (True, t\<lparr>so_header_bin := h\<rparr>) else None)
            }
      | _ \<Rightarrow> Some (False, t))"

section \<open>The address\<close>

text \<open>\<open>scriptsig_header_bin\<close>, after \<open>setup_gbt_solo\<close> has decoded it.\<close>

definition scriptsig_header_bin :: "u8 list" where
  "scriptsig_header_bin = [1, 0, 0, 0, 1] @ replicate 32 0 @ [0xff, 0xff, 0xff, 0xff]"

definition setup_coinbase :: "solo \<Rightarrow> solo option" where
  "setup_coinbase t =
     (let g = so_template t; n = so_n1_len t
      in do {
        c \<leftarrow> poke (g_coinbase g) 0 scriptsig_header_bin;
        c \<leftarrow> poke c (int (41 + n + 4 + 1 + 8)) [25];
        c \<leftarrow> poke c (int (41 + n + 4 + 1 + 8 + 1)) (take 25 (so_script_pubkey t));
        Some (t\<lparr>so_template := g\<lparr>g_coinbase := c\<rparr>\<rparr>)
      })"

text \<open>The answer of the node to \<open>validateaddress\<close> is given. An address that is not base 58 writes
  nothing into the script.\<close>

definition setup_gbt_solo :: "u8 list option \<Rightarrow> json option \<Rightarrow> solo \<Rightarrow> (bool \<times> solo) option" where
  "setup_gbt_solo address val t =
     (case address of
        None \<Rightarrow> Some (False, t)
      | Some addr \<Rightarrow>
          if json_object_get val ''result'' = None then Some (False, t)
          else if json_object_get (json_object_get val ''result'') ''isvalid'' = None then Some (False, t)
          else if \<not> json_is_true (json_object_get (json_object_get val ''result'') ''isvalid'') then Some (False, t)
          else
            let t = (case address_to_pubkeyhash addr of
                       None \<Rightarrow> t
                     | Some k \<Rightarrow> t\<lparr>so_script_pubkey := memcpy_at (so_script_pubkey t) 0 k\<rparr>)
            in map_option (\<lambda>t. (True, t)) (setup_coinbase t))"

section \<open>Work\<close>

text \<open>\<open>t\<close> is the state after the update that \<open>gen_solo_work\<close> asks the node for when the template is
  older than a minute.\<close>

definition gen_solo_work :: "int \<Rightarrow> nat \<Rightarrow> solo \<Rightarrow> work \<Rightarrow> miner \<Rightarrow> (solo \<times> work \<times> miner) option" where
  "gen_solo_work now pool t w s =
     (let l = m_locals s;
          g = so_template t
      in case poke (g_coinbase g) (int (g_nonce2_offset g)) (take (g_n2size g) (le64_bytes (g_nonce2 g))) of
           None \<Rightarrow> None
         | Some coinbase \<Rightarrow>
           let g = g\<lparr>g_coinbase := coinbase\<rparr>;
               w = w\<lparr>w_nonce2 := g_nonce2 g, w_nonce2_len := g_n2size g, w_gbt_txns := int (g_transactions g) + 1\<rparr>;
               g = g\<lparr>g_nonce2 := g_nonce2 g + 1\<rparr>;
               cb = take (g_coinbase_len g) coinbase;
               w = w\<lparr>w_coinbase := Some (bin2hex cb)\<rparr>;
               root = merkleroot (hash_of l) cb (g_merklebin g);
               root = flip32 root root;
               w = w\<lparr>w_data := memcpy_at (w_data w) 0 (take 112 (so_header_bin t))\<rparr>;
               w = w\<lparr>w_data := memcpy_at (w_data w) 36 root\<rparr>;
               w = w\<lparr>w_sdiff := so_sdiff t, w_ntime := Some (so_ntime t), w_target := g_target g\<rparr>;
               w = w\<lparr>w_midstate := calc_midstate (st_ctx l) (take 64 (st_swap l)) (w_data w) (w_midstate w)\<rparr>;
               s = s\<lparr>local_work := local_work s + 1\<rparr>;
               w = w\<lparr>w_gbt := True, w_pool := Some pool, w_nonce := 0, w_longpoll := False,
                     w_work_block := work_block s, w_drv_rolllimit := 60, tv_staged := now\<rparr>
           in Some (t\<lparr>so_template := g\<rparr>, w, s))"

text \<open>An update with the answer of the node: on success the first item is staged.\<close>

definition update_gbt_solo ::
    "(json option \<Rightarrow> solo \<Rightarrow> (bool \<times> solo) option) \<Rightarrow> int \<Rightarrow> nat \<Rightarrow> json option \<Rightarrow> solo \<Rightarrow> miner \<Rightarrow>
     (solo \<times> miner) option" where
  "update_gbt_solo decode now pool val t s =
     (let (w, s) = make_work s;
          res_val = json_object_get val ''result'';
          t = t\<lparr>so_template := (so_template t)\<lparr>g_lastwork := now\<rparr>\<rparr>
      in if res_val = None \<or> json_is_null res_val then Some (t, s)
         else do {
           (ok, t) \<leftarrow> decode res_val t;
           if \<not> ok then Some (t, s)
           else do {
             t \<leftarrow> setup_coinbase t;
             (t, w, s) \<leftarrow> gen_solo_work now pool t w s;
             Some (t, stage_work w s)
           }
         })"


section \<open>The transaction\<close>

text \<open>A buffer written up to some point: what is written and the rest.\<close>

definition filled :: "u8 list \<Rightarrow> u8 list \<Rightarrow> u8 list" where
  "filled pre rest = pre @ rest"

lemma poke_filled:
  "i = int (length pre) \<Longrightarrow> length bs \<le> length rest \<Longrightarrow>
     poke (filled pre rest) i bs = Some (filled (pre @ bs) (drop (length bs) rest))"
  by (simp add: poke_def memcpy_at_def filled_def)

lemma hex_into_filled:
  assumes "n = length pre" and "length bs \<le> length rest" and "k = length bs"
  shows "hex_into (filled pre rest) n (bin2hex bs) k = Some (filled (pre @ bs) (drop (length bs) rest))"
  using hex_into_prefix [of pre n "take (length bs) rest" bs "drop (length bs) rest" "[]"] assms
  by (simp add: filled_def)

lemma filled_skip: "filled pre rest = filled (pre @ take k rest) (drop k rest)"
  by (simp add: filled_def)

definition sig_push :: "u8 list option \<Rightarrow> u8 list" where
  "sig_push sig = (case sig of None \<Rightarrow> [] | Some s \<Rightarrow> of_nat (length (take 32 s)) # take 32 s)"

lemma length_sig_push: "length (sig_push sig) \<le> 33"
  by (simp add: sig_push_def split: option.split)

definition height_push :: "int \<Rightarrow> u8 list" where
  "height_push h = take (snd (ser_number h)) (fst (ser_number h))"

lemma ser_number_used:
  "length (fst (ser_number h)) = 5" "2 \<le> snd (ser_number h)" "snd (ser_number h) \<le> 5"
  by (simp_all add: ser_number_def layout Let_def)

text \<open>The part of the script before the extra nonce, and the part behind it.\<close>

definition script_front :: "u32 \<Rightarrow> u32 \<Rightarrow> int \<Rightarrow> u8 list \<Rightarrow> u8 list" where
  "script_front sec usec height f = height_push height @ [of_nat (length f)] @ f @ (0xfe # le32_bytes sec) @
     (0xfe # le32_bytes usec) @ cgminer_tag @ [8]"

lemma length_script_front: "length (script_front sec usec height f) = snd (ser_number height) + length f + 22"
  using ser_number_used [of height] by (simp add: script_front_def height_push_def cgminer_tag_def layout)

text \<open>The number is written with all its four bytes and the next field goes over the unused ones.\<close>

lemma height_written:
  assumes "length rest = 99"
  shows "poke (filled [b] rest) 1 (fst (ser_number height)) =
    Some (filled (b # height_push height) (drop (snd (ser_number height)) (fst (ser_number height)) @ drop 5 rest))"
proof -
  have "poke (filled [b] rest) 1 (fst (ser_number height)) = Some (filled ([b] @ fst (ser_number height)) (drop 5 rest))"
    using poke_filled [of 1 "[b]" "fst (ser_number height)" rest] assms ser_number_used [of height] by simp
  then show ?thesis by (simp add: filled_def height_push_def)
qed

definition script_of :: "u32 \<Rightarrow> u32 \<Rightarrow> u8 list option \<Rightarrow> int \<Rightarrow> u8 list \<Rightarrow> u8 list \<Rightarrow> u8 list" where
  "script_of sec usec sig height f x = script_front sec usec height f @ x @ sig_push sig"

lemma solo_script_layout:
  assumes "length base = 100" and "length f + length (sig_push sig) \<le> 61"
  obtains x rest where
    "solo_script sec usec sig height (bin2hex f) base =
      Some ((of_nat (length (script_of sec usec sig height f x) + 1) # script_of sec usec sig height f x) @ rest,
        length (script_front sec usec height f) + 1, length (script_of sec usec sig height f x) + 1)"
    "length x = 8" "rest \<noteq> []"
proof -
  obtain b r where b: "memcpy_at base 0 (replicate 42 0) = filled [b] r" "length r = 99"
    using assms(1) by (cases "memcpy_at base 0 (replicate 42 0)") (auto simp: filled_def dest: arg_cong [of _ _ length] simp: layout)
  let ?n = "snd (ser_number height)" and ?ser = "fst (ser_number height)"
  note u = ser_number_used [of height]
  have h: "length (height_push height) = ?n" using u by (simp add: height_push_def)
  have ct: "length cgminer_tag = 10" by (simp add: cgminer_tag_def)
  define r1 where "r1 = drop ?n ?ser @ drop 5 r"
  have r1: "length r1 = 99 - ?n" using u b(2) by (simp add: r1_def)
  define p where "p = b # script_front sec usec height f"
  define x where "x = take 8 (drop (length f + 22) r1)"
  define r2 where "r2 = drop (8 + length (sig_push sig)) (drop (length f + 22) r1)"
  have x: "length x = 8" using r1 u assms(2) by (simp add: x_def)
  have r2: "r2 \<noteq> []" using r1 u assms(2) by (simp add: r2_def)
  let ?z = "script_of sec usec sig height f x"
  have z0: "poke (filled (b # s) q) 0 [c] = Some (filled (c # s) q)" for s q c
    by (simp add: poke_def filled_def memcpy_at_def)
  have lz: "length ?z = ?n + length f + 30 + length (sig_push sig)"
    using x by (simp add: script_of_def length_script_front)
  have sk: "filled pre (drop (22 + length f) r1) = filled (pre @ x) (drop (30 + length f) r1)" for pre
    using append_take_drop_id [of 8 "drop (length f + 22) r1"] by (simp add: filled_def x_def add.commute)
  have e: "solo_script sec usec sig height (bin2hex f) base =
      Some (filled (of_nat (length ?z + 1) # ?z) r2, length (script_front sec usec height f) + 1, length ?z + 1)"
  proof (cases sig)
    case None
    then show ?thesis using u h r1 assms(2) ct x
      by (simp add: solo_script_def Let_def b(1) height_written [OF b(2)] case_prod_beta r1_def [symmetric] length_bin2hex
        poke_filled hex_into_filled layout lz length_script_front sk z0)
       (simp add: script_of_def r2_def sig_push_def script_front_def add.commute layout)
  next
    case (Some s)
    then show ?thesis using u h r1 assms(2) ct x
      by (simp add: solo_script_def Let_def b(1) height_written [OF b(2)] case_prod_beta r1_def [symmetric] length_bin2hex
        poke_filled hex_into_filled layout lz length_script_front sk sig_push_def z0)
       (simp add: script_of_def r2_def sig_push_def script_front_def add.commute add.left_commute layout)
  qed
  show ?thesis by (rule that [OF _ x r2]) (simp add: e filled_def)
qed


definition solo_transaction :: "u8 list \<Rightarrow> u64 \<Rightarrow> u8 list \<Rightarrow> u8 list" where
  "solo_transaction script value pubkey = scriptsig_header_bin @ [of_nat (length script)] @ script @
     replicate 4 0xff @ [1] @ le64_bytes value @ [25] @ pubkey @ replicate 4 0"

lemma length_header_bin: "length scriptsig_header_bin = 41"
  by (simp add: scriptsig_header_bin_def)

lemma solo_coinbase_written:
  assumes "n \<le> length base"
  shows "solo_coinbase base n v =
    Some (replicate 41 0 @ take n base @ replicate 4 0xff @ [1] @ le64_bytes v @ replicate 30 0)"
proof -
  have z: "replicate (41 + n + 4 + 1 + 8 + 1 + 25 + 4) 0 = filled (replicate 41 0) (replicate (n + 43) (0 :: u8))"
    by (simp add: filled_def flip: replicate_add)
  show ?thesis using assms unfolding solo_coinbase_def Let_def z
    by (simp add: poke_filled layout) (simp add: filled_def numeral_eq_Suc)
qed

lemma poke_part: "i = int (length a) \<Longrightarrow> length b = length src \<Longrightarrow> poke (a @ b @ c) i src = Some (a @ src @ c)"
  using poke_at by blast

lemma setup_coinbase_written:
  assumes "g_coinbase (so_template t) = replicate 41 0 @ ls @ replicate 4 0xff @ [1] @ le64_bytes v @ replicate 30 0"
    and "length ls = so_n1_len t" and "length (so_script_pubkey t) = 28"
  shows "setup_coinbase t = Some (t\<lparr>so_template := (so_template t)\<lparr>g_coinbase :=
    scriptsig_header_bin @ ls @ replicate 4 0xff @ [1] @ le64_bytes v @ [25] @ take 25 (so_script_pubkey t) @ replicate 4 0\<rparr>\<rparr>)"
proof -
  have z: "replicate 30 (0 :: u8) = [0] @ replicate 25 0 @ replicate 4 0" by (simp add: numeral_eq_Suc)
  let ?m = "ls @ replicate 4 0xff @ [1] @ le64_bytes v"
  have 1: "poke (g_coinbase (so_template t)) 0 scriptsig_header_bin = Some ((scriptsig_header_bin @ ?m) @ [0] @ replicate 25 0 @ replicate 4 0)"
    using poke_part [of 0 "[]" "replicate 41 0" scriptsig_header_bin "?m @ replicate 30 0"]
    by (simp add: assms(1) length_header_bin z)
  have 2: "poke ((scriptsig_header_bin @ ?m) @ [0] @ replicate 25 0 @ replicate 4 0) (int (41 + so_n1_len t + 4 + 1 + 8)) [25] =
      Some ((scriptsig_header_bin @ ?m) @ [25] @ replicate 25 0 @ replicate 4 0)"
    by (rule poke_part) (simp_all add: length_header_bin assms(2) layout)
  have 3: "poke ((scriptsig_header_bin @ ?m @ [25]) @ replicate 25 0 @ replicate 4 0) (int (41 + so_n1_len t + 4 + 1 + 8 + 1)) (take 25 (so_script_pubkey t)) =
      Some ((scriptsig_header_bin @ ?m @ [25]) @ take 25 (so_script_pubkey t) @ replicate 4 0)"
    by (rule poke_part) (simp_all add: length_header_bin assms(2,3) layout)
  show ?thesis using 2 3 unfolding setup_coinbase_def Let_def 1 by simp
qed


text \<open>A template of the node, as the fields it sends.\<close>

record node_template =
  n_prev :: "u8 list"
  n_target :: "u8 list"
  n_version :: u32
  n_curtime :: u32
  n_bits :: "u8 list"
  n_height :: int
  n_value :: u64
  n_flags :: "u8 list"
  n_txs :: json

definition encode_template :: "node_template \<Rightarrow> json option" where
  "encode_template n = Some (JObject [(''previousblockhash'', JString (bin2hex (n_prev n))),
     (''target'', JString (bin2hex (n_target n))), (''version'', JInteger (uint (n_version n))),
     (''curtime'', JInteger (uint (n_curtime n))), (''bits'', JString (bin2hex (n_bits n))),
     (''height'', JInteger (n_height n)), (''coinbasevalue'', JInteger (uint (n_value n))),
     (''coinbaseaux'', JObject [(''flags'', JString (bin2hex (n_flags n)))]), (''transactions'', n_txs n)])"

definition node_ok :: "node_template \<Rightarrow> bool" where
  "node_ok n \<longleftrightarrow> length (n_prev n) = 32 \<and> length (n_target n) = 32 \<and> length (n_bits n) = 4 \<and>
     n_version n \<noteq> 0 \<and> n_curtime n \<noteq> 0 \<and> - (2 ^ 31) \<le> n_height n \<and> n_height n < 2 ^ 31"

definition solo_ok :: "solo \<Rightarrow> bool" where
  "solo_ok t \<longleftrightarrow> length (so_scriptsig_base t) = 100 \<and> length (so_script_pubkey t) = 28 \<and>
     length (so_header_bin t) = 128 \<and> length (g_previousblockhash (so_template t)) = 32 \<and>
     length (g_target (so_template t)) = 32 \<and> length (g_bits (so_template t)) = 4"

lemma swap256_words:
  assumes "length a = 32"
  shows "swap256 a b = concat (map (\<lambda>i. le32_bytes (load32 b i)) [7, 6, 5, 4, 3, 2, 1, 0])"
proof -
  have s: "store32 (p @ r) i w = (p @ le32_bytes w) @ drop 4 r" if "length p = 4 * i" "4 \<le> length r" for p r i w
    using that by (simp add: store32_def memcpy_at_def layout)
  have "swap256 ([] @ a) b = concat (map (\<lambda>i. le32_bytes (load32 b i)) [7, 6, 5, 4, 3, 2, 1, 0]) @ drop 32 a"
    unfolding swap256_def Let_def by (simp only: s assms layout length_append length_drop list.size) (simp add: s assms layout)
  then show ?thesis using assms by simp
qed


lemma length_swapped: "length a = 32 \<Longrightarrow> length (swap256 a b) = 32"
  by (simp add: swap256_words layout)

text \<open>The header of the template, in the form in which a stratum pool sends one.\<close>

definition solo_job :: "node_template \<Rightarrow> job" where
  "solo_job n = \<lparr>j_id = [], j_version = be32_bytes (n_version n), j_prev = swap256 (replicate 32 0) (n_prev n),
     j_cb1 = [], j_cb2 = [], j_merkles = [], j_bits = n_bits n, j_time = be32_bytes (n_curtime n), j_clean = False\<rparr>"

lemma solo_job_ok: "node_ok n \<Longrightarrow> job_ok (solo_job n)"
  by (simp add: job_ok_def solo_job_def node_ok_def length_swapped layout)

lemma solo_header_job:
  assumes "node_ok n" and "so_bbversion t = bin2hex (be32_bytes (n_version n))"
    and "so_prev_hash t = bin2hex (swap256 (replicate 32 0) (n_prev n))"
    and "so_ntime t = bin2hex (be32_bytes (n_curtime n))" and "so_nbit t = bin2hex (n_bits n)"
  shows "solo_header t = bin2hex (job_header (solo_job n))"
  using header_hex [OF solo_job_ok [OF assms(1)]]
  unfolding solo_header_def assms(2-5) by (simp add: solo_job_def)

text \<open>A state ready to make work: the header of a template, the parts of the coinbase around the four
  bytes of the extra nonce, and the hashes of the other transactions.\<close>

definition solo_ready :: "solo \<Rightarrow> job \<Rightarrow> u8 list \<Rightarrow> u8 list \<Rightarrow> u8 list list \<Rightarrow> bool" where
  "solo_ready t j a b hashes \<longleftrightarrow> job_ok j \<and> length (so_header_bin t) = 128 \<and>
     take 112 (so_header_bin t) = job_header j \<and> g_n2size (so_template t) = 4 \<and>
     g_nonce2_offset (so_template t) = length a \<and> g_coinbase_len (so_template t) = length a + 4 + length b \<and>
     (\<exists>old. g_coinbase (so_template t) = a @ old @ b \<and> length old = 4) \<and> length a + length b < 2 ^ 20 \<and>
     (\<forall>h\<in>set hashes. length h = 32) \<and>
     g_merklebin (so_template t) = merkle_loop dsha (replicate 32 0 # hashes) []"

definition solo_bytes :: "u8 list \<Rightarrow> u64 \<Rightarrow> u8 list \<Rightarrow> u8 list" where
  "solo_bytes a n2 b = a @ take 4 (le64_bytes n2) @ b"

lemma solo_work_ready:
  assumes "solo_ready t j a b hashes" and "locals_ok (m_locals s)" and "length (w_data w) = 128"
  shows "\<exists>t' w' s'. gen_solo_work now pool t w s = Some (t', w', s') \<and>
    take 80 (w_data w') = j_version j @ j_prev j @
      rev_words (merkle_tree dsha (dsha (solo_bytes a (g_nonce2 (so_template t)) b) # hashes)) @
      j_time j @ j_bits j @ replicate 4 0 \<and>
    w_coinbase w' = Some (bin2hex (solo_bytes a (g_nonce2 (so_template t)) b)) \<and>
    w_target w' = g_target (so_template t) \<and> w_gbt_txns w' = int (g_transactions (so_template t)) + 1 \<and>
    w_gbt w' \<and> w_pool w' = Some pool \<and>
    solo_ready t' j a b hashes \<and> g_nonce2 (so_template t') = g_nonce2 (so_template t) + 1"
proof -
  let ?g = "so_template t"
  let ?cb = "solo_bytes a (g_nonce2 ?g) b"
  have g: "g_n2size ?g = 4" "g_nonce2_offset ?g = length a" "g_coinbase_len ?g = length a + 4 + length b"
    "\<forall>h\<in>set hashes. length h = 32" "g_merklebin ?g = merkle_loop dsha (replicate 32 0 # hashes) []"
    "take 112 (so_header_bin t) = job_header j" "job_ok j"
    using assms(1) by (simp_all add: solo_ready_def)
  obtain old where old: "g_coinbase ?g = a @ old @ b" "length old = 4" using assms(1) by (auto simp: solo_ready_def)
  have p: "poke (g_coinbase ?g) (int (g_nonce2_offset ?g)) (take (g_n2size ?g) (le64_bytes (g_nonce2 ?g))) = Some ?cb"
    unfolding old(1) solo_bytes_def g(1) using old(2) by (intro poke_part) (simp_all add: g layout)
  have l: "length ?cb = length a + 4 + length b" by (simp add: solo_bytes_def layout)
  then have tk: "take (g_coinbase_len ?g) ?cb = ?cb" by (simp add: g)
  have "length ?cb < 2 ^ 29" using assms(1) l by (simp add: solo_ready_def)
  then have root: "merkleroot (hash_of (m_locals s)) ?cb (g_merklebin ?g) = merkle_tree dsha (dsha ?cb # hashes)"
    using template_root [OF assms(2) _ g(4)] g(5) by simp
  let ?root = "merkle_tree dsha (dsha ?cb # hashes)"
  have len: "length ?root = 32"
    using length_merkleroot [of ?cb "merkle_loop dsha (replicate 32 0 # hashes) []"]
      merkle_loop_tree [of "replicate 32 0 # hashes" dsha "dsha ?cb" "[]"] by (simp add: merkleroot_def)
  have f: "flip32 ?root ?root = rev_words ?root"
    unfolding flip32_def using len by (intro flip_whole) simp_all
  have d: "take 80 (memcpy_at (memcpy_at (w_data w) 0 (take 112 (so_header_bin t))) 36 (rev_words ?root)) =
      j_version j @ j_prev j @ rev_words ?root @ j_time j @ j_bits j @ replicate 4 0"
    by (rule header_with_root(1) [OF g(6,7) assms(3) _ refl]) (simp add: len layout)
  have e: "gen_solo_work now pool t w s = Some (t', w', s') \<Longrightarrow>
      w_data w' = memcpy_at (memcpy_at (w_data w) 0 (take 112 (so_header_bin t))) 36 (rev_words ?root) \<and>
      w_coinbase w' = Some (bin2hex ?cb) \<and> w_target w' = g_target ?g \<and>
      w_gbt_txns w' = int (g_transactions ?g) + 1 \<and> w_gbt w' \<and> w_pool w' = Some pool \<and>
      t' = t\<lparr>so_template := ?g\<lparr>g_coinbase := ?cb, g_nonce2 := g_nonce2 ?g + 1\<rparr>\<rparr>" for t' w' s'
    by (auto simp: gen_solo_work_def Let_def p tk root f)
  obtain t' w' s' where gen: "gen_solo_work now pool t w s = Some (t', w', s')"
    by (simp add: gen_solo_work_def Let_def p)
  have "\<exists>old. ?cb = a @ old @ b \<and> length old = 4"
    by (intro exI [of _ "take 4 (le64_bytes (g_nonce2 ?g))"]) (simp add: solo_bytes_def layout)
  then have "solo_ready t' j a b hashes" using assms(1) e [OF gen] by (simp add: solo_ready_def)
  then show ?thesis using gen e [OF gen] d by (intro exI [of _ t'] exI [of _ w'] exI [of _ s']) simp
qed


lemma merkle_bins_result:
  assumes "txn_strings vs = Some txns" and "txn_hashes H junk vs txns = (hashes, True)" and "length vs < 65536"
  shows "\<exists>d. gbt_merkle_bins H junk (Some (JArray vs)) g =
    Some (g\<lparr>g_txn_data := d, g_transactions := length vs, g_merklebin := merkle_loop H (replicate 32 0 # hashes) []\<rparr>)"
proof -
  have "length hashes = length txns"
    using txn_hashes_all [OF txn_strings_length [OF assms(1), symmetric], of H junk] assms(2) by simp
  then have "length (merkle_loop H (replicate 32 0 # hashes) []) \<le> 16"
    using merkle_loop_length [of "replicate 32 0 # hashes" H "[]" 16] txn_strings_length [OF assms(1)] assms(3) by simp
  then show ?thesis
    by (intro exI [of _ "if vs = [] then None else Some (concat txns @ [junk])"])
      (use assms(2) in \<open>cases "vs = []"; auto simp: gbt_merkle_bins_def json_elems_def assms(1) Let_def\<close>)
qed

text \<open>The coinbase of a template for a user: the part before the extra nonce and the part behind it,
  with \<open>x\<close> the four bytes of the extra nonce that are not used and \<open>y\<close> the byte behind the script
  that is copied with it.\<close>

definition solo_front :: "u32 \<Rightarrow> u32 \<Rightarrow> u8 list option \<Rightarrow> node_template \<Rightarrow> u8 list" where
  "solo_front sec usec sig n = scriptsig_header_bin @
     of_nat (length (script_front sec usec (n_height n) (n_flags n)) + 9 + length (sig_push sig)) #
     script_front sec usec (n_height n) (n_flags n)"

definition solo_back :: "u8 list option \<Rightarrow> node_template \<Rightarrow> u8 list \<Rightarrow> u8 list \<Rightarrow> u8 \<Rightarrow> u8 list" where
  "solo_back sig n pubkey x y = x @ sig_push sig @ [y] @ replicate 4 0xff @ [1] @ le64_bytes (n_value n) @ [25] @
     pubkey @ replicate 4 0"

text \<open>The state after decoding, with the script and the coinbase that were built.\<close>

definition decoded ::
    "(u8 list \<Rightarrow> dbl) \<Rightarrow> node_template \<Rightarrow> solo \<Rightarrow> u8 list option \<Rightarrow> nat \<Rightarrow> u8 list list \<Rightarrow> u8 list \<Rightarrow> nat \<Rightarrow> nat \<Rightarrow> u8 list \<Rightarrow> solo" where
  "decoded diff n t d txns bins base nonce2 ofs coinbase =
     (let prev = swap256 (replicate 32 0) (n_prev n);
          target = swab256 (g_target (so_template t)) (n_target n)
      in t\<lparr>so_prev_hash := bin2hex prev, so_sdiff := diff target, so_ntime := bin2hex (be32_bytes (n_curtime n)),
           so_bbversion := bin2hex (be32_bytes (n_version n)), so_nbit := bin2hex (n_bits n), so_height := n_height n,
           so_scriptsig_base := base, so_n1_len := ofs + 1,
           so_template := (so_template t)\<lparr>g_previousblockhash := prev, g_target := target,
             g_version := be32_bytes (n_version n), g_curtime := be32_bytes (n_curtime n), g_bits := n_bits n,
             g_txn_data := d, g_transactions := txns, g_merklebin := bins, g_nonce2_offset := 41 + nonce2,
             g_coinbase := coinbase, g_nonce2 := 0, g_n2size := 4, g_coinbase_len := 85 + ofs\<rparr>,
           so_header_bin := job_header (solo_job n) @ drop 112 (so_header_bin t)\<rparr>)"

lemma solo_decoded:
  assumes "solo_ok t" and "node_ok n" and "n_txs n = JArray vs"
    and "\<And>g. \<exists>d. gbt_merkle_bins H junk (Some (JArray vs)) g =
      Some (g\<lparr>g_txn_data := d, g_transactions := txns, g_merklebin := bins\<rparr>)"
    and "solo_script sec usec sig (n_height n) (bin2hex (n_flags n)) (so_scriptsig_base t) = Some (base, nonce2, ofs)"
    and "solo_coinbase base (ofs + 1) (n_value n) = Some coinbase"
  shows "\<exists>d. gbt_solo_decode diff H junk sec usec sig (encode_template n) t =
    Some (True, decoded diff n t d txns bins base nonce2 ofs coinbase)"
proof -
  have n: "length (n_prev n) = 32" "length (n_target n) = 32" "length (n_bits n) = 4" "n_version n \<noteq> 0" "n_curtime n \<noteq> 0"
    using assms(2) by (simp_all add: node_ok_def)
  have h: "sint (word_of_int (n_height n) :: u32) = n_height n"
    using assms(2) by (simp add: node_ok_def sint_sbintrunc' signed_take_bit_int_eq_self)
  have x: "hex2bin (replicate 32 junk) (bin2hex (n_prev n)) 32 = (n_prev n, True)"
    "hex2bin (n_prev n) (bin2hex (n_target n)) 32 = (n_target n, True)"
    "hex2bin (g_bits (so_template t)) (bin2hex (n_bits n)) 4 = (n_bits n, True)"
    using hex2bin_exact [of "replicate 32 junk" "n_prev n"] hex2bin_exact [of "n_prev n" "n_target n"]
      hex2bin_exact [of "g_bits (so_template t)" "n_bits n"] n assms(1) by (simp_all add: solo_ok_def)
  have p: "swap256 (g_previousblockhash (so_template t)) b = swap256 (replicate 32 0) b" for b
    using assms(1) by (simp add: swap256_words solo_ok_def)
  have tk: "take 8 (bin2hex (n_bits n)) = bin2hex (n_bits n)" using n by (simp add: length_bin2hex)
  obtain d where d: "gbt_merkle_bins H junk (Some (JArray vs)) ((so_template t)\<lparr>g_previousblockhash := swap256 (replicate 32 0) (n_prev n),
      g_target := swab256 (g_target (so_template t)) (n_target n), g_version := be32_bytes (n_version n),
      g_curtime := be32_bytes (n_curtime n), g_bits := n_bits n\<rparr>) =
    Some ((so_template t)\<lparr>g_previousblockhash := swap256 (replicate 32 0) (n_prev n),
      g_target := swab256 (g_target (so_template t)) (n_target n), g_version := be32_bytes (n_version n),
      g_curtime := be32_bytes (n_curtime n), g_bits := n_bits n, g_txn_data := d, g_transactions := txns, g_merklebin := bins\<rparr>)"
    using assms(4) by blast
  have l: "length (job_header (solo_job n)) = 112" by (rule length_job_header [OF solo_job_ok [OF assms(2)]])
  have hb: "hex2bin (so_header_bin t) (bin2hex (job_header (solo_job n))) 112 =
      (job_header (solo_job n) @ drop 112 (so_header_bin t), True)"
    using hex2bin_prefix [of "job_header (solo_job n)" "so_header_bin t"] assms(1) l by (simp add: solo_ok_def)
  have c: "solo_coinbase base (Suc ofs) (n_value n) = Some coinbase" using assms(6) by simp
  show ?thesis
    by (rule exI [of _ d])
      (simp add: gbt_solo_decode_def encode_template_def Let_def n h x p tk assms(3) d assms(5) c hb
        solo_header_job [OF assms(2)] decoded_def)
qed


lemma solo_decode_ready:
  assumes "solo_ok t" and "node_ok n" and "n_txs n = JArray vs" and "txn_strings vs = Some txns"
    and "txn_hashes dsha junk vs txns = (hashes, True)" and "length vs < 65536"
    and "\<forall>h\<in>set hashes. length h = 32" and "length (n_flags n) + length (sig_push sig) \<le> 61"
  obtains x y t1 t2 where "gbt_solo_decode diff dsha junk sec usec sig (encode_template n) t = Some (True, t1)"
    "setup_coinbase t1 = Some t2" "length x = 4" "g_nonce2 (so_template t2) = 0"
    "g_transactions (so_template t2) = length vs" "g_target (so_template t2) = swab256 (g_target (so_template t)) (n_target n)"
    "solo_ready t2 (solo_job n) (solo_front sec usec sig n)
       (solo_back sig n (take 25 (so_script_pubkey t)) x y) hashes"
proof -
  let ?f = "script_front sec usec (n_height n) (n_flags n)"
  have lb: "length (so_scriptsig_base t) = 100" using assms(1) by (simp add: solo_ok_def)
  obtain z rest where s: "solo_script sec usec sig (n_height n) (bin2hex (n_flags n)) (so_scriptsig_base t) =
      Some ((of_nat (length (script_of sec usec sig (n_height n) (n_flags n) z) + 1) #
          script_of sec usec sig (n_height n) (n_flags n) z) @ rest,
        length ?f + 1, length (script_of sec usec sig (n_height n) (n_flags n) z) + 1)" "length z = 8" "rest \<noteq> []"
    by (rule solo_script_layout [OF lb assms(8)])
  obtain y rs where y: "rest = y # rs" using s(3) by (cases rest) auto
  let ?z = "script_of sec usec sig (n_height n) (n_flags n) z"
  let ?base = "(of_nat (length ?z + 1) # ?z) @ rest"
  let ?bins = "merkle_loop dsha (replicate 32 0 # hashes) []"
  let ?ls = "of_nat (length ?z + 1) # ?z @ [y]"
  have tk: "take (length ?z + 1 + 1) ?base = ?ls" by (simp add: y)
  have c: "solo_coinbase ?base (length ?z + 1 + 1) (n_value n) =
      Some (replicate 41 0 @ ?ls @ replicate 4 0xff @ [1] @ le64_bytes (n_value n) @ replicate 30 0)"
    using solo_coinbase_written [of "length ?z + 1 + 1" ?base] tk by (simp add: y)
  obtain d where dec: "gbt_solo_decode diff dsha junk sec usec sig (encode_template n) t =
      Some (True, decoded diff n t d (length vs) ?bins ?base (length ?f + 1) (length ?z + 1)
        (replicate 41 0 @ ?ls @ replicate 4 0xff @ [1] @ le64_bytes (n_value n) @ replicate 30 0))"
    using solo_decoded [OF assms(1-3) merkle_bins_result [OF assms(4-6)] s(1) c] by blast
  define t1 where "t1 = decoded diff n t d (length vs) ?bins ?base (length ?f + 1) (length ?z + 1)
    (replicate 41 0 @ ?ls @ replicate 4 0xff @ [1] @ le64_bytes (n_value n) @ replicate 30 0)"
  define cb where "cb = scriptsig_header_bin @ ?ls @ replicate 4 0xff @ [1] @ le64_bytes (n_value n) @ [25] @
    take 25 (so_script_pubkey t) @ replicate 4 0"
  have set: "setup_coinbase t1 = Some (t1\<lparr>so_template := (so_template t1)\<lparr>g_coinbase := cb\<rparr>\<rparr>)"
    unfolding cb_def
    by (rule trans [OF setup_coinbase_written [where ls = ?ls and v = "n_value n"]])
      (use assms(1) in \<open>simp_all add: t1_def decoded_def Let_def solo_ok_def\<close>)
  have lz: "length ?z = length ?f + 8 + length (sig_push sig)" using s(2) by (simp add: script_of_def)
  have cb: "cb = solo_front sec usec sig n @ take 4 z @
      solo_back sig n (take 25 (so_script_pubkey t)) (drop 4 z) y"
    using lz by (simp add: cb_def solo_front_def solo_back_def script_of_def)
  define t2 where "t2 = t1\<lparr>so_template := (so_template t1)\<lparr>g_coinbase := cb\<rparr>\<rparr>"
  have lj: "length (job_header (solo_job n)) = 112" by (rule length_job_header [OF solo_job_ok [OF assms(2)]])
  have lf: "length ?f \<le> 88" using assms(8) ser_number_used(3) [of "n_height n"] by (simp add: length_script_front)
  have "\<exists>old. cb = solo_front sec usec sig n @ old @ solo_back sig n (take 25 (so_script_pubkey t)) (drop 4 z) y \<and> length old = 4"
    using s(2) cb by (intro exI [of _ "take 4 z"]) simp
  moreover have "length (solo_front sec usec sig n) = 42 + length ?f"
    "length (solo_back sig n (take 25 (so_script_pubkey t)) (drop 4 z) y) = 48 + length (sig_push sig)"
    using s(2) assms(1) by (simp_all add: solo_front_def solo_back_def length_header_bin layout solo_ok_def)
  ultimately have "solo_ready t2 (solo_job n) (solo_front sec usec sig n)
       (solo_back sig n (take 25 (so_script_pubkey t)) (drop 4 z) y) hashes"
    using assms(1,7) solo_job_ok [OF assms(2)] lj lz lf length_sig_push [of sig]
    by (simp add: solo_ready_def t2_def t1_def decoded_def Let_def solo_ok_def)
  then show ?thesis
    by (intro that [of t1 t2 "drop 4 z" y])
      (use s(2) dec set in \<open>simp_all add: t2_def t1_def [symmetric]\<close>, simp_all add: t1_def decoded_def Let_def)
qed


text \<open>C22: Solo mining makes blocks that are the user's: from a template of the node and the script of the
  user's address, decoding, \<open>__setup_gbt_solo\<close> and \<open>gen_solo_work\<close> make work whose header has the
  version, previous block, time and bits of the template and the root of the merkle tree over the
  coinbase and all transactions; the coinbase is one transaction with the height, the flags, the
  signature of the user, the whole value of the template paid to the script, and the extra nonce, which
  the next item increases.\<close>

theorem solo_work_commits:
  assumes "solo_ok t" and "node_ok n" and "n_txs n = JArray vs" and "txn_strings vs = Some txns"
    and "txn_hashes dsha junk vs txns = (hashes, True)" and "length vs < 65536"
    and "\<forall>h\<in>set hashes. length h = 32" and "length (n_flags n) + length (sig_push sig) \<le> 61"
    and "locals_ok (m_locals s)" and "length (w_data w) = 128"
  shows "\<exists>x y t1 t2 t3 w' s'. gbt_solo_decode diff dsha junk sec usec sig (encode_template n) t = Some (True, t1) \<and>
    setup_coinbase t1 = Some t2 \<and> gen_solo_work now pool t2 w s = Some (t3, w', s') \<and> length x = 4 \<and>
    (let script = script_of sec usec sig (n_height n) (n_flags n) (replicate 4 0 @ x) @ [y];
         coinbase = solo_transaction script (n_value n) (take 25 (so_script_pubkey t))
     in w_coinbase w' = Some (bin2hex coinbase) \<and>
        take 80 (w_data w') = be32_bytes (n_version n) @ swap256 (replicate 32 0) (n_prev n) @
          rev_words (merkle_tree dsha (dsha coinbase # hashes)) @ be32_bytes (n_curtime n) @ n_bits n @ replicate 4 0) \<and>
    w_target w' = swab256 (g_target (so_template t)) (n_target n) \<and> w_gbt_txns w' = int (length vs) + 1 \<and>
    solo_ready t3 (solo_job n) (solo_front sec usec sig n) (solo_back sig n (take 25 (so_script_pubkey t)) x y) hashes \<and>
    g_nonce2 (so_template t3) = 1"
proof -
  obtain x y t1 t2 where r: "gbt_solo_decode diff dsha junk sec usec sig (encode_template n) t = Some (True, t1)"
    "setup_coinbase t1 = Some t2" "length x = 4" "g_nonce2 (so_template t2) = 0"
    "g_transactions (so_template t2) = length vs" "g_target (so_template t2) = swab256 (g_target (so_template t)) (n_target n)"
    "solo_ready t2 (solo_job n) (solo_front sec usec sig n) (solo_back sig n (take 25 (so_script_pubkey t)) x y) hashes"
    by (rule solo_decode_ready [OF assms(1-8)])
  have z: "take 4 (le64_bytes 0) = replicate 4 0" by (simp add: le64_bytes_def numeral_eq_Suc)
  have "solo_bytes (solo_front sec usec sig n) 0 (solo_back sig n pk x y) =
      solo_transaction (script_of sec usec sig (n_height n) (n_flags n) (replicate 4 0 @ x) @ [y]) (n_value n) pk" for pk
    using r(3) by (simp add: solo_bytes_def z solo_front_def solo_back_def solo_transaction_def script_of_def add.commute)
  moreover have "j_version (solo_job n) = be32_bytes (n_version n)" "j_prev (solo_job n) = swap256 (replicate 32 0) (n_prev n)"
    "j_time (solo_job n) = be32_bytes (n_curtime n)" "j_bits (solo_job n) = n_bits n" by (simp_all add: solo_job_def)
  moreover note solo_work_ready [OF r(7) assms(9,10), of now pool]
  ultimately obtain t3 w' s' where "gen_solo_work now pool t2 w s = Some (t3, w', s')" "g_nonce2 (so_template t3) = 1"
    "take 80 (w_data w') = be32_bytes (n_version n) @ swap256 (replicate 32 0) (n_prev n) @
      rev_words (merkle_tree dsha (dsha (solo_transaction (script_of sec usec sig (n_height n) (n_flags n)
        (replicate 4 0 @ x) @ [y]) (n_value n) (take 25 (so_script_pubkey t))) # hashes)) @
      be32_bytes (n_curtime n) @ n_bits n @ replicate 4 0"
    "w_coinbase w' = Some (bin2hex (solo_transaction (script_of sec usec sig (n_height n) (n_flags n)
        (replicate 4 0 @ x) @ [y]) (n_value n) (take 25 (so_script_pubkey t))))"
    "w_target w' = swab256 (g_target (so_template t)) (n_target n)" "w_gbt_txns w' = int (length vs) + 1"
    "solo_ready t3 (solo_job n) (solo_front sec usec sig n) (solo_back sig n (take 25 (so_script_pubkey t)) x y) hashes"
    using r(4-6) by auto
  then show ?thesis
    by (intro exI [of _ x] exI [of _ y] exI [of _ t1] exI [of _ t2] exI [of _ t3] exI [of _ w'] exI [of _ s'])
      (simp add: r(1-3) Let_def)
qed


section \<open>A template to try\<close>

definition demo_solo :: solo where
  "demo_solo = \<lparr>so_template = demo_template, so_prev_hash = [], so_bbversion = [], so_nbit = [], so_ntime = [],
     so_sdiff = 0, so_height = 0, so_scriptsig_base = replicate 100 7, so_script_pubkey = replicate 28 9,
     so_n1_len = 0, so_header_bin = replicate 128 0\<rparr>"

definition demo_node :: node_template where
  "demo_node = \<lparr>n_prev = replicate 32 1, n_target = replicate 32 2, n_version = 2, n_curtime = 1400000000,
     n_bits = [0x19, 0, 0xff, 0xff], n_height = 300000, n_value = 2500000000, n_flags = [0x62, 0x69, 0x70],
     n_txs = JArray []\<rparr>"

theorem solo_work_commits_witness:
  "\<exists>x y t1 t2 t3 w' s'. gbt_solo_decode (\<lambda>d. 0) dsha 0 1 2 None (encode_template demo_node) demo_solo = Some (True, t1) \<and>
     setup_coinbase t1 = Some t2 \<and> gen_solo_work 3 4 t2 zero_work demo_miner = Some (t3, w', s') \<and> length x = 4 \<and>
     w_coinbase w' = Some (bin2hex (solo_transaction (script_of 1 2 None 300000 [0x62, 0x69, 0x70] (replicate 4 0 @ x) @ [y])
       2500000000 (replicate 25 9)))"
proof -
  have "solo_ok demo_solo" by (simp add: solo_ok_def demo_solo_def demo_template_def)
  moreover have "node_ok demo_node" by (simp add: node_ok_def demo_node_def)
  moreover have "n_txs demo_node = JArray []" "length (n_flags demo_node) + length (sig_push None) \<le> 61"
    by (simp_all add: demo_node_def sig_push_def)
  moreover have "txn_strings [] = Some []" "txn_hashes dsha 0 [] [] = ([], True)" by simp_all
  ultimately show ?thesis
    using solo_work_commits [OF _ _ _ _ _ _ _ _ demo_locals_ok, of demo_solo demo_node "[]" "[]" 0 "[]" None zero_work
        "\<lambda>d. 0" 1 2 3 4]
    by (simp add: zero_work_def Let_def demo_solo_def demo_node_def) blast
qed

end
