(* ===== verification/Submit_Upstream.thy ===== *)
theory Submit_Upstream
  imports Stratum_Share Gbt
begin

text \<open>
  Shares and blocks sent by HTTP, from \<open>src/cgminer/cgminer.c\<close>: the request that
  \<open>submit_upstream_work\<close> builds, its reaction to the answer, and the loop of
  \<open>submit_work_thread\<close>. \<open>None\<close> is a memory fault; the answer of the server, or that there is
  none, is given.
\<close>

section \<open>The request\<close>

text \<open>The number of transactions, with its prefix, as the code prints it.\<close>

definition varint_text :: "int \<Rightarrow> u8 list" where
  "varint_text txns =
     (if txns < 0xfd then bin2hex [word_of_int txns]
      else if txns \<le> 0xffff then chars ''fd'' @ bin2hex [word_of_int txns, word_of_int (txns div 256)]
      else chars ''fe'' @ bin2hex (le32_bytes (word_of_int txns)))"

text \<open>\<open>gbt_block\<close> has 1024 bytes and is filled with \<open>strcat\<close>.\<close>

definition gbt_block :: "u8 list \<Rightarrow> work \<Rightarrow> u8 list option" where
  "gbt_block data w =
     (case w_coinbase w of
        None \<Rightarrow> None
      | Some coinbase \<Rightarrow>
          let text = bin2hex (flip80 data (w_data w)) @ varint_text (w_gbt_txns w) @ coinbase
          in if length text + 1 > 1024 then None else Some text)"

text \<open>The text around the block has to fit the 1024 bytes of the first allocation too.\<close>

definition submit_block_request :: "u8 list \<Rightarrow> bool \<Rightarrow> u8 list option \<Rightarrow> work \<Rightarrow> u8 list option" where
  "submit_block_request data with_gbt txn_data w =
     (case gbt_block data w of
        None \<Rightarrow> None
      | Some block \<Rightarrow>
          let s = chars ''{\"id\": 0, \"method\": \"submitblock\", \"params\": [\"'' @ block
          in if length s + 1 > 1024 then None
             else
               let s = (if \<not> with_gbt then (case txn_data of None \<Rightarrow> s | Some t \<Rightarrow> s @ t) else s);
                   s = (case w_job_id w of
                          None \<Rightarrow> s @ chars ''\"]}''
                        | Some i \<Rightarrow> s @ chars ''\", {\"workid\": \"'' @ i @ chars ''\"}]}'')
               in Some (s @ [10]))"

definition getwork_request :: "work \<Rightarrow> u8 list" where
  "getwork_request w = chars ''{\"method\": \"getwork\", \"params\": [ \"'' @ bin2hex (take 118 (w_data w)) @
     chars ''\" ], \"id\":1}'' @ [10]"

definition upstream_request :: "u8 list \<Rightarrow> bool \<Rightarrow> u8 list option \<Rightarrow> work \<Rightarrow> u8 list option" where
  "upstream_request data with_gbt txn_data w =
     (if w_gbt w then submit_block_request data with_gbt txn_data w else Some (getwork_request w))"

section \<open>The answer\<close>

definition submit_upstream_work :: "env \<Rightarrow> int \<Rightarrow> json option \<Rightarrow> work \<Rightarrow> shares_state \<Rightarrow> (bool \<times> shares_state) option" where
  "submit_upstream_work e now val w s =
     (let a = the (w_pool w)
      in if val = None then
           let failed = submit_fail (pool_stat s a);
               s = upd_stat a (\<lambda>p. p\<lparr>submit_fail := True\<rparr>) s;
               s = (if \<not> failed
                    then upd_stat a (\<lambda>p. p\<lparr>remotefail_occasions := remotefail_occasions p + 1\<rparr>)
                           (s\<lparr>total_ro := total_ro s + 1\<rparr>)
                    else s)
           in Some (False, s)
         else
           let s = upd_stat a (\<lambda>p. p\<lparr>submit_fail := False\<rparr>) s
           in map_option (\<lambda>s. (True, s))
                (share_result e now val (json_object_get val ''result'') (json_object_get val ''error'') w s))"

datatype sending = Delivered | Dropped | Gone_stale | Trying

text \<open>The attempts, each with its time and the answer; \<open>Trying\<close> when the list ends first.\<close>

fun submit_work_thread ::
    "env \<Rightarrow> work \<Rightarrow> (int \<times> json option) list \<Rightarrow> shares_state \<Rightarrow> (sending \<times> shares_state) option" where
  "submit_work_thread e w [] s = Some (Trying, s)"
| "submit_work_thread e w ((now, val) # tries) s =
     (case submit_upstream_work e now val w s of
        None \<Rightarrow> None
      | Some (True, s) \<Rightarrow> Some (Delivered, s)
      | Some (False, s) \<Rightarrow>
          if opt_lowmem e then Some (Dropped, s)
          else if stale_work now w True (sh_miner s) then
            let a = the (w_pool w);
                d = work_difficulty e w;
                s = add_stale a 1 s;
                s = s\<lparr>total_diff_stale := fadd e (total_diff_stale s) d\<rparr>
            in Some (Gone_stale, upd_stat a (\<lambda>p. p\<lparr>po_diff_stale := fadd e (po_diff_stale p) d\<rparr>) s)
          else submit_work_thread e w tries s)"

section \<open>The block that is sent\<close>

definition compact :: "nat \<Rightarrow> u8 list" where
  "compact n = (if n < 253 then [of_nat n] else if n \<le> 0xffff then 253 # [of_nat n, of_nat (n div 256)]
     else 254 # le32_bytes (of_nat n))"

lemma compact_reads:
  assumes "n < 2 ^ 32"
  shows "compact_size (compact n) = n"
proof -
  consider "n < 253" | "253 \<le> n" "n \<le> 0xffff" | "0xffff < n" by linarith
  then show ?thesis
  proof cases
    case 1
    then have "unat (of_nat n :: u8) = n" by (simp add: unat_of_nat)
    moreover from this have "(of_nat n :: u8) \<noteq> 253" "(of_nat n :: u8) \<noteq> 254" using 1 by (auto simp: word_unat_eq_iff)
    ultimately show ?thesis using 1 by (simp add: compact_def compact_size_def)
  next
    case 2
    then have "n div 256 < 256" by (simp add: less_mult_imp_div_less)
    then show ?thesis using 2 by (simp add: compact_def compact_size_def unat_of_nat numeral_2_eq_2)
  next
    case 3
    have "unat (of_nat n :: u32) = n" using assms by (simp add: unat_of_nat)
    then have "le_number (le32_bytes (of_nat n)) = n"
      by (simp add: le_number_word layout le32_word_bytes)
    moreover have "take 4 (le32_bytes (of_nat n)) = le32_bytes (of_nat n)" by (simp add: layout)
    ultimately show ?thesis using 3 by (simp add: compact_def compact_size_def)
  qed
qed

lemma fd_fe: "chars ''fd'' = bin2hex [253]" "chars ''fe'' = bin2hex [254]"
  by code_simp+

lemma bin2hex_prefix: "bin2hex (253 # xs) = chars ''fd'' @ bin2hex xs" "bin2hex (254 # xs) = chars ''fe'' @ bin2hex xs"
  using bin2hex_append [of "[253]" xs] bin2hex_append [of "[254]" xs] by (simp_all add: fd_fe)

lemma varint_compact: "varint_text (int n) = bin2hex (compact n)"
proof -
  have "int n div 256 = int (n div 256)" by (simp add: zdiv_int)
  then have "word_of_int (int n div 256) = (of_nat (n div 256) :: u8)" by (simp only: of_int_of_nat_eq)
  then show ?thesis by (simp add: varint_text_def compact_def bin2hex_prefix)
qed

lemma length_compact: "length (compact n) \<le> 5"
  by (simp add: compact_def layout)

text \<open>The block of an item: the header in the order of the network, the number of transactions, the
  coinbase and the others.\<close>

definition block_bytes :: "work \<Rightarrow> nat \<Rightarrow> u8 list \<Rightarrow> u8 list \<Rightarrow> u8 list" where
  "block_bytes w n coinbase txs = rev_words (take 80 (w_data w)) @ compact n @ coinbase @ txs"

text \<open>C23: A block found is sent to the node as it was hashed: the text of \<open>submitblock\<close> is the
  hexadecimal form of the header whose double hash was tested, of the number of transactions in
  the form in which the network counts, of the coinbase and of the other transactions. The buffer for
  header and coinbase has 1024 bytes: a coinbase of more than about 400 bytes is written past it.\<close>

theorem block_is_submitted:
  assumes "w_gbt w" and "length (w_data w) = 128" and "length data = 80" and "w_coinbase w = Some (bin2hex coinbase)"
    and "w_gbt_txns w = int n" and "w_job_id w = None" and "n < 2 ^ 32"
  shows "compact_size (compact n) = n \<and>
    upstream_request data False (Some (bin2hex txs)) w =
      (if 47 + 2 * (80 + length (compact n) + length coinbase) < 1024
       then Some (chars ''{\"id\": 0, \"method\": \"submitblock\", \"params\": [\"'' @
         bin2hex (block_bytes w n coinbase txs) @ chars ''\"]}'' @ [10])
       else None)"
proof -
  have f: "flip80 data (w_data w) = rev_words (take 80 (w_data w))"
    using flip_words_prefix [of 20 "w_data w" data] assms(2,3) by (simp add: flip80_def)
  have l: "length (rev_words (take 80 (w_data w))) = 80" using assms(2) by (simp add: layout)
  have b: "bin2hex (flip80 data (w_data w)) @ varint_text (w_gbt_txns w) @ bin2hex coinbase @ bin2hex txs =
      bin2hex (block_bytes w n coinbase txs)"
    by (simp add: f assms(5) varint_compact block_bytes_def bin2hex_append)
  have n: "length (bin2hex (flip80 data (w_data w)) @ varint_text (w_gbt_txns w) @ bin2hex coinbase) =
      2 * (80 + length (compact n) + length coinbase)"
    by (simp add: f l assms(5) varint_compact length_bin2hex)
  have p: "length (chars ''{\"id\": 0, \"method\": \"submitblock\", \"params\": [\"'') = 47"
    by (simp add: length_chars)
  show ?thesis
    using n p compact_reads [OF assms(7)]
    by (simp add: upstream_request_def submit_block_request_def gbt_block_def assms(1,4,6) Let_def b)
qed


section \<open>One result per share\<close>

lemma account_upd_stat: "(\<And>p. po_tally (f p) = po_tally p) \<Longrightarrow> account b (upd_stat a f s) = account b s"
  by (rule account_cong) (simp_all add: settled_def pending_def in_hand_def shr)

lemma account_fields:
  "account b (s\<lparr>total_ro := x\<rparr>) = account b s" "account b (s\<lparr>total_diff_stale := d\<rparr>) = account b s"
  by (rule account_cong; simp add: settled_def pending_def in_hand_def)+

lemma account_stale: "account b (add_stale a n s) = account b s + (if b = a then of_nat n else 0)"
  by (auto simp: account_settled settled_def pending_def in_hand_def shr)

lemma account_result:
  "share_result e now val res err w y = Some x \<Longrightarrow> account b x = account b y + of_bool (b = the (w_pool w))"
  using share_result_frame(1-3) [of e now val res err w y x] share_result_frame(4) [of e now val res err w y x b] by (auto simp: account_settled pending_def in_hand_def)

lemma upstream_frame:
  assumes "submit_upstream_work e now val w s = Some (ok, s')"
  shows "ok = (val \<noteq> None)" "account b s' = account b s + of_bool (ok \<and> b = the (w_pool w))"
proof -
  show ok: "ok = (val \<noteq> None)" using assms by (auto simp: submit_upstream_work_def Let_def split: if_splits)
  show "account b s' = account b s + of_bool (ok \<and> b = the (w_pool w))"
  proof (cases "val = None")
    case True
    then show ?thesis using assms
      by (auto simp: submit_upstream_work_def Let_def account_upd_stat account_fields)
  next
    case False
    then obtain res err where "share_result e now val res err w (upd_stat (the (w_pool w)) (\<lambda>p. p\<lparr>submit_fail := False\<rparr>) s) = Some s'"
      using assms by (auto simp: submit_upstream_work_def Let_def)
    from account_result [OF this, of b] show ?thesis using False ok by (simp add: account_upd_stat)
  qed
qed

text \<open>A share sent by HTTP is settled at most once: it is counted as accepted or rejected for its
  pool when it was delivered, as stale when it was given up for age, and not at all when memory is low,
  where it is dropped without a trace. The first answer that is received ends the attempts.\<close>

theorem http_share_settled:
  assumes "submit_work_thread e w tries s = Some (r, s')"
  shows "account b s' = account b s + (if b = the (w_pool w) \<and> r \<in> {Delivered, Gone_stale} then 1 else 0) \<and>
    (r = Delivered \<longrightarrow> (\<exists>t\<in>set tries. snd t \<noteq> None)) \<and> (r = Trying \<longrightarrow> (\<forall>t\<in>set tries. snd t = None)) \<and>
    (r = Dropped \<longrightarrow> opt_lowmem e)"
  using assms
proof (induction e w tries s rule: submit_work_thread.induct)
  case (2 e w now val tries s)
  obtain ok u where u: "submit_upstream_work e now val w s = Some (ok, u)"
    using "2.prems" by (auto split: option.splits)
  note f = upstream_frame(1) [OF u] upstream_frame(2) [OF u, of b]
  show ?case
  proof (cases ok)
    case True
    then show ?thesis using "2.prems" u f by auto
  next
    case False
    show ?thesis
    proof (cases "opt_lowmem e \<or> stale_work now w True (sh_miner u)")
      case True
      then show ?thesis using "2.prems" u f \<open>\<not> ok\<close>
        by (auto simp: Let_def account_upd_stat account_fields account_stale split: if_splits)
    next
      case no: False
      then show ?thesis using "2.prems" u f \<open>\<not> ok\<close> "2.IH" [OF u] by auto
    qed
  qed
qed simp

theorem block_is_submitted_witness:
  "upstream_request (replicate 80 0) False (Some (bin2hex [7]))
     (demo_work\<lparr>w_gbt := True, w_coinbase := Some (bin2hex [1, 2]), w_gbt_txns := 2\<rparr>) =
   Some (chars ''{\"id\": 0, \"method\": \"submitblock\", \"params\": [\"'' @
     bin2hex (block_bytes (demo_work\<lparr>w_gbt := True, w_coinbase := Some (bin2hex [1, 2]), w_gbt_txns := 2\<rparr>) 2 [1, 2] [7]) @
     chars ''\"]}'' @ [10])"
  using block_is_submitted [of "demo_work\<lparr>w_gbt := True, w_coinbase := Some (bin2hex [1, 2]), w_gbt_txns := 2\<rparr>"
      "replicate 80 0" "[1, 2]" 2 "[7]"] length_compact [of 2]
  by (simp add: demo_work_def zero_work_def)

theorem http_share_settled_witness:
  "\<exists>s'. submit_work_thread demo_env demo_work [(5, demo_answer)] demo_shares = Some (Delivered, s') \<and>
     account 10 s' = account 10 demo_shares + 1"
proof -
  obtain s' where "submit_work_thread demo_env demo_work [(5, demo_answer)] demo_shares = Some (Delivered, s')"
    by (simp add: submit_upstream_work_def demo_answer_def share_result_def json_is_true_def Let_def)
  then show ?thesis using http_share_settled [of demo_env demo_work "[(5, demo_answer)]" demo_shares Delivered s' 10]
    by (simp add: demo_work_pool)
qed

end
