(* ===== verification/Timeval.thy ===== *)
theory Timeval
  imports Prelude "HOL-Library.Signed_Division"
begin

text \<open>
  The arithmetic of times of \<open>src/cgminer/util.c\<close>. A \<open>struct timeval\<close> is the pair of its seconds
  and microseconds, a \<open>struct timespec\<close> of its seconds and nanoseconds; it is normal when the
  second part is not negative and below one second. \<open>sdiv\<close> is the division of C.
\<close>

type_synonym tv = "int \<times> int"

type_synonym ts = "int \<times> int"

definition normal_tv :: "tv \<Rightarrow> bool" where
  "normal_tv t \<longleftrightarrow> 0 \<le> snd t \<and> snd t < 1000000"

definition normal_ts :: "ts \<Rightarrow> bool" where
  "normal_ts t \<longleftrightarrow> 0 \<le> snd t \<and> snd t < 1000000000"

definition us_of :: "tv \<Rightarrow> int" where
  "us_of t = fst t * 1000000 + snd t"

definition ns_of :: "ts \<Rightarrow> int" where
  "ns_of t = fst t * 1000000000 + snd t"

section \<open>Sums and differences\<close>

text \<open>The macros \<open>timersub\<close>, \<open>timeradd\<close> and \<open>timercmp\<close>; \<open>subtime\<close> and \<open>addtime\<close> store the
  result in their second argument.\<close>

definition subtime :: "tv \<Rightarrow> tv \<Rightarrow> tv" where
  "subtime a b =
     (let sec = fst a - fst b; usec = snd a - snd b
      in if usec < 0 then (sec - 1, usec + 1000000) else (sec, usec))"

definition addtime :: "tv \<Rightarrow> tv \<Rightarrow> tv" where
  "addtime a b =
     (let sec = fst a + fst b; usec = snd a + snd b
      in if usec \<ge> 1000000 then (sec + 1, usec - 1000000) else (sec, usec))"

definition time_more :: "tv \<Rightarrow> tv \<Rightarrow> bool" where
  "time_more a b \<longleftrightarrow> (if fst a = fst b then snd a > snd b else fst a > fst b)"

definition time_less :: "tv \<Rightarrow> tv \<Rightarrow> bool" where
  "time_less a b \<longleftrightarrow> (if fst a = fst b then snd a < snd b else fst a < fst b)"

definition timeraddspec :: "ts \<Rightarrow> ts \<Rightarrow> ts" where
  "timeraddspec a b =
     (let sec = fst a + fst b; nsec = snd a + snd b
      in if nsec \<ge> 1000000000 then (sec + 1, nsec - 1000000000) else (sec, nsec))"

definition cgtimer_sub :: "ts \<Rightarrow> ts \<Rightarrow> ts" where
  "cgtimer_sub a b =
     (let sec = fst a - fst b; nsec = snd a - snd b
      in if nsec < 0 then (sec - 1, nsec + 1000000000) else (sec, nsec))"

section \<open>Conversions\<close>

definition timespec_to_val :: "ts \<Rightarrow> tv" where
  "timespec_to_val t = (fst t, snd t sdiv 1000)"

definition timeval_to_spec :: "tv \<Rightarrow> ts" where
  "timeval_to_spec t = (fst t, snd t * 1000)"

definition us_to_timeval :: "int \<Rightarrow> tv" where
  "us_to_timeval us = (us sdiv 1000000, us smod 1000000)"

definition us_to_timespec :: "int \<Rightarrow> ts" where
  "us_to_timespec us = (us sdiv 1000000, us smod 1000000 * 1000)"

definition ms_to_timespec :: "int \<Rightarrow> ts" where
  "ms_to_timespec ms = (ms sdiv 1000, ms smod 1000 * 1000000)"

definition ms_to_timeval :: "int \<Rightarrow> tv" where
  "ms_to_timeval ms = (ms sdiv 1000, ms smod 1000 * 1000)"

definition timespec_to_ms :: "ts \<Rightarrow> int" where
  "timespec_to_ms t = fst t * 1000 + snd t sdiv 1000000"

text \<open>Where the sleep that began at \<open>start\<close> ends.\<close>

definition cgsleep_ms_r :: "ts \<Rightarrow> int \<Rightarrow> ts" where
  "cgsleep_ms_r start ms = timeraddspec (ms_to_timespec ms) start"

definition cgsleep_us_r :: "ts \<Rightarrow> int \<Rightarrow> ts" where
  "cgsleep_us_r start us = timeraddspec (us_to_timespec us) start"

section \<open>Differences as numbers\<close>

definition us_tdiff :: "tv \<Rightarrow> tv \<Rightarrow> int" where
  "us_tdiff fin start =
     (if fst fin - fst start > 60 then 60000000
      else (fst fin - fst start) * 1000000 + (snd fin - snd start))"

definition ms_tdiff :: "tv \<Rightarrow> tv \<Rightarrow> int" where
  "ms_tdiff fin start =
     (if fst fin - fst start > 3600 then 3600000
      else (fst fin - fst start) * 1000 + (snd fin - snd start) sdiv 1000)"

section \<open>The arithmetic is exact\<close>

lemma us_subtime [simp]: "us_of (subtime a b) = us_of a - us_of b"
  by (simp add: us_of_def subtime_def Let_def algebra_simps)

lemma us_addtime [simp]: "us_of (addtime a b) = us_of a + us_of b"
  by (simp add: us_of_def addtime_def Let_def algebra_simps)

lemma normal_subtime [simp]: "normal_tv a \<Longrightarrow> normal_tv b \<Longrightarrow> normal_tv (subtime a b)"
  by (auto simp: normal_tv_def subtime_def Let_def)

lemma normal_addtime [simp]: "normal_tv a \<Longrightarrow> normal_tv b \<Longrightarrow> normal_tv (addtime a b)"
  by (auto simp: normal_tv_def addtime_def Let_def)

lemma time_more_us: "normal_tv a \<Longrightarrow> normal_tv b \<Longrightarrow> time_more a b \<longleftrightarrow> us_of a > us_of b"
  by (auto simp: normal_tv_def time_more_def us_of_def)

lemma time_less_us: "normal_tv a \<Longrightarrow> normal_tv b \<Longrightarrow> time_less a b \<longleftrightarrow> us_of a < us_of b"
  by (auto simp: normal_tv_def time_less_def us_of_def)

lemma us_of_inj: "normal_tv a \<Longrightarrow> normal_tv b \<Longrightarrow> us_of a = us_of b \<Longrightarrow> a = b"
proof -
  assume n: "normal_tv a" "normal_tv b" and e: "us_of a = us_of b"
  have "fst a = us_of a div 1000000" "fst b = us_of b div 1000000" using n by (simp_all add: us_of_def normal_tv_def)
  then have "fst a = fst b" using e by metis
  then show "a = b" using e by (simp add: us_of_def prod_eq_iff)
qed

lemma ns_timeraddspec [simp]: "ns_of (timeraddspec a b) = ns_of a + ns_of b"
  by (simp add: ns_of_def timeraddspec_def Let_def algebra_simps)

lemma ns_cgtimer_sub [simp]: "ns_of (cgtimer_sub a b) = ns_of a - ns_of b"
  by (simp add: ns_of_def cgtimer_sub_def Let_def algebra_simps)

lemma us_to_timeval_us [simp]: "us_of (us_to_timeval us) = us"
  by (simp add: us_of_def us_to_timeval_def sdiv_mult_smod_eq)

lemma ns_ms_to_timespec [simp]: "ns_of (ms_to_timespec ms) = ms * 1000000"
  using sdiv_mult_smod_eq [of ms 1000] by (simp add: ns_of_def ms_to_timespec_def)

lemma ns_us_to_timespec [simp]: "ns_of (us_to_timespec us) = us * 1000"
  using sdiv_mult_smod_eq [of us 1000000] by (simp add: ns_of_def us_to_timespec_def)

lemma smod_normal: "0 \<le> (a :: int) \<Longrightarrow> 0 < b \<Longrightarrow> 0 \<le> a smod b \<and> a smod b < b"
  by (simp add: signed_modulo_int_def sgn_if)

lemma normal_ms_to_timespec: "0 \<le> ms \<Longrightarrow> normal_ts (ms_to_timespec ms)"
  using smod_normal [of ms 1000] by (simp add: normal_ts_def ms_to_timespec_def)

lemma normal_us_to_timeval: "0 \<le> us \<Longrightarrow> normal_tv (us_to_timeval us)"
  using smod_normal [of us 1000000] by (simp add: normal_tv_def us_to_timeval_def)

lemma normal_timeraddspec: "normal_ts a \<Longrightarrow> normal_ts b \<Longrightarrow> normal_ts (timeraddspec a b)"
  by (auto simp: normal_ts_def timeraddspec_def Let_def)

text \<open>A sleep ends the given time after its start, to the nanosecond, at a normal time.\<close>

lemma cgsleep_ms_exact:
  assumes "normal_ts start" and "0 \<le> ms"
  shows "ns_of (cgsleep_ms_r start ms) = ns_of start + ms * 1000000 \<and> normal_ts (cgsleep_ms_r start ms)"
  using assms by (simp add: cgsleep_ms_r_def normal_timeraddspec normal_ms_to_timespec)

text \<open>The difference in milliseconds is that of the times, up to one millisecond, and is limited to
  one hour; a start long after the end is not limited.\<close>

lemma ms_tdiff_close:
  assumes "normal_tv fin" and "normal_tv start" and "fst fin - fst start \<le> 3600"
  shows "\<bar>ms_tdiff fin start * 1000 - (us_of fin - us_of start)\<bar> < 1000"
proof -
  let ?d = "snd fin - snd start"
  have "\<bar>?d smod 1000\<bar> < 1000" by (simp add: signed_modulo_int_def abs_mult sgn_if)
  moreover have "?d sdiv 1000 * 1000 = ?d - ?d smod 1000" using sdiv_mult_smod_eq [of ?d 1000] by linarith
  ultimately show ?thesis using assms(3) by (simp add: ms_tdiff_def us_of_def algebra_simps)
qed

end
