(* ===== verification/Mining_Loop.thy ===== *)
theory Mining_Loop
  imports Share_Submit Timeval
begin

text \<open>
  The mining threads of \<open>src/cgminer/cgminer.c\<close>: \<open>hash_sole_work\<close>, which takes an item of work
  and has the driver search it again and again until it is given up, \<open>hash_queued_work\<close> and
  \<open>hash_driver_work\<close> for drivers with a queue of their own, \<open>miner_thread\<close> around them, and the
  flags by which other threads restart, pause and disable them.

  A turn of a loop is one step. The times, the driver's search and what the other threads do
  meanwhile are given with the turn; averages of hash rates are left out.
\<close>

section \<open>Threads and devices\<close>

datatype alive = LIFE_WELL | LIFE_SICK | LIFE_DEAD | LIFE_NOSTART | LIFE_INIT

datatype dev_enable = DEV_ENABLED | DEV_DISABLED | DEV_RECOVER

datatype dev_reason =
    REASON_THREAD_FAIL_INIT | REASON_THREAD_ZERO_HASH | REASON_THREAD_FAIL_QUEUE
  | REASON_DEV_SICK_IDLE_60 | REASON_DEV_DEAD_IDLE_600 | REASON_DEV_NOSTART | REASON_DEV_OVER_HEAT
  | REASON_DEV_THERMAL_CUTOFF | REASON_DEV_COMMS_ERROR | REASON_DEV_THROTTLE

record getwork_stats =
  getwork_calls :: u32
  getwork_wait :: tv
  getwork_wait_max :: tv
  getwork_wait_min :: tv

record device =
  deven :: dev_enable
  life :: alive
  last_well :: int
  not_well :: "(int \<times> dev_reason) option"
  reasons :: "dev_reason \<Rightarrow> int"
  max_hashes :: int
  new_work :: bool
  shutdown :: bool
  last_valid_work :: int
  dev_stats :: getwork_stats

record mthread =
  th_cgpu :: nat
  th_last :: tv
  th_sick :: tv
  th_pause :: bool
  th_getwork :: bool
  work_restart :: bool
  work_update :: bool
  sem :: nat

definition dev_error :: "int \<Rightarrow> dev_reason \<Rightarrow> device \<Rightarrow> device" where
  "dev_error now r d = d\<lparr>not_well := Some (now, r), reasons := (reasons d)(r := reasons d r + 1)\<rparr>"

text \<open>What a thread works on, with the state of the miner.\<close>

record mining =
  mi_work :: work
  mi_thr :: mthread
  mi_dev :: device
  mi_queue :: device_queue
  mi_pool_stats :: "nat \<Rightarrow> getwork_stats"
  mi_state :: miner

definition report :: "bool \<Rightarrow> tv \<Rightarrow> mining \<Rightarrow> mining" where
  "report waiting now m = m\<lparr>mi_thr := (mi_thr m)\<lparr>th_getwork := waiting, th_last := now\<rparr>,
     mi_dev := (mi_dev m)\<lparr>life := LIFE_WELL, last_well := fst now\<rparr>\<rparr>"

abbreviation thread_reportin :: "tv \<Rightarrow> mining \<Rightarrow> mining" where
  "thread_reportin \<equiv> report False"

abbreviation thread_reportout :: "tv \<Rightarrow> mining \<Rightarrow> mining" where
  "thread_reportout \<equiv> report True"

section \<open>The limit of a search\<close>

text \<open>
  \<open>hash_sole_work\<close> tells the driver how many nonces to search, and adapts the number so that a
  search takes about \<open>cycle\<close> seconds. The numbers are 32 bits wide, as the code computes them on
  the board; \<open>cycle\<close> and the times are positive and small. \<open>None\<close> is the \<open>continue\<close> that skips
  the rest of the turn.
\<close>

definition cycle_of :: "int \<Rightarrow> int" where
  "cycle_of log_interval = (if log_interval div 5 = 0 then 1 else log_interval div 5)"

definition speed_factor :: "int \<Rightarrow> int \<Rightarrow> int" where
  "speed_factor cycle usec = (1000000 sdiv ((usec + 0x400) sdiv 0x400) + 0x10) * cycle"

definition speed_up :: "int \<Rightarrow> int \<Rightarrow> u32 \<Rightarrow> u32" where
  "speed_up cycle usec n =
     (let f = word_of_int (speed_factor cycle usec)
      in if n > 0xffffffff * 0x400 div f then 0xffffffff else n * f div 0x400)"

definition adapt_limit :: "int \<Rightarrow> tv \<Rightarrow> u32 \<Rightarrow> u32 option" where
  "adapt_limit cycle sdiff n =
     (if fst sdiff < cycle then
        if n = 0xffffffff then None else Some (speed_up cycle (snd sdiff) n)
      else if fst sdiff > cycle then Some (n * word_of_int cycle div word_of_int (fst sdiff))
      else if snd sdiff > 100000 then
        Some (n * 0x400 div word_of_int ((cycle * 1000000 + snd sdiff) sdiv (cycle * 1000000 sdiv 0x400)))
      else Some n)"

section \<open>One turn\<close>

text \<open>The locals of \<open>hash_sole_work\<close>; \<open>metered\<close> lists the numbers of hashes reported to the
  hash meter.\<close>

record sole =
  max_nonce :: u32
  hashes_done :: int
  lo_sdiff :: tv
  lo_wdiff :: tv
  getwork_start :: tv
  tv_workstart :: tv
  tv_lastupdate :: tv
  metered :: "int list"

text \<open>
  What a turn meets: the time at its begin, what the driver's search does and returns, together
  with what other threads do meanwhile, the time at its end, the whole seconds when the work is
  tested for age, and what happens until a disabled thread is woken and enabled.
\<close>

record turn =
  tu_start :: tv
  tu_scan :: "u32 \<Rightarrow> mining \<Rightarrow> int \<times> mining"
  tu_stop :: tv
  tu_now :: int
  tu_woken :: "mining \<Rightarrow> mining"

definition count_wait :: "tv \<Rightarrow> getwork_stats \<Rightarrow> getwork_stats" where
  "count_wait d g =
     (let g = g\<lparr>getwork_wait := addtime d (getwork_wait g)\<rparr>;
          g = (if time_more d (getwork_wait_max g) then g\<lparr>getwork_wait_max := d\<rparr> else g);
          g = (if time_less d (getwork_wait_min g) then g\<lparr>getwork_wait_min := d\<rparr> else g)
      in g\<lparr>getwork_calls := getwork_calls g + 1\<rparr>)"

definition count_waits :: "tv \<Rightarrow> mining \<Rightarrow> mining" where
  "count_waits d m =
     (let a = the (w_pool (mi_work m))
      in m\<lparr>mi_dev := (mi_dev m)\<lparr>dev_stats := count_wait d (dev_stats (mi_dev m))\<rparr>,
           mi_pool_stats := (mi_pool_stats m)(a := count_wait d (mi_pool_stats m a))\<rparr>)"

definition abandon_work :: "int \<Rightarrow> work \<Rightarrow> tv \<Rightarrow> int \<Rightarrow> miner \<Rightarrow> bool" where
  "abandon_work now w wdiff hashes s \<longleftrightarrow>
     (if fst wdiff > opt_scantime s \<or> hashes \<ge> 0xfffffffe \<or> stale_work now w False s then True else False)"

text \<open>The thread sleeps on its semaphore, which is counted down when it wakes.\<close>

definition mt_disable :: "(mining \<Rightarrow> mining) \<Rightarrow> mining \<Rightarrow> mining" where
  "mt_disable woken m = (let m = woken m in m\<lparr>mi_thr := (mi_thr m)\<lparr>sem := sem (mi_thr m) - 1\<rparr>\<rparr>)"

definition add_sdiff :: "tv \<Rightarrow> tv \<Rightarrow> tv" where
  "add_sdiff d s =
     (let s = (fst s + fst d, snd s + snd d)
      in if snd s > 1000000 then (fst s + 1, snd s - 1000000) else s)"

definition meter :: "int \<Rightarrow> tv \<Rightarrow> sole \<Rightarrow> sole" where
  "meter log_interval now l =
     (let diff = subtime now (tv_lastupdate l)
      in if (hashes_done l \<noteq> 0 \<and> (fst diff > 0 \<or> snd diff > 200000)) \<or> fst diff \<ge> log_interval
         then l\<lparr>metered := metered l @ [hashes_done l], hashes_done := 0, tv_lastupdate := now\<rparr> else l)"

datatype outcome = Again | Given_up | Broken

definition again :: "turn \<Rightarrow> sole \<Rightarrow> mining \<Rightarrow> outcome \<times> sole \<times> mining" where
  "again t l m =
     (if abandon_work (tu_now t) (mi_work m) (lo_wdiff l) (max_hashes (mi_dev m)) (mi_state m)
      then (Given_up, l, m) else (Again, l, m))"

definition scan_begin :: "turn \<Rightarrow> sole \<Rightarrow> mining \<Rightarrow> mining" where
  "scan_begin t l m =
     (let m = count_waits (subtime (tu_start t) (getwork_start l)) m;
          m = m\<lparr>mi_work := (mi_work m)\<lparr>tv_work_start := fst (tu_start t)\<rparr>\<rparr>
      in thread_reportin (tu_start t) m)"

definition scan_turn :: "int \<Rightarrow> turn \<Rightarrow> sole \<Rightarrow> mining \<Rightarrow> outcome \<times> sole \<times> mining" where
  "scan_turn log_interval t l m =
     (let m = scan_begin t l m;
          (hashes, m) = tu_scan t (w_nonce (mi_work m) + max_nonce l) m;
          m = thread_reportout (tu_stop t) m;
          l = l\<lparr>getwork_start := tu_stop t\<rparr>
      in if hashes = - 1 then
           (Broken, l, m\<lparr>mi_dev := (dev_error (fst (tu_stop t)) REASON_THREAD_ZERO_HASH
              ((mi_dev m)\<lparr>deven := DEV_DISABLED\<rparr>))\<lparr>shutdown := True\<rparr>\<rparr>)
         else
           let l = l\<lparr>hashes_done := hashes_done l + hashes\<rparr>;
               m = (if hashes > max_hashes (mi_dev m) then m\<lparr>mi_dev := (mi_dev m)\<lparr>max_hashes := hashes\<rparr>\<rparr> else m);
               l = l\<lparr>lo_sdiff := add_sdiff (subtime (tu_stop t) (tu_start t)) (lo_sdiff l)\<rparr>;
               l = l\<lparr>lo_wdiff := subtime (tu_stop t) (tv_workstart l)\<rparr>
           in case adapt_limit (cycle_of log_interval) (lo_sdiff l) (max_nonce l) of
                None \<Rightarrow> again t l m
              | Some n \<Rightarrow>
                  let l = meter log_interval (tu_stop t) (l\<lparr>max_nonce := n\<rparr>)
                  in if work_restart (mi_thr m) then (Given_up, l, m)
                     else
                       let m = (if th_pause (mi_thr m) \<or> deven (mi_dev m) \<noteq> DEV_ENABLED
                                then mt_disable (tu_woken t) m else m)
                       in again t (l\<lparr>lo_sdiff := (0, 0)\<rparr>) m)"

section \<open>The search of an item\<close>

text \<open>The turns on one item, with the states in which they began; \<open>Again\<close> when the turns given end
  before the item is left.\<close>

fun scan_loop :: "int \<Rightarrow> turn list \<Rightarrow> sole \<Rightarrow> mining \<Rightarrow> (sole \<times> mining) list \<times> outcome \<times> sole \<times> mining" where
  "scan_loop log_interval [] l m = ([], Again, l, m)"
| "scan_loop log_interval (t # ts) l m =
     (case scan_turn log_interval t l m of
        (Again, l', m') \<Rightarrow> (case scan_loop log_interval ts l' m' of (xs, r) \<Rightarrow> ((l, m) # xs, r))
      | (Given_up, l', m') \<Rightarrow> ([(l, m)], Given_up, l', m')
      | (Broken, l', m') \<Rightarrow> ([(l, m)], Broken, l', m'))"

text \<open>
  \<open>get_work\<close> for the thread: it reports out, sleeps as long as nothing is staged, each wait with
  the result and time of its end and what happened meanwhile, and reports in.
\<close>

fun wait_work :: "int \<Rightarrow> (int \<times> int \<times> (miner \<Rightarrow> miner)) list \<Rightarrow> pop_result \<times> miner \<Rightarrow> pop_result \<times> miner" where
  "wait_work thr_id [] r = r"
| "wait_work thr_id ((rc, now, others) # ws) (Waiting, s) = wait_work thr_id ws (get_work_wake rc now thr_id (others s))"
| "wait_work thr_id (_ # ws) (Popped w, s) = (Popped w, s)"
| "wait_work thr_id (_ # ws) (No_work, s) = (No_work, s)"
| "wait_work thr_id (_ # ws) (Delete_null, s) = (Delete_null, s)"

record visit =
  vi_begin :: tv
  vi_waits :: "(int \<times> int \<times> (miner \<Rightarrow> miner)) list"
  vi_got :: tv
  vi_prepared :: bool
  vi_turns :: "turn list"

definition thread_work :: "int \<Rightarrow> visit \<Rightarrow> mining \<Rightarrow> mining option" where
  "thread_work thr_id v m =
     (let m = thread_reportout (vi_begin v) m
      in case wait_work thr_id (vi_waits v) (get_work (fst (vi_begin v)) thr_id (mi_state m)) of
           (Popped w, s) \<Rightarrow>
             let blocked = fst (vi_got v) - fst (vi_begin v);
                 m = m\<lparr>mi_work := w, mi_state := s\<rparr>;
                 m = (if blocked > 0 then m\<lparr>mi_dev := (mi_dev m)\<lparr>last_valid_work := last_valid_work (mi_dev m) + blocked\<rparr>\<rparr> else m)
             in Some (thread_reportin (vi_got v) m)
         | _ \<Rightarrow> None)"

text \<open>One item: \<open>None\<close> when the thread is still waiting for work, or when a null item is deleted.\<close>

definition begin_work :: "visit \<Rightarrow> sole \<Rightarrow> mining \<Rightarrow> sole \<times> mining" where
  "begin_work v l m = (l\<lparr>tv_workstart := vi_got v\<rparr>,
     m\<lparr>mi_thr := (mi_thr m)\<lparr>work_restart := False\<rparr>, mi_work := (mi_work m)\<lparr>w_nonce := 0\<rparr>,
       mi_dev := (mi_dev m)\<lparr>new_work := True, max_hashes := 0\<rparr>\<rparr>)"

definition sole_visit :: "int \<Rightarrow> int \<Rightarrow> visit \<Rightarrow> sole \<Rightarrow> mining \<Rightarrow>
    ((sole \<times> mining) list \<times> outcome \<times> sole \<times> mining) option" where
  "sole_visit log_interval thr_id v l m =
     (case thread_work thr_id v m of
        None \<Rightarrow> None
      | Some m \<Rightarrow>
          let (l, m) = begin_work v l m
          in if \<not> vi_prepared v then Some ([], Broken, l, m)
             else Some (scan_loop log_interval (vi_turns v) l m))"

text \<open>
  The whole thread; the result has all turns. It ends when the device is shut down, when a search
  or the preparation of work fails; only then the device is disabled.
\<close>

fun sole_visits :: "int \<Rightarrow> int \<Rightarrow> visit list \<Rightarrow> sole \<Rightarrow> mining \<Rightarrow>
    ((sole \<times> mining) list \<times> bool \<times> sole \<times> mining) option" where
  "sole_visits log_interval thr_id [] l m = Some ([], False, l, m)"
| "sole_visits log_interval thr_id (v # vs) l m =
     (if shutdown (mi_dev m) then Some ([], True, l, m\<lparr>mi_dev := (mi_dev m)\<lparr>deven := DEV_DISABLED\<rparr>\<rparr>)
      else
        case sole_visit log_interval thr_id v l m of
          None \<Rightarrow> None
        | Some (xs, Broken, l, m) \<Rightarrow> Some (xs, True, l, m\<lparr>mi_dev := (mi_dev m)\<lparr>deven := DEV_DISABLED\<rparr>\<rparr>)
        | Some (xs, Given_up, l, m) \<Rightarrow>
            (case sole_visits log_interval thr_id vs l m of
               None \<Rightarrow> None
             | Some (ys, r) \<Rightarrow> Some (xs @ ys, r))
        | Some (xs, Again, l, m) \<Rightarrow> Some (xs, False, l, m))"

definition hash_sole_work :: "int \<Rightarrow> int \<Rightarrow> tv \<Rightarrow> u32 \<Rightarrow> visit list \<Rightarrow> mining \<Rightarrow>
    ((sole \<times> mining) list \<times> bool \<times> sole \<times> mining) option" where
  "hash_sole_work log_interval thr_id now limit vs m =
     sole_visits log_interval thr_id vs
       \<lparr>max_nonce = limit, hashes_done = 0, lo_sdiff = (0, 0), lo_wdiff = (0, 0), getwork_start = now,
        tv_workstart = now, tv_lastupdate = now, metered = []\<rparr> m"

section \<open>Drivers with a queue\<close>

text \<open>
  \<open>fill_queue\<close> gets work until the driver says that its queue is full; each turn has the work got,
  what another thread stored meanwhile, and the driver's answer.
\<close>

fun fill_queue :: "(work \<times> work option \<times> (device_queue \<Rightarrow> bool \<times> device_queue)) list \<Rightarrow>
    device_queue \<times> miner \<Rightarrow> bool \<times> device_queue \<times> miner" where
  "fill_queue [] (c, s) = (False, c, s)"
| "fill_queue ((got, raced, queue_full) # ts) (c, s) =
     (let (c, s) = fill_queue_turn got raced c s;
          (full, c) = queue_full c
      in if full then (True, c, s) else fill_queue ts (c, s))"

text \<open>One turn of \<open>hash_driver_work\<close>; \<open>hash_queued_work\<close> fills the queue first.\<close>

record driver_turn =
  dt_fill :: "(work \<times> work option \<times> (device_queue \<Rightarrow> bool \<times> device_queue)) list"
  dt_scan :: "mining \<Rightarrow> int \<times> mining"
  dt_stop :: tv
  dt_woken :: "mining \<Rightarrow> mining"
  dt_update :: "mining \<Rightarrow> mining"

definition driver_turn :: "int \<Rightarrow> driver_turn \<Rightarrow> sole \<Rightarrow> mining \<Rightarrow> outcome \<times> sole \<times> mining" where
  "driver_turn log_interval t l m =
     (let (hashes, m) = dt_scan t m;
          m = m\<lparr>mi_thr := (mi_thr m)\<lparr>work_restart := False\<rparr>\<rparr>
      in if hashes = - 1 then
           (Broken, l, m\<lparr>mi_dev := dev_error (fst (dt_stop t)) REASON_THREAD_ZERO_HASH ((mi_dev m)\<lparr>deven := DEV_DISABLED\<rparr>)\<rparr>)
         else
           let l = meter log_interval (dt_stop t) (l\<lparr>hashes_done := hashes_done l + hashes\<rparr>);
               m = (if th_pause (mi_thr m) \<or> deven (mi_dev m) \<noteq> DEV_ENABLED then mt_disable (dt_woken t) m else m);
               m = (if work_update (mi_thr m) then dt_update t m else m)
           in (Again, l, m))"

definition hash_driver_turn :: "int \<Rightarrow> driver_turn \<Rightarrow> sole \<Rightarrow> mining \<Rightarrow> outcome \<times> sole \<times> mining" where
  "hash_driver_turn log_interval t l m =
     driver_turn log_interval t l (m\<lparr>mi_thr := (mi_thr m)\<lparr>work_update := False\<rparr>\<rparr>)"

definition hash_queued_turn :: "int \<Rightarrow> driver_turn \<Rightarrow> sole \<Rightarrow> mining \<Rightarrow> (outcome \<times> sole \<times> mining) option" where
  "hash_queued_turn log_interval t l m =
     (let m = m\<lparr>mi_thr := (mi_thr m)\<lparr>work_update := False\<rparr>\<rparr>;
          (full, c, s) = fill_queue (dt_fill t) (mi_queue m, mi_state m)
      in if full then Some (driver_turn log_interval t l (m\<lparr>mi_queue := c, mi_state := s\<rparr>)) else None)"

section \<open>The thread\<close>

text \<open>\<open>miner_thread\<close>: \<open>init\<close> is the driver's \<open>thread_init\<close>, \<open>work\<close> its \<open>hash_work\<close>.\<close>

definition miner_thread ::
    "tv \<Rightarrow> (mining \<Rightarrow> bool \<times> mining) \<Rightarrow> (mining \<Rightarrow> mining) \<Rightarrow> int \<Rightarrow> (mining \<Rightarrow> mining) \<Rightarrow> mining \<Rightarrow> mining" where
  "miner_thread now init woken woken_at work m =
     (let m = thread_reportout now m;
          (ok, m) = init m
      in if \<not> ok then m\<lparr>mi_dev := dev_error (fst now) REASON_THREAD_FAIL_INIT (mi_dev m)\<rparr>
         else
           let m = mt_disable woken m
           in work (m\<lparr>mi_dev := (mi_dev m)\<lparr>last_valid_work := woken_at\<rparr>\<rparr>))"

text \<open>
  \<open>restart_wait\<close>: the time at which the wait ends, computed with 32 bits, and its result: 0 when
  the thread was to restart, else that of the wait, given.
\<close>

definition restart_deadline :: "tv \<Rightarrow> u32 \<Rightarrow> tv" where
  "restart_deadline now mstime =
     (let sec = mstime div 1000
      in addtime now (uint sec, sint (mstime * 1000 - sec * 1000000)))"

definition restart_wait :: "mthread \<Rightarrow> int \<Rightarrow> int" where
  "restart_wait thr rc = (if work_restart thr then 0 else rc)"


section \<open>Searches are bounded\<close>

lemma again_Again:
  "again t l m = (Again, l', m') \<longleftrightarrow> l' = l \<and> m' = m \<and>
     fst (lo_wdiff l) \<le> opt_scantime (mi_state m) \<and> max_hashes (mi_dev m) < 0xfffffffe \<and>
     \<not> stale_work (tu_now t) (mi_work m) False (mi_state m)"
  by (auto simp: again_def abandon_work_def)

lemma meter_fields [simp]:
  "tv_workstart (meter n now l) = tv_workstart l" "lo_wdiff (meter n now l) = lo_wdiff l"
  "max_nonce (meter n now l) = max_nonce l" "getwork_start (meter n now l) = getwork_start l"
  "lo_sdiff (meter n now l) = lo_sdiff l"
  "sum_list (metered (meter n now l)) + hashes_done (meter n now l) = sum_list (metered l) + hashes_done l"
  by (simp_all add: meter_def Let_def)

lemma again_locals [simp]: "fst (snd (again t l m)) = l"
  by (simp add: again_def)

lemma scan_turn_locals:
  assumes "scan_turn log_interval t l m = (r, l', m')"
  shows "tv_workstart l' = tv_workstart l" "r \<noteq> Broken \<Longrightarrow> lo_wdiff l' = subtime (tu_stop t) (tv_workstart l)"
  using assms
  by (auto simp: scan_turn_def Let_def again_def split: prod.splits option.splits if_splits)

lemma scan_turn_again:
  assumes "scan_turn log_interval t l m = (Again, l', m')"
  shows "fst (subtime (tu_stop t) (tv_workstart l)) \<le> opt_scantime (mi_state m') \<and>
    max_hashes (mi_dev m') < 0xfffffffe \<and> \<not> stale_work (tu_now t) (mi_work m') False (mi_state m')"
  using assms
  by (auto simp: scan_turn_def Let_def again_Again split: prod.splits option.splits if_splits)

text \<open>What the driver's search counts in a turn.\<close>

definition turn_hashes :: "turn \<Rightarrow> sole \<times> mining \<Rightarrow> int" where
  "turn_hashes t lm =
     (let m = scan_begin t (fst lm) (snd lm) in fst (tu_scan t (w_nonce (mi_work m) + max_nonce (fst lm)) m))"

definition reported :: "sole \<Rightarrow> int" where
  "reported l = sum_list (metered l) + hashes_done l"

lemma scan_turn_reported:
  assumes "scan_turn log_interval t l m = (r, l', m')"
  shows "reported l' = reported l + (if r = Broken then 0 else turn_hashes t (l, m))"
    and "r = Broken \<longleftrightarrow> turn_hashes t (l, m) = - 1"
  using assms
  by (auto simp: scan_turn_def Let_def again_def reported_def turn_hashes_def split: prod.splits option.splits if_splits)

text \<open>The states in which the turns began, with the last one when the search goes on.\<close>

definition loop_states :: "(sole \<times> mining) list \<times> outcome \<times> sole \<times> mining \<Rightarrow> (sole \<times> mining) list" where
  "loop_states res = (case res of (xs, r, l, m) \<Rightarrow> xs @ (if r = Again then [(l, m)] else []))"

definition may_go_on :: "turn \<Rightarrow> tv \<Rightarrow> mining \<Rightarrow> bool" where
  "may_go_on t began u \<longleftrightarrow> fst (subtime (tu_stop t) began) \<le> opt_scantime (mi_state u) \<and>
     max_hashes (mi_dev u) < 0xfffffffe \<and> \<not> stale_work (tu_now t) (mi_work u) False (mi_state u)"

lemma scan_loop_states:
  assumes "scan_loop log_interval ts l m = (xs, r, l', m')"
  defines "us \<equiv> loop_states (xs, r, l', m')"
  shows "length xs \<le> length ts \<and> us \<noteq> [] \<and> us ! 0 = (l, m) \<and> (ts \<noteq> [] \<longrightarrow> xs \<noteq> []) \<and>
    (r = Again \<longrightarrow> length xs = length ts) \<and>
    (\<forall>i. Suc i < length us \<longrightarrow> may_go_on (ts ! i) (tv_workstart l) (snd (us ! Suc i)))"
  unfolding us_def using assms(1)
proof (induction ts arbitrary: l m xs)
  case (Cons t ts)
  obtain q k u where s: "scan_turn log_interval t l m = (q, k, u)" by (metis prod_cases3)
  show ?case
  proof (cases q)
    case Again
    obtain ys where ys: "scan_loop log_interval ts k u = (ys, r, l', m')" and xs: "xs = (l, m) # ys"
      using Cons.prems s Again by (auto split: prod.splits)
    note IH = Cons.IH [OF ys] and b = scan_turn_again [OF s [unfolded Again]] and w = scan_turn_locals(1) [OF s]
    have c: "loop_states (xs, r, l', m') = (l, m) # loop_states (ys, r, l', m')" by (simp add: loop_states_def xs)
    have "may_go_on ((t # ts) ! i) (tv_workstart l) (snd (loop_states (xs, r, l', m') ! Suc i))"
      if "Suc i < length (loop_states (xs, r, l', m'))" for i
      using that IH b w by (cases i) (simp_all add: c may_go_on_def)
    then show ?thesis using IH xs by (simp add: loop_states_def)
  qed (use Cons.prems s in \<open>auto simp: loop_states_def\<close>)
qed (auto simp: loop_states_def)

lemma scan_loop_keeps:
  assumes "scan_loop log_interval ts l m = (xs, r, l', m')" and "P m"
    and "\<And>t l m r l' m'. t \<in> set ts \<Longrightarrow> P m \<Longrightarrow> scan_turn log_interval t l m = (r, l', m') \<Longrightarrow> P m'"
  shows "\<forall>u\<in>set (loop_states (xs, r, l', m')). P (snd u)"
  using assms
proof (induction ts arbitrary: l m xs)
  case (Cons t ts)
  obtain q k u where s: "scan_turn log_interval t l m = (q, k, u)" by (metis prod_cases3)
  show ?case
  proof (cases q)
    case Again
    obtain ys where ys: "scan_loop log_interval ts k u = (ys, r, l', m')" and xs: "xs = (l, m) # ys"
      using Cons.prems(1) s Again by (auto split: prod.splits)
    have "P u" using Cons.prems(2,3) s by (meson list.set_intros(1))
    then have "\<forall>u\<in>set (loop_states (ys, r, l', m')). P (snd u)"
      using Cons.IH [OF ys] Cons.prems(3) by (meson list.set_intros(2))
    then show ?thesis using Cons.prems(2) by (simp add: loop_states_def xs)
  qed (use Cons.prems s in \<open>auto simp: loop_states_def\<close>)
qed (auto simp: loop_states_def)

lemma wait_work_fresh:
  assumes "wait_work thr_id ws r = (Popped w, s)"
    and "\<And>v. fst r = Popped v \<Longrightarrow> \<not> stale_work now v False (snd r)"
  shows "\<exists>now'\<in>insert now (set (map (fst \<circ> snd) ws)). \<not> stale_work now' w False s"
  using assms
proof (induction thr_id ws r arbitrary: now rule: wait_work.induct)
  case (2 thr_id rc t others ws s')
  have "\<exists>now'\<in>insert t (set (map (fst \<circ> snd) ws)). \<not> stale_work now' w False s"
  proof (rule "2.IH")
    show "wait_work thr_id ws (get_work_wake rc t thr_id (others s')) = (Popped w, s)" using "2.prems"(1) by simp
    show "\<not> stale_work t v False (snd (get_work_wake rc t thr_id (others s')))"
      if "fst (get_work_wake rc t thr_id (others s')) = Popped v" for v
      using that get_work_loop_fresh [of t thr_id "hash_pop_wake rc (others s')" v]
      by (cases "get_work_wake rc t thr_id (others s')") (simp add: get_work_wake_def)
  qed
  then show ?case by auto
qed auto

text \<open>The times at which the queue is looked at.\<close>

definition visit_times :: "visit \<Rightarrow> int set" where
  "visit_times v = insert (fst (vi_begin v)) (set (map (fst \<circ> snd) (vi_waits v)))"

lemma thread_work_fresh:
  assumes "thread_work thr_id v m = Some m'"
  shows "\<exists>now\<in>visit_times v. \<not> stale_work now (mi_work m') False (mi_state m')"
proof -
  let ?m = "thread_reportout (vi_begin v) m"
  obtain w s where w: "wait_work thr_id (vi_waits v) (get_work (fst (vi_begin v)) thr_id (mi_state ?m)) = (Popped w, s)"
    and m': "mi_work m' = w" "mi_state m' = s"
    using assms by (auto simp: thread_work_def Let_def report_def split: pop_result.splits prod.splits if_splits)
  have "\<not> stale_work (fst (vi_begin v)) x False (snd (get_work (fst (vi_begin v)) thr_id (mi_state ?m)))"
    if "fst (get_work (fst (vi_begin v)) thr_id (mi_state ?m)) = Popped x" for x
    using that get_work_loop_fresh [of "fst (vi_begin v)" thr_id "hash_pop True (mi_state ?m)" x]
    by (cases "get_work (fst (vi_begin v)) thr_id (mi_state ?m)") (simp add: get_work_def)
  from wait_work_fresh [OF w this] show ?thesis by (simp add: m' visit_times_def)
qed

lemma stale_work_nonce [simp]: "stale_work now (w\<lparr>w_nonce := x\<rparr>) share s = stale_work now w share s"
  by (rule stale_work_cong) simp_all

text \<open>C24: Every search of a mining thread is on work that was fresh when it was last looked at: the
  first on an item just taken from the queue and not stale, each further one after a test that the
  item is not stale, has been worked on for at most \<open>opt_scantime\<close> seconds and has not had its
  nonces searched in one go.\<close>

theorem searches_stay_fresh:
  assumes "sole_visit log_interval thr_id v l m = Some (xs, r, l', m')" and "i < length xs" and "xs ! i = (k, u)"
  shows "case i of 0 \<Rightarrow> \<exists>now\<in>visit_times v. \<not> stale_work now (mi_work u) False (mi_state u)
    | Suc j \<Rightarrow> fst (subtime (tu_stop (vi_turns v ! j)) (vi_got v)) \<le> opt_scantime (mi_state u) \<and>
        max_hashes (mi_dev u) < 0xfffffffe \<and> \<not> stale_work (tu_now (vi_turns v ! j)) (mi_work u) False (mi_state u)"
proof -
  obtain m1 where m1: "thread_work thr_id v m = Some m1" using assms(1) by (auto simp: sole_visit_def split: option.splits)
  obtain l2 m2 where b: "begin_work v l m1 = (l2, m2)" by fastforce
  have loop: "scan_loop log_interval (vi_turns v) l2 m2 = (xs, r, l', m')"
    using assms(1,2) m1 b by (auto simp: sole_visit_def split: if_splits)
  have f: "tv_workstart l2 = vi_got v" "mi_work m2 = (mi_work m1)\<lparr>w_nonce := 0\<rparr>" "mi_state m2 = mi_state m1"
    using b by (auto simp: begin_work_def)
  let ?us = "loop_states (xs, r, l', m')"
  have us: "i < length ?us" "?us ! i = (k, u)" using assms(2,3) by (simp_all add: loop_states_def nth_append)
  show ?thesis
  proof (cases i)
    case 0
    have "?us ! 0 = (l2, m2)" using scan_loop_states [OF loop] by blast
    then have "u = m2" using us(2) 0 by simp
    then show ?thesis using thread_work_fresh [OF m1] 0 f by simp
  next
    case (Suc j)
    have "may_go_on (vi_turns v ! j) (tv_workstart l2) (snd (?us ! Suc j))"
      using scan_loop_states [OF loop] us(1) Suc by blast
    then show ?thesis using Suc us(2) f by (simp add: may_go_on_def)
  qed
qed

lemma scan_loop_reported:
  assumes "scan_loop log_interval ts l m = (xs, r, l', m')" and "ts \<noteq> []"
  shows "reported l' = reported l + (\<Sum>(t, x)\<leftarrow>zip ts (if r = Broken then butlast xs else xs). turn_hashes t x)"
  using assms
proof (induction ts arbitrary: l m xs)
  case (Cons t ts)
  obtain q k u where s: "scan_turn log_interval t l m = (q, k, u)" by (metis prod_cases3)
  note R = scan_turn_reported [OF s]
  show ?case
  proof (cases q)
    case Again
    obtain ys where ys: "scan_loop log_interval ts k u = (ys, r, l', m')" and xs: "xs = (l, m) # ys"
      using Cons.prems s Again by (auto split: prod.splits)
    show ?thesis
    proof (cases "ts = []")
      case True
      then show ?thesis using ys xs R Again by simp
    next
      case False
      then have "ys \<noteq> []" using scan_loop_states [OF ys] by simp
      then show ?thesis using Cons.IH [OF ys False] xs R Again by simp
    qed
  qed (use Cons.prems s R in \<open>auto\<close>)
qed simp

text \<open>No hash is lost or counted twice: while a thread works on an item, the hashes it reports to
  the hash meter and those it still holds are the sum of what the driver's searches returned,
  the failed one apart.\<close>

theorem hashes_reported:
  assumes "sole_visit log_interval thr_id v l m = Some (xs, r, l', m')"
  shows "reported l' = reported l +
    (\<Sum>(t, x)\<leftarrow>zip (vi_turns v) (if r = Broken then butlast xs else xs). turn_hashes t x)"
proof -
  obtain m1 where m1: "thread_work thr_id v m = Some m1" using assms(1) by (auto simp: sole_visit_def split: option.splits)
  obtain l2 m2 where b: "begin_work v l m1 = (l2, m2)" by fastforce
  have l2: "reported l2 = reported l" using b by (auto simp: begin_work_def reported_def)
  show ?thesis
  proof (cases "vi_prepared v \<and> vi_turns v \<noteq> []")
    case True
    then show ?thesis using scan_loop_reported [of log_interval "vi_turns v" l2 m2] assms m1 b l2
      by (auto simp: sole_visit_def split: if_splits)
  next
    case False
    then show ?thesis using assms m1 b l2 by (auto simp: sole_visit_def split: if_splits)
  qed
qed

section \<open>Searches end\<close>

definition bounded_scantime :: "int \<Rightarrow> mining \<Rightarrow> bool" where
  "bounded_scantime c m \<longleftrightarrow> opt_scantime (mi_state m) \<le> c"

text \<open>What the driver and the other threads do does not raise \<open>opt_scantime\<close> above \<open>c\<close>.\<close>

definition keeps_scantime :: "int \<Rightarrow> visit \<Rightarrow> bool" where
  "keeps_scantime c v \<longleftrightarrow>
     (\<forall>(rc, now, others)\<in>set (vi_waits v). \<forall>s. opt_scantime s \<le> c \<longrightarrow> opt_scantime (others s) \<le> c) \<and>
     (\<forall>t\<in>set (vi_turns v). \<forall>u. bounded_scantime c u \<longrightarrow>
        (\<forall>n. bounded_scantime c (snd (tu_scan t n u))) \<and> bounded_scantime c (tu_woken t u))"

lemma scantime_simps [simp]:
  "opt_scantime (discard_work w s) = opt_scantime s"
  "opt_scantime (snd (hash_pop_take s)) = opt_scantime s"
  "opt_scantime (snd (hash_pop b s)) = opt_scantime s"
  "opt_scantime (snd (hash_pop_wake rc s)) = opt_scantime s"
  by (simp_all add: discard_work_def upd_pool_work_def hash_pop_take_def hash_pop_def hash_pop_wake_def Let_def
      split: option.splits)

lemma get_work_loop_scantime [simp]: "opt_scantime (snd (get_work_loop now thr_id r)) = opt_scantime (snd r)"
  by (induction now thr_id r rule: get_work_loop.induct) simp_all

lemma wait_work_scantime:
  assumes "\<forall>(rc, now, others)\<in>set ws. \<forall>s. opt_scantime s \<le> c \<longrightarrow> opt_scantime (others s) \<le> c"
    and "opt_scantime (snd r) \<le> c"
  shows "opt_scantime (snd (wait_work thr_id ws r)) \<le> c"
  using assms
proof (induction thr_id ws r rule: wait_work.induct)
  case (2 thr_id rc now others ws s)
  have "opt_scantime (snd (get_work_wake rc now thr_id (others s))) \<le> c"
    using "2.prems" by (simp add: get_work_wake_def)
  then show ?case using 2 by simp
qed simp_all

lemma begin_scantime [simp]:
  "bounded_scantime c (report b now m) = bounded_scantime c m"
  "bounded_scantime c (scan_begin t l m) = bounded_scantime c m"
  "bounded_scantime c (m\<lparr>mi_dev := d\<rparr>) = bounded_scantime c m"
  "bounded_scantime c (mt_disable f m) = bounded_scantime c (f m)"
  by (simp_all add: bounded_scantime_def report_def scan_begin_def count_waits_def mt_disable_def Let_def)

lemma again_mining [simp]: "snd (snd (again t l m)) = m"
  by (simp add: again_def)

lemma scan_turn_scantime:
  assumes "scan_turn log_interval t l m = (r, l', m')" and "bounded_scantime c m"
    and "\<forall>u. bounded_scantime c u \<longrightarrow> (\<forall>n. bounded_scantime c (snd (tu_scan t n u))) \<and> bounded_scantime c (tu_woken t u)"
  shows "bounded_scantime c m'"
proof -
  obtain h u where u: "tu_scan t (w_nonce (mi_work (scan_begin t l m)) + max_nonce l) (scan_begin t l m) = (h, u)" by fastforce
  then have "bounded_scantime c u" using assms(2,3) by (metis begin_scantime(2) snd_conv)
  moreover have "bounded_scantime c (tu_woken t x)" if "bounded_scantime c x" for x using that assms(3) by blast
  ultimately show ?thesis using assms(1) u
    by (auto simp: scan_turn_def Let_def again_def split: option.splits if_splits)
qed

text \<open>No item is searched for ever: once a search has ended more than \<open>opt_scantime\<close> seconds
  after the item was taken, the item is given up, or the device has failed; there is no further
  search of it.\<close>

theorem search_is_given_up:
  assumes "sole_visit log_interval thr_id v l m = Some (xs, r, l', m')" and "vi_prepared v" and "k < length (vi_turns v)"
    and "c < fst (subtime (tu_stop (vi_turns v ! k)) (vi_got v))"
    and "opt_scantime (mi_state m) \<le> c" and "keeps_scantime c v"
  shows "length xs \<le> Suc k \<and> r \<noteq> Again"
proof -
  obtain m1 where m1: "thread_work thr_id v m = Some m1" using assms(1) by (auto simp: sole_visit_def split: option.splits)
  obtain l2 m2 where b: "begin_work v l m1 = (l2, m2)" by fastforce
  have loop: "scan_loop log_interval (vi_turns v) l2 m2 = (xs, r, l', m')"
    using assms(1,2) m1 b by (auto simp: sole_visit_def)
  have f: "tv_workstart l2 = vi_got v" "mi_state m2 = mi_state m1" using b by (auto simp: begin_work_def)
  have w: "\<forall>(rc, now, others)\<in>set (vi_waits v). \<forall>s. opt_scantime s \<le> c \<longrightarrow> opt_scantime (others s) \<le> c"
    using assms(6) by (simp add: keeps_scantime_def)
  have "opt_scantime (snd (get_work (fst (vi_begin v)) thr_id (mi_state m))) \<le> c" using assms(5) by (simp add: get_work_def)
  from wait_work_scantime [OF w this, of thr_id] have "bounded_scantime c m2"
    using m1 f by (auto simp: thread_work_def Let_def report_def bounded_scantime_def split: pop_result.splits prod.splits if_splits)
  then have all: "\<forall>u\<in>set (loop_states (xs, r, l', m')). bounded_scantime c (snd u)"
    using scan_loop_keeps [OF loop, of "bounded_scantime c"] scan_turn_scantime assms(6)
    by (simp add: keeps_scantime_def)
  let ?us = "loop_states (xs, r, l', m')"
  have "\<not> Suc k < length ?us"
  proof
    assume k: "Suc k < length ?us"
    then have "may_go_on (vi_turns v ! k) (vi_got v) (snd (?us ! Suc k))" using scan_loop_states [OF loop] f by auto
    moreover have "bounded_scantime c (snd (?us ! Suc k))" using all nth_mem [OF k] by blast
    ultimately show False using assms(4) by (simp add: may_go_on_def bounded_scantime_def)
  qed
  moreover have "length xs = length (vi_turns v)" if "r = Again" using scan_loop_states [OF loop] that by blast
  ultimately show ?thesis using assms(3) by (auto simp: loop_states_def split: if_splits)
qed

section \<open>The limit\<close>

text \<open>The settings for which the numbers fit: \<open>opt_log_interval\<close> is at most 9999.\<close>

definition limit_ok :: "int \<Rightarrow> tv \<Rightarrow> bool" where
  "limit_ok cycle sdiff \<longleftrightarrow> 1 \<le> cycle \<and> cycle \<le> 1999 \<and> 0 \<le> fst sdiff \<and> fst sdiff < 2 ^ 31 \<and>
     0 \<le> snd sdiff \<and> snd sdiff \<le> 1000000"

lemma div_mult_below: "0 < (b :: int) \<Longrightarrow> a div b * b \<le> a"
  by (simp add: minus_mod_eq_div_mult [symmetric])

lemma int_div_below: "0 \<le> (a :: int) \<Longrightarrow> 1 \<le> b \<Longrightarrow> a div b \<le> a"
  using zdiv_mono2 [of a 1 b] by simp

lemma speed_factor_bounds:
  assumes "limit_ok cycle sdiff"
  shows "1 \<le> speed_factor cycle (snd sdiff)" "speed_factor cycle (snd sdiff) < 2 ^ 32"
proof -
  define q where "q = 1000000 sdiv ((snd sdiff + 0x400) sdiv 0x400)"
  have "1 \<le> (snd sdiff + 1024) div 1024"
    using zdiv_mono1 [of 1024 "snd sdiff + 1024" 1024] assms by (simp add: limit_ok_def)
  then have q: "0 \<le> q" "q \<le> 1000000"
    using assms by (simp_all add: q_def limit_ok_def signed_divide_int_def pos_imp_zdiv_nonneg_iff int_div_below)
  have f: "speed_factor cycle (snd sdiff) = (q + 16) * cycle" by (simp add: speed_factor_def q_def)
  have "1 * 1 \<le> (q + 16) * cycle" using q assms by (intro mult_mono) (auto simp: limit_ok_def)
  then show "1 \<le> speed_factor cycle (snd sdiff)" by (simp add: f)
  have "(q + 16) * cycle \<le> 1000016 * 1999" using q assms by (intro mult_mono) (auto simp: limit_ok_def)
  then show "speed_factor cycle (snd sdiff) < 2 ^ 32" by (simp add: f)
qed

lemma uint_word_of: "0 \<le> x \<Longrightarrow> x < 2 ^ 32 \<Longrightarrow> uint (word_of_int x :: u32) = x"
  by (simp add: uint_word_of_int)

lemma speed_up_exact:
  assumes "limit_ok cycle sdiff"
  defines "f \<equiv> speed_factor cycle (snd sdiff)"
  shows "uint (speed_up cycle (snd sdiff) n) =
    (if 4294966272 div f < uint n then 4294967295 else uint n * f div 1024)"
proof -
  have b: "1 \<le> f" "f < 2 ^ 32" unfolding f_def using speed_factor_bounds [OF assms(1)] by simp_all
  then have uf: "uint (word_of_int f :: u32) = f" by (intro uint_word_of) simp_all
  have c: "(0xffffffff * 0x400 :: u32) = 4294966272" by simp
  have d: "n > 0xffffffff * 0x400 div word_of_int f \<longleftrightarrow> 4294966272 div f < uint n"
    unfolding c word_less_def uint_div_distrib uf by simp
  have e: "uint (n * word_of_int f div 0x400) = uint n * f div 1024" if "\<not> 4294966272 div f < uint n"
  proof -
    have "uint n * f \<le> 4294966272 div f * f" using that b by (intro mult_right_mono) auto
    also have "\<dots> \<le> 4294966272" using b by (intro div_mult_below) simp
    finally have "uint (n * word_of_int f) = uint n * f"
      using b uf by (simp add: uint_word_ariths(3))
    then show ?thesis by (simp add: uint_div_distrib)
  qed
  show ?thesis using d e by (simp add: speed_up_def Let_def f_def)
qed

text \<open>How the limit of a search changes. A search that was too fast raises it without overflow, but
  the bound for that is itself computed with 32 bits, so that the limit becomes at most 4194303 or
  jumps to the whole range; a search of the whole range that took between 0.1 and 1 second longer
  than intended does not lower it a little, but to at most 4194303, a thousandth of the range.\<close>

theorem limit_adapts:
  assumes "limit_ok cycle sdiff" and "adapt_limit cycle sdiff n = Some n'"
  shows "(fst sdiff < cycle \<longrightarrow> n' = 0xffffffff \<or>
      uint n' = uint n * speed_factor cycle (snd sdiff) div 1024 \<and> uint n' \<le> 4194303) \<and>
    (fst sdiff = cycle \<and> 100000 < snd sdiff \<and> n = 0xffffffff \<longrightarrow> uint n' \<le> 4194303) \<and>
    (fst sdiff = cycle \<and> snd sdiff \<le> 100000 \<longrightarrow> n' = n)"
proof (intro conjI impI)
  assume l: "fst sdiff < cycle"
  then have n': "n' = speed_up cycle (snd sdiff) n" using assms(2) by (simp add: adapt_limit_def split: if_splits)
  note b = speed_factor_bounds [OF assms(1)] and u = speed_up_exact [OF assms(1), of n]
  show "n' = 0xffffffff \<or> uint n' = uint n * speed_factor cycle (snd sdiff) div 1024 \<and> uint n' \<le> 4194303"
  proof (cases "4294966272 div speed_factor cycle (snd sdiff) < uint n")
    case True
    then have "uint n' = uint (0xffffffff :: u32)" using u n' by simp
    then show ?thesis by (simp add: word_uint_eq_iff)
  next
    case False
    then have "uint n * speed_factor cycle (snd sdiff) \<le> 4294966272 div speed_factor cycle (snd sdiff) * speed_factor cycle (snd sdiff)"
      using b by (intro mult_right_mono) auto
    also have "\<dots> \<le> 4294966272" using b by (intro div_mult_below) simp
    finally show ?thesis using u n' False by auto
  qed
next
  assume l: "fst sdiff = cycle \<and> 100000 < snd sdiff \<and> n = 0xffffffff"
  define d where "d = (cycle * 1000000 + snd sdiff) sdiv (cycle * 1000000 sdiv 0x400)"
  have "n' = n * 0x400 div word_of_int d" using assms(2) conjunct1 [OF l] conjunct1 [OF conjunct2 [OF l]]
    by (simp add: adapt_limit_def d_def)
  moreover have "n * 0x400 = 4294966272" using l by simp
  ultimately have n': "n' = 4294966272 div word_of_int d" by (simp only:)
  have c: "1 \<le> cycle" "cycle \<le> 1999" "0 \<le> snd sdiff" "snd sdiff \<le> 1000000" using assms(1) by (simp_all add: limit_ok_def)
  have q: "0 < cycle * 1000000 div 1024" "cycle * 1000000 div 1024 * 1024 \<le> cycle * 1000000"
    using c(1) div_mult_below [of 1024 "cycle * 1000000"] by (simp_all add: pos_imp_zdiv_pos_iff)
  have d: "d = (cycle * 1000000 + snd sdiff) div (cycle * 1000000 div 1024)"
    using c q by (simp add: d_def signed_divide_int_def)
  define k where "k = cycle * 1000000 div 1024"
  have "1024 * k div k \<le> (cycle * 1000000 + snd sdiff) div k" using q c by (intro zdiv_mono1) (simp_all add: k_def)
  then have "1024 \<le> d" unfolding d k_def [symmetric] using q by (simp add: k_def)
  moreover have "d \<le> 2 ^ 31" unfolding d using c q by (intro order_trans [OF int_div_below]) auto
  ultimately have "uint (word_of_int d :: u32) = d" by (intro uint_word_of) simp_all
  then have "uint n' = 4294966272 div d" unfolding n' uint_div_distrib by simp
  also have "\<dots> \<le> 4294966272 div 1024" using \<open>1024 \<le> d\<close> by (intro zdiv_mono2) simp_all
  finally show "uint n' \<le> 4194303" by simp
next
  assume "fst sdiff = cycle \<and> snd sdiff \<le> 100000"
  then show "n' = n" using assms(2) by (simp add: adapt_limit_def split: if_splits)
qed


section \<open>A run\<close>

definition demo_stats :: getwork_stats where
  "demo_stats = \<lparr>getwork_calls = 0, getwork_wait = (0, 0), getwork_wait_max = (0, 0), getwork_wait_min = (100, 0)\<rparr>"

definition demo_thread :: mthread where
  "demo_thread = \<lparr>th_cgpu = 0, th_last = (0, 0), th_sick = (0, 0), th_pause = False, th_getwork = False,
     work_restart = False, work_update = False, sem = 0\<rparr>"

definition demo_board :: device where
  "demo_board = \<lparr>deven = DEV_ENABLED, life = LIFE_INIT, last_well = 0, not_well = None, reasons = (\<lambda>r. 0),
     max_hashes = 0, new_work = False, shutdown = False, last_valid_work = 0, dev_stats = demo_stats\<rparr>"

definition demo_mining :: mining where
  "demo_mining = \<lparr>mi_work = zero_work, mi_thr = demo_thread, mi_dev = demo_board, mi_queue = demo_device,
     mi_pool_stats = (\<lambda>a. demo_stats), mi_state = demo_miner\<lparr>staged_work := [demo_work], staged_rollable := 1\<rparr>\<rparr>"

definition demo_turn :: "int \<Rightarrow> int \<Rightarrow> int \<Rightarrow> turn" where
  "demo_turn start stop hashes = \<lparr>tu_start = (start, 0), tu_scan = (\<lambda>n m. (hashes, m)), tu_stop = (stop, 0),
     tu_now = stop, tu_woken = (\<lambda>m. m)\<rparr>"

definition demo_visit :: visit where
  "demo_visit = \<lparr>vi_begin = (20, 0), vi_waits = [], vi_got = (20, 0), vi_prepared = True,
     vi_turns = [demo_turn 20 22 1000, demo_turn 22 60 500]\<rparr>"

definition demo_sole :: sole where
  "demo_sole = \<lparr>max_nonce = 0xffffffff, hashes_done = 0, lo_sdiff = (0, 0), lo_wdiff = (0, 0), getwork_start = (19, 0),
     tv_workstart = (19, 0), tv_lastupdate = (19, 0), metered = []\<rparr>"

lemma demo_fresh:
  assumes "now < 59" and "w_work_block w = 0" "w_rolltime w = 60" "w_pool w = Some 10" "tv_staged w = 0"
  shows "\<not> stale_work now w False (demo_miner\<lparr>staged_work := xs, staged_rollable := k\<rparr>)"
  using assms by (simp add: stale_work_def demo_miner_def two_pools_def no_pools_def new_pool_def
    demo_pool_work_def Let_def)

lemma demo_work_fields:
  "w_work_block demo_work = 0" "w_rolltime demo_work = 60" "w_pool demo_work = Some 10" "tv_staged demo_work = 0"
  by (simp_all add: demo_work_def zero_work_def two_pools_ok)

lemma demo_get:
  "\<exists>k. get_work 20 0 (demo_miner\<lparr>staged_work := [demo_work], staged_rollable := 1\<rparr>) = (Popped (demo_work\<lparr>w_thr_id := 0, w_mined := True\<rparr>),
     demo_miner\<lparr>staged_work := [], staged_rollable := k\<rparr>)"
proof -
  have "\<exists>k. hash_pop True (demo_miner\<lparr>staged_work := [demo_work], staged_rollable := 1\<rparr>) = (Popped demo_work,
    demo_miner\<lparr>staged_work := [], staged_rollable := k\<rparr>)"
    by (cases "work_rollable demo_work") (simp_all add: hash_pop_def hash_pop_take_def demo_miner_def two_pools_def no_pools_def Let_def)
  then show ?thesis using demo_fresh [of 20 demo_work] by (auto simp: get_work_def demo_work_fields)
qed

text \<open>The state before the first turn, with the part of it that matters.\<close>

lemma demo_begin_visit:
  "\<exists>l m. map_option (begin_work demo_visit demo_sole) (thread_work 0 demo_visit demo_mining) = Some (l, m) \<and>
    tv_workstart l = (20, 0) \<and> max_nonce l = 0xffffffff \<and> lo_sdiff l = (0, 0) \<and>
    w_work_block (mi_work m) = 0 \<and> w_rolltime (mi_work m) = 60 \<and> w_pool (mi_work m) = Some 10 \<and> tv_staged (mi_work m) = 0 \<and>
    (\<exists>k. mi_state m = demo_miner\<lparr>staged_work := [], staged_rollable := k\<rparr>) \<and> max_hashes (mi_dev m) = 0 \<and>
    \<not> work_restart (mi_thr m) \<and> \<not> th_pause (mi_thr m) \<and> deven (mi_dev m) = DEV_ENABLED"
  using demo_get
  by (auto simp: thread_work_def demo_visit_def demo_mining_def report_def Let_def demo_board_def demo_thread_def begin_work_def
    demo_work_fields demo_sole_def)

lemma scan_begin_simps [simp]:
  "mi_state (scan_begin t l m) = mi_state m" "mi_work (scan_begin t l m) = (mi_work m)\<lparr>tv_work_start := fst (tu_start t)\<rparr>"
  "mi_thr (scan_begin t l m) = (mi_thr m)\<lparr>th_getwork := False, th_last := tu_start t\<rparr>"
  "max_hashes (mi_dev (scan_begin t l m)) = max_hashes (mi_dev m)" "deven (mi_dev (scan_begin t l m)) = deven (mi_dev m)"
  by (simp_all add: scan_begin_def report_def count_waits_def Let_def)

lemma report_simps [simp]:
  "mi_state (report b now m) = mi_state m" "mi_work (report b now m) = mi_work m"
  "mi_thr (report b now m) = (mi_thr m)\<lparr>th_getwork := b, th_last := now\<rparr>"
  "max_hashes (mi_dev (report b now m)) = max_hashes (mi_dev m)" "deven (mi_dev (report b now m)) = deven (mi_dev m)"
  by (simp_all add: report_def)

lemma demo_turn_simps [simp]:
  "tu_start (demo_turn a b h) = (a, 0)" "tu_stop (demo_turn a b h) = (b, 0)" "tu_scan (demo_turn a b h) n m = (h, m)"
  "tu_now (demo_turn a b h) = b" "tu_woken (demo_turn a b h) m = m"
  by (simp_all add: demo_turn_def)

lemma demo_first_turn:
  assumes "max_nonce l = 0xffffffff" "lo_sdiff l = (0, 0)" "tv_workstart l = (20, 0)" "max_hashes (mi_dev m) = 0"
    "w_work_block (mi_work m) = 0" "w_rolltime (mi_work m) = 60" "w_pool (mi_work m) = Some 10" "tv_staged (mi_work m) = 0"
    "mi_state m = demo_miner\<lparr>staged_work := [], staged_rollable := k\<rparr>"
    "\<not> work_restart (mi_thr m)" "\<not> th_pause (mi_thr m)" "deven (mi_dev m) = DEV_ENABLED"
    and "tu_start t = (20, 0)" "tu_stop t = (22, 0)" "tu_now t = 22" "0 \<le> h" "h < 0xfffffffe"
    "tu_scan t (w_nonce (mi_work m) + 0xffffffff) (scan_begin t l m) = (h, scan_begin t l m)"
  shows "fst (scan_turn 5 t l m) = Again"
proof -
  have s: "\<not> stale_work 22 ((mi_work m)\<lparr>tv_work_start := 20\<rparr>) False (demo_miner\<lparr>staged_work := [], staged_rollable := k\<rparr>)"
    by (rule demo_fresh) (use assms in simp_all)
  have o: "opt_scantime demo_miner = 30" by (simp add: demo_miner_def)
  have d: "subtime (22, 0) (20, 0) = (2, 0)" "add_sdiff (2, 0) (0, 0) = (2, 0)" by (simp_all add: subtime_def add_sdiff_def)
  have a: "adapt_limit (cycle_of 5) (2, 0) 0xffffffff = Some 0x7fffffff"
    by (simp add: adapt_limit_def cycle_of_def)
  show ?thesis using s assms(16,17) by (simp add: scan_turn_def again_def abandon_work_def Let_def assms(1-15,18) o d a)
qed

lemma demo_visit_runs:
  "\<exists>xs r l m. sole_visit 5 0 demo_visit demo_sole demo_mining = Some (xs, r, l, m) \<and> length xs = 2 \<and> r \<noteq> Broken"
proof -
  obtain l m k where b: "map_option (begin_work demo_visit demo_sole) (thread_work 0 demo_visit demo_mining) = Some (l, m)"
    and f: "tv_workstart l = (20, 0)" "max_nonce l = 0xffffffff" "lo_sdiff l = (0, 0)"
    "w_work_block (mi_work m) = 0" "w_rolltime (mi_work m) = 60" "w_pool (mi_work m) = Some 10" "tv_staged (mi_work m) = 0"
    "mi_state m = demo_miner\<lparr>staged_work := [], staged_rollable := k\<rparr>" "max_hashes (mi_dev m) = 0"
    "\<not> work_restart (mi_thr m)" "\<not> th_pause (mi_thr m)" "deven (mi_dev m) = DEV_ENABLED"
    using demo_begin_visit by blast
  obtain l' m' where t: "scan_turn 5 (demo_turn 20 22 1000) l m = (Again, l', m')"
    using demo_first_turn [OF f(2,3,1) f(9) f(4-8) f(10-12), of "demo_turn 20 22 1000" 1000] by (simp add: prod_eq_iff)
  obtain r l'' m'' where u: "scan_turn 5 (demo_turn 22 60 500) l' m' = (r, l'', m'')" by (metis prod_cases3)
  have "r \<noteq> Broken" using scan_turn_reported(2) [OF u] by (simp add: turn_hashes_def Let_def)
  then obtain xs where "scan_loop 5 [demo_turn 20 22 1000, demo_turn 22 60 500] l m = (xs, r, l'', m'')" "length xs = 2"
    using t u by (cases r) auto
  then show ?thesis using b \<open>r \<noteq> Broken\<close> by (auto simp: sole_visit_def demo_visit_def split: option.splits)
qed

theorem searches_stay_fresh_witness:
  "\<exists>xs r l m. sole_visit 5 0 demo_visit demo_sole demo_mining = Some (xs, r, l, m) \<and> length xs = 2 \<and>
    \<not> stale_work 22 (mi_work (snd (xs ! 1))) False (mi_state (snd (xs ! 1)))"
proof -
  obtain xs r l m where v: "sole_visit 5 0 demo_visit demo_sole demo_mining = Some (xs, r, l, m)" and len: "length xs = 2"
    using demo_visit_runs by blast
  obtain k u where x: "xs ! 1 = (k, u)" by fastforce
  have "1 < length xs" using len by simp
  from searches_stay_fresh [OF v this x] show ?thesis using v len x by (simp add: demo_visit_def)
qed

theorem hashes_reported_witness:
  "\<exists>xs r l m. sole_visit 5 0 demo_visit demo_sole demo_mining = Some (xs, r, l, m) \<and> reported l = 1500"
proof -
  obtain xs r l m where v: "sole_visit 5 0 demo_visit demo_sole demo_mining = Some (xs, r, l, m)"
    and len: "length xs = 2" and "r \<noteq> Broken"
    using demo_visit_runs by blast
  obtain a b where "xs = [a, b]" using len by (auto simp: numeral_2_eq_2 length_Suc_conv)
  then show ?thesis using hashes_reported [OF v] v \<open>r \<noteq> Broken\<close>
    by (simp add: demo_visit_def turn_hashes_def Let_def reported_def demo_sole_def)
qed

theorem search_is_given_up_witness:
  "\<exists>xs r l m. sole_visit 5 0 demo_visit demo_sole demo_mining = Some (xs, r, l, m) \<and> length xs \<le> 2 \<and> r \<noteq> Again"
proof -
  obtain xs r l m where v: "sole_visit 5 0 demo_visit demo_sole demo_mining = Some (xs, r, l, m)"
    using demo_visit_runs by blast
  have "length xs \<le> Suc 1 \<and> r \<noteq> Again"
    by (rule search_is_given_up [OF v, of 1 30])
      (simp_all add: demo_visit_def subtime_def demo_mining_def demo_miner_def keeps_scantime_def)
  then show ?thesis using v by (simp add: numeral_2_eq_2)
qed

theorem limit_adapts_witness:
  "adapt_limit 1 (1, 200000) 0xffffffff = Some 3494683 \<and> uint (3494683 :: u32) \<le> 4194303"
proof -
  have a: "adapt_limit 1 (1, 200000) 0xffffffff = Some 3494683"
    by (simp add: adapt_limit_def)
  have "limit_ok 1 (1, 200000)" by (simp add: limit_ok_def)
  from limit_adapts [OF this a] show ?thesis using a by simp
qed

end
