(* ===== verification/Edc_Mining.thy ===== *)
theory Edc_Mining
  imports Edc Mining_Loop
begin

text \<open>
  The driver \<open>src/cgminer/driver-edc.c\<close> in the mining loop of \<open>cgminer.c\<close>: \<open>edc_scan\<close> is
  \<open>edc_scanhash\<close> as \<open>hash_sole_work\<close> calls it, on the item of the thread, with the nonces it
  submits passed to \<open>submit_nonce\<close>. The lemmas follow an item through the loop: what happens
  when the thread is to restart, and when a nonce was found.
\<close>

definition edc_view :: "work \<Rightarrow> edc_work" where
  "edc_view w = \<lparr>edc_work.w_midstate = work.w_midstate w, w_data = work.w_data w, w_target = work.w_target w\<rparr>"

fun submitted :: "dev_call list \<Rightarrow> u32 option" where
  "submitted [] = None"
| "submitted (C_submit n # cs) = Some n"
| "submitted (_ # cs) = submitted cs"

definition edc_scan :: "(work \<Rightarrow> bool) \<Rightarrow> bool \<Rightarrow> int \<Rightarrow> edc_env \<Rightarrow> mining \<Rightarrow> (dev_call list \<times> int \<times> mining) option" where
  "edc_scan solves alloc now env m =
     (case edc_scanhash env (edc_view (mi_work m)) of
        None \<Rightarrow> None
      | Some (calls, hashes) \<Rightarrow>
          (case submitted calls of
             None \<Rightarrow> Some (calls, hashes, m)
           | Some n \<Rightarrow>
               (case submit_nonce solves alloc now (mi_work m) n (mi_state m) of
                  (ok, w, s) \<Rightarrow> Some (calls, hashes, m\<lparr>mi_work := w, mi_state := s\<rparr>))))"

text \<open>A turn of the loop whose search is this one.\<close>

definition edc_turn :: "(work \<Rightarrow> bool) \<Rightarrow> bool \<Rightarrow> int \<Rightarrow> edc_env \<Rightarrow> turn \<Rightarrow> sole \<Rightarrow> mining \<Rightarrow> dev_call list \<Rightarrow> int \<Rightarrow> bool" where
  "edc_turn solves alloc now env t l m calls hashes \<longleftrightarrow>
     (\<exists>u. edc_scan solves alloc now env (scan_begin t l m) = Some (calls, hashes, u) \<and>
       tu_scan t (w_nonce (mi_work m) + max_nonce l) (scan_begin t l m) = (hashes, u))"

section \<open>A restart that comes too early\<close>

lemma wait_restarted:
  assumes "\<forall>(r, status, restart)\<in>set polls. r \<noteq> - 1 \<and> status \<noteq> 1 \<and> \<not> restart" and "r \<noteq> - 1" and "status \<noteq> 1"
  shows "\<exists>cs. edc_wait_ready (polls @ (r, status, True) # ps) = Some (cs, False) \<and> submitted cs = None \<and> C_close \<notin> set cs"
  using assms by (induction polls) auto

lemma submitted_append: "submitted (xs @ ys) = (case submitted xs of None \<Rightarrow> submitted ys | Some n \<Rightarrow> Some n)"
  by (induction xs rule: submitted.induct) auto

lemma scan_turn_broken:
  assumes "fst (tu_scan t (w_nonce (mi_work m) + max_nonce l) (scan_begin t l m)) = - 1"
  shows "\<exists>l' m'. scan_turn log_interval t l m = (Broken, l', m') \<and> deven (mi_dev m') = DEV_DISABLED \<and> shutdown (mi_dev m')"
  using assms by (cases "tu_scan t (w_nonce (mi_work m) + max_nonce l) (scan_begin t l m)")
    (simp add: scan_turn_def Let_def dev_error_def)

text \<open>A restart during a short search of the whole range is not looked at: the item is searched again
  with the flag still set.\<close>

lemma restart_overlooked:
  assumes "scan_turn log_interval t l m = (r, l', m')" and "r \<noteq> Broken" and "max_nonce l = 0xffffffff"
    and "fst (lo_sdiff l') < cycle_of log_interval" and "lo_sdiff l' \<noteq> (0, 0)"
    and "work_restart (mi_thr (snd (tu_scan t (w_nonce (mi_work m) + max_nonce l) (scan_begin t l m))))"
  shows "work_restart (mi_thr m') \<and> max_nonce l' = 0xffffffff"
  using assms
  by (auto simp: scan_turn_def Let_def adapt_limit_def again_def split: prod.splits option.splits if_splits)

text \<open>C25: A restart of work that arrives while the device is being reset ends mining on it: the
  driver takes the restart for a failure, its search returns -1, and the loop disables the device
  and shuts its thread down, although every call to the device succeeded. The flag may
  even be older than the search: the loop does not look at it when the searches so far took less
  than the cycle (\<open>restart_overlooked\<close>).\<close>

theorem restart_disables_device:
  assumes "env_open env \<noteq> - 1" and "env_set_clock env \<noteq> - 1" and "env_reset env \<noteq> - 1"
    and "env_ready env = polls @ (r, status, True) # ps" and "r \<noteq> - 1" and "status \<noteq> 1"
    and "\<forall>(r, status, restart)\<in>set polls. r \<noteq> - 1 \<and> status \<noteq> 1 \<and> \<not> restart"
    and "edc_turn solves alloc now env t l m calls hashes"
  shows "\<exists>l' m'. scan_turn log_interval t l m = (Broken, l', m') \<and> deven (mi_dev m') = DEV_DISABLED \<and>
    shutdown (mi_dev m') \<and> last calls = C_close"
proof -
  obtain cs where c: "edc_wait_ready (env_ready env) = Some (cs, False)"
    using wait_restarted [OF assms(7,5,6)] assms(4) by auto
  have "edc_scanhash env (edc_view (mi_work (scan_begin t l m))) =
    Some ([C_open, C_value SHA256_ACCEL_SET_CLOCK_SPEED 110, C_command SHA256_ACCEL_RESET] @ cs @ [C_close], - 1)"
    using assms(1-3) c by (simp add: edc_scanhash_def Let_def)
  then have "fst (tu_scan t (w_nonce (mi_work m) + max_nonce l) (scan_begin t l m)) = - 1 \<and> last calls = C_close"
    using assms(8) by (auto simp: edc_turn_def edc_scan_def split: option.splits prod.splits)
  then show ?thesis using scan_turn_broken [of t m l log_interval] by auto
qed

section \<open>The same search again\<close>

lemma scanhash_done:
  assumes "edc_scanhash env w = Some (calls, h)" and "h \<noteq> - 1"
  shows "\<exists>polls loop. edc_select_loop (env_select env) = Some loop \<and> set polls \<subseteq> {C_get SHA256_ACCEL_GET_STATUS} \<and>
    calls = [C_open, C_value SHA256_ACCEL_SET_CLOCK_SPEED 110, C_command SHA256_ACCEL_RESET] @ polls @
      programming_calls (edc_work.w_midstate w) (sub_list (edc_work.w_data w) 64 12)
        (edc_device_target (edc_work.w_target w)) @ loop @ [C_get SHA256_ACCEL_GET_NONCE_CURRENT, C_close]"
proof -
  obtain polls ok where r: "edc_wait_ready (env_ready env) = Some (polls, ok)"
    using assms by (auto simp: edc_scanhash_def Let_def split: option.splits if_splits)
  then show ?thesis using assms wait_ready_calls [OF r]
    by (cases ok) (auto simp: edc_scanhash_def Let_def programming_calls_def split: option.splits if_splits)
qed

text \<open>What a search writes to the device.\<close>

definition written :: "dev_call list \<Rightarrow> dev_call list" where
  "written cs = filter (\<lambda>c. case c of C_value _ _ \<Rightarrow> True | C_block _ _ \<Rightarrow> True | C_command _ \<Rightarrow> True | _ \<Rightarrow> False) cs"

lemma submit_nonce_item:
  assumes "locals_ok (m_locals s)" and "work_ok w" and "submit_nonce solves alloc now w n s = (ret, w', s')"
  shows "\<exists>b md. w' = w\<lparr>w_data := nonced w n, w_hash := share_hash w n, w_block := b, w_mandatory := md\<rparr>"
    and "m_locals s' = m_locals s"
proof -
  define base where "base = w\<lparr>w_data := nonced w n, w_hash := share_hash w n\<rparr>"
  have "w' = base \<or> w' = base\<lparr>w_block := True, w_mandatory := True\<rparr>"
    using assms(3) unfolding base_def
    by (auto simp: submit_nonce_def test_nonce_eq [OF assms(1,2)] submit_tested_work_def update_work_stats_def Let_def
      split: prod.splits if_splits)
  moreover have "base = base\<lparr>w_block := w_block w, w_mandatory := w_mandatory w\<rparr>" by (cases w) (simp add: base_def)
  ultimately show "\<exists>b md. w' = w\<lparr>w_data := nonced w n, w_hash := share_hash w n, w_block := b, w_mandatory := md\<rparr>"
    unfolding base_def by metis
  show "m_locals s' = m_locals s"
    using assms(3)
    by (auto simp: submit_nonce_def test_nonce_eq [OF assms(1,2)] submit_tested_work_def update_work_stats_def Let_def
      inc_hw_errors_def upd_pool_work_def submit_work_async_def push_share_def copy_work_noffset_def make_work_def
      total_work_inc_def split: prod.splits if_splits option.splits)
qed

lemma written_scan:
  assumes "edc_scanhash env w = Some (calls, h)" and "h \<noteq> - 1"
  shows "written calls = [C_value SHA256_ACCEL_SET_CLOCK_SPEED 110, C_command SHA256_ACCEL_RESET] @
      programming_calls (edc_work.w_midstate w) (sub_list (edc_work.w_data w) 64 12) (edc_device_target (edc_work.w_target w))"
proof -
  obtain polls loop where l: "edc_select_loop (env_select env) = Some loop" and p: "set polls \<subseteq> {C_get SHA256_ACCEL_GET_STATUS}"
    and c: "calls = [C_open, C_value SHA256_ACCEL_SET_CLOCK_SPEED 110, C_command SHA256_ACCEL_RESET] @ polls @
      programming_calls (edc_work.w_midstate w) (sub_list (edc_work.w_data w) 64 12)
        (edc_device_target (edc_work.w_target w)) @ loop @ [C_get SHA256_ACCEL_GET_NONCE_CURRENT, C_close]"
    using scanhash_done [OF assms] by blast
  have "written polls = []" using p by (auto simp: written_def filter_empty_conv)
  moreover have "written loop = []" using select_loop_calls [OF l] by (force simp: written_def filter_empty_conv)
  ultimately show ?thesis unfolding c by (simp add: written_def programming_calls_def)
qed

lemma nonced_again:
  assumes "length (w_data w) = 128"
  shows "memcpy_at (nonced w n) 76 (le32_bytes n) = nonced w n" "sub_list (nonced w n) 64 12 = sub_list (w_data w) 64 12"
  using assms by (simp_all add: nonced_def memcpy_at_def sub_list_def layout drop_take)

lemma scan_turn_mining:
  assumes "scan_turn log_interval t l m = (r, l', m')" and "r \<noteq> Broken" and "\<forall>u. tu_woken t u = u"
    and "tu_scan t (w_nonce (mi_work m) + max_nonce l) (scan_begin t l m) = (h, u)"
  shows "mi_work m' = mi_work u" "mi_state m' = mi_state u" "h \<noteq> - 1"
  using assms
  by (auto simp: scan_turn_def Let_def again_def mt_disable_def split: option.splits if_splits)

text \<open>What a search leaves of the item.\<close>

lemma edc_scan_item:
  assumes "edc_scan solves alloc now env m = Some (calls, h, u)"
    and "locals_ok (m_locals (mi_state m))" and "work_ok (mi_work m)"
  shows "\<exists>d x b md. mi_work u = (mi_work m)\<lparr>w_data := d, w_hash := x, w_block := b, w_mandatory := md\<rparr> \<and>
    sub_list d 64 12 = sub_list (work.w_data (mi_work m)) 64 12 \<and>
    (\<forall>n. submitted calls = Some n \<longrightarrow> d = nonced (mi_work m) n)"
proof (cases "submitted calls")
  case None
  then have "mi_work u = mi_work m" using assms(1) by (auto simp: edc_scan_def split: option.splits prod.splits)
  then show ?thesis using None
    by (intro exI [of _ "work.w_data (mi_work m)"] exI [of _ "w_hash (mi_work m)"] exI [of _ "w_block (mi_work m)"]
        exI [of _ "w_mandatory (mi_work m)"]) simp
next
  case (Some n)
  then obtain ret where "submit_nonce solves alloc now (mi_work m) n (mi_state m) = (ret, mi_work u, mi_state u)"
    using assms(1) by (auto simp: edc_scan_def split: option.splits prod.splits)
  then obtain b md where "mi_work u = (mi_work m)\<lparr>w_data := nonced (mi_work m) n, w_hash := share_hash (mi_work m) n,
      w_block := b, w_mandatory := md\<rparr>"
    using submit_nonce_item [OF assms(2,3)] by blast
  moreover have "sub_list (nonced (mi_work m) n) 64 12 = sub_list (work.w_data (mi_work m)) 64 12"
    using assms(3) by (intro nonced_again) (simp add: work_ok_def)
  ultimately show ?thesis using Some by auto
qed

lemma work_ok_begin [simp]: "work_ok (w\<lparr>tv_work_start := x\<rparr>) = work_ok w"
  by (simp add: work_ok_def)

lemma goes_out_start: "goes_out now (w\<lparr>tv_work_start := x\<rparr>) s = goes_out now w s"
proof -
  have "stale_work now (w\<lparr>tv_work_start := x\<rparr>) True s = stale_work now w True s" by (rule stale_work_cong) simp_all
  then show ?thesis by (simp add: goes_out_def)
qed

lemma trans_locals: "locals_ok a \<Longrightarrow> b = a \<Longrightarrow> locals_ok b"
  by simp

text \<open>An item is searched from the start again after a nonce was found. The driver ends its search
  with the first nonce, and when the item is neither old nor stale the loop calls it again; the
  values written to the device are then the same as before. When the device, given the same
  values, finds the same nonce, the same header with the same hash is handed to the pool a second
  time.\<close>

theorem found_item_is_searched_again:
  assumes "locals_ok (m_locals (mi_state m))" and "work_ok (mi_work m)"
    and "edc_turn solves alloc now1 env1 t1 l m calls1 h1" and "scan_turn log_interval t1 l m = (Again, l1, m1)"
    and "\<forall>u. tu_woken t1 u = u" and "edc_turn solves alloc now2 env2 t2 l1 m1 calls2 h2" and "h2 \<noteq> - 1"
  shows "written calls2 = written calls1 \<and>
    (submitted calls1 = Some n \<and> submitted calls2 = Some n \<and>
       drop 28 (share_hash (mi_work m) n) = [0, 0, 0, 0] \<and>
       le_number (share_hash (mi_work m) n) \<le> le_number (work.w_target (mi_work m)) \<and>
       goes_out now1 (mi_work m) (mi_state m) \<and> goes_out now2 (mi_work m1) (mi_state m1) \<longrightarrow>
     (\<exists>v1 v2. (let a = the (w_pool (mi_work m));
            s2 = mi_state (snd (tu_scan t2 (w_nonce (mi_work m1) + max_nonce l1) (scan_begin t2 l1 m1)))
        in handed a s2 = deliver alloc v2 (mi_state m1) (deliver alloc v1 (mi_state m) (handed a (mi_state m)))) \<and>
        work.w_data v2 = work.w_data v1 \<and> w_hash v2 = w_hash v1 \<and> w_job_id v2 = w_job_id v1 \<and>
        w_nonce2 v2 = w_nonce2 v1 \<and> w_ntime v2 = w_ntime v1))"
proof -
  obtain u1 where e1: "edc_scan solves alloc now1 env1 (scan_begin t1 l m) = Some (calls1, h1, u1)"
    and t1: "tu_scan t1 (w_nonce (mi_work m) + max_nonce l) (scan_begin t1 l m) = (h1, u1)"
    using assms(3) by (auto simp: edc_turn_def)
  obtain u2 where e2: "edc_scan solves alloc now2 env2 (scan_begin t2 l1 m1) = Some (calls2, h2, u2)"
    and t2: "tu_scan t2 (w_nonce (mi_work m1) + max_nonce l1) (scan_begin t2 l1 m1) = (h2, u2)"
    using assms(6) by (auto simp: edc_turn_def)
  have m1: "mi_work m1 = mi_work u1" "mi_state m1 = mi_state u1" "h1 \<noteq> - 1"
    using scan_turn_mining [OF assms(4) _ assms(5) t1] by simp_all
  define w0 where "w0 = (mi_work m)\<lparr>tv_work_start := fst (tu_start t1)\<rparr>"
  obtain d x b md where i: "mi_work u1 = w0\<lparr>w_data := d, w_hash := x, w_block := b, w_mandatory := md\<rparr>"
    and d: "sub_list d 64 12 = sub_list (work.w_data w0) 64 12" "\<forall>n. submitted calls1 = Some n \<longrightarrow> d = nonced w0 n"
    using edc_scan_item [OF e1] assms(1,2) by (auto simp: w0_def)
  obtain k1 where k1: "edc_scanhash env1 (edc_view w0) = Some (calls1, h1)"
    using e1 by (auto simp: edc_scan_def w0_def split: option.splits prod.splits)
  obtain k2 where k2: "edc_scanhash env2 (edc_view ((mi_work u1)\<lparr>tv_work_start := fst (tu_start t2)\<rparr>)) = Some (calls2, h2)"
    using e2 m1 by (auto simp: edc_scan_def split: option.splits prod.splits)
  have "written calls2 = written calls1"
    using written_scan [OF k1 m1(3)] written_scan [OF k2 assms(7)] d(1) by (simp add: i edc_view_def)
  moreover have "\<exists>v1 v2. handed (the (w_pool (mi_work m))) (mi_state u2) =
        deliver alloc v2 (mi_state m1) (deliver alloc v1 (mi_state m) (handed (the (w_pool (mi_work m))) (mi_state m))) \<and>
        work.w_data v2 = work.w_data v1 \<and> w_hash v2 = w_hash v1 \<and> w_job_id v2 = w_job_id v1 \<and>
        w_nonce2 v2 = w_nonce2 v1 \<and> w_ntime v2 = w_ntime v1"
    if n: "submitted calls1 = Some n" "submitted calls2 = Some n" and h: "drop 28 (share_hash (mi_work m) n) = [0, 0, 0, 0]"
       "le_number (share_hash (mi_work m) n) \<le> le_number (work.w_target (mi_work m))"
       and g: "goes_out now1 (mi_work m) (mi_state m)" "goes_out now2 (mi_work m1) (mi_state m1)"
  proof -
    let ?a = "the (w_pool (mi_work m))"
    have w0: "nonced w0 n = nonced (mi_work m) n" "share_hash w0 n = share_hash (mi_work m) n" "work_ok w0"
      "w_pool w0 = w_pool (mi_work m)" "work.w_target w0 = work.w_target (mi_work m)"
      "goes_out now1 w0 (mi_state m) = goes_out now1 (mi_work m) (mi_state m)"
      using assms(2) by (simp_all add: w0_def nonced_def share_hash_def goes_out_start)
    obtain ret1 where s1: "submit_nonce solves alloc now1 w0 n (mi_state m) = (ret1, mi_work u1, mi_state u1)"
      using e1 n(1) by (auto simp: edc_scan_def w0_def split: option.splits prod.splits)
    note S1 = submit_nonce_handed [OF assms(1) w0(3) s1] and L1 = submit_nonce_item(2) [OF assms(1) w0(3) s1]
    define w1 where "w1 = (mi_work u1)\<lparr>tv_work_start := fst (tu_start t2)\<rparr>"
    have w1: "work.w_data w1 = nonced w0 n" "w_pool w1 = w_pool (mi_work m)" "work.w_target w1 = work.w_target (mi_work m)"
      "goes_out now2 w1 (mi_state u1) = goes_out now2 (mi_work m1) (mi_state m1)"
      "w_job_id w1 = w_job_id w0" "w_nonce2 w1 = w_nonce2 w0" "w_ntime w1 = w_ntime w0"
      using d(2) n(1) w0 by (simp_all add: w1_def i m1 goes_out_start)
    have l: "length (work.w_data w0) = 128" using w0(3) by (simp add: work_ok_def)
    have x: "w_hash (mi_work u1) = share_hash w0 n" using S1 by simp
    have ok: "work_ok w1"
      using w0(3) w1(1,3) x by (simp add: work_ok_def w1_def nonced_def share_hash_def layout i)
    have h1: "nonced w1 n = nonced w0 n" using nonced_again(1) [OF l, of n] w1(1) by (simp add: nonced_def [of w1])
    then have h2: "share_hash w1 n = share_hash w0 n" by (simp add: share_hash_def)
    obtain ret2 where s2: "submit_nonce solves alloc now2 w1 n (mi_state u1) = (ret2, mi_work u2, mi_state u2)"
      using e2 n(2) m1 by (auto simp: edc_scan_def w1_def split: option.splits prod.splits)
    note S2 = submit_nonce_handed [OF L1 [THEN trans_locals [OF assms(1)]] ok s2]
    have "handed ?a (mi_state u1) = deliver alloc (share_of solves now1 w0 n (mi_state m)) (mi_state m) (handed ?a (mi_state m))"
      using S1 h g(1) w0 by simp
    moreover have "handed ?a (mi_state u2) = deliver alloc (share_of solves now2 w1 n (mi_state u1)) (mi_state u1) (handed ?a (mi_state u1))"
      using S2 h g(2) w0 w1 h2 by simp
    ultimately show ?thesis using m1(2) h1 h2 w1
      by (intro exI [of _ "share_of solves now1 w0 n (mi_state m)"] exI [of _ "share_of solves now2 w1 n (mi_state u1)"])
        (simp add: share_of_def Let_def)
  qed
  ultimately show ?thesis using t2 by (simp add: Let_def)
qed

section \<open>Runs\<close>

text \<open>A device that searches the whole range without a result, and one that is still being reset when
  the restart comes.\<close>

definition barren :: edc_env where
  "barren = demo_env\<lparr>env_select := [Timeout False 0 2, Readable 8 \<lparr>msg_status = 0, msg_nonce_candidate = 0\<rparr>]\<rparr>"

definition restarted :: edc_env where
  "restarted = demo_env\<lparr>env_ready := [(0, 3, False), (0, 3, True)]\<rparr>"

definition demo_edc_turn :: "edc_env \<Rightarrow> int \<Rightarrow> int \<Rightarrow> turn" where
  "demo_edc_turn env start stop = (demo_turn start stop 0)\<lparr>tu_scan := (\<lambda>n u.
     case edc_scan (\<lambda>w. False) True start env u of None \<Rightarrow> (0, u) | Some (calls, hashes, u) \<Rightarrow> (hashes, u))\<rparr>"

lemma demo_scans:
  "\<exists>calls. edc_scan f b now restarted u = Some (calls, - 1, u)"
  "\<exists>calls. edc_scan f b now barren u = Some (calls, 80, u)"
  by (simp_all add: edc_scan_def edc_scanhash_def restarted_def barren_def demo_env_def Let_def)

lemma demo_edc_turns:
  "\<exists>calls. edc_turn (\<lambda>w. False) True start restarted (demo_edc_turn restarted start stop) l m calls (- 1)"
  "\<exists>calls. edc_turn (\<lambda>w. False) True start barren (demo_edc_turn barren start stop) l m calls 80"
  using demo_scans [of "\<lambda>w. False" True start "scan_begin (demo_edc_turn restarted start stop) l m"]
    demo_scans [of "\<lambda>w. False" True start "scan_begin (demo_edc_turn barren start stop) l m"]
  by (auto simp: edc_turn_def demo_edc_turn_def)

theorem restart_disables_device_witness:
  "\<exists>l' m'. scan_turn 5 (demo_edc_turn restarted 20 22) demo_sole demo_mining = (Broken, l', m') \<and>
    deven (mi_dev m') = DEV_DISABLED \<and> shutdown (mi_dev m')"
proof -
  obtain calls where "edc_turn (\<lambda>w. False) True 20 restarted (demo_edc_turn restarted 20 22) demo_sole demo_mining calls (- 1)"
    using demo_edc_turns(1) by blast
  note c = this
  have r: "env_open restarted \<noteq> - 1" "env_set_clock restarted \<noteq> - 1" "env_reset restarted \<noteq> - 1"
    "env_ready restarted = [(0, 3, False)] @ (0, 3, True) # []"
    by (simp_all add: restarted_def demo_env_def)
  have "\<exists>l' m'. scan_turn 5 (demo_edc_turn restarted 20 22) demo_sole demo_mining = (Broken, l', m') \<and>
    deven (mi_dev m') = DEV_DISABLED \<and> shutdown (mi_dev m') \<and> last calls = C_close"
    by (rule restart_disables_device [OF r _ _ _ c]) simp_all
  then show ?thesis by blast
qed

theorem found_item_is_searched_again_witness:
  "\<exists>l m l1 m1 calls1 calls2. scan_turn 5 (demo_edc_turn barren 20 22) l m = (Again, l1, m1) \<and>
    edc_turn (\<lambda>w. False) True 20 barren (demo_edc_turn barren 20 22) l m calls1 80 \<and>
    edc_turn (\<lambda>w. False) True 22 barren (demo_edc_turn barren 22 24) l1 m1 calls2 80 \<and> written calls2 = written calls1"
proof -
  define l where "l = demo_sole\<lparr>tv_workstart := (20, 0)\<rparr>"
  define m where "m = demo_mining\<lparr>mi_work := demo_work, mi_state := demo_miner\<lparr>staged_work := [], staged_rollable := 0\<rparr>\<rparr>"
  have f: "max_nonce l = 0xffffffff" "lo_sdiff l = (0, 0)" "tv_workstart l = (20, 0)" "max_hashes (mi_dev m) = 0"
    "mi_work m = Work.demo_work" "mi_state m = demo_miner\<lparr>staged_work := [], staged_rollable := 0\<rparr>"
    "\<not> work_restart (mi_thr m)" "\<not> th_pause (mi_thr m)" "deven (mi_dev m) = DEV_ENABLED"
    by (simp_all add: l_def m_def demo_sole_def demo_mining_def demo_board_def demo_thread_def)
  let ?t = "demo_edc_turn barren 20 22"
  have e: "tu_scan ?t n u = (80, u)" for n u
    using demo_scans(2) [of "\<lambda>w. False" True 20 u] by (auto simp: demo_edc_turn_def)
  have z: "tu_start ?t = (20, 0)" "tu_stop ?t = (22, 0)" "tu_now ?t = 22" "\<forall>u. tu_woken ?t u = u"
    by (simp_all add: demo_edc_turn_def)
  have "fst (scan_turn 5 ?t l m) = Again"
    by (rule demo_first_turn [OF f(1-4) _ _ _ _ f(6-9), where h = 80]) (simp_all add: e z f(5) demo_work_fields)
  then obtain l1 m1 where s: "scan_turn 5 ?t l m = (Again, l1, m1)" by (metis prod.collapse)
  obtain calls1 where c1: "edc_turn (\<lambda>w. False) True 20 barren ?t l m calls1 80" using demo_edc_turns(2) by blast
  obtain calls2 where c2: "edc_turn (\<lambda>w. False) True 22 barren (demo_edc_turn barren 22 24) l1 m1 calls2 80"
    using demo_edc_turns(2) by blast
  have "written calls2 = written calls1"
    using found_item_is_searched_again [OF _ _ c1 s z(4) c2] demo_locals_ok demo_work_sizes f by simp
  then show ?thesis using s c1 c2 by blast
qed

end
