(* ===== verification/Watchdog.thy ===== *)
theory Watchdog
  imports Mining_Loop Stratum_Thread
begin

text \<open>
  The threads that watch the others, from \<open>src/cgminer/cgminer.c\<close>: the schedule
  (\<open>should_run\<close>), \<open>watchdog_thread\<close>, which pauses and resumes the mining threads and declares
  devices sick and dead, \<open>watchpool_thread\<close>, which tests idle pools and fails back, and
  \<open>restart_thread\<close>; with the commands of \<open>src/cgminer/api.c\<close> that enable and disable a device.
\<close>

section \<open>The schedule\<close>

type_synonym clock_time = "int \<times> int"

record schedule =
  start_enable :: bool
  start_tm :: clock_time
  stop_enable :: bool
  stop_tm :: clock_time
  sched_paused :: bool

definition time_before :: "clock_time \<Rightarrow> clock_time \<Rightarrow> bool" where
  "time_before a b \<longleftrightarrow>
     (if fst a < fst b then True else if fst a = fst b \<and> snd a < snd b then True else False)"

definition should_run :: "clock_time \<Rightarrow> schedule \<Rightarrow> bool \<times> schedule" where
  "should_run tm s =
     (if \<not> start_enable s \<and> \<not> stop_enable s then (True, s)
      else if start_enable s then
        if \<not> stop_enable s then
          if time_before tm (start_tm s) then (False, s) else (True, s\<lparr>start_enable := False\<rparr>)
        else if time_before (start_tm s) (stop_tm s) then
          (time_before tm (stop_tm s) \<and> \<not> time_before tm (start_tm s), s)
        else if time_before tm (start_tm s) then (time_before tm (stop_tm s), s)
        else (True, s)
      else (\<not> \<not> time_before tm (stop_tm s), s))"

section \<open>The devices and their threads\<close>

text \<open>
  All mining threads and devices. \<open>fl_asleep\<close> holds the threads that wait on their semaphore in
  \<open>mt_disable\<close>, \<open>fl_fpga\<close> tells whether the driver of a device is one of those the API calls PGA.
\<close>

record fleet =
  fl_threads :: "mthread list"
  fl_asleep :: "nat set"
  fl_devices :: "device list"
  fl_fpga :: "nat \<Rightarrow> bool"
  fl_sched :: schedule
  fl_quit :: bool

definition device_of :: "fleet \<Rightarrow> mthread \<Rightarrow> device" where
  "device_of f t = fl_devices f ! th_cgpu t"

definition sem_post :: "mthread \<Rightarrow> mthread" where
  "sem_post t = t\<lparr>sem := sem t + 1\<rparr>"

text \<open>What the watchdog does about the schedule, at the time \<open>tm\<close>; \<open>should_run\<close> is asked a second time
  when the first answer does not decide.\<close>

definition watch_schedule :: "clock_time \<Rightarrow> fleet \<Rightarrow> fleet" where
  "watch_schedule tm f =
     (let s = fl_sched f;
          (run, s) = (if \<not> sched_paused s then should_run tm s else (True, s))
      in if \<not> sched_paused s \<and> \<not> run then
           if \<not> start_enable s then f\<lparr>fl_sched := s, fl_quit := True\<rparr>
           else f\<lparr>fl_sched := s\<lparr>sched_paused := True\<rparr>,
                  fl_threads := map (\<lambda>t. t\<lparr>th_pause := True\<rparr>) (fl_threads f)\<rparr>
         else
           let (run, s) = (if sched_paused s then should_run tm s else (False, s))
           in if run then
                f\<lparr>fl_sched := s\<lparr>sched_paused := False\<rparr>,
                  fl_threads := map (\<lambda>t. if deven (device_of f t) = DEV_DISABLED then t
                                         else sem_post (t\<lparr>th_pause := False\<rparr>)) (fl_threads f)\<rparr>
              else f\<lparr>fl_sched := s\<rparr>)"

text \<open>The first thread of a device.\<close>

definition first_thread :: "fleet \<Rightarrow> nat \<Rightarrow> nat option" where
  "first_thread f d = find (\<lambda>i. th_cgpu (fl_threads f ! i) = d) [0..<length (fl_threads f)]"

text \<open>
  The health of a device, judged by the time its first thread last reported; the last component
  says that the driver is asked to restart it.
\<close>

definition watch_device :: "bool \<Rightarrow> tv \<Rightarrow> mthread \<Rightarrow> device \<Rightarrow> mthread \<times> device \<times> bool" where
  "watch_device restart now t d =
     (let silent = fst now - fst (th_last t)
      in if th_getwork t \<or> deven d = DEV_DISABLED then (t, d, False)
         else if life d \<noteq> LIFE_WELL \<and> silent < 120 then (t, d\<lparr>life := LIFE_WELL, last_well := fst now\<rparr>, False)
         else if life d = LIFE_WELL \<and> silent > 120 then
           (t\<lparr>th_sick := now\<rparr>, dev_error (fst now) REASON_DEV_SICK_IDLE_60 (d\<lparr>life := LIFE_SICK\<rparr>), restart)
         else if life d = LIFE_SICK \<and> silent > 600 then
           (t\<lparr>th_sick := now\<rparr>, dev_error (fst now) REASON_DEV_DEAD_IDLE_600 (d\<lparr>life := LIFE_DEAD\<rparr>), False)
         else if fst now - fst (th_sick t) > 60 \<and> (life d = LIFE_SICK \<or> life d = LIFE_DEAD) then
           (t\<lparr>th_sick := now\<rparr>, d, restart)
         else (t, d, False))"

definition watch_devices :: "bool \<Rightarrow> tv \<Rightarrow> fleet \<Rightarrow> fleet \<times> nat list" where
  "watch_devices restart now f =
     foldl (\<lambda>(f, rs) i.
        case first_thread f i of
          None \<Rightarrow> (f, rs)
        | Some j \<Rightarrow>
            (case watch_device restart now (fl_threads f ! j) (fl_devices f ! i) of
               (t, d, r) \<Rightarrow> (f\<lparr>fl_threads := (fl_threads f)[j := t], fl_devices := (fl_devices f)[i := d]\<rparr>,
                             if r then rs @ [i] else rs)))
       (f, []) [0..<length (fl_devices f)]"

text \<open>A turn of \<open>watchdog_thread\<close>: stale work is discarded, the schedule kept, the devices watched;
  the devices to restart are the last component.\<close>

definition watchdog_turn :: "bool \<Rightarrow> tv \<Rightarrow> clock_time \<Rightarrow> fleet \<times> miner \<Rightarrow> (fleet \<times> miner) \<times> nat list" where
  "watchdog_turn restart now tm fm =
     (let s = discard_stale (fst now) (snd fm);
          f = watch_schedule tm (fst fm)
      in if fl_quit f then ((f, s), [])
         else case watch_devices restart now f of (f, rs) \<Rightarrow> ((f, s), rs))"

section \<open>Restarting the threads\<close>

text \<open>
  \<open>restart_thread\<close> after a change of the block: the current pool counts as lagging, work that is
  stale is thrown away, and every thread
  of an enabled device is told; the queues of the devices are flushed, \<open>locked\<close> says of which the
  lock was taken.
\<close>

definition restart_thread :: "int \<Rightarrow> (nat \<Rightarrow> bool) \<Rightarrow> fleet \<times> (nat \<Rightarrow> device_queue) \<times> miner \<Rightarrow> fleet \<times> (nat \<Rightarrow> device_queue) \<times> miner" where
  "restart_thread now locked x =
     (case x of (f, q, s) \<Rightarrow>
        let s = s\<lparr>m_pools := upd_pool (currentpool (m_pools s)) (\<lambda>p. p\<lparr>lagging := True\<rparr>) (m_pools s)\<rparr>;
            s = discard_stale now s;
            told = (\<lambda>t. deven (device_of f t) = DEV_ENABLED);
            f' = f\<lparr>fl_threads := map (\<lambda>t. if told t then t\<lparr>work_restart := True\<rparr> else t) (fl_threads f)\<rparr>;
            q = (\<lambda>d. if \<exists>t\<in>set (fl_threads f). told t \<and> th_cgpu t = d then flush_queue (locked d) (q d) else q d)
        in (f', q, s))"

definition signal_work_update :: "fleet \<Rightarrow> fleet" where
  "signal_work_update f = f\<lparr>fl_threads := map (\<lambda>t. t\<lparr>work_update := True\<rparr>) (fl_threads f)\<rparr>"

section \<open>Commands on a device\<close>

datatype dev_msg = MSG_PGANON | MSG_MISID | MSG_INVPGA | MSG_PGALRENA | MSG_PGAENA | MSG_PGALRDIS | MSG_PGADIS

definition numpgas :: "fleet \<Rightarrow> nat" where
  "numpgas f = length (filter (fl_fpga f) [0..<length (fl_devices f)])"

text \<open>The loop counts the devices and stops at the first one at which the count is one more than the
  number asked for.\<close>

fun pgadevice_loop :: "(nat \<Rightarrow> bool) \<Rightarrow> int \<Rightarrow> int \<Rightarrow> nat list \<Rightarrow> nat option" where
  "pgadevice_loop fpga pgaid n [] = None"
| "pgadevice_loop fpga pgaid n (i # is) =
     (let n = (if fpga i then n + 1 else n) in if n = pgaid + 1 then Some i else pgadevice_loop fpga pgaid n is)"

definition pgadevice :: "int \<Rightarrow> fleet \<Rightarrow> nat option" where
  "pgadevice pgaid f = pgadevice_loop (fl_fpga f) pgaid 0 [0..<length (fl_devices f)]"

definition pga_param :: "string option \<Rightarrow> fleet \<Rightarrow> dev_msg + nat" where
  "pga_param param f =
     (if numpgas f = 0 then Inl MSG_PGANON
      else case param of
        None \<Rightarrow> Inl MSG_MISID
      | Some p \<Rightarrow>
          if p = [] then Inl MSG_MISID
          else let i = atoi p
            in if i < 0 \<or> i \<ge> int (numpgas f) then Inl MSG_INVPGA
               else (case pgadevice i f of None \<Rightarrow> Inl MSG_INVPGA | Some d \<Rightarrow> Inr d))"

definition pgaenable :: "string option \<Rightarrow> fleet \<Rightarrow> dev_msg \<times> fleet" where
  "pgaenable param f =
     (case pga_param param f of
        Inl m \<Rightarrow> (m, f)
      | Inr d \<Rightarrow>
          if deven (fl_devices f ! d) \<noteq> DEV_DISABLED then (MSG_PGALRENA, f)
          else (MSG_PGAENA,
            if \<exists>t\<in>set (fl_threads f). th_cgpu t = d
            then f\<lparr>fl_devices := (fl_devices f)[d := (fl_devices f ! d)\<lparr>deven := DEV_ENABLED\<rparr>],
                   fl_threads := map (\<lambda>t. if th_cgpu t = d then sem_post t else t) (fl_threads f)\<rparr>
            else f))"

definition pgadisable :: "string option \<Rightarrow> fleet \<Rightarrow> dev_msg \<times> fleet" where
  "pgadisable param f =
     (case pga_param param f of
        Inl m \<Rightarrow> (m, f)
      | Inr d \<Rightarrow>
          if deven (fl_devices f ! d) = DEV_DISABLED then (MSG_PGALRDIS, f)
          else (MSG_PGADIS, f\<lparr>fl_devices := (fl_devices f)[d := (fl_devices f ! d)\<lparr>deven := DEV_DISABLED\<rparr>]\<rparr>))"

section \<open>Threads that sleep\<close>

text \<open>
  A mining thread at the test of its loop, and one that sleeps and has been posted.
\<close>

definition thread_test :: "nat \<Rightarrow> fleet \<Rightarrow> fleet" where
  "thread_test i f =
     (let t = fl_threads f ! i
      in if th_pause t \<or> deven (device_of f t) \<noteq> DEV_ENABLED then f\<lparr>fl_asleep := insert i (fl_asleep f)\<rparr> else f)"

definition thread_wake :: "nat \<Rightarrow> fleet \<Rightarrow> fleet" where
  "thread_wake i f = f\<lparr>fl_asleep := fl_asleep f - {i},
     fl_threads := (fl_threads f)[i := (fl_threads f ! i)\<lparr>sem := sem (fl_threads f ! i) - 1\<rparr>]\<rparr>"

inductive fleet_step :: "fleet \<Rightarrow> fleet \<Rightarrow> bool" where
  Schedule: "\<not> fl_quit f \<Longrightarrow> fleet_step f (watch_schedule tm f)"
| Enable: "fleet_step f (snd (pgaenable param f))"
| Disable: "fleet_step f (snd (pgadisable param f))"
| Test: "i < length (fl_threads f) \<Longrightarrow> i \<notin> fl_asleep f \<Longrightarrow> fleet_step f (thread_test i f)"
| Wake: "i \<in> fl_asleep f \<Longrightarrow> 0 < sem (fl_threads f ! i) \<Longrightarrow> fleet_step f (thread_wake i f)"

inductive_cases fleet_stepE: "fleet_step f f'"


section \<open>The hours of work\<close>

definition clock_ok :: "clock_time \<Rightarrow> bool" where
  "clock_ok t \<longleftrightarrow> 0 \<le> fst t \<and> fst t < 24 \<and> 0 \<le> snd t \<and> snd t < 60"

definition minute_of :: "clock_time \<Rightarrow> int" where
  "minute_of t = fst t * 60 + snd t"

lemma time_before_minutes:
  assumes "clock_ok a" and "clock_ok b" shows "time_before a b \<longleftrightarrow> minute_of a < minute_of b"
  using assms by (auto simp: time_before_def clock_ok_def minute_of_def)

lemma minute_range: "clock_ok a \<Longrightarrow> 0 \<le> minute_of a \<and> minute_of a < 1440"
  by (auto simp: clock_ok_def minute_of_def)

lemma mod_day:
  assumes "- 1440 \<le> (x :: int)" and "x < 1440" shows "x mod 1440 = (if x < 0 then x + 1440 else x)"
proof -
  have "x mod 1440 = x + 1440" if "x < 0"
  proof -
    have "x mod 1440 = (x + 1440) mod 1440" by (rule mod_add_self2 [symmetric])
    also have "\<dots> = x + 1440" using that assms by (intro mod_pos_pos_trivial) simp_all
    finally show ?thesis .
  qed
  then show ?thesis using assms(2) by (simp add: mod_pos_pos_trivial)
qed

text \<open>C26: With a start and a stop time the miner runs exactly during the part of the day from start to
  stop, around midnight when the stop is the earlier one: the minutes since the start, on the
  circle of a day, are fewer than those from start to stop. With equal times it always runs; with
  only a stop time it runs before it, with only a start time it waits for it once.\<close>

theorem schedule_window:
  assumes "clock_ok tm" and "clock_ok (start_tm s)" and "clock_ok (stop_tm s)"
  shows "(start_enable s \<and> stop_enable s \<longrightarrow> should_run tm s =
      (minute_of (start_tm s) = minute_of (stop_tm s) \<or>
       (minute_of tm - minute_of (start_tm s)) mod 1440 < (minute_of (stop_tm s) - minute_of (start_tm s)) mod 1440, s)) \<and>
    (\<not> start_enable s \<and> stop_enable s \<longrightarrow> should_run tm s = (minute_of tm < minute_of (stop_tm s), s)) \<and>
    (start_enable s \<and> \<not> stop_enable s \<longrightarrow> should_run tm s =
      (if minute_of tm < minute_of (start_tm s) then (False, s) else (True, s\<lparr>start_enable := False\<rparr>)))"
proof -
  note b = time_before_minutes [OF assms(1,2)] time_before_minutes [OF assms(1,3)] time_before_minutes [OF assms(2,3)]
  define a c d where "a = minute_of tm" and "c = minute_of (start_tm s)" and "d = minute_of (stop_tm s)"
  have r: "0 \<le> a" "a < 1440" "0 \<le> c" "c < 1440" "0 \<le> d" "d < 1440"
    using minute_range assms by (simp_all add: a_def c_def d_def)
  have m: "(a - c) mod 1440 = (if a < c then a - c + 1440 else a - c)" "(d - c) mod 1440 = (if d < c then d - c + 1440 else d - c)"
    using r mod_day [of "a - c"] mod_day [of "d - c"] by simp_all
  show ?thesis using r by (simp add: should_run_def b a_def [symmetric] c_def [symmetric] d_def [symmetric] m)
qed

theorem schedule_window_witness:
  "should_run (1, 30) \<lparr>start_enable = True, start_tm = (22, 0), stop_enable = True, stop_tm = (6, 0), sched_paused = False\<rparr> =
    (True, \<lparr>start_enable = True, start_tm = (22, 0), stop_enable = True, stop_tm = (6, 0), sched_paused = False\<rparr>)"
  using schedule_window [of "(1, 30)" "\<lparr>start_enable = True, start_tm = (22, 0), stop_enable = True, stop_tm = (6, 0), sched_paused = False\<rparr>"]
  by (simp add: clock_ok_def minute_of_def)

section \<open>Threads that sleep\<close>

text \<open>A sleeping thread that may run has been posted.\<close>

definition wakeful :: "fleet \<Rightarrow> bool" where
  "wakeful f \<longleftrightarrow> (\<forall>i\<in>fl_asleep f. i < length (fl_threads f) \<and>
     (let t = fl_threads f ! i in th_pause t \<or> deven (device_of f t) \<noteq> DEV_ENABLED \<or> 0 < sem t))"

lemma wakefulI:
  assumes "\<And>i. i \<in> fl_asleep f \<Longrightarrow> i < length (fl_threads f)"
    and "\<And>i. i \<in> fl_asleep f \<Longrightarrow> \<not> th_pause (fl_threads f ! i) \<Longrightarrow> deven (device_of f (fl_threads f ! i)) = DEV_ENABLED \<Longrightarrow>
      0 < sem (fl_threads f ! i)"
  shows "wakeful f"
  unfolding wakeful_def Let_def by (meson assms)

lemma wakefulD:
  "wakeful f \<Longrightarrow> i \<in> fl_asleep f \<Longrightarrow> i < length (fl_threads f)"
  "wakeful f \<Longrightarrow> i \<in> fl_asleep f \<Longrightarrow> \<not> th_pause (fl_threads f ! i) \<Longrightarrow> deven (device_of f (fl_threads f ! i)) = DEV_ENABLED \<Longrightarrow>
    0 < sem (fl_threads f ! i)"
  by (auto simp: wakeful_def Let_def)

lemma pgadevice_loop_mem: "pgadevice_loop fpga p n is = Some d \<Longrightarrow> d \<in> set is"
  by (induction "is" arbitrary: n) (auto simp: Let_def split: if_splits)

lemma pga_param_bound: "pga_param param f = Inr d \<Longrightarrow> d < length (fl_devices f)"
  using pgadevice_loop_mem [of "fl_fpga f" _ 0 "[0..<length (fl_devices f)]" d]
  by (auto simp: pga_param_def pgadevice_def Let_def split: option.splits if_splits)

lemma wakeful_schedule: "wakeful f \<Longrightarrow> wakeful (watch_schedule tm f)"
  by (rule wakefulI)
    (auto simp: watch_schedule_def Let_def device_of_def sem_post_def dest: wakefulD split: prod.splits if_splits)

lemma wakeful_enable: "wakeful f \<Longrightarrow> wakeful (snd (pgaenable param f))"
proof (cases "pga_param param f")
  case (Inr d)
  assume w: "wakeful f"
  note d = pga_param_bound [OF Inr]
  show ?thesis
  proof (rule wakefulI, goal_cases)
    case (1 i)
    then show ?case using w wakefulD(1) [OF w, of i] by (auto simp: pgaenable_def Inr split: if_splits)
  next
    case (2 i)
    then show ?case using w wakefulD [OF w, of i]
      by (cases "th_cgpu (fl_threads f ! i) = d")
        (auto simp: pgaenable_def Inr device_of_def sem_post_def split: if_splits)
  qed
qed (simp add: pgaenable_def)

lemma wakeful_disable: "wakeful f \<Longrightarrow> wakeful (snd (pgadisable param f))"
proof (cases "pga_param param f")
  case (Inr d)
  assume w: "wakeful f"
  show ?thesis
  proof (rule wakefulI, goal_cases)
    case (1 i)
    then show ?case using wakefulD(1) [OF w, of i] by (auto simp: pgadisable_def Inr split: if_splits)
  next
    case (2 i)
    then show ?case using wakefulD [OF w, of i] pga_param_bound [OF Inr]
      by (cases "th_cgpu (fl_threads f ! i) = d") (auto simp: pgadisable_def Inr device_of_def split: if_splits)
  qed
qed (simp add: pgadisable_def)

lemma fleet_step_wakeful:
  assumes "fleet_step f g" and "wakeful f" shows "wakeful g"
  using assms(1)
proof (cases rule: fleet_step.cases)
  case (Test i)
  then show ?thesis using assms(2) by (intro wakefulI) (auto simp: thread_test_def Let_def device_of_def dest: wakefulD split: if_splits)
next
  case (Wake i)
  show ?thesis
  proof (rule wakefulI, goal_cases)
    case (1 j)
    then show ?case using wakefulD(1) [OF assms(2), of j] by (auto simp: Wake thread_wake_def)
  next
    case (2 j)
    then show ?case using wakefulD [OF assms(2), of j] by (auto simp: Wake thread_wake_def device_of_def)
  qed
qed (use assms(2) wakeful_schedule wakeful_enable wakeful_disable in auto)

text \<open>C27: No wake-up is lost between the schedule, the commands that enable and disable a device, and
  the threads: in every reachable state a thread that sleeps although it is neither paused nor on
  a disabled device has been posted and can wake.\<close>

theorem no_wakeup_is_lost:
  assumes "fleet_step\<^sup>*\<^sup>* f g" and "fl_asleep f = {}" and "i \<in> fl_asleep g"
    and "\<not> th_pause (fl_threads g ! i)" and "deven (device_of g (fl_threads g ! i)) = DEV_ENABLED"
  shows "0 < sem (fl_threads g ! i) \<and> (\<exists>h. fleet_step g h \<and> i \<notin> fl_asleep h)"
proof -
  have "wakeful f" using assms(2) by (simp add: wakeful_def)
  have "wakeful g" using assms(1) by (induction rule: rtranclp_induct) (use \<open>wakeful f\<close> fleet_step_wakeful in auto)
  then have s: "0 < sem (fl_threads g ! i)" using wakefulD(2) assms(3-5) by blast
  then have "fleet_step g (thread_wake i g)" using assms(3) by (rule fleet_step.Wake [rotated])
  then show ?thesis using s by (auto simp: thread_wake_def)
qed

text \<open>The pauses of the schedule and the commands on a device share one semaphore per thread.\<close>

definition quiet :: "nat \<Rightarrow> fleet \<Rightarrow> fleet \<Rightarrow> bool" where
  "quiet i f g \<longleftrightarrow> fleet_step f g \<and> \<not> sched_paused (fl_sched g) \<and> deven (device_of g (fl_threads g ! i)) = DEV_ENABLED"

definition stuck :: "nat \<Rightarrow> fleet \<Rightarrow> bool" where
  "stuck i f \<longleftrightarrow> i < length (fl_threads f) \<and> i \<in> fl_asleep f \<and> th_pause (fl_threads f ! i) \<and> sem (fl_threads f ! i) = 0 \<and>
     \<not> sched_paused (fl_sched f) \<and> deven (device_of f (fl_threads f ! i)) = DEV_ENABLED"

lemma schedule_unpaused:
  assumes "\<not> sched_paused (fl_sched f)" and "\<not> sched_paused (fl_sched (watch_schedule tm f))"
  shows "fl_threads (watch_schedule tm f) = fl_threads f" "fl_asleep (watch_schedule tm f) = fl_asleep f"
  using assms by (auto simp: watch_schedule_def Let_def should_run_def split: prod.splits if_splits)

lemma quiet_stuck:
  assumes "quiet i f g" and "stuck i f" shows "stuck i g"
proof -
  have s: "fleet_step f g" and q: "\<not> sched_paused (fl_sched g)" "deven (device_of g (fl_threads g ! i)) = DEV_ENABLED"
    using assms(1) by (simp_all add: quiet_def)
  note st = assms(2) [unfolded stuck_def]
  from s show ?thesis
  proof (cases rule: fleet_step.cases)
    case (Schedule tm)
    then show ?thesis using st q schedule_unpaused [of f tm] by (simp add: stuck_def)
  next
    case (Enable param)
    have "th_cgpu (fl_threads f ! i) \<noteq> d" if "pga_param param f = Inr d" "deven (fl_devices f ! d) = DEV_DISABLED" for d
      using that st by (auto simp: device_of_def)
    then show ?thesis using st q Enable
      by (auto simp: stuck_def pgaenable_def split: sum.splits if_splits)
  next
    case (Disable param)
    then show ?thesis using st q by (auto simp: stuck_def pgadisable_def split: sum.splits if_splits)
  next
    case (Test j)
    then show ?thesis using st q by (auto simp: stuck_def thread_test_def Let_def split: if_splits)
  next
    case (Wake j)
    then have "j \<noteq> i" using st by auto
    then show ?thesis using st q Wake by (simp add: stuck_def thread_wake_def)
  qed
qed

lemma schedule_resumes:
  assumes "sched_paused (fl_sched f)" and "should_run tm (fl_sched f) = (True, s)"
  shows "watch_schedule tm f = f\<lparr>fl_sched := s\<lparr>sched_paused := False\<rparr>,
    fl_threads := map (\<lambda>t. if deven (device_of f t) = DEV_DISABLED then t else sem_post (t\<lparr>th_pause := False\<rparr>)) (fl_threads f)\<rparr>"
  using assms by (simp add: watch_schedule_def)

lemma pgaenable_disabled:
  assumes "pga_param param f = Inr d" and "deven (fl_devices f ! d) = DEV_DISABLED" and "\<exists>t\<in>set (fl_threads f). th_cgpu t = d"
  shows "pgaenable param f = (MSG_PGAENA, f\<lparr>fl_devices := (fl_devices f)[d := (fl_devices f ! d)\<lparr>deven := DEV_ENABLED\<rparr>],
    fl_threads := map (\<lambda>t. if th_cgpu t = d then sem_post t else t) (fl_threads f)\<rparr>)"
  using assms(2,3) by (simp add: pgaenable_def assms(1))

text \<open>A device that was disabled while the schedule had paused it does not mine when it is enabled
  again: the end of the pause passes over threads of disabled devices and leaves their flag set, so
  that enabling the device wakes the thread only for it to fall asleep again at its next test; the
  command reports success. Nothing but the
  next pause and its end, or disabling the device again, wakes the thread.\<close>

theorem enabled_device_sleeps_on:
  fixes f f1 f2 f3 f4 :: fleet
  assumes "i < length (fl_threads f)" and "i \<in> fl_asleep f" and "th_pause (fl_threads f ! i)" and "sem (fl_threads f ! i) = 0"
    and "deven (device_of f (fl_threads f ! i)) = DEV_DISABLED" and "sched_paused (fl_sched f)" and "\<not> fl_quit f"
    and "fst (should_run tm (fl_sched f))" and "f1 = watch_schedule tm f"
    and "pga_param param f1 = Inr (th_cgpu (fl_threads f ! i))"
    and "pgaenable param f1 = (msg, f2)" and "f3 = thread_wake i f2" and "f4 = thread_test i f3"
  shows "msg = MSG_PGAENA \<and> fleet_step\<^sup>*\<^sup>* f f4 \<and> deven (device_of f4 (fl_threads f4 ! i)) = DEV_ENABLED \<and>
    (\<forall>g. (quiet i)\<^sup>*\<^sup>* f4 g \<longrightarrow> i \<in> fl_asleep g)"
proof -
  let ?t = "fl_threads f ! i"
  obtain s where s: "should_run tm (fl_sched f) = (True, s)" using assms(8) by (metis prod.collapse)
  have f1: "fl_threads f1 ! i = ?t" "fl_devices f1 = fl_devices f" "fl_asleep f1 = fl_asleep f"
    "\<not> sched_paused (fl_sched f1)" "length (fl_threads f1) = length (fl_threads f)" "fl_fpga f1 = fl_fpga f"
    using assms(1,5) by (simp_all add: assms(9) schedule_resumes [OF assms(6) s])
  have d: "th_cgpu ?t < length (fl_devices f)" using pga_param_bound [OF assms(10)] f1 by simp
  have e: "\<exists>t\<in>set (fl_threads f1). th_cgpu t = th_cgpu ?t" using f1 assms(1) by (metis nth_mem)
  have f2: "msg = MSG_PGAENA" "fl_threads f2 ! i = sem_post ?t" "fl_asleep f2 = fl_asleep f" "fl_sched f2 = fl_sched f1"
    "length (fl_threads f2) = length (fl_threads f)" "deven (fl_devices f2 ! th_cgpu ?t) = DEV_ENABLED"
    using assms(11) pgaenable_disabled [OF assms(10) _ e] f1 d assms(1,5) by (auto simp: device_of_def)
  have f3: "fl_threads f3 ! i = ?t" "fl_asleep f3 = fl_asleep f - {i}" "fl_sched f3 = fl_sched f1"
    "length (fl_threads f3) = length (fl_threads f)" "fl_devices f3 = fl_devices f2"
    using f2 assms(1) by (simp_all add: assms(12) thread_wake_def sem_post_def)
  have f4: "f4 = f3\<lparr>fl_asleep := insert i (fl_asleep f3)\<rparr>" using assms(3) f3 by (simp add: assms(13) thread_test_def Let_def)
  have st: "stuck i f4"
    using f1 f2 f3 assms(1,3,4) by (simp add: stuck_def f4 device_of_def)
  have "fleet_step f f1" unfolding assms(9) using assms(7) by (rule fleet_step.Schedule)
  moreover have "fleet_step f1 f2" using fleet_step.Enable [of f1 param] assms(11) by simp
  moreover have "fleet_step f2 f3" unfolding assms(12) using assms(2) f2 by (intro fleet_step.Wake) (simp_all add: sem_post_def)
  moreover have "fleet_step f3 f4" unfolding assms(13) using assms(1) f3 by (intro fleet_step.Test) simp_all
  ultimately have r: "fleet_step\<^sup>*\<^sup>* f f4" by (meson converse_rtranclp_into_rtranclp rtranclp.rtrancl_refl)
  have "stuck i g" if "(quiet i)\<^sup>*\<^sup>* f4 g" for g
    using that by (induction rule: rtranclp_induct) (use st quiet_stuck in auto)
  then show ?thesis using r f2 st by (auto simp: stuck_def)
qed

definition idle_fleet :: fleet where
  "idle_fleet = \<lparr>fl_threads = [demo_thread\<lparr>th_pause := True\<rparr>], fl_asleep = {0},
     fl_devices = [demo_board\<lparr>deven := DEV_DISABLED\<rparr>], fl_fpga = (\<lambda>i. True),
     fl_sched = \<lparr>start_enable = True, start_tm = (8, 0), stop_enable = True, stop_tm = (20, 0), sched_paused = True\<rparr>,
     fl_quit = False\<rparr>"

theorem enabled_device_sleeps_on_witness:
  "fst (pgaenable (Some ''0'') (watch_schedule (9, 0) idle_fleet)) = MSG_PGAENA \<and>
   {g. (quiet 0)\<^sup>*\<^sup>* (thread_test 0 (thread_wake 0 (snd (pgaenable (Some ''0'') (watch_schedule (9, 0) idle_fleet))))) g}
     \<subseteq> {g. 0 \<in> fl_asleep g}"
proof -
  have a: "atoi ''0'' = 0" by code_simp
  have p: "pga_param (Some ''0'') (watch_schedule (9, 0) idle_fleet) = Inr (th_cgpu (fl_threads idle_fleet ! 0))"
    by (simp add: pga_param_def numpgas_def pgadevice_def a watch_schedule_def idle_fleet_def should_run_def time_before_def
      device_of_def demo_thread_def demo_board_def Let_def)
  obtain msg f2 where e: "pgaenable (Some ''0'') (watch_schedule (9, 0) idle_fleet) = (msg, f2)" by fastforce
  have "msg = MSG_PGAENA \<and> (\<forall>g. (quiet 0)\<^sup>*\<^sup>* (thread_test 0 (thread_wake 0 f2)) g \<longrightarrow> 0 \<in> fl_asleep g)"
    using enabled_device_sleeps_on [of 0 idle_fleet "(9, 0)", OF _ _ _ _ _ _ _ _ refl p e refl refl]
    by (simp add: idle_fleet_def should_run_def time_before_def device_of_def demo_thread_def demo_board_def)
  then show ?thesis using e by auto
qed

theorem no_wakeup_is_lost_witness:
  "0 < sem (fl_threads (snd (pgaenable (Some ''0'') (thread_test 0 (idle_fleet\<lparr>fl_asleep := {}, fl_threads := [demo_thread]\<rparr>)))) ! 0)"
proof -
  let ?f = "idle_fleet\<lparr>fl_asleep := {}, fl_threads := [demo_thread]\<rparr>"
  let ?g = "snd (pgaenable (Some ''0'') (thread_test 0 ?f))"
  have a: "atoi ''0'' = 0" by code_simp
  have "fleet_step ?f (thread_test 0 ?f)" by (rule fleet_step.Test) (simp_all add: idle_fleet_def)
  moreover have "fleet_step (thread_test 0 ?f) ?g" by (rule fleet_step.Enable)
  ultimately have r: "fleet_step\<^sup>*\<^sup>* ?f ?g" by (meson converse_rtranclp_into_rtranclp rtranclp.rtrancl_refl)
  show ?thesis
    using no_wakeup_is_lost [OF r, of 0]
    by (simp add: pgaenable_def pga_param_def numpgas_def pgadevice_def a thread_test_def idle_fleet_def
      device_of_def demo_thread_def demo_board_def sem_post_def Let_def)
qed


section \<open>Devices that fall silent\<close>

fun looks :: "bool \<Rightarrow> int list \<Rightarrow> mthread \<times> device \<Rightarrow> mthread \<times> device" where
  "looks restart [] td = td"
| "looks restart (n # ns) td = (case watch_device restart (n, 0) (fst td) (snd td) of (t, d, r) \<Rightarrow> looks restart ns (t, d))"

lemma looks_snoc:
  "looks restart (ns @ [n]) td = (case watch_device restart (n, 0) (fst (looks restart ns td)) (snd (looks restart ns td)) of (t, d, r) \<Rightarrow> (t, d))"
  by (induction ns arbitrary: td) (simp_all split: prod.splits)

lemma in_tl: "x \<in> set (tl xs) \<Longrightarrow> x \<in> set xs"
  by (cases xs) auto

text \<open>A device whose thread stops reporting is declared sick at the first look of the watchdog
  more than 120 seconds after the last report, and dead at the first later look more than 600
  seconds after it; it is never declared dead without having been declared sick at an earlier look.\<close>

theorem silent_device_declared:
  assumes "life d = LIFE_WELL" and "deven d \<noteq> DEV_DISABLED" and "\<not> th_getwork t" and "sorted ns"
  shows "let late = filter (\<lambda>n. n - fst (th_last t) > 120) ns in
    life (snd (looks restart ns (t, d))) =
      (if late = [] then LIFE_WELL else if \<exists>n\<in>set (tl late). n - fst (th_last t) > 600 then LIFE_DEAD else LIFE_SICK)"
proof -
  let ?l = "fst (th_last t)" and ?late = "\<lambda>ns. filter (\<lambda>n. n - fst (th_last t) > 120) ns"
  have "th_last (fst (looks restart ns (t, d))) = th_last t \<and> \<not> th_getwork (fst (looks restart ns (t, d))) \<and>
    deven (snd (looks restart ns (t, d))) = deven d \<and>
    life (snd (looks restart ns (t, d))) =
      (if ?late ns = [] then LIFE_WELL else if \<exists>n\<in>set (tl (?late ns)). n - ?l > 600 then LIFE_DEAD else LIFE_SICK)"
    using assms(4)
  proof (induction ns rule: rev_induct)
    case (snoc n ns)
    obtain u e where l: "looks restart ns (t, d) = (u, e)" by fastforce
    have IH: "th_last u = th_last t" "\<not> th_getwork u" "deven e = deven d"
      "life e = (if ?late ns = [] then LIFE_WELL else if \<exists>n\<in>set (tl (?late ns)). n - ?l > 600 then LIFE_DEAD else LIFE_SICK)"
      using snoc l by (simp_all add: sorted_append)
    have mono: "n - ?l > 120" if "?late ns \<noteq> []"
      using that snoc.prems by (fastforce simp: sorted_append filter_empty_conv)
    have big: "n - ?l > 600" if "\<exists>k\<in>set (tl (?late ns)). k - ?l > 600"
    proof -
      from that obtain k where "k \<in> set (?late ns)" "k - ?l > 600" using in_tl by fast
      then show ?thesis using snoc.prems by (force simp: sorted_append)
    qed
    show ?case
    proof (cases "?late ns = []")
      case True
      then show ?thesis using IH assms(2) by (simp add: looks_snoc l watch_device_def dev_error_def Let_def)
    next
      case False
      then have t: "tl (?late (ns @ [n])) = tl (?late ns) @ [n]" using mono by (simp add: tl_append2)
      show ?thesis using IH False mono big assms(2) t
        by (auto simp: looks_snoc l watch_device_def dev_error_def Let_def)
    qed
  qed (use assms in simp)
  then show ?thesis by (simp add: Let_def)
qed

theorem silent_device_declared_witness:
  "life (snd (looks True [100, 130, 500, 650] (demo_thread, demo_board\<lparr>life := LIFE_WELL\<rparr>))) = LIFE_DEAD"
  using silent_device_declared [of "demo_board\<lparr>life := LIFE_WELL\<rparr>" demo_thread "[100, 130, 500, 650]" True]
  by (simp add: demo_board_def demo_thread_def)

section \<open>The pools\<close>

text \<open>
  \<open>watchpool_thread\<close>: \<open>pw_tv_idle\<close> is when a pool was last found dead or tested, \<open>pw_rotate\<close> when
  pools were last rotated. A probe is what the test of an idle pool gives: its time, whether the
  pool answered, and what else \<open>pool_active\<close> does. Closing old curl handles and the average
  of shares, which is a double, are left out.
\<close>

record pool_watch =
  pw_shares :: shares_state
  pw_tv_idle :: "nat \<Rightarrow> int"
  pw_testing :: "nat \<Rightarrow> bool"
  pw_rotate :: int
  pw_intervals :: int

record probe =
  pr_now :: int
  pr_active :: bool
  pr_effect :: "shares_state \<Rightarrow> shares_state"

abbreviation pw_pools :: "pool_watch \<Rightarrow> pools_state" where
  "pw_pools w \<equiv> m_pools (sh_miner (pw_shares w))"

definition watched_pool :: "pool_watch \<Rightarrow> nat \<Rightarrow> pool" where
  "watched_pool w a = ps_pool (pw_pools w) a"

definition pw_switch :: "pool_watch \<Rightarrow> pool_watch" where
  "pw_switch w = w\<lparr>pw_shares := on_miner switch_away (pw_shares w)\<rparr>"

definition test_idle :: "int \<Rightarrow> probe \<Rightarrow> nat \<Rightarrow> pool_watch \<Rightarrow> pool_watch" where
  "test_idle now pb a w =
     (if idle (watched_pool w a) \<and> now - pw_tv_idle w a > 30 then
        let w = w\<lparr>pw_tv_idle := (pw_tv_idle w)(a := pr_now pb), pw_shares := pr_effect pb (pw_shares w)\<rparr>
        in if pr_active pb
           then w\<lparr>pw_shares := on_miner (on_pools (upd_pool a (\<lambda>p. p\<lparr>idle := False\<rparr>))) (pw_shares w)\<rparr>
           else w
      else w)"

definition fails_back :: "int \<Rightarrow> nat \<Rightarrow> pool_watch \<Rightarrow> bool" where
  "fails_back now a w \<longleftrightarrow> \<not> idle (watched_pool w a) \<and> pool_strategy (pw_pools w) = POOL_FAILOVER \<and>
     prio (watched_pool w a) < prio (watched_pool w (currentpool (pw_pools w))) \<and> now - pw_tv_idle w a > 300"

definition watch_pool :: "bool \<Rightarrow> int \<Rightarrow> probe \<Rightarrow> nat \<Rightarrow> pool_watch \<Rightarrow> pool_watch" where
  "watch_pool offline now pb a w =
     (let w = (if \<not> offline then w\<lparr>pw_shares := prune_stratum_shares a now (pw_shares w)\<rparr> else w)
      in if enabled (watched_pool w a) = POOL_DISABLED then w
         else
           let w = test_idle now pb a (w\<lparr>pw_testing := (pw_testing w)(a := False)\<rparr>)
           in if fails_back now a w then pw_switch w else w)"

definition watchpool_turn :: "bool \<Rightarrow> int \<Rightarrow> int \<Rightarrow> int \<Rightarrow> (nat \<Rightarrow> probe) \<Rightarrow> pool_watch \<Rightarrow> pool_watch" where
  "watchpool_turn offline period now later probes w =
     (let w = w\<lparr>pw_intervals := (if pw_intervals w + 1 > 20 then 0 else pw_intervals w + 1)\<rparr>;
          w = foldl (\<lambda>w i. watch_pool offline now (probes i) (pools (pw_pools w) ! i) w) w [0..<total_pools (pw_pools w)];
          w = (if idle (watched_pool w (currentpool (pw_pools w))) then pw_switch w else w)
      in if pool_strategy (pw_pools w) = POOL_ROTATE \<and> now - pw_rotate w > 60 * period
         then pw_switch (w\<lparr>pw_rotate := later\<rparr>) else w)"

lemma switch_away_pools [simp]: "m_pools (switch_away m) = fst (switch_pools None (m_pools m))"
  by (simp add: switch_away_def clear_pool_work_def Let_def split: prod.splits)

lemma pw_switch_simps [simp]:
  "pw_pools (pw_switch w) = fst (switch_pools None (pw_pools w))" "pw_tv_idle (pw_switch w) = pw_tv_idle w"
  "pw_rotate (pw_switch w) = pw_rotate w"
  by (simp_all add: pw_switch_def on_miner_def)

lemma switch_pools_frame [simp]:
  "pools (fst (switch_pools None p)) = pools p" "idle (ps_pool (fst (switch_pools None p)) a) = idle (ps_pool p a)"
  "enabled (ps_pool (fst (switch_pools None p)) a) = enabled (ps_pool p a)"
  "prio (ps_pool (fst (switch_pools None p)) a) = prio (ps_pool p a)"
  "pool_strategy (fst (switch_pools None p)) = pool_strategy p"
  by (simp_all add: switch_pools_def Let_def)

lemma prune_miner [simp]: "m_pools (sh_miner (prune_stratum_shares a now s)) = m_pools (sh_miner s)"
  by (simp add: prune_stratum_shares_def add_stale_def on_miner_def upd_pool_work_def Let_def)

text \<open>What the turns keep of the pools, and the probes may not change.\<close>

definition pools_fine :: "pools_state \<Rightarrow> bool" where
  "pools_fine p \<longleftrightarrow> pools_ok p \<and> currentpool p \<in> set (pools p) \<and>
     pool_strategy p \<in> {POOL_FAILOVER, POOL_LOADBALANCE, POOL_BALANCE}"

lemma pools_fine_switch: "pools_fine p \<Longrightarrow> pools_fine (fst (switch_pools None p))"
  using switch_pools_ok [of p None] by (simp add: pools_fine_def)

lemma pools_fine_idle: "pools_fine p \<Longrightarrow> pools_fine (upd_pool a (\<lambda>p. p\<lparr>idle := b\<rparr>) p)"
  using pools_ok_cong [of "upd_pool a (\<lambda>p. p\<lparr>idle := b\<rparr>) p" p] by (auto simp: pools_fine_def)

lemma pools_fine_watch:
  assumes "pools_fine (pw_pools w)" and "\<forall>s. pools_fine (m_pools (sh_miner s)) \<longrightarrow> pools_fine (m_pools (sh_miner (pr_effect pb s)))"
  shows "pools_fine (pw_pools (watch_pool offline now pb a w))"
  using assms by (simp add: watch_pool_def test_idle_def Let_def pools_fine_switch pools_fine_idle on_miner_def on_pools_def)

lemma pools_fine_watches:
  assumes "pools_fine (pw_pools w)"
    and "\<forall>i s. pools_fine (m_pools (sh_miner s)) \<longrightarrow> pools_fine (m_pools (sh_miner (pr_effect (probes i) s)))"
  shows "pools_fine (pw_pools (foldl (\<lambda>w i. watch_pool offline now (probes i) (pools (pw_pools w) ! i) w) w is))"
  using assms(1) by (induction "is" arbitrary: w) (simp_all add: pools_fine_watch assms(2))

lemma switch_best:
  assumes "pools_fine p" and "a \<in> set (pools p)" and "\<not> pool_unusable p a"
  defines "c \<equiv> currentpool (fst (switch_pools None p))"
  shows "\<not> pool_unusable p c" "\<And>x. x \<in> set (pools p) \<Longrightarrow> \<not> pool_unusable p x \<Longrightarrow> prio (ps_pool p c) \<le> prio (ps_pool p x)"
proof -
  have f: "pools_ok p" "currentpool p \<in> set (pools p)" "pool_strategy p \<in> {POOL_FAILOVER, POOL_LOADBALANCE, POOL_BALANCE}"
    using assms(1) by (simp_all add: pools_fine_def)
  have e: "\<exists>a\<in>set (pools p). \<not> pool_unusable p a" using assms(2,3) by blast
  from switch_finds_best [OF f] e
  show "\<not> pool_unusable p c" "\<And>x. x \<in> set (pools p) \<Longrightarrow> \<not> pool_unusable p x \<Longrightarrow> prio (ps_pool p c) \<le> prio (ps_pool p x)"
    by (simp_all only: if_True Let_def c_def) blast+
qed

text \<open>After each turn of the thread that watches the pools the current pool answers, whatever the tests
  found: when it is idle, the usable pool of the best priority takes its place; only when no pool is
  usable does an idle one stay.\<close>

theorem idle_current_is_left:
  assumes "pools_fine (pw_pools w)"
    and "\<forall>i s. pools_fine (m_pools (sh_miner s)) \<longrightarrow> pools_fine (m_pools (sh_miner (pr_effect (probes i) s)))"
    and "w' = watchpool_turn offline period now later probes w"
  shows "\<not> idle (watched_pool w' (currentpool (pw_pools w'))) \<or> (\<forall>a\<in>set (pools (pw_pools w')). pool_unusable (pw_pools w') a)"
proof -
  define w0 where "w0 = w\<lparr>pw_intervals := (if pw_intervals w + 1 > 20 then 0 else pw_intervals w + 1)\<rparr>"
  define u where "u = foldl (\<lambda>w i. watch_pool offline now (probes i) (pools (pw_pools w) ! i) w) w0 [0..<total_pools (pw_pools w0)]"
  have fine: "pools_fine (pw_pools u)"
    unfolding u_def using assms(1,2) by (intro pools_fine_watches) (simp_all add: w0_def)
  then have s: "pool_strategy (pw_pools u) \<noteq> POOL_ROTATE" by (auto simp: pools_fine_def)
  have w': "w' = (if idle (watched_pool u (currentpool (pw_pools u))) then pw_switch u else u)"
    unfolding assms(3) watchpool_turn_def Let_def w0_def [symmetric] u_def [symmetric] using s by simp
  show ?thesis
  proof (cases "idle (watched_pool u (currentpool (pw_pools u)))")
    case True
    define c where "c = currentpool (fst (switch_pools None (pw_pools u)))"
    have w: "w' = pw_switch u" using True by (simp add: w')
    have u: "pool_unusable (pw_pools w') x = pool_unusable (pw_pools u) x" for x
      by (simp add: w pool_unusable_def)
    show ?thesis
    proof (cases "\<exists>a\<in>set (pools (pw_pools u)). \<not> pool_unusable (pw_pools u) a")
      case True
      then have "\<not> pool_unusable (pw_pools u) c" using switch_best(1) [OF fine] c_def by blast
      then have "\<not> idle (ps_pool (pw_pools u) c)" by (auto simp: pool_unusable_def)
      then show ?thesis by (simp add: w watched_pool_def c_def)
    next
      case False
      then show ?thesis unfolding u by (simp add: w)
    qed
  qed (simp add: w')
qed

text \<open>The five minutes a pool has to be stable before the miner fails back to it do not protect from
  unstable pools: once some pool of better priority than the current one is stable, the miner
  switches to the usable pool of the best priority, even when that one came to life a moment ago.\<close>

theorem failback_ignores_stability:
  assumes "pools_fine (pw_pools w)" and "fails_back now a w" and "a \<in> set (pools (pw_pools w))"
    and "\<not> pool_unusable (pw_pools w) b" and "b \<in> set (pools (pw_pools w))" and "enabled (watched_pool w a) = POOL_ENABLED"
    and "prio (watched_pool w b) < prio (watched_pool w a)"
  shows "let w' = watch_pool True now pb a w; c = currentpool (pw_pools w') in
    c \<noteq> a \<and> prio (watched_pool w c) \<le> prio (watched_pool w b) \<and>
    (\<forall>x\<in>set (pools (pw_pools w)). \<not> pool_unusable (pw_pools w) x \<longrightarrow> prio (watched_pool w c) \<le> prio (watched_pool w x))"
proof -
  have i: "\<not> idle (watched_pool w a)" using assms(2) by (simp add: fails_back_def)
  define v where "v = w\<lparr>pw_testing := (pw_testing w)(a := False)\<rparr>"
  have "fails_back now a v" using assms(2) by (simp add: v_def fails_back_def watched_pool_def)
  moreover have "test_idle now pb a v = v" using i by (simp add: test_idle_def v_def watched_pool_def)
  ultimately have "watch_pool True now pb a w = pw_switch v"
    using assms(6) by (simp add: watch_pool_def v_def [symmetric])
  moreover have "pw_pools v = pw_pools w" by (simp add: v_def)
  ultimately show ?thesis
    using switch_best(2) [OF assms(1,5,4)] assms(4,5,7) by (fastforce simp: Let_def watched_pool_def)
qed

definition demo_watch :: pool_watch where
  "demo_watch = \<lparr>pw_shares = demo_shares\<lparr>sh_miner := demo_miner\<lparr>m_pools := two_pools\<lparr>pools := [10, 11, 12], currentpool := 12,
       ps_pool := (\<lambda>a. new_pool\<lparr>pool_no := nat (int a - 10), prio := nat (int a - 10), enabled := POOL_ENABLED\<rparr>)\<rparr>\<rparr>\<rparr>,
     pw_tv_idle = (\<lambda>a. if a = 10 then 999 else 0), pw_testing = (\<lambda>a. False), pw_rotate = 0, pw_intervals = 0\<rparr>"

lemma demo_watch_pools:
  "pools (pw_pools demo_watch) = [10, 11, 12]" "currentpool (pw_pools demo_watch) = 12"
  "pool_strategy (pw_pools demo_watch) = POOL_FAILOVER" "watched_pool demo_watch 12 = new_pool\<lparr>pool_no := 2, prio := 2, enabled := POOL_ENABLED\<rparr>"
  "watched_pool demo_watch 10 = new_pool\<lparr>pool_no := 0, prio := 0, enabled := POOL_ENABLED\<rparr>"
  "watched_pool demo_watch 11 = new_pool\<lparr>pool_no := 1, prio := 1, enabled := POOL_ENABLED\<rparr>"
  "pools_ok (pw_pools demo_watch)"
  by (auto simp: demo_watch_def watched_pool_def two_pools_def no_pools_def pools_ok_def bij_betw_def less_Suc_eq new_pool_def
    inj_on_def)

lemma demo_watch_fine: "pools_fine (pw_pools demo_watch)"
  using demo_watch_pools by (simp add: pools_fine_def)

theorem failback_ignores_stability_witness:
  "currentpool (pw_pools (watch_pool True 1000 \<lparr>pr_now = 0, pr_active = False, pr_effect = (\<lambda>s. s)\<rparr> 11 demo_watch)) \<noteq> 11 \<and>
   pw_tv_idle demo_watch 10 = 999"
proof -
  have f: "fails_back 1000 11 demo_watch"
    using demo_watch_pools by (simp add: fails_back_def new_pool_def) (simp add: demo_watch_def)
  have u: "\<not> pool_unusable (pw_pools demo_watch) 10"
    using demo_watch_pools(5) by (simp add: pool_unusable_def watched_pool_def new_pool_def)
  show ?thesis
    using failback_ignores_stability [OF demo_watch_fine f _ u, of "\<lparr>pr_now = 0, pr_active = False, pr_effect = (\<lambda>s. s)\<rparr>"]
      demo_watch_pools by (simp add: Let_def new_pool_def) (simp add: demo_watch_def)
qed

theorem idle_current_is_left_witness:
  "let w = watchpool_turn True 5 1000 1000 (\<lambda>i. \<lparr>pr_now = 0, pr_active = True, pr_effect = (\<lambda>s. s)\<rparr>) demo_watch
   in \<not> idle (watched_pool w (currentpool (pw_pools w))) \<or> (\<forall>a\<in>set (pools (pw_pools w)). pool_unusable (pw_pools w) a)"
  unfolding Let_def by (rule idle_current_is_left [OF demo_watch_fine _ refl]) simp

end
