(* ===== verification/Api_Access.thy ===== *)
theory Api_Access
  imports Pool_Control Stratum
begin

text \<open>
  Access to the miner's API (\<open>src/cgminer/api.c\<close>): the groups of commands of the option
  \<open>--api-groups\<close>, the addresses of \<open>--api-allow\<close>, and how a request is taken apart, its
  commands are permitted or denied, and its replies are put together.

  \<open>None\<close> is a start refused by \<open>quit(1, ...)\<close> or, for buffers, a write past the end.
\<close>

unbundle bit_operations_syntax

section \<open>Commands\<close>

record command =
  cm_name :: string
  cm_write :: bool
  cm_joinable :: bool

text \<open>The table as compiled for the accelerator's driver, which counts as an FPGA.\<close>

definition cmds :: "command list" where
  "cmds = map (\<lambda>(n, w, j). \<lparr>cm_name = n, cm_write = w, cm_joinable = j\<rparr>)
     [(''version'', False, True), (''config'', False, True), (''devs'', False, True), (''edevs'', False, True),
      (''pools'', False, True), (''summary'', False, True),
      (''pga'', False, False), (''pgaenable'', True, False), (''pgadisable'', True, False), (''pgaidentify'', True, False),
      (''pgacount'', False, True), (''switchpool'', True, False), (''addpool'', True, False),
      (''poolpriority'', True, False), (''poolquota'', True, False), (''enablepool'', True, False),
      (''disablepool'', True, False), (''removepool'', True, False), (''save'', True, False), (''quit'', True, False),
      (''privileged'', True, False), (''notify'', False, True), (''devdetails'', False, True), (''restart'', True, False),
      (''stats'', False, True), (''estats'', False, True), (''check'', False, False), (''failover-only'', True, False),
      (''coin'', False, True), (''debug'', True, False), (''setconfig'', True, False), (''usbstats'', False, True),
      (''pgaset'', True, False), (''zero'', True, False), (''hotplug'', True, False), (''asccount'', False, True),
      (''lockstats'', True, True)]"

definition find_command :: "string \<Rightarrow> command option" where
  "find_command name = find (\<lambda>c. cm_name c = name) cmds"

definition toupper :: "char \<Rightarrow> char" where
  "toupper c = (if 97 \<le> (of_char c :: nat) \<and> (of_char c :: nat) \<le> 122 then char_of (of_char c - 32 :: nat) else c)"

definition isalpha :: "char \<Rightarrow> bool" where
  "isalpha c \<longleftrightarrow> 65 \<le> (of_char (toupper c) :: nat) \<and> (of_char (toupper c) :: nat) \<le> 90"

definition strcasecmp_eq :: "string \<Rightarrow> string \<Rightarrow> bool" where
  "strcasecmp_eq a b \<longleftrightarrow> map tolower a = map tolower b"

section \<open>Groups of commands\<close>

text \<open>The text of the commands of each group, by its capital letter.\<close>

type_synonym api_groups = "char \<Rightarrow> string option"

definition is_priv_group :: "char \<Rightarrow> bool" where
  "is_priv_group g \<longleftrightarrow> toupper g = CHR ''W''"

definition defined_group :: "api_groups \<Rightarrow> char \<Rightarrow> bool" where
  "defined_group gs g \<longleftrightarrow> is_priv_group g \<or> gs (toupper g) \<noteq> None"

definition quoted :: "string \<Rightarrow> string" where
  "quoted name = ''|'' @ name @ ''|''"

definition add_command :: "string \<Rightarrow> string \<Rightarrow> string" where
  "add_command name commands =
     (if strstr commands (quoted name) = None then commands @ name @ ''|'' else commands)"

text \<open>The commands of a group, up to the first empty name, and whether a star was among them.\<close>

fun group_commands :: "string list \<Rightarrow> string \<Rightarrow> bool \<Rightarrow> (string \<times> bool) option" where
  "group_commands [] commands addstar = Some (commands, addstar)"
| "group_commands (p # ps) commands addstar =
     (if p = [] then Some (commands, addstar)
      else if p = ''*'' then group_commands ps commands True
      else case find (\<lambda>c. strcasecmp_eq p (cm_name c)) cmds of
             Some c \<Rightarrow> group_commands ps (add_command (cm_name c) commands) addstar
           | None \<Rightarrow> None)"

definition add_readable :: "string \<Rightarrow> string" where
  "add_readable commands = foldl (\<lambda>t c. if cm_write c then t else add_command (cm_name c) t) commands cmds"

fun split_on :: "char \<Rightarrow> string \<Rightarrow> string list" where
  "split_on x [] = [[]]"
| "split_on x (c # cs) =
     (if c = x then [] # split_on x cs
      else case split_on x cs of [] \<Rightarrow> [[c]] | p # ps \<Rightarrow> (c # p) # ps)"

definition setup_group :: "string \<Rightarrow> api_groups \<Rightarrow> api_groups option" where
  "setup_group token gs =
     (case token of
        g # c # rest \<Rightarrow>
          if c \<noteq> CHR '':'' then None
          else if \<not> isalpha g then None
          else if is_priv_group g then None
          else if toupper g = CHR ''R'' then None
          else if gs (toupper g) \<noteq> None then None
          else (case group_commands (split_on CHR '':'' rest) ''|'' False of
                  None \<Rightarrow> None
                | Some (commands, addstar) \<Rightarrow>
                    Some (gs(toupper g \<mapsto> (if addstar then add_readable commands else commands))))
      | _ \<Rightarrow> None)"

definition readable_commands :: string where
  "readable_commands = ''|'' @ concat (map (\<lambda>c. if cm_write c then [] else cm_name c @ ''|'') cmds)"

fun setup_tokens :: "string list \<Rightarrow> api_groups \<Rightarrow> api_groups option" where
  "setup_tokens [] gs = Some gs"
| "setup_tokens [t] gs = (if t = [] then Some gs else setup_group t gs)"
| "setup_tokens (t # u # ts) gs = (case setup_group t gs of None \<Rightarrow> None | Some gs \<Rightarrow> setup_tokens (u # ts) gs)"

definition setup_groups :: "string option \<Rightarrow> api_groups option" where
  "setup_groups opt_api_groups =
     map_option (\<lambda>gs. gs(CHR ''R'' \<mapsto> readable_commands))
       (setup_tokens (split_on CHR '','' (case opt_api_groups of None \<Rightarrow> [] | Some s \<Rightarrow> s)) Map.empty)"

definition may_run :: "api_groups \<Rightarrow> char \<Rightarrow> string \<Rightarrow> bool" where
  "may_run gs grp name \<longleftrightarrow>
     is_priv_group grp \<or> (case gs (toupper grp) of None \<Rightarrow> False | Some t \<Rightarrow> strstr t (quoted name) \<noteq> None)"

section \<open>Addresses\<close>

record ip4access =
  ia_ip :: u32
  ia_mask :: u32
  ia_group :: char

text \<open>
  The loop \<open>while (mask-- >= 0)\<close> runs once more with \<open>mask\<close> being -1, and shifts by a negative
  number; \<open>wild\<close> is what the compiled program adds to the mask then (nothing on ARM, the top
  bit on x86).
\<close>

definition mask_bit :: "nat \<Rightarrow> u32" where
  "mask_bit m = push_bit (24 - 8 * (m div 8)) (push_bit (m mod 8) 1)"

definition prefix_mask :: "u32 \<Rightarrow> nat \<Rightarrow> u32" where
  "prefix_mask wild n = foldl (\<lambda>msk m. msk OR mask_bit m) 0 (rev [0..<n]) OR wild"

text \<open>At most four octets; what is missing is 0. \<open>None\<close> when an octet is out of range.\<close>

fun parse_octets :: "nat \<Rightarrow> string list \<Rightarrow> u32 \<Rightarrow> u32 option" where
  "parse_octets i [] ip = Some ip"
| "parse_octets i (p # ps) ip =
     (if i \<ge> 4 then Some ip
      else if atoi p < 0 \<or> atoi p > 0xff then None
      else parse_octets (i + 1) ps (ip OR push_bit (24 - i * 8) (word_of_int (atoi p))))"

definition access_entry :: "u32 \<Rightarrow> api_groups \<Rightarrow> string \<Rightarrow> ip4access option" where
  "access_entry wild gs token =
     (let (grp, ptr) =
        (case token of
           g # c # rest \<Rightarrow>
             if isalpha g \<and> c = CHR '':'' then (if defined_group gs g then toupper g else CHR ''R'', rest)
             else (CHR ''R'', token)
         | _ \<Rightarrow> (CHR ''R'', token))
      in if ptr = ''0/0'' then Some \<lparr>ia_ip = 0, ia_mask = 0, ia_group = grp\<rparr>
         else
           let (addr, msk) =
             (case strchr ptr CHR ''/'' of
                None \<Rightarrow> (ptr, Some 0xffffffff)
              | Some i \<Rightarrow> (take i ptr,
                  let n = atoi (drop (i + 1) ptr)
                  in if n < 1 \<or> n > 32 then None else Some (prefix_mask wild (nat n))))
           in case msk of
                None \<Rightarrow> None
              | Some msk \<Rightarrow>
                  map_option (\<lambda>ip. \<lparr>ia_ip = ip AND msk, ia_mask = msk, ia_group = grp\<rparr>)
                    (parse_octets 0 (split_on CHR ''.'' addr) 0))"

definition isblank :: "char \<Rightarrow> bool" where
  "isblank c \<longleftrightarrow> c = CHR '' '' \<or> c = CHR 0x09"

text \<open>
  The entries between the commas. Blanks before an entry are skipped, and so is an entry of
  blanks only, unless it is the last; the last one is not looked at when it is empty.
\<close>

fun access_entries :: "u32 \<Rightarrow> api_groups \<Rightarrow> string list \<Rightarrow> ip4access list" where
  "access_entries wild gs [] = []"
| "access_entries wild gs (t # ts) =
     (let token = dropWhile isblank t
      in if token = [] \<and> (ts \<noteq> [] \<or> t = []) then access_entries wild gs ts
         else case access_entry wild gs token of
                None \<Rightarrow> access_entries wild gs ts
              | Some e \<Rightarrow> e # access_entries wild gs ts)"

definition setup_ipaccess :: "u32 \<Rightarrow> api_groups \<Rightarrow> string \<Rightarrow> ip4access list" where
  "setup_ipaccess wild gs opt_api_allow = access_entries wild gs (split_on CHR '','' opt_api_allow)"

text \<open>The number of entries there is room for.\<close>

definition ipcount :: "string \<Rightarrow> nat" where
  "ipcount opt_api_allow = 1 + length (filter (\<lambda>c. c = CHR '','') opt_api_allow)"

text \<open>
  Whether a client may talk to the API, and its group; \<open>client_ip\<close> has the first octet in its
  highest byte. \<open>ipaccess\<close> is \<open>None\<close> without the option \<open>--api-allow\<close>.
\<close>

definition matches :: "u32 \<Rightarrow> ip4access \<Rightarrow> bool" where
  "matches client_ip e \<longleftrightarrow> client_ip AND ia_mask e = ia_ip e"

definition check_connect :: "ip4access list option \<Rightarrow> bool \<Rightarrow> u32 \<Rightarrow> bool \<times> char" where
  "check_connect ipaccess opt_api_network client_ip =
     (case ipaccess of
        Some es \<Rightarrow> (case find (matches client_ip) es of None \<Rightarrow> (False, CHR ''R'') | Some e \<Rightarrow> (True, ia_group e))
      | None \<Rightarrow> (opt_api_network \<or> client_ip = 0x7f000001, CHR ''R''))"

section \<open>Replies\<close>

text \<open>
  The buffer of a reply: its size, the text in it, how much of the text was put there by
  \<open>io_add\<close>, and whether the list that a reply in JSON opened has still to be closed.
\<close>

record io =
  io_siz :: nat
  io_text :: string
  io_cur :: nat
  io_closed :: bool

definition io_reinit :: "io \<Rightarrow> io" where
  "io_reinit b = b\<lparr>io_cur := 0, io_text := [], io_closed := False\<rparr>"

definition sock_io_new :: io where
  "sock_io_new = io_reinit \<lparr>io_siz = 65536, io_text = [], io_cur = 0, io_closed = False\<rparr>"

text \<open>The conversion to \<open>float\<close>: to 24 bits, to the nearest, to even in the middle.\<close>

fun bit_length :: "nat \<Rightarrow> nat" where
  "bit_length n = (if n = 0 then 0 else Suc (bit_length (n div 2)))"

definition float_of_size :: "nat \<Rightarrow> nat" where
  "float_of_size n =
     (let u = 2 ^ (bit_length n - 24); q = n div u; r = n mod u
      in if 2 * r > u \<or> 2 * r = u \<and> odd q then (q + 1) * u else q * u)"

definition io_add :: "string \<Rightarrow> io \<Rightarrow> io" where
  "io_add s b =
     (let tot = length s + 1 + io_cur b + 2 + 9;
          b = (if tot > io_siz b then
                 let n = io_siz b + 2 * 65536
                 in b\<lparr>io_siz := if n < tot then (2 + float_of_size tot div 65536) * 65536 else n\<rparr>
               else b)
      in b\<lparr>io_text := take (io_cur b) (io_text b) @ s, io_cur := io_cur b + length s\<rparr>)"

definition io_adds :: "string list \<Rightarrow> io \<Rightarrow> io" where
  "io_adds ts b = foldl (\<lambda>b t. io_add t b) b ts"

definition json_end :: string where
  "json_end = '',\"id\":1}''"

text \<open>What is given to \<open>send\<close>, without its NUL.\<close>

definition send_result :: "bool \<Rightarrow> io \<Rightarrow> (string \<times> io) option" where
  "send_result isjson b =
     (let t = io_text b;
          t = (if io_closed b then t @ '']'' else t);
          t = (if isjson then t @ json_end else t)
      in if length t + 1 > io_siz b then None else Some (t, b\<lparr>io_text := t\<rparr>))"

definition escape_string :: "string \<Rightarrow> bool \<Rightarrow> string" where
  "escape_string str isjson =
     concat (map (\<lambda>c. if (if isjson then c = CHR 0x22 else c \<in> {CHR '','', CHR ''|'', CHR ''=''}) \<or> c = CHR 0x5C
                      then [CHR 0x5C, c] else [c]) str)"

definition head_join :: "string \<Rightarrow> bool \<Rightarrow> bool \<Rightarrow> io \<Rightarrow> io" where
  "head_join cmd isjson firstjoin b =
     (let b = (if isjson then io_add (if firstjoin then ''{'' else '','') b else b);
          ptr = escape_string cmd isjson
      in if isjson then io_adds [''\"'', ptr, ''\":[''] b
         else io_adds [''CMD='', ptr, ''|''] b)"

definition tail_join :: "bool \<Rightarrow> io \<Rightarrow> io" where
  "tail_join isjson b =
     (let b = (if io_closed b then (io_add '']'' b)\<lparr>io_closed := False\<rparr> else b)
      in if isjson then io_adds [json_end, '']''] b else b)"

section \<open>Requests\<close>

datatype api_reply = INVJSON | MISCMD | INVCMD | ACCDENY string

text \<open>
  The texts \<open>message\<close> adds for a reply, and the functions of the commands: the texts a command
  adds to the reply, whether it calls \<open>io_close\<close>, and what it does to the rest of the miner.
  \<open>loads\<close> is the parser of the bundled library, \<open>real_text\<close> the text of a double.
\<close>

record 'w api_env =
  message :: "api_reply \<Rightarrow> bool \<Rightarrow> string list"
  func :: "string \<Rightarrow> string option \<Rightarrow> bool \<Rightarrow> char \<Rightarrow> 'w \<Rightarrow> string list \<times> bool \<times> 'w"
  loads :: "string \<Rightarrow> json option"
  real_text :: "dbl \<Rightarrow> string"

record 'w server =
  sv_io :: io
  sv_isjoin :: bool
  sv_miner :: 'w
  sv_sent :: "string list"
  sv_calls :: "(string \<times> string option \<times> char) list"

datatype parsed = Bad api_reply | Command string "string option"

definition json_command :: "'w api_env \<Rightarrow> json option \<Rightarrow> parsed" where
  "json_command env j =
     (case j of
        Some (JObject kvs) \<Rightarrow>
          (case json_object_get j ''command'' of
             None \<Rightarrow> Bad MISCMD
           | Some (JString s) \<Rightarrow>
               Command (text_of s)
                 (case json_object_get j ''parameter'' of
                    Some (JString p) \<Rightarrow> Some (text_of p)
                  | Some (JInteger i) \<Rightarrow> Some (int_text (sint (word_of_int i :: u32)))
                  | Some (JReal d) \<Rightarrow> Some (real_text env d)
                  | _ \<Rightarrow> None)
           | _ \<Rightarrow> Bad INVCMD)
      | _ \<Rightarrow> Bad INVJSON)"

text \<open>The text received ends with its first NUL; the parser gets all bytes.\<close>

definition parse_request :: "'w api_env \<Rightarrow> string \<Rightarrow> bool \<times> parsed" where
  "parse_request env raw =
     (let buf = takeWhile (\<lambda>c. c \<noteq> CHR 0x00) raw
      in if take 1 buf \<noteq> ''{'' then
           (False, case strchr buf CHR ''|'' of
                     None \<Rightarrow> Command buf None
                   | Some i \<Rightarrow> Command (take i buf) (Some (drop (i + 1) buf)))
         else (True, json_command env (loads env raw)))"

definition on_io :: "(io \<Rightarrow> io) \<Rightarrow> 'w server \<Rightarrow> 'w server" where
  "on_io f s = s\<lparr>sv_io := f (sv_io s)\<rparr>"

definition send_reply :: "bool \<Rightarrow> 'w server \<Rightarrow> 'w server option" where
  "send_reply isjson s =
     map_option (\<lambda>(t, b). s\<lparr>sv_io := b, sv_sent := sv_sent s @ [t]\<rparr>) (send_result isjson (sv_io s))"

definition run_func :: "'w api_env \<Rightarrow> string \<Rightarrow> string option \<Rightarrow> bool \<Rightarrow> char \<Rightarrow> 'w server \<Rightarrow> 'w server" where
  "run_func env name param isjson grp s =
     (case func env name param isjson grp (sv_miner s) of
        (ts, close, w) \<Rightarrow>
          on_io (\<lambda>b. let b = io_adds ts b in if close then b\<lparr>io_closed := True\<rparr> else b)
            (s\<lparr>sv_miner := w, sv_calls := sv_calls s @ [(name, param, grp)]\<rparr>))"

definition run_permitted :: "'w api_env \<Rightarrow> api_groups \<Rightarrow> string \<Rightarrow> string option \<Rightarrow> bool \<Rightarrow> char \<Rightarrow> 'w server \<Rightarrow> 'w server" where
  "run_permitted env gs name param isjson grp s =
     (if may_run gs grp name then run_func env name param isjson grp s
      else on_io (io_adds (message env (ACCDENY name) isjson)) s)"

definition run_single :: "'w api_env \<Rightarrow> api_groups \<Rightarrow> string \<Rightarrow> string option \<Rightarrow> bool \<Rightarrow> char \<Rightarrow> 'w server \<Rightarrow> 'w server option" where
  "run_single env gs cmd param isjson grp s =
     send_reply isjson
       (case find_command cmd of
          Some c \<Rightarrow> run_permitted env gs cmd param isjson grp s
        | None \<Rightarrow> on_io (io_adds (message env INVCMD isjson)) s)"

text \<open>One command of a joined request; the commands seen so far are the text \<open>cmdsbuf\<close>.\<close>

definition join_step ::
  "'w api_env \<Rightarrow> api_groups \<Rightarrow> bool \<Rightarrow> char \<Rightarrow> string \<times> bool \<times> 'w server \<Rightarrow> string \<Rightarrow> string \<times> bool \<times> 'w server" where
  "join_step env gs isjson grp st cmd =
     (case st of (cmdsbuf, firstjoin, s) \<Rightarrow>
        if cmd = [] then st
        else case find_command cmd of
          Some c \<Rightarrow>
            if strstr cmdsbuf (quoted cmd) \<noteq> None then st
            else
              let s = on_io (head_join cmd isjson firstjoin) s;
                  s = (if \<not> cm_joinable c then on_io (io_adds (message env (ACCDENY (cm_name c)) isjson)) s
                       else run_permitted env gs cmd None isjson grp s)
              in (cmdsbuf @ cmd @ ''|'', False, on_io (tail_join isjson) s)
        | None \<Rightarrow>
            (cmdsbuf, False,
             on_io (tail_join isjson) (on_io (io_adds (message env INVCMD isjson))
               (on_io (head_join cmd isjson firstjoin) s))))"

definition run_joined :: "'w api_env \<Rightarrow> api_groups \<Rightarrow> string \<Rightarrow> bool \<Rightarrow> char \<Rightarrow> 'w server \<Rightarrow> 'w server" where
  "run_joined env gs cmd isjson grp s =
     snd (snd (foldl (join_step env gs isjson grp) (''|'', True, s) (split_on CHR ''+'' cmd)))"

definition serve_request :: "'w api_env \<Rightarrow> api_groups \<Rightarrow> char \<Rightarrow> string \<Rightarrow> 'w server \<Rightarrow> 'w server option" where
  "serve_request env gs grp raw s =
     (let s = on_io io_reinit s;
          (isjson, req) = parse_request env raw
      in case (case req of
                 Bad m \<Rightarrow> send_reply isjson (on_io (io_adds (message env m isjson)) s)
               | Command cmd param \<Rightarrow>
                   if strchr cmd CHR ''+'' \<noteq> None
                   then Some (run_joined env gs cmd isjson grp (s\<lparr>sv_isjoin := True\<rparr>))
                   else run_single env gs cmd param isjson grp (s\<lparr>sv_isjoin := False\<rparr>)) of
           None \<Rightarrow> None
         | Some s \<Rightarrow> if sv_isjoin s then send_reply isjson s else Some s)"

text \<open>One connection: the client's address, and what it sent, \<open>None\<close> when receiving failed.\<close>

definition serve_client ::
  "'w api_env \<Rightarrow> api_groups \<Rightarrow> ip4access list option \<Rightarrow> bool \<Rightarrow> u32 \<Rightarrow> string option \<Rightarrow> 'w server \<Rightarrow> 'w server option" where
  "serve_client env gs ipaccess opt_api_network client_ip received s =
     (case check_connect ipaccess opt_api_network client_ip of
        (addrok, grp) \<Rightarrow>
          (case received of
             Some raw \<Rightarrow> if addrok then serve_request env gs grp raw s else Some s
           | None \<Rightarrow> Some s))"

section \<open>Names between bars\<close>

definition names_text :: "string list \<Rightarrow> string" where
  "names_text ns = ''|'' @ concat (map (\<lambda>n. n @ ''|'') ns)"

definition plain_name :: "string \<Rightarrow> bool" where
  "plain_name n \<longleftrightarrow> CHR ''|'' \<notin> set n"

lemma strstr_substring: "x \<noteq> [] \<Longrightarrow> strstr s x \<noteq> None \<longleftrightarrow> (\<exists>p q. s = p @ x @ q)"
proof (induction s)
  case (Cons c s)
  show ?case
  proof (cases "take (length x) (c # s) = x")
    case True
    then have "c # s = [] @ x @ drop (length x) (c # s)" by (metis append_Nil append_take_drop_id)
    then show ?thesis using True by (auto simp del: append_Nil)
  next
    case False
    have "(\<exists>p q. c # s = p @ x @ q) \<longleftrightarrow> (\<exists>p q. s = p @ x @ q)"
    proof
      assume "\<exists>p q. c # s = p @ x @ q"
      then obtain p q where e: "c # s = p @ x @ q" by blast
      then have "p \<noteq> []" using False by (metis append_Nil append_eq_conv_conj)
      then show "\<exists>p q. s = p @ x @ q" using e by (cases p) auto
    next
      assume "\<exists>p q. s = p @ x @ q"
      then obtain p q where "s = p @ x @ q" by blast
      then have "c # s = (c # p) @ x @ q" by simp
      then show "\<exists>p q. c # s = p @ x @ q" by blast
    qed
    then show ?thesis using Cons False by simp
  qed
qed simp

lemma bar_splits:
  assumes "x \<notin> set a" and "a @ x # u = p @ x # v"
  shows "p = a \<and> v = u \<or> (\<exists>p'. p = a @ x # p' \<and> u = p' @ x # v)"
  using assms
proof (induction a arbitrary: p)
  case Nil
  then show ?case by (cases p) auto
next
  case (Cons c a)
  then show ?case by (cases p) auto
qed

lemma quoted_in_names:
  assumes "plain_name n" and "\<forall>m\<in>set ns. plain_name m"
  shows "(\<exists>p q. names_text ns = p @ quoted n @ q) \<longleftrightarrow> n \<in> set ns"
  using assms(2)
proof (induction ns)
  case Nil
  have "names_text [] \<noteq> p @ quoted n @ q" for p q
    by (rule notI, drule arg_cong [of _ _ length]) (simp add: names_text_def quoted_def)
  then show ?case by simp
next
  case (Cons m ns)
  have t: "names_text (m # ns) = CHR ''|'' # m @ names_text ns" by (simp add: names_text_def)
  have r: "names_text ns = CHR ''|'' # concat (map (\<lambda>n. n @ ''|'') ns)" by (simp add: names_text_def)
  have m: "CHR ''|'' \<notin> set m" and n: "CHR ''|'' \<notin> set n" using Cons.prems assms(1) by (simp_all add: plain_name_def)
  show ?case
  proof
    assume "\<exists>p q. names_text (m # ns) = p @ quoted n @ q"
    then obtain p q where e: "CHR ''|'' # m @ names_text ns = p @ CHR ''|'' # n @ CHR ''|'' # q"
      by (auto simp: t quoted_def)
    show "n \<in> set (m # ns)"
    proof (cases p)
      case Nil
      then have "m @ CHR ''|'' # concat (map (\<lambda>n. n @ ''|'') ns) = n @ CHR ''|'' # q" using e r by simp
      from bar_splits [OF m this] n show ?thesis by auto
    next
      case (Cons c p')
      then have "m @ CHR ''|'' # concat (map (\<lambda>n. n @ ''|'') ns) = p' @ CHR ''|'' # n @ CHR ''|'' # q" using e Cons r by auto
      from bar_splits [OF m this] consider (here) "n @ CHR ''|'' # q = concat (map (\<lambda>n. n @ ''|'') ns)"
        | (later) p'' where "concat (map (\<lambda>n. n @ ''|'') ns) = p'' @ CHR ''|'' # n @ CHR ''|'' # q" by auto
      then have "\<exists>p q. names_text ns = p @ quoted n @ q"
      proof cases
        case here
        then have "names_text ns = [] @ quoted n @ q" by (simp add: r quoted_def)
        then show ?thesis by blast
      next
        case later
        then have "names_text ns = (CHR ''|'' # p'') @ quoted n @ q" by (simp add: r quoted_def)
        then show ?thesis by blast
      qed
      then show ?thesis using Cons.IH Cons.prems by simp
    qed
  next
    assume "n \<in> set (m # ns)"
    then consider "n = m" | "n \<in> set ns" by auto
    then show "\<exists>p q. names_text (m # ns) = p @ quoted n @ q"
    proof cases
      case 1
      then have "names_text (m # ns) = [] @ quoted n @ concat (map (\<lambda>n. n @ ''|'') ns)" by (simp add: t r quoted_def)
      then show ?thesis by blast
    next
      case 2
      then obtain p q where "names_text ns = p @ quoted n @ q" using Cons by auto
      then have "names_text (m # ns) = (CHR ''|'' # m @ p) @ quoted n @ q" by (simp add: t)
      then show ?thesis by blast
    qed
  qed
qed

lemma names_search:
  assumes "plain_name n" and "\<forall>m\<in>set ns. plain_name m"
  shows "strstr (names_text ns) (quoted n) \<noteq> None \<longleftrightarrow> n \<in> set ns"
  using strstr_substring [of "quoted n" "names_text ns"] quoted_in_names [OF assms] by (simp add: quoted_def)

lemma names_add:
  assumes "plain_name n" and "\<forall>m\<in>set ns. plain_name m"
  shows "add_command n (names_text ns) = names_text (if n \<in> set ns then ns else ns @ [n])"
  using names_search [OF assms] by (simp add: add_command_def) (simp add: names_text_def)

lemma cmds_plain: "c \<in> set cmds \<Longrightarrow> plain_name (cm_name c) \<and> cm_name c \<noteq> [] \<and> map tolower (cm_name c) = cm_name c"
proof -
  have "\<forall>c\<in>set cmds. plain_name (cm_name c) \<and> cm_name c \<noteq> [] \<and> map tolower (cm_name c) = cm_name c"
    by (simp add: cmds_def plain_name_def tolower_def)
  then show "c \<in> set cmds \<Longrightarrow> ?thesis" by blast
qed

lemma cmds_distinct: "distinct (map cm_name cmds)"
  by (simp add: cmds_def)

lemma find_by_name: "distinct (map f xs) \<Longrightarrow> find (\<lambda>x. f x = n) xs = Some c \<longleftrightarrow> c \<in> set xs \<and> f c = n"
  by (induction xs) auto

lemma find_command_iff: "find_command n = Some c \<longleftrightarrow> c \<in> set cmds \<and> cm_name c = n"
  unfolding find_command_def by (rule find_by_name [OF cmds_distinct])

lemma find_command_case: "find (\<lambda>c. strcasecmp_eq p (cm_name c)) cmds = Some c \<longleftrightarrow> c \<in> set cmds \<and> cm_name c = map tolower p"
proof -
  have "find (\<lambda>c. strcasecmp_eq p (cm_name c)) cmds = find (\<lambda>c. cm_name c = map tolower p) cmds"
    by (rule find_cong) (use cmds_plain in \<open>auto simp: strcasecmp_eq_def\<close>)
  then show ?thesis using find_by_name [OF cmds_distinct] by simp
qed

section \<open>What a group allows\<close>

definition readable :: "string \<Rightarrow> bool" where
  "readable n \<longleftrightarrow> (\<exists>c\<in>set cmds. cm_name c = n \<and> \<not> cm_write c)"

definition listed :: "string list \<Rightarrow> string \<Rightarrow> bool" where
  "listed ps n \<longleftrightarrow> (\<exists>p\<in>set ps. p \<noteq> ''*'' \<and> map tolower p = n) \<or> ''*'' \<in> set ps \<and> readable n"

definition group_lists :: "string \<Rightarrow> string \<Rightarrow> bool" where
  "group_lists rest n \<longleftrightarrow> listed (takeWhile (\<lambda>p. p \<noteq> []) (split_on CHR '':'' rest)) n"

definition grants :: "string list \<Rightarrow> char \<Rightarrow> string \<Rightarrow> bool" where
  "grants ts g n \<longleftrightarrow> (\<exists>a rest. a # CHR '':'' # rest \<in> set ts \<and> toupper a = g \<and> group_lists rest n)"

lemma group_commands_names:
  assumes "group_commands ps (names_text ns) s = Some (t, s')" and "\<forall>m\<in>set ns. plain_name m"
  shows "\<exists>ms. t = names_text ms \<and> (\<forall>m\<in>set ms. plain_name m) \<and>
    set ms = set ns \<union> {map tolower p |p. p \<in> set (takeWhile (\<lambda>p. p \<noteq> []) ps) \<and> p \<noteq> ''*''} \<and>
    (s' \<longleftrightarrow> s \<or> ''*'' \<in> set (takeWhile (\<lambda>p. p \<noteq> []) ps))"
  using assms
proof (induction ps arbitrary: ns s)
  case (Cons p ps)
  consider (none) "p = []" | (star) "p = ''*''" | (name) "p \<noteq> []" "p \<noteq> ''*''" by blast
  then show ?case
  proof cases
    case none
    then show ?thesis using Cons.prems by auto
  next
    case star
    then have "group_commands ps (names_text ns) True = Some (t, s')" using Cons.prems(1) by simp
    then obtain ms where "t = names_text ms" "\<forall>m\<in>set ms. plain_name m" "s'"
      "set ms = set ns \<union> {map tolower p |p. p \<in> set (takeWhile (\<lambda>p. p \<noteq> []) ps) \<and> p \<noteq> ''*''}"
      using Cons.IH [OF _ Cons.prems(2)] by blast
    then show ?thesis using star by (intro exI [of _ ms]) auto
  next
    case name
    then obtain c where c: "find (\<lambda>c. strcasecmp_eq p (cm_name c)) cmds = Some c"
      and g: "group_commands ps (add_command (cm_name c) (names_text ns)) s = Some (t, s')"
      using Cons.prems(1) by (auto split: option.splits)
    have m: "cm_name c = map tolower p" and pl: "plain_name (map tolower p)"
      using c cmds_plain [of c] by (auto simp: find_command_case)
    let ?ns = "if map tolower p \<in> set ns then ns else ns @ [map tolower p]"
    have "add_command (cm_name c) (names_text ns) = names_text ?ns" using names_add [OF pl Cons.prems(2)] m by simp
    then have "group_commands ps (names_text ?ns) s = Some (t, s')" using g by simp
    moreover have "\<forall>m\<in>set ?ns. plain_name m" using Cons.prems(2) pl by simp
    ultimately obtain ms where ms: "t = names_text ms" "\<forall>m\<in>set ms. plain_name m"
      "set ms = set ?ns \<union> {map tolower p |p. p \<in> set (takeWhile (\<lambda>p. p \<noteq> []) ps) \<and> p \<noteq> ''*''}"
      "s' \<longleftrightarrow> s \<or> ''*'' \<in> set (takeWhile (\<lambda>p. p \<noteq> []) ps)" using Cons.IH by blast
    have "set ms = set ns \<union> {map tolower p' |p'. p' \<in> set (takeWhile (\<lambda>p. p \<noteq> []) (p # ps)) \<and> p' \<noteq> ''*''}"
      using ms(3) name by auto
    then show ?thesis using ms name by auto
  qed
qed auto

lemma add_readable_names:
  assumes "\<forall>m\<in>set ns. plain_name m"
  shows "\<exists>ms. add_readable (names_text ns) = names_text ms \<and> (\<forall>m\<in>set ms. plain_name m) \<and> set ms = set ns \<union> Collect readable"
proof -
  have "\<exists>ms. foldl (\<lambda>t c. if cm_write c then t else add_command (cm_name c) t) (names_text ns) cs = names_text ms \<and>
    (\<forall>m\<in>set ms. plain_name m) \<and> set ms = set ns \<union> {cm_name c |c. c \<in> set cs \<and> \<not> cm_write c}"
    if "\<forall>c\<in>set cs. plain_name (cm_name c)" for cs
    using assms that
  proof (induction cs arbitrary: ns)
    case (Cons c cs)
    let ?ns = "if cm_write c \<or> cm_name c \<in> set ns then ns else ns @ [cm_name c]"
    have e: "(if cm_write c then names_text ns else add_command (cm_name c) (names_text ns)) = names_text ?ns"
      using names_add [of "cm_name c" ns] Cons.prems by auto
    have "\<forall>m\<in>set ?ns. plain_name m" "\<forall>c\<in>set cs. plain_name (cm_name c)" using Cons.prems by auto
    then obtain ms where ms: "foldl (\<lambda>t c. if cm_write c then t else add_command (cm_name c) t) (names_text ?ns) cs = names_text ms"
      "\<forall>m\<in>set ms. plain_name m" "set ms = set ?ns \<union> {cm_name c |c. c \<in> set cs \<and> \<not> cm_write c}"
      using Cons.IH by blast
    have "set ms = set ns \<union> {cm_name c' |c'. c' \<in> set (c # cs) \<and> \<not> cm_write c'}" using ms(3) by auto
    then show ?case using ms(1,2) e by auto
  qed auto
  from this [of cmds] cmds_plain have "\<exists>ms. add_readable (names_text ns) = names_text ms \<and> (\<forall>m\<in>set ms. plain_name m) \<and>
    set ms = set ns \<union> {cm_name c |c. c \<in> set cmds \<and> \<not> cm_write c}" by (simp add: add_readable_def)
  moreover have "{cm_name c |c. c \<in> set cmds \<and> \<not> cm_write c} = Collect readable" by (auto simp: readable_def)
  ultimately show ?thesis by simp
qed

lemma readable_commands_names: "\<exists>ms. readable_commands = names_text ms \<and> (\<forall>m\<in>set ms. plain_name m) \<and> set ms = Collect readable"
proof (intro exI conjI)
  show "readable_commands = names_text (map cm_name (filter (\<lambda>c. \<not> cm_write c) cmds))"
  proof -
    have "concat (map (\<lambda>c. if cm_write c then [] else cm_name c @ ''|'') cs) =
        concat (map (\<lambda>n. n @ ''|'') (map cm_name (filter (\<lambda>c. \<not> cm_write c) cs)))" for cs
      by (induction cs) auto
    then show ?thesis by (simp add: readable_commands_def names_text_def)
  qed
qed (use cmds_plain in \<open>auto simp: readable_def\<close>)

lemma setup_group_grants:
  assumes "setup_group token gs = Some gs'"
  obtains a rest ms where "token = a # CHR '':'' # rest" and "gs' = gs(toupper a \<mapsto> names_text ms)" and "gs (toupper a) = None"
    and "toupper a \<noteq> CHR ''W''" and "toupper a \<noteq> CHR ''R''" and "\<forall>m\<in>set ms. plain_name m" and "\<forall>n. n \<in> set ms \<longleftrightarrow> group_lists rest n"
proof -
  obtain a rest t s where tok: "token = a # CHR '':'' # rest" and free: "gs (toupper a) = None"
    and n: "\<not> is_priv_group a" "toupper a \<noteq> CHR ''R''"
    and g: "group_commands (split_on CHR '':'' rest) ''|'' False = Some (t, s)"
    and gs': "gs' = gs(toupper a \<mapsto> (if s then add_readable t else t))"
    using assms by (auto simp: setup_group_def split: list.splits if_splits option.splits)
  let ?ps = "takeWhile (\<lambda>p. p \<noteq> []) (split_on CHR '':'' rest)"
  have "group_commands (split_on CHR '':'' rest) (names_text []) False = Some (t, s)" using g by (simp add: names_text_def)
  from group_commands_names [OF this] obtain ns where ns: "t = names_text ns" "\<forall>m\<in>set ns. plain_name m"
    "set ns = {map tolower p |p. p \<in> set ?ps \<and> p \<noteq> ''*''}" "s \<longleftrightarrow> ''*'' \<in> set ?ps" by auto
  obtain ms where ms: "(if s then add_readable t else t) = names_text ms" "\<forall>m\<in>set ms. plain_name m"
    "set ms = set ns \<union> (if s then Collect readable else {})"
    using add_readable_names [OF ns(2)] ns(1,2) by (cases s) auto
  have "\<forall>n. n \<in> set ms \<longleftrightarrow> group_lists rest n" using ms(3) ns(3,4) by (auto simp: group_lists_def listed_def)
  then show ?thesis using that [of a rest ms] tok free n gs' ms by (auto simp: is_priv_group_def)
qed

lemma grants_Cons:
  "grants (t # ts) g n \<longleftrightarrow> (\<exists>a rest. t = a # CHR '':'' # rest \<and> toupper a = g \<and> group_lists rest n) \<or> grants ts g n"
  by (auto simp: grants_def)

lemma grants_Cons_group:
  "grants ((a # CHR '':'' # rest) # ts) g n \<longleftrightarrow> toupper a = g \<and> group_lists rest n \<or> grants ts g n"
  by (auto simp: grants_Cons)

definition reserved :: "char \<Rightarrow> bool" where
  "reserved g \<longleftrightarrow> g = CHR ''W'' \<or> g = CHR ''R''"

lemma setup_tokens_grants:
  assumes "setup_tokens ts gs = Some gs'"
  shows "(case gs g of
      Some t \<Rightarrow> gs' g = Some t \<and> (\<forall>n. \<not> grants ts g n)
    | None \<Rightarrow> gs' g = None \<and> (\<forall>n. \<not> grants ts g n) \<or>
        \<not> reserved g \<and> (\<exists>ms. gs' g = Some (names_text ms) \<and> (\<forall>m\<in>set ms. plain_name m) \<and> (\<forall>n. n \<in> set ms \<longleftrightarrow> grants ts g n)))"
  using assms
proof (induction ts gs rule: setup_tokens.induct)
  case (1 gs)
  then show ?case by (auto simp: grants_def split: option.splits)
next
  case (2 t gs)
  show ?case
  proof (cases "t = []")
    case True
    then show ?thesis using 2 by (auto simp: grants_def split: option.splits)
  next
    case False
    then have "setup_group t gs = Some gs'" using 2 by simp
    then obtain a rest ms where o: "t = a # CHR '':'' # rest" "gs' = gs(toupper a \<mapsto> names_text ms)" "gs (toupper a) = None"
      "toupper a \<noteq> CHR ''W''" "toupper a \<noteq> CHR ''R''" "\<forall>m\<in>set ms. plain_name m" "\<forall>n. n \<in> set ms \<longleftrightarrow> group_lists rest n"
      by (rule setup_group_grants)
    have "grants [] g n = False" for n by (simp add: grants_def)
    then show ?thesis using o by (auto simp: grants_Cons_group reserved_def split: option.splits)
  qed
next
  case (3 t u ts gs)
  then obtain gs1 where s: "setup_group t gs = Some gs1" and r: "setup_tokens (u # ts) gs1 = Some gs'" by (auto split: option.splits)
  obtain a rest ms where o: "t = a # CHR '':'' # rest" "gs1 = gs(toupper a \<mapsto> names_text ms)" "gs (toupper a) = None"
    "toupper a \<noteq> CHR ''W''" "toupper a \<noteq> CHR ''R''" "\<forall>m\<in>set ms. plain_name m" "\<forall>n. n \<in> set ms \<longleftrightarrow> group_lists rest n"
    using s by (rule setup_group_grants)
  note ih = "3.IH" [OF s r]
  show ?case
  proof (cases "g = toupper a")
    case True
    then have "gs' g = Some (names_text ms)" "\<forall>n. \<not> grants (u # ts) g n" using ih o(2) by simp_all
    then show ?thesis using True o by (auto simp: grants_Cons_group reserved_def)
  next
    case False
    then have "gs1 g = gs g" "grants (t # u # ts) g n = grants (u # ts) g n" for n
      using o by (auto simp: grants_Cons_group)
    then show ?thesis using ih by (auto split: option.splits)
  qed
qed

lemma may_run_iff:
  assumes "setup_groups og = Some gs" and "c \<in> set cmds"
  shows "may_run gs g (cm_name c) \<longleftrightarrow> is_priv_group g \<or> toupper g = CHR ''R'' \<and> readable (cm_name c) \<or>
    grants (split_on CHR '','' (case og of None \<Rightarrow> [] | Some s \<Rightarrow> s)) (toupper g) (cm_name c)"
proof -
  let ?ts = "split_on CHR '','' (case og of None \<Rightarrow> [] | Some s \<Rightarrow> s)" and ?n = "cm_name c"
  have pl: "plain_name ?n" using cmds_plain assms(2) by blast
  obtain gs0 where s: "setup_tokens ?ts Map.empty = Some gs0" and gs: "gs = gs0(CHR ''R'' \<mapsto> readable_commands)"
    using assms(1) by (auto simp: setup_groups_def)
  have r: "gs0 x = None \<and> (\<forall>n. \<not> grants ?ts x n) \<or> \<not> reserved x \<and> (\<exists>ms. gs0 x = Some (names_text ms) \<and>
      (\<forall>m\<in>set ms. plain_name m) \<and> (\<forall>n. n \<in> set ms \<longleftrightarrow> grants ?ts x n))" for x
    using setup_tokens_grants [OF s, of x] by simp
  show ?thesis
  proof (cases "toupper g = CHR ''R''")
    case True
    obtain ms where ms: "readable_commands = names_text ms" "\<forall>m\<in>set ms. plain_name m" "set ms = Collect readable"
      using readable_commands_names by blast
    have "\<not> grants ?ts (CHR ''R'') ?n" using r [of "CHR ''R''"] by (auto simp: reserved_def)
    moreover have "strstr readable_commands (quoted ?n) \<noteq> None \<longleftrightarrow> readable ?n" using names_search [OF pl ms(2)] ms by simp
    ultimately show ?thesis using True by (simp add: may_run_def gs)
  next
    case False
    from r [of "toupper g"] show ?thesis
    proof (elim disjE conjE exE)
      fix ms assume a: "gs0 (toupper g) = Some (names_text ms)" "\<forall>m\<in>set ms. plain_name m" "\<forall>n. n \<in> set ms \<longleftrightarrow> grants ?ts (toupper g) n"
      then show ?thesis using False names_search [OF pl a(2)] by (simp add: may_run_def gs)
    qed (use False in \<open>simp add: may_run_def gs\<close>)
  qed
qed

section \<open>What a request may do\<close>

text \<open>What a step of a server adds to its calls, and that it leaves the miner alone without a call.\<close>

definition allowed_call :: "api_groups \<Rightarrow> char \<Rightarrow> string \<times> string option \<times> char \<Rightarrow> bool" where
  "allowed_call gs g call \<longleftrightarrow> (case call of (n, p, g') \<Rightarrow> g' = g \<and> n \<in> cm_name ` set cmds \<and> may_run gs g n)"

definition advances :: "api_groups \<Rightarrow> char \<Rightarrow> 'w server \<Rightarrow> 'w server \<Rightarrow> bool" where
  "advances gs g s s' \<longleftrightarrow> (\<exists>new. sv_calls s' = sv_calls s @ new \<and> (\<forall>call\<in>set new. allowed_call gs g call) \<and>
     (new = [] \<longrightarrow> sv_miner s' = sv_miner s))"

lemma advances_refl: "advances gs g s s"
  by (simp add: advances_def)

lemma advances_trans: "advances gs g s t \<Longrightarrow> advances gs g t u \<Longrightarrow> advances gs g s u"
  unfolding advances_def by (elim exE conjE) (rule exI [of _ "_ @ _"], auto)

lemma advances_same: "sv_calls s' = sv_calls s \<Longrightarrow> sv_miner s' = sv_miner s \<Longrightarrow> advances gs g s s'"
  by (simp add: advances_def)

lemma advances_on_io: "advances gs g s t \<Longrightarrow> advances gs g s (on_io f t)"
  by (simp add: advances_def on_io_def)

lemma advances_from_io: "advances gs g (on_io f s) t = advances gs g s t"
  by (simp add: advances_def on_io_def)

lemma advances_permitted:
  assumes "n \<in> cm_name ` set cmds"
  shows "advances gs g s (run_permitted env gs n p isjson g s)"
proof (cases "func env n p isjson g (sv_miner s)")
  case (fields ts close w)
  then show ?thesis using assms
    by (auto simp: run_permitted_def run_func_def advances_def on_io_def allowed_call_def)
qed

lemma advances_join: "advances gs g s (snd (snd (join_step env gs isjson g (seen, first, s) cmd)))"
proof (cases "find_command cmd")
  case None
  then show ?thesis by (simp add: join_step_def advances_on_io advances_refl)
next
  case (Some c)
  then have n: "cmd \<in> cm_name ` set cmds" by (auto simp: find_command_iff)
  have "advances gs g s (run_permitted env gs cmd None isjson g (on_io (head_join cmd isjson first) s))"
    using advances_permitted [OF n] by (metis advances_from_io)
  then show ?thesis using Some by (simp add: join_step_def Let_def advances_on_io advances_refl)
qed

lemma advances_joined: "advances gs g s (run_joined env gs cmd isjson g s)"
proof -
  have "advances gs g s (snd (snd st)) \<Longrightarrow> advances gs g s (snd (snd (foldl (join_step env gs isjson g) st ps)))" for st ps
  proof (induction ps arbitrary: st)
    case (Cons p ps)
    have "advances gs g (snd (snd st)) (snd (snd (join_step env gs isjson g st p)))"
      using advances_join [of gs g "snd (snd st)" env isjson "fst st" "fst (snd st)" p] by simp
    then show ?case using Cons by (simp add: advances_trans)
  qed simp
  then show ?thesis unfolding run_joined_def by (simp add: advances_refl)
qed

lemma advances_single:
  assumes "run_single env gs cmd p isjson g s = Some s'"
  shows "advances gs g s s'"
proof -
  have send: "send_reply isjson t = Some t' \<Longrightarrow> advances gs g s t \<Longrightarrow> advances gs g s t'" for t t'
    by (auto simp: send_reply_def advances_def)
  have "advances gs g s (case find_command cmd of Some c \<Rightarrow> run_permitted env gs cmd p isjson g s
      | None \<Rightarrow> on_io (io_adds (message env INVCMD isjson)) s)"
    using advances_permitted [of cmd gs g s env p isjson]
    by (auto simp: find_command_iff advances_on_io advances_refl split: option.split)
  then show ?thesis using assms send by (auto simp: run_single_def)
qed

lemma advances_isjoin: "advances gs g (s\<lparr>sv_isjoin := b\<rparr>) t = advances gs g s t"
  by (simp add: advances_def)

lemma advances_send: "send_reply isjson s = Some s' \<Longrightarrow> advances gs g s s'"
  by (auto simp: send_reply_def advances_def)

lemma advances_request:
  assumes "serve_request env gs g raw s = Some s'"
  shows "advances gs g s s'"
proof -
  obtain isjson req where q: "parse_request env raw = (isjson, req)" by fastforce
  let ?s = "on_io io_reinit s"
  obtain t where t: "(case req of
      Bad m \<Rightarrow> send_reply isjson (on_io (io_adds (message env m isjson)) ?s)
    | Command cmd param \<Rightarrow>
        if strchr cmd CHR ''+'' \<noteq> None then Some (run_joined env gs cmd isjson g (?s\<lparr>sv_isjoin := True\<rparr>))
        else run_single env gs cmd param isjson g (?s\<lparr>sv_isjoin := False\<rparr>)) = Some t"
    and s': "(if sv_isjoin t then send_reply isjson t else Some t) = Some s'"
    using assms q by (auto simp: serve_request_def Let_def split: option.splits)
  have "advances gs g ?s t"
  proof (cases req)
    case (Bad m)
    then show ?thesis using t by (auto dest: advances_send simp: advances_from_io)
  next
    case (Command cmd param)
    show ?thesis
    proof (cases "strchr cmd CHR ''+'' = None")
      case True
      then show ?thesis using t Command by (auto dest!: advances_single simp: advances_isjoin)
    next
      case False
      then show ?thesis using t Command advances_joined [of gs g "?s\<lparr>sv_isjoin := True\<rparr>" env cmd isjson]
        by (auto simp: advances_isjoin)
    qed
  qed
  moreover have "advances gs g t s'" using s' by (auto simp: advances_refl dest: advances_send split: if_splits)
  ultimately show ?thesis using advances_trans by (fastforce simp: advances_from_io)
qed

lemma no_reserved_grants:
  assumes "setup_groups og = Some gs" and "reserved g"
  shows "\<not> grants (split_on CHR '','' (case og of None \<Rightarrow> [] | Some s \<Rightarrow> s)) g n"
proof -
  obtain gs0 where s: "setup_tokens (split_on CHR '','' (case og of None \<Rightarrow> [] | Some s \<Rightarrow> s)) Map.empty = Some gs0"
    using assms(1) by (auto simp: setup_groups_def)
  show ?thesis using setup_tokens_grants [OF s, of g] assms(2) by auto
qed

lemma write_needs_grant:
  assumes "setup_groups og = Some gs" and "c \<in> set cmds" and "cm_write c" and "may_run gs g (cm_name c)"
  shows "is_priv_group g \<or>
    toupper g \<noteq> CHR ''R'' \<and> grants (split_on CHR '','' (case og of None \<Rightarrow> [] | Some s \<Rightarrow> s)) (toupper g) (cm_name c)"
proof -
  have "\<not> readable (cm_name c)"
    using assms(2,3) find_by_name [OF cmds_distinct, of "cm_name c"] unfolding readable_def by (metis option.inject)
  then show ?thesis using may_run_iff [OF assms(1,2), of g] no_reserved_grants [OF assms(1)] assms(4)
    by (auto simp: reserved_def)
qed

text \<open>C37: A command runs only for a client whose address is accepted, and with the group of that
  address. A command that changes the miner runs only when the first entry
  of \<open>--api-allow\<close> that matches the address has the group W or a group that
  \<open>--api-groups\<close> defines and that lists the command by its name, or by a star if the command
  is one that only reads; without the option no such command runs at all. When no command ran,
  the miner is as before.\<close>

theorem commands_need_permission:
  assumes "setup_groups og = Some gs"
    and "serve_client env gs (map_option (setup_ipaccess wild gs) allow) net ip rcv s = Some s'"
  shows "\<exists>new. sv_calls s' = sv_calls s @ new \<and> (new = [] \<longrightarrow> sv_miner s' = sv_miner s) \<and>
    (\<forall>(n, p, g)\<in>set new. \<exists>c\<in>set cmds. cm_name c = n \<and>
       check_connect (map_option (setup_ipaccess wild gs) allow) net ip = (True, g) \<and>
       (cm_write c \<longrightarrow> (\<exists>t e. allow = Some t \<and> find (matches ip) (setup_ipaccess wild gs t) = Some e \<and> ia_group e = g \<and>
          (is_priv_group g \<or>
           grants (split_on CHR '','' (case og of None \<Rightarrow> [] | Some x \<Rightarrow> x)) (toupper g) n))))"
proof -
  let ?acc = "map_option (setup_ipaccess wild gs) allow"
  obtain ok g where c: "check_connect ?acc net ip = (ok, g)" by fastforce
  have "advances gs g s s' \<and> (sv_calls s' \<noteq> sv_calls s \<longrightarrow> ok)"
    using assms(2) c by (auto simp: serve_client_def advances_refl split: option.splits if_splits dest: advances_request)
  then obtain new where new: "sv_calls s' = sv_calls s @ new" "\<forall>call\<in>set new. allowed_call gs g call"
    "new = [] \<longrightarrow> sv_miner s' = sv_miner s" "new \<noteq> [] \<longrightarrow> ok" by (auto simp: advances_def)
  have "\<exists>c\<in>set cmds. cm_name c = n \<and> check_connect ?acc net ip = (True, g') \<and>
      (cm_write c \<longrightarrow> (\<exists>t e. allow = Some t \<and> find (matches ip) (setup_ipaccess wild gs t) = Some e \<and> ia_group e = g' \<and>
        (is_priv_group g' \<or> grants (split_on CHR '','' (case og of None \<Rightarrow> [] | Some x \<Rightarrow> x)) (toupper g') n)))"
    if "(n, p, g') \<in> set new" for n p g'
  proof -
    have g: "g' = g" and ok and run: "may_run gs g n" and "n \<in> cm_name ` set cmds"
      using new(2,4) that by (auto simp: allowed_call_def)
    then obtain cm where cm: "cm \<in> set cmds" "cm_name cm = n" by blast
    have "\<exists>t e. allow = Some t \<and> find (matches ip) (setup_ipaccess wild gs t) = Some e \<and> ia_group e = g \<and>
        (is_priv_group g \<or> grants (split_on CHR '','' (case og of None \<Rightarrow> [] | Some x \<Rightarrow> x)) (toupper g) n)" if "cm_write cm"
    proof -
      have w: "is_priv_group g \<or> toupper g \<noteq> CHR ''R'' \<and>
          grants (split_on CHR '','' (case og of None \<Rightarrow> [] | Some x \<Rightarrow> x)) (toupper g) n"
        using write_needs_grant [OF assms(1) cm(1) that] run cm(2) by simp
      then have "g \<noteq> CHR ''R''" by (auto simp: is_priv_group_def toupper_def)
      then obtain t e where "allow = Some t" "find (matches ip) (setup_ipaccess wild gs t) = Some e" "ia_group e = g"
        using c \<open>ok\<close> by (auto simp: check_connect_def split: option.splits)
      then show ?thesis using w by blast
    qed
    then show ?thesis using cm g c \<open>ok\<close> by auto
  qed
  then show ?thesis using new(1,3) by (intro exI [of _ new]) auto
qed


section \<open>The mask of a prefix\<close>

lemma bit_fold_or: "bit (foldl (\<lambda>a m. a OR f m) x ms) i \<longleftrightarrow> bit x i \<or> (\<exists>m\<in>set ms. bit (f m :: u32) i)"
  by (induction ms arbitrary: x) (auto simp: bit_or_iff)

lemma bit_mask_bit: "m < 32 \<Longrightarrow> i < 32 \<Longrightarrow> bit (mask_bit m) i \<longleftrightarrow> i = 24 - 8 * (m div 8) + m mod 8"
proof -
  have "mask_bit m = 2 ^ (24 - 8 * (m div 8) + m mod 8)" by (simp add: mask_bit_def push_bit_eq_mult power_add)
  then show "m < 32 \<Longrightarrow> i < 32 \<Longrightarrow> ?thesis" by (auto simp: bit_exp_iff)
qed

text \<open>The loop counts from the octet at the top, but from the bit at the bottom of each.\<close>

lemma octet_split: "r < 8 \<Longrightarrow> (x :: nat) = 8 * a + r \<longleftrightarrow> x div 8 = a \<and> x mod 8 = r"
  by auto

lemma octet_bit:
  fixes i m :: nat
  assumes "m < 32" and "i < 32"
  shows "i = 24 - 8 * (m div 8) + m mod 8 \<longleftrightarrow> m = 8 * (3 - i div 8) + i mod 8"
proof -
  have q: "m div 8 \<le> 3" "i div 8 \<le> 3" using assms by auto
  have "24 - 8 * (m div 8) = 8 * (3 - m div 8)" by simp
  then have "i = 24 - 8 * (m div 8) + m mod 8 \<longleftrightarrow> i div 8 = 3 - m div 8 \<and> i mod 8 = m mod 8"
    using octet_split [of "m mod 8" i "3 - m div 8"] by simp
  also have "\<dots> \<longleftrightarrow> m div 8 = 3 - i div 8 \<and> m mod 8 = i mod 8" using q by auto
  finally show ?thesis using octet_split [of "i mod 8" m "3 - i div 8"] by simp
qed

lemma prefix_mask_bit:
  assumes "n \<le> 32" and "i < 32"
  shows "bit (prefix_mask wild n) i \<longleftrightarrow>
    3 - i div 8 < n div 8 \<or> 3 - i div 8 = n div 8 \<and> i mod 8 < n mod 8 \<or> bit wild i"
proof -
  let ?m = "8 * (3 - i div 8) + i mod 8"
  have "(\<exists>m\<in>set (rev [0..<n]). bit (mask_bit m) i) \<longleftrightarrow> (\<exists>m<n. m = ?m)"
    using assms bit_mask_bit octet_bit by (auto simp: Bex_def)
  also have "\<dots> \<longleftrightarrow> ?m < n" by auto
  also have "\<dots> \<longleftrightarrow> 3 - i div 8 < n div 8 \<or> 3 - i div 8 = n div 8 \<and> i mod 8 < n mod 8"
  proof -
    have "n = 8 * (n div 8) + n mod 8" "i mod 8 < 8" "n mod 8 < 8" by simp_all
    then show ?thesis by linarith
  qed
  finally show ?thesis by (simp add: prefix_mask_def bit_or_iff bit_fold_or)
qed

lemma even_octets:
  fixes i n :: nat
  assumes "n \<le> 32" and "8 dvd n" and "i < 32"
  shows "3 - i div 8 < n div 8 \<or> 3 - i div 8 = n div 8 \<and> i mod 8 < n mod 8 \<longleftrightarrow> 32 - n \<le> i"
proof -
  obtain k where k: "n = 8 * k" using assms(2) by blast
  have "i div 8 < 4" using assms(3) by auto
  then have "i div 8 \<in> {0, 1, 2, 3}" by auto
  moreover have "i = 8 * (i div 8) + i mod 8" "i mod 8 < 8" by simp_all
  moreover have "k \<in> {0, 1, 2, 3, 4}" using k assms(1) by auto
  ultimately show ?thesis using k by auto
qed

lemma uneven_octets:
  fixes n :: nat
  assumes "n \<le> 32" and "\<not> 8 dvd n"
  shows "24 - 8 * (n div 8) < 32 - n" and "24 - 8 * (n div 8) < 32" and "3 - (24 - 8 * (n div 8)) div 8 = n div 8"
    and "(24 - 8 * (n div 8)) mod 8 < n mod 8"
    and "32 - n \<le> 31 - 8 * (n div 8)" and "31 - 8 * (n div 8) < 32" and "3 - (31 - 8 * (n div 8)) div 8 = n div 8"
    and "\<not> (31 - 8 * (n div 8)) mod 8 < n mod 8"
proof -
  have r: "0 < n mod 8" "n = 8 * (n div 8) + n mod 8" "n mod 8 < 8" using assms(2) by (simp_all add: dvd_eq_mod_eq_0)
  then have "n div 8 < 4" using assms(1) by linarith
  then have "n div 8 \<in> {0, 1, 2, 3}" by auto
  then obtain q where q: "n div 8 = q" "q \<in> {0, 1, 2, 3}" by blast
  show "24 - 8 * (n div 8) < 32 - n" "24 - 8 * (n div 8) < 32" "3 - (24 - 8 * (n div 8)) div 8 = n div 8"
    "(24 - 8 * (n div 8)) mod 8 < n mod 8"
    "32 - n \<le> 31 - 8 * (n div 8)" "31 - 8 * (n div 8) < 32" "3 - (31 - 8 * (n div 8)) div 8 = n div 8"
    "\<not> (31 - 8 * (n div 8)) mod 8 < n mod 8"
    using r q(2) unfolding q(1) by auto
qed

text \<open>What a mask leaves of an address that is in the network.\<close>

lemma matches_bits:
  "matches a \<lparr>ia_ip = ip AND msk, ia_mask = msk, ia_group = g\<rparr> \<longleftrightarrow> (\<forall>i<32. bit msk i \<longrightarrow> bit a i = bit ip i)"
  by (auto simp: matches_def bit_eq_iff bit_and_iff)

lemma same_network: "n \<le> 32 \<Longrightarrow> drop_bit (32 - n) a = drop_bit (32 - n) (ip :: u32) \<longleftrightarrow> (\<forall>i<32. 32 - n \<le> i \<longrightarrow> bit a i = bit ip i)"
proof
  assume n: "n \<le> 32" and e: "drop_bit (32 - n) a = drop_bit (32 - n) ip"
  show "\<forall>i<32. 32 - n \<le> i \<longrightarrow> bit a i = bit ip i"
  proof (intro allI impI)
    fix i :: nat assume "i < 32" "32 - n \<le> i"
    moreover have "bit (drop_bit (32 - n) a) (i - (32 - n)) = bit (drop_bit (32 - n) ip) (i - (32 - n))" using e by simp
    ultimately show "bit a i = bit ip i" by (simp add: bit_drop_bit_eq)
  qed
next
  assume n: "n \<le> 32" and b: "\<forall>i<32. 32 - n \<le> i \<longrightarrow> bit a i = bit ip i"
  show "drop_bit (32 - n) a = drop_bit (32 - n) ip"
  proof (rule bit_eqI)
    fix k
    show "bit (drop_bit (32 - n) a) k \<longleftrightarrow> bit (drop_bit (32 - n) ip) k"
      using b bit_imp_le_length [of a "32 - n + k"] bit_imp_le_length [of ip "32 - n + k"] by (auto simp: bit_drop_bit_eq)
  qed
qed

lemma flip_keeps: "k < 32 \<Longrightarrow> (\<forall>i<32. P i \<longrightarrow> bit (flip_bit k ip) i = bit (ip :: u32) i) \<longleftrightarrow> \<not> P k"
  by (auto simp: bit_flip_bit_iff)

definition network_entry :: "u32 \<Rightarrow> u32 \<Rightarrow> nat \<Rightarrow> char \<Rightarrow> ip4access" where
  "network_entry wild ip n g = \<lparr>ia_ip = ip AND prefix_mask wild n, ia_mask = prefix_mask wild n, ia_group = g\<rparr>"

lemma prefix_network:
  assumes "1 \<le> n" and "n \<le> 32" and "wild = 0 \<or> wild = 0x80000000"
  shows "(8 dvd n \<longrightarrow> {a. matches a (network_entry wild ip n g)} = {a. drop_bit (32 - n) a = drop_bit (32 - n) ip}) \<and>
    (\<not> 8 dvd n \<longrightarrow> (\<exists>a. drop_bit (32 - n) a = drop_bit (32 - n) ip \<and> \<not> matches a (network_entry wild ip n g))) \<and>
    (\<not> 8 dvd n \<and> (wild = 0 \<or> 8 \<le> n) \<longrightarrow>
       (\<exists>a. drop_bit (32 - n) a \<noteq> drop_bit (32 - n) ip \<and> matches a (network_entry wild ip n g)))"
proof -
  let ?M = "prefix_mask wild n" and ?q = "n div 8"
  have msk: "i < 32 \<Longrightarrow> bit ?M i \<longleftrightarrow> 3 - i div 8 < ?q \<or> 3 - i div 8 = ?q \<and> i mod 8 < n mod 8 \<or> bit wild i" for i
    by (rule prefix_mask_bit [OF assms(2)])
  have w: "bit wild i \<Longrightarrow> i = 31 \<and> wild \<noteq> 0" for i
  proof -
    have "(0x80000000 :: u32) = 2 ^ 31" by simp
    then show "bit wild i \<Longrightarrow> i = 31 \<and> wild \<noteq> 0" using assms(3) by (metis bit_exp_iff bit_0_eq bot_apply bot_bool_def)
  qed
  have m: "matches a (network_entry wild ip n g) \<longleftrightarrow> (\<forall>i<32. bit ?M i \<longrightarrow> bit a i = bit ip i)" for a
    unfolding network_entry_def by (rule matches_bits)
  show ?thesis
  proof (intro conjI impI)
    assume d: "8 dvd n"
    have "bit ?M i \<longleftrightarrow> 32 - n \<le> i" if "i < 32" for i
    proof -
      have "bit wild i \<Longrightarrow> 32 - n \<le> i" using w [of i] assms(1) by linarith
      then show ?thesis using msk [OF that] even_octets [OF assms(2) d that] by blast
    qed
    then have "matches a (network_entry wild ip n g) \<longleftrightarrow> drop_bit (32 - n) a = drop_bit (32 - n) ip" for a
      unfolding m same_network [OF assms(2)] by blast
    then show "{a. matches a (network_entry wild ip n g)} = {a. drop_bit (32 - n) a = drop_bit (32 - n) ip}" by blast
  next
    assume d: "\<not> 8 dvd n"
    note k = uneven_octets(1-4) [OF assms(2) d]
    have "bit ?M (24 - 8 * ?q)" using msk [OF k(2)] k(3,4) by blast
    then have "\<not> matches (flip_bit (24 - 8 * ?q) ip) (network_entry wild ip n g)"
      unfolding m flip_keeps [OF k(2)] by blast
    moreover have "drop_bit (32 - n) (flip_bit (24 - 8 * ?q) ip) = drop_bit (32 - n) ip"
      unfolding same_network [OF assms(2)] flip_keeps [OF k(2)] using k(1) by linarith
    ultimately show "\<exists>a. drop_bit (32 - n) a = drop_bit (32 - n) ip \<and> \<not> matches a (network_entry wild ip n g)" by blast
  next
    assume d: "\<not> 8 dvd n \<and> (wild = 0 \<or> 8 \<le> n)"
    note k = uneven_octets(5-8) [OF assms(2) conjunct1 [OF d]]
    have "\<not> bit wild (31 - 8 * ?q)"
    proof
      assume "bit wild (31 - 8 * ?q)"
      then have "31 - 8 * ?q = 31" and "wild \<noteq> 0" using w by blast+
      then have "8 \<le> n" "?q = 0" using d by auto
      then show False by linarith
    qed
    then have "\<not> bit ?M (31 - 8 * ?q)" using msk [OF k(2)] k(3,4) by simp
    then have "matches (flip_bit (31 - 8 * ?q) ip) (network_entry wild ip n g)"
      unfolding m flip_keeps [OF k(2)] by blast
    moreover have "drop_bit (32 - n) (flip_bit (31 - 8 * ?q) ip) \<noteq> drop_bit (32 - n) ip"
      unfolding same_network [OF assms(2)] flip_keeps [OF k(2)] using k(1) by linarith
    ultimately show "\<exists>a. drop_bit (32 - n) a \<noteq> drop_bit (32 - n) ip \<and> matches a (network_entry wild ip n g)" by blast
  qed
qed

lemma access_entry_network:
  assumes "access_entry wild gs (addr @ ''/'' @ d) = Some e" and "CHR ''/'' \<notin> set addr" and "CHR '':'' \<notin> set addr"
    and "addr @ ''/'' @ d \<noteq> ''0/0''" and "parse_octets 0 (split_on CHR ''.'' addr) 0 = Some ip" and "atoi d = int n"
  shows "1 \<le> n \<and> n \<le> 32 \<and> e = network_entry wild ip n CHR ''R''"
proof -
  let ?t = "addr @ ''/'' @ d"
  have grp: "(case ?t of g # c # rest \<Rightarrow> if isalpha g \<and> c = CHR '':'' then (if defined_group gs g then toupper g else CHR ''R'', rest)
      else (CHR ''R'', ?t) | _ \<Rightarrow> (CHR ''R'', ?t)) = (CHR ''R'', ?t)"
    using assms(3) by (cases addr; cases d; cases "tl addr") (auto simp: isalpha_def toupper_def)
  have s: "strchr ?t CHR ''/'' = Some (length addr)" using assms(2) by (simp add: strchr_def strstr_char_first)
  then have "strchr (addr @ CHR ''/'' # d) CHR ''/'' = Some (length addr)" by simp
  note s = s this
  show ?thesis using assms(1,4-6) unfolding access_entry_def grp
    by (auto simp: s Let_def network_entry_def split: if_splits)
qed

text \<open>C38: An entry of \<open>--api-allow\<close> with a prefix accepts exactly the addresses of its network when the
  prefix ends with an octet. With any other prefix the mask takes the low bits of the last octet
  instead of the high ones: some address of the network is refused, and some address outside it is
  accepted. (\<open>wild\<close> is what the shift by a negative number adds, nothing or the top bit; for
  prefixes below 8 the second part is about the former.)\<close>

theorem prefix_is_network:
  assumes "access_entry wild gs (addr @ ''/'' @ d) = Some e" and "CHR ''/'' \<notin> set addr" and "CHR '':'' \<notin> set addr"
    and "addr @ ''/'' @ d \<noteq> ''0/0''" and "parse_octets 0 (split_on CHR ''.'' addr) 0 = Some ip" and "atoi d = int n"
    and "wild = 0 \<or> wild = 0x80000000"
  shows "(8 dvd n \<longrightarrow> {a. matches a e} = {a. drop_bit (32 - n) a = drop_bit (32 - n) ip}) \<and>
    (\<not> 8 dvd n \<longrightarrow> (\<exists>a. drop_bit (32 - n) a = drop_bit (32 - n) ip \<and> \<not> matches a e)) \<and>
    (\<not> 8 dvd n \<and> (wild = 0 \<or> 8 \<le> n) \<longrightarrow> (\<exists>a. drop_bit (32 - n) a \<noteq> drop_bit (32 - n) ip \<and> matches a e))"
proof -
  have n: "1 \<le> n" "n \<le> 32" and e: "e = network_entry wild ip n CHR ''R''"
    using access_entry_network [OF assms(1-6)] by simp_all
  show ?thesis unfolding e by (rule prefix_network [OF n assms(7)])
qed

theorem prefix_is_network_witness:
  "\<exists>a. drop_bit 12 a = drop_bit 12 (0xC0A81000 :: u32) \<and>
     \<not> matches a (the (access_entry 0 Map.empty (''192.168.16.0'' @ ''/'' @ ''20'')))"
proof -
  have "atoi ''20'' = int 20" "parse_octets 0 (split_on CHR ''.'' ''192.168.16.0'') 0 = Some 0xC0A81000"
    by code_simp+
  moreover have "access_entry 0 Map.empty (''192.168.16.0'' @ ''/'' @ ''20'') = Some (the (access_entry 0 Map.empty (''192.168.16.0'' @ ''/'' @ ''20'')))"
    by code_simp
  ultimately show ?thesis
    using prefix_is_network [of 0 Map.empty "''192.168.16.0''" "''20''" _ "0xC0A81000" 20] by simp
qed

text \<open>The network 192.168.16.0/20 on ARM: its address 192.168.17.5 is refused, 192.168.32.1 is accepted.\<close>

lemma prefix_example:
  "let e = the (access_entry 0 Map.empty ''192.168.16.0/20'')
   in \<not> matches 0xC0A81105 e \<and> matches 0xC0A82001 e"
  by code_simp

section \<open>The table of addresses\<close>

text \<open>The table has room for all entries.\<close>

lemma length_split_on: "length (split_on x s) = 1 + length (filter (\<lambda>c. c = x) s)"
  by (induction s) (auto split: list.split)

lemma access_entries_fit: "length (access_entries wild gs ts) \<le> length ts"
proof (induction ts)
  case (Cons t ts)
  then show ?case by (auto simp: Let_def split: option.splits)
qed simp

lemma setup_ipaccess_fits: "length (setup_ipaccess wild gs t) \<le> ipcount t"
  using access_entries_fit [of wild gs "split_on CHR '','' t"] by (simp add: setup_ipaccess_def ipcount_def length_split_on)


section \<open>The buffer of a reply\<close>

declare bit_length.simps [simp del]

lemma bit_length_bound: "n < 2 ^ k \<Longrightarrow> bit_length n \<le> k"
proof (induction k arbitrary: n)
  case 0
  then show ?case by (simp add: bit_length.simps)
next
  case (Suc k)
  then have "n div 2 < 2 ^ k" by simp
  then show ?case using Suc.IH [of "n div 2"] by (simp add: bit_length.simps [of n])
qed

text \<open>A size below \<open>2 ^ 40\<close> loses at most \<open>2 ^ 15\<close> by the conversion.\<close>

lemma float_of_size_lower:
  assumes "n < 2 ^ 40"
  shows "n \<le> float_of_size n + 2 ^ 15"
proof -
  define u where "u = (2 :: nat) ^ (bit_length n - 24)"
  define a r where "a = n div u * u" and "r = n mod u"
  have "bit_length n \<le> 40" using assms by (rule bit_length_bound)
  then have "u \<le> 2 ^ 16" unfolding u_def by (intro power_increasing) auto
  then have u: "u \<le> 65536" by simp
  have n: "n = a + r" by (simp add: a_def r_def)
  have "r < u" unfolding u_def r_def by simp
  moreover have "float_of_size n = (if 2 * r > u \<or> 2 * r = u \<and> odd (n div u) then a + u else a)"
    by (simp add: float_of_size_def u_def [symmetric] a_def r_def Let_def)
  ultimately have "a + r \<le> float_of_size n + 2 ^ 15" using u by (cases "2 * r > u \<or> 2 * r = u \<and> odd (n div u)") simp_all
  then show ?thesis using n by simp
qed

definition flat :: "io \<Rightarrow> bool" where
  "flat b \<longleftrightarrow> io_cur b = length (io_text b)"

text \<open>Room for the end of a reply in JSON and its NUL.\<close>

definition room :: "io \<Rightarrow> bool" where
  "room b \<longleftrightarrow> io_cur b + 12 \<le> io_siz b"

lemma io_add_text:
  assumes "flat b"
  shows "flat (io_add s b) \<and> io_text (io_add s b) = io_text b @ s \<and> io_closed (io_add s b) = io_closed b"
  using assms by (simp add: io_add_def flat_def Let_def)

lemma io_add_cur: "io_cur (io_add s b) = io_cur b + length s"
  by (simp add: io_add_def Let_def)

lemma io_add_room:
  assumes "io_cur b + length s + 12 < 2 ^ 40"
  shows "room (io_add s b)"
proof -
  let ?t = "length s + 1 + io_cur b + 2 + 9"
  have "?t \<le> (2 + float_of_size ?t div 65536) * 65536"
  proof -
    define f q where "f = float_of_size ?t" and "q = f div 65536"
    have "?t < 2 ^ 40" using assms by simp
    then have "?t \<le> f + 32768" unfolding f_def using float_of_size_lower [of ?t] by simp
    moreover have "f < (q + 1) * 65536" unfolding q_def by (simp add: div_less_iff_less_mult [symmetric])
    ultimately show ?thesis unfolding f_def [symmetric] q_def [symmetric] by simp
  qed
  then have "io_cur (io_add s b) + 12 \<le> io_siz (io_add s b)" by (simp add: io_add_def Let_def not_less)
  then show ?thesis by (simp add: room_def)
qed

lemma io_adds_Cons: "io_adds (t # ts) b = io_adds ts (io_add t b)"
  by (simp add: io_adds_def)

lemma io_adds_Nil: "io_adds [] b = b"
  by (simp add: io_adds_def)

lemma io_adds_text:
  "flat b \<Longrightarrow> flat (io_adds ts b) \<and> io_text (io_adds ts b) = io_text b @ concat ts \<and> io_closed (io_adds ts b) = io_closed b"
  by (induction ts arbitrary: b) (simp_all add: io_adds_Cons io_adds_Nil io_add_text)

lemma io_adds_room: "room b \<Longrightarrow> io_cur b + length (concat ts) + 12 < 2 ^ 40 \<Longrightarrow> room (io_adds ts b)"
proof (induction ts arbitrary: b)
  case (Cons t ts)
  have "room (io_add t b)" using Cons.prems(2) by (intro io_add_room) simp
  then show ?case using Cons by (simp add: io_adds_Cons io_add_cur)
qed (simp add: io_adds_Nil)

text \<open>A buffer with room for all texts is not replaced.\<close>

lemma io_adds_siz: "io_cur b + length (concat ts) + 12 \<le> io_siz b \<Longrightarrow> io_siz (io_adds ts b) = io_siz b"
proof (induction ts arbitrary: b)
  case (Cons t ts)
  then have "io_siz (io_add t b) = io_siz b" by (simp add: io_add_def Let_def)
  then show ?case using Cons by (simp add: io_adds_Cons io_add_cur)
qed (simp add: io_adds_Nil)

text \<open>C40: The buffer of a reply is never overrun: whatever texts a command adds, as long as they are
  shorter than a terabyte together, the buffer grows with them and keeps room for the end of the
  reply, although the new size is computed with a \<open>float\<close> of 24 bits; what is sent is the texts in
  order and the end.\<close>

theorem reply_fits:
  assumes "room b" and "flat b" and "io_cur b + length (concat ts) + 12 < 2 ^ 40"
  shows "map_option fst (send_result isjson (io_adds ts b)) =
    Some (io_text b @ concat ts @ (if io_closed b then '']'' else []) @ (if isjson then json_end else []))"
proof -
  have t: "flat (io_adds ts b)" "io_text (io_adds ts b) = io_text b @ concat ts" "io_closed (io_adds ts b) = io_closed b"
    using io_adds_text [OF assms(2)] by auto
  moreover have "room (io_adds ts b)" by (rule io_adds_room [OF assms(1,3)])
  ultimately have "length (io_text b @ concat ts) + 12 \<le> io_siz (io_adds ts b)" by (simp add: room_def flat_def)
  moreover have "length json_end = 8" by (simp add: json_end_def)
  ultimately show ?thesis using t by (simp add: send_result_def Let_def)
qed

theorem reply_fits_witness:
  "map_option fst (send_result True (io_adds [''{'', replicate 70000 CHR ''x''] sock_io_new)) =
     Some (''{'' @ replicate 70000 CHR ''x'' @ json_end)"
  using reply_fits [of sock_io_new "[''{'', replicate 70000 CHR ''x'']" True]
  by (simp add: sock_io_new_def io_reinit_def room_def flat_def)

section \<open>Requests after a joined one\<close>

text \<open>A request in JSON that cannot be read is answered twice when the request before it was a
  joined one: the flag for joined requests is only set anew for requests that can be read, and so
  the buffer is sent once more, now with its end doubled. The flag stays set.\<close>

theorem broken_request_answered_twice:
  assumes "sv_isjoin s" and "parse_request env raw = (True, Bad m)"
    and "t = concat (message env m True)" and "length t + 17 \<le> io_siz (sv_io s)"
  shows "\<exists>s'. serve_request env gs g raw s = Some s' \<and>
    sv_sent s' = sv_sent s @ [t @ json_end, t @ json_end @ json_end] \<and> sv_isjoin s' \<and>
    sv_calls s' = sv_calls s \<and> sv_miner s' = sv_miner s"
proof -
  let ?b = "io_adds (message env m True) (io_reinit (sv_io s))"
  have "flat (io_reinit (sv_io s))" by (simp add: flat_def io_reinit_def)
  from io_adds_text [OF this, of "message env m True"]
  have b: "io_text ?b = t" "\<not> io_closed ?b" by (simp_all add: io_reinit_def assms(3))
  have siz: "io_siz ?b = io_siz (sv_io s)" using assms(3,4) by (subst io_adds_siz) (simp_all add: io_reinit_def)
  have j: "length json_end = 8" by (simp add: json_end_def)
  show ?thesis using assms(1,2,4) b siz j
    by (simp add: serve_request_def send_reply_def send_result_def on_io_def Let_def)
qed

text \<open>A miner that is a counter, whose commands add 1 to it and say so.\<close>

definition demo_api :: "nat api_env" where
  "demo_api = \<lparr>message = (\<lambda>r isjson. [''{\"STATUS\":[{\"STATUS\":\"E\"}]'']),
     func = (\<lambda>n p isjson g w. ([''{\"STATUS\":[{\"STATUS\":\"S\"}]'', '',\"N\":['', decimal (w + 1)], True, w + 1)),
     loads = (\<lambda>t. if t = ''{}'' then Some (JObject []) else
       Some (JObject [(''command'', JString (chars ''version+summary''))])),
     real_text = (\<lambda>d. [])\<rparr>"

definition demo_server :: "nat server" where
  "demo_server = \<lparr>sv_io = sock_io_new, sv_isjoin = True, sv_miner = 0, sv_sent = [], sv_calls = []\<rparr>"

theorem broken_request_answered_twice_witness:
  "\<exists>s. serve_request demo_api Map.empty CHR ''R'' ''{}'' demo_server = Some s \<and>
     sv_sent s = [''{\"STATUS\":[{\"STATUS\":\"E\"}]'' @ json_end, ''{\"STATUS\":[{\"STATUS\":\"E\"}]'' @ json_end @ json_end]"
proof -
  have p: "parse_request demo_api ''{}'' = (True, Bad MISCMD)" by (simp add: parse_request_def demo_api_def json_command_def)
  have "sv_isjoin demo_server" by (simp add: demo_server_def)
  moreover have m: "concat (message demo_api MISCMD True) = ''{\"STATUS\":[{\"STATUS\":\"E\"}]''" by (simp add: demo_api_def)
  moreover have "length (concat (message demo_api MISCMD True)) + 17 \<le> io_siz (sv_io demo_server)"
    by (simp add: m demo_server_def sock_io_new_def io_reinit_def)
  moreover have "sv_sent demo_server = []" by (simp add: demo_server_def)
  ultimately show ?thesis using broken_request_answered_twice [OF _ p refl, of demo_server Map.empty "CHR ''R''"]
    by (metis append_Nil)
qed

text \<open>A pool may be switched from the network 10.0.0.0/8.\<close>

definition demo_groups :: api_groups where
  "demo_groups = [CHR ''P'' \<mapsto> ''|switchpool|'', CHR ''R'' \<mapsto> readable_commands]"

lemma demo_groups_set: "setup_groups (Some ''P:SwitchPool'') = Some demo_groups"
proof -
  have "find (\<lambda>c. strcasecmp_eq ''SwitchPool'' (cm_name c)) cmds = Some \<lparr>cm_name = ''switchpool'', cm_write = True, cm_joinable = False\<rparr>"
  proof -
    have "map tolower ''SwitchPool'' = ''switchpool''" by code_simp
    then show ?thesis unfolding find_command_case by (simp add: cmds_def)
  qed
  then show ?thesis
    by (simp add: setup_groups_def setup_group_def isalpha_def toupper_def is_priv_group_def add_command_def quoted_def demo_groups_def)
qed

lemma demo_client:
  "check_connect (map_option (setup_ipaccess 0 demo_groups) (Some ''P:10.0.0.0/8'')) False 0x0A010203 = (True, CHR ''P'')"
  by code_simp

lemma demo_switch:
  "\<exists>s. serve_client demo_api demo_groups (map_option (setup_ipaccess 0 demo_groups) (Some ''P:10.0.0.0/8'')) False 0x0A010203
     (Some ''switchpool|1'') demo_server = Some s \<and> sv_calls s = [(''switchpool'', Some ''1'', CHR ''P'')]"
proof -
  have p: "parse_request demo_api ''switchpool|1'' = (False, Command ''switchpool'' (Some ''1''))"
    by (simp add: parse_request_def strchr_def)
  have f: "find_command ''switchpool'' = Some \<lparr>cm_name = ''switchpool'', cm_write = True, cm_joinable = False\<rparr>"
    unfolding find_command_iff by (simp add: cmds_def)
  have m: "may_run demo_groups CHR ''P'' ''switchpool''"
    by (simp add: may_run_def demo_groups_def toupper_def is_priv_group_def quoted_def)
  have d: "decimal (Suc 0) = ''1''" by code_simp
  have c: "func demo_api n p j g w = ([''{\"STATUS\":[{\"STATUS\":\"S\"}]'', '',\"N\":['', decimal (w + 1)], True, w + 1)" for n p j g w
    by (simp add: demo_api_def)
  show ?thesis unfolding serve_client_def demo_client
    by (simp add: serve_request_def p strchr_def run_single_def f run_permitted_def m run_func_def c demo_server_def
      sock_io_new_def io_reinit_def on_io_def io_adds_def io_add_def send_reply_def send_result_def Let_def d)
qed

theorem commands_need_permission_witness:
  "\<exists>s t e. serve_client demo_api demo_groups (map_option (setup_ipaccess 0 demo_groups) (Some ''P:10.0.0.0/8'')) False 0x0A010203
       (Some ''switchpool|1'') demo_server = Some s \<and> sv_calls s = [(''switchpool'', Some ''1'', CHR ''P'')] \<and>
     find (matches 0x0A010203) (setup_ipaccess 0 demo_groups t) = Some e \<and> t = ''P:10.0.0.0/8'' \<and> ia_group e = CHR ''P''"
proof -
  obtain s where s: "serve_client demo_api demo_groups (map_option (setup_ipaccess 0 demo_groups) (Some ''P:10.0.0.0/8'')) False 0x0A010203
     (Some ''switchpool|1'') demo_server = Some s" and c: "sv_calls s = [(''switchpool'', Some ''1'', CHR ''P'')]"
    using demo_switch by blast
  have "sv_calls demo_server = []" by (simp add: demo_server_def)
  then obtain cm where cm: "cm \<in> set cmds" "cm_name cm = ''switchpool''" "cm_write cm \<longrightarrow> (\<exists>t e. Some ''P:10.0.0.0/8'' = Some t \<and>
      find (matches 0x0A010203) (setup_ipaccess 0 demo_groups t) = Some e \<and> ia_group e = CHR ''P'')"
    using commands_need_permission [OF demo_groups_set s] c by fastforce
  have "find_command ''switchpool'' = Some \<lparr>cm_name = ''switchpool'', cm_write = True, cm_joinable = False\<rparr>"
    unfolding find_command_iff by (simp add: cmds_def)
  moreover have "find_command ''switchpool'' = Some cm" using cm(1,2) by (simp add: find_command_iff)
  ultimately have "cm_write cm" by simp
  then show ?thesis using cm(3) s c by auto
qed

section \<open>Joined requests\<close>

text \<open>The answers the commands give when they are sent one by one.\<close>

fun answered :: "'w api_env \<Rightarrow> api_groups \<Rightarrow> char \<Rightarrow> string list \<Rightarrow> 'w \<Rightarrow> string list \<Rightarrow> 'w \<Rightarrow> bool" where
  "answered env gs g [] w [] w' \<longleftrightarrow> w' = w"
| "answered env gs g (n # ns) w (t # ts) w' \<longleftrightarrow>
     (\<exists>s s'. sv_io s = sock_io_new \<and> sv_miner s = w \<and> run_single env gs n None True g s = Some s' \<and>
        sv_sent s' = sv_sent s @ [t] \<and> answered env gs g ns (sv_miner s') ts w')"
| "answered env gs g _ w _ w' \<longleftrightarrow> False"

text \<open>What a command adds to a reply, and the miner it leaves.\<close>

definition body :: "'w api_env \<Rightarrow> api_groups \<Rightarrow> char \<Rightarrow> string \<Rightarrow> 'w \<Rightarrow> string \<times> 'w" where
  "body env gs g n w =
     (if find_command n = None then (concat (message env INVCMD True), w)
      else if may_run gs g n then
        (case func env n None True g w of (ts, close, w) \<Rightarrow> (concat ts @ (if close then '']'' else []), w))
      else (concat (message env (ACCDENY n) True), w))"

definition member :: "string \<Rightarrow> string \<Rightarrow> string" where
  "member n t = ''\"'' @ escape_string n True @ ''\":['' @ t @ '']''"

fun commas :: "string list \<Rightarrow> string" where
  "commas [] = []"
| "commas [t] = t"
| "commas (t # u # ts) = t @ '','' @ commas (u # ts)"

lemma commas_Cons: "commas (t # ts) = t @ concat (map (\<lambda>u. '','' @ u) ts)"
  by (induction ts arbitrary: t) simp_all

lemma send_reply_text:
  assumes "send_reply True s = Some s'" and "flat (sv_io s)"
  shows "sv_sent s' = sv_sent s @ [io_text (sv_io s) @ (if io_closed (sv_io s) then '']'' else []) @ json_end] \<and> sv_miner s' = sv_miner s"
  using assms by (auto simp: send_reply_def send_result_def Let_def split: if_splits)

text \<open>What a command does to a server whose list is not open.\<close>

lemma io_close_text:
  "flat b \<Longrightarrow> \<not> io_closed b \<Longrightarrow>
   (let b' = (let b = io_adds ts b in if close then b\<lparr>io_closed := True\<rparr> else b)
    in flat b' \<and> io_text b' = io_text b @ concat ts \<and> io_closed b' = close)"
  using io_adds_text [of b ts] by (auto simp: Let_def flat_def)

lemma run_permitted_body:
  assumes "flat (sv_io s)" and "\<not> io_closed (sv_io s)" and "find_command n \<noteq> None"
  shows "let s' = run_permitted env gs n None True g s in
    flat (sv_io s') \<and> sv_sent s' = sv_sent s \<and> sv_miner s' = snd (body env gs g n (sv_miner s)) \<and>
    io_text (sv_io s') @ (if io_closed (sv_io s') then '']'' else []) = io_text (sv_io s) @ fst (body env gs g n (sv_miner s))"
proof (cases "func env n None True g (sv_miner s)")
  case (fields ts close w)
  show ?thesis
  proof (cases "may_run gs g n")
    case True
    moreover obtain c where "find_command n = Some c" using assms(3) by blast
    ultimately show ?thesis using fields io_close_text [OF assms(1,2), of ts close]
      by (cases close) (simp_all add: run_permitted_def run_func_def on_io_def body_def Let_def)
  next
    case False
    moreover obtain c where "find_command n = Some c" using assms(3) by blast
    ultimately show ?thesis using assms(1,2) io_adds_text [OF assms(1), of "message env (ACCDENY n) True"]
      by (simp add: run_permitted_def on_io_def body_def Let_def)
  qed
qed

lemma run_message_body:
  assumes "flat (sv_io s)" and "\<not> io_closed (sv_io s)" and "find_command n = None"
  shows "let s' = on_io (io_adds (message env INVCMD True)) s in
    flat (sv_io s') \<and> sv_sent s' = sv_sent s \<and> sv_miner s' = snd (body env gs g n (sv_miner s)) \<and>
    io_text (sv_io s') @ (if io_closed (sv_io s') then '']'' else []) = io_text (sv_io s) @ fst (body env gs g n (sv_miner s))"
  using assms io_adds_text [OF assms(1), of "message env INVCMD True"] by (simp add: on_io_def body_def)

lemma run_single_body:
  assumes "run_single env gs n None True g s = Some s'" and "sv_io s = sock_io_new"
  shows "sv_sent s' = sv_sent s @ [fst (body env gs g n (sv_miner s)) @ json_end] \<and> sv_miner s' = snd (body env gs g n (sv_miner s))"
proof -
  have b: "flat (sv_io s)" "\<not> io_closed (sv_io s)" "io_text (sv_io s) = []"
    using assms(2) by (simp_all add: sock_io_new_def io_reinit_def flat_def)
  let ?t = "case find_command n of Some c \<Rightarrow> run_permitted env gs n None True g s | None \<Rightarrow> on_io (io_adds (message env INVCMD True)) s"
  have t: "flat (sv_io ?t) \<and> sv_sent ?t = sv_sent s \<and> sv_miner ?t = snd (body env gs g n (sv_miner s)) \<and>
      io_text (sv_io ?t) @ (if io_closed (sv_io ?t) then '']'' else []) = fst (body env gs g n (sv_miner s))"
  proof (cases "find_command n")
    case None
    then show ?thesis using run_message_body [OF b(1,2) None, of env gs g] b(3) by (simp add: Let_def)
  next
    case (Some c)
    then show ?thesis using run_permitted_body [OF b(1,2), of n env gs g] b(3) by (simp add: Let_def)
  qed
  have "send_reply True ?t = Some s'" using assms(1) by (simp add: run_single_def)
  from send_reply_text [OF this] t show ?thesis by (metis append_assoc)
qed

text \<open>One command of a joined request, seen for the first time.\<close>

definition fresh :: "io \<Rightarrow> bool" where
  "fresh b \<longleftrightarrow> flat b \<and> \<not> io_closed b"

lemma fresh_add: "fresh b \<Longrightarrow> fresh (io_add s b) \<and> io_text (io_add s b) = io_text b @ s"
  by (simp add: fresh_def io_add_text)

lemma fresh_adds: "fresh b \<Longrightarrow> fresh (io_adds ts b) \<and> io_text (io_adds ts b) = io_text b @ concat ts"
  by (simp add: fresh_def io_adds_text)

lemma head_join_text:
  assumes "fresh b"
  shows "fresh (head_join n True first b) \<and>
    io_text (head_join n True first b) = io_text b @ (if first then ''{'' else '','') @ ''\"'' @ escape_string n True @ ''\":[''"
  using fresh_add [OF assms, of "if first then ''{'' else '',''"] fresh_adds
  by (simp add: head_join_def Let_def)

lemma tail_join_text:
  assumes "flat b"
  shows "fresh (tail_join True b) \<and>
    io_text (tail_join True b) = io_text b @ (if io_closed b then '']'' else []) @ json_end @ '']''"
proof (cases "io_closed b")
  case True
  have "fresh ((io_add '']'' b)\<lparr>io_closed := False\<rparr>) \<and> io_text ((io_add '']'' b)\<lparr>io_closed := False\<rparr>) = io_text b @ '']''"
    using io_add_text [OF assms, of "'']''"] by (simp add: fresh_def flat_def)
  then show ?thesis using True fresh_adds by (simp add: tail_join_def Let_def)
next
  case False
  then have "fresh b" using assms by (simp add: fresh_def)
  then show ?thesis using False fresh_adds by (simp add: tail_join_def Let_def)
qed

lemma tail_join_room:
  assumes "flat b" and "length (io_text (tail_join True b)) + 12 < 2 ^ 40"
  shows "room (tail_join True b)"
proof -
  define c where "c = io_add json_end (if io_closed b then (io_add '']'' b)\<lparr>io_closed := False\<rparr> else b)"
  have t: "tail_join True b = io_add '']'' c" by (simp add: tail_join_def c_def io_adds_Cons io_adds_Nil Let_def)
  have "flat (tail_join True b)" using tail_join_text [OF assms(1)] by (simp add: fresh_def)
  then have "length (io_text (tail_join True b)) = io_cur c + 1" by (simp add: flat_def t io_add_cur)
  then show ?thesis using assms(2) unfolding t by (intro io_add_room) simp
qed

lemma on_io_fields: "sv_io (on_io f s) = f (sv_io s)" "sv_sent (on_io f s) = sv_sent s" "sv_miner (on_io f s) = sv_miner s"
    "sv_isjoin (on_io f s) = sv_isjoin s"
  by (simp_all add: on_io_def)

lemma run_permitted_isjoin: "sv_isjoin (run_permitted env gs n p isjson g s) = sv_isjoin s"
  by (simp add: run_permitted_def run_func_def on_io_def split: prod.split)

lemma join_step_member:
  assumes "fresh (sv_io s)" and "seen = names_text ks" and "\<forall>k\<in>set ks. plain_name k" and "n \<noteq> []" and "n \<notin> set ks"
    and "\<forall>c. find_command n = Some c \<longrightarrow> cm_joinable c"
    and "join_step env gs True g (seen, first, s) n = (seen', first', s')"
  shows "fresh (sv_io s') \<and> sv_sent s' = sv_sent s \<and> sv_isjoin s' = sv_isjoin s \<and> \<not> first' \<and>
    sv_miner s' = snd (body env gs g n (sv_miner s)) \<and>
    io_text (sv_io s') = io_text (sv_io s) @ (if first then ''{'' else '','') @
      member n (fst (body env gs g n (sv_miner s)) @ json_end) \<and>
    (length (io_text (sv_io s')) + 12 < 2 ^ 40 \<longrightarrow> room (sv_io s')) \<and>
    (seen' = seen \<or> seen' = names_text (ks @ [n]) \<and> plain_name n)"
proof -
  let ?h = "on_io (head_join n True first) s"
  have h: "fresh (sv_io ?h)" "io_text (sv_io ?h) = io_text (sv_io s) @ (if first then ''{'' else '','') @ ''\"'' @ escape_string n True @ ''\":[''"
    "sv_sent ?h = sv_sent s" "sv_miner ?h = sv_miner s" "sv_isjoin ?h = sv_isjoin s"
    using head_join_text [OF assms(1), of n first] by (simp_all add: on_io_fields)
  have fin: "?thesis" if "flat (sv_io u)" "sv_sent u = sv_sent ?h" "sv_isjoin u = sv_isjoin ?h"
    "sv_miner u = snd (body env gs g n (sv_miner ?h))"
    "io_text (sv_io u) @ (if io_closed (sv_io u) then '']'' else []) = io_text (sv_io ?h) @ fst (body env gs g n (sv_miner ?h))"
    "s' = on_io (tail_join True) u" "\<not> first'" "seen' = seen \<or> seen' = names_text (ks @ [n]) \<and> plain_name n" for u
  proof -
    have "io_text (sv_io s') = (io_text (sv_io u) @ (if io_closed (sv_io u) then '']'' else [])) @ json_end @ '']''"
      using tail_join_text [OF that(1)] by (simp add: that(6) on_io_fields)
    also have "\<dots> = io_text (sv_io s) @ (if first then ''{'' else '','') @ member n (fst (body env gs g n (sv_miner s)) @ json_end)"
      by (simp only: that(5) h(2,4) member_def append_assoc)
    finally show ?thesis using tail_join_text [OF that(1)] tail_join_room [OF that(1)] that(2-4,6-8) h(3-5)
      by (simp add: on_io_fields)
  qed
  have hf: "flat (sv_io ?h)" "\<not> io_closed (sv_io ?h)" using h(1) by (simp_all add: fresh_def)
  show ?thesis
  proof (cases "find_command n")
    case None
    then have "s' = on_io (tail_join True) (on_io (io_adds (message env INVCMD True)) ?h)" "\<not> first'" "seen' = seen"
      using assms(4,7) by (auto simp: join_step_def)
    then show ?thesis using run_message_body [OF hf None, of env gs g]
      by (intro fin [of "on_io (io_adds (message env INVCMD True)) ?h"]) (simp_all add: Let_def on_io_fields)
  next
    case (Some c)
    then have pl: "plain_name n" using cmds_plain by (auto simp: find_command_iff)
    have new: "strstr seen (quoted n) = None" using names_search [OF pl assms(3)] assms(2,5) by simp
    have "s' = on_io (tail_join True) (run_permitted env gs n None True g ?h)" "\<not> first'" "seen' = seen @ n @ ''|''"
      using assms(4,6,7) Some new by (auto simp: join_step_def Let_def)
    then show ?thesis using run_permitted_body [OF hf, of n env gs g] Some pl assms(2)
      by (intro fin [of "run_permitted env gs n None True g ?h"])
        (simp_all add: Let_def run_permitted_isjoin names_text_def)
  qed
qed

text \<open>The further commands of a joined request, after the first.\<close>

lemma join_rest:
  assumes "fresh (sv_io s)" and "seen = names_text ks" and "\<forall>k\<in>set ks. plain_name k" and "distinct ns" and "[] \<notin> set ns"
    and "set ns \<inter> set ks = {}" and "\<forall>n\<in>set ns. \<forall>c. find_command n = Some c \<longrightarrow> cm_joinable c"
    and "answered env gs g ns (sv_miner s) ts w" and "foldl (join_step env gs True g) (seen, False, s) ns = (seen', first', s')"
    and "length (io_text (sv_io s)) + 12 < 2 ^ 40 \<longrightarrow> room (sv_io s)"
  shows "fresh (sv_io s') \<and> sv_sent s' = sv_sent s \<and> sv_isjoin s' = sv_isjoin s \<and> sv_miner s' = w \<and> length ts = length ns \<and>
    io_text (sv_io s') = io_text (sv_io s) @ concat (map (\<lambda>u. '','' @ u) (map2 member ns ts)) \<and>
    (length (io_text (sv_io s')) + 12 < 2 ^ 40 \<longrightarrow> room (sv_io s'))"
  using assms
proof (induction ns arbitrary: s seen ks ts)
  case Nil
  then show ?case by (cases ts) auto
next
  case (Cons n ns)
  obtain t ts' where ts: "ts = t # ts'" using Cons.prems(8) by (cases ts) auto
  obtain u u' where u: "sv_io u = sock_io_new" "sv_miner u = sv_miner s" "run_single env gs n None True g u = Some u'"
    "sv_sent u' = sv_sent u @ [t]" and rest: "answered env gs g ns (sv_miner u') ts' w"
    using Cons.prems(8) by (auto simp: ts)
  have t: "t = fst (body env gs g n (sv_miner s)) @ json_end" and m: "sv_miner u' = snd (body env gs g n (sv_miner s))"
    using run_single_body [OF u(3,1)] u(2,4) by simp_all
  obtain seen1 first1 s1 where st: "join_step env gs True g (seen, False, s) n = (seen1, first1, s1)" by (metis prod_cases3)
  have "n \<noteq> []" "n \<notin> set ks" "\<forall>c. find_command n = Some c \<longrightarrow> cm_joinable c" using Cons.prems(5-7) by auto
  from join_step_member [OF Cons.prems(1-3) this st]
  have s1: "fresh (sv_io s1)" "sv_sent s1 = sv_sent s" "sv_isjoin s1 = sv_isjoin s" "\<not> first1"
    "sv_miner s1 = snd (body env gs g n (sv_miner s))"
    "io_text (sv_io s1) = io_text (sv_io s) @ '','' @ member n t"
    "length (io_text (sv_io s1)) + 12 < 2 ^ 40 \<longrightarrow> room (sv_io s1)"
    "seen1 = seen \<or> seen1 = names_text (ks @ [n]) \<and> plain_name n" by (simp_all add: t)
  obtain ks1 where ks1: "seen1 = names_text ks1" "\<forall>k\<in>set ks1. plain_name k" "set ks1 \<subseteq> insert n (set ks)"
  proof (cases "seen1 = seen")
    case True
    then show ?thesis using that [of ks] Cons.prems(2,3) by auto
  next
    case False
    then show ?thesis using that [of "ks @ [n]"] s1(8) Cons.prems(3) by auto
  qed
  have disj: "set ns \<inter> set ks1 = {}" using ks1(3) Cons.prems(4,6) by auto
  have "foldl (join_step env gs True g) (seen1, False, s1) ns = (seen', first', s')"
    using Cons.prems(9) st s1(4) by simp
  moreover have "answered env gs g ns (sv_miner s1) ts' w" using rest m s1(5) by simp
  ultimately have "fresh (sv_io s') \<and> sv_sent s' = sv_sent s1 \<and> sv_isjoin s' = sv_isjoin s1 \<and> sv_miner s' = w \<and> length ts' = length ns \<and>
      io_text (sv_io s') = io_text (sv_io s1) @ concat (map (\<lambda>u. '','' @ u) (map2 member ns ts')) \<and>
      (length (io_text (sv_io s')) + 12 < 2 ^ 40 \<longrightarrow> room (sv_io s'))"
    using Cons.prems(4,5,7) s1(7) by (intro Cons.IH [OF s1(1) ks1(1,2) _ _ disj]) auto
  then show ?case by (simp add: ts s1)
qed

text \<open>C39: The reply to a joined request in JSON is the object that has for each command, in order, its
  name with the reply the command gets when it is sent alone, and the miner is left as by sending
  the commands one after the other: for all command lists without empty or repeated names whose
  known commands may be joined.\<close>

theorem joined_reply_composed:
  assumes "parse_request env raw = (True, Command cmd p)" and "ns = split_on CHR ''+'' cmd" and "CHR ''+'' \<in> set cmd"
    and "distinct ns" and "[] \<notin> set ns" and "\<forall>n\<in>set ns. \<forall>c. find_command n = Some c \<longrightarrow> cm_joinable c"
    and "answered env gs g ns (sv_miner s) ts w" and "length (commas (map2 member ns ts)) + 13 < 2 ^ 40"
  shows "\<exists>s'. serve_request env gs g raw s = Some s' \<and>
    sv_sent s' = sv_sent s @ [''{'' @ commas (map2 member ns ts) @ json_end] \<and> sv_miner s' = w"
proof -
  let ?s = "(on_io io_reinit s)\<lparr>sv_isjoin := True\<rparr>"
  have f: "fresh (sv_io ?s)" "io_text (sv_io ?s) = []" "sv_miner ?s = sv_miner s" "sv_sent ?s = sv_sent s" "sv_isjoin ?s"
    by (simp_all add: on_io_def io_reinit_def fresh_def flat_def)
  have "length ns \<noteq> 0" by (simp add: assms(2) length_split_on)
  then obtain n ns' where ns: "ns = n # ns'" by (cases ns) auto
  obtain t ts' where ts: "ts = t # ts'" using assms(7) ns by (cases ts) auto
  obtain u u' where u: "sv_io u = sock_io_new" "sv_miner u = sv_miner s" "run_single env gs n None True g u = Some u'"
    "sv_sent u' = sv_sent u @ [t]" and rest: "answered env gs g ns' (sv_miner u') ts' w"
    using assms(7) by (auto simp: ts ns)
  have t: "t = fst (body env gs g n (sv_miner s)) @ json_end" and m: "sv_miner u' = snd (body env gs g n (sv_miner s))"
    using run_single_body [OF u(3,1)] u(2,4) by simp_all
  obtain seen1 first1 s1 where st: "join_step env gs True g (''|'', True, ?s) n = (seen1, first1, s1)" by (metis prod_cases3)
  have e: "''|'' = names_text []" "\<forall>k\<in>set []. plain_name k" "n \<notin> set []" by (simp_all add: names_text_def)
  have "n \<noteq> []" "\<forall>c. find_command n = Some c \<longrightarrow> cm_joinable c" using assms(5,6) ns by auto
  from join_step_member [OF f(1) e(1,2) this(1) e(3) this(2) st]
  have s1: "fresh (sv_io s1)" "sv_sent s1 = sv_sent s" "sv_isjoin s1" "\<not> first1"
    "sv_miner s1 = snd (body env gs g n (sv_miner s))" "io_text (sv_io s1) = ''{'' @ member n t"
    "length (io_text (sv_io s1)) + 12 < 2 ^ 40 \<longrightarrow> room (sv_io s1)"
    "seen1 = ''|'' \<or> seen1 = names_text [n] \<and> plain_name n" using f by (simp_all add: t)
  obtain ks1 where ks1: "seen1 = names_text ks1" "\<forall>k\<in>set ks1. plain_name k" "set ks1 \<subseteq> {n}"
  proof (cases "seen1 = ''|''")
    case True
    then show ?thesis using that [of "[]"] by (simp add: names_text_def)
  next
    case False
    then show ?thesis using that [of "[n]"] s1(8) by auto
  qed
  obtain seen2 first2 s2 where loop: "foldl (join_step env gs True g) (seen1, False, s1) ns' = (seen2, first2, s2)"
    by (metis prod_cases3)
  have "answered env gs g ns' (sv_miner s1) ts' w" using rest m s1(5) by simp
  moreover have "set ns' \<inter> set ks1 = {}" using ks1(3) assms(4) ns by auto
  ultimately have s2: "fresh (sv_io s2)" "sv_sent s2 = sv_sent s" "sv_isjoin s2" "sv_miner s2 = w" "length ts' = length ns'"
    "io_text (sv_io s2) = ''{'' @ member n t @ concat (map (\<lambda>u. '','' @ u) (map2 member ns' ts'))"
    "length (io_text (sv_io s2)) + 12 < 2 ^ 40 \<longrightarrow> room (sv_io s2)"
    using join_rest [OF s1(1) ks1(1,2) _ _ _ _ _ loop] assms(4-6) ns s1(2,3,6,7) by auto
  have reply: "io_text (sv_io s2) = ''{'' @ commas (map2 member ns ts)" using s2(6) by (simp add: ns ts commas_Cons)
  have "run_joined env gs cmd True g ?s = s2" using loop st s1(4) ns assms(2) by (simp add: run_joined_def)
  moreover have "strchr cmd CHR ''+'' \<noteq> None" using assms(3) by (simp add: strchr_def strstr_char_None)
  ultimately have serve: "serve_request env gs g raw s = send_reply True s2"
    using s2(3) by (simp add: serve_request_def assms(1) Let_def)
  have "room (sv_io s2)" using s2(7) assms(8) reply by simp
  then have "length (io_text (sv_io s2)) + 12 \<le> io_siz (sv_io s2)" using s2(1) by (simp add: room_def fresh_def flat_def)
  moreover have "length json_end = 8" by (simp add: json_end_def)
  ultimately have "send_reply True s2 \<noteq> None" using s2(1) by (simp add: send_reply_def send_result_def fresh_def Let_def)
  then obtain s' where "send_reply True s2 = Some s'" by blast
  then show ?thesis using serve send_reply_text [of s2 s'] s2(1,2,4) reply by (simp add: fresh_def)
qed


lemma demo_answer:
  assumes "n \<in> {''version'', ''summary''}" and "w < 9" and "sv_io s = sock_io_new" and "sv_miner s = w"
  shows "\<exists>s'. run_single demo_api gs n None True CHR ''W'' s = Some s' \<and> sv_miner s' = w + 1 \<and>
    sv_sent s' = sv_sent s @ [''{\"STATUS\":[{\"STATUS\":\"S\"}],\"N\":['' @ decimal (w + 1) @ '']'' @ json_end]"
proof -
  have c: "find_command n \<noteq> None" using assms(1) by (auto simp: find_command_def cmds_def)
  have r: "may_run gs CHR ''W'' n" by (simp add: may_run_def is_priv_group_def toupper_def)
  have d: "length (decimal (w + 1)) = 1" using assms(2) by (simp add: decimal.simps)
  have "length (io_text (io_adds [''{\"STATUS\":[{\"STATUS\":\"S\"}]'', '',\"N\":['', decimal (w + 1)] sock_io_new)) < 100"
    using io_adds_text [of sock_io_new] d by (simp add: sock_io_new_def io_reinit_def flat_def)
  moreover have "io_siz (io_adds [''{\"STATUS\":[{\"STATUS\":\"S\"}]'', '',\"N\":['', decimal (w + 1)] sock_io_new) = 65536"
    using d by (subst io_adds_siz) (simp_all add: sock_io_new_def io_reinit_def)
  moreover have "length json_end = 8" by (simp add: json_end_def)
  ultimately have "run_single demo_api gs n None True CHR ''W'' s \<noteq> None"
    using c r assms(3,4) by (auto simp: run_single_def run_permitted_def run_func_def demo_api_def send_reply_def send_result_def
      on_io_def Let_def split: option.splits)
  then obtain s' where s': "run_single demo_api gs n None True CHR ''W'' s = Some s'" by blast
  have "body demo_api gs CHR ''W'' n w = (''{\"STATUS\":[{\"STATUS\":\"S\"}],\"N\":['' @ decimal (w + 1) @ '']'', w + 1)"
    using c r by (simp add: body_def demo_api_def)
  then show ?thesis using run_single_body [OF s' assms(3)] s' assms(4) by simp
qed

definition joined_request :: string where
  "joined_request = ''{J}''"

lemma joined_request_parsed: "parse_request demo_api joined_request = (True, Command ''version+summary'' None)"
  by (simp add: parse_request_def joined_request_def demo_api_def json_command_def text_of_chars)

theorem joined_reply_composed_witness:
  "\<exists>s. serve_request demo_api Map.empty CHR ''W'' joined_request demo_server = Some s \<and> sv_miner s = 2 \<and>
     sv_sent s = [''{\"version\":[{\"STATUS\":[{\"STATUS\":\"S\"}],\"N\":[1],\"id\":1}],'' @
                  ''\"summary\":[{\"STATUS\":[{\"STATUS\":\"S\"}],\"N\":[2],\"id\":1}],\"id\":1}'']"
proof -
  let ?ans = "\<lambda>w. ''{\"STATUS\":[{\"STATUS\":\"S\"}],\"N\":['' @ decimal (w + 1) @ '']'' @ json_end"
  have s: "split_on CHR ''+'' ''version+summary'' = [''version'', ''summary'']" by simp
  have a: "answered demo_api Map.empty CHR ''W'' [''version'', ''summary''] 0 [?ans 0, ?ans 1] 2"
  proof -
    let ?s = "\<lambda>w. demo_server\<lparr>sv_miner := w\<rparr>"
    have d: "sv_io (?s w) = sock_io_new" "sv_miner (?s w) = w" for w by (simp_all add: demo_server_def)
    obtain s1 where s1: "run_single demo_api Map.empty ''version'' None True CHR ''W'' (?s 0) = Some s1" "sv_miner s1 = 1"
      "sv_sent s1 = sv_sent (?s 0) @ [?ans 0]" using demo_answer [of "''version''" 0 "?s 0" Map.empty] d by auto
    obtain s2 where s2: "run_single demo_api Map.empty ''summary'' None True CHR ''W'' (?s 1) = Some s2" "sv_miner s2 = 2"
      "sv_sent s2 = sv_sent (?s 1) @ [?ans 1]" using demo_answer [of "''summary''" 1 "?s 1" Map.empty] d by auto
    have "answered demo_api Map.empty CHR ''W'' [''summary''] 1 [?ans 1] 2"
      unfolding answered.simps using s2 d by (intro exI [of _ "?s 1"] exI [of _ s2]) simp
    then show ?thesis unfolding answered.simps(2) using s1 d by (intro exI [of _ "?s 0"] exI [of _ s1]) simp
  qed
  have j: "\<forall>n\<in>set [''version'', ''summary'']. \<forall>c. find_command n = Some c \<longrightarrow> cm_joinable c"
    by (simp add: find_command_def cmds_def)
  have e: "commas (map2 member [''version'', ''summary''] [?ans 0, ?ans 1]) =
      ''\"version\":[{\"STATUS\":[{\"STATUS\":\"S\"}],\"N\":[1],\"id\":1}],'' @
      ''\"summary\":[{\"STATUS\":[{\"STATUS\":\"S\"}],\"N\":[2],\"id\":1}]''"
  proof -
    have "decimal (0 + 1) = ''1''" "decimal (1 + 1) = ''2''" by code_simp+
    then show ?thesis by (simp add: member_def escape_string_def json_end_def)
  qed
  have m: "sv_miner demo_server = 0" by (simp add: demo_server_def)
  obtain ts where ts: "ts = [?ans 0, ?ans 1]" by blast
  have l: "length (commas (map2 member [''version'', ''summary''] ts)) + 13 < 2 ^ 40" unfolding ts e by simp
  have "answered demo_api Map.empty CHR ''W'' [''version'', ''summary''] (sv_miner demo_server) ts 2" unfolding ts m by (rule a)
  from joined_reply_composed [OF joined_request_parsed s [symmetric] _ _ _ j this l]
  obtain s' where s': "serve_request demo_api Map.empty CHR ''W'' joined_request demo_server = Some s'" "sv_miner s' = 2"
    "sv_sent s' = [''{'' @ commas (map2 member [''version'', ''summary''] ts) @ json_end]" by (auto simp: demo_server_def)
  then show ?thesis unfolding ts e by (intro exI [of _ s']) (simp add: json_end_def)
qed

section \<open>The text of commands seen\<close>

lemma join_step_seen: "length (fst (join_step env gs isjson g st n)) \<le> length (fst st) + length n + 1"
  by (cases st) (auto simp: join_step_def Let_def split: option.splits)

lemma join_seen: "length (fst (foldl (join_step env gs isjson g) st ns)) \<le> length (fst st) + sum_list (map (\<lambda>n. length n + 1) ns)"
proof (induction ns arbitrary: st)
  case (Cons n ns)
  show ?case using Cons.IH [of "join_step env gs isjson g st n"] join_step_seen [of env gs isjson g st n] by simp
qed simp

lemma split_on_lengths: "sum_list (map (\<lambda>n. Suc (length n)) (split_on x s)) = Suc (length s)"
  by (induction s) (auto split: list.split)

text \<open>The text has room in the \<open>strlen(cmd) + 3\<close> bytes allocated for it.\<close>

lemma cmdsbuf_fits:
  "length (fst (foldl (join_step env gs isjson g) (''|'', True, s) (split_on CHR ''+'' cmd))) + 1 \<le> length cmd + 3"
  using join_seen [of env gs isjson g "(''|'', True, s)" "split_on CHR ''+'' cmd"] by (simp add: split_on_lengths)

section \<open>Asking for a command\<close>

text \<open>Whether a command exists and may be run; \<open>None\<close> when none is named.\<close>

definition checkcommand :: "api_groups \<Rightarrow> string option \<Rightarrow> char \<Rightarrow> (bool \<times> bool) option" where
  "checkcommand gs param g =
     (if param = None \<or> param = Some [] then None
      else case find_command (the param) of
             None \<Rightarrow> Some (False, False)
           | Some c \<Rightarrow> Some (True, may_run gs g (the param)))"

text \<open>The answer is right: a command runs when it is sent alone exactly when the answer says so.\<close>

lemma checkcommand_right:
  assumes "n \<noteq> []" and "run_single env gs n p isjson g s = Some s'"
  shows "sv_calls s' = sv_calls s @ (if checkcommand gs (Some n) g = Some (True, True) then [(n, p, g)] else [])"
proof -
  have send: "send_reply isjson t = Some s' \<Longrightarrow> sv_calls s' = sv_calls t" for t by (auto simp: send_reply_def)
  show ?thesis
  proof (cases "find_command n")
    case None
    then show ?thesis using assms send by (force simp: run_single_def checkcommand_def on_io_def)
  next
    case (Some c)
    then have "send_reply isjson (run_permitted env gs n p isjson g s) = Some s'" using assms(2) by (simp add: run_single_def)
    then show ?thesis using send Some assms(1)
      by (auto simp: run_permitted_def run_func_def checkcommand_def on_io_def split: prod.splits)
  qed
qed

section \<open>Multicast\<close>

text \<open>
  The answer to a datagram of at most 1023 bytes from an accepted address: the port it goes to and
  its text, which is cut at 1023 characters.
\<close>

definition mcast_answer :: "string \<Rightarrow> string \<Rightarrow> int \<Rightarrow> string \<Rightarrow> (int \<times> string) option" where
  "mcast_answer opt_api_mcast_code opt_api_mcast_des opt_api_port buf =
     (let buf = (if buf \<noteq> [] \<and> last buf = CHR 0x0A then butlast buf else buf);
          expect = ''cgminer-'' @ opt_api_mcast_code @ ''-''
      in if length buf > length expect \<and> take (length expect) buf = expect then
           let reply_port = atoi (takeWhile (\<lambda>c. c \<noteq> CHR 0x00) (drop (length expect) buf))
           in if reply_port < 1 \<or> reply_port > 65535 then None
              else Some (reply_port, take 1023 (''cgm-FTW-'' @ int_text opt_api_port @ ''-'' @ opt_api_mcast_des))
         else None)"

text \<open>A request written as it should be is answered at the port it names.\<close>

lemma mcast_round_trip:
  assumes "port \<in> {1..65535}" and "tail = [] \<or> tail = [CHR 0x0A]"
  shows "mcast_answer code des api_port (''cgminer-'' @ code @ ''-'' @ int_text port @ tail) =
    Some (port, take 1023 (''cgm-FTW-'' @ int_text api_port @ ''-'' @ des))"
proof -
  let ?b = "''cgminer-'' @ code @ ''-'' @ int_text port"
  have t: "int_text port = decimal (nat port)" using assms(1) by (simp add: int_text_def)
  have d: "\<forall>x\<in>set (int_text port). isdigit x" "int_text port \<noteq> []" using decimal_digits [of "nat port"] t by auto
  have n: "isdigit x \<Longrightarrow> x \<noteq> CHR 0x00 \<and> x \<noteq> CHR 0x0A" for x by (auto simp: isdigit_def)
  have l: "last ?b \<noteq> CHR 0x0A" using d n last_in_set [OF d(2)] by (simp add: last_append)
  obtain B where B: "B = ?b @ tail" by blast
  have strip: "(if B \<noteq> [] \<and> last B = CHR 0x0A then butlast B else B) = ?b"
    using assms(2) l unfolding B by (auto simp: butlast_append)
  have "takeWhile (\<lambda>c. c \<noteq> CHR 0x00) (int_text port) = int_text port"
    using d(1) n by (simp add: takeWhile_eq_all_conv)
  then have port: "atoi (takeWhile (\<lambda>c. c \<noteq> CHR 0x00) (int_text port)) = port"
    using atoi_int_text [of port] assms(1) by (simp del: takeWhile_eq_all_conv)
  have "mcast_answer code des api_port B = Some (port, take 1023 (''cgm-FTW-'' @ int_text api_port @ ''-'' @ des))"
    unfolding mcast_answer_def strip using assms(1) d(2) port by (simp add: Let_def)
  then show ?thesis by (simp add: B)
qed

end
