(* ===== verification/Proxy.thy ===== *)
theory Proxy
  imports Pool_Control Stratum
begin

text \<open>
  Connections to a pool through a proxy, from \<open>src/cgminer/util.c\<close>: \<open>http_negotiate\<close>,
  \<open>socks5_negotiate\<close>, \<open>socks4_negotiate\<close> and \<open>setup_stratum_socket\<close>, which chooses between
  them. The addresses are those of \<open>Url\<close>.
\<close>

section \<open>The socket\<close>

text \<open>
  What the other side sends and what was sent to it. When its bytes are used up \<open>recv\<close> fails if
  \<open>wr_end\<close> is \<open>None\<close>; otherwise the other side has closed, \<open>recv\<close> returns 0 without storing a
  byte, and \<open>recv_byte\<close> returns the uninitialised byte that is given.
\<close>

record wire =
  wr_in :: "u8 list"
  wr_end :: "u8 option"
  wr_sent :: "u8 list list"

text \<open>\<open>sg\<close> tells whether \<open>char\<close> is signed: it is on x86 and is not on ARM.\<close>

definition char_value :: "bool \<Rightarrow> u8 \<Rightarrow> int" where
  "char_value sg b = (if sg then sint b else uint b)"

definition recv_byte :: "bool \<Rightarrow> wire \<Rightarrow> int \<times> wire" where
  "recv_byte sg w =
     (case wr_in w of
        b # bs \<Rightarrow> (char_value sg b, w\<lparr>wr_in := bs\<rparr>)
      | [] \<Rightarrow> (case wr_end w of None \<Rightarrow> (- 1, w) | Some b \<Rightarrow> (char_value sg b, w)))"

fun recv_bytes :: "bool \<Rightarrow> nat \<Rightarrow> wire \<Rightarrow> wire" where
  "recv_bytes sg 0 w = w"
| "recv_bytes sg (Suc n) w = recv_bytes sg n (snd (recv_byte sg w))"

definition send_bytes :: "u8 list \<Rightarrow> wire \<Rightarrow> wire" where
  "send_bytes bs w = w\<lparr>wr_sent := wr_sent w @ [bs]\<rparr>"

text \<open>Two bytes that have to be as given; the second is not read when the first is not.\<close>

definition expect_two :: "bool \<Rightarrow> int \<Rightarrow> int \<Rightarrow> wire \<Rightarrow> bool \<times> wire" where
  "expect_two sg x y w =
     (case recv_byte sg w of
        (a, w) \<Rightarrow> if a \<noteq> x then (False, w) else (case recv_byte sg w of (b, w) \<Rightarrow> (b = y, w)))"

section \<open>HTTP\<close>

definition http_connect :: "bool \<Rightarrow> string \<Rightarrow> string \<Rightarrow> string" where
  "http_connect http0 host port =
     (let crlf = [CHR 0x0D, CHR 0x0A]
      in take 1023
        (if http0 then ''CONNECT '' @ host @ '':'' @ port @ '' HTTP/1.0'' @ crlf @ crlf
         else ''CONNECT '' @ host @ '':'' @ port @ '' HTTP/1.1'' @ crlf @ ''Host: '' @ host @ '':'' @ port @ crlf @ crlf))"

definition blank_line :: "u8 list" where
  "blank_line = [13, 10, 13, 10]"

fun first_window :: "bool \<Rightarrow> nat \<Rightarrow> u8 list \<Rightarrow> wire \<Rightarrow> u8 list option \<times> wire" where
  "first_window sg 0 win w = (Some win, w)"
| "first_window sg (Suc n) win w =
     (case recv_byte sg w of
        (c, w) \<Rightarrow> if (word_of_int c :: u8) = 0xff then (None, w) else first_window sg n (win @ [word_of_int c]) w)"

text \<open>The loop that looks for the blank line may not end; then the result is \<open>None\<close>.\<close>

partial_function (option) skip_headers :: "bool \<Rightarrow> u8 list \<Rightarrow> wire \<Rightarrow> (bool \<times> wire) option" where
  "skip_headers sg win w =
     (if win = blank_line then Some (True, w)
      else case recv_byte sg w of
        (c, w) \<Rightarrow> if (word_of_int c :: u8) = 0xff then Some (False, w)
                 else skip_headers sg (tl win @ [word_of_int c]) w)"

text \<open>\<open>chunk\<close> is how many bytes the first \<open>recv\<close> finds.\<close>

definition http_negotiate :: "bool \<Rightarrow> nat \<Rightarrow> bool \<Rightarrow> string \<Rightarrow> string \<Rightarrow> wire \<Rightarrow> (bool \<times> wire) option" where
  "http_negotiate sg chunk http0 host port w =
     (let w = send_bytes (chars (http_connect http0 host port)) w;
          len = min (min 12 chunk) (length (wr_in w));
          buf = takeWhile (\<lambda>b. b \<noteq> 0) (take len (wr_in w));
          w = w\<lparr>wr_in := drop len (wr_in w)\<rparr>
      in if len = 0 then Some (False, w)
         else if buf \<noteq> chars ''HTTP/1.1 200'' \<and> buf \<noteq> chars ''HTTP/1.0 200'' then Some (False, w)
         else case first_window sg 4 [] w of
           (None, w) \<Rightarrow> Some (False, w)
         | (Some win, w) \<Rightarrow> skip_headers sg win w)"

section \<open>SOCKS\<close>

definition port_bytes :: "string \<Rightarrow> u8 list" where
  "port_bytes port =
     (let p = (word_of_int (atoi port) :: 16 word)
      in [ucast (drop_bit 8 p), ucast p])"

definition socks5_request :: "string \<Rightarrow> string \<Rightarrow> u8 list" where
  "socks5_request host port =
     (let len = min 255 (length host)
      in [5, 1, 0, 3, of_nat len] @ chars (take len host) @ port_bytes port)"

definition socks5_negotiate :: "bool \<Rightarrow> string \<Rightarrow> string \<Rightarrow> wire \<Rightarrow> bool \<times> wire" where
  "socks5_negotiate sg host port w =
     (case expect_two sg 5 0 (send_bytes [5, 1, 0] w) of
        (False, w) \<Rightarrow> (False, w)
      | (True, w) \<Rightarrow>
          (case expect_two sg 5 0 (send_bytes (socks5_request host port) w) of
             (False, w) \<Rightarrow> (False, w)
           | (True, w) \<Rightarrow>
               let w = snd (recv_byte sg w);
                   (c, w) = recv_byte sg w;
                   atyp = (word_of_int c :: u8)
               in if atyp = 1 then (True, recv_bytes sg 2 (recv_bytes sg 4 w))
                  else if atyp = 3 then
                    let (len, w) = recv_byte sg w
                    in (True, recv_bytes sg 2 (recv_bytes sg (nat len) w))
                  else (False, w)))"

text \<open>
  \<open>inet\<close> is \<open>inet_addr\<close>, -1 for what is not an address; \<open>resolve\<close> is \<open>getaddrinfo\<close>.
\<close>

definition ip_bytes :: "u32 \<Rightarrow> u8 list" where
  "ip_bytes ip = [ucast (drop_bit 24 ip), ucast (drop_bit 16 ip), ucast (drop_bit 8 ip), ucast ip]"

definition socks4_negotiate ::
    "(string \<Rightarrow> u32) \<Rightarrow> (string \<Rightarrow> u32 option) \<Rightarrow> bool \<Rightarrow> bool \<Rightarrow> string \<Rightarrow> string \<Rightarrow> wire \<Rightarrow> bool \<times> wire" where
  "socks4_negotiate inet resolve sg socks4a host port w =
     (let user = chars ''CGMINER'' @ [0];
          inp = inet host;
          (inp, socks4a) =
            (if inp \<noteq> 0xffffffff then (inp, False)
             else case resolve host of Some ip \<Rightarrow> (ip, False) | None \<Rightarrow> (inp, socks4a))
      in if \<not> socks4a \<and> inp = 0xffffffff then (False, w)
         else
           let request = (if \<not> socks4a then [4, 1] @ port_bytes port @ ip_bytes inp @ user
                          else [4, 1] @ port_bytes port @ [0, 0, 0, 1] @ user @ chars (take 255 host) @ [0])
           in case expect_two sg 0 0x5a (send_bytes request w) of
                (False, w) \<Rightarrow> (False, w)
              | (True, w) \<Rightarrow> (True, recv_bytes sg 6 w))"

section \<open>Setting up the socket\<close>

text \<open>
  \<open>connect\<close> is the connection to an address, of the proxy or of the pool, as the system makes it.
  The result: the address connected to, whether the socket is ready for the pool, the details, and
  the socket; an open socket that is not ready is never closed.
\<close>

record attempt =
  at_addr :: "string option \<times> string option"
  at_ready :: bool
  at_details :: pool_details
  at_sock :: "wire option"

record network =
  nt_connect :: "string option \<times> string option \<Rightarrow> wire option"
  nt_inet :: "string \<Rightarrow> u32"
  nt_resolve :: "string \<Rightarrow> u32 option"
  nt_signed :: bool
  nt_chunk :: nat

definition proxy_details :: "string option \<Rightarrow> pool_details \<Rightarrow> pool_details option" where
  "proxy_details opt_socks_proxy p =
     (case (rpc_proxy p, opt_socks_proxy) of
        (None, Some s) \<Rightarrow>
          (case extract_sockaddr s of
             None \<Rightarrow> None
           | Some (_, addr, port) \<Rightarrow>
               Some (p\<lparr>rpc_proxy := Some s, rpc_proxytype := PROXY_SOCKS5, sockaddr_proxy_url := Some addr,
                 sockaddr_proxy_port := (case port of None \<Rightarrow> sockaddr_proxy_port p | Some q \<Rightarrow> Some q)\<rparr>))
      | _ \<Rightarrow> Some p)"

definition negotiate :: "network \<Rightarrow> proxytypes_t \<Rightarrow> string \<Rightarrow> string \<Rightarrow> wire \<Rightarrow> (bool \<times> wire) option" where
  "negotiate net t host port w =
     (case t of
        PROXY_HTTP_1_0 \<Rightarrow> http_negotiate (nt_signed net) (nt_chunk net) True host port w
      | PROXY_HTTP \<Rightarrow> http_negotiate (nt_signed net) (nt_chunk net) False host port w
      | PROXY_SOCKS5 \<Rightarrow> Some (socks5_negotiate (nt_signed net) host port w)
      | PROXY_SOCKS5H \<Rightarrow> Some (socks5_negotiate (nt_signed net) host port w)
      | PROXY_SOCKS4 \<Rightarrow> Some (socks4_negotiate (nt_inet net) (nt_resolve net) (nt_signed net) False host port w)
      | PROXY_SOCKS4A \<Rightarrow> Some (socks4_negotiate (nt_inet net) (nt_resolve net) (nt_signed net) True host port w))"

text \<open>\<open>None\<close>: a fault, or a negotiation that does not end.\<close>

definition setup_stratum_socket :: "network \<Rightarrow> string option \<Rightarrow> pool_details \<Rightarrow> attempt option" where
  "setup_stratum_socket net opt_socks_proxy p =
     (case proxy_details opt_socks_proxy p of
        None \<Rightarrow> None
      | Some p \<Rightarrow>
          let addr = (if rpc_proxy p \<noteq> None then (sockaddr_proxy_url p, sockaddr_proxy_port p)
                      else (sockaddr_url p, stratum_port p))
          in case nt_connect net addr of
               None \<Rightarrow> Some \<lparr>at_addr = addr, at_ready = False, at_details = p, at_sock = None\<rparr>
             | Some w \<Rightarrow>
                 if rpc_proxy p = None then Some \<lparr>at_addr = addr, at_ready = True, at_details = p, at_sock = Some w\<rparr>
                 else (case (sockaddr_url p, stratum_port p) of
                     (Some host, Some port) \<Rightarrow>
                       map_option (\<lambda>(ok, w). \<lparr>at_addr = addr, at_ready = ok, at_details = p, at_sock = Some w\<rparr>)
                         (negotiate net (rpc_proxytype p) host port w)
                   | _ \<Rightarrow> None))"

section \<open>What SOCKS means\<close>

text \<open>A reply of a SOCKS5 server, with the address it is bound to, and a request as a server reads it.\<close>

datatype socks_addr = Ip4 "u8 list" | Domain "u8 list"

fun addr_bytes :: "socks_addr \<Rightarrow> u8 list" where
  "addr_bytes (Ip4 a) = 1 # a"
| "addr_bytes (Domain d) = 3 # of_nat (length d) # d"

fun addr_ok :: "socks_addr \<Rightarrow> bool" where
  "addr_ok (Ip4 a) \<longleftrightarrow> length a = 4"
| "addr_ok (Domain d) \<longleftrightarrow> length d \<le> 255"

definition socks5_parse :: "u8 list \<Rightarrow> (u8 list \<times> nat) option" where
  "socks5_parse r =
     (let n = unat (r ! 4)
      in if take 4 r = [5, 1, 0, 3] \<and> length r = n + 7
         then Some (take n (drop 5 r), 256 * unat (r ! (5 + n)) + unat (r ! (6 + n))) else None)"

lemma length_chars_u8: "length (chars s) = length s"
  by (simp add: chars_def)

lemma port_bytes_value:
  obtains x y where "port_bytes port = [x, y]" and "256 * unat x + unat y = nat (atoi port mod 65536)"
proof -
  define p where "p = (word_of_int (atoi port) :: 16 word)"
  have l: "unat p < 65536" using unsigned_less [of p] by simp
  have "unat (ucast (drop_bit 8 p) :: u8) = unat (drop_bit 8 p) mod 256" by (simp add: unsigned_ucast_eq take_bit_eq_mod)
  also have "unat (drop_bit 8 p) = unat p div 256" 
    by (subst unsigned_drop_bit_eq) (use l in \<open>simp add: drop_bit_eq_div take_bit_eq_mod\<close>)
  finally have "unat (ucast (drop_bit 8 p) :: u8) = unat p div 256" using l by simp
  moreover have "unat (ucast p :: u8) = unat p mod 256" by (simp add: unsigned_ucast_eq take_bit_eq_mod)
  moreover have "unat p = nat (atoi port mod 65536)"
    by (simp add: p_def unsigned_of_int take_bit_eq_mod)
  ultimately show ?thesis using that [of "ucast (drop_bit 8 p)" "ucast p"]
    by (simp add: port_bytes_def p_def [symmetric] Let_def)
qed

lemma socks5_parse_request:
  assumes "length h \<le> 255"
  shows "socks5_parse ([5, 1, 0, 3, of_nat (length h)] @ h @ [x, y]) = Some (h, 256 * unat x + unat y)"
proof -
  let ?r = "[5, 1, 0, 3, of_nat (length h)] @ h @ [x, y]"
  have n: "unat (of_nat (length h) :: u8) = length h" using assms by (simp add: unat_of_nat)
  have "?r ! (5 + length h) = (drop 5 ?r) ! length h" "?r ! (6 + length h) = (drop 5 ?r) ! (length h + 1)"
    by (simp_all add: nth_append)
  then have "?r ! (5 + length h) = x" "?r ! (6 + length h) = y" by (simp_all add: nth_append)
  then show ?thesis using n by (simp add: socks5_parse_def Let_def)
qed

lemma socks5_request_parsed:
  "socks5_parse (socks5_request host port) = Some (chars (take 255 host), nat (atoi port mod 65536))"
proof -
  obtain x y where p: "port_bytes port = [x, y]" "256 * unat x + unat y = nat (atoi port mod 65536)"
    by (rule port_bytes_value)
  let ?h = "chars (take 255 host)"
  have l: "length ?h = min 255 (length host)" by (simp add: length_chars_u8 min.commute)
  have "take (min 255 (length host)) host = take 255 host" by (simp add: min_def)
  then have "socks5_request host port = [5, 1, 0, 3, of_nat (length ?h)] @ ?h @ [x, y]"
    by (simp add: socks5_request_def Let_def p(1) l)
  then show ?thesis using socks5_parse_request [of ?h x y] l p(2) by simp
qed

section \<open>Reading replies\<close>

lemma recv_byte_Cons: "recv_byte sg (w\<lparr>wr_in := b # bs\<rparr>) = (char_value sg b, w\<lparr>wr_in := bs\<rparr>)"
  by (simp add: recv_byte_def)

lemma recv_bytes_take: "n \<le> length bs \<Longrightarrow> recv_bytes sg n (w\<lparr>wr_in := bs\<rparr>) = w\<lparr>wr_in := drop n bs\<rparr>"
proof (induction n arbitrary: bs)
  case (Suc n)
  then obtain b bs' where "bs = b # bs'" by (cases bs) auto
  then show ?case using Suc by (simp add: recv_byte_Cons)
qed simp

lemma char_value_small: "b < 128 \<Longrightarrow> char_value sg b = uint b"
proof -
  assume "b < 128"
  then have "uint b < 128" by (simp add: word_less_def)
  then have "signed_take_bit 7 (uint b) = uint b" by (intro signed_take_bit_int_eq_self) (simp_all add: order.trans [of _ 0])
  then show ?thesis by (simp add: char_value_def sint_uint)
qed

lemma expect_two_Cons:
  "expect_two sg x y (w\<lparr>wr_in := a # b # bs\<rparr>) =
     (if char_value sg a \<noteq> x then (False, w\<lparr>wr_in := b # bs\<rparr>) else (char_value sg b = y, w\<lparr>wr_in := bs\<rparr>))"
  by (simp add: expect_two_def recv_byte_Cons)

lemma char_value_consts: "char_value sg 5 = 5" "char_value sg 0 = 0" "char_value sg 0x5a = 0x5a" "char_value sg 1 = 1" "char_value sg 3 = 3"
  by (simp_all add: char_value_small)


definition granted :: wire where
  "granted = \<lparr>wr_in = [5, 0] @ [5, 0, 0] @ addr_bytes (Ip4 [10, 0, 0, 1]) @ [4, 56] @ chars ''{}'', wr_end = None, wr_sent = []\<rparr>"


text \<open>With a signed \<open>char\<close> a name of 128 characters or more is left in the stream but for two bytes.\<close>

lemma socks5_loses_track:
  assumes "wr_in w = [5, 0] @ [5, 0, r] @ addr_bytes (Domain d) @ [p, q] @ rest" and "128 \<le> length d" and "length d \<le> 255"
  shows "socks5_negotiate True host port w =
    (True, w\<lparr>wr_in := drop 2 (d @ [p, q] @ rest), wr_sent := wr_sent w @ [[5, 1, 0], socks5_request host port]\<rparr>)"
proof -
  have w: "send_bytes [5, 1, 0] w = w\<lparr>wr_sent := wr_sent w @ [[5, 1, 0]]\<rparr>\<lparr>wr_in := 5 # 0 # [5, 0, r] @ addr_bytes (Domain d) @ [p, q] @ rest\<rparr>"
    using assms(1) by (simp add: send_bytes_def)
  have s: "send_bytes x (v\<lparr>wr_in := y\<rparr>) = v\<lparr>wr_sent := wr_sent v @ [x]\<rparr>\<lparr>wr_in := y\<rparr>" for x v y
    by (simp add: send_bytes_def)
  have u: "uint (of_nat (length d) :: u8) = int (length d)" using assms(3) by (simp add: unsigned_of_nat take_bit_eq_mod)
  have "int (length d) div 128 = 1" using assms(2,3) by simp
  then have "bit (int (length d)) 7" by (simp add: bit_iff_odd)
  then have "signed_take_bit 7 (int (length d)) < 0" by (simp add: signed_take_bit_negative_iff)
  then have "sint (of_nat (length d) :: u8) < 0" by (simp add: sint_uint u)
  then have l: "nat (char_value True (of_nat (length d))) = 0" by (simp add: char_value_def)
  show ?thesis unfolding socks5_negotiate_def w using recv_bytes_take [of 2 "d @ [p, q] @ rest"] assms(2)
    by (simp add: expect_two_Cons char_value_consts s recv_byte_Cons l)
qed

section \<open>HTTP proxies\<close>

lemma char_back: "(word_of_int (char_value sg b) :: u8) = b"
  by (simp add: char_value_def)

lemma skip_headers_step:
  "skip_headers sg win (w\<lparr>wr_in := b # bs\<rparr>) =
     (if win = blank_line then Some (True, w\<lparr>wr_in := b # bs\<rparr>)
      else if b = 0xff then Some (False, w\<lparr>wr_in := bs\<rparr>) else skip_headers sg (tl win @ [b]) (w\<lparr>wr_in := bs\<rparr>))"
  by (subst skip_headers.simps) (simp add: recv_byte_Cons char_back)

lemma skip_headers_found:
  assumes "win @ bs = h @ blank_line @ rest" and "length win = 4" and "0xff \<notin> set h"
    and "\<forall>p q. h @ blank_line = p @ blank_line @ q \<longrightarrow> q = []"
  shows "skip_headers sg win (w\<lparr>wr_in := bs\<rparr>) = Some (True, w\<lparr>wr_in := rest\<rparr>)"
  using assms
proof (induction h arbitrary: win bs)
  case Nil
  moreover have "length win = length blank_line" using Nil.prems(2) by (simp add: blank_line_def)
  ultimately have "win = blank_line" "bs = rest" by simp_all
  then show ?case by (subst skip_headers.simps) simp
next
  case (Cons c h)
  have win: "win \<noteq> blank_line"
  proof
    assume "win = blank_line"
    then have "take 4 ((c # h) @ blank_line @ rest) = blank_line" using Cons.prems(1,2) by (metis append_eq_conv_conj)
    moreover have "take 4 (((c # h) @ blank_line) @ rest) = take 4 ((c # h) @ blank_line)"
      by (subst take_append) (simp add: blank_line_def)
    ultimately have "take 4 ((c # h) @ blank_line) = blank_line" by simp
    then have "(c # h) @ blank_line = [] @ blank_line @ drop 4 ((c # h) @ blank_line)" by (metis append_Nil append_take_drop_id)
    then have "drop 4 ((c # h) @ blank_line) = []" using Cons.prems(4) by blast
    then have "length ((c # h) @ blank_line) \<le> 4" by (simp only: drop_eq_Nil)
    then show False by (simp add: blank_line_def)
  qed
  obtain v where v: "win = c # v" using Cons.prems(1,2) by (cases win) auto
  have len: "length win + length bs = length h + 5 + length rest"
    using arg_cong [OF Cons.prems(1), of length] by (simp add: blank_line_def)
  then obtain b bs' where bs: "bs = b # bs'" using Cons.prems(2) by (cases bs) auto
  have eq: "(v @ [b]) @ bs' = h @ blank_line @ rest" using Cons.prems(1) by (simp add: v bs)
  have "b = ((v @ [b]) @ bs') ! 3" using Cons.prems(2) by (simp add: v nth_append)
  then have b: "b = (h @ blank_line @ rest) ! 3" by (simp only: eq)
  have "b \<noteq> 0xff"
  proof (cases "3 < length h")
    case True
    then show ?thesis using b Cons.prems(3) by (simp add: nth_append) (metis nth_mem)
  next
    case False
    moreover have "3 - length h < length blank_line" by (simp add: blank_line_def)
    ultimately have "b = blank_line ! (3 - length h)" using b by (simp add: nth_append)
    moreover have "blank_line ! (3 - length h) \<in> set blank_line" by (intro nth_mem) (simp add: blank_line_def)
    ultimately show ?thesis by (auto simp: blank_line_def)
  qed
  moreover have "skip_headers sg (v @ [b]) (w\<lparr>wr_in := bs'\<rparr>) = Some (True, w\<lparr>wr_in := rest\<rparr>)"
  proof (rule Cons.IH [OF eq])
    show "length (v @ [b]) = 4" using Cons.prems(2) v by simp
    show "0xff \<notin> set h" using Cons.prems(3) by simp
    show "\<forall>p q. h @ blank_line = p @ blank_line @ q \<longrightarrow> q = []"
    proof (intro allI impI)
      fix p q assume "h @ blank_line = p @ blank_line @ q"
      then have "(c # h) @ blank_line = (c # p) @ blank_line @ q" by simp
      then show "q = []" using Cons.prems(4) by blast
    qed
  qed
  ultimately show ?case using win by (simp add: bs skip_headers_step v)
qed

lemma first_window_take:
  "n \<le> length bs \<Longrightarrow> 0xff \<notin> set (take n bs) \<Longrightarrow>
   first_window sg n win (w\<lparr>wr_in := bs\<rparr>) = (Some (win @ take n bs), w\<lparr>wr_in := drop n bs\<rparr>)"
proof (induction n arbitrary: bs win)
  case (Suc n)
  then obtain b bs' where "bs = b # bs'" by (cases bs) auto
  then show ?case using Suc by (simp add: recv_byte_Cons char_back)
qed simp

lemma http_negotiate_status:
  assumes "wr_in w = chars v @ bs" and "v \<in> {''HTTP/1.1 200'', ''HTTP/1.0 200''}" and "12 \<le> chunk"
    and "4 \<le> length bs" and "0xff \<notin> set (take 4 bs)"
  shows "http_negotiate sg chunk http0 host port w =
    skip_headers sg (take 4 bs) (w\<lparr>wr_sent := wr_sent w @ [chars (http_connect http0 host port)]\<rparr>\<lparr>wr_in := drop 4 bs\<rparr>)"
proof -
  have v: "length (chars v) = 12" "takeWhile (\<lambda>b. b \<noteq> 0) (chars v) = chars v"
    "chars v = chars ''HTTP/1.1 200'' \<or> chars v = chars ''HTTP/1.0 200''"
    using assms(2) by (auto simp: chars_def)
  have "min (min 12 chunk) (length (wr_in w)) = 12" using assms(1,3) v(1) by simp
  moreover have "take 12 (wr_in w) = chars v" "drop 12 (wr_in w) = bs" using assms(1) v(1) by simp_all
  ultimately show ?thesis using v first_window_take [OF assms(4,5), of sg "[]" "w\<lparr>wr_sent := wr_sent w @ [chars (http_connect http0 host port)]\<rparr>"]
    by (auto simp: http_negotiate_def send_bytes_def Let_def)
qed

text \<open>Through an HTTP proxy that grants the request, the pool's protocol starts exactly behind the
  first blank line of the answer, whatever headers it has.\<close>

theorem http_reaches_pool:
  assumes "wr_in w = chars v @ h @ blank_line @ rest" and "v \<in> {''HTTP/1.1 200'', ''HTTP/1.0 200''}" and "12 \<le> chunk"
    and "0xff \<notin> set h" and "\<forall>p q. h @ blank_line = p @ blank_line @ q \<longrightarrow> q = []"
  shows "http_negotiate sg chunk http0 host port w =
    Some (True, w\<lparr>wr_in := rest, wr_sent := wr_sent w @ [chars (http_connect http0 host port)]\<rparr>)"
proof -
  let ?bs = "h @ blank_line @ rest" and ?w = "w\<lparr>wr_sent := wr_sent w @ [chars (http_connect http0 host port)]\<rparr>"
  have l: "4 \<le> length ?bs" by (simp add: blank_line_def)
  have "set (take 4 ?bs) \<subseteq> set (h @ blank_line)"
  proof -
    have "take 4 ((h @ blank_line) @ rest) = take 4 (h @ blank_line)" by (subst take_append) (simp add: blank_line_def)
    then have "take 4 ?bs = take 4 (h @ blank_line)" by (simp only: append_assoc)
    then show ?thesis using set_take_subset [of 4 "h @ blank_line"] by metis
  qed
  then have "0xff \<notin> set (take 4 ?bs)" using assms(4) by (auto simp: blank_line_def)
  from http_negotiate_status [OF assms(1-3) l this]
  have "http_negotiate sg chunk http0 host port w = skip_headers sg (take 4 ?bs) (?w\<lparr>wr_in := drop 4 ?bs\<rparr>)" .
  also have "\<dots> = Some (True, ?w\<lparr>wr_in := rest\<rparr>)"
    by (rule skip_headers_found [OF append_take_drop_id _ assms(4,5)]) (use l in simp)
  finally show ?thesis by simp
qed

theorem http_reaches_pool_witness:
  "http_negotiate False 12 False ''pool.org'' ''3333''
     \<lparr>wr_in = chars ''HTTP/1.1 200'' @ chars '' OK'' @ blank_line @ chars ''{}'', wr_end = None, wr_sent = []\<rparr> =
   Some (True, \<lparr>wr_in = chars ''{}'', wr_end = None, wr_sent = [chars (http_connect False ''pool.org'' ''3333'')]\<rparr>)"
proof -
  have h: "chars '' OK'' = [32, 79, 75]" by (simp add: chars_def)
  have "q = []" if "chars '' OK'' @ blank_line = p @ blank_line @ q" for p q
  proof -
    have "length p + length q = 3" using arg_cong [OF that, of length] by (simp add: h blank_line_def)
    then consider "p = []" | a where "p = [a]" | a b where "p = [a, b]" | a b c where "p = [a, b, c]" "q = []"
      by (cases p; cases "tl p"; cases "tl (tl p)"; cases "tl (tl (tl p))") auto
    then show "q = []" using that by cases (simp_all add: h blank_line_def)
  qed
  then show ?thesis
    using http_reaches_pool [of "\<lparr>wr_in = chars ''HTTP/1.1 200'' @ chars '' OK'' @ blank_line @ chars ''{}'', wr_end = None, wr_sent = []\<rparr>"
      "''HTTP/1.1 200''" "chars '' OK''" "chars ''{}''" 12 False False "''pool.org''" "''3333''"] by (simp add: h)
qed

text \<open>A search for a blank line that never comes, of a connection that is closed.\<close>

definition hopeless :: "u8 list \<Rightarrow> wire \<Rightarrow> bool" where
  "hopeless win w \<longleftrightarrow> length win = 4 \<and> (\<forall>p q. win @ wr_in w \<noteq> p @ blank_line @ q) \<and> 0xff \<notin> set (wr_in w) \<and>
     (\<exists>g. wr_end w = Some g \<and> g \<noteq> 10 \<and> g \<noteq> 0xff)"

lemma hopeless_step:
  assumes "hopeless win w" and "recv_byte sg w = (c, w')"
  shows "win \<noteq> blank_line \<and> (word_of_int c :: u8) \<noteq> 0xff \<and> hopeless (tl win @ [word_of_int c]) w'"
proof -
  obtain g where g: "wr_end w = Some g" "g \<noteq> 10" "g \<noteq> 0xff" using assms(1) by (auto simp: hopeless_def)
  obtain a v where win: "win = a # v" "length v = 3" using assms(1) by (cases win) (auto simp: hopeless_def)
  have no: "win @ wr_in w \<noteq> p @ blank_line @ q" for p q using assms(1) by (auto simp: hopeless_def)
  have "win \<noteq> blank_line" using no [of "[]" "wr_in w"] by auto
  show ?thesis
  proof (cases "wr_in w")
    case Nil
    then have w': "w' = w" "word_of_int c = g" using assms(2) g by (auto simp: recv_byte_def char_back)
    have "v @ [g] \<noteq> p @ blank_line @ q" for p q
    proof
      assume e: "v @ [g] = p @ blank_line @ q"
      from arg_cong [OF e, of length] win(2) have "p = []" "q = []" by (simp_all add: blank_line_def)
      then show False using e g(2) by (simp add: blank_line_def append_eq_Cons_conv)
    qed
    then show ?thesis using \<open>win \<noteq> blank_line\<close> w' g Nil win by (simp add: hopeless_def)
  next
    case (Cons b bs)
    then have w': "w' = w\<lparr>wr_in := bs\<rparr>" "word_of_int c = b" using assms(2) by (auto simp: recv_byte_def char_back)
    have "(v @ [b]) @ bs \<noteq> p @ blank_line @ q" for p q using no [of "a # p" q] by (simp add: win Cons)
    then show ?thesis using \<open>win \<noteq> blank_line\<close> w' g Cons win assms(1) by (simp add: hopeless_def)
  qed
qed

lemma hopeless_not_some:
  assumes "skip_headers sg win w = Some y"
  shows "\<not> hopeless win w"
proof (rule skip_headers.raw_induct [where P = "\<lambda>sg win w y. \<not> hopeless win w", OF _ assms])
  fix f sg win w y
  assume ih: "\<And>sg win w y. f sg win w = Some y \<Longrightarrow> \<not> hopeless win w"
    and body: "(if win = blank_line then Some (True, w)
      else case recv_byte sg w of (c, w) \<Rightarrow> if (word_of_int c :: u8) = 0xff then Some (False, w)
        else f sg (tl win @ [word_of_int c]) w) = Some y"
  show "\<not> hopeless win w"
  proof
    assume h: "hopeless win w"
    obtain c w' where r: "recv_byte sg w = (c, w')" by fastforce
    from hopeless_step [OF h r] show False using ih body r by auto
  qed
qed

lemma hopeless_never: "hopeless win w \<Longrightarrow> skip_headers sg win w = None"
  using hopeless_not_some by (cases "skip_headers sg win w") auto

text \<open>C36: A proxy that grants an HTTP request and closes the connection before the blank line keeps the
  miner's thread for ever: \<open>recv_byte\<close> does not see that \<open>recv\<close> returned 0 and gives back
  a byte that was never read, so the search for the blank line goes on without end (unless
  that byte happens to be a line feed or 0xff).\<close>

theorem http_never_returns:
  assumes "wr_in w = chars v @ h" and "v \<in> {''HTTP/1.1 200'', ''HTTP/1.0 200''}" and "12 \<le> chunk" and "4 \<le> length h"
    and "0xff \<notin> set h" and "\<forall>p q. h \<noteq> p @ blank_line @ q" and "wr_end w = Some g" and "g \<noteq> 10" and "g \<noteq> 0xff"
  shows "http_negotiate sg chunk http0 host port w = None"
proof -
  have "0xff \<notin> set (take 4 h)" using assms(5) set_take_subset by fastforce
  moreover have "hopeless (take 4 h) (w\<lparr>wr_sent := wr_sent w @ [chars (http_connect http0 host port)]\<rparr>\<lparr>wr_in := drop 4 h\<rparr>)"
    using assms(4-9) set_drop_subset by (fastforce simp: hopeless_def)
  ultimately show ?thesis using http_negotiate_status [OF assms(1-4)] hopeless_never by simp
qed

theorem http_never_returns_witness:
  "http_negotiate False 12 False ''pool.org'' ''3333''
     \<lparr>wr_in = chars ''HTTP/1.1 200'' @ chars '' OK.'', wr_end = Some 46, wr_sent = []\<rparr> = None"
proof -
  have h: "chars '' OK.'' = [32, 79, 75, 46]" by (simp add: chars_def)
  have "chars '' OK.'' \<noteq> p @ blank_line @ q" for p q
  proof
    assume e: "chars '' OK.'' = p @ blank_line @ q"
    from arg_cong [OF e, of length] have "p = []" by (simp add: h blank_line_def)
    then show False using e by (simp add: h blank_line_def)
  qed
  then show ?thesis
    by (intro http_never_returns [of _ "''HTTP/1.1 200''" "chars '' OK.''" _ 46]) (simp_all add: h)
qed

section \<open>The socket of a pool\<close>


definition demo_details :: pool_details where
  "demo_details = \<lparr>rpc_url = None, rpc_user = None, rpc_pass = None, rpc_userpass = None, rpc_proxy = None,
     rpc_proxytype = PROXY_HTTP, sockaddr_url = Some ''pool.org'', stratum_port = Some ''3333'', stratum_url = None,
     sockaddr_proxy_url = None, sockaddr_proxy_port = None, stratum_pool = True\<rparr>"

definition demo_network :: network where
  "demo_network = \<lparr>nt_connect = (\<lambda>a. if a = (Some ''tor'', Some ''9050'') then Some granted else None),
     nt_inet = (\<lambda>h. 0xffffffff), nt_resolve = (\<lambda>h. None), nt_signed = False, nt_chunk = 12\<rparr>"


end
