(* ===== verification/Stratum_Connect.thy ===== *)
theory Stratum_Connect
  imports Pool_Control Stratum_Thread
begin

text \<open>
  Subscribing to a pool and authorising there, from \<open>src/cgminer/util.c\<close>: \<open>initiate_stratum\<close>,
  \<open>auth_stratum\<close>, \<open>restart_stratum\<close> and the answer to \<open>client.get_version\<close>. What the network
  does in each attempt is given; the lines are those \<open>recv_line\<close> returns.

  \<open>None\<close> is a memory fault: the buffer of a request overrun, or a JSON value used after it was
  freed. Requests have 8192 bytes with their NUL.
\<close>

section \<open>Requests\<close>

definition subscribe_text :: "string \<Rightarrow> bool \<Rightarrow> int \<Rightarrow> stratum \<Rightarrow> string" where
  "subscribe_text agent recvd ident t =
     ''{\"id\": '' @ int_text ident @ '', \"method\": \"mining.subscribe\", \"params\": ['' @
     (if recvd then []
      else case t_sessionid t of
        Some s \<Rightarrow> ''\"'' @ agent @ ''\", \"'' @ text_of s @ ''\"''
      | None \<Rightarrow> ''\"'' @ agent @ ''\"'') @ '']}''"

definition authorize_text :: "int \<Rightarrow> string \<Rightarrow> string \<Rightarrow> string" where
  "authorize_text ident user pass =
     ''{\"id\": '' @ int_text ident @ '', \"method\": \"mining.authorize\", \"params\": [\"'' @ user @ ''\", \"'' @ pass @ ''\"]}''"

text \<open>\<open>send\<close> is \<open>stratum_send\<close> with the text.\<close>

definition send_version :: "string \<Rightarrow> (string \<Rightarrow> bool) \<Rightarrow> json option \<Rightarrow> bool" where
  "send_version agent send val =
     (let i = sint (word_of_int (json_integer_value (json_object_get val ''id'')) :: u32)
      in if i = 0 then False
         else send (''{\"id\": '' @ int_text i @ '', \"result\": \"'' @ agent @ ''\", \"error\": null}''))"

section \<open>Subscribing\<close>

text \<open>One pass: whether the socket could be set up, the request sent, an answer came in time, and its line.\<close>

record pass =
  pa_socket :: bool
  pa_sent :: bool
  pa_ready :: bool
  pa_line :: "u8 list option"

text \<open>The variable \<open>val\<close>: no value, a value, or one that was freed.\<close>

datatype held = Nothing | Live_value | Freed_value

record connecting =
  cn_id :: int
  cn_recvd :: bool
  cn_sockd :: bool
  cn_val :: held
  cn_sent :: "string list"

definition subscribe_pass ::
    "(u8 list \<Rightarrow> json option) \<Rightarrow> string \<Rightarrow> pass \<Rightarrow> connecting \<times> stratum \<Rightarrow> (bool \<times> connecting \<times> stratum) option" where
  "subscribe_pass loads agent p ct =
     (case ct of (c, t) \<Rightarrow>
        let t = t\<lparr>t_active := False\<rparr>
        in if \<not> pa_socket p then Some (False, c\<lparr>cn_sockd := False\<rparr>, t)
           else
             let t = (if cn_recvd c then t\<lparr>t_sockbuf := []\<rparr> else t);
                 s = subscribe_text agent (cn_recvd c) (cn_id c) t;
                 c = c\<lparr>cn_sockd := True, cn_id := cn_id c + 1, cn_sent := cn_sent c @ [s]\<rparr>
             in if length s + 1 > 8192 then None
                else if \<not> pa_sent p then Some (False, c, t)
                else if \<not> pa_ready p then Some (False, c, t)
                else case pa_line p of
                  None \<Rightarrow> Some (False, c, t)
                | Some line \<Rightarrow>
                    (case loads line of
                       None \<Rightarrow> Some (False, c\<lparr>cn_recvd := True, cn_val := Nothing\<rparr>, t)
                     | Some j \<Rightarrow>
                         let (ret, t) = subscribe_reply t (json_object_get (Some j) ''result'') (json_object_get (Some j) ''error'')
                         in Some (ret, c\<lparr>cn_recvd := True, cn_val := Live_value\<rparr>, t)))"

definition json_decref :: "held \<Rightarrow> held option" where
  "json_decref v = (case v of Nothing \<Rightarrow> Some Nothing | Live_value \<Rightarrow> Some Freed_value | Freed_value \<Rightarrow> None)"

text \<open>The end of a failed attempt.\<close>

definition give_up :: "connecting \<times> stratum \<Rightarrow> (bool \<times> connecting \<times> stratum) option" where
  "give_up ct =
     (case ct of (c, t) \<Rightarrow>
        case json_decref (cn_val c) of
          None \<Rightarrow> None
        | Some v \<Rightarrow> Some (False, c\<lparr>cn_val := v\<rparr>, if cn_sockd c then suspend_stratum t else t))"

definition initiate_stratum ::
    "(u8 list \<Rightarrow> json option) \<Rightarrow> string \<Rightarrow> pass \<Rightarrow> pass \<Rightarrow> int \<Rightarrow> stratum \<Rightarrow> (bool \<times> connecting \<times> stratum) option" where
  "initiate_stratum loads agent p1 p2 ident t =
     (case subscribe_pass loads agent p1
        (\<lparr>cn_id = ident, cn_recvd = False, cn_sockd = False, cn_val = Nothing, cn_sent = []\<rparr>, t) of
        None \<Rightarrow> None
      | Some (True, c, t) \<Rightarrow> Some (True, c, t)
      | Some (False, c, t) \<Rightarrow>
          if \<not> cn_recvd c then give_up (c, t)
          else (case json_decref (cn_val c) of
              None \<Rightarrow> None
            | Some v \<Rightarrow>
                (case subscribe_pass loads agent p2 (c\<lparr>cn_val := v\<rparr>, t\<lparr>t_sessionid := None, t_nonce1 := None\<rparr>) of
                   None \<Rightarrow> None
                 | Some (True, c, t) \<Rightarrow> Some (True, c, t)
                 | Some (False, c, t) \<Rightarrow> give_up (c, t))))"

section \<open>Authorising\<close>

text \<open>
  The lines before the answer are messages of the pool, and the first that is not a message, or one
  that cannot be used, is the answer. The end of the list is a line that does not come.
\<close>

fun await_answer ::
    "(u8 list \<Rightarrow> json option) \<Rightarrow> (stratum \<Rightarrow> json option \<Rightarrow> (bool \<times> stratum) option) \<Rightarrow> u8 list list \<Rightarrow> stratum \<Rightarrow>
     (u8 list option \<times> stratum) option" where
  "await_answer loads meth [] t = Some (None, t)"
| "await_answer loads meth (s # ss) t =
     (case meth t (loads s) of
        None \<Rightarrow> None
      | Some (True, t) \<Rightarrow> await_answer loads meth ss t
      | Some (False, t) \<Rightarrow> Some (Some s, t))"

text \<open>\<open>sent\<close> tells whether the request could be sent.\<close>

definition auth_stratum ::
    "(u8 list \<Rightarrow> json option) \<Rightarrow> (stratum \<Rightarrow> json option \<Rightarrow> (bool \<times> stratum) option) \<Rightarrow> string \<Rightarrow> string \<Rightarrow> bool \<Rightarrow>
     u8 list list \<Rightarrow> int \<Rightarrow> stratum \<Rightarrow> (bool \<times> stratum) option" where
  "auth_stratum loads meth user pass sent lines ident t =
     (if length (authorize_text ident user pass) + 1 > 8192 then None
      else if \<not> sent then Some (False, t)
      else case await_answer loads meth lines t of
        None \<Rightarrow> None
      | Some (None, t) \<Rightarrow> Some (False, t)
      | Some (Some s, t) \<Rightarrow>
          let val = loads s;
              res_val = json_object_get val ''result'';
              err_val = json_object_get val ''error''
          in if res_val = None \<or> res_val = Some JFalse \<or> (err_val \<noteq> None \<and> \<not> json_is_null err_val)
             then Some (False, suspend_stratum t) else Some (True, t))"

definition restart_stratum ::
    "(u8 list \<Rightarrow> json option) \<Rightarrow> (stratum \<Rightarrow> json option \<Rightarrow> (bool \<times> stratum) option) \<Rightarrow> string \<Rightarrow> string \<Rightarrow> string \<Rightarrow>
     pass \<Rightarrow> pass \<Rightarrow> bool \<Rightarrow> u8 list list \<Rightarrow> int \<Rightarrow> stratum \<Rightarrow> (bool \<times> stratum) option" where
  "restart_stratum loads meth agent user pass p1 p2 sent lines ident t =
     (let t = (if t_active t then suspend_stratum t else t)
      in case initiate_stratum loads agent p1 p2 ident t of
           None \<Rightarrow> None
         | Some (False, c, t) \<Rightarrow> Some (False, t)
         | Some (True, c, t) \<Rightarrow> auth_stratum loads meth user pass sent lines (cn_id c) t)"

section \<open>A second attempt\<close>

text \<open>A pass in which the pool's answer was received.\<close>

definition answered_pass :: "pass \<Rightarrow> bool" where
  "answered_pass p \<longleftrightarrow> pa_socket p \<and> pa_sent p \<and> pa_ready p \<and> pa_line p \<noteq> None"

definition refused :: "json \<Rightarrow> bool" where
  "refused j \<longleftrightarrow> (\<forall>t. \<not> fst (subscribe_reply t (json_object_get (Some j) ''result'') (json_object_get (Some j) ''error'')))"

lemma subscribe_reply_same: "\<not> fst (subscribe_reply t r e) \<Longrightarrow> subscribe_reply t r e = (False, t)"
  by (auto simp: subscribe_reply_def Let_def split: option.splits if_splits)

lemma subscribe_pass_refused:
  assumes "answered_pass p" and "pa_line p = Some l" and "loads l = Some j" and "refused j"
    and "length (subscribe_text agent (cn_recvd c) (cn_id c) t) + 1 \<le> 8192"
  obtains c' t' where "subscribe_pass loads agent p (c, t) = Some (False, c', t')" "cn_recvd c'" "cn_sockd c'"
    "cn_val c' = Live_value" "cn_id c' = cn_id c + 1"
    "t' = (if cn_recvd c then t\<lparr>t_active := False, t_sockbuf := []\<rparr> else t\<lparr>t_active := False\<rparr>)"
proof -
  have s: "subscribe_text agent (cn_recvd c) (cn_id c) (t\<lparr>t_active := x, t_sockbuf := y\<rparr>) = subscribe_text agent (cn_recvd c) (cn_id c) t"
    "subscribe_text agent (cn_recvd c) (cn_id c) (t\<lparr>t_active := x\<rparr>) = subscribe_text agent (cn_recvd c) (cn_id c) t" for x y
    by (simp_all add: subscribe_text_def)
  have r: "subscribe_reply u (json_object_get (Some j) ''result'') (json_object_get (Some j) ''error'') = (False, u)" for u
    using assms(4) subscribe_reply_same by (simp add: refused_def)
  show ?thesis using assms(1-3,5) s r
    by (intro that [of "c\<lparr>cn_sockd := True, cn_id := cn_id c + 1,
        cn_sent := cn_sent c @ [subscribe_text agent (cn_recvd c) (cn_id c) t], cn_recvd := True, cn_val := Live_value\<rparr>"])
      (auto simp: subscribe_pass_def answered_pass_def Let_def)
qed

lemma subscribe_pass_unanswered:
  assumes "\<not> answered_pass p" and "length (subscribe_text agent (cn_recvd c) (cn_id c) t) + 1 \<le> 8192"
  obtains c' t' where "subscribe_pass loads agent p (c, t) = Some (False, c', t')" "cn_val c' = cn_val c" "cn_recvd c' = cn_recvd c"
proof -
  have s: "subscribe_text agent (cn_recvd c) (cn_id c) (t\<lparr>t_active := x, t_sockbuf := y\<rparr>) = subscribe_text agent (cn_recvd c) (cn_id c) t"
    "subscribe_text agent (cn_recvd c) (cn_id c) (t\<lparr>t_active := x\<rparr>) = subscribe_text agent (cn_recvd c) (cn_id c) t" for x y
    by (simp_all add: subscribe_text_def)
  have "\<exists>c' t'. subscribe_pass loads agent p (c, t) = Some (False, c', t') \<and> cn_val c' = cn_val c \<and> cn_recvd c' = cn_recvd c"
    using assms s by (auto simp: subscribe_pass_def answered_pass_def Let_def)
  then show ?thesis using that by blast
qed

lemma subscribe_pass_answered:
  assumes "answered_pass p" and "length (subscribe_text agent (cn_recvd c) (cn_id c) t) + 1 \<le> 8192"
  obtains ok c' t' where "subscribe_pass loads agent p (c, t) = Some (ok, c', t')" "cn_val c' \<noteq> Freed_value"
proof -
  have s: "subscribe_text agent (cn_recvd c) (cn_id c) (t\<lparr>t_active := x, t_sockbuf := y\<rparr>) = subscribe_text agent (cn_recvd c) (cn_id c) t"
    "subscribe_text agent (cn_recvd c) (cn_id c) (t\<lparr>t_active := x\<rparr>) = subscribe_text agent (cn_recvd c) (cn_id c) t" for x y
    by (simp_all add: subscribe_text_def)
  have "\<exists>ok c' t'. subscribe_pass loads agent p (c, t) = Some (ok, c', t') \<and> cn_val c' \<noteq> Freed_value"
    using assms s by (auto simp: subscribe_pass_def answered_pass_def Let_def split: option.splits prod.splits)
  then show ?thesis using that by blast
qed

text \<open>C33: When a pool refuses a subscription the miner subscribes afresh, once. The refusal is freed
  before the second attempt, and freed again after it if that attempt ends before an answer is
  received: when the connection cannot be made or drops, the request cannot be sent, or no answer
  comes.\<close>

theorem second_attempt_frees_twice:
  assumes "answered_pass p1" and "pa_line p1 = Some l" and "loads l = Some j" and "refused j"
    and "length (subscribe_text agent False ident t) + 1 \<le> 8192"
    and "length (subscribe_text agent True (ident + 1) t) + 1 \<le> 8192"
  shows "initiate_stratum loads agent p1 p2 ident t = None \<longleftrightarrow> \<not> answered_pass p2"
proof -
  let ?c = "\<lparr>cn_id = ident, cn_recvd = False, cn_sockd = False, cn_val = Nothing, cn_sent = []\<rparr>"
  obtain c1 t1 where 1: "subscribe_pass loads agent p1 (?c, t) = Some (False, c1, t1)" "cn_recvd c1" "cn_sockd c1"
    "cn_val c1 = Live_value" "cn_id c1 = ident + 1" "t1 = t\<lparr>t_active := False\<rparr>"
    by (rule subscribe_pass_refused [where agent = agent and loads = loads and p = p1 and c = ?c and t = t])
      (use assms(1-5) in auto)
  let ?c2 = "c1\<lparr>cn_val := Freed_value\<rparr>" and ?t2 = "t1\<lparr>t_sessionid := None, t_nonce1 := None\<rparr>"
  have s: "length (subscribe_text agent (cn_recvd ?c2) (cn_id ?c2) ?t2) + 1 \<le> 8192"
    using assms(6) 1(2,5) by (simp add: subscribe_text_def)
  show ?thesis
  proof (cases "answered_pass p2")
    case True
    then obtain ok c' t' where "subscribe_pass loads agent p2 (?c2, ?t2) = Some (ok, c', t')" "cn_val c' \<noteq> Freed_value"
      using s by (rule subscribe_pass_answered)
    then show ?thesis using True 1
      by (cases ok; cases "cn_val c'") (simp_all add: initiate_stratum_def json_decref_def give_up_def)
  next
    case False
    then obtain c' t' where "subscribe_pass loads agent p2 (?c2, ?t2) = Some (False, c', t')" "cn_val c' = Freed_value"
      using s by (rule subscribe_pass_unanswered) (use 1 in auto)
    then show ?thesis using False 1 by (simp add: initiate_stratum_def json_decref_def give_up_def)
  qed
qed

section \<open>A pool that answers\<close>

definition subscribe_answer :: "u8 list \<Rightarrow> u8 list \<Rightarrow> int \<Rightarrow> json" where
  "subscribe_answer sid n1 n2 =
     JObject [(''id'', JInteger 1),
       (''result'', JArray [JArray [JArray [JString (chars ''mining.notify''), JString sid]], JString (bin2hex n1), JInteger n2]),
       (''error'', JNull)]"

definition auth_answer :: json where
  "auth_answer = JObject [(''id'', JInteger 2), (''result'', JTrue), (''error'', JNull)]"

lemma subscribe_reply_answer:
  assumes "0 < n2" and "n2 \<le> 8"
  shows "subscribe_reply t (json_object_get (Some (subscribe_answer sid n1 n2)) ''result'')
      (json_object_get (Some (subscribe_answer sid n1 n2)) ''error'') =
    (True, t\<lparr>t_sessionid := Some sid, t_nonce1 := Some (bin2hex n1), t_n1_len := length n1, t_nonce1bin := n1,
       t_n2size := n2, t_active := True, t_sdiff := 0x3ff0000000000000\<rparr>)"
proof -
  have h: "hex2bin (replicate (length n1) 0) (bin2hex n1) (length n1) = (n1, True)"
    using hex2bin_loop_bin2hex [of "[]" n1] by (simp add: hex2bin_def memcpy_at_0_full)
  have i: "sint (word_of_int n2 :: u32) = n2" using assms by (simp add: sint_sbintrunc' signed_take_bit_int_eq_self)
  have l: "length (bin2hex n1) div 2 = length n1" by (simp add: length_bin2hex)
  show ?thesis using assms(1)
    by (simp add: subscribe_reply_def subscribe_answer_def json_is_null_def get_sessionid_def json_array_string_def
      text_of_chars strncasecmp_eq_def h i l Let_def)
qed

text \<open>C32: Connecting to a pool works: when it accepts the subscription, sends a job and accepts the
  authorisation, the connection is up afterwards with the pool's session, extra nonce and nonce
  size, and holds the job, ready for work to be generated from it.\<close>

theorem restart_gets_job:
  assumes "length (t_header_bin t) = 128" and "t_merkles t \<le> length (t_merkle_bin t)"
    and "\<forall>k<t_merkles t. \<exists>b. t_merkle_bin t ! k = Live b \<and> length b = 32"
    and "answered_pass p1" and "pa_line p1 = Some l" and "loads l = Some (subscribe_answer sid n1 n2)" and "0 < n2" and "n2 \<le> 8"
    and "loads lj = notification j" and "job_ok j" and "length (j_cb1 j) + length n1 + nat n2 + length (j_cb2 j) < 2 ^ 29"
    and "loads la = Some auth_answer" and "length fresh = 32"
    and "length (subscribe_text agent False ident t) + 1 \<le> 8192" and "length (authorize_text (ident + 1) user pass) + 1 \<le> 8192"
  shows "\<exists>t'. restart_stratum loads (parse_method dbl rs sv fresh) agent user pass p1 p2 True (lj # la # later) ident t = Some (True, t') \<and>
    t_active t' \<and> ready t' j \<and> t_sessionid t' = Some sid \<and> t_nonce1bin t' = n1 \<and> t_n2size t' = n2"
proof -
  let ?u = "if t_active t then suspend_stratum t else t"
  let ?v = "?u\<lparr>t_active := False\<rparr>\<lparr>t_sessionid := Some sid, t_nonce1 := Some (bin2hex n1), t_n1_len := length n1, t_nonce1bin := n1,
       t_n2size := n2, t_active := True, t_sdiff := 0x3ff0000000000000\<rparr>"
  have s: "subscribe_text agent False ident (?u\<lparr>t_active := False\<rparr>) = subscribe_text agent False ident t"
    by (simp add: subscribe_text_def suspend_stratum_def)
  obtain c where i: "initiate_stratum loads agent p1 p2 ident ?u = Some (True, c, ?v)" and id: "cn_id c = ident + 1"
    using assms(4-8,14) s subscribe_reply_answer [OF assms(7,8), of "?u\<lparr>t_active := False\<rparr>" sid n1]
    by (simp add: initiate_stratum_def subscribe_pass_def answered_pass_def Let_def)
  have "fits_link j ?v" using assms(1-3,7,8,10,11) by (simp add: fits_link_def subscribed_def suspend_stratum_def)
  from notified_ready [OF this assms(13)] obtain w where
    w: "parse_notify fresh ?v (Some (encode_job j)) = Some (True, w)" "ready w j" by blast
  have keep: "t_active w = t_active ?v \<and> t_sessionid w = t_sessionid ?v \<and> t_nonce1bin w = t_nonce1bin ?v \<and> t_n2size w = t_n2size ?v"
    using w(1) by (auto simp: parse_notify_def notify_header_def Let_def split: if_splits option.splits prod.splits)
  have "parse_method dbl rs sv fresh ?v (loads lj) = Some (True, w\<lparr>t_notify := True\<rparr>)"
    unfolding assms(9) parse_notification w(1) by simp
  moreover have "parse_method dbl rs sv fresh x (loads la) = Some (False, x)" for x
    by (simp add: assms(12) parse_method_def auth_answer_def)
  ultimately have "await_answer loads (parse_method dbl rs sv fresh) (lj # la # later) ?v = Some (Some la, w\<lparr>t_notify := True\<rparr>)"
    by simp
  then have "restart_stratum loads (parse_method dbl rs sv fresh) agent user pass p1 p2 True (lj # la # later) ident t =
      Some (True, w\<lparr>t_notify := True\<rparr>)"
    using i id assms(12,15) by (simp add: restart_stratum_def auth_stratum_def auth_answer_def json_is_null_def Let_def)
  moreover have "ready (w\<lparr>t_notify := True\<rparr>) j" using w(2) by (simp add: ready_flags)
  ultimately show ?thesis using keep by simp
qed

text \<open>
  The first line that is not a usable message is the answer, whatever follows; a result of
  \<open>null\<close> counts as agreement; and when no line comes the connection stays as it was.
\<close>

lemma unusable_line_is_answer:
  assumes "meth t (loads s) = Some (False, u)"
  shows "auth_stratum loads meth user pass sent (s # ss) ident t = auth_stratum loads meth user pass sent [s] ident t"
  using assms by (simp add: auth_stratum_def)

lemma null_result_authorises:
  assumes "loads s = Some (JObject [(''id'', JInteger 2), (''result'', JNull)])"
    and "length (authorize_text ident user pass) + 1 \<le> 8192"
  shows "auth_stratum loads (parse_method dbl rs sv fresh) user pass True [s] ident t = Some (True, t)"
  using assms by (simp add: auth_stratum_def parse_method_def Let_def)

lemma silent_pool_stays_active:
  assumes "length (authorize_text ident user pass) + 1 \<le> 8192"
  shows "auth_stratum loads meth user pass True [] ident t = Some (False, t)"
  using assms by (simp add: auth_stratum_def)

section \<open>Attempts to try\<close>

definition demo_pass :: pass where
  "demo_pass = \<lparr>pa_socket = True, pa_sent = True, pa_ready = True, pa_line = Some [1]\<rparr>"

definition demo_refusal :: json where
  "demo_refusal = JObject [(''id'', JInteger 1), (''result'', JNull)]"

definition demo_loads :: "u8 list \<Rightarrow> json option" where
  "demo_loads l =
     (if l = [1] then Some (subscribe_answer [0x61] [9] 4)
      else if l = [2] then notification demo_job
      else if l = [3] then Some auth_answer else None)"

lemma demo_refused: "refused demo_refusal"
  by (simp add: refused_def demo_refusal_def subscribe_reply_def json_is_null_def)

lemma length_digit_text: "length (subscribe_text ''a'' r 1 demo_stratum) + 1 \<le> 8192"
  "length (subscribe_text ''a'' r 2 demo_stratum) + 1 \<le> 8192" "length (authorize_text 2 ''u'' ''p'') + 1 \<le> 8192"
  by (simp_all add: subscribe_text_def authorize_text_def demo_stratum_def int_text_def decimal.simps)

theorem second_attempt_frees_twice_witness:
  "initiate_stratum (\<lambda>l. Some demo_refusal) ''a'' demo_pass (demo_pass\<lparr>pa_socket := False\<rparr>) 1 demo_stratum = None \<and>
   initiate_stratum (\<lambda>l. Some demo_refusal) ''a'' demo_pass demo_pass 1 demo_stratum \<noteq> None"
proof -
  have p: "answered_pass demo_pass" "pa_line demo_pass = Some [1]" "\<not> answered_pass (demo_pass\<lparr>pa_socket := False\<rparr>)"
    by (simp_all add: answered_pass_def demo_pass_def)
  have "answered_pass p2 = (initiate_stratum (\<lambda>l. Some demo_refusal) ''a'' demo_pass p2 1 demo_stratum \<noteq> None)" for p2
    using length_digit_text second_attempt_frees_twice [OF p(1,2) _ demo_refused, where loads = "\<lambda>l. Some demo_refusal"
        and agent = "''a''" and ident = 1 and t = demo_stratum and ?p2.0 = p2] by simp
  then show ?thesis using p by blast
qed

theorem restart_gets_job_witness:
  "\<exists>t'. restart_stratum demo_loads (parse_method (\<lambda>i. 0) (\<lambda>t. (True, t)) (\<lambda>j. True) (replicate 32 0)) ''a'' ''u'' ''p''
       demo_pass demo_pass True [[2], [3]] 1 demo_stratum = Some (True, t') \<and>
     t_active t' \<and> ready t' demo_job \<and> t_sessionid t' = Some [0x61] \<and> t_nonce1bin t' = [9] \<and> t_n2size t' = 4"
  by (rule restart_gets_job [where l = "[1]"])
    (use length_digit_text demo_job_ok in \<open>simp_all add: demo_stratum_def demo_pass_def answered_pass_def demo_loads_def demo_job_def\<close>)

end
