(* ===== verification/Json_Load.thy ===== *)
theory Json_Load
  imports Pool_Control Stratum
begin

text \<open>
  How a text becomes a JSON value: \<open>json_loads\<close> of the bundled jansson library
  (\<open>src/cgminer/compat/jansson-2.5/src/load.c\<close> and \<open>utf.c\<close>) with the flags the miner gives
  it (none). That it is a parser of JSON is shown in theory Json_Grammar.

  A failed parse is \<open>None\<close>; the texts of error messages are left out. \<open>strtod\<close> is the C
  library's conversion of a real number, \<open>None\<close> on overflow.
\<close>

section \<open>UTF-8\<close>

definition utf8_check_first :: "u8 \<Rightarrow> nat" where
  "utf8_check_first u =
     (if u < 0x80 then 1
      else if 0x80 \<le> u \<and> u \<le> 0xBF then 0
      else if u = 0xC0 \<or> u = 0xC1 then 0
      else if 0xC2 \<le> u \<and> u \<le> 0xDF then 2
      else if 0xE0 \<le> u \<and> u \<le> 0xEF then 3
      else if 0xF0 \<le> u \<and> u \<le> 0xF4 then 4
      else 0)"

definition utf8_check_full :: "u8 list \<Rightarrow> bool" where
  "utf8_check_full buffer =
     (let u = unat (hd buffer);
          n = length buffer;
          value = (if n = 2 then u mod 0x20 else if n = 3 then u mod 0x10 else u mod 8);
          value = foldl (\<lambda>v c. v * 64 + unat c mod 64) value (tl buffer)
      in 2 \<le> n \<and> n \<le> 4 \<and> list_all (\<lambda>c. 0x80 \<le> c \<and> c \<le> 0xBF) (tl buffer) \<and>
         value \<le> 0x10FFFF \<and> \<not> (0xD800 \<le> value \<and> value \<le> 0xDFFF) \<and>
         \<not> (n = 2 \<and> value < 0x80 \<or> n = 3 \<and> value < 0x800 \<or> n = 4 \<and> value < 0x10000))"

definition utf8_encode :: "nat \<Rightarrow> u8 list" where
  "utf8_encode cp =
     (if cp < 0x80 then [of_nat cp]
      else if cp < 0x800 then [of_nat (0xC0 + cp div 64), of_nat (0x80 + cp mod 64)]
      else if cp < 0x10000 then [of_nat (0xE0 + cp div 4096), of_nat (0x80 + cp div 64 mod 64), of_nat (0x80 + cp mod 64)]
      else [of_nat (0xF0 + cp div 262144), of_nat (0x80 + cp div 4096 mod 64), of_nat (0x80 + cp div 64 mod 64),
            of_nat (0x80 + cp mod 64)])"

section \<open>The stream\<close>

text \<open>
  The bytes not yet read from the source, and what is left of the sequence read last. A sequence
  cut by the end of the source is filled with \<open>EOF\<close> and so never valid.
\<close>

datatype stream_state = STREAM_STATE_OK | STREAM_STATE_EOF | STREAM_STATE_ERROR

record stream =
  st_data :: "u8 list"
  st_cached :: "u8 list"
  st_state :: stream_state

datatype got = Byte u8 | At_eof | At_error

definition stream_fetch :: "stream \<Rightarrow> got \<times> stream" where
  "stream_fetch s =
     (case st_data s of
        [] \<Rightarrow> (At_eof, s\<lparr>st_state := STREAM_STATE_EOF\<rparr>)
      | b # rest \<Rightarrow>
          if 0x80 \<le> b then
            let n = utf8_check_first b;
                seq = take n (b # rest)
            in if n = 0 \<or> length seq \<noteq> n \<or> \<not> utf8_check_full seq
               then (At_error, s\<lparr>st_data := drop n (b # rest), st_state := STREAM_STATE_ERROR\<rparr>)
               else (Byte b, s\<lparr>st_data := drop n (b # rest), st_cached := tl seq\<rparr>)
          else (Byte b, s\<lparr>st_data := rest, st_cached := []\<rparr>))"

definition stream_get :: "stream \<Rightarrow> got \<times> stream" where
  "stream_get s =
     (case st_state s of
        STREAM_STATE_EOF \<Rightarrow> (At_eof, s)
      | STREAM_STATE_ERROR \<Rightarrow> (At_error, s)
      | STREAM_STATE_OK \<Rightarrow>
          (case st_cached s of
             [] \<Rightarrow> stream_fetch s
           | b # bs \<Rightarrow> if b = 0 then stream_fetch s else (Byte b, s\<lparr>st_cached := bs\<rparr>)))"

definition stream_unget :: "got \<Rightarrow> stream \<Rightarrow> stream" where
  "stream_unget c s = (case c of Byte b \<Rightarrow> s\<lparr>st_cached := b # st_cached s\<rparr> | _ \<Rightarrow> s)"

definition stream_left :: "stream \<Rightarrow> nat" where
  "stream_left s = length (st_data s) + length (st_cached s)"

lemma fetch_left: "stream_fetch s = (c, s') \<Longrightarrow> stream_left s' \<le> stream_left s \<and> (\<forall>b. c = Byte b \<longrightarrow> stream_left s' < stream_left s)"
  by (auto simp: stream_fetch_def stream_left_def Let_def split: list.splits if_splits)

lemma get_left: "stream_get s = (c, s') \<Longrightarrow> stream_left s' \<le> stream_left s \<and> (\<forall>b. c = Byte b \<longrightarrow> stream_left s' < stream_left s)"
  using fetch_left [of s c s'] by (auto simp: stream_get_def stream_left_def split: stream_state.splits list.splits if_splits)

lemma get_Byte_left: "stream_get s = (Byte b, s') \<Longrightarrow> stream_left s' < stream_left s"
  using get_left by blast

section \<open>Tokens\<close>

datatype token = T_invalid | T_eof | T_string "u8 list" | T_integer int | T_real dbl | T_true | T_false | T_null | T_char u8

definition l_isdigit :: "u8 \<Rightarrow> bool" where
  "l_isdigit c \<longleftrightarrow> 0x30 \<le> c \<and> c \<le> 0x39"

definition l_isalpha :: "u8 \<Rightarrow> bool" where
  "l_isalpha c \<longleftrightarrow> 0x41 \<le> c \<and> c \<le> 0x5A \<or> 0x61 \<le> c \<and> c \<le> 0x7A"

definition l_isxdigit :: "u8 \<Rightarrow> bool" where
  "l_isxdigit c \<longleftrightarrow> l_isdigit c \<or> 0x41 \<le> c \<and> c \<le> 0x46 \<or> 0x61 \<le> c \<and> c \<le> 0x66"

lemma get_Byte_left': "(Byte b, s') = stream_get s \<Longrightarrow> stream_left s' < stream_left s"
  using get_Byte_left [of s b s'] by simp

lemma get_measure: "(case stream_get s of (Byte b, s) \<Rightarrow> Suc (stream_left s) | (_, s) \<Rightarrow> 0) < Suc (stream_left s)"
  using get_Byte_left' [of _ _ s] by (auto split: prod.split got.split dest: sym)

text \<open>The loops that read while a condition on the last byte holds.\<close>

function take_bytes :: "(u8 \<Rightarrow> bool) \<Rightarrow> got \<Rightarrow> stream \<Rightarrow> u8 list \<times> got \<times> stream" where
  "take_bytes ok (Byte b) s =
     (if ok b then case stream_get s of (c, s') \<Rightarrow> (case take_bytes ok c s' of (bs, r) \<Rightarrow> (b # bs, r))
      else ([], Byte b, s))"
| "take_bytes ok At_eof s = ([], At_eof, s)"
| "take_bytes ok At_error s = ([], At_error, s)"
  by pat_completeness auto

termination
  by (relation "measure (\<lambda>(ok, c, s). case c of Byte b \<Rightarrow> Suc (stream_left s) | _ \<Rightarrow> 0)") (auto simp: get_measure)

text \<open>The four digits of an escape.\<close>

fun take_hex :: "nat \<Rightarrow> stream \<Rightarrow> u8 list option \<times> stream" where
  "take_hex 0 s = (Some [], s)"
| "take_hex (Suc n) s =
     (case stream_get s of
        (Byte c, s) \<Rightarrow>
          if l_isxdigit c then (case take_hex n s of (hs, s) \<Rightarrow> (map_option (Cons c) hs, s)) else (None, s)
      | (_, s) \<Rightarrow> (None, s))"

text \<open>The first pass over a string: its text up to the closing quote, escapes checked but kept.\<close>

definition short_escape :: "u8 \<Rightarrow> bool" where
  "short_escape d \<longleftrightarrow> d \<in> {0x22, 0x5C, 0x2F, 0x62, 0x66, 0x6E, 0x72, 0x74}"

lemma take_hex_left: "take_hex n s = (hs, s') \<Longrightarrow> stream_left s' \<le> stream_left s"
proof (induction n arbitrary: s hs)
  case (Suc n)
  obtain g s1 where g: "stream_get s = (g, s1)" by fastforce
  then have l: "stream_left s1 \<le> stream_left s" using get_left by blast
  show ?case
  proof (cases "\<exists>c. g = Byte c \<and> l_isxdigit c")
    case True
    then obtain c where "g = Byte c" "l_isxdigit c" by blast
    with Suc.prems g obtain h where "take_hex n s1 = (h, s')" by (auto split: prod.splits)
    then show ?thesis using Suc.IH l le_trans by blast
  next
    case False
    then show ?thesis using Suc.prems g l by (auto split: got.splits if_splits)
  qed
qed simp

lemma take_hex_left': "(hs, s') = take_hex n s \<Longrightarrow> stream_left s' \<le> stream_left s"
  using take_hex_left [of n s hs s'] by simp

function scan_body :: "stream \<Rightarrow> u8 list option \<times> stream" where
  "scan_body s =
     (case stream_get s of
        (Byte c, s1) \<Rightarrow>
          if c = 0x22 then (Some [], s1)
          else if c \<le> 0x1F then (None, stream_unget (Byte c) s1)
          else if c = 0x5C then
            (case stream_get s1 of
               (Byte d, s2) \<Rightarrow>
                 if d = 0x75 then
                   (case take_hex 4 s2 of
                      (Some hs, s3) \<Rightarrow> (case scan_body s3 of (r, s4) \<Rightarrow> (map_option (\<lambda>r. c # d # hs @ r) r, s4))
                    | (None, s3) \<Rightarrow> (None, s3))
                 else if short_escape d then (case scan_body s2 of (r, s3) \<Rightarrow> (map_option (\<lambda>r. c # d # r) r, s3))
                 else (None, s2)
             | (_, s2) \<Rightarrow> (None, s2))
          else (case scan_body s1 of (r, s2) \<Rightarrow> (map_option (Cons c) r, s2))
      | (_, s1) \<Rightarrow> (None, s1))"
  by pat_completeness auto

termination
  by (relation "measure stream_left") (simp_all, (blast dest: get_Byte_left' take_hex_left' intro: less_trans le_less_trans)+)

declare scan_body.simps [simp del]

text \<open>The second pass replaces the escapes.\<close>

definition hex_val :: "u8 \<Rightarrow> nat" where
  "hex_val c = (if l_isdigit c then unat c - 0x30 else if 0x61 \<le> c \<and> c \<le> 0x7A then unat c - 0x61 + 10 else unat c - 0x41 + 10)"

definition decode_unicode_escape :: "u8 list \<Rightarrow> nat" where
  "decode_unicode_escape p = foldl (\<lambda>v c. v * 16 + hex_val c) 0 (take 4 p)"

definition short_value :: "u8 \<Rightarrow> u8" where
  "short_value d =
     (if d = 0x62 then 8 else if d = 0x66 then 12 else if d = 0x6E then 10 else if d = 0x72 then 13
      else if d = 0x74 then 9 else d)"

function unescape :: "u8 list \<Rightarrow> u8 list option" where
  "unescape [] = Some []"
| "unescape (c # cs) =
     (if c \<noteq> 0x5C then map_option (Cons c) (unescape cs)
      else case cs of
        [] \<Rightarrow> Some []
      | d # p \<Rightarrow>
          if d \<noteq> 0x75 then map_option (Cons (short_value d)) (unescape p)
          else
            let value = decode_unicode_escape p;
                q = drop 4 p
            in if 0xD800 \<le> value \<and> value \<le> 0xDBFF then
                 if take 2 q = [0x5C, 0x75] then
                   let value2 = decode_unicode_escape (drop 2 q)
                   in if 0xDC00 \<le> value2 \<and> value2 \<le> 0xDFFF
                      then map_option ((@) (utf8_encode ((value - 0xD800) * 1024 + (value2 - 0xDC00) + 0x10000)))
                             (unescape (drop 6 q))
                      else None
                 else None
               else if 0xDC00 \<le> value \<and> value \<le> 0xDFFF then None
               else if value = 0 then None
               else map_option ((@) (utf8_encode value)) (unescape q))"
  by pat_completeness auto

termination by (relation "measure length") auto

definition lex_scan_string :: "stream \<Rightarrow> token \<times> stream" where
  "lex_scan_string s =
     (case scan_body s of
        (None, s) \<Rightarrow> (T_invalid, s)
      | (Some body, s) \<Rightarrow> (case unescape body of None \<Rightarrow> (T_invalid, s) | Some v \<Rightarrow> (T_string v, s)))"

text \<open>Numbers; \<open>saved\<close> is the text read so far. Integers have 64 bits.\<close>

definition digits_int :: "u8 list \<Rightarrow> int" where
  "digits_int ds = foldl (\<lambda>v d. v * 10 + (int (unat d) - 0x30)) 0 ds"

definition json_strtoint :: "u8 list \<Rightarrow> int option" where
  "json_strtoint saved =
     (let v = (case saved of c # ds \<Rightarrow> if c = 0x2D then - digits_int ds else digits_int saved | [] \<Rightarrow> 0)
      in if - (2 ^ 63) \<le> v \<and> v < 2 ^ 63 then Some v else None)"

fun got_digit :: "got \<Rightarrow> bool" where
  "got_digit (Byte b) = l_isdigit b"
| "got_digit _ = False"

definition scan_exponent :: "(u8 list \<Rightarrow> dbl option) \<Rightarrow> u8 list \<Rightarrow> got \<Rightarrow> stream \<Rightarrow> token \<times> stream" where
  "scan_exponent strtod saved c s =
     (let real = (\<lambda>saved c s. (case strtod saved of None \<Rightarrow> T_invalid | Some d \<Rightarrow> T_real d, stream_unget c s))
      in case c of
           Byte e \<Rightarrow>
             if e = 0x45 \<or> e = 0x65 then
               let (c, s) = stream_get s;
                   (sign, c, s) = (case c of
                       Byte g \<Rightarrow> if g = 0x2B \<or> g = 0x2D then (case stream_get s of (c, s) \<Rightarrow> ([g], c, s)) else ([], c, s)
                     | _ \<Rightarrow> ([], c, s))
               in if \<not> got_digit c then (T_invalid, stream_unget c s)
                  else (case take_bytes l_isdigit c s of (ds, c, s) \<Rightarrow> real (saved @ e # sign @ ds) c s)
             else real saved c s
         | _ \<Rightarrow> real saved c s)"

definition scan_fraction :: "(u8 list \<Rightarrow> dbl option) \<Rightarrow> u8 list \<Rightarrow> got \<Rightarrow> stream \<Rightarrow> token \<times> stream" where
  "scan_fraction strtod saved c s =
     (if c \<noteq> Byte 0x2E \<and> c \<noteq> Byte 0x45 \<and> c \<noteq> Byte 0x65 then
        (case json_strtoint saved of None \<Rightarrow> T_invalid | Some i \<Rightarrow> T_integer i, stream_unget c s)
      else if c = Byte 0x2E then
        let (c, s) = stream_get s
        in if \<not> got_digit c then (T_invalid, stream_unget c s)
           else (case take_bytes l_isdigit c s of (ds, c, s) \<Rightarrow> scan_exponent strtod (saved @ 0x2E # ds) c s)
      else scan_exponent strtod saved c s)"

definition lex_scan_number :: "(u8 list \<Rightarrow> dbl option) \<Rightarrow> u8 \<Rightarrow> stream \<Rightarrow> token \<times> stream" where
  "lex_scan_number strtod b s =
     (let (sign, c, s) = (if b = 0x2D then (case stream_get s of (c, s) \<Rightarrow> ([b], c, s)) else ([], Byte b, s))
      in if c = Byte 0x30 then
           let (c, s) = stream_get s
           in if got_digit c then (T_invalid, stream_unget c s) else scan_fraction strtod (sign @ [0x30]) c s
         else if got_digit c then
           (case take_bytes l_isdigit c s of (ds, c, s) \<Rightarrow> scan_fraction strtod (sign @ ds) c s)
         else (T_invalid, stream_unget c s))"

definition is_space :: "u8 \<Rightarrow> bool" where
  "is_space c \<longleftrightarrow> c = 0x20 \<or> c = 9 \<or> c = 10 \<or> c = 13"

definition punctuation :: "u8 \<Rightarrow> bool" where
  "punctuation c \<longleftrightarrow> c \<in> {0x7B, 0x7D, 0x5B, 0x5D, 0x3A, 0x2C}"

definition lex_scan :: "(u8 list \<Rightarrow> dbl option) \<Rightarrow> stream \<Rightarrow> token \<times> stream" where
  "lex_scan strtod s =
     (case stream_get s of (c, s) \<Rightarrow>
        case take_bytes is_space c s of (_, c, s) \<Rightarrow>
        case c of
          At_eof \<Rightarrow> (T_eof, s)
        | At_error \<Rightarrow> (T_invalid, s)
        | Byte b \<Rightarrow>
            if punctuation b then (T_char b, s)
            else if b = 0x22 then lex_scan_string s
            else if l_isdigit b \<or> b = 0x2D then lex_scan_number strtod b s
            else if l_isalpha b then
              (case take_bytes l_isalpha (Byte b) s of (w, c, s) \<Rightarrow>
                 (if w = chars ''true'' then T_true else if w = chars ''false'' then T_false
                  else if w = chars ''null'' then T_null else T_invalid, stream_unget c s))
            else (T_invalid, s\<lparr>st_cached := []\<rparr>))"

section \<open>The parser\<close>

definition json_object_set :: "(string \<times> json) list \<Rightarrow> string \<Rightarrow> json \<Rightarrow> (string \<times> json) list" where
  "json_object_set kvs k v =
     (if k \<in> fst ` set kvs then map (\<lambda>(a, w). if a = k then (a, v) else (a, w)) kvs else kvs @ [(k, v)])"

text \<open>
  The functions call each other with the token just read. The first argument bounds the depth of
  the calls and the length of the lists; the outer \<open>None\<close> is a bound that was too small.
\<close>

fun parse_value :: "nat \<Rightarrow> (u8 list \<Rightarrow> dbl option) \<Rightarrow> token \<Rightarrow> stream \<Rightarrow> (json option \<times> stream) option"
  and parse_object :: "nat \<Rightarrow> (u8 list \<Rightarrow> dbl option) \<Rightarrow> (string \<times> json) list \<Rightarrow> token \<Rightarrow> stream \<Rightarrow> (json option \<times> stream) option"
  and parse_array :: "nat \<Rightarrow> (u8 list \<Rightarrow> dbl option) \<Rightarrow> json list \<Rightarrow> token \<Rightarrow> stream \<Rightarrow> (json option \<times> stream) option" where
  "parse_value 0 strtod tok s = None"
| "parse_value (Suc n) strtod tok s =
     (case tok of
        T_string b \<Rightarrow> Some (Some (JString b), s)
      | T_integer i \<Rightarrow> Some (Some (JInteger i), s)
      | T_real d \<Rightarrow> Some (Some (JReal d), s)
      | T_true \<Rightarrow> Some (Some JTrue, s)
      | T_false \<Rightarrow> Some (Some JFalse, s)
      | T_null \<Rightarrow> Some (Some JNull, s)
      | T_char c \<Rightarrow>
          if c = 0x7B then
            (case lex_scan strtod s of (tok, s) \<Rightarrow>
               if tok = T_char 0x7D then Some (Some (JObject []), s) else parse_object n strtod [] tok s)
          else if c = 0x5B then
            (case lex_scan strtod s of (tok, s) \<Rightarrow>
               if tok = T_char 0x5D then Some (Some (JArray []), s) else parse_array n strtod [] tok s)
          else Some (None, s)
      | _ \<Rightarrow> Some (None, s))"
| "parse_object 0 strtod kvs tok s = None"
| "parse_object (Suc n) strtod kvs tok s =
     (case tok of
        T_string key \<Rightarrow>
          (case lex_scan strtod s of (tok, s) \<Rightarrow>
             if tok \<noteq> T_char 0x3A then Some (None, s)
             else case lex_scan strtod s of (tok, s) \<Rightarrow>
               (case parse_value n strtod tok s of
                  None \<Rightarrow> None
                | Some (None, s) \<Rightarrow> Some (None, s)
                | Some (Some v, s) \<Rightarrow>
                    let kvs = json_object_set kvs (text_of key) v
                    in case lex_scan strtod s of (tok, s) \<Rightarrow>
                         if tok = T_char 0x2C then (case lex_scan strtod s of (tok, s) \<Rightarrow> parse_object n strtod kvs tok s)
                         else if tok = T_char 0x7D then Some (Some (JObject kvs), s)
                         else Some (None, s)))
      | _ \<Rightarrow> Some (None, s))"
| "parse_array 0 strtod js tok s = None"
| "parse_array (Suc n) strtod js tok s =
     (if tok = T_eof then Some (None, s)
      else case parse_value n strtod tok s of
        None \<Rightarrow> None
      | Some (None, s) \<Rightarrow> Some (None, s)
      | Some (Some v, s) \<Rightarrow>
          (case lex_scan strtod s of (tok, s) \<Rightarrow>
             if tok = T_char 0x2C then (case lex_scan strtod s of (tok, s) \<Rightarrow> parse_array n strtod (js @ [v]) tok s)
             else if tok = T_char 0x5D then Some (Some (JArray (js @ [v])), s)
             else Some (None, s)))"

definition source_stream :: "u8 list \<Rightarrow> stream" where
  "source_stream bs = \<lparr>st_data = bs, st_cached = [], st_state = STREAM_STATE_OK\<rparr>"

definition parse_json :: "(u8 list \<Rightarrow> dbl option) \<Rightarrow> stream \<Rightarrow> json option option" where
  "parse_json strtod s =
     (case lex_scan strtod s of (tok, s') \<Rightarrow>
        if tok \<noteq> T_char 0x5B \<and> tok \<noteq> T_char 0x7B then Some None
        else case parse_value (2 * stream_left s + 1) strtod tok s' of
          None \<Rightarrow> None
        | Some (None, s') \<Rightarrow> Some None
        | Some (Some j, s') \<Rightarrow> (case lex_scan strtod s' of (tok, _) \<Rightarrow> Some (if tok \<noteq> T_eof then None else Some j)))"

text \<open>A file is read to its end, a C string to its NUL.\<close>

definition json_loadf :: "(u8 list \<Rightarrow> dbl option) \<Rightarrow> u8 list \<Rightarrow> json option" where
  "json_loadf strtod bs = (case parse_json strtod (source_stream bs) of None \<Rightarrow> None | Some r \<Rightarrow> r)"

definition json_loads :: "(u8 list \<Rightarrow> dbl option) \<Rightarrow> u8 list \<Rightarrow> json option" where
  "json_loads strtod bs = json_loadf strtod (takeWhile (\<lambda>b. b \<noteq> 0) bs)"



section \<open>The bound is enough\<close>

definition with_got :: "got \<Rightarrow> stream \<Rightarrow> nat" where
  "with_got c s = stream_left s + (case c of Byte _ \<Rightarrow> 1 | _ \<Rightarrow> 0)"

lemma left_unget: "stream_left (stream_unget c s) = with_got c s"
  by (cases c) (simp_all add: stream_unget_def with_got_def stream_left_def)

lemma with_got_get: "stream_get s = (c, s') \<Longrightarrow> with_got c s' \<le> stream_left s"
  using get_left [of s c s'] by (cases c) (auto simp: with_got_def)

lemma take_bytes_left: "take_bytes ok c s = (bs, c', s') \<Longrightarrow> with_got c' s' + length bs \<le> with_got c s"
proof (induction ok c s arbitrary: bs rule: take_bytes.induct)
  case (1 ok b s)
  show ?case
  proof (cases "ok b")
    case True
    obtain c1 s1 where g: "stream_get s = (c1, s1)" by fastforce
    obtain bs1 c2 s2 where t: "take_bytes ok c1 s1 = (bs1, c2, s2)" by (metis prod_cases3)
    have "with_got c2 s2 + length bs1 \<le> with_got c1 s1" if "c2 = c'" "s2 = s'"
      using 1(1) [OF True g [symmetric]] t that by simp
    then show ?thesis using 1(2) True g t with_got_get [OF g] by (auto simp: with_got_def)
  next
    case False
    then show ?thesis using 1(2) by simp
  qed
qed auto

lemma scan_body_left: "scan_body s = (r, s') \<Longrightarrow> stream_left s' \<le> stream_left s"
proof (induction "stream_left s" arbitrary: s r rule: less_induct)
  case (less s)
  have ih: "stream_left u' \<le> stream_left s" if "stream_left u < stream_left s" "scan_body u = (r', u')" "u' = s'" for u r' u'
    using less(1) [of u r'] that by simp
  obtain c s1 where g: "stream_get s = (c, s1)" by fastforce
  show ?case
  proof (cases c)
    case (Byte b)
    then have l1: "stream_left s1 < stream_left s" using get_Byte_left g by simp
    obtain d s2 where g2: "stream_get s1 = (d, s2)" by fastforce
    have l2: "stream_left s2 < stream_left s" using get_left [OF g2] l1 by simp
    obtain hs s3 where h: "take_hex 4 s2 = (hs, s3)" by fastforce
    have l3: "stream_left s3 < stream_left s" using take_hex_left [OF h] l2 by simp
    obtain r1 u1 where b1: "scan_body s1 = (r1, u1)" by fastforce
    obtain r2 u2 where b2: "scan_body s2 = (r2, u2)" by fastforce
    obtain r3 u3 where b3: "scan_body s3 = (r3, u3)" by fastforce
    have "s' \<in> {s1, stream_unget (Byte b) s1, s2, s3, u1, u2, u3}"
      using less(2) by (auto simp: scan_body.simps [of s] g Byte g2 h b1 b2 b3 split: got.splits option.splits if_splits)
    then show ?thesis
      using l1 l2 l3 with_got_get [OF g] ih [OF l1 b1] ih [OF l2 b2] ih [OF l3 b3] Byte by (auto simp: left_unget)
  next
    case At_eof
    then show ?thesis using less(2) get_left [OF g] by (simp add: scan_body.simps [of s] g)
  next
    case At_error
    then show ?thesis using less(2) get_left [OF g] by (simp add: scan_body.simps [of s] g)
  qed
qed

lemma with_got_left: "stream_left s \<le> with_got c s" by (simp add: with_got_def)

lemma take_bytes_le: "take_bytes ok c s = (bs, c', s') \<Longrightarrow> with_got c' s' \<le> with_got c s"
  using take_bytes_left by fastforce

lemma scan_exponent_left: "scan_exponent strtod saved c s = (tok, s') \<Longrightarrow> stream_left s' \<le> with_got c s"
proof -
  assume a: "scan_exponent strtod saved c s = (tok, s')"
  obtain c1 s1 where g: "stream_get s = (c1, s1)" by fastforce
  obtain c2 s2 where g2: "stream_get s1 = (c2, s2)" by fastforce
  obtain ds c3 s3 where t1: "take_bytes l_isdigit c1 s1 = (ds, c3, s3)" by (metis prod_cases3)
  obtain ds' c4 s4 where t2: "take_bytes l_isdigit c2 s2 = (ds', c4, s4)" by (metis prod_cases3)
  have "s' \<in> {stream_unget c s, stream_unget c1 s1, stream_unget c2 s2, stream_unget c3 s3, stream_unget c4 s4}"
    using a by (auto simp: scan_exponent_def Let_def g g2 t1 t2 split: got.splits if_splits)
  then show ?thesis
    using with_got_get [OF g] with_got_get [OF g2] take_bytes_le [OF t1] take_bytes_le [OF t2]
      with_got_left [of s1 c1] with_got_left [of s c] by (auto simp: left_unget)
qed

lemma scan_fraction_left: "scan_fraction strtod saved c s = (tok, s') \<Longrightarrow> stream_left s' \<le> with_got c s"
proof -
  assume a: "scan_fraction strtod saved c s = (tok, s')"
  obtain c1 s1 where g: "stream_get s = (c1, s1)" by fastforce
  obtain ds c3 s3 where t1: "take_bytes l_isdigit c1 s1 = (ds, c3, s3)" by (metis prod_cases3)
  have "s' = stream_unget c s \<or> s' = stream_unget c1 s1 \<or> stream_left s' \<le> with_got c3 s3 \<or> stream_left s' \<le> with_got c s"
    using a by (auto simp: scan_fraction_def Let_def g t1 split: if_splits dest!: scan_exponent_left)
  then show ?thesis
    using with_got_get [OF g] take_bytes_le [OF t1] with_got_left [of s c] by (auto simp: left_unget)
qed

lemma take_bytes_nonempty: "take_bytes ok (Byte b) s = (bs, r) \<Longrightarrow> ok b \<Longrightarrow> bs \<noteq> []"
  by (auto split: prod.splits)

lemma lex_scan_number_left:
  "lex_scan_number strtod b s = (tok, s') \<Longrightarrow> stream_left s' \<le> Suc (stream_left s) \<and> (tok \<noteq> T_invalid \<longrightarrow> stream_left s' \<le> stream_left s)"
proof -
  assume a: "lex_scan_number strtod b s = (tok, s')"
  obtain sign c s1 where c: "(if b = 0x2D then (case stream_get s of (c, s) \<Rightarrow> ([b], c, s)) else ([], Byte b, s)) = (sign, c, s1)"
    by (metis prod_cases3)
  have l1: "with_got c s1 \<le> Suc (stream_left s)"
    using c with_got_get [of s c s1] by (auto simp: with_got_def split: if_splits prod.splits)
  have l1': "c \<noteq> Byte b \<Longrightarrow> with_got c s1 \<le> stream_left s"
    using c with_got_get [of s c s1] by (auto split: if_splits prod.splits)
  obtain c2 s2 where g2: "stream_get s1 = (c2, s2)" by fastforce
  obtain ds c3 s3 where t: "take_bytes l_isdigit c s1 = (ds, c3, s3)" by (metis prod_cases3)
  have s1: "stream_left s1 \<le> stream_left s" using c get_left [of s c s1] by (auto split: if_splits prod.splits)
  consider "c = Byte 0x30" "got_digit c2" | "c = Byte 0x30" "\<not> got_digit c2" | "c \<noteq> Byte 0x30" "got_digit c" | "c \<noteq> Byte 0x30" "\<not> got_digit c"
    by blast
  then show ?thesis
  proof cases
    case 1
    then show ?thesis using a c g2 with_got_get [OF g2] s1 by (auto simp: lex_scan_number_def left_unget Let_def)
  next
    case 2
    then show ?thesis using a c g2 with_got_get [OF g2] s1 scan_fraction_left
      by (fastforce simp: lex_scan_number_def Let_def)
  next
    case 3
    then have "ds \<noteq> []" using t take_bytes_nonempty [of l_isdigit _ s1 ds] by (cases c) auto
    then have "with_got c3 s3 \<le> stream_left s" using take_bytes_left [OF t] l1 by (cases ds) auto
    then show ?thesis using 3 a c t scan_fraction_left by (fastforce simp: lex_scan_number_def Let_def)
  next
    case 4
    then show ?thesis using a c l1 l1' by (auto simp: lex_scan_number_def Let_def left_unget)
  qed
qed

lemma lex_scan_left:
  "lex_scan strtod s = (tok, s') \<Longrightarrow> stream_left s' \<le> stream_left s \<and> (tok \<noteq> T_eof \<and> tok \<noteq> T_invalid \<longrightarrow> stream_left s' < stream_left s)"
proof -
  assume a: "lex_scan strtod s = (tok, s')"
  obtain c0 s0 where g: "stream_get s = (c0, s0)" by fastforce
  obtain w0 c s1 where t: "take_bytes is_space c0 s0 = (w0, c, s1)" by (metis prod_cases3)
  have l: "with_got c s1 \<le> stream_left s" using with_got_get [OF g] take_bytes_le [OF t] by simp
  have "\<exists>b. c = Byte b" if "tok \<noteq> T_eof" "tok \<noteq> T_invalid" using that a g t by (cases c) (auto simp: lex_scan_def)
  show ?thesis
  proof (cases c)
    case (Byte b)
    then have l1: "stream_left s1 < stream_left s" using l by (simp add: with_got_def)
    obtain w d s2 where w: "take_bytes l_isalpha c s1 = (w, d, s2)" by (metis prod_cases3)
    have lw: "l_isalpha b \<Longrightarrow> with_got d s2 < stream_left s"
      using take_bytes_left [OF w] take_bytes_nonempty [of l_isalpha b s1 w "(d, s2)"] w Byte l1
      by (cases w) (auto simp: with_got_def)
    obtain tk u where st: "lex_scan_string s1 = (tk, u)" by fastforce
    have lst: "stream_left u \<le> stream_left s1"
      using st scan_body_left [of s1] by (auto simp: lex_scan_string_def split: prod.splits option.splits)
    obtain tn v where nu: "lex_scan_number strtod b s1 = (tn, v)" by fastforce
    consider "punctuation b" | "\<not> punctuation b" "b = 0x22" | "\<not> punctuation b" "b \<noteq> 0x22" "l_isdigit b \<or> b = 0x2D"
      | "\<not> punctuation b" "b \<noteq> 0x22" "\<not> (l_isdigit b \<or> b = 0x2D)" "l_isalpha b"
      | "\<not> punctuation b" "b \<noteq> 0x22" "\<not> (l_isdigit b \<or> b = 0x2D)" "\<not> l_isalpha b" by blast
    then show ?thesis
    proof cases
      case 3
      then show ?thesis using a g t Byte nu lex_scan_number_left [OF nu] l1 by (auto simp: lex_scan_def)
    next
      case 4
      then show ?thesis using a g t Byte w lw by (auto simp: lex_scan_def left_unget)
    next
      case 5
      then have "tok = T_invalid" "stream_left s' \<le> stream_left s1" using a g t Byte by (auto simp: lex_scan_def stream_left_def)
      then show ?thesis using l1 by simp
    qed (use a g t Byte st lst l1 in \<open>simp_all add: lex_scan_def\<close>)
  qed (use a g t l in \<open>auto simp: lex_scan_def with_got_def\<close>)
qed

text \<open>What a token that is still to be parsed may cost.\<close>

definition cost :: "token \<Rightarrow> stream \<Rightarrow> nat" where
  "cost tok s = (if tok = T_eof \<or> tok = T_invalid then 0 else 2 * stream_left s + 2)"

lemma scan_cost: "lex_scan strtod s = (tok, s') \<Longrightarrow> cost tok s' \<le> 2 * stream_left s \<and> stream_left s' \<le> stream_left s"
  using lex_scan_left [of strtod s tok s'] by (auto simp: cost_def)

definition settled :: "(json option \<times> stream) option \<Rightarrow> stream \<Rightarrow> bool" where
  "settled r s \<longleftrightarrow> (\<exists>j s'. r = Some (j, s') \<and> stream_left s' \<le> stream_left s)"

lemma settledI: "stream_left s' \<le> stream_left s \<Longrightarrow> settled (Some (j, s')) s" by (simp add: settled_def)

lemma settled_le: "settled r u \<Longrightarrow> stream_left u \<le> stream_left s \<Longrightarrow> settled r s" by (auto simp: settled_def)

lemma parse_settles:
  "cost tok s + 1 \<le> n \<Longrightarrow> settled (parse_value n strtod tok s) s"
  "cost tok s + 1 \<le> n \<Longrightarrow> settled (parse_object n strtod kvs tok s) s"
  "cost tok s + 2 \<le> n \<Longrightarrow> settled (parse_array n strtod js tok s) s"
proof (induction n strtod tok s and n strtod kvs tok s and n strtod js tok s
    rule: parse_value_parse_object_parse_array.induct)
  case (2 n strtod tok s)
  obtain t1 s1 where l: "lex_scan strtod s = (t1, s1)" by fastforce
  note sc = scan_cost [OF l]
  show ?case
  proof (cases "tok = T_char 0x7B \<or> tok = T_char 0x5B")
    case True
    then have "2 * stream_left s + 2 \<le> n" using 2(3) by (auto simp: cost_def)
    then have "cost t1 s1 + 2 \<le> n" using sc by simp
    then show ?thesis using True 2(1,2) l sc by (auto simp: settledI intro!: settled_le [of _ s1 s])
  next
    case False
    then show ?thesis by (auto simp: settledI split: token.split)
  qed
next
  case (4 n strtod kvs tok s)
  show ?case
  proof (cases tok)
    case (T_string key)
    then have n: "2 * stream_left s + 2 \<le> n" using 4(3) by (simp add: cost_def)
    obtain t1 s1 where l1: "lex_scan strtod s = (t1, s1)" by fastforce
    obtain t2 s2 where l2: "lex_scan strtod s1 = (t2, s2)" by fastforce
    note c1 = scan_cost [OF l1] and c2 = scan_cost [OF l2]
    show ?thesis
    proof (cases "t1 = T_char 0x3A")
      case True
      have "settled (parse_value n strtod t2 s2) s2"
        using 4(1) [OF T_string l1 [symmetric] _ l2 [symmetric]] True c1 c2 n by (simp add: cost_def)
      then obtain v s3 where v: "parse_value n strtod t2 s2 = Some (v, s3)" "stream_left s3 \<le> stream_left s2" by (auto simp: settled_def)
      show ?thesis
      proof (cases v)
        case None
        then show ?thesis using T_string l1 l2 v True c1 c2 by (simp add: settled_def)
      next
        case (Some w)
        obtain t3 s4 where l3: "lex_scan strtod s3 = (t3, s4)" by fastforce
        obtain t4 s5 where l4: "lex_scan strtod s4 = (t4, s5)" by fastforce
        note c3 = scan_cost [OF l3] and c4 = scan_cost [OF l4]
        have "settled (parse_object n strtod (json_object_set kvs (text_of key) w) t4 s5) s" if "t3 = T_char 0x2C"
          using 4(2) [OF T_string l1 [symmetric] _ l2 [symmetric]]
            True v Some l3 l4 c1 c2 c3 c4 n that settled_le [of _ s5 s] by (simp add: cost_def)
        then show ?thesis using T_string l1 l2 v True Some l3 l4 c1 c2 c3 by (simp add: settled_def Let_def)
      qed
    next
      case False
      then show ?thesis using T_string l1 c1 by (simp add: settled_def)
    qed
  qed (simp_all add: settledI)
next
  case (6 n strtod js tok s)
  show ?case
  proof (cases "tok = T_eof")
    case False
    have "settled (parse_value n strtod tok s) s" using 6(1) [OF False] 6(3) by simp
    then obtain v s1 where v: "parse_value n strtod tok s = Some (v, s1)" "stream_left s1 \<le> stream_left s" by (auto simp: settled_def)
    show ?thesis
    proof (cases v)
      case None
      then show ?thesis using v False by (simp add: settled_def)
    next
      case (Some w)
      have "tok \<noteq> T_invalid" using v(1) Some by (cases n) auto
      then have n: "2 * stream_left s + 3 \<le> n" using 6(3) False by (simp add: cost_def)
      obtain t3 s4 where l3: "lex_scan strtod s1 = (t3, s4)" by fastforce
      obtain t4 s5 where l4: "lex_scan strtod s4 = (t4, s5)" by fastforce
      note c3 = scan_cost [OF l3] and c4 = scan_cost [OF l4]
      have "settled (parse_array n strtod (js @ [w]) t4 s5) s" if "t3 = T_char 0x2C"
        using 6(2) [OF False]
          v Some l3 l4 c3 c4 n that settled_le [of _ s5 s] by (simp add: cost_def)
      then show ?thesis using False v Some l3 l4 c3 by (simp add: settled_def)
    qed
  qed (simp add: settledI)
qed simp_all

lemma parse_json_settles: "parse_json strtod (source_stream bs) \<noteq> None"
proof -
  obtain tok s where l: "lex_scan strtod (source_stream bs) = (tok, s)" by fastforce
  have "settled (parse_value (2 * stream_left (source_stream bs) + 1) strtod tok s) s"
    using scan_cost [OF l] by (intro parse_settles) simp
  then show ?thesis by (auto simp: parse_json_def l settled_def split: prod.split option.split)
qed

end
