(* ===== verification/Json_Grammar.thy ===== *)
theory Json_Grammar
  imports Json_Load
begin

text \<open>
  The grammar of JSON as RFC 8259 has it, as an inductive definition of the texts of a value, and
  the parser of theory Json_Load compared with it in both directions: what the grammar allows is
  parsed to its value (section "The parser follows the grammar"), and what was parsed is a text of
  the grammar (section "What was read is a JSON text").
\<close>

section \<open>The grammar of JSON\<close>

definition is_ws :: "u8 list \<Rightarrow> bool" where
  "is_ws w \<longleftrightarrow> list_all is_space w"

text \<open>A text between quotes and the string it stands for.\<close>

inductive string_text :: "u8 list \<Rightarrow> u8 list \<Rightarrow> bool" where
  string_Nil: "string_text [] []"
| string_plain: "string_text t v \<Longrightarrow> 0x20 \<le> c \<Longrightarrow> c \<noteq> 0x22 \<Longrightarrow> c \<noteq> 0x5C \<Longrightarrow> string_text (c # t) (c # v)"
| string_short: "string_text t v \<Longrightarrow> short_escape d \<Longrightarrow> string_text (0x5C # d # t) (short_value d # v)"
| string_unicode: "string_text t v \<Longrightarrow> length hs = 4 \<Longrightarrow> list_all l_isxdigit hs \<Longrightarrow> u = decode_unicode_escape hs \<Longrightarrow>
    0 < u \<Longrightarrow> \<not> (0xD800 \<le> u \<and> u \<le> 0xDFFF) \<Longrightarrow> string_text (0x5C # 0x75 # hs @ t) (utf8_encode u @ v)"
| string_pair: "string_text t v \<Longrightarrow> length hs = 4 \<Longrightarrow> list_all l_isxdigit hs \<Longrightarrow> length ls = 4 \<Longrightarrow> list_all l_isxdigit ls \<Longrightarrow>
    u = decode_unicode_escape hs \<Longrightarrow> 0xD800 \<le> u \<Longrightarrow> u \<le> 0xDBFF \<Longrightarrow> l = decode_unicode_escape ls \<Longrightarrow>
    0xDC00 \<le> l \<Longrightarrow> l \<le> 0xDFFF \<Longrightarrow>
    string_text (0x5C # 0x75 # hs @ 0x5C # 0x75 # ls @ t) (utf8_encode ((u - 0xD800) * 1024 + (l - 0xDC00) + 0x10000) @ v)"

text \<open>The digits of an integer, without leading zeros, and what may follow them in a real number.\<close>

definition int_digits :: "u8 list \<Rightarrow> bool" where
  "int_digits ds \<longleftrightarrow> ds \<noteq> [] \<and> list_all l_isdigit ds \<and> (hd ds = 0x30 \<longrightarrow> ds = [0x30])"

definition int_part :: "u8 list \<Rightarrow> bool" where
  "int_part t \<longleftrightarrow> (\<exists>ds. int_digits ds \<and> (t = ds \<or> t = 0x2D # ds))"

definition frac_part :: "u8 list \<Rightarrow> bool" where
  "frac_part t \<longleftrightarrow> (\<exists>ds. ds \<noteq> [] \<and> list_all l_isdigit ds \<and> t = 0x2E # ds)"

definition exp_part :: "u8 list \<Rightarrow> bool" where
  "exp_part t \<longleftrightarrow> (\<exists>e sign ds. (e = 0x45 \<or> e = 0x65) \<and> sign \<in> {[], [0x2B], [0x2D]} \<and> ds \<noteq> [] \<and>
     list_all l_isdigit ds \<and> t = e # sign @ ds)"

text \<open>Of members with the same name the last one counts, at the place of the first.\<close>

definition json_object :: "(string \<times> json) list \<Rightarrow> (string \<times> json) list" where
  "json_object ps = foldl (\<lambda>kvs (k, v). json_object_set kvs k v) [] ps"

inductive value_text :: "(u8 list \<Rightarrow> dbl option) \<Rightarrow> u8 list \<Rightarrow> json \<Rightarrow> bool"
  and elements_text :: "(u8 list \<Rightarrow> dbl option) \<Rightarrow> u8 list \<Rightarrow> json list \<Rightarrow> bool"
  and members_text :: "(u8 list \<Rightarrow> dbl option) \<Rightarrow> u8 list \<Rightarrow> (string \<times> json) list \<Rightarrow> bool"
  for strtod where
  text_null: "value_text strtod (chars ''null'') JNull"
| text_true: "value_text strtod (chars ''true'') JTrue"
| text_false: "value_text strtod (chars ''false'') JFalse"
| text_string: "string_text t v \<Longrightarrow> value_text strtod (0x22 # t @ [0x22]) (JString v)"
| text_integer: "int_part t \<Longrightarrow> json_strtoint t = Some i \<Longrightarrow> value_text strtod t (JInteger i)"
| text_real: "int_part a \<Longrightarrow> b = [] \<or> frac_part b \<Longrightarrow> c = [] \<or> exp_part c \<Longrightarrow> b @ c \<noteq> [] \<Longrightarrow> strtod (a @ b @ c) = Some d \<Longrightarrow>
    value_text strtod (a @ b @ c) (JReal d)"
| text_no_array: "is_ws w \<Longrightarrow> value_text strtod (0x5B # w @ [0x5D]) (JArray [])"
| text_array: "elements_text strtod t js \<Longrightarrow> value_text strtod (0x5B # t @ [0x5D]) (JArray js)"
| text_no_object: "is_ws w \<Longrightarrow> value_text strtod (0x7B # w @ [0x7D]) (JObject [])"
| text_object: "members_text strtod t ps \<Longrightarrow> value_text strtod (0x7B # t @ [0x7D]) (JObject (json_object ps))"
| text_element: "is_ws a \<Longrightarrow> value_text strtod t j \<Longrightarrow> is_ws b \<Longrightarrow> elements_text strtod (a @ t @ b) [j]"
| text_elements: "is_ws a \<Longrightarrow> value_text strtod t j \<Longrightarrow> is_ws b \<Longrightarrow> elements_text strtod u js \<Longrightarrow>
    elements_text strtod (a @ t @ b @ 0x2C # u) (j # js)"
| text_member: "is_ws a \<Longrightarrow> string_text k key \<Longrightarrow> is_ws b \<Longrightarrow> is_ws c \<Longrightarrow> value_text strtod t j \<Longrightarrow> is_ws d \<Longrightarrow>
    members_text strtod (a @ 0x22 # k @ 0x22 # b @ 0x3A # c @ t @ d) [(text_of key, j)]"
| text_members: "is_ws a \<Longrightarrow> string_text k key \<Longrightarrow> is_ws b \<Longrightarrow> is_ws c \<Longrightarrow> value_text strtod t j \<Longrightarrow> is_ws d \<Longrightarrow> members_text strtod u ps \<Longrightarrow>
    members_text strtod (a @ 0x22 # k @ 0x22 # b @ 0x3A # c @ t @ d @ 0x2C # u) ((text_of key, j) # ps)"

section \<open>Reading a text\<close>

function utf8_check_string :: "u8 list \<Rightarrow> bool" where
  "utf8_check_string [] = True"
| "utf8_check_string (b # bs) =
     (let n = utf8_check_first b
      in if n = 0 then False
         else (1 < n \<longrightarrow> n \<le> length (b # bs) \<and> utf8_check_full (take n (b # bs))) \<and> utf8_check_string (drop n (b # bs)))"
  by pat_completeness auto

termination by (relation "measure length") auto

text \<open>\<open>live\<close>: the stream gives these bytes next; \<open>reads\<close>: or it has ended and there are none.\<close>

definition live :: "stream \<Rightarrow> u8 list \<Rightarrow> bool" where
  "live s bs \<longleftrightarrow> st_state s = STREAM_STATE_OK \<and> st_cached s @ st_data s = bs \<and> 0 \<notin> set bs \<and> utf8_check_string (st_data s)"

definition reads :: "stream \<Rightarrow> u8 list \<Rightarrow> bool" where
  "reads s bs \<longleftrightarrow> live s bs \<or> st_state s = STREAM_STATE_EOF \<and> bs = []"

definition ahead :: "got \<Rightarrow> stream \<Rightarrow> u8 list \<Rightarrow> bool" where
  "ahead c s bs \<longleftrightarrow> bs = [] \<and> c = At_eof \<and> reads s [] \<or> (\<exists>b r. bs = b # r \<and> b \<noteq> 0 \<and> c = Byte b \<and> live s r)"

lemma fetch_live:
  assumes "st_state s = STREAM_STATE_OK" and "st_data s = b # bs" and "utf8_check_string (st_data s)" and "0 \<notin> set (b # bs)"
  shows "\<exists>s'. stream_fetch s = (Byte b, s') \<and> live s' bs"
proof (cases "0x80 \<le> b")
  case True
  define n where "n = utf8_check_first b"
  have n: "n \<noteq> 0" "1 < n" using assms(2,3) True by (auto simp: n_def utf8_check_first_def Let_def split: if_splits)
  then have u: "n \<le> length (b # bs)" "utf8_check_full (take n (b # bs))" "utf8_check_string (drop n (b # bs))"
    using assms(2,3) by (auto simp: n_def [symmetric] Let_def)
  have "tl (take n (b # bs)) @ drop n (b # bs) = bs" using n by (cases n) simp_all
  then show ?thesis using assms True n u by (simp add: stream_fetch_def n_def [symmetric] Let_def live_def)
next
  case False
  then have "b < 0x80" by simp
  then have "utf8_check_first b = 1" by (simp only: utf8_check_first_def if_True)
  then show ?thesis using assms False by (simp add: stream_fetch_def live_def Let_def)
qed

lemma get_reads:
  assumes "reads s bs"
  obtains c s' where "stream_get s = (c, s')" "ahead c s' bs"
proof (cases bs)
  case Nil
  then have "\<exists>s'. stream_get s = (At_eof, s') \<and> reads s' []"
    using assms by (auto simp: reads_def live_def stream_get_def stream_fetch_def)
  then show ?thesis using that Nil by (auto simp: ahead_def)
next
  case (Cons b r)
  then have l: "st_state s = STREAM_STATE_OK" "st_cached s @ st_data s = b # r" "0 \<notin> set (b # r)" "utf8_check_string (st_data s)"
    using assms by (auto simp: reads_def live_def)
  have "\<exists>s'. stream_get s = (Byte b, s') \<and> live s' r"
  proof (cases "st_cached s")
    case Nil
    then show ?thesis using fetch_live [of s b r] l by (simp add: stream_get_def)
  next
    case (Cons c cs)
    then show ?thesis using l by (simp add: stream_get_def live_def)
  qed
  then show ?thesis using that Cons l(3) by (auto simp: ahead_def)
qed

lemma unget_ahead: "ahead c s bs \<Longrightarrow> reads (stream_unget c s) bs"
  by (auto simp: ahead_def stream_unget_def reads_def live_def)

lemma ahead_Byte: "ahead (Byte b) s bs \<Longrightarrow> \<exists>r. bs = b # r \<and> live s r \<and> b \<noteq> 0"
  by (auto simp: ahead_def)

lemma live_reads: "live s bs \<Longrightarrow> reads s bs" by (simp add: reads_def)

lemma reads_Byte:
  assumes "reads s (b # r)"
  obtains s' where "stream_get s = (Byte b, s')" "live s' r"
  using get_reads [OF assms] by (auto simp: ahead_def)

lemma take_bytes_ahead:
  "ahead c s (xs @ rest) \<Longrightarrow> list_all ok xs \<Longrightarrow> rest = [] \<or> \<not> ok (hd rest) \<Longrightarrow>
   \<exists>c' s'. take_bytes ok c s = (xs, c', s') \<and> ahead c' s' rest"
proof (induction xs arbitrary: c s)
  case Nil
  then show ?case by (cases rest) (auto simp: ahead_def)
next
  case (Cons x xs)
  then have c: "c = Byte x" "live s (xs @ rest)" by (auto simp: ahead_def)
  obtain c1 s1 where g: "stream_get s = (c1, s1)" "ahead c1 s1 (xs @ rest)" using get_reads [OF live_reads [OF c(2)]] .
  then show ?case using Cons.IH [OF g(2)] Cons.prems(2,3) c(1) by auto
qed

lemma take_hex_reads:
  "reads s (hs @ rest) \<Longrightarrow> list_all l_isxdigit hs \<Longrightarrow> \<exists>s'. take_hex (length hs) s = (Some hs, s') \<and> reads s' rest"
proof (induction hs arbitrary: s)
  case (Cons h hs)
  then have "reads s (h # hs @ rest)" by simp
  then obtain s1 where g: "stream_get s = (Byte h, s1)" "live s1 (hs @ rest)" by (rule reads_Byte)
  then show ?case using Cons.IH [OF live_reads [OF g(2)]] Cons.prems(2) by auto
qed simp

lemma not_space_like: "c \<noteq> 0x22 \<Longrightarrow> c \<noteq> 0x5C \<Longrightarrow> 0x20 \<le> c \<Longrightarrow> \<not> c \<le> (0x1F :: u8)"
  by (simp add: word_le_nat_alt)

lemma scan_body_plain:
  "stream_get s = (Byte c, s1) \<Longrightarrow> c \<noteq> 0x22 \<Longrightarrow> c \<noteq> 0x5C \<Longrightarrow> 0x20 \<le> c \<Longrightarrow> scan_body s1 = (r, s2) \<Longrightarrow>
   scan_body s = (map_option (Cons c) r, s2)"
  using not_space_like by (subst scan_body.simps) simp

lemma scan_body_short:
  "stream_get s = (Byte 0x5C, s1) \<Longrightarrow> stream_get s1 = (Byte d, s2) \<Longrightarrow> short_escape d \<Longrightarrow> scan_body s2 = (r, s3) \<Longrightarrow>
   scan_body s = (map_option (\<lambda>r. 0x5C # d # r) r, s3)"
  by (subst scan_body.simps) (auto simp: short_escape_def)

lemma scan_body_unicode:
  "stream_get s = (Byte 0x5C, s1) \<Longrightarrow> stream_get s1 = (Byte 0x75, s2) \<Longrightarrow> take_hex 4 s2 = (Some hs, s3) \<Longrightarrow> scan_body s3 = (r, s4) \<Longrightarrow>
   scan_body s = (map_option (\<lambda>r. 0x5C # 0x75 # hs @ r) r, s4)"
  by (subst scan_body.simps) simp

lemma scan_body_end: "stream_get s = (Byte 0x22, s1) \<Longrightarrow> scan_body s = (Some [], s1)"
  by (subst scan_body.simps) simp

lemma scan_body_reads_unicode:
  assumes "reads s (0x5C # 0x75 # hs @ t @ 0x22 # rest)" and "length hs = 4" and "list_all l_isxdigit hs"
    and "\<And>s. reads s (t @ 0x22 # rest) \<Longrightarrow> \<exists>s'. scan_body s = (Some t, s') \<and> reads s' rest"
  shows "\<exists>s'. scan_body s = (Some (0x5C # 0x75 # hs @ t), s') \<and> reads s' rest"
proof -
  obtain s1 where 1: "stream_get s = (Byte 0x5C, s1)" "live s1 (0x75 # hs @ t @ 0x22 # rest)"
    using reads_Byte [OF assms(1)] by auto
  obtain s2 where 2: "stream_get s1 = (Byte 0x75, s2)" "live s2 (hs @ t @ 0x22 # rest)"
    using reads_Byte [OF live_reads [OF 1(2)]] by auto
  obtain s3 where 3: "take_hex 4 s2 = (Some hs, s3)" "reads s3 (t @ 0x22 # rest)"
    using take_hex_reads [OF live_reads [OF 2(2)] assms(3)] assms(2) by auto
  obtain s4 where 4: "scan_body s3 = (Some t, s4)" "reads s4 rest" using assms(4) [OF 3(2)] by auto
  show ?thesis using scan_body_unicode [OF 1(1) 2(1) 3(1) 4(1)] 4(2) by simp
qed

lemma scan_body_reads:
  "string_text t v \<Longrightarrow> reads s (t @ 0x22 # rest) \<Longrightarrow> \<exists>s'. scan_body s = (Some t, s') \<and> reads s' rest"
proof (induction t v arbitrary: s rule: string_text.induct)
  case string_Nil
  then obtain s1 where "stream_get s = (Byte 0x22, s1)" "live s1 rest" by (auto elim: reads_Byte)
  then show ?case using scan_body_end live_reads by auto
next
  case (string_plain t v c)
  then obtain s1 where 1: "stream_get s = (Byte c, s1)" "live s1 (t @ 0x22 # rest)" by (auto elim: reads_Byte)
  obtain s2 where 2: "scan_body s1 = (Some t, s2)" "reads s2 rest" using string_plain.IH [OF live_reads [OF 1(2)]] by auto
  show ?case using scan_body_plain [OF 1(1) _ _ _ 2(1)] string_plain.hyps 2(2) by simp
next
  case (string_short t v d)
  then obtain s1 where 1: "stream_get s = (Byte 0x5C, s1)" "live s1 (d # t @ 0x22 # rest)" by (auto elim: reads_Byte)
  obtain s2 where 2: "stream_get s1 = (Byte d, s2)" "live s2 (t @ 0x22 # rest)" using reads_Byte [OF live_reads [OF 1(2)]] by auto
  obtain s3 where 3: "scan_body s2 = (Some t, s3)" "reads s3 rest" using string_short.IH [OF live_reads [OF 2(2)]] by auto
  show ?case using scan_body_short [OF 1(1) 2(1) string_short.hyps(2) 3(1)] 3(2) by simp
next
  case (string_unicode t v hs u)
  then show ?case using scan_body_reads_unicode [of s hs t rest] by simp
next
  case (string_pair t v hs ls u l)
  have "\<exists>s'. scan_body s = (Some (0x5C # 0x75 # ls @ t), s') \<and> reads s' rest"
    if "reads s ((0x5C # 0x75 # ls @ t) @ 0x22 # rest)" for s
    using scan_body_reads_unicode [of s ls t rest] string_pair that by simp
  then show ?case using scan_body_reads_unicode [of s hs "0x5C # 0x75 # ls @ t" rest] string_pair by simp
qed

lemma unescape_text: "string_text t v \<Longrightarrow> unescape t = Some v"
proof (induction t v rule: string_text.induct)
  case (string_short t v d)
  then show ?case by (auto simp: short_escape_def)
next
  case (string_unicode t v hs u)
  have "decode_unicode_escape (hs @ t) = u" using string_unicode by (simp add: decode_unicode_escape_def)
  then show ?case using string_unicode by auto
next
  case (string_pair t v hs ls u l)
  have "decode_unicode_escape (hs @ r) = u" "decode_unicode_escape (ls @ r) = l" for r
    using string_pair by (simp_all add: decode_unicode_escape_def)
  then show ?case using string_pair by (simp add: Let_def)
qed simp_all

lemma scan_string_reads:
  assumes "string_text t v" and "reads s (t @ 0x22 # rest)"
  obtains s' where "lex_scan_string s = (T_string v, s')" "reads s' rest"
  using scan_body_reads [OF assms] unescape_text [OF assms(1)] by (auto simp: lex_scan_string_def)

text \<open>What may follow a value.\<close>

definition delims :: "u8 list \<Rightarrow> bool" where
  "delims r \<longleftrightarrow> r = [] \<or> is_space (hd r) \<or> hd r \<in> {0x2C, 0x3A, 0x5D, 0x7D}"

lemma delims_hd: "delims r \<Longrightarrow> r = [] \<or> \<not> l_isdigit (hd r) \<and> \<not> l_isalpha (hd r) \<and> hd r \<notin> {0x2E, 0x45, 0x65}"
  by (auto simp: delims_def is_space_def l_isdigit_def l_isalpha_def)

lemma ahead_not: "ahead c s r \<Longrightarrow> r = [] \<or> hd r \<noteq> b \<Longrightarrow> c \<noteq> Byte b"
  by (auto simp: ahead_def)

lemma scan_exponent_none:
  assumes "strtod saved = Some d" and "ahead c s rest" and "delims rest"
  shows "\<exists>s'. scan_exponent strtod saved c s = (T_real d, s') \<and> reads s' rest"
proof -
  have "c \<noteq> Byte 0x45" "c \<noteq> Byte 0x65" using delims_hd [OF assms(3)] ahead_not [OF assms(2)] by auto
  then show ?thesis using assms(1) unget_ahead [OF assms(2)]
    by (cases c) (simp_all add: scan_exponent_def Let_def)
qed

lemma scan_exponent_some:
  assumes "exp_part x" and "strtod (saved @ x) = Some d" and "ahead c s (x @ rest)" and "delims rest"
  shows "\<exists>s'. scan_exponent strtod saved c s = (T_real d, s') \<and> reads s' rest"
proof -
  obtain e sign ds where x: "e = 0x45 \<or> e = 0x65" "sign \<in> {[], [0x2B], [0x2D]}" "ds \<noteq> []" "list_all l_isdigit ds" "x = e # sign @ ds"
    using assms(1) by (auto simp: exp_part_def)
  obtain g gs where ds: "ds = g # gs" "l_isdigit g" using x(3,4) by (cases ds) auto
  then have g: "g \<noteq> 0x2B" "g \<noteq> 0x2D" by (auto simp: l_isdigit_def)
  have c: "c = Byte e" "live s (sign @ ds @ rest)" using assms(3) x(5) by (auto simp: ahead_def)
  obtain c1 s1 where 1: "stream_get s = (c1, s1)" "ahead c1 s1 (sign @ ds @ rest)" using get_reads [OF live_reads [OF c(2)]] .
  obtain c2 s2 where 2: "(case c1 of Byte g \<Rightarrow> if g = 0x2B \<or> g = 0x2D then (case stream_get s1 of (c, s) \<Rightarrow> ([g], c, s)) else ([], c1, s1)
      | _ \<Rightarrow> ([], c1, s1)) = (sign, c2, s2)" "ahead c2 s2 (ds @ rest)"
  proof (cases "sign = []")
    case True
    then show ?thesis using that [of c1 s1] 1(2) g ds(1) by (auto simp: ahead_def)
  next
    case False
    then obtain h where h: "sign = [h]" "h = 0x2B \<or> h = 0x2D" using x(2) by auto
    then have "c1 = Byte h" "live s1 (ds @ rest)" using 1(2) by (auto simp: ahead_def)
    moreover obtain c2 s2 where "stream_get s1 = (c2, s2)" "ahead c2 s2 (ds @ rest)"
      using get_reads [OF live_reads [OF calculation(2)]] .
    ultimately show ?thesis using that [of c2 s2] h by auto
  qed
  obtain c3 s3 where 3: "take_bytes l_isdigit c2 s2 = (ds, c3, s3)" "ahead c3 s3 rest"
    using take_bytes_ahead [OF 2(2) x(4)] delims_hd [OF assms(4)] by auto
  have "got_digit c2" using 2(2) ds by (auto simp: ahead_def)
  then show ?thesis using x(1,5) assms(2) unget_ahead [OF 3(2)]
    by (simp add: scan_exponent_def c(1) 1(1) 2(1) 3(1) Let_def)
qed

lemma scan_fraction_int:
  assumes "json_strtoint a = Some i" and "ahead c s rest" and "delims rest"
  shows "\<exists>s'. scan_fraction strtod a c s = (T_integer i, s') \<and> reads s' rest"
proof -
  have "c \<noteq> Byte 0x2E" "c \<noteq> Byte 0x45" "c \<noteq> Byte 0x65" using delims_hd [OF assms(3)] ahead_not [OF assms(2)] by auto
  then show ?thesis using assms(1) unget_ahead [OF assms(2)] by (simp add: scan_fraction_def)
qed

lemma scan_fraction_real:
  assumes "b = [] \<or> frac_part b" and "x = [] \<or> exp_part x" and "b @ x \<noteq> []" and "strtod (a @ b @ x) = Some d"
    and "ahead c s (b @ x @ rest)" and "delims rest"
  shows "\<exists>s'. scan_fraction strtod a c s = (T_real d, s') \<and> reads s' rest"
proof (cases "b = []")
  case True
  then have x: "exp_part x" using assms(2,3) by auto
  then have "c = Byte 0x45 \<or> c = Byte 0x65" using assms(5) True by (auto simp: exp_part_def ahead_def)
  then show ?thesis using scan_exponent_some [OF x, of strtod a d c s rest] assms True by (auto simp: scan_fraction_def)
next
  case False
  then obtain ds where b: "ds \<noteq> []" "list_all l_isdigit ds" "b = 0x2E # ds" using assms(1) by (auto simp: frac_part_def)
  then have c: "c = Byte 0x2E" "live s (ds @ x @ rest)" using assms(5) by (auto simp: ahead_def)
  obtain c1 s1 where 1: "stream_get s = (c1, s1)" "ahead c1 s1 (ds @ x @ rest)" using get_reads [OF live_reads [OF c(2)]] .
  have "x @ rest = [] \<or> \<not> l_isdigit (hd (x @ rest))"
    using assms(2) delims_hd [OF assms(6)] by (auto simp: exp_part_def l_isdigit_def)
  then obtain c2 s2 where 2: "take_bytes l_isdigit c1 s1 = (ds, c2, s2)" "ahead c2 s2 (x @ rest)"
    using take_bytes_ahead [OF 1(2) b(2)] by auto
  have "got_digit c1" using 1(2) b(1,2) by (cases ds) (auto simp: ahead_def)
  then have "scan_fraction strtod a c s = scan_exponent strtod (a @ b) c2 s2"
    by (simp add: scan_fraction_def c(1) 1(1) 2(1) Let_def b(3))
  then show ?thesis
    using scan_exponent_none [of strtod "a @ b" d c2 s2 rest] scan_exponent_some [of x strtod "a @ b" d c2 s2 rest] 2(2) assms(2,4,6)
    by (cases "x = []") auto
qed

lemma lex_scan_number_int:
  assumes "int_part (b # a)" and "live s (a @ rest)" and "rest = [] \<or> \<not> l_isdigit (hd rest)"
  shows "\<exists>c s'. lex_scan_number strtod b s = scan_fraction strtod (b # a) c s' \<and> ahead c s' rest"
proof -
  obtain ds where ds: "int_digits ds" "b # a = ds \<or> b = 0x2D \<and> a = ds" using assms(1) by (auto simp: int_part_def)
  obtain g gs where g: "ds = g # gs" "l_isdigit g" "g = 0x30 \<longrightarrow> gs = []" "list_all l_isdigit ds"
    using ds(1) by (cases ds) (auto simp: int_digits_def)
  then have gm: "g \<noteq> 0x2D" by (auto simp: l_isdigit_def)
  have "0 \<notin> set (a @ rest)" using assms(2) by (simp add: live_def)
  then have "\<exists>sign c s1. (if b = 0x2D then (case stream_get s of (c, s) \<Rightarrow> ([b], c, s)) else ([], Byte b, s)) = (sign, c, s1) \<and>
      ahead c s1 (ds @ rest) \<and> b # a = sign @ ds"
  proof (cases "b = 0x2D")
    case True
    then have "a = ds" using ds(2) g(1) gm by auto
    then show ?thesis using True assms(2) by (auto elim: get_reads [OF live_reads])
  next
    case False
    then show ?thesis using ds(2) g(1,2) assms(2) by (auto simp: ahead_def l_isdigit_def)
  qed
  then obtain sign c s1 where c: "(if b = 0x2D then (case stream_get s of (c, s) \<Rightarrow> ([b], c, s)) else ([], Byte b, s)) = (sign, c, s1)"
    "ahead c s1 (ds @ rest)" "b # a = sign @ ds" by blast
  have cg: "c = Byte g" "live s1 (gs @ rest)" using c(2) g(1) by (auto simp: ahead_def)
  show ?thesis
  proof (cases "g = 0x30")
    case True
    then have gs: "gs = []" using g(3) by simp
    obtain c2 s2 where 2: "stream_get s1 = (c2, s2)" "ahead c2 s2 rest" using get_reads [OF live_reads [OF cg(2)]] gs by auto
    then have "\<not> got_digit c2" using assms(3) by (auto simp: ahead_def)
    then show ?thesis using 2 c(1,3) cg(1) True g(1) gs by (auto simp: lex_scan_number_def Let_def)
  next
    case False
    obtain c2 s2 where 2: "take_bytes l_isdigit c s1 = (ds, c2, s2)" "ahead c2 s2 rest"
      using take_bytes_ahead [OF c(2) g(4) assms(3)] by auto
    then show ?thesis using c(1,3) cg(1) False g(2) by (auto simp: lex_scan_number_def Let_def simp del: take_bytes.simps)
  qed
qed

text \<open>The next token.\<close>

lemma lex_scan_at:
  assumes "is_ws w" and "reads s (w @ b # r)" and "\<not> is_space b"
  obtains c s1 s2 where "stream_get s = (c, s1)" "take_bytes is_space c s1 = (w, Byte b, s2)" "live s2 r"
proof -
  obtain c s1 where 1: "stream_get s = (c, s1)" "ahead c s1 (w @ b # r)" using get_reads [OF assms(2)] .
  obtain c2 s2 where 2: "take_bytes is_space c s1 = (w, c2, s2)" "ahead c2 s2 (b # r)"
    using take_bytes_ahead [OF 1(2), of is_space] assms(1,3) by (auto simp: is_ws_def)
  then show ?thesis using that 1(1) by (auto simp: ahead_def)
qed

lemma lex_scan_punctuation:
  assumes "is_ws w" and "reads s (w @ b # r)" and "punctuation b"
  obtains s' where "lex_scan strtod s = (T_char b, s')" "reads s' r"
proof -
  have "\<not> is_space b" using assms(3) by (auto simp: punctuation_def is_space_def)
  then obtain c s1 s2 where "stream_get s = (c, s1)" "take_bytes is_space c s1 = (w, Byte b, s2)" "live s2 r"
    using lex_scan_at [OF assms(1,2)] by metis
  then show ?thesis using that assms(3) live_reads by (simp add: lex_scan_def)
qed

lemma lex_scan_eof:
  assumes "is_ws w" and "reads s w"
  obtains s' where "lex_scan strtod s = (T_eof, s')"
proof -
  have r: "reads s (w @ [])" using assms(2) by simp
  obtain c s1 where 1: "stream_get s = (c, s1)" "ahead c s1 (w @ [])" using get_reads [OF r] .
  obtain c2 s2 where 2: "take_bytes is_space c s1 = (w, c2, s2)" "ahead c2 s2 []"
    using take_bytes_ahead [OF 1(2), of is_space] assms(1) by (auto simp: is_ws_def)
  then show ?thesis using that 1(1) by (auto simp: lex_scan_def ahead_def)
qed

lemma lex_scan_string_token:
  assumes "is_ws w" and "reads s (w @ 0x22 # t @ 0x22 # r)" and "string_text t v"
  obtains s' where "lex_scan strtod s = (T_string v, s')" "reads s' r"
proof -
  have "\<not> is_space 0x22" by (simp add: is_space_def)
  then obtain c s1 s2 where 1: "stream_get s = (c, s1)" "take_bytes is_space c s1 = (w, Byte 0x22, s2)" "live s2 (t @ 0x22 # r)"
    using lex_scan_at [OF assms(1,2)] by metis
  obtain s' where 2: "lex_scan_string s2 = (T_string v, s')" "reads s' r"
    using scan_string_reads [OF assms(3) live_reads [OF 1(3)]] by metis
  then show ?thesis using that 1 by (simp add: lex_scan_def punctuation_def)
qed

lemma chars_words: "chars ''true'' = [0x74, 0x72, 0x75, 0x65]" "chars ''false'' = [0x66, 0x61, 0x6C, 0x73, 0x65]"
  "chars ''null'' = [0x6E, 0x75, 0x6C, 0x6C]"
  by (simp_all add: chars_def)

lemma lex_scan_word:
  assumes "is_ws w" and "reads s (w @ x @ r)" and "delims r" and "x \<in> {chars ''true'', chars ''false'', chars ''null''}"
  obtains s' where "lex_scan strtod s =
      (if x = chars ''true'' then T_true else if x = chars ''false'' then T_false else T_null, s')" "reads s' r"
proof -
  obtain b y where x: "x = b # y" "b \<in> {0x74, 0x66, 0x6E}" "list_all l_isalpha x"
    using assms(4) by (auto simp: chars_words l_isalpha_def)
  have b: "\<not> is_space b" "\<not> punctuation b" "b \<noteq> 0x22" "\<not> (l_isdigit b \<or> b = 0x2D)" "l_isalpha b"
    using x(2) by (auto simp: is_space_def punctuation_def l_isdigit_def l_isalpha_def)
  obtain c s1 s2 where 1: "stream_get s = (c, s1)" "take_bytes is_space c s1 = (w, Byte b, s2)" "live s2 (y @ r)"
    using lex_scan_at [OF assms(1) _ b(1), of s "y @ r"] assms(2) x(1) by auto
  have "0 \<noteq> b" using x(2) by auto
  then have "ahead (Byte b) s2 (x @ r)" using 1(3) x(1) by (simp add: ahead_def)
  then obtain c3 s3 where 3: "take_bytes l_isalpha (Byte b) s2 = (x, c3, s3)" "ahead c3 s3 r"
    using take_bytes_ahead [OF _ x(3)] delims_hd [OF assms(3)] by blast
  then have "lex_scan strtod s = (if x = chars ''true'' then T_true else if x = chars ''false'' then T_false
      else if x = chars ''null'' then T_null else T_invalid, stream_unget c3 s3)"
    using 1 b by (simp add: lex_scan_def del: take_bytes.simps)
  then show ?thesis using that assms(4) unget_ahead [OF 3(2)] by auto
qed

lemma lex_scan_numeral:
  assumes "is_ws w" and "reads s (w @ (b # a) @ y @ r)" and "int_part (b # a)" and "y @ r = [] \<or> \<not> l_isdigit (hd (y @ r))"
  obtains c s' where "lex_scan strtod s = scan_fraction strtod (b # a) c s'" "ahead c s' (y @ r)"
proof -
  have lb: "l_isdigit b \<or> b = 0x2D" using assms(3) by (auto simp: int_part_def int_digits_def)
  have b: "\<not> is_space b" "\<not> punctuation b" "b \<noteq> 0x22"
    using lb by (auto simp: is_space_def punctuation_def l_isdigit_def)
  obtain c s1 s2 where 1: "stream_get s = (c, s1)" "take_bytes is_space c s1 = (w, Byte b, s2)" "live s2 (a @ y @ r)"
    using lex_scan_at [OF assms(1) _ b(1), of s "a @ y @ r"] assms(2) by auto
  obtain c3 s3 where "lex_scan_number strtod b s2 = scan_fraction strtod (b # a) c3 s3" "ahead c3 s3 (y @ r)"
    using lex_scan_number_int [OF assms(3) 1(3) assms(4)] by blast
  then show ?thesis using that 1 b lb by (simp add: lex_scan_def del: take_bytes.simps)
qed

lemma int_part_Cons: "int_part t \<Longrightarrow> \<exists>b a. t = b # a"
  by (cases t) (auto simp: int_part_def int_digits_def)

lemma lex_scan_integer:
  assumes "is_ws w" and "reads s (w @ t @ r)" and "delims r" and "int_part t" and "json_strtoint t = Some i"
  obtains s' where "lex_scan strtod s = (T_integer i, s')" "reads s' r"
proof -
  obtain b a where t: "t = b # a" using int_part_Cons [OF assms(4)] by blast
  obtain c s' where "lex_scan strtod s = scan_fraction strtod t c s'" and a: "ahead c s' r"
    using lex_scan_numeral [of w s b a "[]" r] assms(1,2,4) delims_hd [OF assms(3)] t by auto
  moreover obtain s'' where "scan_fraction strtod t c s' = (T_integer i, s'')" "reads s'' r"
    using scan_fraction_int [OF assms(5) a assms(3)] by blast
  ultimately show ?thesis using that by simp
qed

lemma lex_scan_real:
  assumes "is_ws w" and "reads s (w @ (a @ b @ x) @ r)" and "delims r" and "int_part a"
    and "b = [] \<or> frac_part b" and "x = [] \<or> exp_part x" and "b @ x \<noteq> []" and "strtod (a @ b @ x) = Some d"
  obtains s' where "lex_scan strtod s = (T_real d, s')" "reads s' r"
proof -
  obtain g h where a: "a = g # h" using int_part_Cons [OF assms(4)] by blast
  have "(b @ x) @ r = [] \<or> \<not> l_isdigit (hd ((b @ x) @ r))"
    using assms(5-7) by (auto simp: frac_part_def exp_part_def l_isdigit_def)
  then obtain c s' where "lex_scan strtod s = scan_fraction strtod a c s'" and l: "ahead c s' (b @ x @ r)"
    using lex_scan_numeral [of w s g h "b @ x" r] assms(1,2,4) a by auto
  moreover obtain s'' where "scan_fraction strtod a c s' = (T_real d, s'')" "reads s'' r"
    using scan_fraction_real [where strtod = strtod, OF assms(5-8) l assms(3)] by blast
  ultimately show ?thesis using that by simp
qed

section \<open>The parser follows the grammar\<close>

definition starts :: "token \<Rightarrow> bool" where
  "starts tok \<longleftrightarrow> tok \<notin> {T_eof, T_invalid, T_char 0x5D, T_char 0x7D}"

definition parses_value :: "(u8 list \<Rightarrow> dbl option) \<Rightarrow> u8 list \<Rightarrow> json \<Rightarrow> bool" where
  "parses_value strtod t j \<longleftrightarrow>
     (\<forall>s w rest. is_ws w \<longrightarrow> reads s (w @ t @ rest) \<longrightarrow> delims rest \<longrightarrow>
        (\<exists>tok s1 s'. lex_scan strtod s = (tok, s1) \<and> starts tok \<and> reads s' rest \<and>
           (\<forall>n. cost tok s1 + 1 \<le> n \<longrightarrow> parse_value n strtod tok s1 = Some (Some j, s'))))"

definition parses_elements :: "(u8 list \<Rightarrow> dbl option) \<Rightarrow> u8 list \<Rightarrow> json list \<Rightarrow> bool" where
  "parses_elements strtod t js \<longleftrightarrow>
     (\<forall>s rest. reads s (t @ 0x5D # rest) \<longrightarrow>
        (\<exists>tok s1 s'. lex_scan strtod s = (tok, s1) \<and> starts tok \<and> reads s' rest \<and>
           (\<forall>n acc. cost tok s1 + 2 \<le> n \<longrightarrow> parse_array n strtod acc tok s1 = Some (Some (JArray (acc @ js)), s'))))"

definition set_all :: "(string \<times> json) list \<Rightarrow> (string \<times> json) list \<Rightarrow> (string \<times> json) list" where
  "set_all kvs ps = foldl (\<lambda>kvs (k, v). json_object_set kvs k v) kvs ps"

definition parses_members :: "(u8 list \<Rightarrow> dbl option) \<Rightarrow> u8 list \<Rightarrow> (string \<times> json) list \<Rightarrow> bool" where
  "parses_members strtod t ps \<longleftrightarrow>
     (\<forall>s rest. reads s (t @ 0x7D # rest) \<longrightarrow>
        (\<exists>tok s1 s'. lex_scan strtod s = (tok, s1) \<and> starts tok \<and> reads s' rest \<and>
           (\<forall>n kvs. cost tok s1 + 1 \<le> n \<longrightarrow> parse_object n strtod kvs tok s1 = Some (Some (JObject (set_all kvs ps)), s'))))"

lemma parses_value_tok:
  assumes "\<And>s w rest. is_ws w \<Longrightarrow> reads s (w @ t @ rest) \<Longrightarrow> delims rest \<Longrightarrow> \<exists>s'. lex_scan strtod s = (tok, s') \<and> reads s' rest"
    and "\<And>n s. parse_value (Suc n) strtod tok s = Some (Some j, s)" and "starts tok"
  shows "parses_value strtod t j"
  unfolding parses_value_def
proof (intro allI impI)
  fix s w rest assume "is_ws w" "reads s (w @ t @ rest)" "delims rest"
  then obtain s' where l: "lex_scan strtod s = (tok, s')" "reads s' rest" using assms(1) by blast
  have "parse_value n strtod tok s' = Some (Some j, s')" if "cost tok s' + 1 \<le> n" for n
    using that assms(2) by (cases n) auto
  then show "\<exists>tok s1 s'. lex_scan strtod s = (tok, s1) \<and> starts tok \<and> reads s' rest \<and>
      (\<forall>n. cost tok s1 + 1 \<le> n \<longrightarrow> parse_value n strtod tok s1 = Some (Some j, s'))"
    using l assms(3) by blast
qed

lemma delims_consts: "delims (0x2C # r)" "delims (0x5D # r)" "delims (0x7D # r)" "is_ws w \<Longrightarrow> delims r \<Longrightarrow> delims (w @ r)"
  by (simp_all add: delims_def) (cases w; auto simp: is_ws_def delims_def)

lemma punctuation_consts: "punctuation 0x2C" "punctuation 0x5D" "punctuation 0x7D" "punctuation 0x3A" "punctuation 0x7B" "punctuation 0x5B"
  by (simp_all add: punctuation_def)

lemma value_left: "parse_value n strtod tok s = Some (j, s') \<Longrightarrow> cost tok s + 1 \<le> n \<Longrightarrow> stream_left s' \<le> stream_left s"
  using parse_settles(1) [of tok s n strtod] by (auto simp: settled_def)

lemma starts_cost: "starts tok \<Longrightarrow> cost tok s = 2 * stream_left s + 2"
  by (simp add: starts_def cost_def)

text \<open>A value of a list: what is read after it and how the cost goes down.\<close>

lemma parses_value_then:
  assumes "parses_value strtod t j" and "is_ws a" and "is_ws d" and "punctuation b" and "delims (b # rest)" and "reads s (a @ t @ d @ b # rest)"
  obtains tok s1 s2 s3 where "lex_scan strtod s = (tok, s1)" "starts tok" "lex_scan strtod s2 = (T_char b, s3)" "reads s3 rest"
    "\<forall>n. cost tok s1 + 1 \<le> n \<longrightarrow> parse_value n strtod tok s1 = Some (Some j, s2)" "2 * stream_left s3 + 4 \<le> cost tok s1"
proof -
  have "delims (d @ b # rest)" using assms(3,5) delims_consts(4) by blast
  then obtain tok s1 s2 where 1: "lex_scan strtod s = (tok, s1)" "starts tok" "reads s2 (d @ b # rest)"
      "\<forall>n. cost tok s1 + 1 \<le> n \<longrightarrow> parse_value n strtod tok s1 = Some (Some j, s2)"
    using assms(1,2,6) unfolding parses_value_def by blast
  obtain s3 where 2: "lex_scan strtod s2 = (T_char b, s3)" "reads s3 rest"
    using lex_scan_punctuation [OF assms(3) 1(3) assms(4)] by metis
  have "parse_value (cost tok s1 + 1) strtod tok s1 = Some (Some j, s2)" using 1(4) by blast
  then have "stream_left s2 \<le> stream_left s1" by (rule value_left) simp
  moreover have "stream_left s3 < stream_left s2" using lex_scan_left [OF 2(1)] by simp
  ultimately have "2 * stream_left s3 + 4 \<le> cost tok s1" using starts_cost [OF 1(2), of s1] by simp
  then show ?thesis using that 1 2 by blast
qed

lemma parse_array_step:
  "starts tok \<Longrightarrow> parse_value n strtod tok s1 = Some (Some j, s2) \<Longrightarrow> lex_scan strtod s2 = (tok', s3) \<Longrightarrow>
   parse_array (Suc n) strtod acc tok s1 =
     (if tok' = T_char 0x2C then (case lex_scan strtod s3 of (tok, s) \<Rightarrow> parse_array n strtod (acc @ [j]) tok s)
      else if tok' = T_char 0x5D then Some (Some (JArray (acc @ [j])), s3) else Some (None, s3))"
  by (simp add: starts_def)

lemma parses_element:
  assumes "is_ws a" and "parses_value strtod t j" and "is_ws b"
  shows "parses_elements strtod (a @ t @ b) [j]"
  unfolding parses_elements_def
proof (intro allI impI)
  fix s rest assume "reads s ((a @ t @ b) @ 0x5D # rest)"
  then have r: "reads s (a @ t @ b @ 0x5D # rest)" by simp
  obtain tok s1 s2 s3 where 1: "lex_scan strtod s = (tok, s1)" "starts tok" "lex_scan strtod s2 = (T_char 0x5D, s3)" "reads s3 rest"
    "\<forall>n. cost tok s1 + 1 \<le> n \<longrightarrow> parse_value n strtod tok s1 = Some (Some j, s2)"
    using parses_value_then [OF assms(2,1,3) punctuation_consts(2) delims_consts(2) r] by metis
  have "parse_array n strtod acc tok s1 = Some (Some (JArray (acc @ [j])), s3)" if "cost tok s1 + 2 \<le> n" for n acc
    using that parse_array_step [OF 1(2) _ 1(3), where n = "n - 1" and acc = acc] 1(5) by (cases n) auto
  then show "\<exists>tok s1 s'. lex_scan strtod s = (tok, s1) \<and> starts tok \<and> reads s' rest \<and>
      (\<forall>n acc. cost tok s1 + 2 \<le> n \<longrightarrow> parse_array n strtod acc tok s1 = Some (Some (JArray (acc @ [j])), s'))"
    using 1 by blast
qed

lemma parses_more_elements:
  assumes "is_ws a" and "parses_value strtod t j" and "is_ws b" and "parses_elements strtod u js"
  shows "parses_elements strtod (a @ t @ b @ 0x2C # u) (j # js)"
  unfolding parses_elements_def
proof (intro allI impI)
  fix s rest assume "reads s ((a @ t @ b @ 0x2C # u) @ 0x5D # rest)"
  then have r: "reads s (a @ t @ b @ 0x2C # u @ 0x5D # rest)" by simp
  obtain tok s1 s2 s3 where 1: "lex_scan strtod s = (tok, s1)" "starts tok" "lex_scan strtod s2 = (T_char 0x2C, s3)"
    "reads s3 (u @ 0x5D # rest)" "\<forall>n. cost tok s1 + 1 \<le> n \<longrightarrow> parse_value n strtod tok s1 = Some (Some j, s2)"
    "2 * stream_left s3 + 4 \<le> cost tok s1"
    using parses_value_then [OF assms(2,1,3) punctuation_consts(1) delims_consts(1) r] by metis
  obtain tok' s4 s5 where 2: "lex_scan strtod s3 = (tok', s4)" "reads s5 rest"
      "\<And>n acc. cost tok' s4 + 2 \<le> n \<Longrightarrow> parse_array n strtod acc tok' s4 = Some (Some (JArray (acc @ js)), s5)"
    using assms(4) 1(4) unfolding parses_elements_def by blast
  have "parse_array n strtod acc tok s1 = Some (Some (JArray (acc @ j # js)), s5)" if "cost tok s1 + 2 \<le> n" for n acc
    using that parse_array_step [OF 1(2) _ 1(3), where n = "n - 1" and acc = acc] 1(5) 2(1) 2(3) [of "n - 1" "acc @ [j]"] 1(6) scan_cost [OF 2(1)]
    by (cases n) auto
  then show "\<exists>tok s1 s'. lex_scan strtod s = (tok, s1) \<and> starts tok \<and> reads s' rest \<and>
      (\<forall>n acc. cost tok s1 + 2 \<le> n \<longrightarrow> parse_array n strtod acc tok s1 = Some (Some (JArray (acc @ j # js)), s'))"
    using 1 2(2) by blast
qed

text \<open>A name, the colon and a value.\<close>

definition after_member ::
    "u8 \<Rightarrow> nat \<Rightarrow> (u8 list \<Rightarrow> dbl option) \<Rightarrow> (string \<times> json) list \<Rightarrow> stream \<Rightarrow> (json option \<times> stream) option" where
  "after_member e n strtod kvs s =
     (if e = 0x2C then (case lex_scan strtod s of (tok, s) \<Rightarrow> parse_object n strtod kvs tok s)
      else if e = 0x7D then Some (Some (JObject kvs), s) else Some (None, s))"

lemma parses_member_then:
  assumes "is_ws a" and "string_text k key" and "is_ws b" and "is_ws c" and "parses_value strtod t j" and "is_ws d"
    and "punctuation e" and "delims (e # rest)" and "reads s (a @ 0x22 # k @ 0x22 # b @ 0x3A # c @ t @ d @ e # rest)"
  obtains s1 s3 where "lex_scan strtod s = (T_string key, s1)" "reads s3 rest" "2 * stream_left s3 + 4 \<le> cost (T_string key) s1"
    "\<forall>n kvs. cost (T_string key) s1 + 1 \<le> Suc n \<longrightarrow> parse_object (Suc n) strtod kvs (T_string key) s1 =
       after_member e n strtod (json_object_set kvs (text_of key) j) s3"
proof -
  obtain s1 where 1: "lex_scan strtod s = (T_string key, s1)" "reads s1 (b @ 0x3A # c @ t @ d @ e # rest)"
    using lex_scan_string_token [OF assms(1,9,2)] by metis
  obtain s2 where 2: "lex_scan strtod s1 = (T_char 0x3A, s2)" "reads s2 (c @ t @ d @ e # rest)"
    using lex_scan_punctuation [OF assms(3) 1(2) punctuation_consts(4)] by metis
  obtain tok u1 u2 s3 where 3: "lex_scan strtod s2 = (tok, u1)" "starts tok" "lex_scan strtod u2 = (T_char e, s3)" "reads s3 rest"
    "\<forall>n. cost tok u1 + 1 \<le> n \<longrightarrow> parse_value n strtod tok u1 = Some (Some j, u2)" "2 * stream_left s3 + 4 \<le> cost tok u1"
    using parses_value_then [OF assms(5,4,6-8) 2(2)] by metis
  have "stream_left s2 < stream_left s1" using lex_scan_left [OF 2(1)] by simp
  then have le: "cost tok u1 + 2 \<le> 2 * stream_left s1" using scan_cost [OF 3(1)] by simp
  have c: "cost (T_string key) s1 = 2 * stream_left s1 + 2" by (simp add: cost_def)
  show ?thesis
  proof (rule that [OF 1(1) 3(4)])
    show "2 * stream_left s3 + 4 \<le> cost (T_string key) s1" using le 3(6) c by simp
    show "\<forall>n kvs. cost (T_string key) s1 + 1 \<le> Suc n \<longrightarrow> parse_object (Suc n) strtod kvs (T_string key) s1 =
       after_member e n strtod (json_object_set kvs (text_of key) j) s3"
    proof (intro allI impI)
      fix n kvs assume "cost (T_string key) s1 + 1 \<le> Suc n"
      then have "parse_value n strtod tok u1 = Some (Some j, u2)" using le c 3(5) by simp
      then show "parse_object (Suc n) strtod kvs (T_string key) s1 = after_member e n strtod (json_object_set kvs (text_of key) j) s3"
        using 2(1) 3(1,3) by (simp add: Let_def after_member_def)
    qed
  qed
qed

lemma parses_member:
  assumes "is_ws a" and "string_text k key" and "is_ws b" and "is_ws c" and "parses_value strtod t j" and "is_ws d"
  shows "parses_members strtod (a @ 0x22 # k @ 0x22 # b @ 0x3A # c @ t @ d) [(text_of key, j)]"
  unfolding parses_members_def
proof (intro allI impI)
  fix s rest assume "reads s ((a @ 0x22 # k @ 0x22 # b @ 0x3A # c @ t @ d) @ 0x7D # rest)"
  then have r: "reads s (a @ 0x22 # k @ 0x22 # b @ 0x3A # c @ t @ d @ 0x7D # rest)" by simp
  obtain s1 s3 where 1: "lex_scan strtod s = (T_string key, s1)" "reads s3 rest" and
    2: "\<forall>n kvs. cost (T_string key) s1 + 1 \<le> Suc n \<longrightarrow> parse_object (Suc n) strtod kvs (T_string key) s1 =
       after_member 0x7D n strtod (json_object_set kvs (text_of key) j) s3"
    by (rule parses_member_then [OF assms punctuation_consts(3) delims_consts(3) r]) blast
  have "parse_object n strtod kvs (T_string key) s1 = Some (Some (JObject (set_all kvs [(text_of key, j)])), s3)"
    if "cost (T_string key) s1 + 1 \<le> n" for n kvs
    using that 2 by (cases n) (auto simp: set_all_def after_member_def simp del: parse_object.simps)
  then show "\<exists>tok s1 s'. lex_scan strtod s = (tok, s1) \<and> starts tok \<and> reads s' rest \<and>
      (\<forall>n kvs. cost tok s1 + 1 \<le> n \<longrightarrow> parse_object n strtod kvs tok s1 = Some (Some (JObject (set_all kvs [(text_of key, j)])), s'))"
    using 1 by (fastforce simp: starts_def)
qed

lemma parses_more_members:
  assumes "is_ws a" and "string_text k key" and "is_ws b" and "is_ws c" and "parses_value strtod t j" and "is_ws d" and "parses_members strtod u ps"
  shows "parses_members strtod (a @ 0x22 # k @ 0x22 # b @ 0x3A # c @ t @ d @ 0x2C # u) ((text_of key, j) # ps)"
  unfolding parses_members_def
proof (intro allI impI)
  fix s rest assume "reads s ((a @ 0x22 # k @ 0x22 # b @ 0x3A # c @ t @ d @ 0x2C # u) @ 0x7D # rest)"
  then have r: "reads s (a @ 0x22 # k @ 0x22 # b @ 0x3A # c @ t @ d @ 0x2C # u @ 0x7D # rest)" by simp
  obtain s1 s3 where 1: "lex_scan strtod s = (T_string key, s1)" "reads s3 (u @ 0x7D # rest)" "2 * stream_left s3 + 4 \<le> cost (T_string key) s1" and
    2: "\<forall>n kvs. cost (T_string key) s1 + 1 \<le> Suc n \<longrightarrow> parse_object (Suc n) strtod kvs (T_string key) s1 =
       after_member 0x2C n strtod (json_object_set kvs (text_of key) j) s3"
    by (rule parses_member_then [OF assms(1-6) punctuation_consts(1) delims_consts(1) r]) blast
  obtain tok' s4 s5 where 3: "lex_scan strtod s3 = (tok', s4)" "reads s5 rest"
      "\<And>n kvs. cost tok' s4 + 1 \<le> n \<Longrightarrow> parse_object n strtod kvs tok' s4 = Some (Some (JObject (set_all kvs ps)), s5)"
    using assms(7) 1(2) unfolding parses_members_def by blast
  have "parse_object n strtod kvs (T_string key) s1 = Some (Some (JObject (set_all kvs ((text_of key, j) # ps))), s5)"
    if "cost (T_string key) s1 + 1 \<le> n" for n kvs
    using that 2 3(1) 3(3) [of "n - 1"] 1(3) scan_cost [OF 3(1)]
    by (cases n) (auto simp: set_all_def after_member_def simp del: parse_object.simps)
  then show "\<exists>tok s1 s'. lex_scan strtod s = (tok, s1) \<and> starts tok \<and> reads s' rest \<and>
      (\<forall>n kvs. cost tok s1 + 1 \<le> n \<longrightarrow> parse_object n strtod kvs tok s1 = Some (Some (JObject (set_all kvs ((text_of key, j) # ps))), s'))"
    using 1(1) 3(2) by (fastforce simp: starts_def)
qed

lemma parses_brackets:
  assumes "punctuation b" and "starts (T_char b)"
    and "\<And>s rest. reads s (t @ rest) \<Longrightarrow> \<exists>s'. reads s' rest \<and>
      (\<forall>n. 2 * stream_left s + 3 \<le> n \<longrightarrow> parse_value n strtod (T_char b) s = Some (Some j, s'))"
  shows "parses_value strtod (b # t) j"
  unfolding parses_value_def
proof (intro allI impI)
  fix s w rest assume w: "is_ws w" and r: "reads s (w @ (b # t) @ rest)" and "delims rest"
  have r': "reads s (w @ b # t @ rest)" using r by simp
  obtain s1 where 1: "lex_scan strtod s = (T_char b, s1)" "reads s1 (t @ rest)"
    using lex_scan_punctuation [OF w r' assms(1)] by metis
  obtain s' where "reads s' rest" "\<forall>n. 2 * stream_left s1 + 3 \<le> n \<longrightarrow> parse_value n strtod (T_char b) s1 = Some (Some j, s')"
    using assms(3) [OF 1(2)] by blast
  then show "\<exists>tok s1 s'. lex_scan strtod s = (tok, s1) \<and> starts tok \<and> reads s' rest \<and>
      (\<forall>n. cost tok s1 + 1 \<le> n \<longrightarrow> parse_value n strtod tok s1 = Some (Some j, s'))"
    using 1(1) assms(2) starts_cost [OF assms(2), of s1] by auto
qed

lemma parses_no_array: "is_ws w \<Longrightarrow> parses_value strtod (0x5B # w @ [0x5D]) (JArray [])"
proof (rule parses_brackets)
  fix s rest assume w: "is_ws w" and "reads s ((w @ [0x5D]) @ rest)"
  then have r: "reads s (w @ 0x5D # rest)" by simp
  obtain s' where l: "lex_scan strtod s = (T_char 0x5D, s')" "reads s' rest"
    using lex_scan_punctuation [OF w r punctuation_consts(2)] by metis
  have "parse_value n strtod (T_char 0x5B) s = Some (Some (JArray []), s')" if "2 * stream_left s + 3 \<le> n" for n
    using that l(1) by (cases n) auto
  then show "\<exists>s'. reads s' rest \<and> (\<forall>n. 2 * stream_left s + 3 \<le> n \<longrightarrow> parse_value n strtod (T_char 0x5B) s = Some (Some (JArray []), s'))"
    using l(2) by blast
qed (simp_all add: punctuation_def starts_def)

lemma parses_no_object: "is_ws w \<Longrightarrow> parses_value strtod (0x7B # w @ [0x7D]) (JObject [])"
proof (rule parses_brackets)
  fix s rest assume w: "is_ws w" and "reads s ((w @ [0x7D]) @ rest)"
  then have r: "reads s (w @ 0x7D # rest)" by simp
  obtain s' where l: "lex_scan strtod s = (T_char 0x7D, s')" "reads s' rest"
    using lex_scan_punctuation [OF w r punctuation_consts(3)] by metis
  have "parse_value n strtod (T_char 0x7B) s = Some (Some (JObject []), s')" if "2 * stream_left s + 3 \<le> n" for n
    using that l(1) by (cases n) auto
  then show "\<exists>s'. reads s' rest \<and> (\<forall>n. 2 * stream_left s + 3 \<le> n \<longrightarrow> parse_value n strtod (T_char 0x7B) s = Some (Some (JObject []), s'))"
    using l(2) by blast
qed (simp_all add: punctuation_def starts_def)

lemma parses_array: "parses_elements strtod t js \<Longrightarrow> parses_value strtod (0x5B # t @ [0x5D]) (JArray js)"
proof (rule parses_brackets)
  fix s rest assume e: "parses_elements strtod t js" and "reads s ((t @ [0x5D]) @ rest)"
  then have r: "reads s (t @ 0x5D # rest)" by simp
  obtain tok s1 s' where l: "lex_scan strtod s = (tok, s1)" "starts tok" "reads s' rest"
      "\<forall>n acc. cost tok s1 + 2 \<le> n \<longrightarrow> parse_array n strtod acc tok s1 = Some (Some (JArray (acc @ js)), s')"
    using e r unfolding parses_elements_def by blast
  have "parse_value n strtod (T_char 0x5B) s = Some (Some (JArray js), s')" if "2 * stream_left s + 3 \<le> n" for n
  proof (cases n)
    case (Suc m)
    then have "parse_array m strtod [] tok s1 = Some (Some (JArray js), s')"
      using that scan_cost [OF l(1)] l(4) by auto
    then show ?thesis using Suc l(1,2) by (simp add: starts_def)
  qed (use that in simp)
  then show "\<exists>s'. reads s' rest \<and> (\<forall>n. 2 * stream_left s + 3 \<le> n \<longrightarrow> parse_value n strtod (T_char 0x5B) s = Some (Some (JArray js), s'))"
    using l(3) by blast
qed (simp_all add: punctuation_def starts_def)

lemma parses_object: "parses_members strtod t ps \<Longrightarrow> parses_value strtod (0x7B # t @ [0x7D]) (JObject (json_object ps))"
proof (rule parses_brackets)
  fix s rest assume e: "parses_members strtod t ps" and "reads s ((t @ [0x7D]) @ rest)"
  then have r: "reads s (t @ 0x7D # rest)" by simp
  obtain tok s1 s' where l: "lex_scan strtod s = (tok, s1)" "starts tok" "reads s' rest"
      "\<forall>n kvs. cost tok s1 + 1 \<le> n \<longrightarrow> parse_object n strtod kvs tok s1 = Some (Some (JObject (set_all kvs ps)), s')"
    using e r unfolding parses_members_def by blast
  have "parse_value n strtod (T_char 0x7B) s = Some (Some (JObject (json_object ps)), s')" if "2 * stream_left s + 3 \<le> n" for n
  proof (cases n)
    case (Suc m)
    then have "parse_object m strtod [] tok s1 = Some (Some (JObject (json_object ps)), s')"
      using that scan_cost [OF l(1)] l(4) by (simp add: set_all_def json_object_def)
    then show ?thesis using Suc l(1,2) by (simp add: starts_def)
  qed (use that in simp)
  then show "\<exists>s'. reads s' rest \<and>
      (\<forall>n. 2 * stream_left s + 3 \<le> n \<longrightarrow> parse_value n strtod (T_char 0x7B) s = Some (Some (JObject (json_object ps)), s'))"
    using l(3) by blast
qed (simp_all add: punctuation_def starts_def)

lemma parses_word:
  assumes "(x, tok, j) \<in> {(chars ''true'', T_true, JTrue), (chars ''false'', T_false, JFalse), (chars ''null'', T_null, JNull)}"
  shows "parses_value strtod x j"
proof (rule parses_value_tok [where tok = tok])
  have t: "(if x = chars ''true'' then T_true else if x = chars ''false'' then T_false else T_null) = tok"
    using assms by (auto simp: chars_words)
  have x: "x \<in> {chars ''true'', chars ''false'', chars ''null''}" using assms by auto
  show "\<exists>s'. lex_scan strtod s = (tok, s') \<and> reads s' rest" if "is_ws w" "reads s (w @ x @ rest)" "delims rest" for s w rest
    by (rule lex_scan_word [OF that x, of strtod]) (unfold t, blast)
qed (use assms in \<open>auto simp: starts_def\<close>)

lemma text_parses:
  "value_text strtod t j \<Longrightarrow> parses_value strtod t j"
  "elements_text strtod t js \<Longrightarrow> parses_elements strtod t js"
  "members_text strtod t ps \<Longrightarrow> parses_members strtod t ps"
proof (induction rule: value_text_elements_text_members_text.inducts)
  case (text_string t v)
  show ?case
  proof (rule parses_value_tok [where tok = "T_string v"])
    fix s w rest assume w: "is_ws w" and "reads s (w @ (0x22 # t @ [0x22]) @ rest)"
    then have "reads s (w @ 0x22 # t @ 0x22 # rest)" by simp
    then show "\<exists>s'. lex_scan strtod s = (T_string v, s') \<and> reads s' rest"
      using lex_scan_string_token [OF w _ text_string] by metis
  qed (simp_all add: starts_def)
next
  case (text_integer t i)
  show ?case
    by (rule parses_value_tok [where tok = "T_integer i"])
      (use lex_scan_integer [OF _ _ _ text_integer] in \<open>metis, simp_all add: starts_def\<close>)
next
  case (text_real a b c d)
  show ?case
    by (rule parses_value_tok [where tok = "T_real d"])
      (use lex_scan_real [where a = a and b = b and x = c and strtod = strtod, OF _ _ _ text_real] in \<open>metis, simp_all add: starts_def\<close>)
qed (simp_all add: parses_word [of _ T_null] parses_word [of _ T_true] parses_word [of _ T_false] parses_no_array parses_array
    parses_no_object parses_object parses_element parses_more_elements parses_member parses_more_members)

lemma text_understood:
  assumes "value_text strtod t j" and "hd t = 0x5B \<or> hd t = 0x7B" and "is_ws a" and "is_ws b"
    and "utf8_check_string (a @ t @ b)" and "0 \<notin> set (a @ t @ b)"
  shows "json_loads strtod (a @ t @ b) = Some j"
proof -
  let ?s = "source_stream (a @ t @ b)"
  have r: "reads ?s (a @ t @ b)" using assms(5,6) by (simp add: reads_def live_def source_stream_def)
  have d: "delims b" using delims_consts(4) [of b "[]"] assms(4) by (simp add: delims_def)
  obtain tok s1 s' where p: "lex_scan strtod ?s = (tok, s1)" "starts tok" "reads s' b"
      "\<And>n. cost tok s1 + 1 \<le> n \<Longrightarrow> parse_value n strtod tok s1 = Some (Some j, s')"
    using text_parses(1) [OF assms(1)] assms(3) r d unfolding parses_value_def by blast
  have "t \<noteq> []" using assms(1) by (cases rule: value_text.cases) (auto simp: chars_words int_part_def int_digits_def)
  then obtain u where t: "t = hd t # u" by (cases t) auto
  have "tok = T_char (hd t)"
  proof -
    have "reads ?s (a @ hd t # u @ b)" using r t by (metis append_Cons)
    moreover have "punctuation (hd t)" using assms(2) by (auto simp: punctuation_def)
    ultimately show ?thesis using lex_scan_punctuation [OF assms(3)] p(1) by (metis prod.inject)
  qed
  moreover have "parse_value (2 * stream_left ?s + 1) strtod tok s1 = Some (Some j, s')" by (rule p(4)) (use scan_cost [OF p(1)] in simp)
  moreover obtain s2 where "lex_scan strtod s' = (T_eof, s2)" using lex_scan_eof [OF assms(4) p(3)] by metis
  ultimately have "parse_json strtod ?s = Some (Some j)" using p(1) assms(2) by (auto simp: parse_json_def)
  moreover have "takeWhile (\<lambda>b. b \<noteq> 0) (a @ t @ b) = a @ t @ b" using assms(6) by (auto simp: takeWhile_eq_all_conv)
  ultimately show ?thesis by (simp only: json_loads_def json_loadf_def option.case)
qed

section \<open>What was read is a JSON text\<close>

definition bytes_left :: "stream \<Rightarrow> u8 list" where
  "bytes_left s = st_cached s @ st_data s"

definition nul_free :: "stream \<Rightarrow> bool" where
  "nul_free s \<longleftrightarrow> 0 \<notin> set (bytes_left s) \<and> (st_state s = STREAM_STATE_EOF \<longrightarrow> bytes_left s = [])"

text \<open>Unless it failed, the stream has given the bytes \<open>xs\<close>, and what it took from the source is UTF-8.\<close>

definition consumed :: "stream \<Rightarrow> u8 list \<Rightarrow> stream \<Rightarrow> bool" where
  "consumed s xs s' \<longleftrightarrow>
     (st_state s' \<noteq> STREAM_STATE_ERROR \<longrightarrow> st_state s \<noteq> STREAM_STATE_ERROR \<and>
      (nul_free s \<longrightarrow> bytes_left s = xs @ bytes_left s' \<and> nul_free s' \<and>
         (\<exists>p. st_data s = p @ st_data s' \<and> utf8_check_string p)))"

lemma utf8_append: "utf8_check_string p \<Longrightarrow> utf8_check_string q \<Longrightarrow> utf8_check_string (p @ q)"
proof (induction p rule: utf8_check_string.induct)
  case (2 b bs)
  define n where "n = utf8_check_first b"
  have n: "n \<noteq> 0" "1 < n \<longrightarrow> n \<le> length (b # bs) \<and> utf8_check_full (take n (b # bs))" "utf8_check_string (drop n (b # bs))"
    using 2(2) by (auto simp: n_def [symmetric] Let_def split: if_splits)
  have le: "n \<le> length (b # bs)" using n by (cases "1 < n") auto
  then have "drop n (b # bs @ q) = drop n (b # bs) @ q" "take n (b # bs @ q) = take n (b # bs)"
    using drop_append [of n "b # bs" q] take_append [of n "b # bs" q] by simp_all
  moreover have "utf8_check_string (drop n (b # bs) @ q)" using 2(1) n(1,3) 2(3) by (simp add: n_def)
  ultimately show ?case using n le by (auto simp: n_def [symmetric] Let_def)
qed simp

lemma consumed_trans: "consumed s xs s1 \<Longrightarrow> consumed s1 ys s2 \<Longrightarrow> consumed s (xs @ ys) s2"
  unfolding consumed_def using utf8_append by (metis append_assoc)

lemma consumed_refl: "consumed s [] s" by (simp add: consumed_def)

lemma consumed_unget: "consumed (stream_unget (Byte b) s) [b] s"
  by (auto simp: consumed_def stream_unget_def bytes_left_def nul_free_def)

lemma error_stays: "st_state s = STREAM_STATE_ERROR \<Longrightarrow> stream_get s = (c, s') \<Longrightarrow> st_state s' = STREAM_STATE_ERROR"
  by (simp add: stream_get_def)

lemma utf8_one: "b < 0x80 \<Longrightarrow> utf8_check_string [b]"
  by (simp add: utf8_check_first_def)

lemma fetch_consumed:
  assumes "stream_fetch s = (c, s')" and "st_state s = STREAM_STATE_OK" and "st_cached s = []"
  shows "consumed s [] (stream_unget c s')"
proof (cases "st_data s")
  case Nil
  then show ?thesis using assms by (auto simp: stream_fetch_def consumed_def stream_unget_def bytes_left_def nul_free_def)
next
  case (Cons b rest)
  show ?thesis
  proof (cases "0x80 \<le> b")
    case True
    define n where "n = utf8_check_first b"
    show ?thesis
    proof (cases "n = 0 \<or> length (take n (b # rest)) \<noteq> n \<or> \<not> utf8_check_full (take n (b # rest))")
      case True
      then show ?thesis using assms Cons \<open>0x80 \<le> b\<close>
        by (auto simp: stream_fetch_def n_def [symmetric] Let_def consumed_def stream_unget_def)
    next
      case False
      then have r: "c = Byte b" "s' = s\<lparr>st_data := drop n (b # rest), st_cached := tl (take n (b # rest))\<rparr>"
        using assms(1) Cons True by (auto simp: stream_fetch_def n_def [symmetric] Let_def)
      have "b # tl (take n (b # rest)) = take n (b # rest)" using False by (cases n) simp_all
      moreover have "utf8_check_string (take n (b # rest))"
      proof -
        obtain m where m: "n = Suc m" using False by (cases n) auto
        then have "take n (b # rest) = b # take m rest" by simp
        moreover have "drop n (b # take m rest) = []" using m by simp
        ultimately show ?thesis using False m by (simp add: n_def [symmetric] Let_def)
      qed
      moreover have "st_data s = take n (b # rest) @ drop n (b # rest)" using Cons by simp
      moreover have "b # rest = take n (b # rest) @ drop n (b # rest)" by simp
      ultimately have "\<exists>p. b # rest = p @ drop n (b # rest) \<and> utf8_check_string p" by blast
      then show ?thesis using assms(2,3) Cons r \<open>b # tl (take n (b # rest)) = take n (b # rest)\<close>
        unfolding consumed_def stream_unget_def bytes_left_def nul_free_def
        by (auto simp del: take_Suc_Cons drop_Suc_Cons)
    qed
  next
    case False
    then have "b < 0x80" by simp
    then have "utf8_check_string [b]" by (rule utf8_one)
    then show ?thesis using assms Cons False
      by (auto simp: stream_fetch_def consumed_def stream_unget_def bytes_left_def nul_free_def)
  qed
qed

lemma get_consumed: "stream_get s = (c, s') \<Longrightarrow> consumed s [] (stream_unget c s')"
proof (cases "st_state s")
  case STREAM_STATE_OK
  assume g: "stream_get s = (c, s')"
  show ?thesis
  proof (cases "st_cached s")
    case Nil
    then show ?thesis using g STREAM_STATE_OK fetch_consumed by (simp add: stream_get_def)
  next
    case (Cons b bs)
    then show ?thesis using g STREAM_STATE_OK
      by (cases "b = 0") (auto simp: stream_get_def consumed_def stream_unget_def bytes_left_def nul_free_def)
  qed
qed (auto simp: stream_get_def stream_unget_def consumed_def)

lemma get_Byte_consumed: "stream_get s = (Byte b, s') \<Longrightarrow> consumed s [b] s'"
  using consumed_trans [OF get_consumed consumed_unget] by fastforce

lemma get_error: "stream_get s = (At_error, s') \<Longrightarrow> st_state s' = STREAM_STATE_ERROR"
  by (auto simp: stream_get_def stream_fetch_def Let_def split: stream_state.splits list.splits if_splits)

lemma consumed_error: "st_state s' = STREAM_STATE_ERROR \<Longrightarrow> consumed s xs s'"
  by (simp add: consumed_def)

lemma take_bytes_consumed:
  "take_bytes ok c s = (xs, c', s') \<Longrightarrow> consumed (stream_unget c s) xs (stream_unget c' s') \<and> list_all ok xs"
proof (induction ok c s arbitrary: xs rule: take_bytes.induct)
  case (1 ok b s)
  show ?case
  proof (cases "ok b")
    case True
    obtain c1 s1 where g: "stream_get s = (c1, s1)" by fastforce
    obtain bs1 c2 s2 where t: "take_bytes ok c1 s1 = (bs1, c2, s2)" by (metis prod_cases3)
    have r: "xs = b # bs1" "c2 = c'" "s2 = s'" using 1(2) True g t by auto
    have ih: "consumed (stream_unget c1 s1) bs1 (stream_unget c' s')" "list_all ok bs1"
      using 1(1) [OF True g [symmetric]] t r by auto
    have "consumed (stream_unget (Byte b) s) ([b] @ [] @ bs1) (stream_unget c' s')"
      by (rule consumed_trans [OF consumed_unget consumed_trans [OF get_consumed [OF g] ih(1)]])
    then show ?thesis using True r(1) ih(2) by simp
  next
    case False
    then show ?thesis using 1(2) consumed_refl by auto
  qed
qed (auto intro: consumed_refl)

lemma consumed_Cons: "stream_get s = (Byte b, s1) \<Longrightarrow> consumed s1 ys s2 \<Longrightarrow> consumed s (b # ys) s2"
  using consumed_trans [OF get_Byte_consumed] by fastforce

lemma take_hex_consumed:
  "take_hex n s = (Some hs, s') \<Longrightarrow> consumed s hs s' \<and> length hs = n \<and> list_all l_isxdigit hs"
proof (induction n arbitrary: s hs)
  case 0
  then show ?case using consumed_refl by simp
next
  case (Suc n)
  then obtain c s1 hs1 where "stream_get s = (Byte c, s1)" "l_isxdigit c" "take_hex n s1 = (Some hs1, s')" "hs = c # hs1"
    by (auto split: prod.splits got.splits if_splits)
  then show ?case using Suc.IH [of s1 hs1] consumed_Cons by auto
qed

text \<open>The text of a string with its escapes.\<close>

inductive raw_string :: "u8 list \<Rightarrow> bool" where
  raw_Nil: "raw_string []"
| raw_plain: "raw_string t \<Longrightarrow> 0x20 \<le> c \<Longrightarrow> c \<noteq> 0x22 \<Longrightarrow> c \<noteq> 0x5C \<Longrightarrow> raw_string (c # t)"
| raw_short: "raw_string t \<Longrightarrow> short_escape d \<Longrightarrow> raw_string (0x5C # d # t)"
| raw_unicode: "raw_string t \<Longrightarrow> length hs = 4 \<Longrightarrow> list_all l_isxdigit hs \<Longrightarrow> raw_string (0x5C # 0x75 # hs @ t)"

inductive_cases raw_escape: "raw_string (0x5C # t)"

lemma scan_body_consumed: "scan_body s = (Some t, s') \<Longrightarrow> consumed s (t @ [0x22]) s' \<and> raw_string t"
proof (induction "stream_left s" arbitrary: s t rule: less_induct)
  case (less s)
  obtain c s1 where g: "stream_get s = (c, s1)" by fastforce
  then obtain b where c: "c = Byte b" using less(2) by (cases c) (auto simp: scan_body.simps [of s])
  then have l1: "stream_left s1 < stream_left s" using get_Byte_left g by simp
  have gb: "stream_get s = (Byte b, s1)" using g c by simp
  consider "b = 0x22" | "b \<noteq> 0x22" "b \<noteq> 0x5C" "\<not> b \<le> 0x1F" | "b = 0x5C"
    using less(2) gb by (auto simp: scan_body.simps [of s] split: if_splits)
  then show ?case
  proof cases
    case 1
    then have "t = []" "s' = s1" using less(2) gb by (auto simp: scan_body.simps [of s])
    then show ?thesis using get_Byte_consumed [OF gb] 1 raw_Nil by simp
  next
    case 2
    obtain t1 where t: "scan_body s1 = (Some t1, s')" "t = b # t1"
      using less(2) gb 2 by (auto simp: scan_body.simps [of s] split: prod.splits)
    have "0x20 \<le> b" using 2(3) by (simp add: word_le_nat_alt)
    then show ?thesis using less(1) [OF l1 t(1)] consumed_Cons [OF gb] t(2) 2 raw_plain by auto
  next
    case 3
    obtain d s2 where g2: "stream_get s1 = (Byte d, s2)"
      using less(2) gb 3 by (auto simp: scan_body.simps [of s] split: prod.splits got.splits)
    have l2: "stream_left s2 < stream_left s" using get_Byte_left [OF g2] l1 by simp
    show ?thesis
    proof (cases "d = 0x75")
      case True
      obtain hs s3 t1 where t: "take_hex 4 s2 = (Some hs, s3)" "scan_body s3 = (Some t1, s')" "t = 0x5C # 0x75 # hs @ t1"
        using less(2) gb 3 g2 True by (auto simp: scan_body.simps [of s] split: prod.splits option.splits)
      have "stream_left s3 < stream_left s" using take_hex_left [OF t(1)] l2 by simp
      then have "consumed s3 (t1 @ [0x22]) s' \<and> raw_string t1" using less(1) t(2) by blast
      then show ?thesis
        using take_hex_consumed [OF t(1)] consumed_trans [of s2 hs s3 "t1 @ [0x22]" s'] consumed_Cons [OF g2] consumed_Cons [OF gb]
          t(3) 3 True raw_unicode by auto
    next
      case False
      obtain t1 where t: "short_escape d" "scan_body s2 = (Some t1, s')" "t = 0x5C # d # t1"
        using less(2) gb 3 g2 False by (auto simp: scan_body.simps [of s] split: prod.splits if_splits)
      then show ?thesis using less(1) [OF l2 t(2)] consumed_Cons [OF g2] consumed_Cons [OF gb] 3 raw_short by auto
    qed
  qed
qed

lemma take_four: "length hs = 4 \<Longrightarrow> decode_unicode_escape (hs @ r) = decode_unicode_escape hs"
  by (simp add: decode_unicode_escape_def)

lemma raw_string_text: "raw_string t \<Longrightarrow> unescape t = Some v \<Longrightarrow> string_text t v"
proof (induction "length t" arbitrary: t v rule: less_induct)
  case less
  from less(2) show ?case
  proof cases
    case raw_Nil
    then show ?thesis using less(3) string_Nil by simp
  next
    case (raw_plain u c)
    then obtain w where "unescape u = Some w" "v = c # w" using less(3) by auto
    then show ?thesis using less(1) [of u w] raw_plain string_plain by simp
  next
    case (raw_short u d)
    then have "d \<noteq> 0x75" by (auto simp: short_escape_def)
    then obtain w where "unescape u = Some w" "v = short_value d # w" using less(3) raw_short by auto
    then show ?thesis using less(1) [of u w] raw_short string_short by simp
  next
    case (raw_unicode u hs)
    define x where "x = decode_unicode_escape hs"
    have x: "decode_unicode_escape (hs @ u) = x" using take_four raw_unicode(3) by (simp add: x_def)
    show ?thesis
    proof (cases "0xD800 \<le> x \<and> x \<le> 0xDBFF")
      case True
      then have u2: "take 2 u = [0x5C, 0x75]" using less(3) raw_unicode x by (auto simp: Let_def split: if_splits)
      then obtain q where q: "u = 0x5C # 0x75 # q" by (cases u; cases "tl u") (auto simp: numeral_2_eq_2)
      have "raw_string (0x5C # 0x75 # q)" using raw_unicode(2) q by simp
      then obtain ls r where r: "q = ls @ r" "length ls = 4" "list_all l_isxdigit ls" "raw_string r"
        by (rule raw_escape) (auto simp: short_escape_def)
      define l where "l = decode_unicode_escape ls"
      have l: "decode_unicode_escape (ls @ r) = l" using take_four r(2) by (simp add: l_def)
      have "0xDC00 \<le> l \<and> l \<le> 0xDFFF" and "\<exists>w. unescape r = Some w \<and> v = utf8_encode ((x - 0xD800) * 1024 + (l - 0xDC00) + 0x10000) @ w"
        using less(3) raw_unicode(1,3) q r(1,2) x l True by (auto simp: Let_def split: if_splits)
      then obtain w where w: "0xDC00 \<le> l" "l \<le> 0xDFFF" "unescape r = Some w"
        "v = utf8_encode ((x - 0xD800) * 1024 + (l - 0xDC00) + 0x10000) @ w" by blast
      have "string_text r w" using less(1) [of r w] raw_unicode(1) q r w(3) by simp
      then show ?thesis
        using string_pair [of r w hs ls x l] raw_unicode(1,3,4) q r True w x_def l_def by simp
    next
      case False
      then have "\<exists>w. unescape u = Some w \<and> v = utf8_encode x @ w" and "\<not> (0xDC00 \<le> x \<and> x \<le> 0xDFFF)" "x \<noteq> 0"
        using less(3) raw_unicode(1,3) x by (auto simp: Let_def split: if_splits)
      then obtain w where w: "unescape u = Some w" "v = utf8_encode x @ w" by blast
      have "string_text u w" using less(1) [of u w] raw_unicode w(1) by simp
      moreover have "\<not> (0xD800 \<le> x \<and> x \<le> 0xDFFF)" using False \<open>\<not> (0xDC00 \<le> x \<and> x \<le> 0xDFFF)\<close> by linarith
      ultimately show ?thesis
        using string_unicode [of u w hs x] raw_unicode(1,3,4) \<open>x \<noteq> 0\<close> w(2) x_def by simp
    qed
  qed
qed

lemma lex_scan_string_consumed:
  "lex_scan_string s = (T_string v, s') \<Longrightarrow> \<exists>t. consumed s (t @ [0x22]) s' \<and> string_text t v"
proof -
  assume "lex_scan_string s = (T_string v, s')"
  then obtain t where "scan_body s = (Some t, s')" "unescape t = Some v"
    by (auto simp: lex_scan_string_def split: prod.splits option.splits)
  then show ?thesis using scan_body_consumed raw_string_text by blast
qed

text \<open>Numbers.\<close>

lemma digits_consumed:
  assumes "take_bytes l_isdigit c s = (ds, c', s')" and "got_digit c"
  shows "consumed (stream_unget c s) ds (stream_unget c' s')" "ds \<noteq> []" "list_all l_isdigit ds"
  using take_bytes_consumed [OF assms(1)] take_bytes_nonempty [of l_isdigit _ s ds] assms by (cases c; auto)+

lemma sign_consumed:
  assumes "(case c1 of Byte g \<Rightarrow> if g = 0x2B \<or> g = 0x2D then (case stream_get s1 of (c, s) \<Rightarrow> ([g], c, s)) else ([], c1, s1)
      | _ \<Rightarrow> ([], c1, s1)) = (sign, c2, s2)"
  shows "consumed (stream_unget c1 s1) sign (stream_unget c2 s2) \<and> sign \<in> {[], [0x2B], [0x2D]}"
proof (cases c1)
  case (Byte g)
  show ?thesis
  proof (cases "g = 0x2B \<or> g = 0x2D")
    case True
    then have g2: "stream_get s1 = (c2, s2)" "sign = [g]" using assms Byte by (simp_all split: prod.splits)
    have "consumed (stream_unget (Byte g) s1) ([g] @ []) (stream_unget c2 s2)"
      by (rule consumed_trans [OF consumed_unget get_consumed [OF g2(1)]])
    then show ?thesis using True g2(2) Byte by auto
  next
    case False
    then have "sign = []" "c2 = c1" "s2 = s1" using assms Byte by simp_all
    then show ?thesis using consumed_refl by simp
  qed
qed (use assms consumed_refl in auto)

lemma scan_exponent_consumed:
  assumes "scan_exponent strtod saved c s = (T_real d, s')"
  shows "\<exists>x. consumed (stream_unget c s) x s' \<and> (x = [] \<or> exp_part x) \<and> strtod (saved @ x) = Some d \<and>
    (c = Byte 0x45 \<or> c = Byte 0x65 \<longrightarrow> x \<noteq> [])"
proof (cases "c = Byte 0x45 \<or> c = Byte 0x65")
  case True
  then obtain e where e: "c = Byte e" "e = 0x45 \<or> e = 0x65" by auto
  obtain c1 s1 where g: "stream_get s = (c1, s1)" by fastforce
  obtain sign c2 s2 where sg: "(case c1 of Byte g \<Rightarrow> if g = 0x2B \<or> g = 0x2D then (case stream_get s1 of (c, s) \<Rightarrow> ([g], c, s)) else ([], c1, s1)
      | _ \<Rightarrow> ([], c1, s1)) = (sign, c2, s2)" by (rule prod_cases3)
  have c1: "consumed (stream_unget c1 s1) sign (stream_unget c2 s2) \<and> sign \<in> {[], [0x2B], [0x2D]}" by (rule sign_consumed [OF sg])
  obtain ds c3 s3 where t: "take_bytes l_isdigit c2 s2 = (ds, c3, s3)" by (metis prod_cases3)
  have "got_digit c2 \<and> strtod (saved @ e # sign @ ds) = Some d \<and> s' = stream_unget c3 s3"
    using assms unfolding scan_exponent_def e(1) Let_def got.case if_P [OF e(2)] g prod.case sg t
    by (simp split: if_splits option.splits)
  then have r: "got_digit c2" "strtod (saved @ e # sign @ ds) = Some d" "s' = stream_unget c3 s3" by simp_all
  have "consumed (stream_unget c s) ([e] @ [] @ sign @ ds) s'"
    unfolding e(1) r(3)
    by (rule consumed_trans [OF consumed_unget consumed_trans [OF get_consumed [OF g] consumed_trans [OF conjunct1 [OF c1] digits_consumed(1) [OF t r(1)]]]])
  moreover have "exp_part (e # sign @ ds)"
    unfolding exp_part_def using e(2) conjunct2 [OF c1] digits_consumed(2,3) [OF t r(1)]
    by (intro exI [of _ e] exI [of _ sign] exI [of _ ds] conjI) (assumption | rule refl)+
  ultimately show ?thesis using r(2) by (intro exI [of _ "e # sign @ ds"]) simp
next
  case False
  then have "strtod saved = Some d" "s' = stream_unget c s"
    using assms False by (cases c; simp add: scan_exponent_def Let_def split: option.splits)+
  then show ?thesis using False consumed_refl by (intro exI [of _ "[]"]) auto
qed

lemma scan_fraction_consumed:
  assumes "scan_fraction strtod a c s = (tok, s')" and "tok \<noteq> T_invalid"
  shows "\<exists>x. consumed (stream_unget c s) x s' \<and>
    (x = [] \<and> (\<exists>i. tok = T_integer i \<and> json_strtoint a = Some i) \<or>
     (\<exists>b y d. tok = T_real d \<and> x = b @ y \<and> (b = [] \<or> frac_part b) \<and> (y = [] \<or> exp_part y) \<and> b @ y \<noteq> [] \<and> strtod (a @ b @ y) = Some d))"
proof -
  have ex: "\<exists>d. tok = T_real d" if "scan_exponent strtod v k u = (tok, s')" for v k u
    using that assms(2) by (auto simp: scan_exponent_def Let_def split: got.splits option.splits if_splits prod.splits)
  consider "c \<noteq> Byte 0x2E" "c \<noteq> Byte 0x45" "c \<noteq> Byte 0x65" | "c = Byte 0x2E" | "c = Byte 0x45 \<or> c = Byte 0x65" by blast
  then show ?thesis
  proof cases
    case 1
    then show ?thesis using assms consumed_refl by (auto simp: scan_fraction_def split: option.splits)
  next
    case 2
    obtain c1 s1 where g: "stream_get s = (c1, s1)" by fastforce
    obtain ds c2 s2 where t: "take_bytes l_isdigit c1 s1 = (ds, c2, s2)" by (metis prod_cases3)
    have r: "got_digit c1" "scan_exponent strtod (a @ 0x2E # ds) c2 s2 = (tok, s')"
      using assms 2 by (auto simp: scan_fraction_def g t Let_def split: if_splits)
    obtain d where d: "tok = T_real d" using ex [OF r(2)] by blast
    obtain y where y: "consumed (stream_unget c2 s2) y s'" "y = [] \<or> exp_part y" "strtod ((a @ 0x2E # ds) @ y) = Some d"
      using scan_exponent_consumed r(2) unfolding d by blast
    have "consumed (stream_unget c s) ([0x2E] @ [] @ ds @ y) s'"
      unfolding 2 by (rule consumed_trans [OF consumed_unget consumed_trans [OF get_consumed [OF g] consumed_trans [OF digits_consumed(1) [OF t r(1)] y(1)]]])
    moreover have "frac_part (0x2E # ds)" using digits_consumed(2,3) [OF t r(1)] by (auto simp: frac_part_def)
    then have "\<exists>b z d. tok = T_real d \<and> [0x2E] @ [] @ ds @ y = b @ z \<and> (b = [] \<or> frac_part b) \<and> (z = [] \<or> exp_part z) \<and> b @ z \<noteq> [] \<and>
        strtod (a @ b @ z) = Some d"
      using d y(2,3) by (intro exI [of _ "0x2E # ds"] exI [of _ y] exI [of _ d]) simp
    ultimately show ?thesis by blast
  next
    case 3
    then have r: "scan_exponent strtod a c s = (tok, s')" using assms by (auto simp: scan_fraction_def)
    obtain d where d: "tok = T_real d" using ex [OF r] by blast
    obtain y where y: "consumed (stream_unget c s) y s'" "y = [] \<or> exp_part y" "strtod (a @ y) = Some d" "y \<noteq> []"
      using scan_exponent_consumed [of strtod a c s d s'] r 3 unfolding d by blast
    then have "\<exists>b z d. tok = T_real d \<and> y = b @ z \<and> (b = [] \<or> frac_part b) \<and> (z = [] \<or> exp_part z) \<and> b @ z \<noteq> [] \<and>
        strtod (a @ b @ z) = Some d"
      using d by (intro exI [of _ "[]"] exI [of _ y] exI [of _ d]) simp
    then show ?thesis using y(1) by blast
  qed
qed

definition number_token :: "(u8 list \<Rightarrow> dbl option) \<Rightarrow> u8 list \<Rightarrow> token \<Rightarrow> bool" where
  "number_token strtod x tok \<longleftrightarrow> (\<exists>j. value_text strtod x j \<and> (\<exists>i. tok = T_integer i \<and> j = JInteger i \<or> (\<exists>d. tok = T_real d \<and> j = JReal d)))"

lemma lex_scan_number_consumed:
  assumes "lex_scan_number strtod b s = (tok, s')" and "tok \<noteq> T_invalid"
  shows "\<exists>x. consumed (stream_unget (Byte b) s) x s' \<and> number_token strtod x tok"
proof -
  obtain sign c s1 where c: "(if b = 0x2D then (case stream_get s of (c, s) \<Rightarrow> ([b], c, s)) else ([], Byte b, s)) = (sign, c, s1)"
    by (metis prod_cases3)
  have sg: "consumed (stream_unget (Byte b) s) sign (stream_unget c s1) \<and> sign \<in> {[], [0x2D]}"
  proof (cases "b = 0x2D")
    case True
    then have g: "stream_get s = (c, s1)" "sign = [b]" using c by (auto split: prod.splits)
    have "consumed (stream_unget (Byte b) s) ([b] @ []) (stream_unget c s1)"
      by (rule consumed_trans [OF consumed_unget get_consumed [OF g(1)]])
    then show ?thesis using g(2) True by simp
  next
    case False
    then show ?thesis using c consumed_refl by simp
  qed
  have "\<exists>ds c' u. consumed (stream_unget c s1) ds (stream_unget c' u) \<and> int_digits ds \<and> scan_fraction strtod (sign @ ds) c' u = (tok, s')"
  proof (cases "c = Byte 0x30")
    case True
    obtain c2 s2 where g: "stream_get s1 = (c2, s2)" by fastforce
    have "scan_fraction strtod (sign @ [0x30]) c2 s2 = (tok, s')"
      using assms c g True by (auto simp: lex_scan_number_def Let_def split: if_splits)
    moreover have "consumed (stream_unget c s1) [0x30] (stream_unget c2 s2)"
      using consumed_trans [OF consumed_unget get_consumed [OF g]] True by fastforce
    moreover have "int_digits [0x30]" by (simp add: int_digits_def l_isdigit_def)
    ultimately show ?thesis by blast
  next
    case False
    obtain ds c2 s2 where t: "take_bytes l_isdigit c s1 = (ds, c2, s2)" by (metis prod_cases3)
    have r: "got_digit c" "scan_fraction strtod (sign @ ds) c2 s2 = (tok, s')"
      using assms c t False by (auto simp: lex_scan_number_def Let_def split: if_splits)
    obtain g where g: "c = Byte g" "g \<noteq> 0x30" "l_isdigit g" using r(1) False by (cases c) auto
    then have "hd ds = g" using t by (auto split: prod.splits)
    then have "int_digits ds" using digits_consumed(2,3) [OF t r(1)] g(2) by (simp add: int_digits_def)
    then show ?thesis using digits_consumed(1) [OF t r(1)] r(2) by blast
  qed
  then obtain ds c' u where ds: "consumed (stream_unget c s1) ds (stream_unget c' u)" "int_digits ds"
    "scan_fraction strtod (sign @ ds) c' u = (tok, s')" by blast
  have ip: "int_part (sign @ ds)" using sg ds(2) by (auto simp: int_part_def)
  obtain x where x: "consumed (stream_unget c' u) x s'"
    "x = [] \<and> (\<exists>i. tok = T_integer i \<and> json_strtoint (sign @ ds) = Some i) \<or>
     (\<exists>b y d. tok = T_real d \<and> x = b @ y \<and> (b = [] \<or> frac_part b) \<and> (y = [] \<or> exp_part y) \<and> b @ y \<noteq> [] \<and> strtod ((sign @ ds) @ b @ y) = Some d)"
    using scan_fraction_consumed [OF ds(3) assms(2)] by blast
  have "consumed (stream_unget (Byte b) s) (sign @ ds @ x) s'"
    by (rule consumed_trans [OF conjunct1 [OF sg] consumed_trans [OF ds(1) x(1)]])
  moreover have "number_token strtod ((sign @ ds) @ x) tok"
    using x(2) text_integer [OF ip, of _ strtod] text_real [OF ip, of _ _ strtod] unfolding number_token_def by fastforce
  ultimately show ?thesis by auto
qed

text \<open>The text of a token.\<close>

definition token_text :: "(u8 list \<Rightarrow> dbl option) \<Rightarrow> u8 list \<Rightarrow> token \<Rightarrow> bool" where
  "token_text strtod x tok \<longleftrightarrow>
     (case tok of
        T_char c \<Rightarrow> x = [c]
      | T_string v \<Rightarrow> (\<exists>t. x = 0x22 # t @ [0x22] \<and> string_text t v)
      | T_true \<Rightarrow> x = chars ''true''
      | T_false \<Rightarrow> x = chars ''false''
      | T_null \<Rightarrow> x = chars ''null''
      | T_eof \<Rightarrow> x = []
      | T_invalid \<Rightarrow> True
      | _ \<Rightarrow> number_token strtod x tok)"

lemma lex_scan_consumed:
  assumes "lex_scan strtod s = (tok, s')" and "tok \<noteq> T_invalid"
  obtains w x where "is_ws w" "consumed s (w @ x) s'" "token_text strtod x tok"
proof -
  obtain c0 s0 where g: "stream_get s = (c0, s0)" by fastforce
  obtain w c s1 where t: "take_bytes is_space c0 s0 = (w, c, s1)" by (rule prod_cases3)
  note tb = take_bytes_consumed [OF t]
  have c: "consumed s w (stream_unget c s1)" using consumed_trans [OF get_consumed [OF g] conjunct1 [OF tb]] by simp
  have w: "is_ws w" using tb by (simp add: is_ws_def)
  have "\<exists>x. consumed (stream_unget c s1) x s' \<and> token_text strtod x tok"
  proof (cases c)
    case (Byte b)
    obtain v d s2 where a: "take_bytes l_isalpha (Byte b) s1 = (v, d, s2)" by (rule prod_cases3)
    note ab = take_bytes_consumed [OF a]
    consider "punctuation b" | "\<not> punctuation b" "b = 0x22" | "\<not> punctuation b" "b \<noteq> 0x22" "l_isdigit b \<or> b = 0x2D"
      | "\<not> punctuation b" "b \<noteq> 0x22" "\<not> (l_isdigit b \<or> b = 0x2D)" "l_isalpha b"
      | "\<not> punctuation b" "b \<noteq> 0x22" "\<not> (l_isdigit b \<or> b = 0x2D)" "\<not> l_isalpha b" by blast
    then show ?thesis
    proof cases
      case 1
      then have "tok = T_char b" "s' = s1" using assms(1) g t Byte by (simp_all add: lex_scan_def)
      then show ?thesis using Byte consumed_unget by (intro exI [of _ "[b]"]) (simp add: token_text_def)
    next
      case 2
      then have l: "lex_scan_string s1 = (tok, s')" using assms(1) g t Byte by (simp add: lex_scan_def)
      then obtain v where v: "tok = T_string v" using assms(2) by (auto simp: lex_scan_string_def split: prod.splits option.splits)
      obtain u where u: "consumed s1 (u @ [0x22]) s'" "string_text u v"
        using lex_scan_string_consumed l unfolding v by blast
      have "consumed (stream_unget c s1) ([0x22] @ u @ [0x22]) s'"
        unfolding Byte 2 by (rule consumed_trans [OF consumed_unget u(1)])
      moreover have "token_text strtod ([0x22] @ u @ [0x22]) tok" using u(2) v by (simp add: token_text_def)
      ultimately show ?thesis by blast
    next
      case 3
      then have l: "lex_scan_number strtod b s1 = (tok, s')" using assms(1) g t Byte by (simp add: lex_scan_def)
      obtain x where x: "consumed (stream_unget (Byte b) s1) x s'" "number_token strtod x tok"
        using lex_scan_number_consumed [OF l assms(2)] by blast
      then have "token_text strtod x tok" by (auto simp: token_text_def number_token_def)
      then show ?thesis using x(1) Byte by blast
    next
      case 4
      then have "tok = (if v = chars ''true'' then T_true else if v = chars ''false'' then T_false else if v = chars ''null'' then T_null else T_invalid)"
        "s' = stream_unget d s2"
        using assms(1) g t Byte a by (simp_all add: lex_scan_def del: take_bytes.simps)
      then have "token_text strtod v tok" "s' = stream_unget d s2" using assms(2) by (auto simp: token_text_def split: if_splits)
      then show ?thesis using ab Byte by blast
    next
      case 5
      then have "tok = T_invalid" using assms(1) g t Byte by (simp add: lex_scan_def)
      then show ?thesis using assms(2) by simp
    qed
  next
    case At_eof
    then have "tok = T_eof" "s' = s1" using assms(1) g t by (simp_all add: lex_scan_def)
    then show ?thesis using At_eof consumed_refl by (intro exI [of _ "[]"]) (simp add: token_text_def stream_unget_def)
  next
    case At_error
    then show ?thesis using assms g t by (simp add: lex_scan_def)
  qed
  then show ?thesis using that w consumed_trans [OF c] by blast
qed

text \<open>A result of the parser: what was read behind the token completes its text.\<close>

definition value_read :: "(u8 list \<Rightarrow> dbl option) \<Rightarrow> token \<Rightarrow> stream \<Rightarrow> (json option \<times> stream) option \<Rightarrow> bool" where
  "value_read strtod tok s r \<longleftrightarrow>
     (\<forall>j s'. r = Some (Some j, s') \<longrightarrow> tok \<noteq> T_invalid \<and>
        (\<exists>y. consumed s y s' \<and> (\<forall>x. token_text strtod x tok \<longrightarrow> value_text strtod (x @ y) j)))"

definition elements_read :: "(u8 list \<Rightarrow> dbl option) \<Rightarrow> json list \<Rightarrow> token \<Rightarrow> stream \<Rightarrow> (json option \<times> stream) option \<Rightarrow> bool" where
  "elements_read strtod acc tok s r \<longleftrightarrow>
     (\<forall>j s'. r = Some (Some j, s') \<longrightarrow> tok \<noteq> T_invalid \<and>
        (\<exists>y js. consumed s (y @ [0x5D]) s' \<and> j = JArray (acc @ js) \<and>
           (\<forall>w x. is_ws w \<longrightarrow> token_text strtod x tok \<longrightarrow> elements_text strtod (w @ x @ y) js)))"

definition members_read :: "(u8 list \<Rightarrow> dbl option) \<Rightarrow> (string \<times> json) list \<Rightarrow> token \<Rightarrow> stream \<Rightarrow> (json option \<times> stream) option \<Rightarrow> bool" where
  "members_read strtod kvs tok s r \<longleftrightarrow>
     (\<forall>j s'. r = Some (Some j, s') \<longrightarrow> tok \<noteq> T_invalid \<and>
        (\<exists>y ps. consumed s (y @ [0x7D]) s' \<and> j = JObject (set_all kvs ps) \<and>
           (\<forall>w x. is_ws w \<longrightarrow> token_text strtod x tok \<longrightarrow> members_text strtod (w @ x @ y) ps)))"

lemma char_consumed:
  assumes "lex_scan strtod s = (T_char c, s')"
  obtains w where "is_ws w" "consumed s (w @ [c]) s'"
  using lex_scan_consumed [OF assms] by (auto simp: token_text_def)

lemma value_read_open:
  assumes "lex_scan strtod s = (t1, s1)"
  shows "members_read strtod [] t1 s1 r \<Longrightarrow> value_read strtod (T_char 0x7B) s r"
    and "elements_read strtod [] t1 s1 r \<Longrightarrow> value_read strtod (T_char 0x5B) s r"
proof -
  assume m: "members_read strtod [] t1 s1 r"
  show "value_read strtod (T_char 0x7B) s r"
    unfolding value_read_def
  proof (intro allI impI conjI)
    fix j s' assume "r = Some (Some j, s')"
    then obtain y ps where y: "t1 \<noteq> T_invalid" "consumed s1 (y @ [0x7D]) s'" "j = JObject (set_all [] ps)"
        "\<And>w x. is_ws w \<Longrightarrow> token_text strtod x t1 \<Longrightarrow> members_text strtod (w @ x @ y) ps"
      using m unfolding members_read_def by blast
    obtain w x where w: "is_ws w" "consumed s (w @ x) s1" "token_text strtod x t1" by (rule lex_scan_consumed [OF assms y(1)])
    have "consumed s ((w @ x) @ y @ [0x7D]) s'" by (rule consumed_trans [OF w(2) y(2)])
    moreover have "value_text strtod (0x7B # (w @ x @ y) @ [0x7D]) j"
      unfolding y(3) using text_object [OF y(4) [OF w(1,3)]] by (simp add: set_all_def json_object_def)
    ultimately show "\<exists>y. consumed s y s' \<and> (\<forall>x. token_text strtod x (T_char 0x7B) \<longrightarrow> value_text strtod (x @ y) j)"
      by (intro exI [of _ "(w @ x) @ y @ [0x7D]"]) (simp add: token_text_def)
  qed simp
next
  assume m: "elements_read strtod [] t1 s1 r"
  show "value_read strtod (T_char 0x5B) s r"
    unfolding value_read_def
  proof (intro allI impI conjI)
    fix j s' assume "r = Some (Some j, s')"
    then obtain y js where y: "t1 \<noteq> T_invalid" "consumed s1 (y @ [0x5D]) s'" "j = JArray ([] @ js)"
        "\<And>w x. is_ws w \<Longrightarrow> token_text strtod x t1 \<Longrightarrow> elements_text strtod (w @ x @ y) js"
      using m unfolding elements_read_def by blast
    obtain w x where w: "is_ws w" "consumed s (w @ x) s1" "token_text strtod x t1" by (rule lex_scan_consumed [OF assms y(1)])
    have "consumed s ((w @ x) @ y @ [0x5D]) s'" by (rule consumed_trans [OF w(2) y(2)])
    moreover have "value_text strtod (0x5B # (w @ x @ y) @ [0x5D]) j"
      unfolding y(3) using text_array [OF y(4) [OF w(1,3)]] by simp
    ultimately show "\<exists>y. consumed s y s' \<and> (\<forall>x. token_text strtod x (T_char 0x5B) \<longrightarrow> value_text strtod (x @ y) j)"
      by (intro exI [of _ "(w @ x) @ y @ [0x5D]"]) (simp add: token_text_def)
  qed simp
qed

lemma value_read_empty:
  "lex_scan strtod s = (T_char 0x7D, s1) \<Longrightarrow> value_read strtod (T_char 0x7B) s (Some (Some (JObject []), s1))"
  "lex_scan strtod s = (T_char 0x5D, s1) \<Longrightarrow> value_read strtod (T_char 0x5B) s (Some (Some (JArray []), s1))"
  using text_no_object text_no_array by (fastforce simp: value_read_def token_text_def elim!: char_consumed)+

lemma value_read_plain:
  "\<forall>c. tok \<noteq> T_char c \<Longrightarrow> value_read strtod tok s (parse_value (Suc n) strtod tok s)"
  using consumed_refl [of s] text_string text_true text_false text_null
  by (fastforce simp: value_read_def token_text_def number_token_def split: token.splits)

lemma value_read_None: "value_read strtod tok s (Some (None, s'))" "value_read strtod tok s None"
  "members_read strtod kvs tok s (Some (None, s'))" "members_read strtod kvs tok s None"
  "elements_read strtod js tok s (Some (None, s'))" "elements_read strtod js tok s None"
  by (simp_all add: value_read_def members_read_def elements_read_def)

text \<open>One member, and one element.\<close>

lemma member_read:
  assumes "lex_scan strtod s = (T_char 0x3A, s1)" and "lex_scan strtod s1 = (t2, s2)"
    and "value_read strtod t2 s2 (Some (Some v, s3))" and "lex_scan strtod s3 = (T_char e, s4)"
  obtains b c t d where "is_ws b" "is_ws c" "value_text strtod t v" "is_ws d" "consumed s (b @ 0x3A # c @ t @ d @ [e]) s4"
proof -
  obtain b where b: "is_ws b" "consumed s (b @ [0x3A]) s1" by (rule char_consumed [OF assms(1)])
  obtain y where y: "t2 \<noteq> T_invalid" "consumed s2 y s3" "\<And>x. token_text strtod x t2 \<Longrightarrow> value_text strtod (x @ y) v"
    using assms(3) unfolding value_read_def by blast
  obtain c x where c: "is_ws c" "consumed s1 (c @ x) s2" "token_text strtod x t2" by (rule lex_scan_consumed [OF assms(2) y(1)])
  obtain d where d: "is_ws d" "consumed s3 (d @ [e]) s4" by (rule char_consumed [OF assms(4)])
  have "consumed s ((b @ [0x3A]) @ (c @ x) @ y @ d @ [e]) s4"
    by (rule consumed_trans [OF b(2) consumed_trans [OF c(2) consumed_trans [OF y(2) d(2)]]])
  then show ?thesis using that [of b c "x @ y" d] b(1) c(1) d(1) y(3) [OF c(3)] by simp
qed

lemma members_read_step:
  assumes "lex_scan strtod s = (T_char 0x3A, s1)" and "lex_scan strtod s1 = (t2, s2)"
    and "value_read strtod t2 s2 (Some (Some v, s3))"
  shows "lex_scan strtod s3 = (T_char 0x7D, s4) \<Longrightarrow>
      members_read strtod kvs (T_string key) s (Some (Some (JObject (json_object_set kvs (text_of key) v)), s4))"
    and "lex_scan strtod s3 = (T_char 0x2C, s4) \<Longrightarrow> lex_scan strtod s4 = (t5, s5) \<Longrightarrow>
      members_read strtod (json_object_set kvs (text_of key) v) t5 s5 r \<Longrightarrow> members_read strtod kvs (T_string key) s r"
proof -
  assume "lex_scan strtod s3 = (T_char 0x7D, s4)"
  then obtain b c t d where m: "is_ws b" "is_ws c" "value_text strtod t v" "is_ws d" "consumed s (b @ 0x3A # c @ t @ d @ [0x7D]) s4"
    by (rule member_read [OF assms])
  show "members_read strtod kvs (T_string key) s (Some (Some (JObject (json_object_set kvs (text_of key) v)), s4))"
    unfolding members_read_def
  proof (intro allI impI conjI)
    fix j s' assume j: "Some (Some (JObject (json_object_set kvs (text_of key) v)), s4) = Some (Some j, s')"
    have "members_text strtod (w @ x @ b @ 0x3A # c @ t @ d) [(text_of key, v)]" if "is_ws w" "token_text strtod x (T_string key)" for w x
      using that text_member [OF that(1) _ m(1,2,3,4)] by (auto simp: token_text_def)
    then show "\<exists>y ps. consumed s (y @ [0x7D]) s' \<and> j = JObject (set_all kvs ps) \<and>
        (\<forall>w x. is_ws w \<longrightarrow> token_text strtod x (T_string key) \<longrightarrow> members_text strtod (w @ x @ y) ps)"
      using m(5) j by (intro exI [of _ "b @ 0x3A # c @ t @ d"] exI [of _ "[(text_of key, v)]"]) (simp add: set_all_def)
  qed simp
next
  assume 4: "lex_scan strtod s3 = (T_char 0x2C, s4)" and 5: "lex_scan strtod s4 = (t5, s5)"
    and r: "members_read strtod (json_object_set kvs (text_of key) v) t5 s5 r"
  obtain b c t d where m: "is_ws b" "is_ws c" "value_text strtod t v" "is_ws d" "consumed s (b @ 0x3A # c @ t @ d @ [0x2C]) s4"
    by (rule member_read [OF assms 4])
  show "members_read strtod kvs (T_string key) s r"
    unfolding members_read_def
  proof (intro allI impI conjI)
    fix j s' assume "r = Some (Some j, s')"
    then obtain y ps where y: "t5 \<noteq> T_invalid" "consumed s5 (y @ [0x7D]) s'" "j = JObject (set_all (json_object_set kvs (text_of key) v) ps)"
        "\<And>w x. is_ws w \<Longrightarrow> token_text strtod x t5 \<Longrightarrow> members_text strtod (w @ x @ y) ps"
      using r unfolding members_read_def by blast
    obtain u z where u: "is_ws u" "consumed s4 (u @ z) s5" "token_text strtod z t5" by (rule lex_scan_consumed [OF 5 y(1)])
    have "consumed s ((b @ 0x3A # c @ t @ d @ [0x2C]) @ (u @ z) @ y @ [0x7D]) s'"
      by (rule consumed_trans [OF m(5) consumed_trans [OF u(2) y(2)]])
    moreover have "members_text strtod (w @ x @ b @ 0x3A # c @ t @ d @ 0x2C # u @ z @ y) ((text_of key, v) # ps)"
      if "is_ws w" "token_text strtod x (T_string key)" for w x
      using that text_members [OF that(1) _ m(1-4) y(4) [OF u(1,3)]] by (auto simp: token_text_def)
    ultimately show "\<exists>y ps. consumed s (y @ [0x7D]) s' \<and> j = JObject (set_all kvs ps) \<and>
        (\<forall>w x. is_ws w \<longrightarrow> token_text strtod x (T_string key) \<longrightarrow> members_text strtod (w @ x @ y) ps)"
      using y(3) by (intro exI [of _ "b @ 0x3A # c @ t @ d @ 0x2C # u @ z @ y"] exI [of _ "(text_of key, v) # ps"]) (simp add: set_all_def)
  qed simp
qed

lemma elements_read_step:
  assumes "value_read strtod tok s (Some (Some v, s1))"
  shows "lex_scan strtod s1 = (T_char 0x5D, s2) \<Longrightarrow> elements_read strtod acc tok s (Some (Some (JArray (acc @ [v])), s2))"
    and "lex_scan strtod s1 = (T_char 0x2C, s2) \<Longrightarrow> lex_scan strtod s2 = (t3, s3) \<Longrightarrow>
      elements_read strtod (acc @ [v]) t3 s3 r \<Longrightarrow> elements_read strtod acc tok s r"
proof -
  obtain y where y: "tok \<noteq> T_invalid" "consumed s y s1" "\<And>x. token_text strtod x tok \<Longrightarrow> value_text strtod (x @ y) v"
    using assms unfolding value_read_def by blast
  {
    assume "lex_scan strtod s1 = (T_char 0x5D, s2)"
    then obtain d where d: "is_ws d" "consumed s1 (d @ [0x5D]) s2" by (rule char_consumed)
    have c: "consumed s (y @ d @ [0x5D]) s2" by (rule consumed_trans [OF y(2) d(2)])
    have "elements_text strtod (w @ x @ y @ d) [v]" if "is_ws w" "token_text strtod x tok" for w x
      using text_element [OF that(1) y(3) [OF that(2)] d(1)] by simp
    then show "elements_read strtod acc tok s (Some (Some (JArray (acc @ [v])), s2))"
      using y(1) c unfolding elements_read_def by (auto intro!: exI [of _ "y @ d"] exI [of _ "[v]"])
  }
  {
    assume 2: "lex_scan strtod s1 = (T_char 0x2C, s2)" and 3: "lex_scan strtod s2 = (t3, s3)"
      and r: "elements_read strtod (acc @ [v]) t3 s3 r"
    obtain d where d: "is_ws d" "consumed s1 (d @ [0x2C]) s2" by (rule char_consumed [OF 2])
    show "elements_read strtod acc tok s r"
      unfolding elements_read_def
    proof (intro allI impI conjI)
      fix j s' assume "r = Some (Some j, s')"
      then obtain z js where z: "t3 \<noteq> T_invalid" "consumed s3 (z @ [0x5D]) s'" "j = JArray ((acc @ [v]) @ js)"
          "\<And>w x. is_ws w \<Longrightarrow> token_text strtod x t3 \<Longrightarrow> elements_text strtod (w @ x @ z) js"
        using r unfolding elements_read_def by blast
      obtain u q where u: "is_ws u" "consumed s2 (u @ q) s3" "token_text strtod q t3" by (rule lex_scan_consumed [OF 3 z(1)])
      have "consumed s (y @ (d @ [0x2C]) @ (u @ q) @ z @ [0x5D]) s'"
        by (rule consumed_trans [OF y(2) consumed_trans [OF d(2) consumed_trans [OF u(2) z(2)]]])
      moreover have "elements_text strtod (w @ x @ y @ d @ 0x2C # u @ q @ z) (v # js)"
        if "is_ws w" "token_text strtod x tok" for w x
        using text_elements [OF that(1) y(3) [OF that(2)] d(1) z(4) [OF u(1,3)]] by simp
      ultimately show "\<exists>y js. consumed s (y @ [0x5D]) s' \<and> j = JArray (acc @ js) \<and>
          (\<forall>w x. is_ws w \<longrightarrow> token_text strtod x tok \<longrightarrow> elements_text strtod (w @ x @ y) js)"
        using z(3) by (intro exI [of _ "y @ d @ 0x2C # u @ q @ z"] exI [of _ "v # js"]) simp
    qed (rule y(1))
  }
qed

lemma parse_read:
  "value_read strtod tok s (parse_value n strtod tok s)"
  "members_read strtod kvs tok s (parse_object n strtod kvs tok s)"
  "elements_read strtod js tok s (parse_array n strtod js tok s)"
proof (induction n strtod tok s and n strtod kvs tok s and n strtod js tok s
    rule: parse_value_parse_object_parse_array.induct)
  case (2 n strtod tok s)
  obtain t1 s1 where l: "lex_scan strtod s = (t1, s1)" by fastforce
  show ?case
  proof (cases "tok = T_char 0x7B \<or> tok = T_char 0x5B")
    case True
    then show ?thesis
      using 2(1,2) l value_read_empty [of strtod s s1] value_read_open [OF l] by auto
  next
    case False
    then show ?thesis using value_read_plain [of tok strtod s n] value_read_None by (cases tok) auto
  qed
next
  case (4 n strtod kvs tok s)
  show ?case
  proof (cases tok)
    case (T_string key)
    obtain t1 s1 where l1: "lex_scan strtod s = (t1, s1)" by fastforce
    obtain t2 s2 where l2: "lex_scan strtod s1 = (t2, s2)" by fastforce
    show ?thesis
    proof (cases "t1 = T_char 0x3A \<and> (\<exists>v s3. parse_value n strtod t2 s2 = Some (Some v, s3))")
      case True
      then obtain v s3 where v: "t1 = T_char 0x3A" "parse_value n strtod t2 s2 = Some (Some v, s3)" by blast
      have r: "value_read strtod t2 s2 (Some (Some v, s3))"
        using 4(1) [OF T_string l1 [symmetric] _ l2 [symmetric]] v by simp
      obtain t3 s4 where l3: "lex_scan strtod s3 = (t3, s4)" by fastforce
      obtain t4 s5 where l4: "lex_scan strtod s4 = (t4, s5)" by fastforce
      note step = members_read_step [OF l1 [unfolded v(1)] l2 r]
      have "members_read strtod (json_object_set kvs (text_of key) v) t4 s5 (parse_object n strtod (json_object_set kvs (text_of key) v) t4 s5)"
        if "t3 = T_char 0x2C"
        using 4(2) [OF T_string l1 [symmetric] _ l2 [symmetric]] v l3 l4 that by simp
      then show ?thesis
        using T_string l1 l2 v l3 l4 step(1) [of s4 kvs key] step(2) [of s4 t4 s5 kvs key] value_read_None by (auto simp: Let_def)
    next
      case False
      then show ?thesis using T_string l1 l2 value_read_None by (auto split: option.split)
    qed
  qed (simp_all add: value_read_None)
next
  case (6 n strtod js tok s)
  show ?case
  proof (cases "tok \<noteq> T_eof \<and> (\<exists>v s1. parse_value n strtod tok s = Some (Some v, s1))")
    case True
    then obtain v s1 where v: "parse_value n strtod tok s = Some (Some v, s1)" by blast
    have r: "value_read strtod tok s (Some (Some v, s1))" using 6(1) True v by simp
    obtain t3 s4 where l3: "lex_scan strtod s1 = (t3, s4)" by fastforce
    obtain t4 s5 where l4: "lex_scan strtod s4 = (t4, s5)" by fastforce
    have "elements_read strtod (js @ [v]) t4 s5 (parse_array n strtod (js @ [v]) t4 s5)" if "t3 = T_char 0x2C"
      using 6(2) True v l3 l4 that by simp
    then show ?thesis
      using True v l3 l4 elements_read_step [OF r, of s4] value_read_None by auto
  next
    case False
    then show ?thesis using value_read_None by (auto split: option.split)
  qed
qed (simp_all add: value_read_None)

lemma get_eof: "stream_get s = (At_eof, s') \<Longrightarrow> st_state s' = STREAM_STATE_EOF"
  by (auto simp: stream_get_def stream_fetch_def Let_def split: stream_state.splits list.splits if_splits)

lemma take_bytes_eof:
  "take_bytes ok c s = (xs, At_eof, s') \<Longrightarrow> (c = At_eof \<Longrightarrow> st_state s = STREAM_STATE_EOF) \<Longrightarrow> st_state s' = STREAM_STATE_EOF"
proof (induction ok c s arbitrary: xs rule: take_bytes.induct)
  case (1 ok b s)
  obtain c1 s1 where g: "stream_get s = (c1, s1)" by fastforce
  obtain bs1 c2 s2 where t: "take_bytes ok c1 s1 = (bs1, c2, s2)" by (rule prod_cases3)
  have ok: "ok b" using 1(2) by (auto split: if_splits)
  then have "c2 = At_eof" "s2 = s'" using 1(2) g t by auto
  then show ?case using 1(1) [OF ok g [symmetric]] t get_eof g by auto
qed auto

lemma no_eof: "fst (lex_scan_string s) \<noteq> T_eof" "fst (lex_scan_number strtod b s) \<noteq> T_eof"
proof -
  show "fst (lex_scan_string s) \<noteq> T_eof" by (auto simp: lex_scan_string_def split: prod.splits option.splits)
  show "fst (lex_scan_number strtod b s) \<noteq> T_eof"
  proof
    assume e: "fst (lex_scan_number strtod b s) = T_eof"
    then obtain s' where l: "lex_scan_number strtod b s = (T_eof, s')" by (metis prod.collapse)
    from lex_scan_number_consumed [OF l] show False by (auto simp: number_token_def)
  qed
qed

lemma scan_eof:
  assumes "lex_scan strtod s = (T_eof, s')"
  shows "st_state s' = STREAM_STATE_EOF"
proof -
  obtain c0 s0 where g: "stream_get s = (c0, s0)" by fastforce
  obtain w c s1 where t: "take_bytes is_space c0 s0 = (w, c, s1)" by (rule prod_cases3)
  show ?thesis
  proof (cases c)
    case (Byte b)
    then show ?thesis using assms g t no_eof(1) [of s1] no_eof(2) [of strtod b s1]
      by (auto simp: lex_scan_def split: if_splits prod.splits simp del: take_bytes.simps)
  next
    case At_eof
    then have "s' = s1" using assms g t by (simp add: lex_scan_def)
    moreover have "take_bytes is_space c0 s0 = (w, At_eof, s1)" using t At_eof by simp
    ultimately show ?thesis using take_bytes_eof get_eof g by blast
  next
    case At_error
    then show ?thesis using assms g t by (simp add: lex_scan_def)
  qed
qed

lemma loads_text:
  assumes "json_loads strtod bs = Some j" and "0 \<notin> set bs"
  shows "\<exists>a t b. bs = a @ t @ b \<and> is_ws a \<and> is_ws b \<and> value_text strtod t j \<and> (hd t = 0x5B \<or> hd t = 0x7B) \<and> utf8_check_string bs"
proof -
  let ?s = "source_stream bs"
  have tw: "takeWhile (\<lambda>b. b \<noteq> 0) bs = bs" using assms(2) by (auto simp: takeWhile_eq_all_conv)
  have p: "parse_json strtod ?s = Some (Some j)"
    using assms(1) unfolding json_loads_def json_loadf_def tw by (auto split: option.splits)
  obtain tok s1 where l: "lex_scan strtod ?s = (tok, s1)" by fastforce
  have tok: "tok = T_char 0x5B \<or> tok = T_char 0x7B" using p l by (auto simp: parse_json_def split: if_splits)
  obtain s2 where v: "parse_value (2 * stream_left ?s + 1) strtod tok s1 = Some (Some j, s2)"
    using p l tok by (auto simp: parse_json_def split: option.splits prod.splits if_splits simp del: parse_value.simps)
  obtain s3 where e: "lex_scan strtod s2 = (T_eof, s3)"
    using p l tok v by (auto simp: parse_json_def split: prod.splits if_splits simp del: parse_value.simps)
  obtain y where y: "consumed s1 y s2" "\<And>x. token_text strtod x tok \<Longrightarrow> value_text strtod (x @ y) j"
    using parse_read(1) [of strtod tok s1 "2 * stream_left ?s + 1"] v unfolding value_read_def by blast
  obtain a x where a: "is_ws a" "consumed ?s (a @ x) s1" "token_text strtod x tok"
    by (rule lex_scan_consumed [OF l]) (use tok in auto)
  have x: "x \<in> {[0x5B], [0x7B]}" using a(3) tok by (auto simp: token_text_def)
  obtain b z where b: "is_ws b" "consumed s2 (b @ z) s3" "token_text strtod z T_eof" by (rule lex_scan_consumed [OF e]) simp
  have c: "consumed ?s ((a @ x) @ y @ (b @ z)) s3" by (rule consumed_trans [OF a(2) consumed_trans [OF y(1) b(2)]])
  have "st_state s3 = STREAM_STATE_EOF" using e by (rule scan_eof)
  then have "nul_free s3 \<longrightarrow> bytes_left s3 = []" by (simp add: nul_free_def)
  moreover have "nul_free ?s" using assms(2) by (simp add: nul_free_def bytes_left_def source_stream_def)
  ultimately have "bs = (a @ x) @ y @ (b @ z) \<and> utf8_check_string bs"
    using c \<open>st_state s3 = STREAM_STATE_EOF\<close> by (auto simp: consumed_def bytes_left_def source_stream_def)
  moreover have "z = []" using b(3) by (simp add: token_text_def)
  ultimately show ?thesis using a(1) b(1) y(2) [OF a(3)] x by (intro exI [of _ a] exI [of _ "x @ y"] exI [of _ b]) auto
qed


text \<open>\<open>{"a": [1, "b\\n"]}\<close>\<close>

definition demo_text :: "u8 list" where
  "demo_text = [0x7B, 0x22, 0x61, 0x22, 0x3A, 0x20, 0x5B, 0x31, 0x2C, 0x20, 0x22, 0x62, 0x5C, 0x6E, 0x22, 0x5D, 0x7D]"

lemma demo_text_means: "value_text (\<lambda>t. None) demo_text (JObject [(''a'', JArray [JInteger 1, JString [0x62, 10]])])"
proof -
  let ?v = "value_text (\<lambda>t. None)"
  have "int_part [0x31]" by (auto simp: int_part_def int_digits_def l_isdigit_def)
  then have 1: "?v [0x31] (JInteger 1)" by (rule text_integer) (simp add: json_strtoint_def digits_int_def)
  have "string_text (0x62 # 0x5C # 0x6E # []) (0x62 # short_value 0x6E # [])"
    by (intro string_plain string_short string_Nil) (simp_all add: short_escape_def)
  then have 2: "?v [0x22, 0x62, 0x5C, 0x6E, 0x22] (JString [0x62, 10])"
    using text_string by (fastforce simp: short_value_def)
  have w: "is_ws []" "is_ws [0x20]" by (simp_all add: is_ws_def is_space_def)
  have "elements_text (\<lambda>t. None) ([] @ [0x31] @ [] @ 0x2C # [0x20] @ [0x22, 0x62, 0x5C, 0x6E, 0x22] @ []) [JInteger 1, JString [0x62, 10]]"
    by (intro text_elements text_element 1 2 w)
  from text_array [OF this] have 3: "?v [0x5B, 0x31, 0x2C, 0x20, 0x22, 0x62, 0x5C, 0x6E, 0x22, 0x5D] (JArray [JInteger 1, JString [0x62, 10]])"
    by simp
  have "string_text [0x61] [0x61]" by (intro string_plain string_Nil) simp_all
  from text_object [OF text_member [OF w(1) this w(1) w(2) 3 w(1)]]
  have "?v demo_text (JObject [(text_of [0x61], JArray [JInteger 1, JString [0x62, 10]])])"
    by (simp add: demo_text_def json_object_def json_object_set_def)
  moreover have "text_of [0x61] = ''a''" using text_of_chars [of "''a''"] by (simp add: chars_def)
  ultimately show ?thesis by simp
qed


end
