(* ===== verification/Config.thy ===== *)
theory Config
  imports Api_Access Json_Grammar
begin

text \<open>
  The configuration of the miner, from \<open>src/cgminer/cgminer.c\<close>: the options that set up pools
  (\<open>set_url\<close>, \<open>set_quota\<close>, \<open>set_user\<close>, \<open>set_pass\<close>, \<open>set_userpass\<close>), reading a
  configuration (\<open>parse_config\<close>, \<open>load_config\<close>) and writing one (\<open>write_config\<close>).

  \<open>opt_config_table\<close> has the options of a build with libcurl, curses and syslog and without the
  drivers of other vendors. A variable of the program is named by a string. An error is its message;
  \<open>None\<close> is a memory fault.
\<close>

section \<open>Values of options\<close>

text \<open>\<open>strtol\<close> with base 0: the value and the rest of the text.\<close>

definition digit_value :: "char \<Rightarrow> nat" where
  "digit_value c =
     (let n = of_char c in if 48 \<le> n \<and> n \<le> 57 then n - 48 else if 97 \<le> n \<and> n \<le> 122 then n - 87
      else if 65 \<le> n \<and> n \<le> 90 then n - 55 else 255)"

fun digits_base :: "nat \<Rightarrow> nat \<Rightarrow> string \<Rightarrow> nat \<times> string" where
  "digits_base b v [] = (v, [])"
| "digits_base b v (c # cs) = (if digit_value c < b then digits_base b (b * v + digit_value c) cs else (v, c # cs))"

text \<open>The second result is whether anything was read; if not, \<open>strtol\<close> leaves the text as it is.\<close>

definition strtol0 :: "string \<Rightarrow> int \<times> string" where
  "strtol0 s =
     (let t = dropWhile isspace s;
          neg = (t \<noteq> [] \<and> hd t = CHR ''-'');
          t = (if t \<noteq> [] \<and> (hd t = CHR ''-'' \<or> hd t = CHR ''+'') then tl t else t);
          (b, t) = (if t \<noteq> [] \<and> hd t = CHR ''0'' then
                      if 3 \<le> length t \<and> tolower (t ! 1) = CHR ''x'' \<and> digit_value (t ! 2) < 16 then (16, drop 2 t) else (8, t)
                    else (10, t))
      in if t = [] \<or> \<not> digit_value (hd t) < b then (0, s)
         else case digits_base b 0 t of (v, rest) \<Rightarrow> (if neg then - int v else int v, rest))"

text \<open>A \<open>long\<close> has 32 bits, like an \<open>int\<close>.\<close>

definition opt_set_intval :: "string \<Rightarrow> int option" where
  "opt_set_intval arg =
     (case strtol0 arg of (v, rest) \<Rightarrow>
        if rest \<noteq> [] \<or> arg = [] then None
        else if v < - (2 ^ 31) \<or> 2 ^ 31 \<le> v then None
        else Some v)"

text \<open>\<open>sscanf(arg, "%d:%d", ...)\<close>: the numbers that were read.\<close>

definition scan_int :: "string \<Rightarrow> (int \<times> string) option" where
  "scan_int s =
     (let t = dropWhile isspace s;
          u = (if t \<noteq> [] \<and> (hd t = CHR ''-'' \<or> hd t = CHR ''+'') then tl t else t)
      in if u \<noteq> [] \<and> isdigit (hd u) then Some (atoi t, dropWhile isdigit u) else None)"

section \<open>State\<close>

datatype opt_cb =
    Opt_set_bool string | Opt_set_invbool string | Enable_debug string
  | Opt_set_charp string | Opt_set_intval string | Set_int_range string int int
  | Set_balance | Set_loadbalance | Set_rr | Set_rotate string
  | Set_url | Set_quota | Set_user | Set_pass | Set_userpass | Set_null | Set_pools
  | Set_sched_start string | Set_sched_stop string | Set_sharelog string

datatype opt_type = OPT_NOARG | OPT_HASARG | OPT_PROCESSARG

record opt_table =
  op_names :: string
  op_type :: opt_type
  op_cb :: opt_cb
  op_hidden :: bool

record schedtime =
  tm_hour :: int
  tm_min :: int
  sched_enable :: bool

text \<open>\<open>cf_next\<close> is the address \<open>calloc\<close> returns for the next pool.\<close>

record config =
  cf_control :: control
  cf_next :: nat
  total_urls :: nat
  total_users :: nat
  total_passes :: nat
  total_userpasses :: nat
  cf_bools :: "string \<Rightarrow> bool"
  cf_ints :: "string \<Rightarrow> int"
  cf_charps :: "string \<Rightarrow> string option"
  schedstart :: schedtime
  schedstop :: schedtime
  sharelog_arg :: "string option"
  include_count :: nat
  cnfbuf :: "string option"
  config_loaded :: bool
  fileconf_load :: int

abbreviation conf_pools :: "config \<Rightarrow> nat list" where
  "conf_pools s \<equiv> pools (cs_pools (cf_control s))"

definition on_control :: "(control \<Rightarrow> control) \<Rightarrow> config \<Rightarrow> config" where
  "on_control f s = s\<lparr>cf_control := f (cf_control s)\<rparr>"

section \<open>Pools\<close>

definition conf_add_pool :: "config \<Rightarrow> config" where
  "conf_add_pool s =
     (let a = cf_next s
      in (on_control (\<lambda>c. c\<lparr>cs_pools := add_pool a (cs_pools c), cs_details := (cs_details c)(a := blank_details)\<rparr>) s)\<lparr>cf_next := Suc a\<rparr>)"

text \<open>The pool number \<open>n\<close>, counted from 1, added if there are fewer.\<close>

definition nth_pool :: "nat \<Rightarrow> config \<Rightarrow> nat \<times> config" where
  "nth_pool n s =
     (let s = (if n > length (conf_pools s) then conf_add_pool s else s)
      in (conf_pools s ! (n - 1), s))"

definition add_url :: "config \<Rightarrow> nat \<times> config" where
  "add_url s = nth_pool (total_urls s + 1) (s\<lparr>total_urls := total_urls s + 1\<rparr>)"

definition conf_details :: "nat \<Rightarrow> (pool_details \<Rightarrow> pool_details) \<Rightarrow> config \<Rightarrow> config" where
  "conf_details a f = on_control (\<lambda>c. c\<lparr>cs_details := (cs_details c)(a := f (cs_details c a))\<rparr>)"

text \<open>\<open>setup_url\<close> on the pool at \<open>a\<close>.\<close>

definition conf_setup_url :: "nat \<Rightarrow> string \<Rightarrow> config \<Rightarrow> config option" where
  "conf_setup_url a arg s =
     (case setup_url (cs_details (cf_control s) a) arg of
        None \<Rightarrow> None
      | Some d \<Rightarrow> Some (on_control (put_details a d) s))"

definition set_url :: "string \<Rightarrow> config \<Rightarrow> (string option \<times> config) option" where
  "set_url arg s =
     (case add_url s of (a, s) \<Rightarrow> map_option (Pair None) (conf_setup_url a arg s))"

definition set_quota :: "string \<Rightarrow> config \<Rightarrow> (string option \<times> config) option" where
  "set_quota arg s =
     (case strchr arg (CHR '';'') of
        None \<Rightarrow> Some (Some ''No semicolon separated quota;URL pair found'', s)
      | Some qlen \<Rightarrow>
          if qlen = 0 then Some (Some ''No parameter for quota found'', s)
          else if length arg - (qlen + 1) < 1 then Some (Some ''No parameter for URL found'', s)
          else
            let quota = atoi (take qlen arg)
            in if quota < 0 then Some (Some ''Invalid negative parameter for quota set'', s)
               else
                 (case add_url s of (a, s) \<Rightarrow>
                    (case conf_setup_url a (drop (qlen + 1) arg) s of
                       None \<Rightarrow> None
                     | Some s \<Rightarrow>
                         Some (None, on_control (\<lambda>c. c\<lparr>cs_pools := adjust_quota_gcd
                           (upd_pool a (\<lambda>p. p\<lparr>quota := quota\<rparr>) (cs_pools c))\<rparr>) s))))"

definition only_one_kind :: string where
  "only_one_kind = ''Use only user + pass or userpass, but not both''"

definition set_user :: "string \<Rightarrow> config \<Rightarrow> string option \<times> config" where
  "set_user arg s =
     (if total_userpasses s \<noteq> 0 then (Some only_one_kind, s)
      else case nth_pool (total_users s + 1) (s\<lparr>total_users := total_users s + 1\<rparr>) of (a, s) \<Rightarrow>
        (None, conf_details a (\<lambda>d. d\<lparr>rpc_user := Some arg\<rparr>) s))"

definition set_pass :: "string \<Rightarrow> config \<Rightarrow> string option \<times> config" where
  "set_pass arg s =
     (if total_userpasses s \<noteq> 0 then (Some only_one_kind, s)
      else case nth_pool (total_passes s + 1) (s\<lparr>total_passes := total_passes s + 1\<rparr>) of (a, s) \<Rightarrow>
        (None, conf_details a (\<lambda>d. d\<lparr>rpc_pass := Some arg\<rparr>) s))"

text \<open>\<open>strtok\<close>: the next piece between colons, and the rest.\<close>

definition next_token :: "string \<Rightarrow> string option \<times> string" where
  "next_token s =
     (let t = dropWhile (\<lambda>c. c = CHR '':'') s
      in if t = [] then (None, []) else (Some (takeWhile (\<lambda>c. c \<noteq> CHR '':'') t), tl (dropWhile (\<lambda>c. c \<noteq> CHR '':'') t)))"

definition set_userpass :: "string \<Rightarrow> config \<Rightarrow> string option \<times> config" where
  "set_userpass arg s =
     (if total_users s \<noteq> 0 \<or> total_passes s \<noteq> 0 then (Some only_one_kind, s)
      else case nth_pool (total_userpasses s + 1) (s\<lparr>total_userpasses := total_userpasses s + 1\<rparr>) of (a, s) \<Rightarrow>
        (let (user, rest) = next_token arg;
             s = conf_details a (\<lambda>d. d\<lparr>rpc_userpass := Some arg, rpc_user := user\<rparr>) s
         in if user = None then (Some ''Failed to find : delimited user info'', s)
            else let pass = fst (next_token rest);
                     s = conf_details a (\<lambda>d. d\<lparr>rpc_pass := pass\<rparr>) s
                 in if pass = None then (Some ''Failed to find : delimited pass info'', s) else (None, s)))"

section \<open>The other options\<close>

definition set_strategy :: "pool_strategy \<Rightarrow> config \<Rightarrow> config" where
  "set_strategy st = on_control (\<lambda>c. c\<lparr>cs_pools := (cs_pools c)\<lparr>pool_strategy := st\<rparr>\<rparr>)"

text \<open>The variable is written before its range is tested.\<close>

definition set_int_range :: "string \<Rightarrow> string \<Rightarrow> int \<Rightarrow> int \<Rightarrow> config \<Rightarrow> string option \<times> config" where
  "set_int_range arg v lo hi s =
     (case opt_set_intval arg of
        None \<Rightarrow> (Some ''not a number'', s)
      | Some i \<Rightarrow>
          (if i < lo \<or> i > hi then Some ''Value out of range'' else None, s\<lparr>cf_ints := (cf_ints s)(v := i)\<rparr>))"

definition set_schedtime :: "string \<Rightarrow> schedtime \<Rightarrow> string option \<times> schedtime" where
  "set_schedtime arg st =
     (case scan_int arg of
        None \<Rightarrow> (Some ''Invalid time set, should be HH:MM'', st)
      | Some (h, rest) \<Rightarrow>
          (let st = st\<lparr>tm_hour := h\<rparr>
           in case (if rest \<noteq> [] \<and> hd rest = CHR '':'' then scan_int (tl rest) else None) of
                None \<Rightarrow> (Some ''Invalid time set, should be HH:MM'', st)
              | Some (m, _) \<Rightarrow>
                  let st = st\<lparr>tm_min := m\<rparr>
                  in if h > 23 \<or> m > 59 \<or> h < 0 \<or> m < 0 then (Some ''Invalid time set.'', st)
                     else (None, st\<lparr>sched_enable := True\<rparr>)))"

text \<open>
  \<open>opt->cb_arg(arg, opt->u.arg)\<close>. The callback of \<open>pools\<close> is \<open>opt_set_bool\<close>, which sets the
  first byte of what it takes for a \<open>bool\<close>.
\<close>

definition cb_arg :: "opt_cb \<Rightarrow> string \<Rightarrow> config \<Rightarrow> (string option \<times> config) option" where
  "cb_arg cb arg s =
     (case cb of
        Opt_set_charp v \<Rightarrow> Some (None, s\<lparr>cf_charps := (cf_charps s)(v := Some arg)\<rparr>)
      | Opt_set_intval v \<Rightarrow>
          (case opt_set_intval arg of
             None \<Rightarrow> Some (Some ''not a number'', s)
           | Some i \<Rightarrow> Some (None, s\<lparr>cf_ints := (cf_ints s)(v := i)\<rparr>))
      | Set_int_range v lo hi \<Rightarrow> Some (set_int_range arg v lo hi s)
      | Set_rotate v \<Rightarrow> Some (set_int_range arg v 0 9999 (set_strategy POOL_ROTATE s))
      | Set_url \<Rightarrow> set_url arg s
      | Set_quota \<Rightarrow> set_quota arg s
      | Set_user \<Rightarrow> Some (set_user arg s)
      | Set_pass \<Rightarrow> Some (set_pass arg s)
      | Set_userpass \<Rightarrow> Some (set_userpass arg s)
      | Set_sched_start v \<Rightarrow> (case set_schedtime arg (schedstart s) of (e, st) \<Rightarrow> Some (e, s\<lparr>schedstart := st\<rparr>))
      | Set_sched_stop v \<Rightarrow> (case set_schedtime arg (schedstop s) of (e, st) \<Rightarrow> Some (e, s\<lparr>schedstop := st\<rparr>))
      | Set_sharelog v \<Rightarrow> Some (None, s\<lparr>sharelog_arg := Some arg\<rparr>)
      | _ \<Rightarrow> Some (None, s))"

definition cb_noarg :: "opt_cb \<Rightarrow> config \<Rightarrow> config" where
  "cb_noarg cb s =
     (case cb of
        Opt_set_bool v \<Rightarrow> s\<lparr>cf_bools := (cf_bools s)(v := True)\<rparr>
      | Opt_set_invbool v \<Rightarrow> s\<lparr>cf_bools := (cf_bools s)(v := False)\<rparr>
      | Enable_debug v \<Rightarrow> s\<lparr>cf_bools := (cf_bools s)(v := True, ''opt_log_output'' := True)\<rparr>
      | Set_balance \<Rightarrow> set_strategy POOL_BALANCE s
      | Set_loadbalance \<Rightarrow> set_strategy POOL_LOADBALANCE s
      | Set_rr \<Rightarrow> set_strategy POOL_ROUNDROBIN s
      | _ \<Rightarrow> s)"

definition opt_entry :: "string \<Rightarrow> opt_type \<Rightarrow> opt_cb \<Rightarrow> bool \<Rightarrow> opt_table" where
  "opt_entry names t cb hidden = \<lparr>op_names = names, op_type = t, op_cb = cb, op_hidden = hidden\<rparr>"

definition opt_config_table :: "opt_table list" where
  "opt_config_table =
    [opt_entry ''--api-allow'' OPT_HASARG (Opt_set_charp ''opt_api_allow'') False,
     opt_entry ''--api-description'' OPT_HASARG (Opt_set_charp ''opt_api_description'') False,
     opt_entry ''--api-groups'' OPT_HASARG (Opt_set_charp ''opt_api_groups'') False,
     opt_entry ''--api-listen'' OPT_NOARG (Opt_set_bool ''opt_api_listen'') False,
     opt_entry ''--api-mcast'' OPT_NOARG (Opt_set_bool ''opt_api_mcast'') False,
     opt_entry ''--api-mcast-addr'' OPT_HASARG (Opt_set_charp ''opt_api_mcast_addr'') False,
     opt_entry ''--api-mcast-code'' OPT_HASARG (Opt_set_charp ''opt_api_mcast_code'') False,
     opt_entry ''--api-mcast-des'' OPT_HASARG (Opt_set_charp ''opt_api_mcast_des'') False,
     opt_entry ''--api-mcast-port'' OPT_HASARG (Set_int_range ''opt_api_mcast_port'' 1 65535) False,
     opt_entry ''--api-network'' OPT_NOARG (Opt_set_bool ''opt_api_network'') False,
     opt_entry ''--api-port'' OPT_HASARG (Set_int_range ''opt_api_port'' 1 65535) False,
     opt_entry ''--balance'' OPT_NOARG (Set_balance) False,
     opt_entry ''--benchfile'' OPT_HASARG (Opt_set_charp ''opt_benchfile'') False,
     opt_entry ''--benchfile-display'' OPT_NOARG (Opt_set_bool ''opt_benchfile_display'') False,
     opt_entry ''--benchmark'' OPT_NOARG (Opt_set_bool ''opt_benchmark'') False,
     opt_entry ''--btc-address'' OPT_HASARG (Opt_set_charp ''opt_btc_address'') False,
     opt_entry ''--btc-sig'' OPT_HASARG (Opt_set_charp ''opt_btc_sig'') False,
     opt_entry ''--compact'' OPT_NOARG (Opt_set_bool ''opt_compact'') False,
     opt_entry ''--debug|-D'' OPT_NOARG (Enable_debug ''opt_debug'') False,
     opt_entry ''--disable-rejecting'' OPT_NOARG (Opt_set_bool ''opt_disable_pool'') False,
     opt_entry ''--expiry|-E'' OPT_HASARG (Set_int_range ''opt_expiry'' 0 9999) False,
     opt_entry ''--failover-only'' OPT_NOARG (Opt_set_bool ''opt_fail_only'') False,
     opt_entry ''--fix-protocol'' OPT_NOARG (Opt_set_bool ''opt_fix_protocol'') False,
     opt_entry ''--hotplug'' OPT_HASARG (Set_int_range ''hotplug_time'' 0 9999) True,
     opt_entry ''--load-balance'' OPT_NOARG (Set_loadbalance) False,
     opt_entry ''--log|-l'' OPT_HASARG (Set_int_range ''opt_log_interval'' 0 9999) False,
     opt_entry ''--lowmem'' OPT_NOARG (Opt_set_bool ''opt_lowmem'') False,
     opt_entry ''--monitor|-m'' OPT_HASARG (Opt_set_charp ''opt_stderr_cmd'') False,
     opt_entry ''--net-delay'' OPT_NOARG (Opt_set_bool ''opt_delaynet'') False,
     opt_entry ''--no-pool-disable'' OPT_NOARG (Opt_set_invbool ''opt_disable_pool'') True,
     opt_entry ''--no-submit-stale'' OPT_NOARG (Opt_set_invbool ''opt_submit_stale'') False,
     opt_entry ''--pass|-p'' OPT_HASARG (Set_pass) False,
     opt_entry ''--per-device-stats'' OPT_NOARG (Opt_set_bool ''want_per_device_stats'') False,
     opt_entry ''--pools'' OPT_HASARG (Set_pools) True,
     opt_entry ''--protocol-dump|-P'' OPT_NOARG (Opt_set_bool ''opt_protocol'') False,
     opt_entry ''--queue|-Q'' OPT_HASARG (Set_int_range ''opt_queue'' 0 9999) False,
     opt_entry ''--quiet|-q'' OPT_NOARG (Opt_set_bool ''opt_quiet'') False,
     opt_entry ''--quota|-U'' OPT_HASARG (Set_quota) False,
     opt_entry ''--real-quiet'' OPT_NOARG (Opt_set_bool ''opt_realquiet'') False,
     opt_entry ''--retries'' OPT_HASARG (Set_null) True,
     opt_entry ''--retry-pause'' OPT_HASARG (Set_null) True,
     opt_entry ''--rotate'' OPT_HASARG (Set_rotate ''opt_rotate_period'') False,
     opt_entry ''--round-robin'' OPT_NOARG (Set_rr) False,
     opt_entry ''--scan-time|-s'' OPT_HASARG (Set_int_range ''opt_scantime'' 0 9999) False,
     opt_entry ''--sched-start'' OPT_PROCESSARG (Set_sched_start ''opt_set_sched_start'') False,
     opt_entry ''--sched-stop'' OPT_PROCESSARG (Set_sched_stop ''opt_set_sched_stop'') False,
     opt_entry ''--sharelog'' OPT_PROCESSARG (Set_sharelog ''opt_set_sharelog'') False,
     opt_entry ''--shares'' OPT_HASARG (Opt_set_intval ''opt_shares'') False,
     opt_entry ''--socks-proxy'' OPT_HASARG (Opt_set_charp ''opt_socks_proxy'') False,
     opt_entry ''--syslog'' OPT_NOARG (Opt_set_bool ''use_syslog'') False,
     opt_entry ''--text-only|-T'' OPT_NOARG (Opt_set_invbool ''use_curses'') False,
     opt_entry ''--url|-o'' OPT_HASARG (Set_url) False,
     opt_entry ''--user|-u'' OPT_HASARG (Set_user) False,
     opt_entry ''--userpass|-O'' OPT_HASARG (Set_userpass) False,
     opt_entry ''--verbose'' OPT_NOARG (Opt_set_bool ''opt_log_output'') False,
     opt_entry ''--widescreen'' OPT_NOARG (Opt_set_bool ''opt_widescreen'') False,
     opt_entry ''--worktime'' OPT_NOARG (Opt_set_bool ''opt_worktime'') False]"

text \<open>The long names, without their two dashes.\<close>

definition long_names :: "opt_table \<Rightarrow> string list" where
  "long_names opt =
     map (drop 2) (filter (\<lambda>p. 2 \<le> length p \<and> p ! 1 = CHR ''-'') (split_on (CHR ''|'') (op_names opt)))"

section \<open>Reading a configuration\<close>

text \<open>
  The files and what \<open>json_web_config\<close> gets for an address. A run ends with an error or without,
  meets a memory fault, or is not over at the depth of calls allowed.
\<close>

record conf_env =
  ev_strtod :: "u8 list \<Rightarrow> dbl option"
  ev_file :: "string \<Rightarrow> u8 list option"
  ev_web :: "string \<Rightarrow> json option"

datatype run = Returns "string option" config | Faults | Deeper

text \<open>An array: its strings are arguments, its objects configurations; the first error ends it.\<close>

fun parse_values :: "(json \<Rightarrow> config \<Rightarrow> run) \<Rightarrow> opt_cb \<Rightarrow> json list \<Rightarrow> config \<Rightarrow> run" where
  "parse_values rec cb [] s = Returns None s"
| "parse_values rec cb (j # js) s =
     (case (case j of
              JString b \<Rightarrow> (case cb_arg cb (text_of b) s of None \<Rightarrow> Faults | Some (e, s) \<Rightarrow> Returns e s)
            | JObject kvs \<Rightarrow> rec j s
            | _ \<Rightarrow> Returns None s) of
        Returns None s \<Rightarrow> parse_values rec cb js s
      | r \<Rightarrow> r)"

definition parse_option :: "(json \<Rightarrow> config \<Rightarrow> run) \<Rightarrow> opt_table \<Rightarrow> json \<Rightarrow> config \<Rightarrow> run" where
  "parse_option rec opt val s =
     (if op_type opt \<noteq> OPT_NOARG \<and> (\<exists>b. val = JString b) then
        (case val of JString b \<Rightarrow> (case cb_arg (op_cb opt) (text_of b) s of None \<Rightarrow> Faults | Some (e, s) \<Rightarrow> Returns e s))
      else if op_type opt \<noteq> OPT_NOARG \<and> (\<exists>js. val = JArray js) then
        (case val of JArray js \<Rightarrow> parse_values rec (op_cb opt) js s)
      else if op_type opt = OPT_NOARG \<and> val = JTrue then Returns None (cb_noarg (op_cb opt) s)
      else Returns (Some ''Invalid value'') s)"

text \<open>In a file an invalid value is only noted.\<close>

fun parse_names :: "(json \<Rightarrow> config \<Rightarrow> run) \<Rightarrow> bool \<Rightarrow> json \<Rightarrow> (opt_table \<times> string) list \<Rightarrow> config \<Rightarrow> run" where
  "parse_names rec fileconf config [] s = Returns None s"
| "parse_names rec fileconf config ((opt, name) # ns) s =
     (case json_object_get (Some config) name of
        None \<Rightarrow> parse_names rec fileconf config ns s
      | Some val \<Rightarrow>
          (case parse_option rec opt val s of
             Returns None s \<Rightarrow> parse_names rec fileconf config ns s
           | Returns (Some err) s \<Rightarrow>
               if fileconf then parse_names rec fileconf config ns (s\<lparr>fileconf_load := - 1\<rparr>)
               else Returns (Some (take 199 (''Parsing JSON option --'' @ name @ '': '' @ err))) s
           | r \<Rightarrow> r))"

definition config_names :: "(opt_table \<times> string) list" where
  "config_names = concat (map (\<lambda>opt. map (Pair opt) (long_names opt)) opt_config_table)"

definition parse_level :: "(json \<Rightarrow> config \<Rightarrow> run) \<Rightarrow> (string \<Rightarrow> config \<Rightarrow> run) \<Rightarrow> json \<Rightarrow> bool \<Rightarrow> config \<Rightarrow> run" where
  "parse_level rec load config fileconf s =
     (let s = (if fileconf \<and> fileconf_load s = 0 then s\<lparr>fileconf_load := 1\<rparr> else s)
      in case parse_names rec fileconf config config_names s of
           Returns None s \<Rightarrow>
             (case json_object_get (Some config) ''include'' of
                Some (JString b) \<Rightarrow> load (text_of b) s
              | _ \<Rightarrow> Returns None s)
         | r \<Rightarrow> r)"

definition is_web :: "string \<Rightarrow> bool" where
  "is_web arg \<longleftrightarrow> strncasecmp_eq arg ''http://'' 7 \<or> strncasecmp_eq arg ''https://'' 8"

definition load_config :: "conf_env \<Rightarrow> (json \<Rightarrow> bool \<Rightarrow> config \<Rightarrow> run) \<Rightarrow> string \<Rightarrow> config \<Rightarrow> run" where
  "load_config env parse arg s =
     (let loaded = (\<lambda>s. s\<lparr>cnfbuf := (case cnfbuf s of None \<Rightarrow> Some arg | b \<Rightarrow> b)\<rparr>)
      in if is_web arg then
           (case ev_web env arg of
              Some (JObject kvs) \<Rightarrow> parse (JObject kvs) True ((loaded s)\<lparr>config_loaded := True\<rparr>)
            | _ \<Rightarrow> Returns (Some ''WEB config err'') s)
         else
           let s = loaded s;
               s = s\<lparr>include_count := include_count s + 1\<rparr>
           in if include_count s > 10 then Returns (Some ''Too many levels of JSON includes (limit 10) or a loop'') s
              else (case Option.bind (ev_file env arg) (json_loadf (ev_strtod env)) of
                  Some (JObject kvs) \<Rightarrow> parse (JObject kvs) True (s\<lparr>config_loaded := True\<rparr>)
                | _ \<Rightarrow> Returns (Some (''JSON decode of file '' @ arg @ '' failed'')) s))"

text \<open>The first argument bounds the depth of the calls of \<open>parse_config\<close>.\<close>

primrec parse_config :: "nat \<Rightarrow> conf_env \<Rightarrow> json \<Rightarrow> bool \<Rightarrow> config \<Rightarrow> run" where
  "parse_config 0 env config fileconf s = Deeper"
| "parse_config (Suc n) env config fileconf s =
     parse_level (\<lambda>j. parse_config n env j False) (load_config env (parse_config n env)) config fileconf s"

section \<open>Writing one\<close>

fun json_escape :: "string \<Rightarrow> string" where
  "json_escape [] = []"
| "json_escape (c # cs) = (if c = CHR 0x5C \<or> c = CHR 0x22 then CHR 0x5C # c # json_escape cs else c # json_escape cs)"

text \<open>The line for one option, if it is written; \<open>None\<close> is a fault.\<close>

definition quoted_text :: "string \<Rightarrow> string" where
  "quoted_text s = CHR 0x22 # s @ [CHR 0x22]"

definition option_line :: "string \<Rightarrow> string \<Rightarrow> string" where
  "option_line name val = '','' @ [CHR 0x0A] @ quoted_text name @ '' : '' @ val"

text \<open>
  The last case takes the variable for a pointer to a string. That of \<open>rotate\<close> is a number: unless
  it is zero, a string is read at that address.
\<close>

definition write_option :: "opt_table \<Rightarrow> string \<Rightarrow> config \<Rightarrow> string option" where
  "write_option opt name s =
     (let charp = (\<lambda>v. Some (case cf_charps s v of None \<Rightarrow> [] | Some c \<Rightarrow> option_line name (quoted_text (json_escape c))))
      in if op_hidden opt then Some []
         else case op_cb opt of
           Opt_set_bool v \<Rightarrow> Some (if cf_bools s v then option_line name ''true'' else [])
         | Opt_set_invbool v \<Rightarrow> Some (if \<not> cf_bools s v then option_line name ''true'' else [])
         | Opt_set_intval v \<Rightarrow> Some (option_line name (quoted_text (int_text (cf_ints s v))))
         | Set_int_range v lo hi \<Rightarrow> Some (option_line name (quoted_text (int_text (cf_ints s v))))
         | Opt_set_charp v \<Rightarrow> charp v
         | Set_sched_start v \<Rightarrow> charp v
         | Set_sched_stop v \<Rightarrow> charp v
         | Set_sharelog v \<Rightarrow> charp v
         | Set_rotate v \<Rightarrow> if cf_ints s v = 0 then Some [] else None
         | _ \<Rightarrow> Some [])"

definition newline :: string where
  "newline = [CHR 0x0A]"

definition tabs :: "nat \<Rightarrow> string" where
  "tabs n = replicate n (CHR 0x09)"

definition write_member :: "string \<Rightarrow> string \<Rightarrow> string" where
  "write_member name val = newline @ tabs 2 @ quoted_text name @ '' : '' @ quoted_text val"

text \<open>An entry of the list of pools; \<open>json_escape\<close> of a null pointer is a fault.\<close>

definition write_pool :: "nat \<Rightarrow> pool_details \<Rightarrow> int \<Rightarrow> string option" where
  "write_pool i d q =
     (case (rpc_url d, rpc_user d, rpc_pass d) of
        (Some url, Some user, Some pass) \<Rightarrow>
          let proxy = (case rpc_proxy d of None \<Rightarrow> [] | Some x \<Rightarrow> json_escape (proxytype (rpc_proxytype d)) @ json_escape x @ ''|'');
              first = (if q \<noteq> 1 then write_member ''quota'' (proxy @ int_text q @ '';'' @ json_escape url)
                       else write_member ''url'' (proxy @ json_escape url))
          in Some ((if i > 0 then '','' else []) @ newline @ tabs 1 @ ''{'' @ first @ '','' @
               write_member ''user'' (json_escape user) @ '','' @ write_member ''pass'' (json_escape pass) @ newline @ tabs 1 @ ''}'')
      | _ \<Rightarrow> None)"

text \<open>The texts one after the other, unless one is a fault.\<close>

fun write_all :: "string option list \<Rightarrow> string option" where
  "write_all [] = Some []"
| "write_all (None # ts) = None"
| "write_all (Some t # ts) = map_option ((@) t) (write_all ts)"

definition write_pools :: "config \<Rightarrow> string option" where
  "write_pools s =
     (let c = cf_control s; ps = conf_pools s
      in write_all (map (\<lambda>i. write_pool i (cs_details c (ps ! i)) (quota (ps_pool (cs_pools c) (ps ! i)))) [0..<length ps]))"

definition write_strategy :: "config \<Rightarrow> string" where
  "write_strategy s =
     (case pool_strategy (cs_pools (cf_control s)) of
        POOL_BALANCE \<Rightarrow> option_line ''balance'' ''true''
      | POOL_LOADBALANCE \<Rightarrow> option_line ''load-balance'' ''true''
      | POOL_ROUNDROBIN \<Rightarrow> option_line ''round-robin'' ''true''
      | POOL_ROTATE \<Rightarrow> option_line ''rotate'' (quoted_text (int_text (cf_ints s ''opt_rotate_period'')))
      | POOL_FAILOVER \<Rightarrow> [])"

definition write_config :: "config \<Rightarrow> string option" where
  "write_config s =
     (case (write_pools s, write_all (map (\<lambda>(opt, name). write_option opt name s) config_names)) of
        (Some ps, Some os) \<Rightarrow>
          Some (''{'' @ newline @ quoted_text ''pools'' @ '' : ['' @ ps @ newline @ '']'' @ newline @ os @ write_strategy s @
            newline @ ''}'' @ newline)
      | _ \<Rightarrow> None)"

section \<open>What saving does\<close>

lemma write_all_None: "write_all ts = None \<longleftrightarrow> None \<in> set ts"
  by (induction ts rule: write_all.induct) auto

lemma write_option_None:
  "write_option opt name s = None \<longleftrightarrow> \<not> op_hidden opt \<and> (\<exists>v. op_cb opt = Set_rotate v \<and> cf_ints s v \<noteq> 0)"
  by (cases "op_cb opt") (simp_all add: write_option_def Let_def)

lemma write_pool_None: "write_pool i d q = None \<longleftrightarrow> rpc_url d = None \<or> rpc_user d = None \<or> rpc_pass d = None"
  by (auto simp: write_pool_def Let_def split: option.splits)

lemma rotate_names:
  "filter (\<lambda>(opt, name). \<exists>v. op_cb opt = Set_rotate v) config_names =
     [(opt_entry ''--rotate'' OPT_HASARG (Set_rotate ''opt_rotate_period'') False, ''rotate'')]"
  unfolding config_names_def opt_config_table_def long_names_def opt_entry_def by simp

lemma rotate_option: "(opt, name) \<in> set config_names \<and> op_cb opt = Set_rotate v \<longleftrightarrow>
   (opt, name) = (opt_entry ''--rotate'' OPT_HASARG (Set_rotate ''opt_rotate_period'') False, ''rotate'') \<and> v = ''opt_rotate_period''"
  (is "?l \<longleftrightarrow> ?r")
proof -
  have "?l \<longleftrightarrow> (opt, name) \<in> set (filter (\<lambda>(opt, name). \<exists>v. op_cb opt = Set_rotate v) config_names) \<and> op_cb opt = Set_rotate v"
    by auto
  then show ?thesis unfolding rotate_names by (auto simp: opt_entry_def)
qed

lemma write_config_None:
  "write_config s = None \<longleftrightarrow>
     cf_ints s ''opt_rotate_period'' \<noteq> 0 \<or>
     (\<exists>a \<in> set (conf_pools s). rpc_url (cs_details (cf_control s) a) = None \<or> rpc_user (cs_details (cf_control s) a) = None \<or>
        rpc_pass (cs_details (cf_control s) a) = None)"
proof -
  have "write_all (map (\<lambda>(opt, name). write_option opt name s) config_names) = None \<longleftrightarrow>
      (\<exists>(opt, name) \<in> set config_names. write_option opt name s = None)"
    unfolding write_all_None by (force simp: image_iff)
  also have "\<dots> \<longleftrightarrow> (\<exists>opt name v. ((opt, name) \<in> set config_names \<and> op_cb opt = Set_rotate v) \<and> \<not> op_hidden opt \<and> cf_ints s v \<noteq> 0)"
    by (auto simp: write_option_None)
  also have "\<dots> \<longleftrightarrow> cf_ints s ''opt_rotate_period'' \<noteq> 0"
    unfolding rotate_option by (simp add: opt_entry_def)
  finally have "write_all (map (\<lambda>(opt, name). write_option opt name s) config_names) = None \<longleftrightarrow> cf_ints s ''opt_rotate_period'' \<noteq> 0" .
  moreover have "write_pools s = None \<longleftrightarrow> (\<exists>a \<in> set (conf_pools s). rpc_url (cs_details (cf_control s) a) = None \<or> rpc_user (cs_details (cf_control s) a) = None \<or> rpc_pass (cs_details (cf_control s) a) = None)"
    unfolding write_pools_def Let_def write_all_None
    by (simp add: image_iff eq_commute [of None] write_pool_None in_set_conv_nth Bex_def) blast
  ultimately show ?thesis by (auto simp: write_config_def split: option.splits)
qed

text \<open>C0: saving the configuration faults exactly when some pool lacks its address, user or password or
  when the miner has been told to rotate its pools: the option \<open>rotate\<close> is not among those that are
  written as numbers, so its period is taken for the address of a string.\<close>

theorem saving_rotation_faults:
  "write_config s = None \<longleftrightarrow>
     cf_ints s ''opt_rotate_period'' \<noteq> 0 \<or>
     (\<exists>a \<in> set (conf_pools s). rpc_url (cs_details (cf_control s) a) = None \<or> rpc_user (cs_details (cf_control s) a) = None \<or>
        rpc_pass (cs_details (cf_control s) a) = None)"
  by (rule write_config_None)

section \<open>Includes\<close>

text \<open>A run over the depth of calls: from some depth on it gives a result, and the count of files is then at least \<open>k\<close>.\<close>

definition over :: "nat \<Rightarrow> run \<Rightarrow> bool" where
  "over k r \<longleftrightarrow> r = Faults \<or> (\<exists>e s. r = Returns e s \<and> k \<le> include_count s)"

definition ends :: "nat \<Rightarrow> (nat \<Rightarrow> run) \<Rightarrow> bool" where
  "ends k f \<longleftrightarrow> (\<exists>n r. over k r \<and> (\<forall>m\<ge>n. f m = r))"

lemma endsI: "over k r \<Longrightarrow> ends k (\<lambda>m. r)" by (auto simp: ends_def)

lemma over_Returns: "k \<le> include_count s \<Longrightarrow> over k (Returns e s)" by (simp add: over_def)

lemma over_Faults: "over k Faults" by (simp add: over_def)

lemma ends_then:
  assumes "ends k f" and g: "\<And>e s. k \<le> include_count s \<Longrightarrow> ends k (g e s)"
    and h: "\<And>m. h m = (case f m of Returns e s \<Rightarrow> g e s m | r \<Rightarrow> r)"
  shows "ends k h"
proof -
  obtain n r where r: "over k r" "\<And>m. m \<ge> n \<Longrightarrow> f m = r" using assms(1) by (auto simp: ends_def)
  show ?thesis
  proof (cases r)
    case (Returns e s)
    then have "ends k (g e s)" using r(1) g by (simp add: over_def)
    then obtain n' r' where "over k r'" "\<And>m. m \<ge> n' \<Longrightarrow> g e s m = r'" by (auto simp: ends_def)
    then show ?thesis using r(2) Returns by (auto simp: ends_def h intro!: exI [of _ "max n n'"] exI [of _ r'])
  next
    case Faults
    then show ?thesis using r by (auto simp: ends_def h intro!: exI [of _ n] exI [of _ r])
  qed (use r(1) in \<open>simp add: over_def\<close>)
qed

lemma over_Suc: "over (Suc k) r \<Longrightarrow> over k r"
  by (auto simp: over_def)

lemma ends_Suc: "ends (Suc k) f \<Longrightarrow> ends k f"
  unfolding ends_def by (blast dest: over_Suc)

lemma ends_shift: "ends k (\<lambda>m. f (Suc m)) \<Longrightarrow> ends k f"
  unfolding ends_def by (metis Suc_le_D Suc_le_mono)

lemma cb_arg_count: "cb_arg cb arg s = Some (e, s') \<Longrightarrow> include_count s' = include_count s"
  by (cases cb)
    (auto simp: cb_arg_def set_url_def set_quota_def set_user_def set_pass_def set_userpass_def add_url_def nth_pool_def conf_add_pool_def
      conf_setup_url_def conf_details_def on_control_def set_int_range_def set_strategy_def Let_def
      split: option.splits if_splits prod.splits)

lemma cb_noarg_count: "include_count (cb_noarg cb s) = include_count s"
  by (cases cb) (simp_all add: cb_noarg_def set_strategy_def on_control_def)

lemma parse_values_ends:
  assumes "\<And>j s. j \<in> set js \<Longrightarrow> k \<le> include_count s \<Longrightarrow> ends k (\<lambda>m. rec m j s)" "k \<le> include_count s"
  shows "ends k (\<lambda>m. parse_values (rec m) cb js s)"
  using assms
proof (induction js arbitrary: s)
  case Nil
  then show ?case by (simp add: endsI over_Returns)
next
  case (Cons j js)
  have "ends k (\<lambda>m. (case j of
              JString b \<Rightarrow> (case cb_arg cb (text_of b) s of None \<Rightarrow> Faults | Some (e, s) \<Rightarrow> Returns e s)
            | JObject kvs \<Rightarrow> rec m j s
            | _ \<Rightarrow> Returns None s))" (is "ends k ?f")
    using Cons.prems by (cases j) (auto simp: over_Returns over_Faults cb_arg_count intro!: endsI split: option.split)
  then show ?case
  proof (rule ends_then [where g = "\<lambda>e s m. case e of None \<Rightarrow> parse_values (rec m) cb js s | Some x \<Rightarrow> Returns e s"])
    show "ends k (\<lambda>m. case e of None \<Rightarrow> parse_values (rec m) cb js s | Some x \<Rightarrow> Returns e s)" if "k \<le> include_count s" for e s
      using Cons.IH [OF _ that] Cons.prems(1) that by (cases e) (simp_all add: endsI over_Returns)
  qed (simp split: run.split option.split)
qed

lemma json_object_get_size: "json_object_get (Some config) name = Some val \<Longrightarrow> size val < size config"
proof (cases config)
  case (JObject kvs)
  assume "json_object_get (Some config) name = Some val"
  then have "(name, val) \<in> set kvs" using JObject by (simp add: map_of_SomeD)
  then have "size_prod (\<lambda>x. 0) size (name, val) \<le> size_list (size_prod (\<lambda>x. 0) size) kvs"
    by (intro size_list_estimation') auto
  then show ?thesis using JObject by simp
qed simp_all

lemma element_size: "j \<in> set js \<Longrightarrow> size j < size (JArray js)"
  by (induction js) auto

text \<open>What lies below a configuration, and the states the runs of its parts start from.\<close>

definition below_ends :: "nat \<Rightarrow> (nat \<Rightarrow> json \<Rightarrow> config \<Rightarrow> run) \<Rightarrow> json \<Rightarrow> bool" where
  "below_ends k rec config \<longleftrightarrow> (\<forall>j s. size j < size config \<longrightarrow> k \<le> include_count s \<longrightarrow> ends k (\<lambda>m. rec m j s))"

lemma parse_option_ends:
  assumes "below_ends k rec val" "k \<le> include_count s"
  shows "ends k (\<lambda>m. parse_option (rec m) opt val s)"
proof (cases "op_type opt \<noteq> OPT_NOARG \<and> (\<exists>js. val = JArray js)")
  case True
  then obtain js where "val = JArray js" by blast
  then have "ends k (\<lambda>m. parse_values (rec m) (op_cb opt) js s)"
    using assms element_size by (intro parse_values_ends) (auto simp: below_ends_def)
  then show ?thesis using True \<open>val = JArray js\<close> by (simp add: parse_option_def)
next
  case False
  then show ?thesis using assms(2)
    by (cases val; cases "op_type opt = OPT_NOARG")
      (auto simp: parse_option_def over_Returns over_Faults cb_arg_count cb_noarg_count intro!: endsI split: option.split)
qed

lemma parse_names_ends:
  assumes "below_ends k rec config" "k \<le> include_count s"
  shows "ends k (\<lambda>m. parse_names (rec m) fileconf config ns s)"
  using assms(2)
proof (induction ns arbitrary: s)
  case Nil
  then show ?case by (simp add: endsI over_Returns)
next
  case (Cons n ns)
  obtain opt name where n: "n = (opt, name)" by fastforce
  show ?case
  proof (cases "json_object_get (Some config) name")
    case None
    then show ?thesis using Cons n by simp
  next
    case (Some val)
    let ?g = "\<lambda>e s m. case e of None \<Rightarrow> parse_names (rec m) fileconf config ns s
      | Some err \<Rightarrow> if fileconf then parse_names (rec m) fileconf config ns (s\<lparr>fileconf_load := - 1\<rparr>)
                    else Returns (Some (take 199 (''Parsing JSON option --'' @ name @ '': '' @ err))) s"
    have "below_ends k rec val" using assms(1) json_object_get_size [OF Some] by (auto simp: below_ends_def)
    then have "ends k (\<lambda>m. parse_option (rec m) opt val s)" using Cons.prems by (rule parse_option_ends)
    then show ?thesis
    proof (rule ends_then [where g = ?g])
      show "ends k (?g e s)" if "k \<le> include_count s" for e s
        using Cons.IH [OF that] Cons.IH [of "s\<lparr>fileconf_load := - 1\<rparr>"] that
        by (cases e; cases fileconf) (simp_all add: endsI over_Returns)
    qed (simp add: n Some split: run.split option.split)
  qed
qed

lemma parse_level_ends:
  assumes "below_ends k rec config" "\<And>arg s. k \<le> include_count s \<Longrightarrow> ends k (\<lambda>m. load m arg s)" "k \<le> include_count s"
  shows "ends k (\<lambda>m. parse_level (rec m) (load m) config fileconf s)"
proof -
  let ?g = "\<lambda>e s m. if e \<noteq> None then Returns e s else case json_object_get (Some config) ''include'' of
                Some (JString b) \<Rightarrow> load m (text_of b) s
              | _ \<Rightarrow> Returns None s"
  have "k \<le> include_count (if fileconf \<and> fileconf_load s = 0 then s\<lparr>fileconf_load := 1\<rparr> else s)" using assms(3) by simp
  from parse_names_ends [OF assms(1) this, of fileconf config_names] show ?thesis
  proof (rule ends_then [where g = ?g])
    show "ends k (?g e s)" if "k \<le> include_count s" for e s
    proof (cases "e = None \<and> (\<exists>b. json_object_get (Some config) ''include'' = Some (JString b))")
      case True
      then show ?thesis using assms(2) [OF that] by auto
    next
      case False
      then have "?g e s = (\<lambda>m. Returns e s)" by (auto split: option.split json.split)
      then show ?thesis using that by (simp add: endsI over_Returns)
    qed
  qed (simp add: parse_level_def split: run.split option.split)
qed

text \<open>Each file counts, so the files end the depth that the objects within one do not.\<close>

definition no_pages :: "conf_env \<Rightarrow> bool" where
  "no_pages env \<longleftrightarrow> (\<forall>a kvs. ev_web env a \<noteq> Some (JObject kvs))"

lemma load_config_ends:
  assumes "no_pages env" "k \<le> include_count s"
    and "\<And>kvs s. k < 10 \<Longrightarrow> Suc k \<le> include_count s \<Longrightarrow> ends (Suc k) (\<lambda>n. parse_config n env (JObject kvs) True s)"
  shows "ends k (\<lambda>n. load_config env (parse_config n env) arg s)"
proof -
  consider kvs where "\<not> is_web arg" "include_count s < 10"
        "Option.bind (ev_file env arg) (json_loadf (ev_strtod env)) = Some (JObject kvs)"
    | "is_web arg"
    | "\<not> is_web arg" "\<And>kvs. include_count s < 10 \<Longrightarrow> Option.bind (ev_file env arg) (json_loadf (ev_strtod env)) \<noteq> Some (JObject kvs)"
    by blast
  then show ?thesis
  proof cases
    case 1
    then show ?thesis using ends_Suc [OF assms(3)] assms(2) by (simp add: load_config_def Let_def)
  next
    case 2
    then have "load_config env (parse_config n env) arg s = Returns (Some ''WEB config err'') s" for n
      using assms(1) by (cases "ev_web env arg"; cases "the (ev_web env arg)") (auto simp: load_config_def no_pages_def)
    then show ?thesis using assms(2) by (simp add: endsI over_Returns)
  next
    case 3
    let ?s = "s\<lparr>cnfbuf := (case cnfbuf s of None \<Rightarrow> Some arg | b \<Rightarrow> b), include_count := include_count s + 1\<rparr>"
    have "\<exists>e. \<forall>n. load_config env (parse_config n env) arg s = Returns (Some e) ?s"
    proof (cases "include_count s < 10")
      case True
      then show ?thesis using 3 by (auto simp: load_config_def Let_def split: option.split json.split)
    qed (use 3 in \<open>simp add: load_config_def Let_def\<close>)
    then obtain e where "\<And>n. load_config env (parse_config n env) arg s = Returns (Some e) ?s" by blast
    then show ?thesis using assms(2) by (simp add: endsI over_Returns)
  qed
qed

lemma parse_config_ends:
  assumes "no_pages env"
  shows "k \<le> include_count s \<Longrightarrow> ends k (\<lambda>n. parse_config n env config fileconf s)"
proof (induction "10 - k" arbitrary: k config fileconf s rule: less_induct)
  case (less k)
  note files = less(1)
  show ?case
    using less(2)
  proof (induction "size config" arbitrary: config fileconf s rule: less_induct)
    case (less config)
    have below: "below_ends k (\<lambda>n j. parse_config n env j False) config"
      using less(1) by (simp add: below_ends_def)
    have load: "ends k (\<lambda>n. load_config env (parse_config n env) arg s)" if "k \<le> include_count s" for arg s
      using assms that files by (rule load_config_ends) simp_all
    have "ends k (\<lambda>n. parse_config (Suc n) env config fileconf s)"
      using parse_level_ends [OF below load less(2)] by simp
    then show ?case by (rule ends_shift)
  qed
qed

text \<open>In a file or a page no error of an option ends the reading.\<close>

lemma parse_names_goes_on: "parse_names rec True config ns s \<noteq> Returns (Some err) s'"
  by (induction ns arbitrary: s) (auto split: option.splits run.splits if_splits)

definition web_loop :: "conf_env \<Rightarrow> string set \<Rightarrow> bool" where
  "web_loop env W \<longleftrightarrow> (\<forall>a \<in> W. is_web a \<and>
     (\<exists>j b. ev_web env a = Some j \<and> json_object_get (Some j) ''include'' = Some (JString b) \<and> text_of b \<in> W))"

lemma web_page:
  assumes "web_loop env W" "arg \<in> W"
  obtains kvs b where "is_web arg" "ev_web env arg = Some (JObject kvs)" "map_of kvs ''include'' = Some (JString b)" "text_of b \<in> W"
proof -
  obtain j b where j: "is_web arg" "ev_web env arg = Some j" "json_object_get (Some j) ''include'' = Some (JString b)" "text_of b \<in> W"
    using assms unfolding web_loop_def by blast
  then show ?thesis using that by (cases j) simp_all
qed

text \<open>C0: reading a configuration from files ends, whatever they include: some depth of calls is
  enough, and more changes nothing, because at most ten files are read. But pages are not counted:
  as soon as every page of a set includes one of the set, reading one of them never returns.\<close>

theorem includes_end_unless_web:
  "(no_pages env \<longrightarrow> (\<exists>n r. r \<noteq> Deeper \<and> (\<forall>m\<ge>n. load_config env (parse_config m env) arg s = r))) \<and>
   (web_loop env W \<longrightarrow> arg \<in> W \<longrightarrow> load_config env (parse_config n env) arg s \<noteq> Returns e s')"
proof (intro conjI impI)
  assume "no_pages env"
  then have "ends 0 (\<lambda>n. load_config env (parse_config n env) arg s)"
    by (intro load_config_ends parse_config_ends) simp_all
  then show "\<exists>n r. r \<noteq> Deeper \<and> (\<forall>m\<ge>n. load_config env (parse_config m env) arg s = r)"
    by (auto simp: ends_def over_def)
next
  assume W: "web_loop env W"
    and "arg \<in> W"
  then show "load_config env (parse_config n env) arg s \<noteq> Returns e s'"
  proof (induction n arbitrary: arg s)
    case (Suc n)
    from Suc(2,3) obtain kvs b where j: "is_web arg" "ev_web env arg = Some (JObject kvs)" "map_of kvs ''include'' = Some (JString b)" "text_of b \<in> W"
      by (rule web_page)
    have "load_config env (parse_config n env) (text_of b) s \<noteq> Returns e s'" for s using Suc(1,2) j(4) by blast
    then have "parse_config (Suc n) env (JObject kvs) True s \<noteq> Returns e s'" for s
      using j(3) by (auto simp: parse_level_def parse_names_goes_on split: run.split option.split)
    then show ?case using j(1,2) by (simp add: load_config_def)
  next
    case 0
    from 0 obtain kvs b where "is_web arg" "ev_web env arg = Some (JObject kvs)" by (rule web_page)
    then show ?case by (simp add: load_config_def)
  qed
qed

end
