(* ===== verification/Config_Saved.thy ===== *)
theory Config_Saved
  imports Config
begin

text \<open>
  What a saved configuration says when it is read again: the address of a pool, the text that
  \<open>write_config\<close> makes (a JSON text by the grammar of theory Json_Grammar), and the run of
  \<open>parse_config\<close> on it.
\<close>

section \<open>An address written and read\<close>

definition strip_proxy :: "pool_details \<Rightarrow> pool_details" where
  "strip_proxy d = d\<lparr>rpc_proxy := None, rpc_proxytype := PROXY_HTTP, sockaddr_proxy_url := None, sockaddr_proxy_port := None\<rparr>"

definition url_details :: "pool_details \<Rightarrow> string \<Rightarrow> pool_details option" where
  "url_details p arg =
     (case detect_stratum p arg of
        None \<Rightarrow> None
      | Some (True, p) \<Rightarrow> Some p
      | Some (False, p) \<Rightarrow>
          (let p = p\<lparr>rpc_url := Some arg\<rparr>
           in if \<not> strncmp_eq arg ''http://'' 7 \<and> \<not> strncmp_eq arg ''https://'' 8
              then let httpinput = ''stratum+tcp://'' @ take 242 arg
                   in if length httpinput + 1 > 256 then None
                      else map_option snd (detect_stratum p httpinput)
              else Some p))"

lemma setup_url_details: "setup_url p arg = (case get_proxy arg p of None \<Rightarrow> None | Some (arg, p) \<Rightarrow> url_details p arg)"
  unfolding setup_url_def url_details_def ..

text \<open>Only these fields count: the others are not looked at.\<close>

lemma detect_stratum_again:
  assumes "detect_stratum p url = Some (True, d)"
  shows "rpc_url d = Some url" "strncasecmp_eq url ''stratum+tcp://'' 14"
  using assms by (auto simp: detect_stratum_def Let_def split: option.splits if_splits)

lemma detect_stratum_False:
  assumes "detect_stratum p url = Some (False, d)"
  shows "rpc_url d = rpc_url p" "stratum_pool d = stratum_pool p" "stratum_url d = stratum_url p"
  using assms by (auto simp: detect_stratum_def Let_def split: option.splits if_splits)

lemma extract_sockaddr_port: "extract_sockaddr url = Some (True, a, port) \<Longrightarrow> port \<noteq> None"
  by (auto simp: extract_sockaddr_def Let_def split: prod.splits if_splits)

lemma url_details_again:
  assumes "url_details p arg = Some d" "stratum_url p = None" "\<not> stratum_pool p" "stratum_port p = None"
  shows "\<exists>url. rpc_url d = Some url \<and> url_details p url = Some d \<and>
    (url = arg \<or> url = ''stratum+tcp://'' @ arg)"
proof -
  obtain ok d0 where d0: "detect_stratum p arg = Some (ok, d0)" using assms(1) by (auto simp: url_details_def split: option.splits)
  show ?thesis
  proof (cases ok)
    case True
    then have "d = d0" "rpc_url d0 = Some arg" using assms(1) d0 detect_stratum_again [of p arg d0] by (auto simp: url_details_def)
    then show ?thesis using assms(1) by auto
  next
    case False
    let ?h = "''stratum+tcp://'' @ take 242 arg" and ?p = "d0\<lparr>rpc_url := Some arg\<rparr>"
    show ?thesis
    proof (cases "\<not> strncmp_eq arg ''http://'' 7 \<and> \<not> strncmp_eq arg ''https://'' 8")
      case http: False
      then show ?thesis using assms(1) d0 False by (auto simp: url_details_def Let_def)
    next
      case True
      then obtain ok' where d: "detect_stratum ?p ?h = Some (ok', d)" "length ?h \<le> 255"
        using assms(1) d0 False by (auto simp: url_details_def Let_def split: if_splits)
      then have t: "take 242 arg = arg" by (simp split: if_splits)
      show ?thesis
      proof (cases ok')
        case no: False
        then show ?thesis using assms(1) detect_stratum_False [of ?p ?h d] d by auto
      next
        case yes: True
        obtain a port where e: "extract_sockaddr ?h = Some (True, a, Some port)"
          using d yes extract_sockaddr_port [of ?h] by (auto simp: detect_stratum_def Let_def split: option.splits if_splits)
        have "d0 = p\<lparr>sockaddr_url := sockaddr_url d0, stratum_port := stratum_port d0\<rparr>"
          using d0 False by (auto simp: detect_stratum_def Let_def split: option.splits if_splits)
        then have "d = p\<lparr>sockaddr_url := Some a, stratum_port := Some port, rpc_url := Some ?h, stratum_pool := True, stratum_url := Some a\<rparr>"
          using d e yes by (cases p; cases d0) (auto simp: detect_stratum_def Let_def split: if_splits)
        moreover have "url_details p ?h = Some \<dots>"
          using e by (simp add: url_details_def detect_stratum_def Let_def strncasecmp_eq_def)
        ultimately show ?thesis using t by auto
      qed
    qed
  qed
qed

lemma blank_fields: "stratum_url blank_details = None" "\<not> stratum_pool blank_details" "stratum_port blank_details = None"
    "blank_details\<lparr>rpc_proxy := None\<rparr> = blank_details" "rpc_proxy blank_details = None"
  by (simp_all add: blank_details_def)

lemma detect_stratum_strip:
  "detect_stratum (strip_proxy p) arg = map_option (\<lambda>(b, d). (b, strip_proxy d)) (detect_stratum p arg)"
  by (simp add: detect_stratum_def strip_proxy_def Let_def split: option.split prod.split)

lemma url_details_strip: "url_details (strip_proxy p) arg = map_option strip_proxy (url_details p arg)"
proof -
  have s: "(strip_proxy q)\<lparr>rpc_url := u\<rparr> = strip_proxy (q\<lparr>rpc_url := u\<rparr>)" for q u by (simp add: strip_proxy_def)
  show ?thesis
    by (cases "detect_stratum p arg")
      (auto simp: url_details_def detect_stratum_strip s Let_def option.map_comp o_def case_prod_unfold split: bool.split)
qed

lemma url_details_proxy:
  assumes "url_details p arg = Some d"
  shows "rpc_proxy d = rpc_proxy p" "rpc_proxytype d = rpc_proxytype p"
proof -
  have "rpc_proxy q = rpc_proxy p" "rpc_proxytype q = rpc_proxytype p" if "detect_stratum p u = Some (b, q)" for p u b q
    using that by (auto simp: detect_stratum_def Let_def split: option.splits if_splits)
  then show "rpc_proxy d = rpc_proxy p" "rpc_proxytype d = rpc_proxytype p"
    using assms by (auto simp: url_details_def Let_def split: option.splits bool.splits if_splits; fastforce)+
qed

lemma find_name:
  assumes "(name, t) \<in> set proxynames"
  shows "find (\<lambda>(n, _). strncmp_eq (name @ r) n (length n)) proxynames = Some (name, t)"
    and "proxytype t = name" and "CHR ''|'' \<notin> set name" and "CHR '';'' \<notin> set name"
proof -
  have "name = ''http:'' \<and> t = PROXY_HTTP \<or> name = ''http0:'' \<and> t = PROXY_HTTP_1_0 \<or> name = ''socks4:'' \<and> t = PROXY_SOCKS4 \<or>
      name = ''socks5:'' \<and> t = PROXY_SOCKS5 \<or> name = ''socks4a:'' \<and> t = PROXY_SOCKS4A \<or> name = ''socks5h:'' \<and> t = PROXY_SOCKS5H"
    using assms by (simp add: proxynames_def)
  then show "find (\<lambda>(n, _). strncmp_eq (name @ r) n (length n)) proxynames = Some (name, t)"
    and "proxytype t = name" and "CHR ''|'' \<notin> set name" and "CHR '';'' \<notin> set name"
    by (elim disjE conjE; simp add: proxynames_def strncmp_eq_def proxytype_def)+
qed

lemma find_none: "find (\<lambda>(n, _). strncmp_eq (''stratum+tcp://'' @ r) n (length n)) proxynames = None"
  by (simp add: proxynames_def strncmp_eq_def)

lemma get_proxy_none: "CHR ''|'' \<notin> set url \<Longrightarrow> get_proxy url p = Some (url, p\<lparr>rpc_proxy := None\<rparr>)"
  using strstr_char_None [of url "CHR ''|''"] by (simp add: get_proxy_def Let_def strchr_def split: option.split)

lemma strchr_split: "strchr s c = Some i \<Longrightarrow> c \<notin> set (take i s) \<and> s = take i s @ c # drop (i + 1) s"
  unfolding strchr_def
proof (induction s arbitrary: i)
  case (Cons a s)
  then show ?case by (cases i) (auto split: if_splits)
qed simp

lemma setup_url_again:
  assumes "setup_url blank_details arg = Some d"
  obtains url where "rpc_url d = Some url"
    and "rpc_proxy d = None \<Longrightarrow> setup_url blank_details url = Some d"
    and "\<And>x. rpc_proxy d = Some x \<Longrightarrow> setup_url blank_details (proxytype (rpc_proxytype d) @ x @ ''|'' @ url) = Some d"
    and "CHR ''|'' \<notin> set url \<Longrightarrow> setup_url blank_details url = Some (strip_proxy d)"
    and "set url \<subseteq> set (''stratum+tcp://'' @ arg)" and "\<And>x. rpc_proxy d = Some x \<Longrightarrow> set x \<subseteq> set arg"
proof -
  obtain u0 p where g: "get_proxy arg blank_details = Some (u0, p)" "url_details p u0 = Some d"
    using assms by (auto simp: setup_url_details split: option.splits)
  have "stratum_url p = None" "\<not> stratum_pool p" "stratum_port p = None" and b: "strip_proxy p = blank_details"
    using g(1) by (auto simp: get_proxy_def Let_def blank_details_def strip_proxy_def split: option.splits)
  then obtain url where url: "rpc_url d = Some url" "url_details p url = Some d" "url = u0 \<or> url = ''stratum+tcp://'' @ u0"
    using url_details_again [OF g(2)] by blast
  note keep = url_details_proxy [OF g(2)]
  show ?thesis
  proof (rule that [OF url(1)])
    assume "CHR ''|'' \<notin> set url"
    moreover have "url_details blank_details url = Some (strip_proxy d)" using url_details_strip [of p url] url(2) b by simp
    ultimately show "setup_url blank_details url = Some (strip_proxy d)"
      by (simp add: setup_url_details get_proxy_none blank_fields)
  next
    have "set u0 \<subseteq> set arg"
      using g(1) set_drop_subset by (fastforce simp: get_proxy_def Let_def split: option.splits)
    then show "set url \<subseteq> set (''stratum+tcp://'' @ arg)" using url(3) by auto
  next
    fix x
    assume "rpc_proxy d = Some x"
    then have "x \<in> {drop k (take m arg) | k m. True}"
      using g(1) keep by (auto simp: get_proxy_def Let_def blank_fields split: option.splits; blast)
    then show "set x \<subseteq> set arg" by (auto dest: in_set_dropD in_set_takeD)
  next
    assume none: "rpc_proxy d = None"
    then have p: "u0 = arg" "p = blank_details"
      using g(1) keep by (auto simp: get_proxy_def Let_def blank_fields split: option.splits)
    have "get_proxy url blank_details = Some (url, blank_details)"
      using url(3)
    proof
      assume "url = u0"
      then show ?thesis using g(1) p by simp
    next
      assume u: "url = ''stratum+tcp://'' @ u0"
      show ?thesis unfolding u get_proxy_def find_none Let_def by (simp add: blank_fields)
    qed
    then show "setup_url blank_details url = Some d" using url(2) p by (simp add: setup_url_details)
  next
    fix x
    assume x: "rpc_proxy d = Some x"
    obtain name t split where n: "find (\<lambda>(name, _). strncmp_eq arg name (length name)) proxynames = Some (name, t)"
        "strchr arg (CHR ''|'') = Some split" "x = drop (length name) (take split arg)" "rpc_proxytype p = t"
      using g(1) x keep by (auto simp: get_proxy_def Let_def blank_fields split: option.splits)
    then have "(name, t) \<in> set proxynames" by (metis find_Some_iff nth_mem)
    note nm = find_name(1) [OF this, of "x @ CHR ''|'' # url"] find_name(2-4) [OF this]
    have "CHR ''|'' \<notin> set x" using strchr_split [OF n(2)] n(3) by (auto dest: in_set_dropD)
    then have s: "strchr (name @ x @ ''|'' @ url) (CHR ''|'') = Some (length (name @ x))"
      using nm(3) strstr_char_first [of "CHR ''|''" "name @ x" url] by (simp add: strchr_def)
    have "get_proxy (name @ x @ ''|'' @ url) blank_details = Some (url, p)"
      using nm(1) s g(1) n by (auto simp: get_proxy_def Let_def split: option.splits)
    then show "setup_url blank_details (proxytype (rpc_proxytype d) @ x @ ''|'' @ url) = Some d"
      using nm(2) n(4) keep url(2) by (simp add: setup_url_details)
  qed
qed


text \<open>The user and the password do not matter.\<close>

lemma setup_url_pass: "setup_url (p\<lparr>rpc_pass := x\<rparr>) arg = map_option (\<lambda>d. d\<lparr>rpc_pass := x\<rparr>) (setup_url p arg)"
proof -
  have d: "detect_stratum (p\<lparr>rpc_pass := x\<rparr>) u = map_option (\<lambda>(b, d). (b, d\<lparr>rpc_pass := x\<rparr>)) (detect_stratum p u)" for p u
    by (simp add: detect_stratum_def Let_def split: option.split prod.split)
  have s: "q\<lparr>rpc_pass := x\<rparr>\<lparr>rpc_url := u\<rparr> = q\<lparr>rpc_url := u\<rparr>\<lparr>rpc_pass := x\<rparr>" for q :: pool_details and u by simp
  have u: "url_details (p\<lparr>rpc_pass := x\<rparr>) u = map_option (\<lambda>d. d\<lparr>rpc_pass := x\<rparr>) (url_details p u)" for p u
    by (cases "detect_stratum p u")
      (auto simp: url_details_def d s Let_def option.map_comp o_def case_prod_unfold simp del: pool_details.ext_inject split: bool.split)
  have "get_proxy arg (p\<lparr>rpc_pass := x\<rparr>) = map_option (\<lambda>(u, d). (u, d\<lparr>rpc_pass := x\<rparr>)) (get_proxy arg p)"
    by (simp add: get_proxy_def Let_def split: option.split prod.split)
  then show ?thesis by (cases "get_proxy arg p") (auto simp: setup_url_details u)
qed

section \<open>The text that is written\<close>

definition printable :: "string \<Rightarrow> bool" where
  "printable s \<longleftrightarrow> list_all (\<lambda>c. (32 :: nat) \<le> of_char c \<and> (of_char c :: nat) < 127) s"

lemma printable_append: "printable (a @ b) \<longleftrightarrow> printable a \<and> printable b" and printable_Nil: "printable []"
  and printable_Cons: "printable (c # s) \<longleftrightarrow> (32 :: nat) \<le> of_char c \<and> (of_char c :: nat) < 127 \<and> printable s"
  by (simp_all add: printable_def conj_assoc)

lemma chars_append: "chars (a @ b) = chars a @ chars b" and chars_Cons: "chars (c # s) = of_nat (of_char c) # chars s"
  and chars_Nil: "chars [] = []"
  by (simp_all add: chars_def)

lemma byte_of_char:
  assumes "(of_char c :: nat) < 127"
  shows "n \<le> (of_nat (of_char c) :: u8) \<longleftrightarrow> unat n \<le> of_char c" "(of_nat (of_char c) :: u8) = n \<longleftrightarrow> of_char c = unat n"
    "(of_nat (of_char c) :: u8) \<le> n \<longleftrightarrow> of_char c \<le> unat n" "(of_nat (of_char c) :: u8) < n \<longleftrightarrow> of_char c < unat n"
proof -
  have "unat (of_nat (of_char c) :: u8) = of_char c" using assms by (simp add: unat_of_nat take_bit_eq_mod)
  then show "n \<le> (of_nat (of_char c) :: u8) \<longleftrightarrow> unat n \<le> of_char c" "(of_nat (of_char c) :: u8) = n \<longleftrightarrow> of_char c = unat n"
    "(of_nat (of_char c) :: u8) \<le> n \<longleftrightarrow> of_char c \<le> unat n" "(of_nat (of_char c) :: u8) < n \<longleftrightarrow> of_char c < unat n"
    by (simp_all add: word_le_nat_alt word_less_nat_alt word_unat_eq_iff)
qed

lemma char_code: "c = CHR 0x22 \<longleftrightarrow> of_char c = (34 :: nat)" "c = CHR 0x5C \<longleftrightarrow> of_char c = (92 :: nat)"
  using of_char_eq_iff [where ?'a = nat, of c "CHR 0x22"] of_char_eq_iff [where ?'a = nat, of c "CHR 0x5C"] by simp_all

lemma json_escape_text: "printable s \<Longrightarrow> string_text (chars (json_escape s)) (chars s)"
proof (induction s)
  case (Cons c s)
  then have c: "(32 :: nat) \<le> of_char c" "(of_char c :: nat) < 127" and s: "string_text (chars (json_escape s)) (chars s)"
    by (simp_all add: printable_Cons)
  note b = byte_of_char [OF c(2)]
  show ?case
  proof (cases "c = CHR 0x22 \<or> c = CHR 0x5C")
    case True
    then have "short_escape (of_nat (of_char c))" "short_value (of_nat (of_char c)) = of_nat (of_char c)"
      by (auto simp: short_escape_def short_value_def)
    then show ?thesis using string_short [OF s, of "of_nat (of_char c)"] True by (auto simp: chars_Cons)
  next
    case False
    then show ?thesis using string_plain [OF s, of "of_nat (of_char c)"] c by (simp add: chars_Cons b char_code)
  qed
qed (simp add: chars_Nil string_Nil)

lemmas chars_simps = chars_append chars_Cons chars_Nil

definition json_plain :: "string \<Rightarrow> bool" where
  "json_plain n \<longleftrightarrow> printable n \<and> json_escape n = n"

definition blank :: "string \<Rightarrow> bool" where
  "blank w \<longleftrightarrow> is_ws (chars w)"

lemma blank_append: "blank (a @ b) \<longleftrightarrow> blank a \<and> blank b"
  by (simp add: blank_def is_ws_def chars_append)

lemma blank_consts: "blank []" "blank newline" "blank (tabs n)" "blank '' ''"
  by (simp_all add: blank_def is_ws_def chars_def newline_def tabs_def is_space_def list_all_iff)

lemma quoted_value: "printable s \<Longrightarrow> value_text strtod (chars (quoted_text (json_escape s))) (jstring s)"
  using text_string [OF json_escape_text [of s], of strtod] by (simp add: quoted_text_def jstring_def chars_simps)

lemma name_text: "json_plain n \<Longrightarrow> string_text (chars n) (chars n)"
  using json_escape_text [of n] by (simp add: json_plain_def)

lemma member_end:
  assumes "json_plain n" "value_text strtod (chars v) j" "blank w" "blank d"
  shows "members_text strtod (chars (w @ quoted_text n @ '' : '' @ v @ d)) [(n, j)]"
  using text_member [of "chars w" "chars n" "chars n" "[0x20]" "[0x20]" strtod "chars v" j "chars d"] assms name_text [of n]
  by (simp add: blank_def chars_simps quoted_text_def text_of_chars is_ws_def is_space_def)

lemma member_more:
  assumes "json_plain n" "value_text strtod (chars v) j" "blank w" "blank d" "members_text strtod (chars u) ps"
  shows "members_text strtod (chars (w @ quoted_text n @ '' : '' @ v @ d @ '','' @ u)) ((n, j) # ps)"
  using text_members [of "chars w" "chars n" "chars n" "[0x20]" "[0x20]" strtod "chars v" j "chars d" "chars u" ps] assms name_text [of n]
  by (simp add: blank_def chars_simps quoted_text_def text_of_chars is_ws_def is_space_def)

definition ascii :: "string \<Rightarrow> bool" where
  "ascii s \<longleftrightarrow> list_all (\<lambda>c. (0 :: nat) < of_char c \<and> (of_char c :: nat) < 127) s"

lemma ascii_append: "ascii (a @ b) \<longleftrightarrow> ascii a \<and> ascii b" and ascii_Nil: "ascii []"
  and ascii_Cons: "ascii (c # s) \<longleftrightarrow> (0 :: nat) < of_char c \<and> (of_char c :: nat) < 127 \<and> ascii s"
  by (simp_all add: ascii_def conj_assoc)

lemma ascii_bytes: "ascii s \<Longrightarrow> utf8_check_string (chars s) \<and> 0 \<notin> set (chars s)"
proof (induction s)
  case (Cons c s)
  then have c: "(0 :: nat) < of_char c" "(of_char c :: nat) < 127" by (simp_all add: ascii_Cons)
  then have "utf8_check_first (of_nat (of_char c)) = 1" by (simp add: utf8_check_first_def byte_of_char)
  then show ?case using Cons c by (simp add: ascii_Cons chars_Cons byte_of_char [OF c(2)] Let_def eq_commute [of 0])
qed (simp add: chars_Nil)

lemma printable_ascii: "printable s \<Longrightarrow> ascii s \<and> ascii (json_escape s)"
  by (induction s) (auto simp: printable_Cons ascii_Cons ascii_Nil)

text \<open>A name, the text of its value, and the value.\<close>

definition line_ok :: "(u8 list \<Rightarrow> dbl option) \<Rightarrow> string \<times> string \<times> json \<Rightarrow> bool" where
  "line_ok strtod l \<longleftrightarrow> (case l of (n, v, j) \<Rightarrow> json_plain n \<and> ascii v \<and> value_text strtod (chars v) j)"

abbreviation lines_of :: "(string \<times> string \<times> json) list \<Rightarrow> string" where
  "lines_of L \<equiv> concat (map (\<lambda>(n, v, j). option_line n v) L)"

lemma lines_text:
  assumes "line_ok strtod (n, v, j)" "list_all (line_ok strtod) L" "blank w" "blank d"
  shows "members_text strtod (chars (w @ quoted_text n @ '' : '' @ v @ d @ lines_of L @ newline)) ((n, j) # map (\<lambda>(n, v, j). (n, j)) L)"
  using assms
proof (induction L arbitrary: n v j w d)
  case Nil
  then show ?case using member_end [of n strtod v j w "d @ newline"] by (simp add: line_ok_def blank_consts blank_append)
next
  case (Cons l L)
  obtain n' v' j' where l: "l = (n', v', j')" by (cases l)
  have "members_text strtod (chars (newline @ quoted_text n' @ '' : '' @ v' @ [] @ lines_of L @ newline)) ((n', j') # map (\<lambda>(n, v, j). (n, j)) L)"
    by (rule Cons.IH) (use Cons.prems l in \<open>simp_all add: blank_consts blank_append\<close>)
  from member_more [OF _ _ _ _ this, of n v j w d] show ?case
    using Cons.prems l by (simp add: line_ok_def option_line_def newline_def)
qed

text \<open>A list of values, each on a line of its own.\<close>

lemma objects_text:
  assumes "list_all (\<lambda>(t, j). value_text strtod (chars t) j) ((t, j) # L)"
  shows "elements_text strtod (chars (newline @ tabs 1 @ t @ concat (map (\<lambda>(t, j). '','' @ newline @ tabs 1 @ t) L) @ newline)) (j # map snd L)"
  using assms
proof (induction L arbitrary: t j)
  case Nil
  moreover have "blank (newline @ tabs 1)" by (simp add: blank_append blank_consts)
  ultimately show ?case using text_element [of "chars (newline @ tabs 1)" strtod "chars t" j "chars newline"] blank_consts
    by (simp add: chars_append blank_def)
next
  case (Cons l L)
  obtain t' j' where l: "l = (t', j')" by fastforce
  have "elements_text strtod (chars (newline @ tabs 1 @ t' @ concat (map (\<lambda>(t, j). '','' @ newline @ tabs 1 @ t) L) @ newline)) (j' # map snd L)"
    by (rule Cons.IH) (use Cons.prems l in simp)
  moreover have "blank (newline @ tabs 1)" by (simp add: blank_append blank_consts)
  ultimately show ?case using text_elements [of "chars (newline @ tabs 1)" strtod "chars t" j "[]"] Cons.prems l
    by (simp add: chars_simps blank_def is_ws_def)
qed

lemma escape_append: "json_escape (a @ b) = json_escape a @ json_escape b"
  by (induction a) simp_all

lemma digits_printable: "\<forall>x \<in> set s. isdigit x \<Longrightarrow> printable s \<and> json_escape s = s"
proof (induction s)
  case (Cons c s)
  then have "(48 :: nat) \<le> of_char c" "(of_char c :: nat) \<le> 57" by (simp_all add: isdigit_def)
  then show ?case using Cons by (auto simp: printable_Cons)
qed (simp add: printable_Nil)

lemma int_text_plain: "json_plain (int_text i)"
  using digits_printable [of "decimal (nat (- i))"] digits_printable [of "decimal (nat i)"] decimal_digits
  by (auto simp: json_plain_def int_text_def printable_Cons)

lemma printable_consts: "printable (proxytype t)" "json_escape (proxytype t) = proxytype t"
  by (cases t; simp add: printable_def proxytype_def proxynames_def)+


text \<open>The entry of a pool: its address or quota, its user and its password.\<close>

definition pool_arg :: "pool_details \<Rightarrow> int \<Rightarrow> string" where
  "pool_arg d q = (case rpc_proxy d of None \<Rightarrow> [] | Some x \<Rightarrow> proxytype (rpc_proxytype d) @ x @ ''|'') @
     (if q \<noteq> 1 then int_text q @ '';'' else []) @ the (rpc_url d)"

definition pool_json :: "pool_details \<Rightarrow> int \<Rightarrow> json" where
  "pool_json d q = JObject [(if q \<noteq> 1 then ''quota'' else ''url'', jstring (pool_arg d q)),
     (''user'', jstring (the (rpc_user d))), (''pass'', jstring (the (rpc_pass d)))]"

definition writable :: "pool_details \<Rightarrow> bool" where
  "writable d \<longleftrightarrow> (\<exists>url user pass. rpc_url d = Some url \<and> rpc_user d = Some user \<and> rpc_pass d = Some pass \<and>
     printable url \<and> printable user \<and> printable pass \<and> (\<forall>x. rpc_proxy d = Some x \<longrightarrow> printable x))"

lemma pool_arg_printable: "writable d \<Longrightarrow> printable (pool_arg d q)"
  using int_text_plain [of q] by (auto simp: writable_def pool_arg_def printable_append printable_consts printable_Nil printable_Cons json_plain_def split: option.split)

definition pool_object :: "pool_details \<Rightarrow> int \<Rightarrow> string" where
  "pool_object d q = ''{'' @ write_member (if q \<noteq> 1 then ''quota'' else ''url'') (json_escape (pool_arg d q)) @ '','' @
     write_member ''user'' (json_escape (the (rpc_user d))) @ '','' @ write_member ''pass'' (json_escape (the (rpc_pass d))) @ newline @ tabs 1 @ ''}''"

lemma write_pool_object:
  assumes "writable d"
  shows "write_pool i d q = Some ((if i > 0 then '','' else []) @ newline @ tabs 1 @ pool_object d q)"
  using assms int_text_plain [of q]
  by (auto simp: writable_def write_pool_def pool_object_def pool_arg_def Let_def json_plain_def escape_append printable_consts split: option.split)

lemma names_plain: "json_plain ''quota''" "json_plain ''url''" "json_plain ''user''" "json_plain ''pass''" "json_plain ''pools''"
  by (simp_all add: json_plain_def printable_def)

lemma pool_object_text:
  assumes "writable d"
  shows "value_text strtod (chars (pool_object d q)) (pool_json d q)"
proof -
  let ?n = "if q \<noteq> 1 then ''quota'' else ''url''" and ?w = "newline @ tabs 2"
  have v: "value_text strtod (chars (quoted_text (json_escape (the (rpc_user d))))) (jstring (the (rpc_user d)))"
      "value_text strtod (chars (quoted_text (json_escape (the (rpc_pass d))))) (jstring (the (rpc_pass d)))"
      "value_text strtod (chars (quoted_text (json_escape (pool_arg d q)))) (jstring (pool_arg d q))"
    using assms pool_arg_printable [OF assms] by (auto simp: writable_def quoted_value)
  have w: "blank ?w" "blank []" "blank (newline @ tabs 1)" by (simp_all add: blank_consts blank_append)
  let ?m = "?w @ quoted_text ?n @ '' : '' @ quoted_text (json_escape (pool_arg d q)) @ [] @ '','' @
    ?w @ quoted_text ''user'' @ '' : '' @ quoted_text (json_escape (the (rpc_user d))) @ [] @ '','' @
    ?w @ quoted_text ''pass'' @ '' : '' @ quoted_text (json_escape (the (rpc_pass d))) @ newline @ tabs 1"
  have "members_text strtod (chars ?m)
      [(?n, jstring (pool_arg d q)), (''user'', jstring (the (rpc_user d))), (''pass'', jstring (the (rpc_pass d)))]"
    by (intro member_more member_end v w) (simp_all add: names_plain)
  from text_object [OF this]
  have "value_text strtod (chars (''{'' @ ?m @ ''}''))
      (JObject (json_object [(?n, jstring (pool_arg d q)), (''user'', jstring (the (rpc_user d))), (''pass'', jstring (the (rpc_pass d)))]))"
    by (simp only: chars_append) (simp add: chars_simps)
  moreover have "pool_object d q = ''{'' @ ?m @ ''}''" by (simp add: pool_object_def write_member_def)
  moreover have "json_object [(?n, jstring (pool_arg d q)), (''user'', jstring (the (rpc_user d))), (''pass'', jstring (the (rpc_pass d)))] =
      [(?n, jstring (pool_arg d q)), (''user'', jstring (the (rpc_user d))), (''pass'', jstring (the (rpc_pass d)))]"
    by (cases "q = 1") (simp_all add: json_object_def json_object_set_def)
  ultimately show ?thesis by (simp only: pool_json_def)
qed


text \<open>The lines of the options and of the strategy.\<close>

definition written :: "opt_table \<Rightarrow> string \<Rightarrow> config \<Rightarrow> (string \<times> string \<times> json) list" where
  "written opt name s =
     (let text = (\<lambda>t. [(name, quoted_text (json_escape t), jstring t)]);
          charp = (\<lambda>v. case cf_charps s v of None \<Rightarrow> [] | Some c \<Rightarrow> text c)
      in if op_hidden opt then []
         else case op_cb opt of
           Opt_set_bool v \<Rightarrow> if cf_bools s v then [(name, ''true'', JTrue)] else []
         | Opt_set_invbool v \<Rightarrow> if \<not> cf_bools s v then [(name, ''true'', JTrue)] else []
         | Opt_set_intval v \<Rightarrow> text (int_text (cf_ints s v))
         | Set_int_range v lo hi \<Rightarrow> text (int_text (cf_ints s v))
         | Opt_set_charp v \<Rightarrow> charp v
         | Set_sched_start v \<Rightarrow> charp v
         | Set_sched_stop v \<Rightarrow> charp v
         | Set_sharelog v \<Rightarrow> charp v
         | _ \<Rightarrow> [])"

lemma write_option_written: "write_option opt name s = Some t \<Longrightarrow> t = lines_of (written opt name s)"
  using int_text_plain
  by (cases "op_cb opt")
    (auto simp: write_option_def written_def Let_def json_plain_def split: if_splits option.splits)

definition strategy_lines :: "config \<Rightarrow> (string \<times> string \<times> json) list" where
  "strategy_lines s =
     (case pool_strategy (cs_pools (cf_control s)) of
        POOL_BALANCE \<Rightarrow> [(''balance'', ''true'', JTrue)]
      | POOL_LOADBALANCE \<Rightarrow> [(''load-balance'', ''true'', JTrue)]
      | POOL_ROUNDROBIN \<Rightarrow> [(''round-robin'', ''true'', JTrue)]
      | POOL_ROTATE \<Rightarrow> (let t = int_text (cf_ints s ''opt_rotate_period'') in [(''rotate'', quoted_text (json_escape t), jstring t)])
      | POOL_FAILOVER \<Rightarrow> [])"

lemma write_strategy_lines: "write_strategy s = lines_of (strategy_lines s)"
  using int_text_plain [of "cf_ints s ''opt_rotate_period''"]
  by (simp add: write_strategy_def strategy_lines_def json_plain_def Let_def split: pool_strategy.split)

lemma write_all_Some: "write_all ts = Some t \<Longrightarrow> t = concat (map the ts) \<and> None \<notin> set ts"
  by (induction ts arbitrary: t rule: write_all.induct) auto

definition file_lines :: "config \<Rightarrow> (string \<times> string \<times> json) list" where
  "file_lines s = concat (map (\<lambda>(opt, name). written opt name s) config_names) @ strategy_lines s"

lemma options_lines:
  "write_all (map (\<lambda>(opt, name). write_option opt name s) ns) = Some t \<Longrightarrow>
     t = lines_of (concat (map (\<lambda>(opt, name). written opt name s) ns))"
proof (induction ns arbitrary: t)
  case (Cons n ns)
  obtain opt name where n: "n = (opt, name)" by fastforce
  then show ?case using Cons.IH Cons.prems write_option_written [of opt name s] by (cases "write_option opt name s") auto
qed simp

text \<open>What a saved configuration says.\<close>

definition pools_json :: "config \<Rightarrow> json" where
  "pools_json s = JArray (map (\<lambda>a. pool_json (cs_details (cf_control s) a) (quota (ps_pool (cs_pools (cf_control s)) a))) (conf_pools s))"

definition config_json :: "config \<Rightarrow> json" where
  "config_json s = JObject (json_object ((''pools'', pools_json s) # map (\<lambda>(n, v, j). (n, j)) (file_lines s)))"

definition pool_objects :: "config \<Rightarrow> (string \<times> json) list" where
  "pool_objects s = map (\<lambda>a. let d = cs_details (cf_control s) a; q = quota (ps_pool (cs_pools (cf_control s)) a)
     in (pool_object d q, pool_json d q)) (conf_pools s)"

definition objects_string :: "(string \<times> json) list \<Rightarrow> string" where
  "objects_string L = (case L of [] \<Rightarrow> []
     | (t, j) # L \<Rightarrow> newline @ tabs 1 @ t @ concat (map (\<lambda>(t, j). '','' @ newline @ tabs 1 @ t) L))"

lemma objects_string_enum:
  "concat (map (\<lambda>i. (if i > 0 then '','' else []) @ newline @ tabs 1 @ fst (L ! i)) [0..<length L]) = objects_string L"
proof (cases L)
  case (Cons l L')
  have "concat (map (\<lambda>i. (if i > 0 then '','' else []) @ newline @ tabs 1 @ fst (L ! i)) [0..<length L]) =
      newline @ tabs 1 @ fst l @ concat (map (\<lambda>i. '','' @ newline @ tabs 1 @ fst (L' ! i)) [0..<length L'])"
    unfolding Cons by (simp add: upt_conv_Cons map_Suc_upt [symmetric] o_def del: upt_Suc)
  also have "map (\<lambda>i. '','' @ newline @ tabs 1 @ fst (L' ! i)) [0..<length L'] = map (\<lambda>(t, j). '','' @ newline @ tabs 1 @ t) L'"
    by (rule nth_equalityI) (auto simp: case_prod_unfold)
  finally show ?thesis by (simp add: objects_string_def Cons case_prod_unfold)
qed (simp add: objects_string_def)

lemma write_pools_string:
  assumes "write_pools s = Some t" "\<forall>a \<in> set (conf_pools s). writable (cs_details (cf_control s) a)"
  shows "t = objects_string (pool_objects s)"
proof -
  let ?L = "pool_objects s"
  have "write_pool i (cs_details (cf_control s) (conf_pools s ! i)) (quota (ps_pool (cs_pools (cf_control s)) (conf_pools s ! i))) =
      Some ((if i > 0 then '','' else []) @ newline @ tabs 1 @ fst (?L ! i))" if "i < length (conf_pools s)" for i
    using that assms(2) write_pool_object by (simp add: pool_objects_def Let_def)
  then have "map the (map (\<lambda>i. write_pool i (cs_details (cf_control s) (conf_pools s ! i)) (quota (ps_pool (cs_pools (cf_control s)) (conf_pools s ! i))))
      [0..<length (conf_pools s)]) = map (\<lambda>i. (if i > 0 then '','' else []) @ newline @ tabs 1 @ fst (?L ! i)) [0..<length (conf_pools s)]"
    by simp
  moreover have "length ?L = length (conf_pools s)" by (simp add: pool_objects_def)
  ultimately show ?thesis using write_all_Some [OF assms(1) [unfolded write_pools_def Let_def]] objects_string_enum [of ?L] by metis
qed

lemma pools_text:
  assumes "\<forall>a \<in> set (conf_pools s). writable (cs_details (cf_control s) a)"
  shows "value_text strtod (chars (''['' @ objects_string (pool_objects s) @ newline @ '']'')) (pools_json s)"
proof (cases "pool_objects s")
  case Nil
  then have "pools_json s = JArray []" by (simp add: pool_objects_def pools_json_def)
  then show ?thesis using Nil text_no_array [of "chars newline" strtod] blank_consts by (simp add: objects_string_def chars_simps blank_def)
next
  case (Cons l L)
  obtain t j where l: "l = (t, j)" by fastforce
  have "list_all (\<lambda>(t, j). value_text strtod (chars t) j) (pool_objects s)"
    using assms pool_object_text by (auto simp: pool_objects_def list_all_iff Let_def)
  then have "elements_text strtod (chars (objects_string (pool_objects s) @ newline)) (map snd (pool_objects s))"
    using objects_text [of strtod t j L] Cons l by (simp add: objects_string_def)
  from text_array [OF this] show ?thesis
    by (simp add: chars_simps pools_json_def pool_objects_def Let_def o_def case_prod_unfold)
qed


lemma lines_ok:
  assumes "\<forall>v c. cf_charps s v = Some c \<longrightarrow> printable c"
  shows "list_all (line_ok strtod) (file_lines s)"
proof -
  have n: "\<forall>(opt, name) \<in> set config_names. json_plain name"
    unfolding config_names_def opt_config_table_def long_names_def opt_entry_def by (simp add: json_plain_def printable_def)
  have v: "line_ok strtod (name, quoted_text (json_escape t), jstring t)" if "json_plain name" "printable t" for name t
    using that quoted_value printable_ascii by (simp add: line_ok_def quoted_text_def ascii_append ascii_Cons ascii_Nil)
  have t: "line_ok strtod (name, ''true'', JTrue)" if "json_plain name" for name using that text_true by (simp add: line_ok_def ascii_def)
  have p: "printable (int_text i)" for i using int_text_plain by (simp add: json_plain_def)
  have w: "list_all (line_ok strtod) (written opt name s)" if "json_plain name" for opt name
    using assms that by (cases "op_cb opt") (auto simp: written_def Let_def v t p split: option.split)
  moreover have "list_all (line_ok strtod) (strategy_lines s)"
    by (cases "pool_strategy (cs_pools (cf_control s))")
      (simp_all add: strategy_lines_def Let_def v t p json_plain_def [of "[]"] json_plain_def [of "c # cs" for c cs] printable_Cons printable_Nil)
  ultimately show ?thesis using n by (fastforce simp: file_lines_def list_all_iff)
qed


lemma lines_ascii: "list_all (line_ok strtod) L \<Longrightarrow> ascii (lines_of L)"
proof (induction L)
  case (Cons l L)
  then show ?case
    by (cases l) (auto simp: line_ok_def option_line_def quoted_text_def newline_def ascii_append ascii_Cons ascii_Nil json_plain_def dest: printable_ascii)
qed (simp add: ascii_Nil)

lemma blank_ascii: "ascii newline" "ascii (tabs n)"
  by (simp_all add: ascii_def newline_def tabs_def list_all_iff)

lemma pool_object_ascii: "writable d \<Longrightarrow> ascii (pool_object d q)"
  using pool_arg_printable [of d q]
  by (auto simp: pool_object_def write_member_def quoted_text_def ascii_append ascii_Cons ascii_Nil blank_ascii writable_def dest: printable_ascii)

lemma objects_ascii:
  assumes "\<forall>a \<in> set (conf_pools s). writable (cs_details (cf_control s) a)"
  shows "ascii (objects_string (pool_objects s))"
proof -
  have o: "list_all (\<lambda>(t, j). ascii t) (pool_objects s)" using assms pool_object_ascii by (simp add: pool_objects_def list_all_iff Let_def)
  have "ascii (concat (map (\<lambda>(t, j). '','' @ newline @ tabs 1 @ t) L))" if "list_all (\<lambda>(t, j). ascii t) L" for L :: "(string \<times> json) list"
    using that by (induction L) (auto simp: ascii_append ascii_Cons ascii_Nil blank_ascii)
  then show ?thesis using o by (cases "pool_objects s") (auto simp: objects_string_def ascii_append ascii_Nil blank_ascii)
qed

text \<open>Reading the text gives back what it says.\<close>

lemma saved_text_read:
  assumes "write_config s = Some out" and "\<forall>a \<in> set (conf_pools s). writable (cs_details (cf_control s) a)"
    and "\<forall>v c. cf_charps s v = Some c \<longrightarrow> printable c"
  shows "json_loadf strtod (chars out) = Some (config_json s)"
proof -
  let ?o = "objects_string (pool_objects s)" and ?L = "file_lines s"
  obtain ps opts where w: "write_pools s = Some ps" "write_all (map (\<lambda>(opt, name). write_option opt name s) config_names) = Some opts"
      "out = ''{'' @ newline @ quoted_text ''pools'' @ '' : ['' @ ps @ newline @ '']'' @ newline @ opts @ write_strategy s @ newline @ ''}'' @ newline"
    using assms(1) by (auto simp: write_config_def split: option.splits)
  let ?v = "''['' @ ?o @ newline @ '']''"
  let ?m = "newline @ quoted_text ''pools'' @ '' : '' @ ?v @ newline @ lines_of ?L @ newline"
  have out: "out = ''{'' @ ?m @ ''}'' @ newline"
    using w write_pools_string [OF w(1) assms(2)] options_lines [OF w(2)] by (simp add: file_lines_def write_strategy_lines)
  note lok = lines_ok [OF assms(3), of strtod]
  have v: "ascii ?v" using objects_ascii [OF assms(2)] by (simp add: ascii_append ascii_Cons ascii_Nil blank_ascii)
  then have "line_ok strtod (''pools'', ?v, pools_json s)" using pools_text [OF assms(2)] names_plain(5) by (simp add: line_ok_def)
  from text_object [OF lines_text [OF this lok blank_consts(2) blank_consts(2)]]
  have t: "value_text strtod (chars (''{'' @ ?m @ ''}'')) (config_json s)"
    unfolding config_json_def by (simp only: chars_append) (simp add: chars_simps)
  have a: "ascii out" unfolding out using v lines_ascii [OF lok] by (simp add: ascii_append ascii_Cons ascii_Nil blank_ascii quoted_text_def)
  have e: "[] @ chars (''{'' @ ?m @ ''}'') @ chars newline = chars out" unfolding out by (simp add: chars_simps)
  have "json_loads strtod ([] @ chars (''{'' @ ?m @ ''}'') @ chars newline) = Some (config_json s)"
  proof (rule text_understood [OF t])
    show "hd (chars (''{'' @ ?m @ ''}'')) = 0x5B \<or> hd (chars (''{'' @ ?m @ ''}'')) = 0x7B" by (simp add: chars_Cons)
  qed (use ascii_bytes [OF a] blank_consts in \<open>simp_all only: e blank_def is_ws_def list.pred_inject(1) chars_Nil simp_thms\<close>)
  moreover have "takeWhile (\<lambda>b. b \<noteq> 0) (chars out) = chars out" using ascii_bytes [OF a] by (auto simp: takeWhile_eq_all_conv)
  ultimately show ?thesis unfolding e json_loads_def by simp
qed

section \<open>Reading the pools\<close>

text \<open>The pools of a state with their details and quotas, in order, and its counts of options.\<close>

definition shape :: "config \<Rightarrow> (nat \<times> pool_details \<times> int) list \<Rightarrow> nat \<Rightarrow> nat \<Rightarrow> nat \<Rightarrow> bool" where
  "shape t A urls users passes \<longleftrightarrow>
     conf_pools t = map fst A \<and> distinct (map fst A) \<and> (\<forall>a \<in> fst ` set A. a < cf_next t) \<and>
     (\<forall>(a, d, q) \<in> set A. cs_details (cf_control t) a = d \<and> quota (ps_pool (cs_pools (cf_control t)) a) = q) \<and>
     total_urls t = urls \<and> total_users t = users \<and> total_passes t = passes \<and> total_userpasses t = 0"

lemma shape_add:
  assumes "shape t A u v w"
  shows "shape (conf_add_pool t) (A @ [(cf_next t, blank_details, 1)]) u v w"
proof -
  have "a < cf_next t \<Longrightarrow> quota (ps_pool (add_pool (cf_next t) (cs_pools (cf_control t))) a) = quota (ps_pool (cs_pools (cf_control t)) a)" for a
    by (simp add: add_pool_def Let_def adjust_keeps)
  moreover have "quota (ps_pool (add_pool (cf_next t) (cs_pools (cf_control t))) (cf_next t)) = 1"
    "pools (add_pool (cf_next t) (cs_pools (cf_control t))) = conf_pools t @ [cf_next t]"
    by (simp_all add: add_pool_def Let_def adjust_keeps)
  moreover have "a < cf_next t" if "(a, d, q) \<in> set A" for a d q using assms that by (force simp: shape_def)
  ultimately show ?thesis using assms
    by (fastforce simp: shape_def conf_add_pool_def on_control_def Let_def)
qed

lemma shape_details:
  assumes "shape t (A @ [(a, d, q)]) u v w"
  shows "shape (conf_details a f t) (A @ [(a, f d, q)]) u v w"
    and "shape (on_control (put_details a d') t) (A @ [(a, d', q)]) u v w"
    and "shape (on_control (\<lambda>c. c\<lparr>cs_pools := adjust_quota_gcd (upd_pool a (\<lambda>p. p\<lparr>quota := r\<rparr>) (cs_pools c))\<rparr>) t) (A @ [(a, d, r)]) u v w"
proof -
  have "b \<noteq> a" if "(b, e, x) \<in> set A" for b e x using assms that by (force simp: shape_def)
  then show "shape (conf_details a f t) (A @ [(a, f d, q)]) u v w"
    and "shape (on_control (put_details a d') t) (A @ [(a, d', q)]) u v w"
    and "shape (on_control (\<lambda>c. c\<lparr>cs_pools := adjust_quota_gcd (upd_pool a (\<lambda>p. p\<lparr>quota := r\<rparr>) (cs_pools c))\<rparr>) t) (A @ [(a, d, r)]) u v w"
    using assms by (auto simp: shape_def conf_details_def on_control_def put_details_def adjust_keeps)
qed

lemma shape_nth:
  assumes "shape t A u v w" "length A = n"
  obtains a t' where "nth_pool (Suc n) t = (a, t')" "shape t' (A @ [(a, blank_details, 1)]) u v w"
proof -
  note s = shape_add [OF assms(1)]
  have "conf_pools t = map fst A" "conf_pools (conf_add_pool t) = map fst A @ [cf_next t]" using assms(1) s by (simp_all add: shape_def)
  then have "nth_pool (Suc n) t = (cf_next t, conf_add_pool t)" using assms(2) by (simp add: nth_pool_def Let_def nth_append)
  then show ?thesis using that s by blast
qed

lemma shape_last: "shape t (A @ [(a, d, q)]) u v w \<Longrightarrow> length A = n \<Longrightarrow> nth_pool (Suc n) t = (a, t)"
  by (auto simp: nth_pool_def shape_def Let_def nth_append)

lemma set_pass_shape:
  assumes "shape t A u v (length A)"
  obtains a t' where "set_pass arg t = (None, t')" "shape t' (A @ [(a, blank_details\<lparr>rpc_pass := Some arg\<rparr>, 1)]) u v (Suc (length A))"
proof -
  have "shape (t\<lparr>total_passes := total_passes t + 1\<rparr>) A u v (Suc (length A))" using assms by (simp add: shape_def)
  then obtain a t' where t': "nth_pool (Suc (length A)) (t\<lparr>total_passes := total_passes t + 1\<rparr>) = (a, t')"
      "shape t' (A @ [(a, blank_details, 1)]) u v (Suc (length A))"
    by (rule shape_nth) simp_all
  have "set_pass arg t = (None, conf_details a (\<lambda>d. d\<lparr>rpc_pass := Some arg\<rparr>) t')"
    using assms t'(1) by (simp add: set_pass_def shape_def)
  then show ?thesis using that shape_details(1) [OF t'(2), of "\<lambda>d. d\<lparr>rpc_pass := Some arg\<rparr>"] by simp
qed

lemma set_user_shape:
  assumes "shape t (A @ [(a, d, q)]) u (length A) w"
  obtains t' where "set_user arg t = (None, t')" "shape t' (A @ [(a, d\<lparr>rpc_user := Some arg\<rparr>, q)]) u (Suc (length A)) w"
proof -
  have s: "shape (t\<lparr>total_users := total_users t + 1\<rparr>) (A @ [(a, d, q)]) u (Suc (length A)) w" using assms by (simp add: shape_def)
  have "set_user arg t = (None, conf_details a (\<lambda>d. d\<lparr>rpc_user := Some arg\<rparr>) (t\<lparr>total_users := total_users t + 1\<rparr>))"
    using assms shape_last [OF s refl] by (simp add: set_user_def shape_def)
  then show ?thesis using that shape_details(1) [OF s, of "\<lambda>d. d\<lparr>rpc_user := Some arg\<rparr>"] by simp
qed

lemma add_url_shape:
  assumes "shape t (A @ [(a, d, q)]) (length A) v w"
  obtains t' where "add_url t = (a, t')" "shape t' (A @ [(a, d, q)]) (Suc (length A)) v w"
proof -
  have s: "shape (t\<lparr>total_urls := total_urls t + 1\<rparr>) (A @ [(a, d, q)]) (Suc (length A)) v w" using assms by (simp add: shape_def)
  then show ?thesis using that assms shape_last [OF s refl] by (simp add: add_url_def shape_def)
qed

lemma set_url_shape:
  assumes "shape t (A @ [(a, d, q)]) (length A) v w" "setup_url d arg = Some d'"
  obtains t' where "set_url arg t = Some (None, t')" "shape t' (A @ [(a, d', q)]) (Suc (length A)) v w"
proof -
  obtain t1 where t1: "add_url t = (a, t1)" "shape t1 (A @ [(a, d, q)]) (Suc (length A)) v w" using add_url_shape [OF assms(1)] .
  then have "cs_details (cf_control t1) a = d" by (simp add: shape_def)
  then have "set_url arg t = Some (None, on_control (put_details a d') t1)"
    using t1(1) assms(2) by (simp add: set_url_def conf_setup_url_def)
  then show ?thesis using that shape_details(2) [OF t1(2)] by blast
qed

lemma set_quota_shape:
  assumes "shape t (A @ [(a, d, q)]) (length A) v w" "setup_url d url = Some d'"
    and "CHR '';'' \<notin> set num" "num \<noteq> []" "url \<noteq> []" "0 \<le> atoi num"
  obtains t' where "set_quota (num @ '';'' @ url) t = Some (None, t')" "shape t' (A @ [(a, d', atoi num)]) (Suc (length A)) v w"
proof -
  obtain t1 where t1: "add_url t = (a, t1)" "shape t1 (A @ [(a, d, q)]) (Suc (length A)) v w" using add_url_shape [OF assms(1)] .
  then have "cs_details (cf_control t1) a = d" by (simp add: shape_def)
  moreover have "strchr (num @ CHR '';'' # url) (CHR '';'') = Some (length num)" using strstr_char_first [OF assms(3)] by (simp add: strchr_def)
  moreover have "\<not> length url < 1" using assms(5) by (cases url) simp_all
  ultimately have "set_quota (num @ '';'' @ url) t = Some (None, on_control (\<lambda>c. c\<lparr>cs_pools := adjust_quota_gcd
      (upd_pool a (\<lambda>p. p\<lparr>quota := atoi num\<rparr>) (cs_pools c))\<rparr>) (on_control (put_details a d') t1))"
    using t1(1) assms(2,4,6) by (simp add: set_quota_def conf_setup_url_def Let_def)
  then show ?thesis using that shape_details(3) [OF shape_details(2) [OF t1(2)]] by blast
qed

text \<open>A pool that was set up by an option, and what comes back of it.\<close>

definition configured :: "pool_details \<Rightarrow> bool" where
  "configured d \<longleftrightarrow> (\<exists>arg d0 user pass. setup_url blank_details arg = Some d0 \<and> printable arg \<and> printable user \<and> printable pass \<and>
       d = d0\<lparr>rpc_user := Some user, rpc_pass := Some pass\<rparr>) \<and>
     rpc_url d \<noteq> Some [] \<and> CHR ''|'' \<notin> set (the (rpc_url d)) \<and> CHR '';'' \<notin> set (case rpc_proxy d of None \<Rightarrow> [] | Some x \<Rightarrow> x)"

definition restored :: "pool_details \<Rightarrow> int \<Rightarrow> pool_details \<times> int" where
  "restored d q = (if rpc_proxy d \<noteq> None \<and> q \<noteq> 1 then (strip_proxy d, 0) else (d, q))"

lemma printable_subset: "printable b \<Longrightarrow> set a \<subseteq> set b \<Longrightarrow> printable a"
  by (auto simp: printable_def list_all_iff)

lemma configured_writable: "configured d \<Longrightarrow> writable d"
proof -
  assume "configured d"
  then obtain arg d0 user pass where d: "setup_url blank_details arg = Some d0" "printable arg" "printable user" "printable pass"
      "d = d0\<lparr>rpc_user := Some user, rpc_pass := Some pass\<rparr>" by (auto simp: configured_def)
  obtain url where url: "rpc_url d0 = Some url" "set url \<subseteq> set (''stratum+tcp://'' @ arg)" "\<And>x. rpc_proxy d0 = Some x \<Longrightarrow> set x \<subseteq> set arg"
    using setup_url_again [OF d(1)] by metis
  have "printable (''stratum+tcp://'' @ arg)" using d(2) by (simp add: printable_def)
  then show ?thesis using d url printable_subset by (auto simp: writable_def)
qed

text \<open>The argument of \<open>url\<close> or \<open>quota\<close>, set on a pool that has its password.\<close>

lemma configured_url:
  assumes "configured d" "q = 1"
  obtains d' where "setup_url (blank_details\<lparr>rpc_pass := rpc_pass d\<rparr>) (pool_arg d q) = Some d'" "d'\<lparr>rpc_user := rpc_user d\<rparr> = d"
proof -
  obtain arg d0 user pass where d: "setup_url blank_details arg = Some d0" "d = d0\<lparr>rpc_user := Some user, rpc_pass := Some pass\<rparr>"
    using assms(1) by (auto simp: configured_def)
  obtain url where url: "rpc_url d0 = Some url" "rpc_proxy d0 = None \<Longrightarrow> setup_url blank_details url = Some d0"
      "\<And>x. rpc_proxy d0 = Some x \<Longrightarrow> setup_url blank_details (proxytype (rpc_proxytype d0) @ x @ ''|'' @ url) = Some d0"
    using setup_url_again [OF d(1)] by metis
  have "setup_url blank_details (pool_arg d q) = Some d0"
    using url assms(2) by (cases "rpc_proxy d0") (simp_all add: pool_arg_def d(2))
  then have "setup_url (blank_details\<lparr>rpc_pass := rpc_pass d\<rparr>) (pool_arg d q) = Some (d0\<lparr>rpc_pass := rpc_pass d\<rparr>)"
    by (simp add: setup_url_pass)
  then show ?thesis using that d(2) by simp
qed

lemma semicolon_free: "CHR '';'' \<notin> set (proxytype t)"
  by (cases t) (simp_all add: proxytype_def proxynames_def)

lemma atoi_name: "atoi (proxytype t @ s) = 0"
  by (cases t) (simp_all add: proxytype_def proxynames_def atoi_def isspace_def isdigit_def)

lemma configured_quota:
  assumes "configured d" "q \<noteq> 1" "0 \<le> q" "q < 2 ^ 31"
  obtains num url d' where "pool_arg d q = num @ '';'' @ url" "CHR '';'' \<notin> set num" "num \<noteq> []" "url \<noteq> []" "atoi num = snd (restored d q)"
    and "setup_url (blank_details\<lparr>rpc_pass := rpc_pass d\<rparr>) url = Some d'" "d'\<lparr>rpc_user := rpc_user d\<rparr> = fst (restored d q)"
proof -
  obtain arg d0 user pass where d: "setup_url blank_details arg = Some d0" "d = d0\<lparr>rpc_user := Some user, rpc_pass := Some pass\<rparr>"
    using assms(1) by (auto simp: configured_def)
  obtain url where url: "rpc_url d0 = Some url" "rpc_proxy d0 = None \<Longrightarrow> setup_url blank_details url = Some d0"
      "CHR ''|'' \<notin> set url \<Longrightarrow> setup_url blank_details url = Some (strip_proxy d0)"
    using setup_url_again [OF d(1)] by metis
  let ?num = "(case rpc_proxy d of None \<Rightarrow> [] | Some x \<Rightarrow> proxytype (rpc_proxytype d) @ x @ ''|'') @ int_text q"
  have digits: "\<forall>c \<in> set (int_text q). isdigit c" "int_text q \<noteq> []" using decimal_digits [of "nat q"] assms(3) by (simp_all add: int_text_def)
  have "CHR '';'' \<notin> set ?num"
    using digits(1) assms(1) semicolon_free by (auto simp: configured_def isdigit_def split: option.splits)
  moreover have "url \<noteq> []" using assms(1) d(2) url(1) by (auto simp: configured_def)
  moreover have "atoi ?num = snd (restored d q)"
    using atoi_int_text [of q] assms(2-4) atoi_name by (cases "rpc_proxy d") (simp_all add: restored_def)
  moreover have "setup_url blank_details url = Some (if rpc_proxy d0 = None then d0 else strip_proxy d0)"
    using url(2,3) assms(1) d(2) url(1) by (auto simp: configured_def)
  then have "setup_url (blank_details\<lparr>rpc_pass := rpc_pass d\<rparr>) url = Some ((if rpc_proxy d0 = None then d0 else strip_proxy d0)\<lparr>rpc_pass := rpc_pass d\<rparr>)"
    by (simp add: setup_url_pass)
  moreover have "(if rpc_proxy d0 = None then d0 else strip_proxy d0)\<lparr>rpc_pass := rpc_pass d\<rparr>\<lparr>rpc_user := rpc_user d\<rparr> = fst (restored d q)"
    using d(2) assms(2) by (simp add: restored_def strip_proxy_def)
  moreover have "pool_arg d q = ?num @ '';'' @ url" using assms(2) url(1) d(2) by (simp add: pool_arg_def split: option.split)
  ultimately show ?thesis using that [of ?num url] digits(2) by simp
qed

text \<open>Only the options a configuration names are looked at.\<close>

lemma parse_names_filter:
  "parse_names rec f config ns s = parse_names rec f config (filter (\<lambda>(opt, name). json_object_get (Some config) name \<noteq> None) ns) s"
  by (induction ns arbitrary: s) (auto split: run.split option.split)

lemma pool_names:
  "filter (\<lambda>(opt, name). name \<in> {''quota'', ''user'', ''pass''}) config_names =
     [(opt_entry ''--pass|-p'' OPT_HASARG Set_pass False, ''pass''), (opt_entry ''--quota|-U'' OPT_HASARG Set_quota False, ''quota''),
      (opt_entry ''--user|-u'' OPT_HASARG Set_user False, ''user'')]"
  "filter (\<lambda>(opt, name). name \<in> {''url'', ''user'', ''pass''}) config_names =
     [(opt_entry ''--pass|-p'' OPT_HASARG Set_pass False, ''pass''), (opt_entry ''--url|-o'' OPT_HASARG Set_url False, ''url''),
      (opt_entry ''--user|-u'' OPT_HASARG Set_user False, ''user'')]"
  unfolding config_names_def opt_config_table_def long_names_def opt_entry_def by simp_all

lemma jstring_option:
  "op_type opt = OPT_HASARG \<Longrightarrow> parse_option rec opt (jstring arg) s = (case cb_arg (op_cb opt) arg s of None \<Rightarrow> Faults | Some (e, s) \<Rightarrow> Returns e s)"
  by (simp add: parse_option_def jstring_def text_of_chars)

lemma pool_read:
  assumes "shape t A (length A) (length A) (length A)" "configured d" "0 \<le> q" "q < 2 ^ 31"
  obtains a t' where "parse_config (Suc m) env (pool_json d q) False t = Returns None t'"
    "shape t' (A @ [(a, restored d q)]) (Suc (length A)) (Suc (length A)) (Suc (length A))"
proof -
  let ?k = "if q \<noteq> 1 then ''quota'' else ''url''" and ?n = "length A"
  obtain user pass where up: "rpc_user d = Some user" "rpc_pass d = Some pass" using assms(2) by (auto simp: configured_def)
  obtain a t1 where t1: "set_pass pass t = (None, t1)" "shape t1 (A @ [(a, blank_details\<lparr>rpc_pass := Some pass\<rparr>, 1)]) ?n ?n (Suc ?n)"
    using set_pass_shape [OF assms(1)] .
  obtain d' t2 where t2: "(if q \<noteq> 1 then set_quota else set_url) (pool_arg d q) t1 = Some (None, t2)"
      "shape t2 (A @ [(a, d', snd (restored d q))]) (Suc ?n) ?n (Suc ?n)" "d'\<lparr>rpc_user := rpc_user d\<rparr> = fst (restored d q)"
  proof (cases "q = 1")
    case True
    obtain d' where d': "setup_url (blank_details\<lparr>rpc_pass := rpc_pass d\<rparr>) (pool_arg d q) = Some d'" "d'\<lparr>rpc_user := rpc_user d\<rparr> = d"
      using configured_url [OF assms(2) True] .
    obtain t2 where "set_url (pool_arg d q) t1 = Some (None, t2)" "shape t2 (A @ [(a, d', 1)]) (Suc ?n) ?n (Suc ?n)"
      using set_url_shape [OF t1(2)] d'(1) up by metis
    then show ?thesis using that [of t2 d'] d'(2) True by (simp add: restored_def)
  next
    case False
    obtain num url d' where c: "pool_arg d q = num @ '';'' @ url" "CHR '';'' \<notin> set num" "num \<noteq> []" "url \<noteq> []" "atoi num = snd (restored d q)"
        "setup_url (blank_details\<lparr>rpc_pass := rpc_pass d\<rparr>) url = Some d'" "d'\<lparr>rpc_user := rpc_user d\<rparr> = fst (restored d q)"
      using configured_quota [OF assms(2) False assms(3,4)] .
    have "0 \<le> atoi num" using c(5) assms(3) by (simp add: restored_def)
    then obtain t2 where "set_quota (num @ '';'' @ url) t1 = Some (None, t2)" "shape t2 (A @ [(a, d', atoi num)]) (Suc ?n) ?n (Suc ?n)"
      using set_quota_shape [OF t1(2) _ c(2,3,4)] c(6) up by metis
    then show ?thesis using that [of t2 d'] c False by simp
  qed
  obtain t3 where t3: "set_user user t2 = (None, t3)" "shape t3 (A @ [(a, restored d q)]) (Suc ?n) (Suc ?n) (Suc ?n)"
    using set_user_shape [OF t2(2)] t2(3) up by (metis prod.collapse)
  have g: "json_object_get (Some (pool_json d q)) name = (if name = ?k then Some (jstring (pool_arg d q))
      else if name = ''user'' then Some (jstring user) else if name = ''pass'' then Some (jstring pass) else None)" for name
    by (simp add: pool_json_def up)
  have "parse_names rec False (pool_json d q) config_names t = Returns None t3" for rec
  proof (cases "q = 1")
    case True
    note g1 = g [unfolded True, simplified]
    have "(\<lambda>(opt, name). json_object_get (Some (pool_json d q)) name \<noteq> None) = (\<lambda>(opt :: opt_table, name). name \<in> {''url'', ''user'', ''pass''})"
      by (auto simp: g1 True fun_eq_iff)
    from parse_names_filter [of rec False "pool_json d q" config_names t, unfolded this pool_names]
    show ?thesis using t1(1) t2(1) t3(1) by (simp add: g1 True jstring_option opt_entry_def cb_arg_def)
  next
    case False
    then have "(\<lambda>(opt, name). json_object_get (Some (pool_json d q)) name \<noteq> None) = (\<lambda>(opt :: opt_table, name). name \<in> {''quota'', ''user'', ''pass''})"
      by (auto simp: g fun_eq_iff)
    from parse_names_filter [of rec False "pool_json d q" config_names t, unfolded this pool_names]
    show ?thesis using t1(1) t2(1) t3(1) False by (simp add: g jstring_option opt_entry_def cb_arg_def)
  qed
  then have "parse_config (Suc m) env (pool_json d q) False t = Returns None t3" by (simp add: parse_level_def g)
  then show ?thesis using that t3(2) by blast
qed

lemma parse_values_pool:
  "parse_values rec cb (pool_json d q # js) s = (case rec (pool_json d q) s of Returns None s \<Rightarrow> parse_values rec cb js s | r \<Rightarrow> r)"
  by (simp add: pool_json_def)

lemma pools_read:
  assumes "shape t A (length A) (length A) (length A)" "\<forall>(d, q) \<in> set P. configured d \<and> 0 \<le> q \<and> q < 2 ^ 31"
  obtains t' B where "parse_values (\<lambda>j. parse_config (Suc m) env j False) cb (map (\<lambda>(d, q). pool_json d q) P) t = Returns None t'"
    "shape t' (A @ B) (length (A @ B)) (length (A @ B)) (length (A @ B))" "map snd B = map (\<lambda>(d, q). restored d q) P"
  using assms
proof (induction P arbitrary: A t thesis)
  case Nil
  show ?case by (rule Nil(1) [of t "[]"]) (use Nil(2) in simp_all)
next
  case (Cons p P)
  obtain d q where p: "p = (d, q)" by fastforce
  then have dq: "configured d" "0 \<le> q" "q < 2 ^ 31" using Cons.prems(3) by auto
  obtain a t1 where t1: "parse_config (Suc m) env (pool_json d q) False t = Returns None t1"
      "shape t1 (A @ [(a, restored d q)]) (Suc (length A)) (Suc (length A)) (Suc (length A))"
    using pool_read [OF Cons.prems(2) dq] .
  obtain t2 B where t2: "parse_values (\<lambda>j. parse_config (Suc m) env j False) cb (map (\<lambda>(d, q). pool_json d q) P) t1 = Returns None t2"
      "shape t2 ((A @ [(a, restored d q)]) @ B) (length ((A @ [(a, restored d q)]) @ B)) (length ((A @ [(a, restored d q)]) @ B)) (length ((A @ [(a, restored d q)]) @ B))"
      "map snd B = map (\<lambda>(d, q). restored d q) P"
    using Cons.IH [where A = "A @ [(a, restored d q)]" and t = t1] t1(2) Cons.prems(3) by (auto simp del: parse_config.simps)
  show ?case
    by (rule Cons.prems(1) [of t2 "(a, restored d q) # B"]) (use t1(1) t2 p in \<open>simp_all add: parse_values_pool del: parse_config.simps parse_values.simps\<close>)
qed

section \<open>The options of a saved configuration\<close>

lemma map_of_replaced:
  "map_of (map (\<lambda>(b, w). if b = a then (b, v) else (b, w)) kvs) k = (if k = a \<and> a \<in> fst ` set kvs then Some v else map_of kvs k)"
proof (induction kvs)
  case (Cons p kvs)
  obtain b w where p: "p = (b, w)" by fastforce
  show ?case unfolding p using Cons by (cases "b = a"; cases "k = a"; cases "k = b") simp_all
qed simp

lemma map_of_json_object_set: "map_of (json_object_set kvs a v) k = (if k = a then Some v else map_of kvs k)"
proof (cases "a \<in> fst ` set kvs")
  case False
  then have "map_of kvs a = None" by (simp add: map_of_eq_None_iff)
  then show ?thesis using False by (simp add: json_object_set_def map_add_def split: option.split)
next
  case True
  then show ?thesis by (simp add: json_object_set_def map_of_replaced)
qed

lemma map_of_json_object: "map_of (json_object ps) k = map_of (rev ps) k"
proof -
  have "map_of (foldl (\<lambda>kvs (k, v). json_object_set kvs k v) kvs ps) k = (case map_of (rev ps) k of None \<Rightarrow> map_of kvs k | Some v \<Rightarrow> Some v)" for kvs
  proof (induction ps arbitrary: kvs)
    case (Cons p ps)
    obtain a v where p: "p = (a, v)" by fastforce
    show ?case unfolding p using Cons by (simp add: map_of_json_object_set map_add_def split: option.split)
  qed simp
  then show ?thesis by (simp add: json_object_def split: option.split)
qed

lemma names_distinct: "distinct (map snd config_names)"
  unfolding config_names_def opt_config_table_def long_names_def opt_entry_def by simp

definition quiet :: "opt_cb \<Rightarrow> bool" where
  "quiet cb \<longleftrightarrow> cb \<notin> {Set_url, Set_quota, Set_user, Set_pass, Set_userpass}"

lemma loud_names: "(opt, name) \<in> set config_names \<Longrightarrow> \<not> quiet (op_cb opt) \<Longrightarrow> name \<in> {''url'', ''quota'', ''user'', ''pass'', ''userpass''}"
proof -
  have "\<forall>(opt, name) \<in> set config_names. quiet (op_cb opt) \<or> name \<in> {''url'', ''quota'', ''user'', ''pass'', ''userpass''}"
    unfolding config_names_def opt_config_table_def long_names_def opt_entry_def by (simp add: quiet_def)
  then show "(opt, name) \<in> set config_names \<Longrightarrow> \<not> quiet (op_cb opt) \<Longrightarrow> name \<in> {''url'', ''quota'', ''user'', ''pass'', ''userpass''}"
    by blast
qed

lemma no_include: "''include'' \<notin> snd ` set config_names"
  unfolding config_names_def opt_config_table_def long_names_def opt_entry_def by simp

lemma shape_keeps:
  assumes "shape s A u v w" "conf_pools s' = conf_pools s" "cf_next s' = cf_next s" "cs_details (cf_control s') = cs_details (cf_control s)"
    and "ps_pool (cs_pools (cf_control s')) = ps_pool (cs_pools (cf_control s))" "total_urls s' = total_urls s" "total_users s' = total_users s"
    and "total_passes s' = total_passes s" "total_userpasses s' = total_userpasses s"
  shows "shape s' A u v w"
  using assms by (simp add: shape_def)

lemma cb_arg_quiet: "quiet cb \<Longrightarrow> shape s A u v w \<Longrightarrow> \<exists>e s'. cb_arg cb arg s = Some (e, s') \<and> shape s' A u v w"
  by (cases cb)
    (auto simp: quiet_def cb_arg_def set_int_range_def set_strategy_def on_control_def intro: shape_keeps split: option.split prod.split)

lemma cb_noarg_quiet: "shape s A u v w \<Longrightarrow> shape (cb_noarg cb s) A u v w"
  by (cases cb) (auto simp: cb_noarg_def set_strategy_def on_control_def intro: shape_keeps)

definition simple :: "json \<Rightarrow> bool" where
  "simple j \<longleftrightarrow> (\<exists>t. j = jstring t) \<or> j = JTrue"

lemma parse_option_quiet:
  assumes "quiet (op_cb opt)" "simple val" "shape s A u v w"
  shows "\<exists>e s'. parse_option rec opt val s = Returns e s' \<and> shape s' A u v w"
proof (cases "val = JTrue")
  case True
  then show ?thesis using assms(3) cb_noarg_quiet by (simp add: parse_option_def)
next
  case False
  then obtain t where t: "val = jstring t" using assms(2) by (auto simp: simple_def)
  obtain e s' where "cb_arg (op_cb opt) t s = Some (e, s')" "shape s' A u v w" using cb_arg_quiet [OF assms(1,3)] by blast
  then show ?thesis using assms(3) by (cases "op_type opt = OPT_NOARG") (simp_all add: t jstring_def parse_option_def text_of_chars)
qed

lemma parse_names_quiet:
  assumes "\<forall>(opt, name) \<in> set ns. \<forall>val. json_object_get (Some config) name = Some val \<longrightarrow> quiet (op_cb opt) \<and> simple val"
    and "shape s A u v w"
  shows "\<exists>s'. parse_names rec True config ns s = Returns None s' \<and> shape s' A u v w"
  using assms
proof (induction ns arbitrary: s)
  case (Cons n ns)
  obtain opt name where n: "n = (opt, name)" by fastforce
  show ?case
  proof (cases "json_object_get (Some config) name")
    case None
    then have "parse_names rec True config (n # ns) s = parse_names rec True config ns s" by (simp add: n)
    then show ?thesis using Cons.IH [OF _ Cons.prems(2)] Cons.prems(1) by simp
  next
    case (Some val)
    then have "quiet (op_cb opt)" "simple val" using Cons.prems(1) n by auto
    then obtain e s1 where s1: "parse_option rec opt val s = Returns e s1" "shape s1 A u v w"
      using parse_option_quiet Cons.prems(2) by blast
    let ?s = "if e = None then s1 else s1\<lparr>fileconf_load := - 1\<rparr>"
    have "shape ?s A u v w" using s1(2) by (auto intro: shape_keeps)
    moreover have "parse_names rec True config (n # ns) s = parse_names rec True config ns ?s"
      using s1(1) Some by (cases e) (simp_all add: n)
    ultimately show ?thesis using Cons.IH [of ?s] Cons.prems(1) by simp
  qed
qed simp

lemma parse_names_append:
  "parse_names rec f config (xs @ ys) s = (case parse_names rec f config xs s of Returns None s \<Rightarrow> parse_names rec f config ys s | r \<Rightarrow> r)"
  by (induction rec f config xs s rule: parse_names.induct) (auto split: option.split run.split)

lemma written_quiet: "(n, v, j) \<in> set (written opt name s) \<Longrightarrow> n = name \<and> quiet (op_cb opt) \<and> simple j"
  by (cases "op_cb opt") (auto simp: written_def Let_def quiet_def simple_def split: if_splits option.splits)

lemma file_lines_quiet:
  assumes "(opt, name) \<in> set config_names" "(name, v, j) \<in> set (file_lines s)"
  shows "quiet (op_cb opt) \<and> simple j"
proof (cases "(name, v, j) \<in> set (strategy_lines s)")
  case True
  then have "name \<in> {''balance'', ''load-balance'', ''round-robin'', ''rotate''}" "simple j"
    by (auto simp: strategy_lines_def simple_def Let_def split: pool_strategy.splits)
  then show ?thesis using loud_names [OF assms(1)] by auto
next
  case False
  then obtain opt' name' where o: "(opt', name') \<in> set config_names" "(name, v, j) \<in> set (written opt' name' s)"
    using assms(2) by (auto simp: file_lines_def)
  then have "name' = name" using written_quiet by blast
  then have "(opt', name) = (opt, name)"
    using names_distinct o(1) assms(1) inj_onD [of snd "set config_names" "(opt', name)" "(opt, name)"] by (simp add: distinct_map)
  then show ?thesis using written_quiet o(2) by blast
qed

lemma strategy_names: "(n, v, j) \<in> set (strategy_lines s) \<Longrightarrow> n \<in> {''balance'', ''load-balance'', ''round-robin'', ''rotate''}"
  by (auto simp: strategy_lines_def Let_def split: pool_strategy.splits)

lemma file_line_names: "(n, v, j) \<in> set (file_lines s) \<Longrightarrow> n \<in> snd ` set config_names \<and> n \<noteq> ''pools''"
proof -
  have c: "{''balance'', ''load-balance'', ''round-robin'', ''rotate''} \<subseteq> snd ` set config_names"
    "\<forall>(opt, name) \<in> set config_names. name = ''pools'' \<longrightarrow> op_hidden opt"
    unfolding config_names_def opt_config_table_def long_names_def opt_entry_def by simp_all
  assume "(n, v, j) \<in> set (file_lines s)"
  then consider "(n, v, j) \<in> set (strategy_lines s)" | opt name where "(opt, name) \<in> set config_names" "(n, v, j) \<in> set (written opt name s)"
    by (auto simp: file_lines_def)
  then show ?thesis
  proof cases
    case 1
    then show ?thesis using strategy_names c(1) by blast
  next
    case 2
    then have "n = name" "\<not> op_hidden opt" using written_quiet by (blast, auto simp: written_def Let_def)
    then show ?thesis using 2(1) c(2) by force
  qed
qed

lemma config_json_get:
  "json_object_get (Some (config_json s)) ''pools'' = Some (pools_json s)"
  "name \<noteq> ''pools'' \<Longrightarrow> json_object_get (Some (config_json s)) name = Some val \<Longrightarrow> \<exists>v. (name, v, val) \<in> set (file_lines s)"
  "json_object_get (Some (config_json s)) ''include'' = None"
proof -
  let ?L = "map (\<lambda>(n, v, j). (n, j)) (file_lines s)"
  have g: "json_object_get (Some (config_json s)) k = map_of (rev ?L @ [(''pools'', pools_json s)]) k" for k
    unfolding config_json_def json_object_get.simps map_of_json_object by simp
  have "map_of (rev ?L) ''pools'' = None" using file_line_names [of "''pools''" _ _ s] by (fastforce simp: map_of_eq_None_iff)
  then show "json_object_get (Some (config_json s)) ''pools'' = Some (pools_json s)" unfolding g by (simp add: map_add_def)
  show "\<exists>v. (name, v, val) \<in> set (file_lines s)" if "name \<noteq> ''pools''" "json_object_get (Some (config_json s)) name = Some val"
  proof -
    have "map_of (rev ?L) name = Some val" using that unfolding g by (simp add: map_add_def split: option.splits)
    then have "(name, val) \<in> set ?L" using map_of_SomeD by fastforce
    then show ?thesis by auto
  qed
  have "map_of (rev ?L) ''include'' = None" using file_line_names [of "''include''" _ _ s] no_include by (fastforce simp: map_of_eq_None_iff)
  then show "json_object_get (Some (config_json s)) ''include'' = None" unfolding g by (simp add: map_add_def)
qed

section \<open>Saved and read again\<close>

definition pools_opt :: opt_table where
  "pools_opt = opt_entry ''--pools'' OPT_HASARG Set_pools True"

lemma pools_name: "(pools_opt, ''pools'') \<in> set config_names"
  unfolding config_names_def opt_config_table_def long_names_def opt_entry_def pools_opt_def by simp

definition pool_entries :: "config \<Rightarrow> (pool_details \<times> int) list" where
  "pool_entries s = map (\<lambda>a. (cs_details (cf_control s) a, quota (ps_pool (cs_pools (cf_control s)) a))) (conf_pools s)"

lemma parse_pools: "parse_option rec pools_opt (pools_json s) t = parse_values rec Set_pools (map (\<lambda>(d, q). pool_json d q) (pool_entries s)) t"
  by (simp add: parse_option_def pools_opt_def opt_entry_def pools_json_def pool_entries_def o_def)

lemma config_json_quiet:
  assumes "set ns \<subseteq> set config_names" "''pools'' \<notin> snd ` set ns"
  shows "\<forall>(opt, name) \<in> set ns. \<forall>val. json_object_get (Some (config_json s)) name = Some val \<longrightarrow> quiet (op_cb opt) \<and> simple val"
proof -
  have "quiet (op_cb opt) \<and> simple val" if n: "(opt, name) \<in> set ns" and g: "json_object_get (Some (config_json s)) name = Some val" for opt name val
  proof -
    have "name \<noteq> ''pools''" using n assms(2) by force
    then obtain v where "(name, v, val) \<in> set (file_lines s)" using config_json_get(2) g by blast
    then show ?thesis using file_lines_quiet assms(1) n by blast
  qed
  then show ?thesis by blast
qed

lemma config_read:
  assumes "shape t [] 0 0 0" "\<forall>(d, q) \<in> set (pool_entries s). configured d \<and> 0 \<le> q \<and> q < 2 ^ 31"
  obtains t' B where "parse_config (Suc (Suc m)) env (config_json s) True t = Returns None t'"
    "shape t' B (length B) (length B) (length B)" "map snd B = map (\<lambda>(d, q). restored d q) (pool_entries s)"
proof -
  let ?rec = "\<lambda>j. parse_config (Suc m) env j False" and ?c = "config_json s"
  obtain xs ys where ns: "config_names = xs @ (pools_opt, ''pools'') # ys" using split_list [OF pools_name] by blast
  have d: "''pools'' \<notin> snd ` set xs" "''pools'' \<notin> snd ` set ys" using names_distinct unfolding ns by auto
  have xs: "\<forall>(opt, name) \<in> set xs. \<forall>val. json_object_get (Some ?c) name = Some val \<longrightarrow> quiet (op_cb opt) \<and> simple val"
    using d(1) by (intro config_json_quiet) (auto simp: ns)
  have ys: "\<forall>(opt, name) \<in> set ys. \<forall>val. json_object_get (Some ?c) name = Some val \<longrightarrow> quiet (op_cb opt) \<and> simple val"
    using d(2) by (intro config_json_quiet) (auto simp: ns)
  let ?t = "if fileconf_load t = 0 then t\<lparr>fileconf_load := 1\<rparr> else t"
  have "shape ?t [] 0 0 0" using assms(1) by (auto intro: shape_keeps)
  from parse_names_quiet [OF xs this, of ?rec]
  obtain t1 where t1: "parse_names ?rec True ?c xs ?t = Returns None t1" "shape t1 [] 0 0 0" by auto
  obtain t2 B where t2: "parse_values ?rec Set_pools (map (\<lambda>(d, q). pool_json d q) (pool_entries s)) t1 = Returns None t2"
      "shape t2 B (length B) (length B) (length B)" "map snd B = map (\<lambda>(d, q). restored d q) (pool_entries s)"
    by (rule pools_read [of t1 "[]" "pool_entries s" m env Set_pools]) (use t1(2) assms(2) in \<open>simp_all del: parse_config.simps\<close>)
  obtain t3 where t3: "parse_names ?rec True ?c ys t2 = Returns None t3" "shape t3 B (length B) (length B) (length B)"
    using parse_names_quiet [OF ys t2(2), of ?rec] by auto
  have "parse_names ?rec True ?c config_names ?t = Returns None t3"
    unfolding ns parse_names_append t1(1) by (simp add: config_json_get(1) parse_pools t2(1) t3(1) del: parse_config.simps)
  then have "parse_config (Suc (Suc m)) env ?c True t = Returns None t3"
    by (subst parse_config.simps) (simp add: parse_level_def config_json_get(3) del: parse_config.simps)
  then show ?thesis using that t3(2) t2(3) by blast
qed

text \<open>C0: a saved configuration, read by a miner that has no pools yet, gives the pools back: the same
  pools in the same order, each with all its address fields, its user, its password and its quota,
  if it was set up by an option with printable text. The exception is a pool behind a proxy
  whose quota is not one: the proxy is written before the quota, and read as part of it, so the
  pool comes back without its proxy and with quota zero.\<close>

theorem saved_pools_restored:
  assumes "write_config s = Some out"
    and "\<forall>(d, q) \<in> set (pool_entries s). configured d \<and> 0 \<le> q \<and> q < 2 ^ 31"
    and "\<forall>v c. cf_charps s v = Some c \<longrightarrow> printable c"
    and "\<not> is_web arg" "ev_file env arg = Some (chars out)" "include_count t < 10"
    and "conf_pools t = []" "total_urls t = 0" "total_users t = 0" "total_passes t = 0" "total_userpasses t = 0"
  shows "\<exists>t'. load_config env (parse_config (Suc (Suc m)) env) arg t = Returns None t' \<and>
    pool_entries t' = map (\<lambda>(d, q). if rpc_proxy d \<noteq> None \<and> q \<noteq> 1 then (strip_proxy d, 0) else (d, q)) (pool_entries s)"
proof -
  have "\<forall>a \<in> set (conf_pools s). writable (cs_details (cf_control s) a)"
    using assms(2) configured_writable by (auto simp: pool_entries_def)
  then have j: "json_loadf (ev_strtod env) (chars out) = Some (config_json s)" using saved_text_read assms(1,3) by blast
  let ?t = "t\<lparr>cnfbuf := (case cnfbuf t of None \<Rightarrow> Some arg | b \<Rightarrow> b), include_count := include_count t + 1, config_loaded := True\<rparr>"
  have "shape ?t [] 0 0 0" using assms(7-) by (simp add: shape_def)
  then obtain t' B where t': "parse_config (Suc (Suc m)) env (config_json s) True ?t = Returns None t'"
    "shape t' B (length B) (length B) (length B)" "map snd B = map (\<lambda>(d, q). restored d q) (pool_entries s)"
    using config_read [OF _ assms(2)] by metis
  have "pool_entries t' = map snd B" using t'(2) by (auto simp: shape_def pool_entries_def)
  moreover obtain kvs where kvs: "config_json s = JObject kvs" by (simp add: config_json_def)
  moreover have "load_config env (parse_config (Suc (Suc m)) env) arg t = Returns None t'"
    using t'(1) j assms(4-6) unfolding kvs by (simp add: load_config_def Let_def del: parse_config.simps)
  ultimately show ?thesis using t'(3) by (simp add: restored_def case_prod_unfold)
qed

end
