(* ===== verification/Spec2Isabelle.thy ===== *)
theory Spec2Isabelle
  imports Sha256 Sha2 KernelModule Userspace Edc Klist Work_Hash Encoding Thread_Queue Pools Url Pool_Control Share_Submit Stratum_Work Stratum_Line Gbt Stratum_Share Stratum_Thread Gbt_Solo Submit_Upstream Timeval Mining_Loop Edc_Mining Watchdog Api_Access Proxy Stratum_Connect Json_Grammar Config_Saved
begin

text \<open>
  \<^bold>\<open>The program.\<close> The repository is a Bitcoin miner on a Zynq board: a SHA-256 accelerator in
  programmable logic, its Linux driver (\<open>src/kernel_module\<close>), a small library and a test
  program for it (\<open>src/sha256\<close>, \<open>src/userspace_app\<close>) and the miner \<open>src/cgminer\<close>, a
  cgminer with one driver added (\<open>driver-edc.c\<close>). Work comes from a pool, as a stratum job, a
  block template or a getwork reply; it is staged in a queue, handed to a device thread, searched
  by the accelerator through the driver, and every nonce found is tested and submitted.

  \<^bold>\<open>Theories and code.\<close>
  \<^item> \<open>Prelude\<close>: words, bytes, memory regions and the collections of simplification rules.
    \<open>Fifo\<close>: the interface of a queue driven by events (locale \<open>fifo\<close>), interpreted by the
    driver's message list, the item stores and the thread queues. \<open>Fips\<close>: SHA-256 as FIPS
    180-4 states it. \<open>Hash_Stream\<close>: the interface of a hash fed in pieces (locale
    \<open>hash_stream\<close>), interpreted by both implementations.
  \<^item> \<open>Sha256\<close>: \<open>src/sha256/sha256.c\<close>. The context is \<open>sha256_context\<close>; the unrolled
    round macros are \<open>P_macro\<close>, \<open>R_macro\<close> and \<open>sha256_process\<close>.
  \<^item> \<open>Sha2\<close>: \<open>src/cgminer/sha2.c\<close>. \<open>Work_Hash\<close>: byte order, double hash, midstate and
    merkle branch of \<open>miner.h\<close> and \<open>cgminer.c\<close>. \<open>Encoding\<close>: hexadecimal, base 58,
    script numbers and \<open>fulltest\<close> of \<open>util.c\<close>.
  \<^item> \<open>KernelModule\<close>: \<open>sha256_accel.c\<close>; the state is \<open>kernel\<close> (message queue, clock and
    accelerator registers, resources), one function per file operation, the interrupt handler,
    load and unload. \<open>Device_Calls\<close>: the calls programs make on it. \<open>Userspace\<close>: the test
    program. \<open>Edc\<close>: the miner's driver.
  \<^item> \<open>Klist\<close>: \<open>klist.c\<close>, doubly linked lists on a heap of items. \<open>Thread_Queue\<close>:
    \<open>thread_q\<close> of \<open>util.c\<close>.
  \<^item> \<open>Pools\<close>, \<open>Pool_Control\<close>, \<open>Url\<close>: \<open>struct pool\<close>, its selection by the five
    strategies, the pool commands of \<open>api.c\<close> and of the menu, addresses.
  \<^item> \<open>Work\<close>, \<open>Work_Queue\<close>, \<open>Share_Submit\<close>: \<open>struct work\<close>, time rolling, the table of
    recent blocks, the staged queue, cloning, nonces, shares, and the queue of a device. The
    counters and options these functions share are the record \<open>miner\<close>.
  \<^item> \<open>Json\<close>, \<open>Stratum\<close>, \<open>Stratum_Work\<close>, \<open>Stratum_Line\<close>, \<open>Gbt\<close>: the
    protocols with a pool or a node and the work generated from them. \<open>Gbt_Solo\<close>: mining on a
    node alone.
  \<^item> \<open>Stratum_Share\<close>: the shares in flight: send threads, the table of shares that wait for an
    answer, the answers and their counters; what the threads do is a sequence of events.
    \<open>Stratum_Thread\<close>: the turns of the receive thread, composed from the line reader, the
    protocol, the block table and the share table. \<open>Submit_Upstream\<close>: shares and blocks sent by
    HTTP.
  \<^item> \<open>Timeval\<close>: the arithmetic of times in \<open>util.c\<close>. \<open>Mining_Loop\<close>: the mining threads
    (\<open>miner_thread\<close> and the loops \<open>hash_sole_work\<close>, \<open>hash_queued_work\<close>,
    \<open>hash_driver_work\<close>); \<open>Edc_Mining\<close>: the same loop with the accelerator's driver in it.
    \<open>Watchdog\<close>: both watching threads, the daily schedule, and the commands that enable and
    disable a device.
  \<^item> \<open>Api_Access\<close>: the server of \<open>api.c\<close>: which client may run which command, the buffer of
    a reply, single and joined requests. The functions of the commands are arguments; those of the
    pools and devices are in \<open>Pool_Control\<close> and \<open>Watchdog\<close>.
  \<^item> \<open>Proxy\<close>: the dialogue with a proxy and \<open>setup_stratum_socket\<close>.
    \<open>Stratum_Connect\<close>: subscribing, authorising and restarting a connection, composed from the
    messages of \<open>Stratum\<close>.
  \<^item> \<open>Json_Load\<close>: the parser of the bundled jansson (\<open>load.c\<close>, \<open>utf.c\<close>), from the bytes
    of the source to a value of \<open>Json\<close>. \<open>Json_Grammar\<close>: the grammar of JSON as inductive
    relations and the proof that the parser decides it.

  \<^bold>\<open>Conventions.\<close> Machine integers are words where they wrap in the code or are bytes of a
  message, and \<open>int\<close> or \<open>nat\<close> for counters. A buffer is the list of its bytes; \<open>None\<close> stands
  for a memory or kernel fault. A function that holds a lock is one step; a thread that sleeps
  is a pair of steps. Devices, the allocator, user memory, floating-point results and received
  bytes are arguments.

  \<^bold>\<open>What the lemmas show.\<close> Both SHA-256 implementations compute FIPS 180-4 for every message
  and way of cutting it, and agree. The driver keeps its invariant in every sequence of calls and
  interrupts, delivers messages in order and never faults on the modelled paths, except for the
  clock request of zero. The miner's driver programs the accelerator through the driver; its mask
  is compared with the target. Pools stay numbered and the strategies return what they promise.
  The queue of work never returns stale work, clones differ pairwise, and a nonce becomes a share
  exactly when the hash meets the target. Decoding of a job or template is inverse to its
  encoding, and the header built commits to the coinbase and the transactions by the full merkle
  tree. A share is counted exactly once whatever the order of threads, its parameters lead the pool
  to the header that was tested, and no share holds a send thread for ever; a clean job makes all
  earlier work stale. A mining thread searches only fresh work, gives every item up and reports every
  hash once; the watchdog stops and resumes threads by the schedule without losing a wake-up, and
  declares silent devices sick and dead in time. A client of the API runs only commands its group
  may run, its reply never overruns the buffer, and the reply to joined commands is composed of
  their replies. Behind a proxy that grants the request the pool's protocol starts at the right
  byte, and a connection that is accepted has the pool's session and job. The JSON parser accepts
  exactly the grammar and gives the value it means. Where the code does not do what it means to, a theorem states what it does.

  \<^bold>\<open>Bounds and termination.\<close> Every definition is total but one, the search of a proxy's
  answer for the blank line (\<open>skip_headers\<close>): a theorem states when it never returns and a
  lemma when it does. Loops over lists, words and counters
  are structural; the loops that wait (\<open>read_loop\<close>, \<open>recv_loop\<close>, \<open>get_work_loop\<close>,
  \<open>main_wait_reset\<close>, \<open>edc_wait_ready\<close>, \<open>edc_select_loop\<close>) recurse over the events or replies
  given, the loops of a thread over the turns (clock readings and replies of the driver) it makes, and a
  theorem about them shows that they return. The depth of the calls of \<open>parse_value\<close> is bounded
  by twice the bytes of the text plus one, and it is proved that this bound is never reached. Messages are below \<open>2 ^ 29\<close> bytes
  for \<open>sha2.c\<close>, whose count of bits has 32 bits, and of any length for \<open>sha256.c\<close>.

  \<^bold>\<open>Not modelled.\<close> The drivers of other vendors' devices, USB and SPI access, logging and the
  display, option parsing, the sockets themselves and curl, the statistics of the API, vendored
  libraries, VHDL and generated board files: they are input and output, third-party code or not
  used by this system. Share difficulties and targets computed with doubles are arguments.
\<close>

section \<open>Properties across components\<close>

text \<open>the two hash implementations of the repository agree: the accelerator project's
\<open>sha256.c\<close> and the miner's \<open>sha2.c\<close> give the same digest for every message shorter than
\<open>2 ^ 29\<close> bytes.\<close>

theorem hash_implementations_agree:
  assumes "length (ctx_buffer c1) = 64" and "length (cg_block c2) = 128"
    and "length d1 = 32" and "length d2 = 32" and "length m < 2 ^ 29"
  shows "snd (sha256_finish (sha256_update (sha256_init c1) m) d1) = cg_sha256 c2 m d2"
  using accel.digest_one [of c1 d1 m] cg_sha256_is_spec [of c2 d2 m] assms by simp

theorem hash_implementations_agree_witness:
  "snd (sha256_finish (sha256_update (sha256_init stale_context) [1, 2, 3]) (replicate 32 0)) =
   cg_sha256 stale_ctx [1, 2, 3] (replicate 32 5)"
  using hash_implementations_agree [of stale_context stale_ctx "replicate 32 0" "replicate 32 5" "[1, 2, 3]"]
  by (simp add: stale_context_def stale_ctx_def)

lemma rev_words_le32: "rev_words (concat (map le32_bytes ws)) = concat (map be32_bytes ws)"
proof (induction ws)
  case (Cons w ws)
  have "rev_words (le32_bytes w @ concat (map le32_bytes ws)) = rev (le32_bytes w) @ rev_words (concat (map le32_bytes ws))"
    by (subst rev_words_append) (simp_all add: layout rev_words_4)
  moreover have "rev (le32_bytes w) = be32_bytes w" by (metis rev_be32_bytes rev_rev_ident)
  ultimately show ?case using Cons by simp
qed simp



end
